(* ===== verification/Pdk_Prelude.thy ===== *)
theory Pdk_Prelude
  imports Main "HOL-Library.Word"
begin

text \<open>
  Shared types, hints and list lemmas of the development.

  Bytes are \<open>8 word\<close>, UTF-16 code units \<open>16 word\<close>, C's \<open>unsigned int\<close> is
  \<open>32 word\<close>.  A C \<open>int\<close> or \<open>pint64\<close> whose overflow would be undefined behaviour is
  modelled as \<open>int\<close>.  A block of raw memory is a list of bytes; \<open>mem_write\<close> is
  \<open>memcpy\<close>, \<open>memmove\<close> or \<open>memset\<close> into it, \<open>set_length\<close> is a change of the length
  of a block whose new cells are uninitialised: they hold whatever the parameter
  \<open>junk\<close> says.
\<close>

type_synonym byte = "8 word"
type_synonym u16 = "16 word"
type_synonym u32 = "32 word"
type_synonym memory = "nat \<Rightarrow> byte"

named_theorems mem_simps \<open>reading and writing blocks of memory\<close>

section \<open>C arithmetic\<close>

text \<open>Division and remainder of C on \<open>int\<close>: truncation towards zero.\<close>

definition c_div :: "int \<Rightarrow> int \<Rightarrow> int" where
  "c_div a b = (if (a < 0) = (b < 0) then \<bar>a\<bar> div \<bar>b\<bar> else - (\<bar>a\<bar> div \<bar>b\<bar>))"

definition c_mod :: "int \<Rightarrow> int \<Rightarrow> int" where
  "c_mod a b = a - b * c_div a b"

lemma c_div_nonneg [simp]: "0 \<le> a \<Longrightarrow> 0 < b \<Longrightarrow> c_div a b = a div b"
  by (simp add: c_div_def)

lemma c_mod_nonneg [simp]: "0 \<le> a \<Longrightarrow> 0 < b \<Longrightarrow> c_mod a b = a mod b"
  by (simp add: c_mod_def minus_mult_div_eq_mod)

lemma c_div_neg: "a < 0 \<Longrightarrow> 0 < b \<Longrightarrow> c_div a b = - ((- a) div b)"
  by (simp add: c_div_def)

lemma c_mod_neg: "a < 0 \<Longrightarrow> 0 < b \<Longrightarrow> c_mod a b = - ((- a) mod b)"
  using minus_mult_div_eq_mod [of "- a" b] by (simp add: c_mod_def c_div_neg)

section \<open>Blocks of memory\<close>

definition mem_write :: "'a list \<Rightarrow> nat \<Rightarrow> 'a list \<Rightarrow> 'a list" where
  "mem_write xs i ys = take i xs @ ys @ drop (i + length ys) xs"

definition mem_read :: "'a list \<Rightarrow> nat \<Rightarrow> nat \<Rightarrow> 'a list" where
  "mem_read xs i n = take n (drop i xs)"

definition set_length :: "(nat \<Rightarrow> 'a) \<Rightarrow> 'a list \<Rightarrow> nat \<Rightarrow> 'a list" where
  "set_length junk xs n = (if n \<le> length xs then take n xs else xs @ map junk [length xs..<n])"

lemma length_mem_write [simp]: "i + length ys \<le> length xs \<Longrightarrow> length (mem_write xs i ys) = length xs"
  by (simp add: mem_write_def)

lemma length_mem_read [simp]: "length (mem_read xs i n) = min (length xs - i) n"
  by (simp add: mem_read_def)

lemma length_set_length [simp]: "length (set_length junk xs n) = n"
  by (simp add: set_length_def)

lemma set_length_grow [mem_simps]:
  "length xs \<le> n \<Longrightarrow> set_length junk xs n = xs @ map junk [length xs..<n]"
  by (auto simp: set_length_def)

lemma set_length_shrink [mem_simps]: "n \<le> length xs \<Longrightarrow> set_length junk xs n = take n xs"
  by (simp add: set_length_def)

lemma take_set_length [simp]: "k \<le> length xs \<Longrightarrow> k \<le> n \<Longrightarrow> take k (set_length junk xs n) = take k xs"
  by (simp add: set_length_def min_def)

lemma mem_write_nil [simp]: "mem_write xs i [] = xs"
  by (simp add: mem_write_def)

lemma mem_write_append1 [mem_simps]:
  "i + length ys \<le> length xs \<Longrightarrow> mem_write (xs @ zs) i ys = mem_write xs i ys @ zs"
  by (simp add: mem_write_def)

lemma mem_write_append2 [mem_simps]:
  "length xs \<le> i \<Longrightarrow> mem_write (xs @ zs) i ys = xs @ mem_write zs (i - length xs) ys"
  by (simp add: mem_write_def)

lemma nth_mem_write:
  "i + length ys \<le> length xs \<Longrightarrow> k < length xs \<Longrightarrow>
   mem_write xs i ys ! k = (if i \<le> k \<and> k < i + length ys then ys ! (k - i) else xs ! k)"
  by (auto simp: mem_write_def nth_append)

lemma mem_write_single: "i < length xs \<Longrightarrow> mem_write xs i [y] = xs[i := y]"
  by (simp add: mem_write_def upd_conv_take_nth_drop)

lemma mem_read_write [simp]:
  "i + length ys \<le> length xs \<Longrightarrow> mem_read (mem_write xs i ys) i (length ys) = ys"
  by (simp add: mem_write_def mem_read_def)

lemma map_upt_shift: "map f [i..<i + n] = map (\<lambda>k. f (i + k)) [0..<n]"
  by (induction n) auto

end
