(* ===== verification/Alloc_Growth.thy ===== *)
theory Alloc_Growth
  imports Pdk_Prelude
begin

unbundle bit_operations_syntax

text \<open>
  Block sizes of containers: \<open>calculate_block_size\<close> and \<open>calculate_growing_block_size\<close> of
  \<open>src/utils/MemoryHelper.cpp\<close>, the overflow tests of \<open>include/pdk/global/Numeric.h\<close>
  and both versions of \<open>next_power_of_two\<close> of \<open>include/pdk/kernel/Math.h\<close> (the one
  that counts leading zeros and the portable one that smears the top bit).

  A \<open>size_t\<close> is a \<open>nat\<close> (64 bits, so below \<open>size_max + 1\<close>), an \<open>unsigned int\<close> is
  \<open>32 word\<close> with its wrap-around.
\<close>

section \<open>Overflow tests\<close>

definition add_overflow :: "u32 \<Rightarrow> u32 \<Rightarrow> bool \<times> u32" where
  "add_overflow value1 value2 = (value1 > value1 + value2, value1 + value2)"

definition mul_overflow :: "u32 \<Rightarrow> u32 \<Rightarrow> bool \<times> u32" where
  "mul_overflow value1 value2 =
     (let lr = (ucast value1 :: 64 word) * ucast value2
      in (lr > ucast (0xFFFFFFFF :: u32), ucast lr))"

lemma add_overflow_fst: "fst (add_overflow a b) \<longleftrightarrow> 2 ^ 32 \<le> unat a + unat b"
proof -
  have "unat (a + b) = (unat a + unat b) mod 2 ^ 32"
    by (simp add: unat_word_ariths)
  moreover have "unat a < 2 ^ 32" "unat b < 2 ^ 32"
    using unsigned_less [of a] unsigned_less [of b] by simp_all
  ultimately show ?thesis
    by (cases "unat a + unat b < 2 ^ 32")
      (auto simp: add_overflow_def word_less_nat_alt mod_if)
qed

lemma add_overflow_snd: "\<not> fst (add_overflow a b) \<Longrightarrow> unat (snd (add_overflow a b)) = unat a + unat b"
  by (simp add: add_overflow_fst) (simp add: add_overflow_def unat_word_ariths)

lemma mul_overflow_lr: "unat ((ucast a :: 64 word) * ucast (b :: u32)) = unat (a :: u32) * unat b"
proof -
  have "unat a < 2 ^ 32" "unat b < 2 ^ 32"
    using unsigned_less [of a] unsigned_less [of b] by simp_all
  then have "unat a * unat b < 2 ^ 32 * 2 ^ 32"
    by (intro mult_strict_mono) auto
  moreover have "take_bit 64 (unat a) = unat a" "take_bit 64 (unat b) = unat b"
    using \<open>unat a < 2 ^ 32\<close> \<open>unat b < 2 ^ 32\<close> by (simp_all add: take_bit_nat_eq_self)
  ultimately show ?thesis
    by (simp add: unat_word_ariths unsigned_ucast_eq)
qed

lemma mul_overflow_fst: "fst (mul_overflow a b) \<longleftrightarrow> 2 ^ 32 \<le> unat a * unat b"
proof -
  have "unat (ucast (0xFFFFFFFF :: u32) :: 64 word) = 2 ^ 32 - 1"
    by (simp add: unsigned_ucast_eq)
  then show ?thesis
    by (auto simp: mul_overflow_def Let_def word_less_nat_alt mul_overflow_lr)
qed

lemma mul_overflow_snd: "\<not> fst (mul_overflow a b) \<Longrightarrow> unat (snd (mul_overflow a b)) = unat a * unat b"
  by (simp add: mul_overflow_fst) (simp add: mul_overflow_def Let_def unsigned_ucast_eq mul_overflow_lr take_bit_nat_eq_self)

section \<open>The next power of two\<close>

text \<open>
  \<open>pdk_builtin_clz\<close> is a compiler intrinsic: the number of leading zeros of a non-zero
  word, 32 minus the number of digits of the value in binary.
\<close>

fun bitlen :: "nat \<Rightarrow> nat" where
  "bitlen n = (if n = 0 then 0 else Suc (bitlen (n div 2)))"

declare bitlen.simps [simp del]

definition builtin_clz :: "u32 \<Rightarrow> nat" where
  "builtin_clz v = 32 - bitlen (unat v)"

definition next_power_of_two_clz :: "u32 \<Rightarrow> u32" where
  "next_power_of_two_clz value =
     (if value = 0 then 1 else push_bit (31 XOR builtin_clz value) 2)"

definition next_power_of_two :: "u32 \<Rightarrow> u32" where
  "next_power_of_two value =
     (let value = value OR drop_bit 1 value;
          value = value OR drop_bit 2 value;
          value = value OR drop_bit 4 value;
          value = value OR drop_bit 8 value;
          value = value OR drop_bit 16 value
      in value + 1)"

lemma bitlen_0 [simp]: "bitlen 0 = 0"
  by (simp add: bitlen.simps)

lemma bitlen_pos [simp]: "0 < n \<Longrightarrow> 0 < bitlen n"
  by (simp add: bitlen.simps)

lemma less_bitlen_iff: "k < bitlen n \<longleftrightarrow> 2 ^ k \<le> n"
proof (induction n arbitrary: k rule: bitlen.induct)
  case (1 n)
  show ?case
  proof (cases "n = 0")
    case False
    with 1 show ?thesis
      by (cases k) (auto simp: bitlen.simps [of n] less_eq_div_iff_mult_less_eq ac_simps)
  qed simp
qed

lemma bitlen_le: "n < 2 ^ k \<Longrightarrow> bitlen n \<le> k"
  using less_bitlen_iff [of k n] by linarith

lemma less_pow_bitlen: "n < 2 ^ bitlen n"
  using less_bitlen_iff [of "bitlen n" n] by linarith

lemma pow_bitlen_le: "0 < n \<Longrightarrow> 2 ^ bitlen n \<le> 2 * n"
  using less_bitlen_iff [of "bitlen n - 1" n] by (cases "bitlen n") auto

definition smeared :: "u32 \<Rightarrow> nat \<Rightarrow> u32 \<Rightarrow> bool" where
  "smeared v k w \<longleftrightarrow> (\<forall>n. bit w n \<longleftrightarrow> (\<exists>j<k. bit v (n + j)))"

lemma smeared_1: "smeared v 1 v"
  by (simp add: smeared_def)

lemma smeared_step: "smeared v k w \<Longrightarrow> smeared v (k + k) (w OR drop_bit k w)"
proof -
  assume a: "smeared v k w"
  have "(\<exists>j<k + k. bit v (n + j)) \<longleftrightarrow> (\<exists>j<k. bit v (n + j)) \<or> (\<exists>j<k. bit v (k + n + j))" for n
  proof
    assume "\<exists>j<k + k. bit v (n + j)"
    then obtain j where "j < k + k" "bit v (n + j)" by blast
    then show "(\<exists>j<k. bit v (n + j)) \<or> (\<exists>j<k. bit v (k + n + j))"
      by (cases "j < k") (auto intro: exI [of _ "j - k"])
  next
    assume "(\<exists>j<k. bit v (n + j)) \<or> (\<exists>j<k. bit v (k + n + j))"
    then show "\<exists>j<k + k. bit v (n + j)"
    proof
      assume "\<exists>j<k. bit v (k + n + j)"
      then obtain j where "j < k" "bit v (k + n + j)" by blast
      then show ?thesis by (intro exI [of _ "k + j"]) (simp add: ac_simps)
    qed (meson trans_less_add1)
  qed
  with a show ?thesis
    by (simp add: smeared_def bit_or_iff bit_drop_bit_eq)
qed

lemma smeared_32: "smeared v 32 w \<Longrightarrow> w = mask (bitlen (unat v))"
proof (rule bit_word_eqI)
  fix n
  assume s: "smeared v 32 w" and n: "n < LENGTH(32)"
  have b32: "j < 32" if "bit v (n + j)" for j
    using bit_imp_le_length [OF that] by simp
  then have "(\<exists>j<32. bit v (n + j)) \<longleftrightarrow> (\<exists>j. bit v (n + j))"
    by blast
  also have "\<dots> \<longleftrightarrow> (\<exists>j. bit (drop_bit n v) j)"
    by (simp only: bit_drop_bit_eq comp_def)
  also have "\<dots> \<longleftrightarrow> drop_bit n v \<noteq> 0"
    by (auto intro!: bit_eqI)
  also have "\<dots> \<longleftrightarrow> 2 ^ n \<le> unat v"
  proof -
    have "drop_bit n v \<noteq> 0 \<longleftrightarrow> unat (drop_bit n v) \<noteq> 0" by (simp add: word_unat_eq_iff)
    also have "\<dots> \<longleftrightarrow> unat v div 2 ^ n \<noteq> 0"
      unfolding unat_drop_bit_eq by (simp add: drop_bit_eq_div)
    finally show ?thesis by (simp add: div_eq_0_iff not_less)
  qed
  also have "\<dots> \<longleftrightarrow> n < bitlen (unat v)"
    by (simp add: less_bitlen_iff)
  finally show "bit w n \<longleftrightarrow> bit (mask (bitlen (unat v)) :: u32) n"
    using s n by (simp add: smeared_def bit_mask_iff)
qed

lemma bitlen_u32: "bitlen (unat (v :: u32)) \<le> 32"
  using unsigned_less [of v] by (intro bitlen_le) simp

lemma next_power_of_two_eq: "next_power_of_two v = 2 ^ bitlen (unat v)"
proof -
  define v1 where "v1 = v OR drop_bit 1 v"
  define v2 where "v2 = v1 OR drop_bit 2 v1"
  define v3 where "v3 = v2 OR drop_bit 4 v2"
  define v4 where "v4 = v3 OR drop_bit 8 v3"
  define v5 where "v5 = v4 OR drop_bit 16 v4"
  have "smeared v 2 v1" using smeared_step [OF smeared_1] by (simp add: v1_def numeral_2_eq_2)
  from smeared_step [OF this] have "smeared v 4 v2" by (simp add: v2_def)
  from smeared_step [OF this] have "smeared v 8 v3" by (simp add: v3_def)
  from smeared_step [OF this] have "smeared v 16 v4" by (simp add: v4_def)
  from smeared_step [OF this] have "smeared v 32 v5" by (simp add: v5_def)
  then have "v5 = mask (bitlen (unat v))" by (rule smeared_32)
  then show ?thesis
    by (simp add: next_power_of_two_def Let_def v5_def v4_def v3_def v2_def v1_def mask_eq_exp_minus_1)
qed

lemma xor_31: "0 < l \<Longrightarrow> l \<le> 32 \<Longrightarrow> 31 XOR (32 - l) = l - (1 :: nat)"
proof -
  have "\<forall>l \<in> {1..32}. 31 XOR (32 - l) = l - (1 :: nat)" by code_simp
  then show "0 < l \<Longrightarrow> l \<le> 32 \<Longrightarrow> 31 XOR (32 - l) = l - (1 :: nat)" by auto
qed

lemma next_power_of_two_clz_eq: "next_power_of_two_clz v = 2 ^ bitlen (unat v)"
proof (cases "v = 0")
  case False
  then have pos: "0 < bitlen (unat v)" by (simp add: unat_gt_0)
  have "push_bit (bitlen (unat v) - 1) (2 :: u32) = 2 ^ bitlen (unat v)"
    using pos by (cases "bitlen (unat v)") (simp_all add: push_bit_eq_mult)
  then show ?thesis
    using False pos xor_31 [OF pos bitlen_u32]
    by (simp add: next_power_of_two_clz_def builtin_clz_def)
qed (simp add: next_power_of_two_clz_def)

section \<open>Block sizes\<close>

definition size_max :: nat where
  "size_max = 2 ^ 64 - 1"

definition int_negative :: "u32 \<Rightarrow> bool" where
  "int_negative w \<longleftrightarrow> sint w < 0"

definition calculate_block_size :: "nat \<Rightarrow> nat \<Rightarrow> nat \<Rightarrow> nat" where
  "calculate_block_size elementCount elementSize headerSize =
     (let count = of_nat elementCount :: u32;
          size = of_nat elementSize :: u32;
          header = of_nat headerSize :: u32
      in if unat count \<noteq> elementCount then size_max
         else let (overflowed, bytes) = mul_overflow size count
              in if overflowed then size_max
                 else let (overflowed, bytes) = add_overflow bytes header
                      in if overflowed then size_max
                         else if int_negative bytes then size_max
                         else unat bytes)"

record growing_block =
  m_elementCount :: nat
  m_size :: nat

definition calculate_growing_block_size :: "nat \<Rightarrow> nat \<Rightarrow> nat \<Rightarrow> growing_block" where
  "calculate_growing_block_size elementCount elementSize headerSize =
     (let bytes = of_nat (calculate_block_size elementCount elementSize headerSize) :: u32
      in if int_negative bytes then \<lparr>m_elementCount = size_max, m_size = size_max\<rparr>
         else let moreBytes = next_power_of_two bytes;
                  bytes = (if int_negative moreBytes then bytes + (moreBytes - bytes) div 2
                           else moreBytes)
              in \<lparr>m_elementCount = unat ((bytes - of_nat headerSize) div of_nat elementSize),
                  m_size = unat bytes\<rparr>)"

lemma int_negative_iff: "int_negative w \<longleftrightarrow> 2 ^ 31 \<le> unat w"
proof -
  have "int_negative w \<longleftrightarrow> bit w 31"
    using bit_last_iff [of w] by (simp add: int_negative_def)
  also have "\<dots> \<longleftrightarrow> bit (unat w) 31"
    by (simp add: bit_unsigned_iff)
  also have "\<dots> \<longleftrightarrow> odd (unat w div 2 ^ 31)"
    by (simp only: bit_iff_odd)
  also have "\<dots> \<longleftrightarrow> 2 ^ 31 \<le> unat w"
  proof (cases "unat w < 2 ^ 31")
    case False
    then have "unat w div 2 ^ 31 = 1"
      using unsigned_less [of w] by (intro div_nat_eqI) simp_all
    with False show ?thesis by simp
  qed simp
  finally show ?thesis .
qed

text \<open>The exact value: the product and sum where they fit in an \<open>int\<close>, else the marker.\<close>

lemma calculate_block_size_eq:
  assumes "elementSize < 2 ^ 32" "headerSize < 2 ^ 32"
  shows "calculate_block_size elementCount elementSize headerSize =
     (if elementCount < 2 ^ 32 \<and> elementCount * elementSize + headerSize < 2 ^ 31
      then elementCount * elementSize + headerSize else size_max)"
proof (cases "elementCount < 2 ^ 32")
  case False
  have "unat (of_nat elementCount :: u32) < 2 ^ 32"
    using unsigned_less [of "of_nat elementCount :: u32"] by simp
  with False have "unat (of_nat elementCount :: u32) \<noteq> elementCount" by linarith
  with False show ?thesis
    by (simp add: calculate_block_size_def Let_def)
next
  case True
  define c where "c = (of_nat elementCount :: u32)"
  define s where "s = (of_nat elementSize :: u32)"
  define h where "h = (of_nat headerSize :: u32)"
  have u: "unat c = elementCount" "unat s = elementSize" "unat h = headerSize"
    using True assms by (simp_all add: c_def s_def h_def unat_of_nat)
  obtain o1 b1 where m: "mul_overflow s c = (o1, b1)" by fastforce
  obtain o2 b2 where a: "add_overflow b1 h = (o2, b2)" by fastforce
  have o1: "o1 \<longleftrightarrow> 2 ^ 32 \<le> elementSize * elementCount"
    using mul_overflow_fst [of s c] m u by simp
  have b1: "\<not> o1 \<Longrightarrow> unat b1 = elementSize * elementCount"
    using mul_overflow_snd [of s c] m u by simp
  have o2: "\<not> o1 \<Longrightarrow> o2 \<longleftrightarrow> 2 ^ 32 \<le> elementSize * elementCount + headerSize"
    using add_overflow_fst [of b1 h] a u b1 by simp
  have b2: "\<not> o1 \<Longrightarrow> \<not> o2 \<Longrightarrow> unat b2 = elementSize * elementCount + headerSize"
    using add_overflow_snd [of b1 h] a u b1 by simp
  show ?thesis
    using True m a o1 o2 b2 u unfolding calculate_block_size_def
    by (simp add: Let_def int_negative_iff mult.commute flip: c_def s_def h_def)
qed


text \<open>The grown block, in closed form: the next power of two, or halfway to two gigabytes.\<close>

definition grown :: "nat \<Rightarrow> nat" where
  "grown b = (if b < 2 ^ 30 then 2 ^ bitlen b else b + (2 ^ 31 - b) div 2)"

lemma grown_bounds:
  assumes "b < 2 ^ 31"
  shows "b \<le> grown b" and "grown b < 2 ^ 31" and "0 < b \<Longrightarrow> grown b \<le> 2 * b"
proof -
  show "b \<le> grown b"
    using less_pow_bitlen [of b] by (simp add: grown_def)
  show "grown b < 2 ^ 31"
  proof (cases "b < 2 ^ 30")
    case True
    then have "bitlen b \<le> 30" by (rule bitlen_le)
    then have "2 ^ bitlen b \<le> (2 ^ 30 :: nat)" by (rule power_increasing) simp
    with True show ?thesis by (simp add: grown_def)
  next
    case False
    with assms show ?thesis by (simp add: grown_def)
  qed
  show "0 < b \<Longrightarrow> grown b \<le> 2 * b"
    using pow_bitlen_le [of b] by (auto simp: grown_def)
qed

lemma unat_next_power_of_two: "bitlen (unat v) < 32 \<Longrightarrow> unat (next_power_of_two v) = 2 ^ bitlen (unat v)"
proof -
  assume l: "bitlen (unat v) < 32"
  then have "2 ^ bitlen (unat v) < (2 ^ 32 :: nat)" by (rule power_strict_increasing) simp
  then have "unat (of_nat (2 ^ bitlen (unat v)) :: u32) = 2 ^ bitlen (unat v)"
    by (simp only: unat_of_nat) simp
  then show ?thesis by (simp add: next_power_of_two_eq)
qed

lemma growing_bytes:
  assumes "unat b < 2 ^ 31"
  shows "unat (if int_negative (next_power_of_two b) then b + (next_power_of_two b - b) div 2
               else next_power_of_two b) = grown (unat b)"
proof (cases "unat b < 2 ^ 30")
  case True
  then have l: "bitlen (unat b) \<le> 30" by (rule bitlen_le)
  then have "2 ^ bitlen (unat b) \<le> (2 ^ 30 :: nat)" by (rule power_increasing) simp
  with l True show ?thesis
    by (simp add: grown_def int_negative_iff unat_next_power_of_two)
next
  case False
  have "bitlen (unat b) \<le> 31" using assms by (rule bitlen_le)
  moreover have "30 < bitlen (unat b)" using False by (simp add: less_bitlen_iff)
  ultimately have l: "bitlen (unat b) = 31" by simp
  then have n: "unat (next_power_of_two b) = 2 ^ 31"
    by (simp add: unat_next_power_of_two)
  then have "b \<le> next_power_of_two b"
    using assms by (simp add: word_le_nat_alt)
  then have "unat ((next_power_of_two b - b) div 2) = (2 ^ 31 - unat b) div 2"
    using n by (simp add: unat_div_distrib unat_sub)
  then have "unat (b + (next_power_of_two b - b) div 2) = unat b + (2 ^ 31 - unat b) div 2"
    using assms by (subst unat_add_lem [THEN iffD1]) simp_all
  with False n show ?thesis
    by (simp add: grown_def int_negative_iff)
qed

lemma calculate_growing_block_size_eq:
  assumes "0 < elementSize" "elementSize < 2 ^ 32" "headerSize < 2 ^ 32"
    and fits: "elementCount * elementSize + headerSize < 2 ^ 31"
  defines "b \<equiv> elementCount * elementSize + headerSize"
  shows "calculate_growing_block_size elementCount elementSize headerSize =
     \<lparr>m_elementCount = (grown b - headerSize) div elementSize, m_size = grown b\<rparr>"
proof -
  have "elementCount \<le> elementCount * elementSize" using assms(1) by simp
  then have "elementCount < 2 ^ 31" using fits by (rule order.strict_trans1 [OF le_add1 [THEN [2] order.trans]])
  then have c: "elementCount < 2 ^ 32" by simp
  have "b < 2 ^ 32" using fits by (simp add: b_def)
  then have ub: "unat (of_nat b :: u32) = b" by (simp add: unat_of_nat)
  have uh: "unat (of_nat headerSize :: u32) = headerSize"
    using assms(3) by (simp add: unat_of_nat)
  have us: "unat (of_nat elementSize :: u32) = elementSize"
    using assms(2) by (simp add: unat_of_nat)
  define g where "g = (if int_negative (next_power_of_two (of_nat b)) then
      of_nat b + (next_power_of_two (of_nat b) - of_nat b) div 2
      else next_power_of_two (of_nat b))"
  have g: "unat g = grown b"
    using growing_bytes [of "of_nat b"] fits unfolding g_def ub by (simp add: b_def)
  have "headerSize \<le> grown b"
    using grown_bounds(1) [of b] fits by (simp add: b_def)
  then have "unat (g - of_nat headerSize) = grown b - headerSize"
    using g uh by (simp add: unat_sub word_le_nat_alt)
  then have "unat ((g - of_nat headerSize) div of_nat elementSize) = (grown b - headerSize) div elementSize"
    using us by (simp add: unat_div_distrib)
  moreover have "calculate_block_size elementCount elementSize headerSize = b"
    using calculate_block_size_eq [OF assms(2,3), of elementCount] c fits by (simp add: b_def)
  moreover have "\<not> int_negative (of_nat b)"
    using ub fits by (simp add: int_negative_iff b_def)
  ultimately show ?thesis
    using g by (simp add: calculate_growing_block_size_def Let_def flip: g_def)
qed

lemma calculate_growing_block_size_overflow:
  assumes "elementSize < 2 ^ 32" "headerSize < 2 ^ 32"
    and "2 ^ 32 \<le> elementCount \<or> 2 ^ 31 \<le> elementCount * elementSize + headerSize"
  shows "calculate_growing_block_size elementCount elementSize headerSize =
     \<lparr>m_elementCount = size_max, m_size = size_max\<rparr>"
proof -
  have "calculate_block_size elementCount elementSize headerSize = size_max"
    using calculate_block_size_eq [OF assms(1,2), of elementCount] assms(3) by auto
  moreover have "int_negative (of_nat size_max)"
    by (simp add: int_negative_iff size_max_def unat_of_nat)
  ultimately show ?thesis
    by (simp add: calculate_growing_block_size_def Let_def)
qed


section \<open>Properties\<close>

text \<open>C31: a growing block is never smaller than what was asked for, never more than twice as large,
  stays below the 2 GB limit, and the element count returned fits in it; a request that does
  not fit is answered with the all-ones size instead of a wrapped-around one.\<close>

theorem growing_block_bounds:
  fixes elementCount elementSize headerSize :: nat
  assumes "0 < elementSize" "elementSize < 2 ^ 32" "headerSize < 2 ^ 32"
  defines "b \<equiv> elementCount * elementSize + headerSize"
    and "g \<equiv> calculate_growing_block_size elementCount elementSize headerSize"
  shows "if b < 2 ^ 31 then b \<le> m_size g \<and> m_size g < 2 ^ 31 \<and> (0 < b \<longrightarrow> m_size g \<le> 2 * b)
           \<and> elementCount \<le> m_elementCount g \<and> m_elementCount g * elementSize + headerSize \<le> m_size g
         else m_size g = size_max \<and> m_elementCount g = size_max"
proof (cases "b < 2 ^ 31")
  case True
  have g: "g = \<lparr>m_elementCount = (grown b - headerSize) div elementSize, m_size = grown b\<rparr>"
    using calculate_growing_block_size_eq [OF assms(1-3), of elementCount] True by (simp add: b_def g_def)
  have gb: "b \<le> grown b" using grown_bounds(1) [OF True] .
  then have "elementCount * elementSize \<le> grown b - headerSize" by (simp add: b_def)
  then have "elementCount \<le> (grown b - headerSize) div elementSize"
    using assms(1) by (simp add: less_eq_div_iff_mult_less_eq)
  moreover have "(grown b - headerSize) div elementSize * elementSize + headerSize \<le> grown b"
  proof -
    have "headerSize \<le> grown b" using gb by (simp add: b_def)
    then show ?thesis using div_times_less_eq_dividend [of "grown b - headerSize" elementSize] by linarith
  qed
  ultimately show ?thesis using True grown_bounds [OF True] by (simp add: g)
next
  case False
  then show ?thesis
    using calculate_growing_block_size_overflow [OF assms(2,3), of elementCount] by (simp add: b_def g_def)
qed

theorem growing_block_bounds_witness:
  "100 * 1 + 24 \<le> m_size (calculate_growing_block_size 100 1 24)"
  using growing_block_bounds [of 1 24 100] by simp

text \<open>the two forms of \<open>next_power_of_two\<close> (with and without the count-leading-zeros builtin) are
  the same function: the least power of two above the argument, zero when that is 2 ^ 32.\<close>

lemma next_power_of_two_forms:
  "next_power_of_two v = next_power_of_two_clz v
   \<and> (unat v < 2 ^ 31 \<longrightarrow> unat v < unat (next_power_of_two v) \<and> unat (next_power_of_two v) \<le> 2 * unat v + 1)"
proof -
  have "unat (next_power_of_two v) = 2 ^ bitlen (unat v)" if "unat v < 2 ^ 31"
    using bitlen_le [OF that] by (intro unat_next_power_of_two) simp
  moreover have "2 ^ bitlen (unat v) \<le> 2 * unat v + 1" using pow_bitlen_le [of "unat v"] by (cases "unat v = 0") auto
  ultimately show ?thesis
    using less_pow_bitlen [of "unat v"] next_power_of_two_eq [of v] next_power_of_two_clz_eq [of v] by simp
qed

end
