(* ===== verification/Byte_Arrays.thy ===== *)
theory Byte_Arrays
  imports Alloc_Growth
begin

text \<open>
  \<open>pdk::ds::ByteArray\<close> (\<open>src/modules/base/ds/ByteArray.cpp\<close>, \<open>ByteArray.h\<close>) on top of
  \<open>ArrayData\<close> (\<open>ArrayData.cpp\<close>).  A byte array is the record of its header: the bytes
  \<open>getData()[0 .. m_size)\<close>, \<open>m_alloc\<close>, \<open>m_capacityReserved\<close> and the state of the
  reference count, which is all the code reads of it (\<open>isStatic\<close>, \<open>isShared\<close>).
  Arrays over foreign memory (\<open>fromRawData\<close>) and a failing \<open>malloc\<close> (which throws) are
  not modelled.  Cells that a growing array gains are uninitialised: they are read from
  the parameter \<open>junk\<close>.
\<close>

section \<open>Headers and allocation\<close>

datatype ba_ref = SharedNull | SharedEmpty | Unshared | Shared

fun is_static :: "ba_ref \<Rightarrow> bool" where
  "is_static SharedNull = True"
| "is_static SharedEmpty = True"
| "is_static Unshared = False"
| "is_static Shared = False"

definition is_shared :: "ba_ref \<Rightarrow> bool" where
  "is_shared r \<longleftrightarrow> r \<noteq> Unshared"

record byte_array =
  ba_bytes :: "byte list"
  ba_alloc :: nat
  ba_reserved :: bool
  ba_ref :: ba_ref

abbreviation ba_size :: "byte_array \<Rightarrow> nat" where
  "ba_size a \<equiv> length (ba_bytes a)"

text \<open>\<open>sizeof(ArrayData)\<close> on a 64-bit platform.\<close>

definition array_data_header :: nat where
  "array_data_header = 24"

definition shared_null :: byte_array where
  "shared_null = \<lparr>ba_bytes = [], ba_alloc = 0, ba_reserved = False, ba_ref = SharedNull\<rparr>"

definition shared_empty :: byte_array where
  "shared_empty = \<lparr>ba_bytes = [], ba_alloc = 0, ba_reserved = False, ba_ref = SharedEmpty\<rparr>"

definition block_capacity :: "nat \<Rightarrow> bool \<Rightarrow> nat" where
  "block_capacity capacity grow =
     (if grow then m_elementCount (calculate_growing_block_size capacity 1 array_data_header)
      else capacity)"

definition ba_allocate :: "nat \<Rightarrow> bool \<Rightarrow> bool \<Rightarrow> byte_array" where
  "ba_allocate capacity grow reserved =
     (if capacity = 0 then shared_empty
      else \<lparr>ba_bytes = [], ba_alloc = block_capacity capacity grow,
             ba_reserved = reserved, ba_ref = Unshared\<rparr>)"

definition ba_realloc :: "byte_array \<Rightarrow> nat \<Rightarrow> bool \<Rightarrow> bool \<Rightarrow> byte_array" where
  "ba_realloc a alloc grow reserved =
     (if is_shared (ba_ref a)
      then (ba_allocate alloc grow reserved)\<lparr>ba_bytes := take (alloc - 1) (ba_bytes a)\<rparr>
      else a\<lparr>ba_alloc := block_capacity alloc grow, ba_reserved := reserved\<rparr>)"

text \<open>The copy of a header: the reference count is increased, unless it is static.\<close>

definition ba_copy :: "byte_array \<Rightarrow> byte_array" where
  "ba_copy a = (if is_static (ba_ref a) then a else a\<lparr>ba_ref := Shared\<rparr>)"

definition ba_detach :: "byte_array \<Rightarrow> byte_array" where
  "ba_detach a =
     (if is_shared (ba_ref a) then ba_realloc a (ba_size a + 1) False (ba_reserved a) else a)"

definition ba_capacity :: "byte_array \<Rightarrow> nat" where
  "ba_capacity a = (if ba_alloc a \<noteq> 0 then ba_alloc a - 1 else 0)"

section \<open>Construction, resizing\<close>

definition ba_of_data :: "byte list \<Rightarrow> byte_array" where
  "ba_of_data data =
     (if data = [] then ba_allocate 0 False False
      else (ba_allocate (length data + 1) False False)\<lparr>ba_bytes := data\<rparr>)"

definition ba_of_char :: "int \<Rightarrow> byte \<Rightarrow> byte_array" where
  "ba_of_char sz c =
     (if sz \<le> 0 then ba_allocate 0 False False
      else (ba_allocate (nat sz + 1) False False)\<lparr>ba_bytes := replicate (nat sz) c\<rparr>)"

definition ba_uninitialized :: "memory \<Rightarrow> nat \<Rightarrow> byte_array" where
  "ba_uninitialized junk sz =
     (ba_allocate (sz + 1) False False)\<lparr>ba_bytes := map junk [0..<sz]\<rparr>"

definition ba_resize :: "memory \<Rightarrow> byte_array \<Rightarrow> int \<Rightarrow> byte_array" where
  "ba_resize junk a sz =
     (let sz = (if sz < 0 then 0 else nat sz)
      in if sz = 0 \<and> \<not> ba_reserved a then ba_allocate 0 False False
         else if ba_size a = 0 \<and> is_static (ba_ref a)
         then (ba_allocate (sz + 1) False False)\<lparr>ba_bytes := map junk [0..<sz]\<rparr>
         else let a = (if is_shared (ba_ref a) \<or> sz + 1 > ba_alloc a
                          \<or> (\<not> ba_reserved a \<and> sz < ba_size a \<and> sz + 1 < ba_alloc a div 2)
                       then ba_realloc a (sz + 1) True (ba_reserved a) else a)
              in if ba_alloc a \<noteq> 0 then a\<lparr>ba_bytes := set_length junk (ba_bytes a) sz\<rparr> else a)"

definition ba_reserve :: "byte_array \<Rightarrow> nat \<Rightarrow> byte_array" where
  "ba_reserve a asize =
     (if is_shared (ba_ref a) \<or> asize + 1 > ba_alloc a
      then ba_realloc a (max (ba_size a) asize + 1) False True
      else a\<lparr>ba_reserved := True\<rparr>)"

definition ba_squeeze :: "byte_array \<Rightarrow> byte_array" where
  "ba_squeeze a =
     (if is_shared (ba_ref a) \<or> ba_size a + 1 < ba_alloc a
      then ba_realloc a (ba_size a + 1) False False
      else a\<lparr>ba_reserved := False\<rparr>)"

definition ba_clear :: "byte_array \<Rightarrow> byte_array" where
  "ba_clear a = shared_null"

definition ba_truncate :: "memory \<Rightarrow> byte_array \<Rightarrow> int \<Rightarrow> byte_array" where
  "ba_truncate junk a pos = (if pos < int (ba_size a) then ba_resize junk a pos else a)"

definition ba_chop :: "memory \<Rightarrow> byte_array \<Rightarrow> int \<Rightarrow> byte_array" where
  "ba_chop junk a n = (if n > 0 then ba_resize junk a (int (ba_size a) - n) else a)"

definition ba_fill :: "memory \<Rightarrow> byte_array \<Rightarrow> byte \<Rightarrow> int \<Rightarrow> byte_array" where
  "ba_fill junk a c sz =
     (let a = ba_resize junk a (if sz < 0 then int (ba_size a) else sz)
      in if ba_size a \<noteq> 0 then a\<lparr>ba_bytes := mem_write (ba_bytes a) 0 (replicate (ba_size a) c)\<rparr>
         else a)"

text \<open>What every operation keeps: static headers are empty, the others own memory.\<close>

definition ba_ok :: "byte_array \<Rightarrow> bool" where
  "ba_ok a \<longleftrightarrow> (if is_static (ba_ref a) then ba_bytes a = [] \<and> ba_alloc a = 0 \<and> \<not> ba_reserved a
                else 0 < ba_alloc a)"

lemma grown_gt_header: "0 < n \<Longrightarrow> n + 24 < 2 ^ 31 \<Longrightarrow> 24 < grown (n + 24)"
  using grown_bounds(1) [of "n + 24"] by simp

lemma block_capacity_pos [simp]: "0 < n \<Longrightarrow> 0 < block_capacity n g"
proof (cases "n + 24 < 2 ^ 31")
  case True
  then have "m_elementCount (calculate_growing_block_size n 1 24) = grown (n + 24) - 24"
    using calculate_growing_block_size_eq [of 1 24 n] by simp
  then show "0 < n \<Longrightarrow> 0 < block_capacity n g"
    using grown_gt_header [of n] True by (simp add: block_capacity_def array_data_header_def)
next
  case False
  then have "m_elementCount (calculate_growing_block_size n 1 24) = size_max"
    using calculate_growing_block_size_overflow [of 1 24 n] by simp
  then show "0 < n \<Longrightarrow> 0 < block_capacity n g"
    by (simp add: block_capacity_def array_data_header_def size_max_def)
qed

lemmas ba_alloc_defs = ba_allocate_def ba_realloc_def shared_null_def shared_empty_def is_shared_def

lemma ba_ok_null [simp]: "ba_ok shared_null" and ba_ok_empty [simp]: "ba_ok shared_empty"
  by (simp_all add: ba_ok_def ba_alloc_defs)

lemma ba_ok_of_data [simp]: "ba_ok (ba_of_data d)"
  by (simp add: ba_ok_def ba_of_data_def ba_alloc_defs block_capacity_pos)

lemma ba_bytes_of_data [simp]: "ba_bytes (ba_of_data d) = d"
  by (simp add: ba_of_data_def ba_alloc_defs)

lemma ba_ok_uninitialized [simp]: "ba_ok (ba_uninitialized junk n)"
  by (simp add: ba_ok_def ba_uninitialized_def ba_alloc_defs block_capacity_pos)

lemma ba_bytes_uninitialized [simp]: "ba_bytes (ba_uninitialized junk n) = map junk [0..<n]"
  by (simp add: ba_uninitialized_def)

lemma ba_bytes_of_char [simp]: "ba_bytes (ba_of_char n c) = replicate (nat n) c"
  by (simp add: ba_of_char_def ba_alloc_defs)

lemma ba_ok_copy [simp]: "ba_ok a \<Longrightarrow> ba_ok (ba_copy a)"
  by (auto simp: ba_ok_def ba_copy_def split: if_splits)

lemma ba_bytes_copy [simp]: "ba_bytes (ba_copy a) = ba_bytes a"
  by (simp add: ba_copy_def)

lemma ba_ok_realloc [simp]: "0 < n \<Longrightarrow> ba_ok (ba_realloc a n g r)"
  by (cases "ba_ref a") (simp_all add: ba_ok_def ba_alloc_defs block_capacity_pos)

lemma ba_bytes_realloc: "ba_bytes (ba_realloc a n g r) = (if is_shared (ba_ref a) then take (n - 1) (ba_bytes a) else ba_bytes a)"
  by (simp add: ba_realloc_def)

lemma ba_alloc_realloc [simp]: "0 < n \<Longrightarrow> 0 < ba_alloc (ba_realloc a n g r)"
  by (simp add: ba_alloc_defs block_capacity_pos)

lemma ba_ok_detach [simp]: "ba_ok a \<Longrightarrow> ba_ok (ba_detach a)"
  by (simp add: ba_detach_def)

lemma ba_bytes_detach [simp]: "ba_bytes (ba_detach a) = ba_bytes a"
  by (simp add: ba_detach_def ba_bytes_realloc)

text \<open>The one fact about \<open>resize\<close> that the operations rest on.\<close>

lemma set_length_take [simp]: "set_length junk (take n xs) n = set_length junk xs n"
  by (cases "n \<le> length xs") (simp_all add: set_length_def min_def)

lemma ba_bytes_resize [simp]:
  assumes ok: "ba_ok a"
  shows "ba_bytes (ba_resize junk a sz) = set_length junk (ba_bytes a) (nat sz)"
proof -
  define n where "n = nat sz"
  have n: "(if sz < 0 then 0 else nat sz) = n" by (simp add: n_def)
  define cond where "cond \<longleftrightarrow> is_shared (ba_ref a) \<or> n + 1 > ba_alloc a
     \<or> (\<not> ba_reserved a \<and> n < ba_size a \<and> n + 1 < ba_alloc a div 2)"
  define b where "b = (if cond then ba_realloc a (n + 1) True (ba_reserved a) else a)"
  consider "n = 0 \<and> \<not> ba_reserved a"
    | "\<not> (n = 0 \<and> \<not> ba_reserved a)" "ba_size a = 0 \<and> is_static (ba_ref a)"
    | "\<not> (n = 0 \<and> \<not> ba_reserved a)" "\<not> (ba_size a = 0 \<and> is_static (ba_ref a))"
    by blast
  then show ?thesis
  proof cases
    case 1
    then show ?thesis
      unfolding ba_resize_def Let_def n
      by (simp add: ba_allocate_def shared_empty_def set_length_shrink flip: n_def)
  next
    case 2
    then show ?thesis
      unfolding ba_resize_def Let_def n by (auto simp: set_length_grow simp flip: n_def)
  next
    case 3
    have "ba_alloc b \<noteq> 0"
      using ok ba_alloc_realloc [of "n + 1" a True "ba_reserved a"]
      by (auto simp: b_def cond_def)
    moreover have "set_length junk (ba_bytes b) n = set_length junk (ba_bytes a) n"
      by (simp add: b_def ba_bytes_realloc)
    moreover have "ba_resize junk a sz =
        (if ba_alloc b \<noteq> 0 then b\<lparr>ba_bytes := set_length junk (ba_bytes b) n\<rparr> else b)"
      using 3 unfolding ba_resize_def Let_def n by (simp only: if_False b_def cond_def)
    ultimately show ?thesis by (simp flip: n_def)
  qed
qed

lemma ba_ok_resize [simp]: "ba_ok a \<Longrightarrow> ba_ok (ba_resize junk a sz)"
proof -
  assume ok: "ba_ok a"
  have upd: "ba_ok x \<Longrightarrow> ba_alloc x \<noteq> 0 \<Longrightarrow> ba_ok (x\<lparr>ba_bytes := xs\<rparr>)" for x xs
    by (auto simp: ba_ok_def split: if_splits)
  have "ba_ok (ba_allocate 0 False False)" by (simp add: ba_allocate_def)
  moreover have "ba_ok ((ba_allocate (n + 1) False False)\<lparr>ba_bytes := xs\<rparr>)" for n xs
    by (simp add: ba_ok_def ba_alloc_defs block_capacity_pos)
  ultimately show ?thesis
    using ok upd by (simp add: ba_resize_def Let_def ba_alloc_realloc)
qed

end
