(* ===== verification/Byte_Edit.thy ===== *)
theory Byte_Edit
  imports Byte_Arrays
begin

text \<open>
  The editing and searching operations of \<open>pdk::ds::ByteArray\<close>: append, prepend,
  insert, remove, replace, cutting, justification, repetition, splitting, and the
  byte-by-byte searches.  Blocks handed in as \<open>(pointer, length)\<close> are byte lists.
\<close>

section \<open>Growing at either end\<close>

definition ba_append :: "byte_array \<Rightarrow> byte_array \<Rightarrow> byte_array" where
  "ba_append a array =
     (if ba_size a = 0 \<and> is_static (ba_ref a) then ba_copy array
      else if ba_size array \<noteq> 0
      then let a = (if is_shared (ba_ref a) \<or> ba_size a + ba_size array + 1 > ba_alloc a
                    then ba_realloc a (ba_size a + ba_size array + 1) True (ba_reserved a) else a)
           in a\<lparr>ba_bytes := ba_bytes a @ ba_bytes array\<rparr>
      else a)"

definition ba_append_data :: "byte_array \<Rightarrow> byte list \<Rightarrow> byte_array" where
  "ba_append_data a str =
     (if str \<noteq> []
      then let a = (if is_shared (ba_ref a) \<or> ba_size a + length str + 1 > ba_alloc a
                    then ba_realloc a (ba_size a + length str + 1) True (ba_reserved a) else a)
           in a\<lparr>ba_bytes := ba_bytes a @ str\<rparr>
      else a)"

definition ba_append_char :: "byte_array \<Rightarrow> byte \<Rightarrow> byte_array" where
  "ba_append_char a c =
     (let a = (if is_shared (ba_ref a) \<or> ba_size a + 2 > ba_alloc a
               then ba_realloc a (ba_size a + 2) True (ba_reserved a) else a)
      in a\<lparr>ba_bytes := ba_bytes a @ [c]\<rparr>)"

definition ba_prepend :: "byte_array \<Rightarrow> byte_array \<Rightarrow> byte_array" where
  "ba_prepend a array =
     (if ba_size a = 0 \<and> is_static (ba_ref a) then ba_copy array
      else if ba_size array \<noteq> 0 then ba_append (ba_copy array) (ba_copy a)
      else a)"

definition ba_prepend_data :: "byte_array \<Rightarrow> byte list \<Rightarrow> byte_array" where
  "ba_prepend_data a str =
     (let a = (if is_shared (ba_ref a) \<or> ba_size a + length str + 1 > ba_alloc a
               then ba_realloc a (ba_size a + length str + 1) True (ba_reserved a) else a)
      in a\<lparr>ba_bytes := str @ ba_bytes a\<rparr>)"

definition ba_prepend_char :: "byte_array \<Rightarrow> byte \<Rightarrow> byte_array" where
  "ba_prepend_char a c =
     (let a = (if is_shared (ba_ref a) \<or> ba_size a + 2 > ba_alloc a
               then ba_realloc a (ba_size a + 2) True (ba_reserved a) else a)
      in a\<lparr>ba_bytes := c # ba_bytes a\<rparr>)"

section \<open>Inserting, removing, replacing\<close>

definition bytearray_insert :: "memory \<Rightarrow> byte_array \<Rightarrow> int \<Rightarrow> byte list \<Rightarrow> byte_array" where
  "bytearray_insert junk array pos arr =
     (if pos < 0 \<or> length arr \<le> 0 then array
      else let oldSize = ba_size array;
               p = nat pos;
               array = ba_detach (ba_resize junk array (int (max p oldSize + length arr)));
               dest = ba_bytes array;
               dest = (if p > oldSize then mem_write dest oldSize (replicate (p - oldSize) 0x20)
                       else mem_write dest (p + length arr) (mem_read dest p (oldSize - p)));
               dest = mem_write dest p arr
           in array\<lparr>ba_bytes := dest\<rparr>)"

definition ba_insert_fill :: "memory \<Rightarrow> byte_array \<Rightarrow> int \<Rightarrow> int \<Rightarrow> byte \<Rightarrow> byte_array" where
  "ba_insert_fill junk a pos cnt c =
     (if pos < 0 \<or> cnt \<le> 0 then a
      else let oldSize = ba_size a;
               p = nat pos; n = nat cnt;
               a = ba_resize junk a (int (max p oldSize + n));
               dest = ba_bytes a;
               dest = (if p > oldSize then mem_write dest oldSize (replicate (p - oldSize) 0x20)
                       else if p < oldSize
                       then mem_write dest (p + n) (mem_read dest p (oldSize - p))
                       else dest);
               dest = mem_write dest p (replicate n c)
           in a\<lparr>ba_bytes := dest\<rparr>)"

text \<open>The unsigned comparison rejects a negative index along with one past the end.\<close>

definition ba_remove :: "memory \<Rightarrow> byte_array \<Rightarrow> int \<Rightarrow> int \<Rightarrow> byte_array" where
  "ba_remove junk a index len =
     (if len \<le> 0 \<or> (word_of_int index :: u32) \<ge> word_of_int (int (ba_size a)) then a
      else let a = ba_detach a;
               m = int (ba_size a)
           in if len \<ge> m - index then ba_resize junk a index
              else let a = a\<lparr>ba_bytes := mem_write (ba_bytes a) (nat index)
                       (mem_read (ba_bytes a) (nat (index + len)) (nat (m - index - len)))\<rparr>
                   in ba_resize junk a (m - len))"

definition ba_replace_range :: "memory \<Rightarrow> byte_array \<Rightarrow> int \<Rightarrow> int \<Rightarrow> byte list \<Rightarrow> byte_array" where
  "ba_replace_range junk a index len after =
     (if len = int (length after) \<and> index + len \<le> int (ba_size a)
      then let a = ba_detach a in a\<lparr>ba_bytes := mem_write (ba_bytes a) (nat index) after\<rparr>
      else bytearray_insert junk (ba_remove junk a index len) index after)"

definition ba_replace_char :: "byte_array \<Rightarrow> byte \<Rightarrow> byte \<Rightarrow> byte_array" where
  "ba_replace_char a before after =
     (if ba_size a \<noteq> 0
      then let a = ba_detach a
           in a\<lparr>ba_bytes := map (\<lambda>x. if x = before then after else x) (ba_bytes a)\<rparr>
      else a)"

section \<open>Cutting and padding\<close>

datatype cut_result = CutNull | CutEmpty | CutFull | CutSubset

text \<open>\<open>ContainerImplHelper::mid\<close>: the result with the adjusted position and length.\<close>

definition container_mid :: "int \<Rightarrow> int \<Rightarrow> int \<Rightarrow> cut_result \<times> int \<times> int" where
  "container_mid originalLength position len =
     (let finish = (\<lambda>p l. (if p = 0 \<and> l = originalLength then CutFull
                           else if l > 0 then CutSubset else CutEmpty, p, l))
      in if position > originalLength then (CutNull, position, len)
         else if position < 0
         then (if len < 0 \<or> len + position \<ge> originalLength then (CutFull, position, len)
               else if len + position \<le> 0 then (CutNull, position, len)
               else finish 0 (len + position))
         else if (word_of_int len :: u32) > word_of_int (originalLength - position)
         then finish position (originalLength - position)
         else finish position len)"

definition ba_mid :: "byte_array \<Rightarrow> int \<Rightarrow> int \<Rightarrow> byte_array" where
  "ba_mid a index len =
     (case container_mid (int (ba_size a)) index len of
        (CutNull, _, _) \<Rightarrow> shared_null
      | (CutEmpty, _, _) \<Rightarrow> ba_allocate 0 False False
      | (CutFull, _, _) \<Rightarrow> ba_copy a
      | (CutSubset, i, l) \<Rightarrow> ba_of_data (mem_read (ba_bytes a) (nat i) (nat l)))"

definition ba_left :: "byte_array \<Rightarrow> int \<Rightarrow> byte_array" where
  "ba_left a len =
     (if len \<ge> int (ba_size a) then ba_copy a
      else let len = (if len < 0 then 0 else nat len)
           in ba_of_data (mem_read (ba_bytes a) 0 len))"

definition ba_right :: "byte_array \<Rightarrow> int \<Rightarrow> byte_array" where
  "ba_right a len =
     (if len \<ge> int (ba_size a) then ba_copy a
      else let len = (if len < 0 then 0 else nat len)
           in ba_of_data (mem_read (ba_bytes a) (ba_size a - len) len))"

definition ba_left_justified :: "memory \<Rightarrow> byte_array \<Rightarrow> int \<Rightarrow> byte \<Rightarrow> bool \<Rightarrow> byte_array" where
  "ba_left_justified junk a width fill trunc =
     (let len = int (ba_size a);
          padLength = width - len
      in if padLength > 0
         then let result = ba_resize junk shared_null (len + padLength);
                  dest = mem_write (ba_bytes result) 0 (ba_bytes a);
                  dest = mem_write dest (nat len) (replicate (nat padLength) fill)
              in result\<lparr>ba_bytes := dest\<rparr>
         else if trunc then ba_left a width
         else ba_copy a)"

definition ba_right_justified :: "memory \<Rightarrow> byte_array \<Rightarrow> int \<Rightarrow> byte \<Rightarrow> bool \<Rightarrow> byte_array" where
  "ba_right_justified junk a width fill trunc =
     (let len = int (ba_size a);
          padLength = width - len
      in if padLength > 0
         then let result = ba_resize junk shared_null (len + padLength);
                  dest = mem_write (ba_bytes result) (nat padLength) (ba_bytes a);
                  dest = mem_write dest 0 (replicate (nat padLength) fill)
              in result\<lparr>ba_bytes := dest\<rparr>
         else if trunc then ba_left a width
         else ba_copy a)"

text \<open>
  \<open>repeated\<close>: the text is copied once and the written part is doubled while at most half
  of the result is full, then the rest is copied.
\<close>

function repeat_loop :: "nat \<Rightarrow> nat \<Rightarrow> byte list \<Rightarrow> byte list" where
  "repeat_loop halfResultSize currentSize written =
     (if currentSize \<le> halfResultSize \<and> 0 < currentSize
      then repeat_loop halfResultSize (2 * currentSize) (written @ take currentSize written)
      else written)"
  by pat_completeness auto
termination
  by (relation "measure (\<lambda>(h, c, w). Suc h - c)") auto

declare repeat_loop.simps [simp del]

definition ba_repeated :: "byte_array \<Rightarrow> int \<Rightarrow> byte_array" where
  "ba_repeated a reps =
     (if ba_size a = 0 then ba_copy a
      else if reps \<le> 1 then (if reps = 1 then ba_copy a else shared_null)
      else let selfLength = ba_size a;
               resultSize = nat reps * selfLength;
               result = ba_reserve shared_null resultSize
           in if ba_alloc result \<noteq> resultSize + 1 then shared_null
              else let written = repeat_loop (resultSize div 2) selfLength (ba_bytes a);
                       written = written @ take (resultSize - length written) written
                   in result\<lparr>ba_bytes := written\<rparr>)"

section \<open>Searching\<close>

fun scan_char :: "byte \<Rightarrow> byte list \<Rightarrow> int \<Rightarrow> int" where
  "scan_char needle [] i = - 1"
| "scan_char needle (x # xs) i = (if x = needle then i else scan_char needle xs (i + 1))"

definition ba_index_of_char :: "byte_array \<Rightarrow> byte \<Rightarrow> int \<Rightarrow> int" where
  "ba_index_of_char a needle from =
     (let n = int (ba_size a);
          from = (if from < 0 then max (from + n) 0 else from)
      in if from < n then scan_char needle (drop (nat from) (ba_bytes a)) from else - 1)"

text \<open>
  \<open>lastIndexOf(char)\<close> walks down from \<open>from\<close>.  The cell at index \<open>size\<close> holds the
  terminating zero, and the code reads it when \<open>from\<close> is the size.
\<close>

fun scan_back :: "byte \<Rightarrow> byte list \<Rightarrow> nat \<Rightarrow> int" where
  "scan_back needle cells 0 = - 1"
| "scan_back needle cells (Suc i) =
     (if cells ! i = needle then int i else scan_back needle cells i)"

definition ba_last_index_of_char :: "byte_array \<Rightarrow> byte \<Rightarrow> int \<Rightarrow> int" where
  "ba_last_index_of_char a needle from =
     (let n = int (ba_size a);
          from = (if from < 0 then from + n else if from > n then n - 1 else from)
      in if from \<ge> 0 then scan_back needle (ba_bytes a @ [0]) (nat from + 1) else - 1)"

definition ba_count_char :: "byte_array \<Rightarrow> byte \<Rightarrow> nat" where
  "ba_count_char a c = foldr (\<lambda>x num. if x = c then num + 1 else num) (ba_bytes a) 0"

definition ba_starts_with :: "byte_array \<Rightarrow> byte_array \<Rightarrow> bool" where
  "ba_starts_with a array =
     (if ba_size array = 0 then True
      else if ba_size a < ba_size array then False
      else mem_read (ba_bytes a) 0 (ba_size array) = ba_bytes array)"

definition ba_ends_with :: "byte_array \<Rightarrow> byte_array \<Rightarrow> bool" where
  "ba_ends_with a array =
     (if ba_size array = 0 then True
      else if ba_size a < ba_size array then False
      else mem_read (ba_bytes a) (ba_size a - ba_size array) (ba_size array) = ba_bytes array)"

text \<open>\<open>split\<close>: the pieces between the separators; the loop advances past each one.\<close>

lemma scan_char_range: "scan_char c xs i = - 1 \<or> (i \<le> scan_char c xs i \<and> scan_char c xs i < i + int (length xs))"
  by (induction c xs i rule: scan_char.induct) auto

function split_loop :: "byte_array \<Rightarrow> byte \<Rightarrow> nat \<Rightarrow> byte_array list" where
  "split_loop a sep start =
     (let e = ba_index_of_char a sep (int start)
      in if e \<noteq> - 1
         then ba_mid a (int start) (e - int start) # split_loop a sep (nat (e + 1))
         else [ba_mid a (int start) (- 1)])"
  by pat_completeness auto
termination
proof (relation "measure (\<lambda>(a, sep, start). ba_size a + 1 - start)", simp)
  fix a :: byte_array and sep :: byte and start :: nat and e :: int
  assume e: "e = ba_index_of_char a sep (int start)" "e \<noteq> - 1"
  then have "int start \<le> e" "e < int (ba_size a)"
    using scan_char_range [of sep "drop start (ba_bytes a)" "int start"]
    by (auto simp: ba_index_of_char_def Let_def split: if_splits)
  then show "((a, sep, nat (e + 1)), (a, sep, start)) \<in> measure (\<lambda>(a, sep, start). ba_size a + 1 - start)"
    by auto
qed

declare split_loop.simps [simp del]

definition ba_split :: "byte_array \<Rightarrow> byte \<Rightarrow> byte_array list" where
  "ba_split a sep = split_loop a sep 0"

section \<open>What the operations compute\<close>

lemmas ba_op_defs = ba_bytes_realloc is_shared_def

lemma ba_bytes_append: "ba_ok a \<Longrightarrow> ba_bytes (ba_append a b) = ba_bytes a @ ba_bytes b"
  by (auto simp: ba_append_def Let_def ba_op_defs)

lemma ba_bytes_append_data [simp]: "ba_bytes (ba_append_data a xs) = ba_bytes a @ xs"
  by (auto simp: ba_append_data_def Let_def ba_op_defs)

lemma ba_bytes_append_char [simp]: "ba_bytes (ba_append_char a c) = ba_bytes a @ [c]"
  by (auto simp: ba_append_char_def Let_def ba_op_defs)

lemma ba_ok_alloc_upd: "ba_ok a \<Longrightarrow> 0 < ba_alloc a \<Longrightarrow> ba_ok (a\<lparr>ba_bytes := xs\<rparr>)"
  by (auto simp: ba_ok_def split: if_splits)

lemma ba_ok_append_char: "ba_ok a \<Longrightarrow> ba_ok (ba_append_char a c)"
  by (auto simp: ba_append_char_def Let_def intro!: ba_ok_alloc_upd)

lemma ba_ok_append: "ba_ok a \<Longrightarrow> ba_ok b \<Longrightarrow> ba_ok (ba_append a b)"
  by (auto simp: ba_append_def Let_def intro!: ba_ok_alloc_upd)

lemma ba_bytes_prepend: "ba_ok a \<Longrightarrow> ba_ok b \<Longrightarrow> ba_bytes (ba_prepend a b) = ba_bytes b @ ba_bytes a"
  by (auto simp: ba_prepend_def ba_bytes_append)

lemma ba_bytes_prepend_data [simp]: "ba_bytes (ba_prepend_data a xs) = xs @ ba_bytes a"
  by (auto simp: ba_prepend_data_def Let_def ba_op_defs)

lemma ba_bytes_prepend_char [simp]: "ba_bytes (ba_prepend_char a c) = c # ba_bytes a"
  by (auto simp: ba_prepend_char_def Let_def ba_op_defs)

lemma mem_write_self: "length ys = length xs \<Longrightarrow> mem_write xs 0 ys = ys"
  by (simp add: mem_write_def)

lemma insert_block:
  assumes p: "p \<le> length xs" and zs: "length zs = length arr"
  shows "mem_write (mem_write (xs @ zs) (p + length arr) (mem_read (xs @ zs) p (length xs - p))) p arr
         = take p xs @ arr @ drop p xs"
proof -
  have r: "mem_read (xs @ zs) p (length xs - p) = drop p xs"
    using p by (simp add: mem_read_def)
  have "mem_write (xs @ zs) (p + length arr) (drop p xs) = take (p + length arr) (xs @ zs) @ drop p xs"
    using p zs by (simp add: mem_write_def)
  moreover have "length (take (p + length arr) (xs @ zs)) = p + length arr"
    using p zs by simp
  moreover have "take p (take (p + length arr) (xs @ zs) @ drop p xs) = take p xs"
    using p by simp
  ultimately show ?thesis
    unfolding r by (simp add: mem_write_def)
qed

lemma ba_bytes_insert:
  assumes ok: "ba_ok a"
  shows "ba_bytes (bytearray_insert junk a pos arr) =
    (if pos < 0 \<or> arr = [] then ba_bytes a
     else if nat pos \<le> ba_size a then take (nat pos) (ba_bytes a) @ arr @ drop (nat pos) (ba_bytes a)
     else ba_bytes a @ replicate (nat pos - ba_size a) 0x20 @ arr)"
proof -
  define xs where "xs = ba_bytes a"
  define p where "p = nat pos"
  define zs where "zs = map junk [length xs..<max p (length xs) + length arr]"
  have d: "ba_bytes (ba_detach (ba_resize junk a (int (max p (length xs) + length arr)))) = xs @ zs"
    using ok by (simp add: set_length_grow xs_def zs_def nat_int_add)
  have zs: "length zs = max p (length xs) - length xs + length arr"
    by (simp add: zs_def)
  show ?thesis
  proof (cases "pos < 0 \<or> arr = []")
    case False
    show ?thesis
    proof (cases "p \<le> length xs")
      case True
      then show ?thesis
        using False zs insert_block [OF True, of zs arr]
        unfolding bytearray_insert_def Let_def p_def [symmetric] xs_def [symmetric] d by simp
    next
      case pos: False
      have "mem_write (mem_write (xs @ zs) (length xs) (replicate (p - length xs) 0x20)) p arr
          = xs @ replicate (p - length xs) 0x20 @ arr"
        using pos zs by (simp add: mem_write_def)
      then show ?thesis
        using False pos unfolding bytearray_insert_def Let_def p_def [symmetric] xs_def [symmetric] d by simp
    qed
  qed (auto simp: bytearray_insert_def)
qed

lemma ba_bytes_insert_fill:
  assumes ok: "ba_ok a"
  shows "ba_bytes (ba_insert_fill junk a pos cnt c) = ba_bytes (bytearray_insert junk a pos (replicate (nat cnt) c))"
proof -
  define xs where "xs = ba_bytes a"
  define p where "p = nat pos"
  define n where "n = nat cnt"
  define zs where "zs = map junk [length xs..<max p (length xs) + n]"
  have d: "ba_bytes (ba_resize junk a (int (max p (length xs) + n))) = xs @ zs"
    using ok by (simp add: set_length_grow xs_def zs_def nat_int_add)
  have zs: "length zs = max p (length xs) - length xs + n"
    by (simp add: zs_def)
  show ?thesis
  proof (cases "pos < 0 \<or> cnt \<le> 0")
    case True
    then show ?thesis using ok by (auto simp: ba_insert_fill_def ba_bytes_insert)
  next
    case False
    then have n0: "n \<noteq> 0" by (simp add: n_def)
    consider "p > length xs" | "p < length xs" | "p = length xs" by linarith
    then show ?thesis
    proof cases
      case 1
      then have "mem_write (mem_write (xs @ zs) (length xs) (replicate (p - length xs) 0x20)) p (replicate n c)
          = xs @ replicate (p - length xs) 0x20 @ replicate n c"
        using zs by (simp add: mem_write_def)
      with 1 False ok n0 show ?thesis
        unfolding ba_insert_fill_def Let_def p_def [symmetric] xs_def [symmetric] n_def [symmetric] d
        by (auto simp: ba_bytes_insert simp flip: p_def xs_def n_def)
    next
      case 2
      then show ?thesis
        using False ok n0 zs insert_block [of p xs zs "replicate n c"]
        unfolding ba_insert_fill_def Let_def p_def [symmetric] xs_def [symmetric] n_def [symmetric] d
        by (auto simp: ba_bytes_insert simp flip: p_def xs_def n_def)
    next
      case 3
      then have "mem_write (xs @ zs) p (replicate n c) = xs @ replicate n c"
        using zs by (simp add: mem_write_def)
      with 3 False ok n0 show ?thesis
        unfolding ba_insert_fill_def Let_def p_def [symmetric] xs_def [symmetric] n_def [symmetric] d
        by (auto simp: ba_bytes_insert simp flip: p_def xs_def n_def)
    qed
  qed
qed

text \<open>Removal: the uint comparison keeps exactly the indices inside the array.\<close>

lemma uint_small: "0 \<le> x \<Longrightarrow> x < 2 ^ 32 \<Longrightarrow> uint (word_of_int x :: u32) = x"
  by (simp add: uint_word_of_int)

lemma uint_negative: "- (2 ^ 31) \<le> x \<Longrightarrow> x < 0 \<Longrightarrow> uint (word_of_int x :: u32) = x + 2 ^ 32"
  using mod_pos_pos_trivial [of "x + 2 ^ 32" "2 ^ 32"] by (simp add: uint_word_of_int)

lemma uint_index_check:
  assumes "- (2 ^ 31) \<le> i" "i < 2 ^ 31" "m < 2 ^ 31"
  shows "(word_of_int i :: u32) \<ge> word_of_int (int m) \<longleftrightarrow> i < 0 \<or> int m \<le> i"
proof -
  have m: "uint (word_of_int (int m) :: u32) = int m"
    using assms by (simp add: unsigned_of_nat take_bit_nat_eq_self)
  show ?thesis
  proof (cases "i < 0")
    case True
    then have "uint (word_of_int i :: u32) = i + 2 ^ 32"
      using assms mod_pos_pos_trivial [of "i + 2 ^ 32" "2 ^ 32"] by (simp add: uint_word_of_int)
    with True m assms show ?thesis by (simp add: word_le_def)
  next
    case False
    then have "uint (word_of_int i :: u32) = i"
      using assms by (simp add: uint_word_of_int)
    with False m show ?thesis by (simp add: word_le_def)
  qed
qed

lemma ba_bytes_remove:
  assumes ok: "ba_ok a" and "ba_size a < 2 ^ 31" "- (2 ^ 31) \<le> index" "index < 2 ^ 31"
  shows "ba_bytes (ba_remove junk a index len) =
    (if len \<le> 0 \<or> index < 0 \<or> int (ba_size a) \<le> index then ba_bytes a
     else take (nat index) (ba_bytes a) @ drop (nat (index + len)) (ba_bytes a))"
proof (cases "len \<le> 0 \<or> index < 0 \<or> int (ba_size a) \<le> index")
  case True
  then show ?thesis
    using uint_index_check [of index "ba_size a"] assms by (auto simp: ba_remove_def)
next
  case False
  define i where "i = nat index"
  define l where "l = nat len"
  have il: "index = int i" "len = int l" "0 < l" "i < ba_size a"
    using False by (auto simp: i_def l_def)
  have guard: "\<not> (len \<le> 0 \<or> (word_of_int index :: u32) \<ge> word_of_int (int (ba_size a)))"
    using False uint_index_check [of index "ba_size a"] assms by auto
  have upd: "ba_ok ((ba_detach a)\<lparr>ba_bytes := xs\<rparr>)" for xs
    using ok il(4) ba_ok_detach [OF ok] by (intro ba_ok_alloc_upd) (auto simp: ba_ok_def split: if_splits)
  have n: "nat (int i + int l) = i + l" "nat (int (ba_size a) - int i - int l) = ba_size a - i - l"
      "nat (int (ba_size a) - int l) = ba_size a - l" by simp_all
  have sum: "int (ba_size a) \<le> int i + int l \<longleftrightarrow> ba_size a \<le> i + l" by linarith
  show ?thesis
  proof (cases "ba_size a \<le> i + l")
    case True
    then have "\<not> int l < int (ba_size a) - int i" by simp
    with True show ?thesis
      using guard il ok unfolding ba_remove_def Let_def il
      by (simp add: set_length_shrink n)
  next
    case less: False
    define ys where "ys = mem_write (ba_bytes a) i (mem_read (ba_bytes a) (i + l) (ba_size a - i - l))"
    have "length ys = ba_size a"
      using less il by (simp add: ys_def)
    moreover have "take (ba_size a - l) ys = take i (ba_bytes a) @ drop (i + l) (ba_bytes a)"
      using less il by (simp add: ys_def mem_write_def mem_read_def)
    moreover have "ba_remove junk a index len =
        ba_resize junk ((ba_detach a)\<lparr>ba_bytes := ys\<rparr>) (int (ba_size a) - int l)"
      using less guard unfolding ba_remove_def Let_def il ys_def by (simp add: n)
    ultimately show ?thesis
      using upd less il(3,4) unfolding il by (simp add: set_length_shrink n)
  qed
qed

lemma ba_ok_remove: "ba_ok a \<Longrightarrow> ba_ok (ba_remove junk a index len)"
proof -
  assume ok: "ba_ok a"
  show ?thesis
  proof (cases "ba_bytes a = []")
    case True
    then show ?thesis
      using ok by (auto simp: ba_remove_def Let_def mem_write_def mem_read_def)
  next
    case False
    then have "0 < ba_alloc (ba_detach a)"
      using ba_ok_detach [OF ok] by (auto simp: ba_ok_def split: if_splits)
    then show ?thesis
      using ok by (auto simp: ba_remove_def Let_def intro!: ba_ok_resize ba_ok_alloc_upd)
  qed
qed

text \<open>A replaced range inside the array: what was outside stays, the range becomes \<open>after\<close>.\<close>

lemma ba_bytes_replace_range:
  assumes ok: "ba_ok a" and "ba_size a < 2 ^ 31" "0 \<le> index" "0 \<le> len" "index + len \<le> int (ba_size a)"
  shows "ba_bytes (ba_replace_range junk a index len after) =
     take (nat index) (ba_bytes a) @ after @ drop (nat (index + len)) (ba_bytes a)"
proof -
  define i where "i = nat index"
  define l where "l = nat len"
  have il: "index = int i" "len = int l" "i + l \<le> ba_size a"
    using assms by (auto simp: i_def l_def)
  show ?thesis
  proof (cases "len = int (length after)")
    case True
    then show ?thesis
      using il by (simp add: ba_replace_range_def mem_write_def nat_int_add)
  next
    case False
    have "ba_bytes (ba_remove junk a index len) = take i (ba_bytes a) @ drop (i + l) (ba_bytes a)"
    proof (cases "l = 0 \<or> ba_size a \<le> i")
      case True
      then have "l = 0" using il by auto
      then show ?thesis using ba_bytes_remove [OF ok, of index junk len] assms(2) il by simp
    next
      case False
      then show ?thesis
        using ba_bytes_remove [OF ok, of index junk len] assms(2) il by (simp add: nat_int_add)
    qed
    moreover have "i \<le> ba_size a" using il by simp
    ultimately show ?thesis
      using False il by (simp add: ba_replace_range_def ba_bytes_insert ok ba_ok_remove nat_int_add)
  qed
qed

section \<open>Cutting\<close>

lemma ba_bytes_left: "ba_bytes (ba_left a n) = take (nat n) (ba_bytes a)"
  by (auto simp: ba_left_def mem_read_def nat_le_iff)

lemma ba_bytes_right:
  "ba_bytes (ba_right a n) = drop (ba_size a - nat n) (ba_bytes a)"
proof (cases "n \<ge> int (ba_size a)")
  case True
  then have "ba_size a - nat n = 0" by linarith
  then show ?thesis using True by (simp add: ba_right_def)
qed (auto simp: ba_right_def mem_read_def)

text \<open>\<open>mid\<close> is the intersection of the requested window with the array.\<close>

lemma container_mid_nonneg:
  assumes "0 \<le> p" "p \<le> n" "n < 2 ^ 31" "- (2 ^ 31) \<le> l" "l < 2 ^ 31"
  defines "k \<equiv> (if l < 0 \<or> n - p < l then n - p else l)"
  shows "container_mid n p l =
    (if p = 0 \<and> k = n then CutFull else if k > 0 then CutSubset else CutEmpty, p, k)"
proof -
  have "(word_of_int l :: u32) > word_of_int (n - p) \<longleftrightarrow> l < 0 \<or> n - p < l"
  proof -
    have d: "uint (word_of_int (n - p) :: u32) = n - p"
      by (rule uint_small) (use assms in auto)
    show ?thesis
    proof (cases "l < 0")
      case True
      then have "uint (word_of_int l :: u32) = l + 2 ^ 32"
        using assms uint_negative [of l] by simp
      then show ?thesis
        using True assms by (simp only: word_less_def d) simp
    next
      case False
      then have "uint (word_of_int l :: u32) = l"
        using assms uint_small [of l] by simp
      with False show ?thesis by (simp only: word_less_def d) simp
    qed
  qed
  then show ?thesis
    using assms by (auto simp: container_mid_def Let_def)
qed

lemma ba_bytes_mid:
  assumes "0 \<le> p" "ba_size a < 2 ^ 31" "- (2 ^ 31) \<le> l" "l < 2 ^ 31"
  shows "ba_bytes (ba_mid a p l) =
     (if l < 0 then drop (nat p) (ba_bytes a) else take (nat l) (drop (nat p) (ba_bytes a)))"
proof (cases "p \<le> int (ba_size a)")
  case True
  define k where "k = (if l < 0 \<or> int (ba_size a) - p < l then int (ba_size a) - p else l)"
  have "container_mid (int (ba_size a)) p l =
    (if p = 0 \<and> k = int (ba_size a) then CutFull else if k > 0 then CutSubset else CutEmpty, p, k)"
    unfolding k_def by (rule container_mid_nonneg) (use assms True in auto)
  moreover have "take (nat k) (drop (nat p) (ba_bytes a)) =
     (if l < 0 then drop (nat p) (ba_bytes a) else take (nat l) (drop (nat p) (ba_bytes a)))"
    using assms(1) by (auto simp: k_def nat_diff_distrib)
  ultimately show ?thesis
    using assms(1) True by (auto simp: ba_mid_def mem_read_def ba_allocate_def shared_empty_def)
next
  case False
  then show ?thesis
    using assms by (auto simp: ba_mid_def container_mid_def shared_null_def)
qed

section \<open>Padding and repetition\<close>

lemma ba_bytes_left_justified:
  "ba_bytes (ba_left_justified junk a w f trunc) =
     (if int (ba_size a) < w then ba_bytes a @ replicate (nat w - ba_size a) f
      else if trunc then take (nat w) (ba_bytes a) else ba_bytes a)"
proof (cases "int (ba_size a) < w")
  case True
  then show ?thesis
    by (simp add: ba_left_justified_def Let_def shared_null_def ba_ok_def set_length_grow mem_write_def
        nat_diff_distrib)
qed (auto simp: ba_left_justified_def Let_def ba_bytes_left)

lemma ba_bytes_right_justified:
  "ba_bytes (ba_right_justified junk a w f trunc) =
     (if int (ba_size a) < w then replicate (nat w - ba_size a) f @ ba_bytes a
      else if trunc then take (nat w) (ba_bytes a) else ba_bytes a)"
proof (cases "int (ba_size a) < w")
  case True
  then show ?thesis
    by (simp add: ba_right_justified_def Let_def shared_null_def ba_ok_def set_length_grow mem_write_def
        nat_diff_distrib)
qed (auto simp: ba_right_justified_def Let_def ba_bytes_left)

text \<open>
  The doubling loop keeps a prefix of the infinite repetition; with at least half of the
  result written the last copy completes it.
\<close>

lemma concat_replicate_add: "concat (replicate (m + n) xs) = concat (replicate m xs) @ concat (replicate n xs)"
  by (simp add: replicate_add)

lemma length_concat_replicate [simp]: "length (concat (replicate n xs)) = n * length xs"
  by (induction n) auto

lemma repeat_loop_inv:
  assumes "xs \<noteq> []" "c = k * length xs" "w = concat (replicate k xs)" "0 < k" "k \<le> n"
    and "h = n * length xs div 2"
  shows "\<exists>m. repeat_loop h c w = concat (replicate m xs) \<and> m \<le> n \<and> n * length xs \<le> 2 * (m * length xs) + 1
            \<and> n \<le> 2 * m"
  using assms
proof (induction h c w arbitrary: k rule: repeat_loop.induct)
  case (1 h c w)
  have pos: "0 < length xs" using "1.prems" by simp
  show ?case
  proof (cases "c \<le> h")
    case True
    have "0 < c" using "1.prems" pos by simp
    have "k * length xs \<le> n * length xs div 2" using True "1.prems" by simp
    then have "2 * (k * length xs) \<le> n * length xs" by linarith
    then have "(2 * k) * length xs \<le> n * length xs" by (simp only: mult.assoc)
    then have "2 * k \<le> n" using pos by simp
    have w: "w @ take c w = concat (replicate (2 * k) xs)"
      using "1.prems" concat_replicate_add [of k k xs] by (simp add: mult_2)
    have u: "repeat_loop h c w = repeat_loop h (2 * c) (w @ take c w)"
      using True \<open>0 < c\<close> by (subst repeat_loop.simps) simp
    show ?thesis
      unfolding u by (rule "1.IH" [where k = "2 * k"])
        (use True \<open>0 < c\<close> \<open>2 * k \<le> n\<close> "1.prems" w in simp_all)
  next
    case False
    then have "n * length xs \<le> 2 * (k * length xs) + 1"
      using "1.prems" by simp
    moreover have "n \<le> 2 * k"
    proof (rule ccontr)
      assume "\<not> n \<le> 2 * k"
      then have "2 * k + 1 \<le> n" by simp
      then have "(2 * k + 1) * length xs \<le> n * length xs" by (rule mult_le_mono1)
      then have "2 * (k * length xs) + length xs \<le> n * length xs" by (simp add: algebra_simps)
      with False "1.prems" pos show False by simp
    qed
    moreover have "repeat_loop h c w = concat (replicate k xs)"
      using False "1.prems" by (subst repeat_loop.simps) simp
    ultimately show ?thesis
      using "1.prems" by blast
  qed
qed

lemma ba_bytes_repeated:
  assumes "0 \<le> n"
  shows "ba_bytes (ba_repeated a n) = concat (replicate (nat n) (ba_bytes a))"
proof -
  define xs where "xs = ba_bytes a"
  consider "xs = []" | "xs \<noteq> []" "n \<le> 1" | "xs \<noteq> []" "1 < n" by linarith
  then show ?thesis
  proof cases
    case 1
    then show ?thesis by (simp add: ba_repeated_def flip: xs_def)
  next
    case 2
    then have "n = 0 \<or> n = 1" using assms by linarith
    then show ?thesis using 2 by (auto simp: ba_repeated_def shared_null_def simp flip: xs_def)
  next
    case 3
    define k where "k = nat n"
    define r where "r = k * length xs"
    have "0 < k" using 3 by (simp add: k_def)
    have "\<exists>m. repeat_loop (r div 2) (length xs) xs = concat (replicate m xs) \<and> m \<le> k
        \<and> k * length xs \<le> 2 * (m * length xs) + 1 \<and> k \<le> 2 * m"
      by (rule repeat_loop_inv [where k = 1]) (use 3 \<open>0 < k\<close> in \<open>auto simp: r_def\<close>)
    then obtain m where m: "repeat_loop (r div 2) (length xs) xs = concat (replicate m xs)"
      "m \<le> k" "k \<le> 2 * m" by blast
    have "concat (replicate m xs) @ take (r - m * length xs) (concat (replicate m xs))
        = concat (replicate k xs)"
    proof -
      have "m = (k - m) + (2 * m - k)" using m by simp
      then have "concat (replicate m xs) = concat (replicate (k - m) xs) @ concat (replicate (2 * m - k) xs)"
        using concat_replicate_add by metis
      moreover have "r - m * length xs = (k - m) * length xs"
        by (simp add: r_def diff_mult_distrib)
      ultimately have "take (r - m * length xs) (concat (replicate m xs)) = concat (replicate (k - m) xs)"
        by simp
      then show ?thesis using m concat_replicate_add [of m "k - m" xs] by simp
    qed
    moreover have "ba_alloc (ba_reserve shared_null r) = r + 1"
      by (simp add: ba_reserve_def shared_null_def is_shared_def ba_realloc_def ba_allocate_def block_capacity_def)
    ultimately show ?thesis
      using 3 m by (simp add: ba_repeated_def Let_def flip: xs_def k_def r_def)
  qed
qed

section \<open>Searching and splitting\<close>

lemma scan_char_none: "scan_char c xs i = - 1 \<longleftrightarrow> c \<notin> set xs" if "0 \<le> i"
  using that by (induction c xs i rule: scan_char.induct) auto

lemma scan_char_some:
  assumes "scan_char c xs i = e" "e \<noteq> - 1" "0 \<le> i"
  shows "nat (e - i) < length xs \<and> i \<le> e \<and> xs ! nat (e - i) = c \<and> c \<notin> set (take (nat (e - i)) xs)"
  using assms
proof (induction c xs i rule: scan_char.induct)
  case (2 c x xs i)
  show ?case
  proof (cases "x = c")
    case False
    then have "scan_char c xs (i + 1) = e" using "2.prems" by simp
    from "2.IH" [OF False this] "2.prems" have
      ih: "nat (e - (i + 1)) < length xs" "i + 1 \<le> e" "xs ! nat (e - (i + 1)) = c"
        "c \<notin> set (take (nat (e - (i + 1))) xs)" by auto
    have "nat (e - i) = Suc (nat (e - (i + 1)))" using ih(2) by linarith
    with ih False show ?thesis by simp
  qed (use "2.prems" in auto)
qed simp

text \<open>\<open>indexOf(char, from)\<close> is the least position at or after \<open>from\<close>, or -1.\<close>

lemma ba_index_of_char_spec:
  assumes "0 \<le> st"
  shows "(ba_index_of_char a c st = - 1 \<longleftrightarrow> c \<notin> set (drop (nat st) (ba_bytes a)))
    \<and> (ba_index_of_char a c st \<noteq> - 1 \<longrightarrow>
         st \<le> ba_index_of_char a c st \<and>
         (let e = nat (ba_index_of_char a c st)
          in nat st \<le> e \<and> e < ba_size a \<and> ba_bytes a ! e = c
             \<and> c \<notin> set (take (e - nat st) (drop (nat st) (ba_bytes a)))))"
proof (cases "st < int (ba_size a)")
  case True
  define xs where "xs = drop (nat st) (ba_bytes a)"
  define e where "e = scan_char c xs st"
  have ix: "ba_index_of_char a c st = e"
    using True assms by (simp add: ba_index_of_char_def e_def xs_def)
  have some: "nat (e - st) < length xs \<and> st \<le> e \<and> xs ! nat (e - st) = c \<and> c \<notin> set (take (nat (e - st)) xs)"
    if "e \<noteq> - 1" using scan_char_some [of c xs st e] that assms by (simp add: e_def)
  have d: "nat (e - st) = nat e - nat st" using assms by linarith
  show ?thesis
  proof (cases "e = - 1")
    case False
    with some have s: "nat e - nat st < length xs" "nat st \<le> nat e" "xs ! (nat e - nat st) = c"
      "c \<notin> set (take (nat e - nat st) xs)" by (auto simp: d)
    have "ba_bytes a ! nat e = c" "nat e < ba_size a"
      using s by (simp_all add: xs_def)
    moreover have "c \<in> set xs" using s(1,3) nth_mem by metis
    moreover have "st \<le> e" using some False by simp
    ultimately show ?thesis using False s by (simp add: ix Let_def flip: xs_def)
  qed (use scan_char_none [of st c xs] assms in \<open>simp add: ix e_def flip: xs_def\<close>)
next
  case False
  then show ?thesis using assms by (simp add: ba_index_of_char_def)
qed

fun join :: "'a \<Rightarrow> 'a list list \<Rightarrow> 'a list" where
  "join sep [] = []"
| "join sep [xs] = xs"
| "join sep (xs # ys # zs) = xs @ sep # join sep (ys # zs)"

lemma join_Cons: "zs \<noteq> [] \<Longrightarrow> join sep (xs # zs) = xs @ sep # join sep zs"
  by (cases zs) auto

lemma split_loop_not_Nil [simp]: "split_loop a sep start \<noteq> []"
  by (simp add: split_loop.simps [of a sep start] Let_def)

lemma split_loop_join:
  assumes "ba_size a < 2 ^ 31 - 1" "start \<le> ba_size a"
  shows "join sep (map ba_bytes (split_loop a sep start)) = drop start (ba_bytes a)
       \<and> (\<forall>p \<in> set (split_loop a sep start). sep \<notin> set (ba_bytes p))"
  using assms
proof (induction a sep start rule: split_loop.induct)
  case (1 a sep start)
  define e where "e = ba_index_of_char a sep (int start)"
  note spec = ba_index_of_char_spec [of "int start" a sep, folded e_def]
  show ?case
  proof (cases "e = - 1")
    case True
    then show ?thesis
      using spec "1.prems"
      by (simp add: split_loop.simps [of a sep start] ba_bytes_mid flip: e_def)
  next
    case False
    define k where "k = nat e"
    from False spec have k: "start \<le> k" "k < ba_size a" "ba_bytes a ! k = sep"
      "sep \<notin> set (take (k - start) (drop start (ba_bytes a)))"
      by (simp_all add: Let_def k_def)
    from False spec have ek: "e = int k" by (auto simp: k_def)
    then have n: "nat (e + 1) = Suc k" by linarith
    have ih: "join sep (map ba_bytes (split_loop a sep (Suc k))) = drop (Suc k) (ba_bytes a)"
      "\<forall>p \<in> set (split_loop a sep (Suc k)). sep \<notin> set (ba_bytes p)"
      using "1.IH" [OF e_def False] "1.prems" k by (simp_all add: n)
    have piece: "ba_bytes (ba_mid a (int start) (e - int start)) = take (k - start) (drop start (ba_bytes a))"
      using k(1,2) "1.prems" ek by (subst ba_bytes_mid) (auto simp: nat_diff_distrib)
    have u: "split_loop a sep start = ba_mid a (int start) (e - int start) # split_loop a sep (Suc k)"
      using False by (subst split_loop.simps) (simp add: Let_def n flip: e_def)
    have "take (k - start) (drop start (ba_bytes a)) @ sep # drop (Suc k) (ba_bytes a) = drop start (ba_bytes a)"
      using k by (metis Cons_nth_drop_Suc append_take_drop_id drop_drop le_add_diff_inverse2)
    then show ?thesis
      using ih k(4) by (simp add: u piece join_Cons)
  qed
qed

lemma split_char_join:
  assumes "ba_size a < 2 ^ 31 - 1"
  shows "join sep (map ba_bytes (ba_split a sep)) = ba_bytes a"
    and "p \<in> set (ba_split a sep) \<Longrightarrow> sep \<notin> set (ba_bytes p)"
  using split_loop_join [OF assms, of 0 sep] by (auto simp: ba_split_def)


section \<open>Properties\<close>

text \<open>append, prepend, insert, remove and replace compute the list they name, on shared and
  unshared headers alike, and out-of-range positions are handled as documented: an insertion
  past the end pads with spaces, a removal out of range does nothing.\<close>

lemma byte_array_edits:
  assumes "ba_ok a" "ba_ok b" "ba_size a < 2 ^ 31" "0 \<le> i" "i \<le> int (ba_size a)" "0 < n"
  shows "ba_bytes (ba_append a b) = ba_bytes a @ ba_bytes b
    \<and> ba_bytes (ba_prepend a b) = ba_bytes b @ ba_bytes a
    \<and> ba_bytes (bytearray_insert junk a i d) = take (nat i) (ba_bytes a) @ d @ drop (nat i) (ba_bytes a)
    \<and> ba_bytes (ba_insert_fill junk a i n c) = take (nat i) (ba_bytes a) @ replicate (nat n) c @ drop (nat i) (ba_bytes a)
    \<and> ba_bytes (ba_remove junk a i n) = take (nat i) (ba_bytes a) @ drop (nat (i + n)) (ba_bytes a)"
proof -
  have "nat i \<le> ba_size a" using assms(5) by simp
  then show ?thesis
    using assms ba_bytes_append [OF assms(1)] ba_bytes_prepend [OF assms(1,2)] ba_bytes_insert [OF assms(1), of junk i]
      ba_bytes_insert_fill [OF assms(1), of junk i n c] ba_bytes_remove [OF assms(1,3), of i junk n]
    by auto
qed

text \<open>\<open>split\<close> cuts at every separator: no piece holds it, and joining the pieces gives the
  array back.\<close>

lemma byte_array_split_join:
  assumes "ba_size a < 2 ^ 31 - 1"
  shows "join sep (map ba_bytes (ba_split a sep)) = ba_bytes a
    \<and> (\<forall>p \<in> set (ba_split a sep). sep \<notin> set (ba_bytes p))"
  using split_char_join [OF assms] by auto

text \<open>\<open>indexOf\<close> from a position is the first occurrence at or after it, -1 when there is none.\<close>

lemma byte_array_index_of:
  assumes "0 \<le> st"
  shows "(ba_index_of_char a c st = - 1 \<and> c \<notin> set (drop (nat st) (ba_bytes a)))
    \<or> (\<exists>e. ba_index_of_char a c st = int e \<and> nat st \<le> e \<and> e < ba_size a \<and> ba_bytes a ! e = c
          \<and> c \<notin> set (take (e - nat st) (drop (nat st) (ba_bytes a))))"
proof (cases "ba_index_of_char a c st = - 1")
  case True
  then show ?thesis using ba_index_of_char_spec [OF assms, of a c] by simp
next
  case False
  then have "st \<le> ba_index_of_char a c st" using ba_index_of_char_spec [OF assms, of a c] by simp
  then obtain e where "ba_index_of_char a c st = int e" using assms by (metis nonneg_int_cases order_trans)
  then show ?thesis using ba_index_of_char_spec [OF assms, of a c] False by (auto simp: Let_def)
qed

text \<open>\<open>repeated\<close>, which doubles what it has written as long as that is at most half of the
  result, is the concatenation of \<open>times\<close> copies.\<close>

lemma byte_array_repeated:
  assumes "0 \<le> n"
  shows "ba_bytes (ba_repeated a n) = concat (replicate (nat n) (ba_bytes a))"
  using assms by (rule ba_bytes_repeated)

end
