(* ===== verification/Ring_Buffers.thy ===== *)
theory Ring_Buffers
  imports Byte_Edit
begin

text \<open>
  \<open>pdk::ds::internal::RingBuffer\<close> (\<open>src/modules/base/ds/RingBuffer.cpp\<close>,
  \<open>RingBufferPrivate.h\<close>): a queue of bytes kept as a list of byte arrays, of which the
  first is read from \<open>m_head\<close> on and the last is written up to \<open>m_tail\<close>.

  \<open>None\<close> as the result of an operation is undefined behaviour of the code: an access to
  the front or back of an empty list, or a write through a null pointer.  Lengths are
  \<open>int\<close>; a \<open>char *\<close> that is handed out is the offset in the block it points into.
\<close>

record ring_buffer =
  rb_buffers :: "byte_array list"
  rb_head :: int
  rb_tail :: int
  rb_tailBuffer :: int
  rb_basicBlockSize :: int
  rb_bufferSize :: int

definition max_byte_array_size :: int where
  "max_byte_array_size = 2 ^ 31 - 1 - int array_data_header"

definition ring_buffer_new :: "int \<Rightarrow> ring_buffer" where
  "ring_buffer_new growth = \<lparr>rb_buffers = [], rb_head = 0, rb_tail = 0, rb_tailBuffer = 0,
     rb_basicBlockSize = growth, rb_bufferSize = 0\<rparr>"

section \<open>Releasing space\<close>

definition rb_clear :: "ring_buffer \<Rightarrow> ring_buffer" where
  "rb_clear rb =
     (case rb_buffers rb of
        [] \<Rightarrow> rb
      | front # rest \<Rightarrow> rb\<lparr>rb_buffers := [ba_clear front], rb_head := 0, rb_tail := 0,
                            rb_tailBuffer := 0, rb_bufferSize := 0\<rparr>)"

text \<open>Everything is consumed: a block no larger than the chunk size is kept.\<close>

definition rb_reset :: "ring_buffer \<Rightarrow> ring_buffer" where
  "rb_reset rb =
     (case rb_buffers rb of
        [] \<Rightarrow> rb
      | front # rest \<Rightarrow>
          if int (ba_size front) \<le> rb_basicBlockSize rb
          then rb\<lparr>rb_bufferSize := 0, rb_head := 0, rb_tail := 0\<rparr>
          else rb_clear rb)"

function rb_free :: "ring_buffer \<Rightarrow> int \<Rightarrow> ring_buffer option" where
  "rb_free rb bytes =
     (if bytes > 0
      then (case rb_buffers rb of
              [] \<Rightarrow> None
            | front # rest \<Rightarrow>
                let blockSize = int (ba_size front) - rb_head rb
                in if rb_tailBuffer rb = 0 \<or> blockSize > bytes
                   then (if rb_bufferSize rb \<le> bytes then Some (rb_reset rb)
                         else Some (rb\<lparr>rb_head := rb_head rb + bytes,
                                        rb_bufferSize := rb_bufferSize rb - bytes\<rparr>))
                   else rb_free (rb\<lparr>rb_bufferSize := rb_bufferSize rb - blockSize, rb_buffers := rest,
                                     rb_tailBuffer := rb_tailBuffer rb - 1, rb_head := 0\<rparr>)
                                (bytes - blockSize))
      else Some rb)"
  by pat_completeness auto
termination
  by (relation "measure (\<lambda>(rb, n). length (rb_buffers rb))") auto

declare rb_free.simps [simp del]

function rb_chop :: "ring_buffer \<Rightarrow> int \<Rightarrow> ring_buffer option" where
  "rb_chop rb bytes =
     (if bytes > 0
      then if rb_tailBuffer rb = 0 \<or> rb_tail rb > bytes
           then (if rb_bufferSize rb \<le> bytes
                 then (if rb_buffers rb = [] then None else Some (rb_reset rb))
                 else Some (rb\<lparr>rb_tail := rb_tail rb - bytes,
                                rb_bufferSize := rb_bufferSize rb - bytes\<rparr>))
           else (if length (rb_buffers rb) \<le> 1 then None
                 else let rest = butlast (rb_buffers rb)
                      in rb_chop (rb\<lparr>rb_bufferSize := rb_bufferSize rb - rb_tail rb, rb_buffers := rest,
                                      rb_tailBuffer := rb_tailBuffer rb - 1,
                                      rb_tail := int (ba_size (last rest))\<rparr>)
                                 (bytes - rb_tail rb))
      else Some rb)"
  by pat_completeness auto
termination
  by (relation "measure (\<lambda>(rb, n). length (rb_buffers rb))") auto

declare rb_chop.simps [simp del]

definition rb_truncate :: "ring_buffer \<Rightarrow> int \<Rightarrow> ring_buffer option" where
  "rb_truncate rb pos =
     (if pos < rb_bufferSize rb then rb_chop rb (rb_bufferSize rb - pos) else Some rb)"

definition rb_skip :: "ring_buffer \<Rightarrow> int \<Rightarrow> (ring_buffer \<times> int) option" where
  "rb_skip rb len =
     (let bytesToSkip = min len (rb_bufferSize rb)
      in map_option (\<lambda>rb. (rb, bytesToSkip)) (rb_free rb bytesToSkip))"

section \<open>Acquiring space\<close>

text \<open>\<open>reserve\<close>: the offset in the last block, or no pointer for a length out of range.\<close>

definition rb_reserve :: "memory \<Rightarrow> ring_buffer \<Rightarrow> int \<Rightarrow> (ring_buffer \<times> nat option) option" where
  "rb_reserve junk rb bytes =
     (if bytes \<le> 0 \<or> bytes \<ge> max_byte_array_size then Some (rb, None)
      else if rb_bufferSize rb \<noteq> 0 \<and> rb_buffers rb = [] then None
      else let rb =
             (if rb_bufferSize rb = 0
              then (case rb_buffers rb of
                      [] \<Rightarrow> rb\<lparr>rb_buffers := [ba_uninitialized junk (nat (max (rb_basicBlockSize rb) bytes))]\<rparr>
                    | front # rest \<Rightarrow>
                        rb\<lparr>rb_buffers := ba_resize junk front (max (rb_basicBlockSize rb) bytes) # rest\<rparr>)
              else let newSize = bytes + rb_tail rb;
                       back = last (rb_buffers rb)
                   in if 0 = rb_basicBlockSize rb
                         \<or> (newSize > int (ba_capacity back)
                            \<and> (rb_tail rb \<ge> rb_basicBlockSize rb \<or> newSize \<ge> max_byte_array_size))
                      then rb\<lparr>rb_buffers := butlast (rb_buffers rb)
                                @ [ba_resize junk back (rb_tail rb),
                                   ba_uninitialized junk (nat (max (rb_basicBlockSize rb) bytes))],
                              rb_tailBuffer := rb_tailBuffer rb + 1, rb_tail := 0\<rparr>
                      else if newSize > int (ba_size back)
                      then rb\<lparr>rb_buffers := butlast (rb_buffers rb)
                                @ [ba_resize junk back (max (rb_basicBlockSize rb) newSize)]\<rparr>
                      else rb)
           in Some (rb\<lparr>rb_bufferSize := rb_bufferSize rb + bytes, rb_tail := rb_tail rb + bytes\<rparr>,
                    Some (nat (rb_tail rb))))"

text \<open>\<open>reserveFront\<close>: the offset in the first block.\<close>

definition rb_reserveFront :: "memory \<Rightarrow> ring_buffer \<Rightarrow> int \<Rightarrow> (ring_buffer \<times> nat option) option" where
  "rb_reserveFront junk rb bytes =
     (if bytes \<le> 0 \<or> bytes \<ge> max_byte_array_size then Some (rb, None)
      else if rb_head rb > 0 \<and> rb_buffers rb = [] then None
      else let rb =
             (if rb_head rb < bytes \<or> rb_basicBlockSize rb = 0
              then let rb =
                     (if rb_head rb > 0
                      then let rb = rb\<lparr>rb_buffers := (case rb_buffers rb of [] \<Rightarrow> []
                                        | front # rest \<Rightarrow> ba_remove junk front 0 (rb_head rb) # rest)\<rparr>
                           in if rb_tailBuffer rb \<noteq> 0 then rb\<lparr>rb_tail := rb_tail rb - rb_head rb\<rparr> else rb
                      else rb);
                     rb = rb\<lparr>rb_head := max (rb_basicBlockSize rb) bytes\<rparr>
                   in if rb_basicBlockSize rb = 0
                      then let rb =
                             (case rb_buffers rb of
                                [] \<Rightarrow> rb\<lparr>rb_buffers := [ba_uninitialized junk (nat (rb_head rb))]\<rparr>
                              | front # rest \<Rightarrow> rb\<lparr>rb_buffers := ba_resize junk front (rb_head rb) # rest\<rparr>)
                           in rb\<lparr>rb_tail := rb_head rb\<rparr>
                      else rb\<lparr>rb_buffers := ba_uninitialized junk (nat (rb_head rb)) # rb_buffers rb,
                              rb_tailBuffer := rb_tailBuffer rb + 1\<rparr>
              else rb)
           in Some (rb\<lparr>rb_head := rb_head rb - bytes, rb_bufferSize := rb_bufferSize rb + bytes\<rparr>,
                    Some (nat (rb_head rb - bytes))))"

section \<open>Writing\<close>

definition write_back :: "ring_buffer \<Rightarrow> nat \<Rightarrow> byte list \<Rightarrow> ring_buffer" where
  "write_back rb i data =
     (let back = ba_detach (last (rb_buffers rb))
      in rb\<lparr>rb_buffers := butlast (rb_buffers rb)
              @ [back\<lparr>ba_bytes := mem_write (ba_bytes back) i data\<rparr>]\<rparr>)"

definition write_front :: "ring_buffer \<Rightarrow> nat \<Rightarrow> byte list \<Rightarrow> ring_buffer" where
  "write_front rb i data =
     (case rb_buffers rb of
        [] \<Rightarrow> rb
      | front # rest \<Rightarrow>
          let front = ba_detach front
          in rb\<lparr>rb_buffers := front\<lparr>ba_bytes := mem_write (ba_bytes front) i data\<rparr> # rest\<rparr>)"

definition rb_append_data :: "memory \<Rightarrow> ring_buffer \<Rightarrow> byte list \<Rightarrow> ring_buffer option" where
  "rb_append_data junk rb data =
     (case rb_reserve junk rb (int (length data)) of
        None \<Rightarrow> None
      | Some (rb, Some i) \<Rightarrow> Some (write_back rb i data)
      | Some (rb, None) \<Rightarrow> if data = [] then Some rb else None)"

definition rb_putChar :: "memory \<Rightarrow> ring_buffer \<Rightarrow> byte \<Rightarrow> ring_buffer option" where
  "rb_putChar junk rb c =
     (case rb_reserve junk rb 1 of
        Some (rb, Some i) \<Rightarrow> Some (write_back rb i [c])
      | _ \<Rightarrow> None)"

definition rb_append :: "memory \<Rightarrow> ring_buffer \<Rightarrow> byte_array \<Rightarrow> ring_buffer option" where
  "rb_append junk rb qba =
     (let placed =
        (if rb_tail rb = 0
         then (case rb_buffers rb of
                 [] \<Rightarrow> Some (rb\<lparr>rb_buffers := [ba_copy qba]\<rparr>)
               | _ \<Rightarrow> Some (rb\<lparr>rb_buffers := butlast (rb_buffers rb) @ [ba_copy qba]\<rparr>))
         else if rb_buffers rb = [] then None
         else Some (rb\<lparr>rb_buffers := butlast (rb_buffers rb)
                         @ [ba_resize junk (last (rb_buffers rb)) (rb_tail rb), ba_copy qba],
                       rb_tailBuffer := rb_tailBuffer rb + 1\<rparr>))
      in map_option (\<lambda>rb. rb\<lparr>rb_tail := int (ba_size qba),
                             rb_bufferSize := rb_bufferSize rb + int (ba_size qba)\<rparr>) placed)"

definition rb_ungetChar :: "memory \<Rightarrow> ring_buffer \<Rightarrow> byte \<Rightarrow> ring_buffer option" where
  "rb_ungetChar junk rb c =
     (if rb_head rb > 0
      then (if rb_buffers rb = [] then None
            else let rb = rb\<lparr>rb_head := rb_head rb - 1\<rparr>;
                     rb = write_front rb (nat (rb_head rb)) [c]
                 in Some (rb\<lparr>rb_bufferSize := rb_bufferSize rb + 1\<rparr>))
      else (case rb_reserveFront junk rb 1 of
              Some (rb, Some i) \<Rightarrow> Some (write_front rb i [c])
            | _ \<Rightarrow> None))"

section \<open>Reading\<close>

definition rb_nextDataBlockSize :: "ring_buffer \<Rightarrow> int option" where
  "rb_nextDataBlockSize rb =
     (if rb_tailBuffer rb = 0 then Some (rb_tail rb - rb_head rb)
      else case rb_buffers rb of
             [] \<Rightarrow> None
           | front # rest \<Rightarrow> Some (int (ba_size front) - rb_head rb))"

text \<open>The readable length of block \<open>i\<close>.\<close>

definition block_length :: "ring_buffer \<Rightarrow> nat \<Rightarrow> byte_array \<Rightarrow> int" where
  "block_length rb i b = (if int i = rb_tailBuffer rb then rb_tail rb else int (ba_size b))"

fun read_pointer_loop :: "ring_buffer \<Rightarrow> nat \<Rightarrow> int \<Rightarrow> byte_array list \<Rightarrow> (nat \<times> int \<times> int) option" where
  "read_pointer_loop rb i pos [] = None"
| "read_pointer_loop rb i pos (b # bs) =
     (let len = block_length rb i b
      in if len > pos then Some (i, pos, len - pos) else read_pointer_loop rb (i + 1) (pos - len) bs)"

text \<open>\<open>readPointerAtPosition\<close>: the block, the offset in it and the contiguous length.\<close>

definition rb_readPointerAtPosition :: "ring_buffer \<Rightarrow> int \<Rightarrow> (nat \<times> int \<times> int) option" where
  "rb_readPointerAtPosition rb pos =
     (if pos \<ge> 0 then read_pointer_loop rb 0 (pos + rb_head rb) (rb_buffers rb) else None)"

fun peek_loop :: "ring_buffer \<Rightarrow> nat \<Rightarrow> int \<Rightarrow> int \<Rightarrow> byte_array list \<Rightarrow> byte list" where
  "peek_loop rb i pos remaining [] = []"
| "peek_loop rb i pos remaining (b # bs) =
     (if remaining > 0
      then let blockLength = block_length rb i b
           in if pos < blockLength
              then let blockLength = min (blockLength - pos) remaining
                   in mem_read (ba_bytes b) (nat pos) (nat blockLength)
                      @ peek_loop rb (i + 1) 0 (remaining - blockLength) bs
              else peek_loop rb (i + 1) (pos - blockLength) remaining bs
      else [])"

definition rb_peek :: "ring_buffer \<Rightarrow> int \<Rightarrow> int \<Rightarrow> byte list" where
  "rb_peek rb maxLength pos =
     (if pos \<ge> 0 then peek_loop rb 0 (pos + rb_head rb) maxLength (rb_buffers rb) else [])"

text \<open>\<open>memchr\<close> is \<open>scan_char\<close>; \<open>index\<close> is the position of the block relative to \<open>pos\<close>.\<close>

fun index_of_loop :: "ring_buffer \<Rightarrow> byte \<Rightarrow> int \<Rightarrow> int \<Rightarrow> nat \<Rightarrow> int \<Rightarrow> byte_array list \<Rightarrow> int" where
  "index_of_loop rb c maxLength pos i index [] = - 1"
| "index_of_loop rb c maxLength pos i index (b # bs) =
     (let nextBlockIndex = min (index + block_length rb i b) maxLength
      in if nextBlockIndex > 0
         then let off = (if index < 0 then nat (- index) else 0);
                  start = (if index < 0 then 0 else index);
                  found = scan_char c (mem_read (ba_bytes b) off (nat (nextBlockIndex - start))) 0
              in if found \<noteq> - 1 then found + start + pos
                 else if nextBlockIndex = maxLength then - 1
                 else index_of_loop rb c maxLength pos (i + 1) nextBlockIndex bs
         else index_of_loop rb c maxLength pos (i + 1) nextBlockIndex bs)"

definition rb_indexOf :: "ring_buffer \<Rightarrow> byte \<Rightarrow> int \<Rightarrow> int \<Rightarrow> int" where
  "rb_indexOf rb c maxLength pos =
     (if maxLength \<le> 0 \<or> pos < 0 then - 1
      else index_of_loop rb c maxLength pos 0 (- (pos + rb_head rb)) (rb_buffers rb))"

definition rb_canReadLine :: "ring_buffer \<Rightarrow> bool" where
  "rb_canReadLine rb \<longleftrightarrow> rb_indexOf rb 10 (rb_bufferSize rb) 0 \<ge> 0"

text \<open>
  The copying loop of \<open>read(char *, maxLength)\<close>; it takes the rest of the first block in
  each round.  A round that copies nothing would never end.
\<close>

partial_function (option) rb_read_loop :: "ring_buffer \<Rightarrow> int \<Rightarrow> byte list \<Rightarrow> (ring_buffer \<times> byte list) option" where
  "rb_read_loop rb bytesToRead data =
     (if int (length data) < bytesToRead
      then Option.bind (rb_nextDataBlockSize rb) (\<lambda>blk.
             let n = min (bytesToRead - int (length data)) blk;
                 chunk = mem_read (concat (map ba_bytes (take 1 (rb_buffers rb)))) (nat (rb_head rb)) (nat n)
             in Option.bind (rb_free rb n) (\<lambda>rb. rb_read_loop rb bytesToRead (data @ chunk)))
      else Some (rb, data))"

declare rb_read_loop.simps [code]

definition rb_read :: "ring_buffer \<Rightarrow> int \<Rightarrow> (ring_buffer \<times> byte list) option" where
  "rb_read rb maxLength = rb_read_loop rb (min (rb_bufferSize rb) maxLength) []"

text \<open>\<open>read()\<close>: the first block as a byte array.\<close>

definition rb_read_block :: "memory \<Rightarrow> ring_buffer \<Rightarrow> (ring_buffer \<times> byte_array) option" where
  "rb_read_block junk rb =
     (if rb_bufferSize rb = 0 then Some (rb, shared_null)
      else case rb_buffers rb of
             [] \<Rightarrow> None
           | front # rest \<Rightarrow>
               let qba = ba_reserve (ba_copy front) 0;
                   (qba, rb) = (if rb_tailBuffer rb = 0
                                then (ba_resize junk qba (rb_tail rb),
                                      rb\<lparr>rb_buffers := rest, rb_tail := 0\<rparr>)
                                else (qba, rb\<lparr>rb_buffers := rest, rb_tailBuffer := rb_tailBuffer rb - 1\<rparr>));
                   qba = ba_remove junk qba 0 (rb_head rb)
               in Some (rb\<lparr>rb_head := 0, rb_bufferSize := rb_bufferSize rb - int (ba_size qba)\<rparr>, qba))"

definition rb_getChar :: "ring_buffer \<Rightarrow> (ring_buffer \<times> int) option" where
  "rb_getChar rb =
     (if rb_bufferSize rb = 0 then Some (rb, - 1)
      else case rb_buffers rb of
             [] \<Rightarrow> None
           | front # rest \<Rightarrow>
               (if nat (rb_head rb) < ba_size front
                then let c = ba_bytes front ! nat (rb_head rb)
                     in map_option (\<lambda>rb. (rb, uint c)) (rb_free rb 1)
                else None))"

text \<open>
  \<open>readLine\<close> into a buffer of \<open>maxLength\<close> cells: the line with its newline, terminated
  by a zero byte; the result is the length, -1 when there is no room.
\<close>

definition rb_readLine :: "ring_buffer \<Rightarrow> int \<Rightarrow> (ring_buffer \<times> byte list \<times> int) option" where
  "rb_readLine rb maxLength =
     (let maxLength = maxLength - 1
      in if maxLength \<le> 0 then Some (rb, [], - 1)
         else let i = rb_indexOf rb 10 maxLength 0
              in map_option (\<lambda>(rb, data). (rb, data @ [0], int (length data)))
                   (rb_read rb (if i \<ge> 0 then i + 1 else maxLength)))"

end
