(* ===== verification/Ring_Queue.thy ===== *)
theory Ring_Queue
  imports Ring_Buffers
begin

text \<open>
  The ring buffer as a queue of bytes.  \<open>rb_contents\<close> is the sequence of bytes the buffer
  holds, \<open>rb_inv\<close> its invariant; every operation is related to the list operation it
  implements.  The invariant asks for a positive chunk size: with the size 0 the
  buffer can hold an empty block in the middle, on which \<open>read\<close> does not end.
\<close>

definition rb_flat :: "byte_array list \<Rightarrow> int \<Rightarrow> byte list" where
  "rb_flat bs t = (if bs = [] then [] else concat (map ba_bytes (butlast bs)) @ take (nat t) (ba_bytes (last bs)))"

definition rb_contents :: "ring_buffer \<Rightarrow> byte list" where
  "rb_contents rb = drop (nat (rb_head rb)) (rb_flat (rb_buffers rb) (rb_tail rb))"

definition rb_inv :: "ring_buffer \<Rightarrow> bool" where
  "rb_inv rb \<longleftrightarrow>
     0 < rb_basicBlockSize rb \<and> 0 \<le> rb_head rb \<and> 0 \<le> rb_tail rb \<and> list_all ba_ok (rb_buffers rb)
     \<and> rb_bufferSize rb = int (length (rb_contents rb))
     \<and> (case rb_buffers rb of
          [] \<Rightarrow> rb_head rb = 0 \<and> rb_tail rb = 0 \<and> rb_tailBuffer rb = 0
        | b # bs \<Rightarrow> rb_tailBuffer rb = int (length bs) \<and> rb_tail rb \<le> int (ba_size (last (b # bs)))
            \<and> (if bs = [] then rb_head rb \<le> rb_tail rb \<and> (rb_head rb = rb_tail rb \<longrightarrow> rb_head rb = 0)
               else rb_head rb < int (ba_size b))
            \<and> (\<forall>m \<in> set (butlast bs). ba_bytes m \<noteq> []))"

lemma rb_flat_Nil [simp]: "rb_flat [] t = []"
  by (simp add: rb_flat_def)

lemma rb_flat_single [simp]: "rb_flat [b] t = take (nat t) (ba_bytes b)"
  by (simp add: rb_flat_def)

lemma rb_flat_Cons [simp]: "bs \<noteq> [] \<Longrightarrow> rb_flat (b # bs) t = ba_bytes b @ rb_flat bs t"
  by (simp add: rb_flat_def)

lemma rb_flat_snoc [simp]: "rb_flat (xs @ [l]) t = concat (map ba_bytes xs) @ take (nat t) (ba_bytes l)"
  by (simp add: rb_flat_def)

lemma rb_contents_Cons:
  "rb_buffers rb = b # bs \<Longrightarrow> bs \<noteq> [] \<Longrightarrow> 0 \<le> rb_head rb \<Longrightarrow> rb_head rb < int (ba_size b) \<Longrightarrow>
   rb_contents rb = drop (nat (rb_head rb)) (ba_bytes b) @ rb_flat bs (rb_tail rb)"
  by (simp add: rb_contents_def)

lemma rb_clear_inv:
  assumes "0 < rb_basicBlockSize rb" "rb_buffers rb \<noteq> []"
  shows "rb_inv (rb_clear rb) \<and> rb_contents (rb_clear rb) = []
     \<and> rb_basicBlockSize (rb_clear rb) = rb_basicBlockSize rb"
  using assms by (cases "rb_buffers rb") (auto simp: rb_clear_def rb_inv_def rb_contents_def ba_clear_def)

lemma rb_reset_inv:
  assumes "0 < rb_basicBlockSize rb" "rb_buffers rb = [b]" "rb_tailBuffer rb = 0" "ba_ok b"
  shows "rb_inv (rb_reset rb) \<and> rb_contents (rb_reset rb) = []
     \<and> rb_basicBlockSize (rb_reset rb) = rb_basicBlockSize rb"
  using assms rb_clear_inv [of rb] by (auto simp: rb_reset_def rb_inv_def rb_contents_def)

lemma rb_free_contents:
  assumes "rb_inv rb" "0 \<le> n" "n \<le> rb_bufferSize rb"
  shows "\<exists>rb'. rb_free rb n = Some rb' \<and> rb_inv rb' \<and> rb_contents rb' = drop (nat n) (rb_contents rb)
     \<and> rb_basicBlockSize rb' = rb_basicBlockSize rb"
  using assms
proof (induction rb n rule: rb_free.induct)
  case (1 rb n)
  note inv = "1.prems"(1)[unfolded rb_inv_def]
  show ?case
  proof (cases "n = 0")
    case True
    with "1.prems" show ?thesis by (simp add: rb_free.simps [of rb 0])
  next
    case False
    with "1.prems" have n: "0 < n" by simp
    have "rb_buffers rb \<noteq> []" using "1.prems"(3) n inv by (auto simp: rb_contents_def)
    then obtain b bs where bs: "rb_buffers rb = b # bs" by (cases "rb_buffers rb") auto
    define blk where "blk = int (ba_size b) - rb_head rb"
    show ?thesis
    proof (cases "bs = []")
      case True
      then have u: "rb_free rb n = (if rb_bufferSize rb \<le> n then Some (rb_reset rb)
          else Some (rb\<lparr>rb_head := rb_head rb + n, rb_bufferSize := rb_bufferSize rb - n\<rparr>))"
        using n inv bs by (simp add: rb_free.simps [of rb n])
      show ?thesis
      proof (cases "rb_bufferSize rb \<le> n")
        case full: True
        then have "drop (nat n) (rb_contents rb) = []" using inv by simp
        then show ?thesis
          using full u rb_reset_inv [of rb b] inv bs True by simp
      next
        case part: False
        have len: "int (length (rb_contents rb)) = rb_tail rb - rb_head rb"
          using inv bs True by (auto simp: rb_contents_def)
        let ?rb = "rb\<lparr>rb_head := rb_head rb + n, rb_bufferSize := rb_bufferSize rb - n\<rparr>"
        have c: "rb_contents ?rb = drop (nat n) (rb_contents rb)"
          using inv n by (simp add: rb_contents_def nat_add_distrib add.commute)
        then have "rb_inv ?rb"
          using inv bs True part n len unfolding rb_inv_def by (simp add: c)
        then show ?thesis using u part c by simp
      qed
    next
      case multi: False
      then have hd: "0 \<le> rb_head rb" "rb_head rb < int (ba_size b)" using inv bs by auto
      have cont: "rb_contents rb = drop (nat (rb_head rb)) (ba_bytes b) @ rb_flat bs (rb_tail rb)"
        using rb_contents_Cons [OF bs multi hd] .
      have tb: "rb_tailBuffer rb \<noteq> 0" using inv bs multi by simp
      show ?thesis
      proof (cases "blk > n")
        case True
        then have "\<not> rb_bufferSize rb \<le> n" using inv cont hd by (simp add: blk_def)
        then have u: "rb_free rb n = Some (rb\<lparr>rb_head := rb_head rb + n, rb_bufferSize := rb_bufferSize rb - n\<rparr>)"
          using n bs True by (simp add: rb_free.simps [of rb n] blk_def)
        let ?rb = "rb\<lparr>rb_head := rb_head rb + n, rb_bufferSize := rb_bufferSize rb - n\<rparr>"
        have c: "rb_contents ?rb = drop (nat n) (rb_contents rb)"
          using inv n by (simp add: rb_contents_def nat_add_distrib add.commute)
        then have "rb_inv ?rb"
          using inv bs multi n True "1.prems"(3) unfolding rb_inv_def by (simp add: c blk_def)
        then show ?thesis using u c by simp
      next
        case False
        let ?rb = "rb\<lparr>rb_bufferSize := rb_bufferSize rb - blk, rb_buffers := bs,
             rb_tailBuffer := rb_tailBuffer rb - 1, rb_head := 0\<rparr>"
        have u: "rb_free rb n = rb_free ?rb (n - blk)"
          using n bs False tb by (subst rb_free.simps) (simp add: blk_def Let_def)
        have c: "rb_contents ?rb = rb_flat bs (rb_tail rb)" by (simp add: rb_contents_def)
        have sz: "rb_bufferSize rb = blk + int (length (rb_flat bs (rb_tail rb)))"
          using inv cont hd by (simp add: blk_def)
        have "rb_inv ?rb"
        proof (cases bs)
          case (Cons b2 bs2)
          then show ?thesis
            using inv bs multi sz c unfolding rb_inv_def by auto
        qed (use multi in simp)
        moreover have "0 \<le> n - blk" "n - blk \<le> rb_bufferSize ?rb" using False "1.prems"(3) by simp_all
        ultimately obtain rb' where rb': "rb_free ?rb (n - blk) = Some rb'" "rb_inv rb'"
          "rb_contents rb' = drop (nat (n - blk)) (rb_contents ?rb)"
          "rb_basicBlockSize rb' = rb_basicBlockSize ?rb"
          using "1.IH" [OF n bs blk_def] False tb by auto
        have "drop (nat n) (rb_contents rb) = drop (nat (n - blk)) (rb_flat bs (rb_tail rb))"
          unfolding cont using False hd by (simp add: blk_def nat_diff_distrib)
        then show ?thesis using u rb' c by auto
      qed
    qed
  qed
qed

lemma rb_inv_buffers_Nil: "rb_inv rb \<Longrightarrow> rb_buffers rb = [] \<Longrightarrow> rb_contents rb = [] \<and> rb_bufferSize rb = 0"
  by (simp add: rb_inv_def rb_contents_def)

lemma rb_inv_snoc:
  "rb_buffers rb = bs @ [b] \<Longrightarrow> rb_inv rb \<longleftrightarrow>
     0 < rb_basicBlockSize rb \<and> 0 \<le> rb_head rb \<and> 0 \<le> rb_tail rb \<and> list_all ba_ok bs \<and> ba_ok b
     \<and> rb_bufferSize rb = int (length (rb_contents rb)) \<and> rb_tailBuffer rb = int (length bs)
     \<and> rb_tail rb \<le> int (ba_size b)
     \<and> (if bs = [] then rb_head rb \<le> rb_tail rb \<and> (rb_head rb = rb_tail rb \<longrightarrow> rb_head rb = 0)
        else rb_head rb < int (ba_size (hd bs)))
     \<and> (\<forall>m \<in> set (tl bs). ba_bytes m \<noteq> [])"
  by (cases bs) (auto simp: rb_inv_def)

lemma rb_contents_snoc:
  "rb_buffers rb = bs @ [b] \<Longrightarrow>
   rb_contents rb = drop (nat (rb_head rb)) (concat (map ba_bytes bs) @ take (nat (rb_tail rb)) (ba_bytes b))"
  by (simp add: rb_contents_def)

lemma rb_chop_contents:
  assumes "rb_inv rb" "0 \<le> n" "n \<le> rb_bufferSize rb"
  shows "\<exists>rb'. rb_chop rb n = Some rb' \<and> rb_inv rb'
     \<and> rb_contents rb' = take (nat (rb_bufferSize rb - n)) (rb_contents rb)
     \<and> rb_basicBlockSize rb' = rb_basicBlockSize rb"
  using assms
proof (induction rb n rule: rb_chop.induct)
  case (1 rb n)
  note inv0 = "1.prems"(1)
  note inv = inv0[unfolded rb_inv_def]
  show ?case
  proof (cases "n = 0")
    case True
    with "1.prems" inv show ?thesis by (simp add: rb_chop.simps [of rb 0])
  next
    case False
    with "1.prems" have n: "0 < n" by simp
    have ne: "rb_buffers rb \<noteq> []" using "1.prems"(3) n inv by (auto simp: rb_contents_def)
    then obtain bs b where bs: "rb_buffers rb = bs @ [b]" by (metis rev_exhaust)
    have tb: "rb_tailBuffer rb = int (length bs)" using inv bs by (cases bs) auto
    have tl: "rb_tail rb \<le> int (ba_size b)" "0 \<le> rb_tail rb" using inv bs by (cases bs; auto)+
    have hd: "0 \<le> rb_head rb" using inv by simp
    have hdm: "rb_head rb < int (length (concat (map ba_bytes bs)))" if "bs \<noteq> []"
      using that inv bs by (cases bs) auto
    have cont: "rb_contents rb = drop (nat (rb_head rb)) (concat (map ba_bytes bs) @ take (nat (rb_tail rb)) (ba_bytes b))"
      by (simp add: rb_contents_def bs)
    have sz: "rb_bufferSize rb = int (length (rb_contents rb))" using inv by simp
    show ?thesis
    proof (cases "rb_tailBuffer rb = 0 \<or> rb_tail rb > n")
      case stop: True
      show ?thesis
      proof (cases "rb_bufferSize rb \<le> n")
        case full: True
        have "bs = []"
        proof (rule ccontr)
          assume m: "bs \<noteq> []"
          then have "rb_tail rb > n" using stop tb by simp
          moreover have "int (length (rb_contents rb)) > rb_tail rb"
            using hdm [OF m] hd tl unfolding cont by simp
          ultimately show False using full sz by simp
        qed
        moreover have "rb_chop rb n = Some (rb_reset rb)"
          using n stop full ne by (subst rb_chop.simps) simp
        ultimately show ?thesis
          using rb_reset_inv [of rb b] inv bs tb full "1.prems"(3) by simp
      next
        case part: False
        let ?rb = "rb\<lparr>rb_tail := rb_tail rb - n, rb_bufferSize := rb_bufferSize rb - n\<rparr>"
        have u: "rb_chop rb n = Some ?rb"
          using n stop part by (subst rb_chop.simps) simp
        have nt: "n \<le> rb_tail rb"
        proof (cases "bs = []")
          case True
          then show ?thesis using part sz tl hd unfolding cont by simp
        qed (use stop tb in simp)
        have len: "length (rb_contents rb) = length (concat (map ba_bytes bs)) + nat (rb_tail rb) - nat (rb_head rb)"
          using tl unfolding cont by simp
        have hle: "nat (rb_head rb) \<le> length (concat (map ba_bytes bs)) + nat (rb_tail rb - n)"
        proof (cases "bs = []")
          case True
          then show ?thesis using part sz len nt hd n by simp
        qed (use hdm in linarith)
        have c: "rb_contents ?rb = take (nat (rb_bufferSize rb - n)) (rb_contents rb)"
        proof -
          have e: "nat (rb_bufferSize rb - n) = length (concat (map ba_bytes bs)) + nat (rb_tail rb - n) - nat (rb_head rb)"
            using sz len nt hd n hle by linarith
          have "rb_contents ?rb = drop (nat (rb_head rb)) (take (length (concat (map ba_bytes bs)) + nat (rb_tail rb - n))
               (concat (map ba_bytes bs) @ take (nat (rb_tail rb)) (ba_bytes b)))"
            using n by (simp add: rb_contents_def bs min_def)
          then show ?thesis unfolding e cont by (simp only: take_drop hle le_add_diff_inverse2 add.commute)
            (use hle in simp)
        qed
        have "rb_inv ?rb"
        proof (cases bs)
          case Nil
          then have "rb_bufferSize rb = rb_tail rb - rb_head rb" using sz len inv bs hd by auto
          then show ?thesis using inv bs Nil part n nt sz tl c unfolding rb_inv_def by simp
        next
          case (Cons a bs')
          then show ?thesis using inv bs part n nt sz tl c unfolding rb_inv_def by auto
        qed
        then show ?thesis using u c by simp
      qed
    next
      case False
      then have m: "bs \<noteq> []" and nt: "rb_tail rb \<le> n" using tb by auto
      then obtain bs' l where l: "bs = bs' @ [l]" by (metis rev_exhaust)
      let ?rb = "rb\<lparr>rb_bufferSize := rb_bufferSize rb - rb_tail rb, rb_buffers := bs,
           rb_tailBuffer := rb_tailBuffer rb - 1, rb_tail := int (ba_size l)\<rparr>"
      have u: "rb_chop rb n = rb_chop ?rb (n - rb_tail rb)"
        using n False bs l by (subst rb_chop.simps) (simp add: Let_def butlast_append)
      have c: "rb_contents ?rb = drop (nat (rb_head rb)) (concat (map ba_bytes bs))"
        by (simp add: rb_contents_def l)
      have c2: "rb_contents rb = rb_contents ?rb @ take (nat (rb_tail rb)) (ba_bytes b)"
        using hdm [OF m] hd unfolding cont c by simp
      have bl: "rb_buffers ?rb = bs' @ [l]" by (simp add: l)
      note I = inv0[unfolded rb_inv_snoc [OF bs]]
      have "rb_inv ?rb"
        unfolding rb_inv_snoc [OF bl] using I c c2 tl l
        by (cases bs') auto
      moreover have "0 \<le> n - rb_tail rb" "n - rb_tail rb \<le> rb_bufferSize ?rb" using nt "1.prems"(3) by simp_all
      ultimately obtain rb' where rb': "rb_chop ?rb (n - rb_tail rb) = Some rb'" "rb_inv rb'"
        "rb_contents rb' = take (nat (rb_bufferSize ?rb - (n - rb_tail rb))) (rb_contents ?rb)"
        "rb_basicBlockSize rb' = rb_basicBlockSize ?rb"
        using "1.IH" [OF n False, of bs] bs l by (auto simp: butlast_append)
      have "take (nat (rb_bufferSize rb - n)) (rb_contents rb) = take (nat (rb_bufferSize rb - n)) (rb_contents ?rb)"
        using nt sz tl c2 by simp
      then show ?thesis using u rb' by auto
    qed
  qed
qed

lemma ba_ok_bytes_upd: "ba_ok a \<Longrightarrow> ba_bytes a \<noteq> [] \<Longrightarrow> ba_ok (a\<lparr>ba_bytes := xs\<rparr>)"
  by (auto simp: ba_ok_def split: if_splits)

lemma take_mem_write_end:
  "i + length d \<le> length xs \<Longrightarrow> take (i + length d) (mem_write xs i d) = take i xs @ d"
  by (simp add: mem_write_def)

text \<open>\<open>reserve\<close> makes room in the last block: \<open>b\<close> is that block, \<open>i\<close> the offset in it.\<close>

definition reserved :: "ring_buffer \<Rightarrow> int \<Rightarrow> ring_buffer \<Rightarrow> nat \<Rightarrow> bool" where
  "reserved rb n rb' i \<longleftrightarrow>
     (\<exists>bs b. rb_buffers rb' = bs @ [b] \<and> list_all ba_ok bs \<and> ba_ok b \<and> i + nat n \<le> ba_size b
        \<and> rb_tail rb' = int i + n \<and> rb_head rb' = rb_head rb \<and> rb_basicBlockSize rb' = rb_basicBlockSize rb
        \<and> rb_bufferSize rb' = rb_bufferSize rb + n \<and> rb_tailBuffer rb' = int (length bs)
        \<and> rb_contents rb = drop (nat (rb_head rb)) (concat (map ba_bytes bs) @ take i (ba_bytes b))
        \<and> (if bs = [] then rb_head rb \<le> int i \<and> (rb_head rb = int i \<longrightarrow> i = 0) else rb_head rb < int (ba_size (hd bs)))
        \<and> (\<forall>m \<in> set (tl bs). ba_bytes m \<noteq> []))"

lemma rb_reserve_reserved:
  assumes inv: "rb_inv rb" and n: "0 < n" "n < max_byte_array_size"
  shows "\<exists>rb' i. rb_reserve junk rb n = Some (rb', Some i) \<and> reserved rb n rb' i"
proof (cases "rb_buffers rb = []")
  case True
  then have z: "rb_bufferSize rb = 0" "rb_contents rb = []" "rb_head rb = 0" "rb_tail rb = 0" "rb_tailBuffer rb = 0"
    using inv by (auto simp: rb_inv_def rb_contents_def)
  show ?thesis
    using n True z unfolding rb_reserve_def Let_def reserved_def
    by (auto simp: not_le intro!: exI [of _ "[]"])
next
  case False
  then obtain bs b where bs: "rb_buffers rb = bs @ [b]" by (metis rev_exhaust)
  note I = inv[unfolded rb_inv_snoc [OF bs]]
  note C = rb_contents_snoc [OF bs]
  show ?thesis
  proof (cases "rb_bufferSize rb = 0")
    case True
    then have c0: "rb_contents rb = []" using I by simp
    have bs0: "bs = []"
    proof (rule ccontr)
      assume m: "bs \<noteq> []"
      then obtain x y where "bs = x # y" by (cases bs) auto
      then show False using c0 I C by (auto split: if_splits)
    qed
    then have ht: "rb_head rb = 0" "rb_tail rb = 0" using I c0 C by (auto simp: min_def split: if_splits)
    show ?thesis
      using n True bs bs0 I ht unfolding rb_reserve_def Let_def reserved_def
      by (auto simp: not_le C intro!: exI [of _ "[]"])
  next
    case False
    let ?new = "bs @ [ba_resize junk b (rb_tail rb)]"
    consider (block) "rb_tail rb \<ge> rb_basicBlockSize rb \<or> n + rb_tail rb \<ge> max_byte_array_size"
        "n + rb_tail rb > int (ba_capacity b)"
      | (grow) "\<not> (n + rb_tail rb > int (ba_capacity b)
          \<and> (rb_tail rb \<ge> rb_basicBlockSize rb \<or> n + rb_tail rb \<ge> max_byte_array_size))"
        "n + rb_tail rb > int (ba_size b)"
      | (fits) "\<not> (n + rb_tail rb > int (ba_capacity b)
          \<and> (rb_tail rb \<ge> rb_basicBlockSize rb \<or> n + rb_tail rb \<ge> max_byte_array_size))"
        "n + rb_tail rb \<le> int (ba_size b)" by linarith
    then show ?thesis
    proof cases
      case block
      have t0: "0 < rb_tail rb" using block I n by linarith
      have u: "rb_reserve junk rb n = Some (rb\<lparr>rb_buffers := bs @ [ba_resize junk b (rb_tail rb),
            ba_uninitialized junk (nat (max (rb_basicBlockSize rb) n))],
            rb_tailBuffer := rb_tailBuffer rb + 1, rb_tail := n,
            rb_bufferSize := rb_bufferSize rb + n\<rparr>, Some 0)" (is "_ = Some (?rb, _)")
        using n False bs block unfolding rb_reserve_def Let_def by auto
      have sl: "set_length junk (ba_bytes b) (nat (rb_tail rb)) = take (nat (rb_tail rb)) (ba_bytes b)"
        using I set_length_shrink [of "nat (rb_tail rb)" "ba_bytes b" junk] by auto
      have tk: "take (nat (rb_tail rb)) (ba_bytes b) \<noteq> []" using I t0 by auto
      have len: "min (ba_size b) (nat (rb_tail rb)) = nat (rb_tail rb)" using I by auto
      have hd': "rb_head rb < int (ba_size (hd ?new))"
        using I t0 sl len by (cases bs) (auto split: if_splits)
      have tl': "\<forall>m \<in> set (tl ?new). ba_bytes m \<noteq> []"
        using I sl tk by (cases bs) auto
      have "reserved rb n ?rb 0"
        unfolding reserved_def C
      proof (intro exI [of _ ?new] exI [of _ "ba_uninitialized junk (nat (max (rb_basicBlockSize rb) n))"] conjI)
        show "list_all ba_ok ?new" using I by simp
        show "0 + nat n \<le> ba_size (ba_uninitialized junk (nat (max (rb_basicBlockSize rb) n)))"
          by (simp add: nat_mono)
        show "rb_tailBuffer ?rb = int (length ?new)" using I by simp
        show "if ?new = [] then rb_head rb \<le> int 0 \<and> (rb_head rb = int 0 \<longrightarrow> 0 = 0)
          else rb_head rb < int (ba_size (hd ?new))" using hd' by simp
        show "\<forall>m \<in> set (tl ?new). ba_bytes m \<noteq> []" by (rule tl')
      qed (use I in \<open>simp_all add: sl\<close>)
      then show ?thesis using u by blast
    next
      case grow
      let ?b = "ba_resize junk b (max (rb_basicBlockSize rb) (n + rb_tail rb))"
      have u: "rb_reserve junk rb n = Some (rb\<lparr>rb_buffers := bs @ [?b], rb_tail := rb_tail rb + n,
            rb_bufferSize := rb_bufferSize rb + n\<rparr>, Some (nat (rb_tail rb)))" (is "_ = Some (?rb, _)")
        using n False bs grow I unfolding rb_reserve_def Let_def by auto
      have "reserved rb n ?rb (nat (rb_tail rb))"
        unfolding reserved_def C
      proof (intro exI [of _ bs] exI [of _ ?b] conjI)
        have sz: "ba_size ?b = nat (max (rb_basicBlockSize rb) (n + rb_tail rb))" using I by simp
        show "nat (rb_tail rb) + nat n \<le> ba_size ?b" unfolding sz using I n by linarith
        have "take (nat (rb_tail rb)) (ba_bytes ?b) = take (nat (rb_tail rb)) (ba_bytes b)"
        proof -
          have "nat (rb_tail rb) \<le> ba_size b" "nat (rb_tail rb) \<le> nat (max (rb_basicBlockSize rb) (n + rb_tail rb))"
            "ba_ok b" using I n by auto
          then show ?thesis by simp
        qed
        then show "drop (nat (rb_head rb)) (concat (map ba_bytes bs) @ take (nat (rb_tail rb)) (ba_bytes b)) =
          drop (nat (rb_head rb)) (concat (map ba_bytes bs) @ take (nat (rb_tail rb)) (ba_bytes ?b))" by simp
        show "ba_ok ?b" using I by simp
      qed (use I in \<open>auto split: if_splits\<close>)
      then show ?thesis using u by blast
    next
      case fits
      have u: "rb_reserve junk rb n = Some (rb\<lparr>rb_tail := rb_tail rb + n,
            rb_bufferSize := rb_bufferSize rb + n\<rparr>, Some (nat (rb_tail rb)))" (is "_ = Some (?rb, _)")
        using n False bs fits I unfolding rb_reserve_def Let_def by auto
      have "reserved rb n ?rb (nat (rb_tail rb))"
        unfolding reserved_def C
        by (intro exI [of _ bs] exI [of _ b] conjI) (use I n fits bs in \<open>auto split: if_splits\<close>)
      then show ?thesis using u by blast
    qed
  qed
qed

lemma write_reserved:
  assumes inv: "rb_inv rb" and r: "reserved rb (int (length d)) rb' i" and d: "d \<noteq> []"
  shows "rb_inv (write_back rb' i d) \<and> rb_contents (write_back rb' i d) = rb_contents rb @ d
     \<and> rb_basicBlockSize (write_back rb' i d) = rb_basicBlockSize rb"
proof -
  obtain bs b where R: "rb_buffers rb' = bs @ [b]" "list_all ba_ok bs" "ba_ok b" "i + length d \<le> ba_size b"
      "rb_tail rb' = int i + int (length d)" "rb_head rb' = rb_head rb" "rb_basicBlockSize rb' = rb_basicBlockSize rb"
      "rb_bufferSize rb' = rb_bufferSize rb + int (length d)" "rb_tailBuffer rb' = int (length bs)"
      "rb_contents rb = drop (nat (rb_head rb)) (concat (map ba_bytes bs) @ take i (ba_bytes b))"
      "if bs = [] then rb_head rb \<le> int i \<and> (rb_head rb = int i \<longrightarrow> i = 0) else rb_head rb < int (ba_size (hd bs))"
      "\<forall>m \<in> set (tl bs). ba_bytes m \<noteq> []"
    using r unfolding reserved_def by auto
  have nb: "ba_bytes b \<noteq> []" using R(4) d by auto
  let ?b = "(ba_detach b)\<lparr>ba_bytes := mem_write (ba_bytes (ba_detach b)) i d\<rparr>"
  let ?rb = "write_back rb' i d"
  have w: "rb_buffers ?rb = bs @ [?b]" "rb_tail ?rb = int i + int (length d)" "rb_head ?rb = rb_head rb"
      "rb_basicBlockSize ?rb = rb_basicBlockSize rb" "rb_bufferSize ?rb = rb_bufferSize rb + int (length d)"
      "rb_tailBuffer ?rb = int (length bs)"
    using R by (simp_all add: write_back_def Let_def)
  have hd: "nat (rb_head rb) \<le> length (concat (map ba_bytes bs)) + i"
    using R(11) by (cases bs) (auto split: if_splits)
  have t: "nat (int i + int (length d)) = i + length d" by simp
  have c: "rb_contents ?rb = rb_contents rb @ d"
    unfolding rb_contents_snoc [OF w(1)] w t R(10) using hd R(4)
    by (simp add: take_mem_write_end)
  have "ba_ok ?b" using R(3) nb by (intro ba_ok_bytes_upd) simp_all
  then have "rb_inv ?rb"
    unfolding rb_inv_snoc [OF w(1)] using inv R w c d by (auto simp: rb_inv_def)
  then show ?thesis using c w by simp
qed

lemma rb_append_data_contents:
  assumes "rb_inv rb" "int (length d) < max_byte_array_size"
  shows "\<exists>rb'. rb_append_data junk rb d = Some rb' \<and> rb_inv rb' \<and> rb_contents rb' = rb_contents rb @ d
     \<and> rb_basicBlockSize rb' = rb_basicBlockSize rb"
proof (cases "d = []")
  case True
  then show ?thesis using assms by (simp add: rb_append_data_def rb_reserve_def)
next
  case False
  then obtain rb' i where "rb_reserve junk rb (int (length d)) = Some (rb', Some i)"
      "reserved rb (int (length d)) rb' i"
    using rb_reserve_reserved [of rb "int (length d)" junk] assms by auto
  then show ?thesis using write_reserved [of rb d rb' i] assms False by (auto simp: rb_append_data_def)
qed

lemma rb_putChar_contents:
  assumes "rb_inv rb"
  shows "\<exists>rb'. rb_putChar junk rb c = Some rb' \<and> rb_inv rb' \<and> rb_contents rb' = rb_contents rb @ [c]
     \<and> rb_basicBlockSize rb' = rb_basicBlockSize rb"
proof -
  have "(1::int) < max_byte_array_size" by (simp add: max_byte_array_size_def array_data_header_def)
  then obtain rb' i where "rb_reserve junk rb 1 = Some (rb', Some i)" "reserved rb 1 rb' i"
    using rb_reserve_reserved [of rb 1 junk] assms by auto
  then show ?thesis using write_reserved [of rb "[c]" rb' i] assms by (auto simp: rb_putChar_def)
qed
section \<open>Reading\<close>

lemma rb_front_block:
  assumes inv: "rb_inv rb" and ne: "rb_contents rb \<noteq> []"
  obtains b bs blk where "rb_buffers rb = b # bs" "rb_nextDataBlockSize rb = Some blk" "0 < blk"
    "blk \<le> rb_bufferSize rb" "nat (rb_head rb) + nat blk \<le> ba_size b"
    "\<And>n. 0 \<le> n \<Longrightarrow> n \<le> blk \<Longrightarrow> mem_read (ba_bytes b) (nat (rb_head rb)) (nat n) = take (nat n) (rb_contents rb)"
proof -
  have "rb_buffers rb \<noteq> []" using ne by (auto simp: rb_contents_def)
  then obtain b bs where bs: "rb_buffers rb = b # bs" by (cases "rb_buffers rb") auto
  note I = inv[unfolded rb_inv_def]
  show ?thesis
  proof (cases "bs = []")
    case True
    have c: "rb_contents rb = drop (nat (rb_head rb)) (take (nat (rb_tail rb)) (ba_bytes b))"
      using bs True by (simp add: rb_contents_def)
    have h: "0 \<le> rb_head rb" "rb_head rb \<le> rb_tail rb" "rb_tail rb \<le> int (ba_size b)" "rb_tailBuffer rb = 0"
      "rb_bufferSize rb = int (length (rb_contents rb))"
      using I bs True by auto
    then obtain H Tl where HT: "rb_head rb = int H" "rb_tail rb = int Tl" by (metis nonneg_int_cases order_trans)
    have lt: "H < Tl" "Tl \<le> ba_size b" using ne h HT unfolding c by auto
    show ?thesis
    proof (intro that [OF bs, of "rb_tail rb - rb_head rb"])
      show "mem_read (ba_bytes b) (nat (rb_head rb)) (nat n) = take (nat n) (rb_contents rb)"
        if "0 \<le> n" "n \<le> rb_tail rb - rb_head rb" for n
        using that lt unfolding c by (simp add: HT mem_read_def drop_take min_def)
    qed (use h HT lt c in \<open>auto simp: rb_nextDataBlockSize_def\<close>)
  next
    case False
    have h: "0 \<le> rb_head rb" "rb_head rb < int (ba_size b)" "rb_tailBuffer rb \<noteq> 0"
      "rb_bufferSize rb = int (length (rb_contents rb))"
      using I bs False by auto
    have c: "rb_contents rb = drop (nat (rb_head rb)) (ba_bytes b) @ rb_flat bs (rb_tail rb)"
      using rb_contents_Cons [OF bs False h(1,2)] .
    show ?thesis
      using h bs
      by (intro that [OF bs, of "int (ba_size b) - rb_head rb"])
        (auto simp: rb_nextDataBlockSize_def c mem_read_def)
  qed
qed

lemma rb_read_loop_contents:
  assumes "rb_inv rb" "int (length data) \<le> n" "n - int (length data) \<le> rb_bufferSize rb"
  shows "\<exists>rb'. rb_read_loop rb n data = Some (rb', data @ take (nat (n - int (length data))) (rb_contents rb))
     \<and> rb_inv rb' \<and> rb_contents rb' = drop (nat (n - int (length data))) (rb_contents rb)
     \<and> rb_basicBlockSize rb' = rb_basicBlockSize rb"
  using assms
proof (induction "nat (n - int (length data))" arbitrary: rb data rule: less_induct)
  case less
  show ?case
  proof (cases "int (length data) < n")
    case False
    then show ?thesis using less.prems by (subst rb_read_loop.simps) simp
  next
    case True
    have sz: "rb_bufferSize rb = int (length (rb_contents rb))" using less.prems(1) by (simp add: rb_inv_def)
    then have "rb_contents rb \<noteq> []" using True less.prems by auto
    from rb_front_block [OF less.prems(1) this]
    obtain b bs blk where f: "rb_buffers rb = b # bs" "rb_nextDataBlockSize rb = Some blk" "0 < blk"
      "blk \<le> rb_bufferSize rb" "nat (rb_head rb) + nat blk \<le> ba_size b"
      "\<And>n. 0 \<le> n \<Longrightarrow> n \<le> blk \<Longrightarrow> mem_read (ba_bytes b) (nat (rb_head rb)) (nat n) = take (nat n) (rb_contents rb)"
      by metis
    define k where "k = min (n - int (length data)) blk"
    have k: "0 < k" "k \<le> blk" "k \<le> rb_bufferSize rb" "k \<le> n - int (length data)" using True f by (auto simp: k_def)
    let ?chunk = "take (nat k) (rb_contents rb)"
    have len: "int (length ?chunk) = k" using k sz by simp
    obtain rb1 where r1: "rb_free rb k = Some rb1" "rb_inv rb1" "rb_contents rb1 = drop (nat k) (rb_contents rb)"
      "rb_basicBlockSize rb1 = rb_basicBlockSize rb"
      using rb_free_contents [OF less.prems(1), of k] k by auto
    have sz1: "rb_bufferSize rb1 = rb_bufferSize rb - k" using r1(2,3) sz k by (simp add: rb_inv_def)
    have u: "rb_read_loop rb n data = rb_read_loop rb1 n (data @ ?chunk)"
      using True f k r1 by (subst rb_read_loop.simps) (simp add: k_def [symmetric])
    have "nat (n - int (length (data @ ?chunk))) < nat (n - int (length data))" using len k by simp
    moreover have "int (length (data @ ?chunk)) \<le> n" using len k by simp
    moreover have "n - int (length (data @ ?chunk)) \<le> rb_bufferSize rb1" using len k sz1 less.prems by simp
    ultimately obtain rb2 where r2: "rb_read_loop rb1 n (data @ ?chunk) =
         Some (rb2, (data @ ?chunk) @ take (nat (n - int (length (data @ ?chunk)))) (rb_contents rb1))"
       "rb_inv rb2" "rb_contents rb2 = drop (nat (n - int (length (data @ ?chunk)))) (rb_contents rb1)"
       "rb_basicBlockSize rb2 = rb_basicBlockSize rb1"
      using less.hyps [OF _ r1(2)] by blast
    have e: "nat (n - int (length data)) = nat k + nat (n - int (length (data @ ?chunk)))"
      using len k by simp
    show ?thesis
      using u r1 r2 unfolding e by (auto simp: take_add add.commute)
  qed
qed

lemma rb_read_contents:
  assumes inv: "rb_inv rb" and m: "0 \<le> m"
  shows "\<exists>rb'. rb_read rb m = Some (rb', take (nat m) (rb_contents rb)) \<and> rb_inv rb'
     \<and> rb_contents rb' = drop (nat m) (rb_contents rb) \<and> rb_basicBlockSize rb' = rb_basicBlockSize rb"
proof -
  have sz: "rb_bufferSize rb = int (length (rb_contents rb))" using inv by (simp add: rb_inv_def)
  have "take (nat (min (rb_bufferSize rb) m)) (rb_contents rb) = take (nat m) (rb_contents rb)"
    "drop (nat (min (rb_bufferSize rb) m)) (rb_contents rb) = drop (nat m) (rb_contents rb)"
    using sz m by (auto simp: min_def)
  then show ?thesis
    using rb_read_loop_contents [OF inv, of "[]" "min (rb_bufferSize rb) m"] sz m
    by (auto simp: rb_read_def)
qed

lemma block_length_last [simp]:
  "int i = rb_tailBuffer rb \<Longrightarrow> block_length rb i b = rb_tail rb"
  by (simp add: block_length_def)

lemma block_length_inner [simp]:
  "int i < rb_tailBuffer rb \<Longrightarrow> block_length rb i b = int (ba_size b)"
  by (simp add: block_length_def)

text \<open>What the loops over the blocks assume of the blocks that are left, the \<open>i\<close>-th one first.\<close>

definition blocks_from :: "ring_buffer \<Rightarrow> nat \<Rightarrow> byte_array list \<Rightarrow> bool" where
  "blocks_from rb i bs \<longleftrightarrow> 0 \<le> rb_tail rb \<and>
     (bs \<noteq> [] \<longrightarrow> int i + int (length bs) = rb_tailBuffer rb + 1 \<and> rb_tail rb \<le> int (ba_size (last bs)))"

lemma blocks_from_inv: "rb_inv rb \<Longrightarrow> blocks_from rb 0 (rb_buffers rb)"
  by (cases "rb_buffers rb") (auto simp: rb_inv_def blocks_from_def)

lemma blocks_from_tl: "blocks_from rb i (b # bs) \<Longrightarrow> blocks_from rb (i + 1) bs"
  by (auto simp: blocks_from_def)

text \<open>The readable bytes of one block, and of the list of them.\<close>

lemma rb_flat_block:
  assumes "blocks_from rb i (b # bs)"
  shows "rb_flat (b # bs) (rb_tail rb) = take (nat (block_length rb i b)) (ba_bytes b) @ rb_flat bs (rb_tail rb)"
    and "0 \<le> block_length rb i b" and "nat (block_length rb i b) \<le> ba_size b"
proof -
  have "rb_tailBuffer rb = int i + int (length bs)" "0 \<le> rb_tail rb" "rb_tail rb \<le> int (ba_size (last (b # bs)))"
    using assms by (auto simp: blocks_from_def)
  then have "block_length rb i b = (if bs = [] then rb_tail rb else int (ba_size b))
      \<and> (bs = [] \<longrightarrow> nat (rb_tail rb) \<le> ba_size b)"
    by (auto simp: block_length_def)
  then show "rb_flat (b # bs) (rb_tail rb) = take (nat (block_length rb i b)) (ba_bytes b) @ rb_flat bs (rb_tail rb)"
    and "0 \<le> block_length rb i b" and "nat (block_length rb i b) \<le> ba_size b"
    using \<open>0 \<le> rb_tail rb\<close> by (auto split: if_splits)
qed

lemma take_drop_block:
  assumes "0 \<le> l" "nat l \<le> length xs" "0 \<le> p" "0 \<le> n"
  shows "take (nat n) (drop (nat p) (take (nat l) xs @ ys)) =
    (if p < l then mem_read xs (nat p) (nat (min (l - p) n)) @ take (nat (n - min (l - p) n)) ys
     else take (nat n) (drop (nat (p - l)) ys))"
proof (cases "p < l")
  case True
  define P L N where "P = nat p" "L = nat l" "N = nat n"
  have e: "p = int P" "l = int L" "n = int N" using True assms by (simp_all add: P_L_N_def)
  have PL: "P < L" "L \<le> length xs" using True assms by (simp_all add: e)
  then have m: "nat (min (l - p) n) = min (L - P) N" "nat (n - min (l - p) n) = N - (L - P)"
    unfolding e by linarith+
  have "drop P (take L xs @ ys) = take (L - P) (drop P xs) @ ys" using PL by (simp add: drop_take)
  moreover have "length (take (L - P) (drop P xs)) = L - P" using PL by simp
  ultimately have "take N (drop P (take L xs @ ys)) = take (min (L - P) N) (drop P xs) @ take (N - (L - P)) ys"
    by (simp add: min.commute)
  then show ?thesis using True by (simp add: mem_read_def P_L_N_def [symmetric] m)
next
  case False
  then have z: "drop (nat p) (take (nat l) xs) = []" by simp
  have "nat p - nat l = nat (p - l)" using False assms by simp
  then show ?thesis using False z assms by (simp add: min_def)
qed

lemma peek_loop_spec:
  assumes "blocks_from rb i bs" "0 \<le> p" "0 \<le> n"
  shows "peek_loop rb i p n bs = take (nat n) (drop (nat p) (rb_flat bs (rb_tail rb)))"
  using assms
proof (induction rb i p n bs rule: peek_loop.induct)
  case (2 rb i p n b bs)
  note F = rb_flat_block [OF "2.prems"(1)] and T = blocks_from_tl [OF "2.prems"(1)]
  let ?l = "block_length rb i b"
  show ?case
  proof (cases "0 < n")
    case True
    note D = take_drop_block [OF F(2,3) "2.prems"(2,3), of "rb_flat bs (rb_tail rb)"]
    show ?thesis
    proof (cases "p < ?l")
      case less: True
      have "0 \<le> n - min (?l - p) n" by simp
      then have "peek_loop rb (i + 1) 0 (n - min (?l - p) n) bs
          = take (nat (n - min (?l - p) n)) (rb_flat bs (rb_tail rb))"
        using "2.IH"(1) [OF True refl less refl T] by simp
      then show ?thesis unfolding F(1) D using True less by (simp add: Let_def)
    next
      case False
      then have "peek_loop rb (i + 1) (p - ?l) n bs = take (nat n) (drop (nat (p - ?l)) (rb_flat bs (rb_tail rb)))"
        using "2.IH"(2) [OF True refl False T] "2.prems" by simp
      then show ?thesis unfolding F(1) D using True False by (simp add: Let_def)
    qed
  qed (use "2.prems" in simp)
qed simp

lemma rb_contents_drop:
  "0 \<le> pos \<Longrightarrow> 0 \<le> rb_head rb \<Longrightarrow>
   drop (nat (pos + rb_head rb)) (rb_flat (rb_buffers rb) (rb_tail rb)) = drop (nat pos) (rb_contents rb)"
  by (simp add: rb_contents_def nat_add_distrib)

lemma rb_peek_contents:
  assumes "rb_inv rb" "0 \<le> n" "0 \<le> pos"
  shows "rb_peek rb n pos = take (nat n) (drop (nat pos) (rb_contents rb))"
  using assms peek_loop_spec [OF blocks_from_inv [OF assms(1)], of "pos + rb_head rb" n] rb_contents_drop [of pos rb]
  by (simp add: rb_peek_def rb_inv_def)

lemma scan_char_shift: "0 \<le> i \<Longrightarrow> scan_char c xs i = (if scan_char c xs 0 = - 1 then - 1 else scan_char c xs 0 + i)"
proof (induction xs arbitrary: i)
  case (Cons x xs)
  show ?case using Cons.IH [of "i + 1"] Cons.IH [of 1] Cons.prems scan_char_range [of c xs 0] by auto
qed simp

lemma scan_char_append:
  "scan_char c (xs @ ys) 0 = (if scan_char c xs 0 \<noteq> - 1 then scan_char c xs 0
     else if scan_char c ys 0 = - 1 then - 1 else scan_char c ys 0 + int (length xs))"
proof (induction xs)
  case (Cons x xs)
  show ?case
    using Cons.IH scan_char_shift [of 1 c xs] scan_char_shift [of 1 c "xs @ ys"]
      scan_char_range [of c xs 0] scan_char_range [of c ys 0] by auto
qed simp


lemma index_of_loop_spec:
  assumes "blocks_from rb i bs" "0 < m" "index < m"
  shows "index_of_loop rb c m pos i index bs =
    (let k = scan_char c (take (nat (m - max 0 index)) (drop (nat (- index)) (rb_flat bs (rb_tail rb)))) 0
     in if k = - 1 then - 1 else k + max 0 index + pos)"
  using assms
proof (induction rb c m pos i index bs rule: index_of_loop.induct)
  case (2 rb c m pos i index b bs)
  note F = rb_flat_block [OF "2.prems"(1)] and T = blocks_from_tl [OF "2.prems"(1)]
  define l where "l = block_length rb i b"
  define nb where "nb = min (index + l) m"
  define p where "p = max 0 (- index)"
  define st where "st = max 0 index"
  define n where "n = m - st"
  have ps: "0 \<le> p" "0 \<le> n" "0 < n" "nat (- index) = nat p" "index = st - p" "p = 0 \<or> st = 0"
    using "2.prems" by (auto simp: p_def n_def st_def)
  have offs: "(if index < 0 then nat (- index) else 0) = nat p" "(if index < 0 then 0 else index) = st"
    by (simp_all add: p_def st_def)
  let ?rest = "rb_flat bs (rb_tail rb)"
  note D = take_drop_block [OF F(2,3) ps(1,2), of ?rest, folded l_def]
  have body: "index_of_loop rb c m pos i index (b # bs) =
     (if nb > 0
      then let found = scan_char c (mem_read (ba_bytes b) (nat p) (nat (nb - st))) 0
           in if found \<noteq> - 1 then found + st + pos
              else if nb = m then - 1
              else index_of_loop rb c m pos (i + 1) nb bs
      else index_of_loop rb c m pos (i + 1) nb bs)"
    by (simp add: Let_def offs nb_def l_def)
  show ?case
  proof (cases "nb > 0")
    case True
    have l0: "0 \<le> l" using F(2) by (simp add: l_def)
    have pl: "nb - st = min (l - p) n" "p < l \<or> p = 0 \<and> l = 0"
      using True ps "2.prems" l0 unfolding nb_def n_def by linarith+
    let ?chunk = "mem_read (ba_bytes b) (nat p) (nat (min (l - p) n))"
    have whole: "take (nat (m - max 0 index)) (drop (nat (- index)) (rb_flat (b # bs) (rb_tail rb)))
        = ?chunk @ take (nat (n - min (l - p) n)) ?rest"
      unfolding F(1) ps(4) st_def [symmetric] n_def [symmetric] l_def [symmetric] D using pl ps by (auto simp: mem_read_def)
    have lenc: "int (length ?chunk) = nb - st" using F(3) pl True ps by (auto simp: l_def [symmetric])
    show ?thesis
    proof (cases "nb = m")
      case full: True
      then have "n - min (l - p) n = 0" using pl(1) n_def by linarith
      then show ?thesis unfolding whole body pl(1) using True full scan_char_append [of c ?chunk]
        by (simp add: Let_def st_def)
    next
      case False
      then have lt: "nb < m" "n - min (l - p) n = m - nb" using pl(1) by (auto simp: nb_def n_def)
      have IH: "index_of_loop rb c m pos (i + 1) nb bs =
         (let k = scan_char c (take (nat (m - nb)) ?rest) 0 in if k = - 1 then - 1 else k + nb + pos)" if
         "scan_char c ?chunk 0 = - 1"
      proof -
        have "scan_char c (mem_read (ba_bytes b) (nat p) (nat (nb - st))) 0 = - 1" using that by (simp only: pl(1))
        then show ?thesis
          using "2.IH"(1) [unfolded l_def [symmetric] nb_def [symmetric] offs, OF refl True refl refl refl _ False T]
            lt(1) True "2.prems"(2) by simp
      qed
      have mn: "0 \<le> min (l - p) n" "nb = min (l - p) n + st" using pl(1) lenc by linarith+
      define k2 where "k2 = scan_char c (take (nat (m - nb)) ?rest) 0"
      have nn: "k2 = - 1 \<or> 0 \<le> k2"
        using scan_char_range [of c "take (nat (m - nb)) ?rest" 0] by (auto simp: k2_def)
      show ?thesis
      proof (cases "scan_char c ?chunk 0 = - 1")
        case none: True
        have "scan_char c (?chunk @ take (nat (m - nb)) ?rest) 0 =
          (let k = scan_char c (take (nat (m - nb)) ?rest) 0 in if k = - 1 then - 1 else k + (nb - st))"
          unfolding scan_char_append lenc using none by (simp add: Let_def)
        then have f1: "scan_char c (?chunk @ take (nat (m - nb)) ?rest) 0 = (if k2 = - 1 then - 1 else k2 + (nb - st))"
          by (simp add: k2_def)
        have f2: "index_of_loop rb c m pos i index (b # bs) = (if k2 = - 1 then - 1 else k2 + nb + pos)"
          unfolding body pl(1) using True False IH [OF none] none by (simp add: Let_def k2_def)
        show ?thesis
          unfolding whole lt(2) unfolding Let_def st_def [symmetric] f1 f2 using nn mn pl(1) by auto
      next
        case some: False
        then have "scan_char c (?chunk @ take (nat (m - nb)) ?rest) 0 = scan_char c ?chunk 0"
          by (simp add: scan_char_append)
        then show ?thesis
          unfolding whole body pl(1) lt(2) using True some by (simp add: Let_def st_def [symmetric])
      qed
    qed
  next
    case False
    then have pl: "\<not> p < l" "nb = index + l" "nat (- nb) = nat (p - l)" "st = 0" "max 0 nb = 0" using ps "2.prems" F(2)
      by (auto simp: nb_def l_def [symmetric])
    have "nb < m" using False "2.prems" by simp
    then have IH: "index_of_loop rb c m pos (i + 1) nb bs =
         (let k = scan_char c (take (nat (m - max 0 nb)) (drop (nat (- nb)) ?rest)) 0
          in if k = - 1 then - 1 else k + max 0 nb + pos)"
      using "2.IH"(2) [unfolded l_def [symmetric] nb_def [symmetric], OF refl False T "2.prems"(2)] by simp
    have whole: "take (nat (m - max 0 index)) (drop (nat (- index)) (rb_flat (b # bs) (rb_tail rb)))
        = take (nat n) (drop (nat (p - l)) ?rest)"
      unfolding F(1) ps(4) st_def [symmetric] n_def [symmetric] l_def [symmetric] D using pl by simp
    have m0: "max 0 index = 0" using pl(4) by (simp add: st_def)
    show ?thesis unfolding whole body unfolding m0 using False IH [unfolded pl(5)] pl(3,4) by (simp add: n_def)
  qed
qed simp

lemma rb_indexOf_contents:
  assumes inv: "rb_inv rb" and "0 < m" "0 \<le> pos"
  shows "rb_indexOf rb c m pos =
    (let k = scan_char c (take (nat m) (drop (nat pos) (rb_contents rb))) 0 in if k = - 1 then - 1 else k + pos)"
proof -
  have h: "0 \<le> rb_head rb" using inv by (simp add: rb_inv_def)
  then have m0: "max 0 (- (pos + rb_head rb)) = 0" "nat (- (- (pos + rb_head rb))) = nat (pos + rb_head rb)"
    using assms by simp_all
  have "index_of_loop rb c m pos 0 (- (pos + rb_head rb)) (rb_buffers rb) =
    (let k = scan_char c (take (nat m) (drop (nat pos) (rb_contents rb))) 0 in if k = - 1 then - 1 else k + 0 + pos)"
    using index_of_loop_spec [OF blocks_from_inv [OF inv], of m "- (pos + rb_head rb)" c pos] assms h
    unfolding m0 rb_contents_drop [OF assms(3) h] by simp
  then show ?thesis using assms by (simp add: rb_indexOf_def Let_def)
qed

lemma scan_char_iff: "scan_char c xs 0 = - 1 \<longleftrightarrow> c \<notin> set xs"
  using scan_char_none [of 0 c xs] by simp

lemma read_pointer_loop_spec:
  assumes "blocks_from rb i bs" "0 \<le> p"
  shows "(case read_pointer_loop rb i p bs of
       None \<Rightarrow> int (length (rb_flat bs (rb_tail rb))) \<le> p
     | Some (j, off, len) \<Rightarrow> i \<le> j \<and> j < i + length bs \<and> 0 < len
         \<and> mem_read (ba_bytes (bs ! (j - i))) (nat off) (nat len)
             = take (nat len) (drop (nat p) (rb_flat bs (rb_tail rb)))
         \<and> nat off + nat len \<le> ba_size (bs ! (j - i)))"
  using assms
proof (induction rb i p bs rule: read_pointer_loop.induct)
  case (2 rb i p b bs)
  note F = rb_flat_block [OF "2.prems"(1)] and T = blocks_from_tl [OF "2.prems"(1)]
  let ?l = "block_length rb i b"
  show ?case
  proof (cases "?l > p")
    case True
    have "0 \<le> ?l - p" using True by simp
    then have "take (nat (?l - p)) (drop (nat p) (rb_flat (b # bs) (rb_tail rb))) = mem_read (ba_bytes b) (nat p) (nat (?l - p))"
      unfolding F(1) using take_drop_block [OF F(2,3) "2.prems"(2), of "?l - p"] True by simp
    then show ?thesis using True F(3) "2.prems"(2) by (simp add: Let_def)
  next
    case False
    then have p: "0 \<le> p - ?l" by simp
    note D = "2.IH" [OF refl False T p]
    have len: "int (length (rb_flat (b # bs) (rb_tail rb))) = ?l + int (length (rb_flat bs (rb_tail rb)))"
      unfolding F(1) using F(2,3) by simp
    have dr: "take (nat n) (drop (nat p) (rb_flat (b # bs) (rb_tail rb))) = take (nat n) (drop (nat (p - ?l)) (rb_flat bs (rb_tail rb)))"
      if "0 \<le> n" for n
      unfolding F(1) using take_drop_block [OF F(2,3) "2.prems"(2) that] False by simp
    show ?thesis
    proof (cases "read_pointer_loop rb (i + 1) (p - ?l) bs")
      case None
      then show ?thesis using D False len by (simp add: Let_def del: rb_flat_Cons)
    next
      case (Some t)
      obtain j off n where t: "t = (j, off, n)" by (cases t)
      then show ?thesis using Some D False dr [of n] by (simp add: Let_def nth_Cons' del: rb_flat_Cons)
    qed
  qed
qed simp

lemma rb_readPointerAtPosition_contents:
  assumes inv: "rb_inv rb" and p: "0 \<le> pos"
  shows "case rb_readPointerAtPosition rb pos of
       None \<Rightarrow> rb_bufferSize rb \<le> pos
     | Some (j, off, n) \<Rightarrow> j < length (rb_buffers rb) \<and> 0 < n
         \<and> nat off + nat n \<le> ba_size (rb_buffers rb ! j)
         \<and> mem_read (ba_bytes (rb_buffers rb ! j)) (nat off) (nat n) = take (nat n) (drop (nat pos) (rb_contents rb))"
proof -
  have h: "0 \<le> rb_head rb" "rb_bufferSize rb = int (length (rb_contents rb))" using inv by (simp_all add: rb_inv_def)
  have "length (rb_contents rb) = length (rb_flat (rb_buffers rb) (rb_tail rb)) - nat (rb_head rb)"
    by (simp add: rb_contents_def)
  then show ?thesis
    using h p read_pointer_loop_spec [OF blocks_from_inv [OF inv], of "pos + rb_head rb"] rb_contents_drop [of pos rb]
    by (auto simp: rb_readPointerAtPosition_def split: option.splits prod.splits)
qed

section \<open>The other operations\<close>

lemma rb_append_contents:
  assumes inv: "rb_inv rb" and ok: "ba_ok q"
  shows "\<exists>rb'. rb_append junk rb q = Some rb' \<and> rb_inv rb' \<and> rb_contents rb' = rb_contents rb @ ba_bytes q
     \<and> rb_basicBlockSize rb' = rb_basicBlockSize rb"
proof (cases "rb_buffers rb = []")
  case True
  then show ?thesis using inv ok by (auto simp: rb_append_def rb_inv_def rb_contents_def)
next
  case False
  then obtain bs b where bs: "rb_buffers rb = bs @ [b]" by (metis rev_exhaust)
  note I = inv[unfolded rb_inv_snoc [OF bs]]
  note C = rb_contents_snoc [OF bs]
  show ?thesis
  proof (cases "rb_tail rb = 0")
    case True
    let ?rb = "rb\<lparr>rb_buffers := bs @ [ba_copy q], rb_tail := int (ba_size q),
        rb_bufferSize := rb_bufferSize rb + int (ba_size q)\<rparr>"
    have u: "rb_append junk rb q = Some ?rb"
      using True bs by (cases bs) (auto simp: rb_append_def)
    have nb: "rb_buffers ?rb = bs @ [ba_copy q]" by simp
    have hd: "nat (rb_head rb) \<le> length (concat (map ba_bytes bs))"
      using I True by (cases bs) (auto split: if_splits)
    have c: "rb_contents ?rb = rb_contents rb @ ba_bytes q"
      unfolding rb_contents_snoc [OF nb] C using hd True by simp
    have "rb_inv ?rb" unfolding rb_inv_snoc [OF nb] using I c ok True by auto
    then show ?thesis using u c by simp
  next
    case False
    let ?b = "ba_resize junk b (rb_tail rb)"
    let ?rb = "rb\<lparr>rb_buffers := (bs @ [?b]) @ [ba_copy q], rb_tailBuffer := rb_tailBuffer rb + 1,
        rb_tail := int (ba_size q), rb_bufferSize := rb_bufferSize rb + int (ba_size q)\<rparr>"
    have u: "rb_append junk rb q = Some ?rb" using False bs by (simp add: rb_append_def)
    have nb: "rb_buffers ?rb = (bs @ [?b]) @ [ba_copy q]" by simp
    have t: "0 < rb_tail rb" "nat (rb_tail rb) \<le> ba_size b" "ba_ok b" using False I by auto
    then have sl: "ba_bytes ?b = take (nat (rb_tail rb)) (ba_bytes b)" by (simp add: set_length_shrink)
    have ne: "ba_bytes ?b \<noteq> []" unfolding sl using t by auto
    have hd: "rb_head rb < int (ba_size (hd (bs @ [?b])))"
      using I t sl False by (cases bs) (auto split: if_splits)
    have hd2: "nat (rb_head rb) \<le> length (concat (map ba_bytes (bs @ [?b])))"
      using hd by (cases bs) auto
    have c: "rb_contents ?rb = rb_contents rb @ ba_bytes q"
      unfolding rb_contents_snoc [OF nb] C sl [symmetric] using hd2 by simp
    have tl: "\<forall>m \<in> set (tl (bs @ [?b])). ba_bytes m \<noteq> []" using I ne by (cases bs) auto
    have "rb_inv ?rb" unfolding rb_inv_snoc [OF nb] using I c ok hd tl by auto
    then show ?thesis using u c by simp
  qed
qed

lemma rb_getChar_contents:
  assumes inv: "rb_inv rb"
  shows "\<exists>rb'. rb_getChar rb = Some (rb', case rb_contents rb of [] \<Rightarrow> - 1 | c # cs \<Rightarrow> uint c)
     \<and> rb_inv rb' \<and> rb_contents rb' = tl (rb_contents rb) \<and> rb_basicBlockSize rb' = rb_basicBlockSize rb"
proof (cases "rb_contents rb")
  case Nil
  then show ?thesis using inv by (simp add: rb_getChar_def rb_inv_def)
next
  case (Cons c cs)
  have sz: "rb_bufferSize rb = int (length (rb_contents rb))" using inv by (simp add: rb_inv_def)
  have ne: "rb_contents rb \<noteq> []" using Cons by simp
  from rb_front_block [OF inv ne] obtain b bs blk where f: "rb_buffers rb = b # bs" "0 < blk"
      "nat (rb_head rb) + nat blk \<le> ba_size b"
      "\<And>n. 0 \<le> n \<Longrightarrow> n \<le> blk \<Longrightarrow> mem_read (ba_bytes b) (nat (rb_head rb)) (nat n) = take (nat n) (rb_contents rb)"
    by metis
  have "mem_read (ba_bytes b) (nat (rb_head rb)) (nat 1) = take (nat 1) (rb_contents rb)" using f(2) by (intro f(4)) simp_all
  then have "ba_bytes b ! nat (rb_head rb) = c"
    using f(2,3) Cons by (simp add: mem_read_def take_Suc hd_drop_conv_nth)
  moreover obtain rb' where "rb_free rb 1 = Some rb'" "rb_inv rb'" "rb_contents rb' = drop 1 (rb_contents rb)"
      "rb_basicBlockSize rb' = rb_basicBlockSize rb"
    using rb_free_contents [OF inv, of 1] sz Cons by auto
  moreover have "nat (rb_head rb) < ba_size b" using f(2,3) by simp
  ultimately show ?thesis using f(1) sz Cons by (simp add: rb_getChar_def)
qed
lemma rb_readLine_contents:
  assumes inv: "rb_inv rb" and m: "1 < m"
  defines "k \<equiv> scan_char 10 (take (nat (m - 1)) (rb_contents rb)) 0"
  defines "n \<equiv> (if k = - 1 then nat (m - 1) else nat k + 1)"
  shows "\<exists>rb'. rb_readLine rb m = Some (rb', take n (rb_contents rb) @ [0], int (length (take n (rb_contents rb))))
     \<and> rb_inv rb' \<and> rb_contents rb' = drop n (rb_contents rb)"
proof -
  have i: "rb_indexOf rb 10 (m - 1) 0 = k"
    using rb_indexOf_contents [OF inv, of "m - 1" 0 10] m by (simp add: k_def Let_def)
  have k: "k = - 1 \<or> 0 \<le> k" using scan_char_range [of 10 "take (nat (m - 1)) (rb_contents rb)" 0] by (auto simp: k_def)
  define j where "j = (if k \<ge> 0 then k + 1 else m - 1)"
  have j: "0 \<le> j" "nat j = n" using k m by (auto simp: j_def n_def)
  obtain rb' where "rb_read rb j = Some (rb', take n (rb_contents rb))" "rb_inv rb'" "rb_contents rb' = drop n (rb_contents rb)"
    using rb_read_contents [OF inv j(1)] j(2) by auto
  then show ?thesis using m by (simp add: rb_readLine_def Let_def i j_def [symmetric])
qed

lemma rb_truncate_contents:
  assumes inv: "rb_inv rb" and p: "0 \<le> pos"
  shows "\<exists>rb'. rb_truncate rb pos = Some rb' \<and> rb_inv rb' \<and> rb_contents rb' = take (nat pos) (rb_contents rb)"
proof -
  have sz: "rb_bufferSize rb = int (length (rb_contents rb))" using inv by (simp add: rb_inv_def)
  then show ?thesis
    using rb_chop_contents [OF inv, of "rb_bufferSize rb - pos"] p inv by (auto simp: rb_truncate_def)
qed

lemma rb_skip_contents:
  assumes inv: "rb_inv rb" and p: "0 \<le> n"
  shows "\<exists>rb'. rb_skip rb n = Some (rb', min n (rb_bufferSize rb)) \<and> rb_inv rb' \<and> rb_contents rb' = drop (nat n) (rb_contents rb)"
proof -
  have sz: "rb_bufferSize rb = int (length (rb_contents rb))" using inv by (simp add: rb_inv_def)
  have "drop (nat (min n (rb_bufferSize rb))) (rb_contents rb) = drop (nat n) (rb_contents rb)" using sz p by (auto simp: min_def)
  then show ?thesis
    using rb_free_contents [OF inv, of "min n (rb_bufferSize rb)"] p sz by (auto simp: rb_skip_def)
qed

text \<open>One block, as a byte array of its own.\<close>

lemma ba_bytes_reserve: "ba_bytes (ba_reserve a n) = (if is_shared (ba_ref a) then take (max (ba_size a) n) (ba_bytes a) else ba_bytes a)"
  by (auto simp: ba_reserve_def ba_bytes_realloc)

lemma ba_ok_reserve: "ba_ok a \<Longrightarrow> ba_ok (ba_reserve a n)"
proof (cases "is_shared (ba_ref a) \<or> n + 1 > ba_alloc a")
  case True
  then have "ba_reserve a n = ba_realloc a (max (ba_size a) n + 1) False True" by (simp add: ba_reserve_def)
  then show ?thesis by (simp del: One_nat_def add: ba_ok_realloc)
next
  case False
  then show "ba_ok a \<Longrightarrow> ba_ok (ba_reserve a n)" by (simp add: ba_reserve_def ba_ok_def is_shared_def)
qed

lemma rb_read_block_contents:
  assumes inv: "rb_inv rb" and small: "\<forall>b \<in> set (rb_buffers rb). ba_size b < 2 ^ 31"
  shows "\<exists>rb' q. rb_read_block junk rb = Some (rb', q) \<and> rb_inv rb' \<and> rb_contents rb = ba_bytes q @ rb_contents rb'
     \<and> (rb_contents rb \<noteq> [] \<longrightarrow> ba_bytes q \<noteq> [])"
proof (cases "rb_contents rb = []")
  case True
  then show ?thesis using inv by (simp add: rb_read_block_def rb_inv_def shared_null_def)
next
  case False
  then obtain b bs where bs: "rb_buffers rb = b # bs" by (cases "rb_buffers rb") (auto simp: rb_contents_def)
  note I = inv[unfolded rb_inv_def]
  have sz: "rb_bufferSize rb = int (length (rb_contents rb))" using I by simp
  have okb: "ba_ok b" using I bs by simp
  have ok: "ba_ok (ba_reserve (ba_copy b) 0)" using okb by (intro ba_ok_reserve) simp
  have rs: "ba_bytes (ba_reserve (ba_copy b) 0) = ba_bytes b" by (simp add: ba_bytes_reserve)
  have sm: "ba_size b < 2 ^ 31" using small bs by simp
  show ?thesis
  proof (cases "bs = []")
    case True
    have h: "0 \<le> rb_head rb" "rb_head rb \<le> rb_tail rb" "rb_tail rb \<le> int (ba_size b)" "rb_tailBuffer rb = 0"
      using I bs True by auto
    have c: "rb_contents rb = drop (nat (rb_head rb)) (take (nat (rb_tail rb)) (ba_bytes b))"
      using bs True by (simp add: rb_contents_def)
    let ?q0 = "ba_resize junk (ba_reserve (ba_copy b) 0) (rb_tail rb)"
    have q0: "ba_bytes ?q0 = take (nat (rb_tail rb)) (ba_bytes b)"
      using ok rs h by (simp add: set_length_shrink nat_le_iff)
    have okq: "ba_ok ?q0" using ok by simp
    have q: "ba_bytes (ba_remove junk ?q0 0 (rb_head rb)) = rb_contents rb"
    proof (cases "rb_head rb = 0")
      case True
      then show ?thesis using ba_bytes_remove [OF okq, of 0] c q0 sm by simp
    next
      case False
      then have "0 < rb_head rb" using h by simp
      moreover have "ba_bytes ?q0 \<noteq> []" unfolding q0 using False h by auto
      ultimately show ?thesis using ba_bytes_remove [OF okq, of 0] c q0 sm h by auto
    qed
    have "rb_read_block junk rb = Some (rb\<lparr>rb_buffers := [], rb_tail := 0, rb_head := 0, rb_bufferSize := 0\<rparr>,
        ba_remove junk ?q0 0 (rb_head rb))"
      using bs True h sz False q by (simp add: rb_read_block_def Let_def)
    then show ?thesis using q I bs True False by (auto simp: rb_inv_def rb_contents_def)
  next
    case multi: False
    have h: "0 \<le> rb_head rb" "rb_head rb < int (ba_size b)" "rb_tailBuffer rb \<noteq> 0"
      using I bs multi by auto
    have c: "rb_contents rb = drop (nat (rb_head rb)) (ba_bytes b) @ rb_flat bs (rb_tail rb)"
      using rb_contents_Cons [OF bs multi h(1,2)] .
    let ?q0 = "ba_reserve (ba_copy b) 0"
    have q: "ba_bytes (ba_remove junk ?q0 0 (rb_head rb)) = drop (nat (rb_head rb)) (ba_bytes b)"
      using ba_bytes_remove [OF ok, of 0 junk "rb_head rb"] rs sm h by (cases "rb_head rb = 0") auto
    let ?rb = "rb\<lparr>rb_buffers := bs, rb_tailBuffer := rb_tailBuffer rb - 1, rb_head := 0,
         rb_bufferSize := rb_bufferSize rb - int (ba_size (ba_remove junk ?q0 0 (rb_head rb)))\<rparr>"
    have u: "rb_read_block junk rb = Some (?rb, ba_remove junk ?q0 0 (rb_head rb))"
      using bs h sz False by (simp add: rb_read_block_def Let_def)
    have c': "rb_contents ?rb = rb_flat bs (rb_tail rb)" by (simp add: rb_contents_def)
    have "rb_inv ?rb"
    proof (cases bs)
      case (Cons b2 bs2)
      then show ?thesis
        using I bs multi sz c' q c unfolding rb_inv_def by auto
    qed (use multi in simp)
    then show ?thesis using u c c' q h by auto
  qed
qed

text \<open>
  \<open>ungetChar\<close> needs a block to be there: on a buffer without any it leaves
  \<open>m_tailBuffer\<close> at 1 with one block in the list (see \<open>unget_on_empty_list\<close>).
\<close>

lemma rb_ungetChar_contents:
  assumes inv: "rb_inv rb" and ne: "rb_buffers rb \<noteq> []" and lim: "rb_basicBlockSize rb < max_byte_array_size"
  shows "\<exists>rb'. rb_ungetChar junk rb c = Some rb' \<and> rb_inv rb' \<and> rb_contents rb' = c # rb_contents rb"
proof -
  obtain b bs where bs: "rb_buffers rb = b # bs" using ne by (cases "rb_buffers rb") auto
  note I = inv[unfolded rb_inv_def]
  have sz: "rb_bufferSize rb = int (length (rb_contents rb))" using I by simp
  have mx: "1 < max_byte_array_size" by (simp add: max_byte_array_size_def array_data_header_def)
  show ?thesis
  proof (cases "rb_head rb > 0")
    case True
    define H where "H = nat (rb_head rb - 1)"
    have H: "rb_head rb = int H + 1" "nat (rb_head rb) = Suc H" using True by (simp_all add: H_def)
    let ?b = "(ba_detach b)\<lparr>ba_bytes := mem_write (ba_bytes b) H [c]\<rparr>"
    let ?rb = "rb\<lparr>rb_head := rb_head rb - 1, rb_buffers := ?b # bs, rb_bufferSize := rb_bufferSize rb + 1\<rparr>"
    have u: "rb_ungetChar junk rb c = Some ?rb"
      using True bs by (simp add: rb_ungetChar_def write_front_def Let_def H_def)
    have hb: "H < ba_size b" "bs = [] \<Longrightarrow> H + 1 \<le> nat (rb_tail rb)"
      using I bs H by (auto split: if_splits)
    have okb: "ba_ok ?b" using I bs hb by (intro ba_ok_bytes_upd) auto
    have mw: "mem_write (ba_bytes b) H [c] = take H (ba_bytes b) @ c # drop (Suc H) (ba_bytes b)" by (simp add: mem_write_def)
    have lw: "length (mem_write (ba_bytes b) H [c]) = ba_size b" using hb by simp
    have c: "rb_contents ?rb = c # rb_contents rb"
    proof (cases "bs = []")
      case True
      have "nat (rb_tail rb) = H + 1 + (nat (rb_tail rb) - H - 1)" using hb(2) True by simp
      then obtain d where d: "nat (rb_tail rb) = H + 1 + d" by blast
      show ?thesis using bs True hb H by (simp add: rb_contents_def mw d min_def drop_take)
    next
      case False
      show ?thesis using bs False hb H by (simp add: rb_contents_def mw)
    qed
    have "rb_inv ?rb"
      using I bs okb c sz lw hb H True unfolding rb_inv_def by (auto split: if_splits)
    then show ?thesis using u c by simp
  next
    case False
    then have h0: "rb_head rb = 0" using I by simp
    let ?n = "rb_basicBlockSize rb"
    have n: "0 < ?n" using I by simp
    define N where "N = nat (?n - 1)"
    have N: "?n = int N + 1" "nat ?n = Suc N" using n by (simp_all add: N_def)
    let ?new = "ba_uninitialized junk (nat ?n)"
    let ?b = "(ba_detach ?new)\<lparr>ba_bytes := mem_write (map junk [0..<nat ?n]) N [c]\<rparr>"
    let ?rb = "rb\<lparr>rb_head := ?n - 1, rb_buffers := ?b # b # bs, rb_tailBuffer := rb_tailBuffer rb + 1,
        rb_bufferSize := rb_bufferSize rb + 1\<rparr>"
    have u: "rb_ungetChar junk rb c = Some ?rb"
      using h0 n mx bs by (simp add: rb_ungetChar_def rb_reserveFront_def write_front_def Let_def N_def)
    have okb: "ba_ok ?b" using N by (intro ba_ok_bytes_upd) simp_all
    have mw: "mem_write (map junk [0..<N] @ [junk N]) N [c] = map junk [0..<N] @ [c]"
      by (simp add: mem_write_def)
    have c: "rb_contents ?rb = c # rb_contents rb"
      using h0 bs N by (simp add: rb_contents_def mw)
    have bn: "ba_bytes b \<noteq> []" if "bs \<noteq> []" using I bs that by auto
    have "rb_inv ?rb"
      using I bs okb c sz N h0 bn unfolding rb_inv_def by (auto simp: mw split: if_splits)
    then show ?thesis using u c by simp
  qed
qed

section \<open>The contract of a queue of bytes\<close>

datatype queue_op = Enqueue "byte list" | Dequeue nat

text \<open>A client: a run of writes and reads; what it read is the concatenation of the reads.\<close>

fun queue_run ::
  "('q \<Rightarrow> byte list \<Rightarrow> 'q option) \<Rightarrow> ('q \<Rightarrow> nat \<Rightarrow> ('q \<times> byte list) option) \<Rightarrow> queue_op list \<Rightarrow> 'q \<Rightarrow> ('q \<times> byte list) option"
where
  "queue_run enq deq [] q = Some (q, [])"
| "queue_run enq deq (Enqueue d # ops) q = Option.bind (enq q d) (queue_run enq deq ops)"
| "queue_run enq deq (Dequeue n # ops) q = Option.bind (deq q n)
     (\<lambda>(q, out). map_option (\<lambda>(q, out'). (q, out @ out')) (queue_run enq deq ops q))"

fun queue_input :: "queue_op list \<Rightarrow> byte list" where
  "queue_input [] = []"
| "queue_input (Enqueue d # ops) = d @ queue_input ops"
| "queue_input (Dequeue n # ops) = queue_input ops"

fun queue_demand :: "queue_op list \<Rightarrow> nat" where
  "queue_demand [] = 0"
| "queue_demand (Enqueue d # ops) = queue_demand ops"
| "queue_demand (Dequeue n # ops) = n + queue_demand ops"

definition queue_ops_below :: "nat \<Rightarrow> queue_op list \<Rightarrow> bool" where
  "queue_ops_below limit ops = list_all (\<lambda>p. case p of Enqueue d \<Rightarrow> length d < limit | Dequeue n \<Rightarrow> True) ops"

locale byte_queue =
  fixes contents :: "'q \<Rightarrow> byte list"
    and inv :: "'q \<Rightarrow> bool"
    and limit :: nat
    and enq :: "'q \<Rightarrow> byte list \<Rightarrow> 'q option"
    and deq :: "'q \<Rightarrow> nat \<Rightarrow> ('q \<times> byte list) option"
  assumes enqueue: "inv q \<Longrightarrow> length d < limit \<Longrightarrow>
      \<exists>q'. enq q d = Some q' \<and> inv q' \<and> contents q' = contents q @ d"
    and dequeue: "inv q \<Longrightarrow>
      \<exists>q'. deq q n = Some (q', take n (contents q)) \<and> inv q' \<and> contents q' = drop n (contents q)"
begin

lemma run_fifo:
  "inv q \<Longrightarrow> queue_ops_below limit ops \<Longrightarrow>
   \<exists>q' out. queue_run enq deq ops q = Some (q', out) \<and> inv q'
     \<and> contents q @ queue_input ops = out @ contents q'"
proof (induction ops arbitrary: q)
  case (Cons p ops)
  show ?case
  proof (cases p)
    case (Enqueue d)
    then obtain q1 where 1: "enq q d = Some q1" "inv q1" "contents q1 = contents q @ d"
      using enqueue [of q d] Cons.prems by (auto simp: queue_ops_below_def)
    then show ?thesis using Cons.IH [of q1] Cons.prems Enqueue by (auto simp: queue_ops_below_def)
  next
    case (Dequeue n)
    then obtain q1 where 1: "deq q n = Some (q1, take n (contents q))" "inv q1" "contents q1 = drop n (contents q)"
      using dequeue [of q n] Cons.prems by auto
    then obtain q2 out where 2: "queue_run enq deq ops q1 = Some (q2, out)" "inv q2"
        "contents q1 @ queue_input ops = out @ contents q2"
      using Cons.IH [of q1] Cons.prems by (auto simp: queue_ops_below_def)
    have "contents q @ queue_input ops = (take n (contents q) @ out) @ contents q2"
      using 1(3) 2(3) by (metis append.assoc append_take_drop_id)
    then show ?thesis using 1 2 Dequeue by auto
  qed
qed simp

text \<open>The output is never longer than what was asked for: it is a prefix of the input stream.\<close>

lemma run_prefix:
  "inv q \<Longrightarrow> queue_ops_below limit ops \<Longrightarrow> queue_run enq deq ops q = Some (q', out) \<Longrightarrow>
   out = take (length out) (contents q @ queue_input ops)"
  using run_fifo [of q ops] by auto

end

definition rb_dequeue :: "ring_buffer \<Rightarrow> nat \<Rightarrow> (ring_buffer \<times> byte list) option" where
  "rb_dequeue rb n = rb_read rb (int n)"

interpretation rb_queue: byte_queue rb_contents rb_inv "nat max_byte_array_size" "rb_append_data junk" rb_dequeue
  for junk
proof
  fix q :: ring_buffer and d :: "byte list"
  assume "rb_inv q" "length d < nat max_byte_array_size"
  then show "\<exists>q'. rb_append_data junk q d = Some q' \<and> rb_inv q' \<and> rb_contents q' = rb_contents q @ d"
    using rb_append_data_contents [of q d junk] by (auto simp: zless_nat_eq_int_zless)
next
  fix q :: ring_buffer and n :: nat
  assume "rb_inv q"
  then show "\<exists>q'. rb_dequeue q n = Some (q', take n (rb_contents q)) \<and> rb_inv q' \<and> rb_contents q' = drop n (rb_contents q)"
    using rb_read_contents [of q "int n"] by (auto simp: rb_dequeue_def)
qed


section \<open>Properties\<close>

text \<open>C13: whatever the sequence of writes and reads, the bytes come out of a ring buffer in the
  order they went in, none lost and none twice; every operation returns.\<close>

theorem ring_fifo:
  assumes "rb_inv rb" "queue_ops_below (nat max_byte_array_size) ops"
  shows "\<exists>rb' out. queue_run (rb_append_data junk) rb_dequeue ops rb = Some (rb', out)
     \<and> rb_inv rb' \<and> rb_contents rb @ queue_input ops = out @ rb_contents rb'"
  using rb_queue.run_fifo [OF assms, of junk] by auto

lemma ring_buffer_new_inv [simp]: "0 < n \<Longrightarrow> rb_inv (ring_buffer_new n)"
  by (simp add: rb_inv_def ring_buffer_new_def rb_contents_def)

lemma ring_buffer_new_contents [simp]: "rb_contents (ring_buffer_new n) = []"
  by (simp add: ring_buffer_new_def rb_contents_def)

theorem ring_fifo_witness:
  "\<exists>rb' out. queue_run (rb_append_data (\<lambda>i. 0)) rb_dequeue [Enqueue [1, 2, 3], Dequeue 2, Enqueue [4], Dequeue 1]
       (ring_buffer_new 2) = Some (rb', out) \<and> [1, 2, 3, 4] = out @ rb_contents rb'"
  using ring_fifo [of "ring_buffer_new 2" "[Enqueue [1, 2, 3], Dequeue 2, Enqueue [4], Dequeue 1]" "\<lambda>i. 0"]
  by (auto simp: queue_ops_below_def max_byte_array_size_def array_data_header_def)

text \<open>C27: \<open>read\<close> ends, returns the first \<open>maxLength\<close> bytes (all of them when there are
  fewer), removes exactly those and keeps the invariant.\<close>

theorem ring_read:
  assumes "rb_inv rb" "0 \<le> m"
  shows "\<exists>rb'. rb_read rb m = Some (rb', take (nat m) (rb_contents rb))
     \<and> rb_inv rb' \<and> rb_contents rb' = drop (nat m) (rb_contents rb)"
  using rb_read_contents [OF assms] by blast

theorem ring_read_witness:
  "\<exists>rb'. rb_read (ring_buffer_new 16) 3 = Some (rb', []) \<and> rb_inv rb'"
  using ring_read [of "ring_buffer_new 16" 3] by auto

text \<open>\<open>indexOf\<close> is the position of the first occurrence of the byte among the
  \<open>maxLength\<close> bytes from \<open>pos\<close> on, wherever the block boundaries are, and -1 when there
  is none.\<close>

lemma ring_index_of:
  assumes "rb_inv rb" "0 < m" "0 \<le> pos"
  defines "w \<equiv> take (nat m) (drop (nat pos) (rb_contents rb))"
  shows "(rb_indexOf rb c m pos = - 1 \<and> c \<notin> set w)
     \<or> (\<exists>k < length w. rb_indexOf rb c m pos = pos + int k \<and> w ! k = c \<and> c \<notin> set (take k w))"
proof -
  define e where "e = scan_char c w 0"
  have i: "rb_indexOf rb c m pos = (if e = - 1 then - 1 else e + pos)"
    using rb_indexOf_contents [OF assms(1-3), of c] by (simp add: e_def w_def Let_def)
  show ?thesis
  proof (cases "e = - 1")
    case True
    then show ?thesis using i scan_char_iff [of c w] by (simp add: e_def)
  next
    case False
    then have "nat e < length w \<and> 0 \<le> e \<and> w ! nat e = c \<and> c \<notin> set (take (nat e) w)"
      using scan_char_some [of c w 0 e] by (simp add: e_def)
    then show ?thesis using i False by (intro disjI2 exI [of _ "nat e"]) auto
  qed
qed

text \<open>\<open>peek\<close> copies the bytes from \<open>pos\<close> on out of all the blocks they are spread
  over, without changing the buffer.\<close>

lemma ring_peek:
  assumes "rb_inv rb" "0 \<le> n" "0 \<le> pos"
  shows "rb_peek rb n pos = take (nat n) (drop (nat pos) (rb_contents rb))"
  using assms by (rule rb_peek_contents)

text \<open>\<open>chop\<close> through \<open>truncate\<close> keeps the first \<open>pos\<close> bytes.\<close>

lemma ring_truncate:
  assumes "rb_inv rb" "0 \<le> pos"
  shows "\<exists>rb'. rb_truncate rb pos = Some rb' \<and> rb_inv rb' \<and> rb_contents rb' = take (nat pos) (rb_contents rb)"
  using assms by (rule rb_truncate_contents)

text \<open>\<open>readLine\<close> returns the bytes up to and including the first newline (or
  \<open>maxLength - 1\<close> bytes when there is none among them), followed by a zero byte, and
  leaves the rest.\<close>

lemma ring_read_line:
  assumes "rb_inv rb" "rb_contents rb = line @ 10 # rest" "10 \<notin> set line" "int (length line) + 1 < m"
  shows "\<exists>rb'. rb_readLine rb m = Some (rb', line @ [10, 0], int (length line) + 1)
     \<and> rb_inv rb' \<and> rb_contents rb' = rest"
proof -
  obtain j where j: "nat (m - 1) = length line + 1 + j"
    using assms(4) le_iff_add [of "length line + 1" "nat (m - 1)"] by (auto simp: le_nat_iff)
  have t: "take (nat (m - 1)) (rb_contents rb) = line @ 10 # take j rest"
    unfolding j assms(2) by simp
  have "scan_char 10 (take (nat (m - 1)) (rb_contents rb)) 0 = int (length line)"
    unfolding t using assms(3) by (simp add: scan_char_append scan_char_iff)
  then show ?thesis using rb_readLine_contents [OF assms(1), of m] assms by (simp add: add.commute)
qed

definition ring_line_example :: ring_buffer where
  "ring_line_example = \<lparr>rb_buffers = [ba_of_data [104, 105, 10], ba_of_data [1, 2]], rb_head = 1, rb_tail = 2,
     rb_tailBuffer = 1, rb_basicBlockSize = 2, rb_bufferSize = 4\<rparr>"

lemma ring_line_example_ok [simp]:
  "rb_inv ring_line_example" "rb_contents ring_line_example = [105, 10, 1, 2]"
  "rb_buffers ring_line_example \<noteq> []" "rb_basicBlockSize ring_line_example = 2"
  by (simp_all add: ring_line_example_def rb_inv_def rb_contents_def rb_flat_def)

text \<open>a byte put back by \<open>ungetChar\<close> on a buffer that has a block is the next one
  \<open>getChar\<close> returns, and the rest of the buffer is as before.\<close>

lemma ring_unget_get:
  assumes "rb_inv rb" "rb_buffers rb \<noteq> []" "rb_basicBlockSize rb < max_byte_array_size"
  shows "\<exists>rb1 rb2. rb_ungetChar junk rb c = Some rb1 \<and> rb_getChar rb1 = Some (rb2, uint c)
     \<and> rb_inv rb2 \<and> rb_contents rb2 = rb_contents rb"
proof -
  obtain rb1 where 1: "rb_ungetChar junk rb c = Some rb1" "rb_inv rb1" "rb_contents rb1 = c # rb_contents rb"
    using rb_ungetChar_contents [OF assms] by blast
  then show ?thesis using rb_getChar_contents [OF 1(2)] by auto
qed

text \<open>on a ring buffer that has no block yet, a byte put back and a byte appended
  cannot both be read: the second round of \<open>read\<close> looks at the front of an empty
  list, because \<open>reserveFront\<close> has counted the only block as a second one.\<close>

lemma ring_unget_on_empty:
  "map_option (\<lambda>rb. (rb_bufferSize rb, rb_read rb 2))
     (Option.bind (rb_ungetChar (\<lambda>i. 0) (ring_buffer_new 4) 65) (\<lambda>rb. rb_putChar (\<lambda>i. 0) rb 66))
   = Some (2, None)"
  by code_simp

end
