(* ===== verification/Byte_Codec.thy ===== *)
theory Byte_Codec
  imports Byte_Edit
begin

unbundle bit_operations_syntax

text \<open>
  The textual encodings of \<open>pdk::ds::ByteArray\<close>: Base64, hexadecimal and percent
  encoding and the integer formatting behind \<open>setNum\<close> (\<open>ByteArray.cpp\<close>), with the
  character helpers of \<open>include/pdk/kernel/StringUtils.h\<close>.
  Characters are byte values.
\<close>

definition chr_of :: "char \<Rightarrow> byte" where
  "chr_of c = of_nat (of_char c)"

definition bytes_of :: "string \<Rightarrow> byte list" where
  "bytes_of s = map chr_of s"

section \<open>Base64\<close>

record base64_options =
  url_encoding :: bool
  omit_trailing_equals :: bool

definition alphabet_base64 :: "byte list" where
  "alphabet_base64 = bytes_of ''ABCDEFGHIJKLMNOPQRSTUVWXYZabcdefghijklmnopqrstuvwxyz0123456789+/''"

definition alphabet_base64url :: "byte list" where
  "alphabet_base64url = bytes_of ''ABCDEFGHIJKLMNOPQRSTUVWXYZabcdefghijklmnopqrstuvwxyz0123456789-_''"

definition base64_alphabet :: "base64_options \<Rightarrow> byte list" where
  "base64_alphabet options = (if url_encoding options then alphabet_base64url else alphabet_base64)"

definition base64_chunk :: "byte \<Rightarrow> byte \<Rightarrow> byte \<Rightarrow> nat" where
  "base64_chunk a b c = push_bit 16 (unat a) OR push_bit 8 (unat b) OR unat c"

definition base64_group :: "base64_options \<Rightarrow> nat \<Rightarrow> nat \<Rightarrow> byte list" where
  "base64_group options chunk padLength =
     (let alphabet = base64_alphabet options;
          padchar = chr_of CHR ''='';
          j = drop_bit 18 (chunk AND 0xFC0000);
          k = drop_bit 12 (chunk AND 0x03F000);
          l = drop_bit 6 (chunk AND 0x000FC0);
          m = chunk AND 0x00003F
      in [alphabet ! j, alphabet ! k]
         @ (if padLength > 1 then (if omit_trailing_equals options then [] else [padchar])
            else [alphabet ! l])
         @ (if padLength > 0 then (if omit_trailing_equals options then [] else [padchar])
            else [alphabet ! m]))"

text \<open>The loop takes three bytes at a time; the last group may hold one or two.\<close>

fun to_base64 :: "base64_options \<Rightarrow> byte list \<Rightarrow> byte list" where
  "to_base64 options [] = []"
| "to_base64 options [a] = base64_group options (base64_chunk a 0 0) 2"
| "to_base64 options [a, b] = base64_group options (base64_chunk a b 0) 1"
| "to_base64 options (a # b # c # rest) =
     base64_group options (base64_chunk a b c) 0 @ to_base64 options rest"

definition base64_digit :: "base64_options \<Rightarrow> byte \<Rightarrow> int" where
  "base64_digit options ch =
     (if ch \<ge> chr_of CHR ''A'' \<and> ch \<le> chr_of CHR ''Z'' then uint ch - 65
      else if ch \<ge> chr_of CHR ''a'' \<and> ch \<le> chr_of CHR ''z'' then uint ch - 97 + 26
      else if ch \<ge> chr_of CHR ''0'' \<and> ch \<le> chr_of CHR ''9'' then uint ch - 48 + 52
      else if ch = chr_of CHR ''+'' \<and> \<not> url_encoding options then 62
      else if ch = chr_of CHR ''-'' \<and> url_encoding options then 62
      else if ch = chr_of CHR ''/'' \<and> \<not> url_encoding options then 63
      else if ch = chr_of CHR ''_'' \<and> url_encoding options then 63
      else - 1)"

text \<open>
  The decoder shifts six bits per digit into the 32-bit accumulator \<open>buf\<close> and emits a
  byte when eight are there; every other character is skipped.
\<close>

fun from_base64_loop :: "base64_options \<Rightarrow> nat \<Rightarrow> nat \<Rightarrow> byte list \<Rightarrow> byte list" where
  "from_base64_loop options buf nbits [] = []"
| "from_base64_loop options buf nbits (ch # rest) =
     (let d = base64_digit options ch
      in if d \<noteq> - 1
         then let buf = take_bit 32 (push_bit 6 buf) OR nat d;
                  nbits = nbits + 6
              in if nbits \<ge> 8
                 then let nbits = nbits - 8
                      in of_nat (drop_bit nbits buf)
                         # from_base64_loop options (buf AND (push_bit nbits 1 - 1)) nbits rest
                 else from_base64_loop options buf nbits rest
         else from_base64_loop options buf nbits rest)"

definition from_base64 :: "base64_options \<Rightarrow> byte list \<Rightarrow> byte list" where
  "from_base64 options base64 = from_base64_loop options 0 0 base64"

section \<open>Hexadecimal\<close>

definition to_hex_lower :: "nat \<Rightarrow> byte" where
  "to_hex_lower v = bytes_of ''0123456789abcdef'' ! (v AND 0xF)"

definition from_hex :: "byte \<Rightarrow> int" where
  "from_hex c =
     (if c \<ge> chr_of CHR ''0'' \<and> c \<le> chr_of CHR ''9'' then uint c - 48
      else if c \<ge> chr_of CHR ''A'' \<and> c \<le> chr_of CHR ''F'' then uint c - 65 + 10
      else if c \<ge> chr_of CHR ''a'' \<and> c \<le> chr_of CHR ''f'' then uint c - 97 + 10
      else - 1)"

text \<open>\<open>toHex\<close>: the separator, when there is one, follows every byte but the last.\<close>

fun to_hex_loop :: "byte \<Rightarrow> byte list \<Rightarrow> byte list" where
  "to_hex_loop separator [] = []"
| "to_hex_loop separator (x # xs) =
     to_hex_lower (drop_bit 4 (unat x)) # to_hex_lower (unat x AND 0xF)
     # (if separator \<noteq> 0 \<and> xs \<noteq> [] then [separator] else []) @ to_hex_loop separator xs"

definition to_hex :: "byte \<Rightarrow> byte list \<Rightarrow> byte list" where
  "to_hex separator xs = (if xs = [] then [] else to_hex_loop separator xs)"

text \<open>
  \<open>fromHex\<close> reads the digits from the last to the first and writes backwards from the
  end of the result, so the written part grows at its front.
\<close>

fun from_hex_loop :: "bool \<Rightarrow> byte list \<Rightarrow> byte list \<Rightarrow> byte list" where
  "from_hex_loop oddDigit written [] = written"
| "from_hex_loop oddDigit written (ch # rest) =
     (let temp = from_hex ch
      in if temp = - 1 then from_hex_loop oddDigit written rest
         else if oddDigit then from_hex_loop False (word_of_int temp # written) rest
         else from_hex_loop True
                (case written of w # ws \<Rightarrow> (w OR word_of_int (push_bit 4 temp)) # ws | [] \<Rightarrow> [])
                rest)"

definition from_hex_string :: "byte list \<Rightarrow> byte list" where
  "from_hex_string hexEncoded = from_hex_loop True [] (rev hexEncoded)"

section \<open>Percent encoding\<close>

definition percent_digit :: "byte \<Rightarrow> byte" where
  "percent_digit a =
     (if a \<ge> chr_of CHR ''0'' \<and> a \<le> chr_of CHR ''9'' then a - chr_of CHR ''0''
      else if a \<ge> chr_of CHR ''a'' \<and> a \<le> chr_of CHR ''f'' then a - chr_of CHR ''a'' + 10
      else if a \<ge> chr_of CHR ''A'' \<and> a \<le> chr_of CHR ''F'' then a - chr_of CHR ''A'' + 10
      else a)"

fun from_percent_encoding :: "byte \<Rightarrow> byte list \<Rightarrow> byte list" where
  "from_percent_encoding percent (c # a # b # rest) =
     (if c = percent
      then (push_bit 4 (percent_digit a) OR percent_digit b) # from_percent_encoding percent rest
      else c # from_percent_encoding percent (a # b # rest))"
| "from_percent_encoding percent xs = xs"

section \<open>Integers to text\<close>

text \<open>
  \<open>pdk_ulltoa2\<close> writes digits backwards into a buffer of 66 cells.  The cells left are
  the fuel: a number that does not fit would write in front of the buffer, which is
  \<open>None\<close> here.  Division by a zero base traps, also \<open>None\<close>.
\<close>

definition ulltoa2_digit :: "nat \<Rightarrow> byte" where
  "ulltoa2_digit c = of_nat (c + (if c < 10 then 48 else 87))"

fun ulltoa2_loop :: "nat \<Rightarrow> nat \<Rightarrow> nat \<Rightarrow> byte list \<Rightarrow> byte list option" where
  "ulltoa2_loop 0 n base p = None"
| "ulltoa2_loop (Suc cells) n base p =
     (if base = 0 then None
      else let c = n mod base;
               n = n div base;
               p = ulltoa2_digit c # p
           in if n \<noteq> 0 then ulltoa2_loop cells n base p else Some p)"

definition ulltoa2 :: "nat \<Rightarrow> nat \<Rightarrow> byte list option" where
  "ulltoa2 n base = ulltoa2_loop 66 n base []"

definition set_num :: "int \<Rightarrow> nat \<Rightarrow> byte list option" where
  "set_num n base =
     (if n < 0 \<and> base = 10
      then map_option (\<lambda>p. chr_of CHR ''-'' # p) (ulltoa2 (nat (- (1 + n)) + 1) base)
      else ulltoa2 (unat (word_of_int n :: 64 word)) base)"

section \<open>Base64 decodes what it encodes\<close>

lemma or_shift_add: "d < 2 ^ k \<Longrightarrow> push_bit k x OR d = 2 ^ k * x + (d :: nat)"
proof -
  assume "d < 2 ^ k"
  then have d: "take_bit k d = d" by (simp add: take_bit_nat_eq_self)
  have "push_bit k x AND take_bit k d = 0" by (rule bit_eqI) (auto simp: bit_simps)
  then have "push_bit k x OR d = push_bit k x + d" using d by (simp add: disjunctive_add_eq_or)
  then show ?thesis by (simp add: push_bit_eq_mult mult.commute)
qed
lemma and_pow_minus: "b AND (2 ^ n - Suc 0) = b mod (2 ^ n :: nat)"
  by (simp add: take_bit_eq_mask mask_eq_exp_minus_1 push_bit_eq_mult flip: take_bit_eq_mod)

lemma field_bits: "drop_bit k (x AND (push_bit k (mask m))) = x div 2 ^ k mod (2 ^ m :: nat)"
proof -
  have "drop_bit k (x AND push_bit k (mask m)) = take_bit m (drop_bit k x)"
    by (rule bit_eqI) (auto simp: bit_simps)
  then show ?thesis by (simp add: take_bit_eq_mod drop_bit_eq_div)
qed

lemma chunk_eq: "base64_chunk a b c = 65536 * unat a + 256 * unat b + unat c"
proof -
  have "unat b < 256" "unat c < 256" using unsigned_less [of b] unsigned_less [of c] by simp_all
  then have "push_bit 8 (unat b) OR unat c = 256 * unat b + unat c"
    using or_shift_add [of "unat c" 8 "unat b"] by simp
  moreover have "push_bit 16 (unat a) OR (256 * unat b + unat c) = 65536 * unat a + (256 * unat b + unat c)"
    using or_shift_add [of "256 * unat b + unat c" 16 "unat a"] \<open>unat b < 256\<close> \<open>unat c < 256\<close> by simp
  ultimately show ?thesis by (simp add: base64_chunk_def or.assoc)
qed


lemma div_field: "n = (q * 64 + d) * m + r \<Longrightarrow> d < 64 \<Longrightarrow> r < m \<Longrightarrow> n div m mod 64 = (d :: nat)"
  by simp

lemma fields:
  assumes "(xr::nat) < 4" "yr < 16" "zr < 64" "xq < 64" "yq < 16" "zq < 4"
  defines "n \<equiv> 65536 * (4 * xq + xr) + 256 * (16 * yq + yr) + (64 * zq + zr)"
  shows "n div 262144 mod 64 = xq" "n div 4096 mod 64 = 16 * xr + yq"
    "n div 64 mod 64 = 4 * yr + zq" "n mod 64 = zr"
proof -
  show "n div 262144 mod 64 = xq"
    by (rule div_field [where q = 0 and r = "65536 * xr + 256 * (16 * yq + yr) + (64 * zq + zr)"])
      (use assms in auto)
  show "n div 4096 mod 64 = 16 * xr + yq"
    by (rule div_field [where q = xq and r = "256 * yr + (64 * zq + zr)"]) (use assms in auto)
  show "n div 64 mod 64 = 4 * yr + zq"
    by (rule div_field [where q = "16 * (4 * xq + xr) + yq" and r = zr]) (use assms in auto)
  have "n = zr + 64 * (1024 * (4 * xq + xr) + 4 * (16 * yq + yr) + zq)" by (simp add: n_def)
  then show "n mod 64 = zr" using assms(3) by (simp only: mod_mult_self2) simp
qed

lemma alphabet_literals:
  "alphabet_base64 = [65, 66, 67, 68, 69, 70, 71, 72, 73, 74, 75, 76, 77, 78, 79, 80, 81, 82, 83, 84, 85, 86, 87, 88, 89, 90, 97, 98, 99, 100, 101, 102, 103, 104, 105, 106, 107, 108, 109, 110, 111, 112, 113, 114, 115, 116, 117, 118, 119, 120, 121, 122, 48, 49, 50, 51, 52, 53, 54, 55, 56, 57, 43, 47]"
  "alphabet_base64url = [65, 66, 67, 68, 69, 70, 71, 72, 73, 74, 75, 76, 77, 78, 79, 80, 81, 82, 83, 84, 85, 86, 87, 88, 89, 90, 97, 98, 99, 100, 101, 102, 103, 104, 105, 106, 107, 108, 109, 110, 111, 112, 113, 114, 115, 116, 117, 118, 119, 120, 121, 122, 48, 49, 50, 51, 52, 53, 54, 55, 56, 57, 45, 95]"
  by code_simp+

lemma chr_consts: "chr_of CHR ''A'' = 65" "chr_of CHR ''Z'' = 90" "chr_of CHR ''a'' = 97" "chr_of CHR ''z'' = 122"
   "chr_of CHR ''0'' = 48" "chr_of CHR ''9'' = 57" "chr_of CHR ''+'' = 43" "chr_of CHR ''-'' = 45" "chr_of CHR ''/'' = 47" "chr_of CHR ''_'' = 95"
   "chr_of CHR ''='' = 61"  "chr_of CHR ''F'' = 70" "chr_of CHR ''f'' = 102"
  by (simp_all add: chr_of_def)

lemma digit_values: "map (base64_digit options) (base64_alphabet options) = map int [0..<64]"
  by (simp add: base64_alphabet_def alphabet_literals base64_digit_def chr_consts word_le_def upt_conv_Cons)

lemma length_alphabet [simp]: "length (base64_alphabet options) = 64"
  by (simp add: base64_alphabet_def alphabet_literals)

lemma digit_value: "j < 64 \<Longrightarrow> base64_digit options (base64_alphabet options ! j) = int j"
  using digit_values [of options] by (metis (no_types, lifting) add_0 diff_zero length_alphabet length_upt nth_map nth_upt)

lemma digit_pad: "base64_digit options (chr_of CHR ''='') = - 1"
  by (simp add: base64_digit_def chr_consts word_le_def)

declare from_base64_loop.simps(2) [simp del]

lemma decode_digit:
  assumes "base64_digit options ch = int d" "d < 64" "buf < 2 ^ 8"
  shows "from_base64_loop options buf nbits (ch # rest) =
     (let v = 64 * buf + d
      in if nbits \<ge> 2
         then of_nat (v div 2 ^ (nbits - 2)) # from_base64_loop options (v mod 2 ^ (nbits - 2)) (nbits - 2) rest
         else from_base64_loop options v (nbits + 6) rest)"
proof -
  have "push_bit 6 buf < 2 ^ 32" using assms(3) by (simp add: push_bit_eq_mult)
  then have "take_bit 32 (push_bit 6 buf) OR d = 64 * buf + d"
    using or_shift_add [of d 6 buf] assms(2) by (simp add: take_bit_nat_eq_self)
  then show ?thesis
    using assms(1) by (simp add: from_base64_loop.simps(2) Let_def and_pow_minus drop_bit_eq_div)
qed

lemma decode_skip: "base64_digit options ch = - 1 \<Longrightarrow>
    from_base64_loop options buf nbits (ch # rest) = from_base64_loop options buf nbits rest"
  by (simp add: from_base64_loop.simps(2))

lemma group_fields:
  defines "p \<equiv> \<lambda>n. push_bit n (mask 6 :: nat)"
  shows "base64_group options chunk pad =
    [base64_alphabet options ! (chunk div 262144 mod 64), base64_alphabet options ! (chunk div 4096 mod 64)]
     @ (if pad > 1 then (if omit_trailing_equals options then [] else [chr_of CHR ''=''])
        else [base64_alphabet options ! (chunk div 64 mod 64)])
     @ (if pad > 0 then (if omit_trailing_equals options then [] else [chr_of CHR ''=''])
        else [base64_alphabet options ! (chunk mod 64)])"
proof -
  have masks: "push_bit 18 (mask 6 :: nat) = 0xFC0000" "push_bit 12 (mask 6 :: nat) = 0x03F000"
    "push_bit 6 (mask 6 :: nat) = 0x000FC0" "(mask 6 :: nat) = 0x3F"
    by (simp_all add: mask_eq_exp_minus_1 push_bit_eq_mult)
  have "chunk AND 0x3F = chunk mod 64"
    using field_bits [of 0 chunk 6] by (simp add: masks)
  then show ?thesis
    using field_bits [of 18 chunk 6] field_bits [of 12 chunk 6] field_bits [of 6 chunk 6]
    by (simp add: base64_group_def Let_def masks)
qed

lemma decode_group:
  fixes a b c :: byte
  defines "n \<equiv> base64_chunk a b c"
  shows "from_base64_loop options 0 0 (base64_alphabet options ! (n div 262144 mod 64)
     # base64_alphabet options ! (n div 4096 mod 64) # rest)
    = a # from_base64_loop options (unat b div 16) 4 rest"
   and "from_base64_loop options (unat b div 16) 4 (base64_alphabet options ! (n div 64 mod 64) # rest)
    = b # from_base64_loop options (unat c div 64) 2 rest"
   and "from_base64_loop options (unat c div 64) 2 (base64_alphabet options ! (n mod 64) # rest)
    = c # from_base64_loop options 0 0 rest"
proof -
  have bounds: "unat a < 256" "unat b < 256" "unat c < 256"
    using unsigned_less [of a] unsigned_less [of b] unsigned_less [of c] by simp_all
  have split: "unat a = 4 * (unat a div 4) + unat a mod 4" "unat b = 16 * (unat b div 16) + unat b mod 16"
    "unat c = 64 * (unat c div 64) + unat c mod 64" by simp_all
  have n: "n = 65536 * unat a + 256 * unat b + unat c" by (simp add: n_def chunk_eq)
  have b: "unat a div 4 < 64" "unat b div 16 < 16" "unat c div 64 < 4" using bounds by simp_all
  have n': "n = 65536 * (4 * (unat a div 4) + unat a mod 4) + 256 * (16 * (unat b div 16) + unat b mod 16)
      + (64 * (unat c div 64) + unat c mod 64)"
    by (simp add: n)
  have m: "unat a mod 4 < 4" "unat b mod 16 < 16" "unat c mod 64 < 64" by simp_all
  note d = fields [OF m b, folded n']
  have dl: "16 * (unat a mod 4) + unat b div 16 < 64" "4 * (unat b mod 16) + unat c div 64 < 64"
    using m b by linarith+
  have two: "64 * (unat a div 4) + (16 * (unat a mod 4) + unat b div 16) = 16 * unat a + unat b div 16"
    using split(1) by linarith
  have "(64 * (unat a div 4) + (16 * (unat a mod 4) + unat b div 16)) div 16 = unat a"
    "(64 * (unat a div 4) + (16 * (unat a mod 4) + unat b div 16)) mod 16 = unat b div 16"
    unfolding two using b by simp_all
  then show "from_base64_loop options 0 0 (base64_alphabet options ! (n div 262144 mod 64)
     # base64_alphabet options ! (n div 4096 mod 64) # rest)
    = a # from_base64_loop options (unat b div 16) 4 rest"
    using b dl bounds unfolding d
    by (simp add: decode_digit [OF digit_value] Let_def)
  have three: "64 * (unat b div 16) + (4 * (unat b mod 16) + unat c div 64) = 4 * unat b + unat c div 64"
    using split(2) by linarith
  have "(64 * (unat b div 16) + (4 * (unat b mod 16) + unat c div 64)) div 4 = unat b"
    "(64 * (unat b div 16) + (4 * (unat b mod 16) + unat c div 64)) mod 4 = unat c div 64"
    unfolding three using b by simp_all
  then show "from_base64_loop options (unat b div 16) 4 (base64_alphabet options ! (n div 64 mod 64) # rest)
    = b # from_base64_loop options (unat c div 64) 2 rest"
    using b dl bounds unfolding d by (simp add: decode_digit [OF digit_value] Let_def)
  show "from_base64_loop options (unat c div 64) 2 (base64_alphabet options ! (n mod 64) # rest)
    = c # from_base64_loop options 0 0 rest"
    using b dl bounds split(3) unfolding d by (simp add: decode_digit [OF digit_value] Let_def)
qed

lemma from_to_base64: "url_encoding o2 = url_encoding o1 \<Longrightarrow> from_base64 o2 (to_base64 o1 xs) = xs"
proof (induction o1 xs rule: to_base64.induct)
  case (1 options)
  then show ?case by (simp add: from_base64_def)
next
  case (2 options a)
  have "base64_alphabet options = base64_alphabet o2" using 2 by (simp add: base64_alphabet_def)
  then show ?case
    by (simp add: from_base64_def group_fields decode_group(1) [of o2 a 0 0, simplified] decode_skip [OF digit_pad])
next
  case (3 options a b)
  have "base64_alphabet options = base64_alphabet o2" using 3 by (simp add: base64_alphabet_def)
  then show ?case
    by (simp add: from_base64_def group_fields decode_group(1,2) [where a = a and b = b and c = 0 and options = o2, simplified] decode_skip [OF digit_pad])
next
  case (4 options a b c rest)
  have "base64_alphabet options = base64_alphabet o2" using 4 by (simp add: base64_alphabet_def)
  with 4 show ?case
    by (simp add: from_base64_def group_fields decode_group)
qed

section \<open>Hexadecimal decodes what it encodes\<close>

lemma length_bytes_of [simp]: "length (bytes_of s) = length s"
  by (simp add: bytes_of_def)

lemma hex_literals: "bytes_of ''0123456789abcdef'' = [48,49,50,51,52,53,54,55,56,57,97,98,99,100,101,102]"
  by code_simp

lemma from_to_hex_digits: "map from_hex (bytes_of ''0123456789abcdef'') = map int [0..<16]"
  by (simp add: hex_literals from_hex_def chr_consts word_le_def upt_conv_Cons)

lemma from_to_hex_digit [simp]: "v < 16 \<Longrightarrow> from_hex (to_hex_lower v) = int v"
proof -
  assume v: "v < 16"
  have "v AND 0xF = v mod 2 ^ 4"
    using and_pow_minus [of v 4] by simp
  with v have "to_hex_lower v = bytes_of ''0123456789abcdef'' ! v"
    by (simp add: to_hex_lower_def)
  moreover have "map from_hex (bytes_of ''0123456789abcdef'') ! v = map int [0..<16] ! v"
    by (simp only: from_to_hex_digits)
  ultimately show ?thesis
    using v by simp
qed

lemma nibbles:
  fixes x :: byte
  shows "word_of_int (int (unat x AND 0xF)) OR word_of_int (push_bit 4 (int (drop_bit 4 (unat x)))) = x"
proof -
  define v where "v = unat x"
  have "v AND 0xF = v mod 16" using and_pow_minus [of v 4] by simp
  moreover have "push_bit 4 (v div 16) OR v mod 16 = v"
    using or_shift_add [of "v mod 16" 4 "v div 16"] by simp
  ultimately have "(v AND 0xF) OR push_bit 4 (v div 16) = v"
    by (simp add: or.commute)
  then have "(of_nat (v AND 0xF) :: byte) OR of_nat (push_bit 4 (v div 16)) = of_nat v"
    by (simp flip: of_nat_or_eq)
  then show ?thesis
    by (simp add: v_def drop_bit_eq_div push_bit_eq_mult)
qed

text \<open>
  The decoder consumes the pairs from the back; a separator that is not a hexadecimal
  digit is skipped wherever it stands.
\<close>

lemma from_hex_steps:
  "from_hex ch \<noteq> - 1 \<Longrightarrow>
     from_hex_loop True w (ch # rest) = from_hex_loop False (word_of_int (from_hex ch) # w) rest"
  "from_hex ch \<noteq> - 1 \<Longrightarrow>
     from_hex_loop False (y # w) (ch # rest) = from_hex_loop True ((y OR word_of_int (push_bit 4 (from_hex ch))) # w) rest"
  "from_hex ch = - 1 \<Longrightarrow> from_hex_loop o2 w (ch # rest) = from_hex_loop o2 w rest"
  by (simp_all add: Let_def)

declare from_hex_loop.simps(2) [simp del]

lemma from_hex_pair:
  "from_hex_loop True w (to_hex_lower (unat x AND 0xF) # to_hex_lower (drop_bit 4 (unat x)) # rest)
   = from_hex_loop True (x # w) rest"
proof -
  have "unat x < 256" using unsigned_less [of x] by simp
  then have "drop_bit 4 (unat x) < 16" by (simp add: drop_bit_eq_div)
  moreover have "unat x AND 0xF < 16"
    using and_pow_minus [of "unat x" 4] by simp
  ultimately show ?thesis
    using nibbles [of x] by (simp add: from_hex_steps)
qed

lemma from_hex_rev_loop:
  assumes "from_hex separator = - 1"
  shows "from_hex_loop True w (rev (to_hex_loop separator xs) @ rest) = from_hex_loop True (xs @ w) rest"
proof (induction xs arbitrary: rest)
  case (Cons x xs)
  show ?case
    using assms by (simp add: Cons.IH from_hex_pair from_hex_steps(3))
qed simp

lemma from_to_hex: "from_hex separator = - 1 \<Longrightarrow> from_hex_string (to_hex separator xs) = xs"
  using from_hex_rev_loop [of separator "[]" xs "[]"]
  by (simp add: from_hex_string_def to_hex_def)

section \<open>Percent decoding\<close>

text \<open>A text without the percent byte is left alone.\<close>

lemma from_percent_plain: "percent \<notin> set xs \<Longrightarrow> from_percent_encoding percent xs = xs"
  by (induction percent xs rule: from_percent_encoding.induct) auto

lemma length_from_percent: "length (from_percent_encoding percent xs) \<le> length xs"
  by (induction percent xs rule: from_percent_encoding.induct) auto

section \<open>Number formatting\<close>

definition digit_char_value :: "byte \<Rightarrow> nat" where
  "digit_char_value c = (if c \<le> 57 then unat c - 48 else unat c - 87)"

definition numeral_value :: "nat \<Rightarrow> byte list \<Rightarrow> nat" where
  "numeral_value base ds = foldl (\<lambda>v d. v * base + digit_char_value d) 0 ds"

lemma digit_char: "c < 36 \<Longrightarrow> digit_char_value (ulltoa2_digit c) = c"
proof -
  assume "c < 36"
  define m where "m = c + (if c < 10 then 48 else 87)"
  have "m < 256" using \<open>c < 36\<close> by (simp add: m_def)
  then have "unat (of_nat m :: byte) = m"
    by (simp add: unsigned_of_nat take_bit_nat_eq_self)
  then have "digit_char_value (of_nat m) = c"
    by (auto simp: digit_char_value_def word_le_nat_alt m_def split: if_splits)
  then show ?thesis by (simp only: m_def ulltoa2_digit_def)
qed

lemma foldl_digits_shift:
  "foldl (\<lambda>v d. v * base + f d) (a :: nat) ds = a * base ^ length ds + foldl (\<lambda>v d. v * base + f d) 0 ds"
proof (induction ds arbitrary: a)
  case (Cons d ds)
  show ?case
    using Cons.IH [of "a * base + f d"] Cons.IH [of "f d"] by (simp add: distrib_right mult.assoc)
qed simp

lemma numeral_value_Cons: "numeral_value base (d # ds) = digit_char_value d * base ^ length ds + numeral_value base ds"
  using foldl_digits_shift [of base digit_char_value "digit_char_value d" ds]
  by (simp add: numeral_value_def)

lemma ulltoa2_loop_value:
  assumes "2 \<le> base" "base \<le> 36" "n < base ^ cells" "0 < cells"
  shows "\<exists>ds. ulltoa2_loop cells n base p = Some (ds @ p) \<and> length ds \<le> cells \<and> ds \<noteq> []
     \<and> numeral_value base ds = n"
  using assms(3,4)
proof (induction cells arbitrary: n p)
  case (Suc cells)
  define c where "c = n mod base"
  define ch where "ch = ulltoa2_digit c"
  have "c < 36" using assms by (simp add: c_def mod_less_divisor [THEN less_le_trans])
  then have v: "digit_char_value ch = c" unfolding ch_def by (rule digit_char)
  show ?case
  proof (cases "n div base = 0")
    case True
    then have "c = n" using div_mult_mod_eq [of n base] by (simp add: c_def)
    moreover have "ulltoa2_digit n = ch" using \<open>c = n\<close> by (simp add: ch_def)
    ultimately show ?thesis
      using True assms v by (intro exI [of _ "[ch]"])
        (simp add: Let_def numeral_value_Cons numeral_value_def c_def [symmetric] ch_def [symmetric])
  next
    case False
    have lt: "n div base < base ^ cells"
      using Suc.prems assms(1) by (simp add: less_mult_imp_div_less mult.commute)
    have "0 < cells" using False lt by (cases cells) auto
    from Suc.IH [OF lt this, of "ch # p"] obtain ds where
      ds: "ulltoa2_loop cells (n div base) base (ch # p) = Some (ds @ ch # p)" "length ds \<le> cells"
        "ds \<noteq> []" "numeral_value base ds = n div base" by blast
    have "numeral_value base (ds @ [ch]) = n div base * base + c"
      using ds(4) v by (simp add: numeral_value_def)
    then have "numeral_value base (ds @ [ch]) = n" by (simp add: c_def)
    moreover have "ulltoa2_loop (Suc cells) n base p = Some ((ds @ [ch]) @ p)"
      using ds(1) False assms(1) by (simp add: Let_def c_def [symmetric] ch_def [symmetric])
    ultimately show ?thesis
      using ds(2) by (intro exI [of _ "ds @ [ch]"]) simp
  qed
qed simp

lemma ulltoa2_value:
  assumes "2 \<le> base" "base \<le> 36" "n < 2 ^ 64"
  shows "\<exists>ds. ulltoa2 n base = Some ds \<and> length ds \<le> 66 \<and> ds \<noteq> [] \<and> numeral_value base ds = n"
proof -
  have "n < base ^ 66"
  proof -
    have "2 ^ 66 \<le> base ^ 66" by (rule power_mono) (use assms in auto)
    with assms show ?thesis by simp
  qed
  then show ?thesis
    using ulltoa2_loop_value [OF assms(1,2), of n 66 "[]"] by (simp add: ulltoa2_def)
qed


section \<open>The contract of an encoding\<close>

locale round_trip =
  fixes valid :: "'a \<Rightarrow> bool"
    and encode :: "'a \<Rightarrow> 'b"
    and decode :: "'b \<Rightarrow> 'a"
  assumes decode_encode: "valid x \<Longrightarrow> decode (encode x) = x"
begin

lemma encode_injective: "valid x \<Longrightarrow> valid y \<Longrightarrow> encode x = encode y \<longleftrightarrow> x = y"
  by (metis decode_encode)

text \<open>What was encoded and stored can be looked up by its encoding.\<close>

lemma encode_member: "valid x \<Longrightarrow> \<forall>y \<in> set ys. valid y \<Longrightarrow> encode x \<in> set (map encode ys) \<longleftrightarrow> x \<in> set ys"
  by (auto simp: encode_injective)

end

interpretation base64: round_trip "\<lambda>xs. True" "to_base64 options" "from_base64 options" for options
  by unfold_locales (simp add: from_to_base64)

interpretation hex: round_trip "\<lambda>xs. True" "to_hex 0" from_hex_string
  by unfold_locales (simp add: from_to_hex from_hex_def chr_consts)

section \<open>Properties\<close>

text \<open>C30: Base64 decoding gives back every byte array that was encoded, for the standard and the URL
  alphabet, with and without padding, whichever of the padding options the decoder has; so
  different arrays have different encodings.\<close>

theorem base64_round_trip:
  assumes "url_encoding o2 = url_encoding o1"
  shows "from_base64 o2 (to_base64 o1 xs) = xs \<and> (to_base64 o1 xs = to_base64 o1 ys \<longleftrightarrow> xs = ys)"
  using from_to_base64 [OF assms] base64.encode_injective [of o1 xs ys] by simp

theorem base64_round_trip_witness:
  "from_base64 \<lparr>url_encoding = False, omit_trailing_equals = True\<rparr>
     (to_base64 \<lparr>url_encoding = False, omit_trailing_equals = False\<rparr> [1, 2, 3, 4]) = [1, 2, 3, 4]"
  using base64_round_trip [of "\<lparr>url_encoding = False, omit_trailing_equals = True\<rparr>"
      "\<lparr>url_encoding = False, omit_trailing_equals = False\<rparr>" "[1, 2, 3, 4]"] by simp

text \<open>\<open>fromHex\<close> gives back what \<open>toHex\<close> wrote, with any separator that is not itself a
  hexadecimal digit, and without one.\<close>

lemma hex_round_trip:
  assumes "from_hex separator = - 1"
  shows "from_hex_string (to_hex separator xs) = xs"
  using assms by (rule from_to_hex)

text \<open>the digits that \<open>setNum\<close> writes for an unsigned number denote that number, in every base from
  2 to 36, and fit in the 66 bytes of the buffer; there is always at least one digit.\<close>

lemma number_digits:
  assumes "2 \<le> base" "base \<le> 36" "n < 2 ^ 64"
  shows "\<exists>ds. ulltoa2 n base = Some ds \<and> length ds \<le> 66 \<and> ds \<noteq> [] \<and> numeral_value base ds = n"
  using assms by (rule ulltoa2_value)

lemma percent_digits: "map percent_digit (bytes_of ''0123456789abcdef'') = map of_nat [0..<16]"
  by (simp add: hex_literals percent_digit_def chr_consts word_le_def upt_conv_Cons)

lemma percent_digit_hex: "v < 16 \<Longrightarrow> percent_digit (to_hex_lower v) = of_nat v"
proof -
  assume v: "v < 16"
  have "v AND 0xF = v mod 2 ^ 4" using and_pow_minus [of v 4] by simp
  with v have "to_hex_lower v = bytes_of ''0123456789abcdef'' ! v" by (simp add: to_hex_lower_def)
  moreover have "map percent_digit (bytes_of ''0123456789abcdef'') ! v = map of_nat [0..<16] ! v"
    by (simp only: percent_digits)
  ultimately show ?thesis using v by simp
qed

lemma hex_pair_byte: "push_bit 4 (of_nat (unat b div 16)) OR of_nat (unat b mod 16) = (b :: byte)"
proof -
  have "unat b div 16 < 256" using unsigned_less [of b, where 'a = nat] by simp
  then have "(of_nat (unat b div 16) :: byte) = drop_bit 4 b" "(of_nat (unat b mod 16) :: byte) = take_bit 4 b"
    by (simp_all add: drop_bit_eq_div take_bit_eq_mod word_unat_eq_iff unat_of_nat unat_div_distrib unat_mod_distrib)
  moreover have "push_bit 4 (drop_bit 4 b) OR take_bit 4 b = b"
    by (rule bit_word_eqI) (auto simp: bit_or_iff bit_push_bit_iff bit_drop_bit_eq bit_take_bit_iff)
  ultimately show ?thesis by simp
qed

text \<open>Percent encoding as the standard has it: some bytes are written as the percent byte and two
  hexadecimal digits.\<close>

definition percent_escape :: "byte \<Rightarrow> (byte \<Rightarrow> bool) \<Rightarrow> byte list \<Rightarrow> byte list" where
  "percent_escape percent escaped xs =
     concat (map (\<lambda>b. if escaped b then [percent, to_hex_lower (unat b div 16), to_hex_lower (unat b mod 16)] else [b]) xs)"

lemma from_percent_other: "x \<noteq> percent \<Longrightarrow> from_percent_encoding percent (x # zs) = x # from_percent_encoding percent zs"
  by (cases "(percent, x # zs)" rule: from_percent_encoding.cases) auto

text \<open>\<open>fromPercentEncoding\<close> undoes percent encoding, whichever bytes are escaped, as long as the
  percent byte itself is.\<close>

lemma percent_decoding:
  assumes "escaped percent"
  shows "from_percent_encoding percent (percent_escape percent escaped xs) = xs"
proof (induction xs)
  case (Cons b xs)
  have b: "unat b div 16 < 16" "unat b mod 16 < 16" using unsigned_less [of b, where 'a = nat] by simp_all
  have e: "percent_escape percent escaped (b # xs) = (if escaped b
      then percent # to_hex_lower (unat b div 16) # to_hex_lower (unat b mod 16) # percent_escape percent escaped xs
      else b # percent_escape percent escaped xs)" by (simp add: percent_escape_def)
  show ?case
  proof (cases "escaped b")
    case True
    then show ?thesis unfolding e using Cons hex_pair_byte [of b]
      by (simp add: percent_digit_hex [OF b(1)] percent_digit_hex [OF b(2)] del: of_nat_mod)
  next
    case False
    then have "b \<noteq> percent" using assms by auto
    then show ?thesis unfolding e using Cons False by (simp add: from_percent_other)
  qed
qed (simp add: percent_escape_def)

end
