(* ===== verification/Bit_Algorithms.thy ===== *)
theory Bit_Algorithms
  imports Pdk_Prelude
begin

unbundle bit_operations_syntax

text \<open>
  The bit counting functions of \<open>include/pdk/kernel/Algorithms.h\<close> in the form they
  have where the compiler has no builtin for them: \<open>population_count\<close> with its
  multiplication and remainder, \<open>count_trailing_zero_bits\<close> with its masks,
  \<open>count_leading_zero_bits\<close> by smearing the highest bit.  The results are C's
  \<open>unsigned int\<close>, and wrap around where the code subtracts.
\<close>

type_synonym u64 = "64 word"

section \<open>The code\<close>

text \<open>The number of ones among the low twelve bits.\<close>

definition count12 :: "u64 \<Rightarrow> u64" where
  "count12 v = ((v AND 0xfff) * 0x1001001001001 AND 0x84210842108421) mod 0x1f"

definition population_count8 :: "byte \<Rightarrow> u32" where
  "population_count8 v = ucast (count12 (ucast v))"

definition population_count16 :: "u16 \<Rightarrow> u32" where
  "population_count16 v = ucast (count12 (ucast v) + count12 (drop_bit 12 (ucast v)))"

definition population_count32 :: "u32 \<Rightarrow> u32" where
  "population_count32 v =
     ucast (count12 (ucast v) + count12 (drop_bit 12 (ucast v)) + count12 (drop_bit 24 (ucast v)))"

definition population_count64 :: "u64 \<Rightarrow> u32" where
  "population_count64 v =
     ucast (count12 v + count12 (drop_bit 12 v) + count12 (drop_bit 24 v)
       + count12 (drop_bit 36 v) + count12 (drop_bit 48 v) + count12 (drop_bit 60 v))"

definition step_down :: "bool \<Rightarrow> u32 \<Rightarrow> u32 \<Rightarrow> u32" where
  "step_down b n c = (if b then c - n else c)"

definition trailing_masks8 :: "byte \<Rightarrow> u32" where
  "trailing_masks8 value =
     (let c = 8;
          c = step_down (value \<noteq> 0) 1 c;
          c = step_down (value AND 0x0F \<noteq> 0) 4 c;
          c = step_down (value AND 0x33 \<noteq> 0) 2 c;
          c = step_down (value AND 0x55 \<noteq> 0) 1 c
      in c)"

definition count_trailing_zero_bits8 :: "byte \<Rightarrow> u32" where
  "count_trailing_zero_bits8 value = trailing_masks8 (value AND - value)"

definition trailing_masks16 :: "u16 \<Rightarrow> u32" where
  "trailing_masks16 value =
     (let c = 16;
          c = step_down (value \<noteq> 0) 1 c;
          c = step_down (value AND 0x00FF \<noteq> 0) 8 c;
          c = step_down (value AND 0x0F0F \<noteq> 0) 4 c;
          c = step_down (value AND 0x3333 \<noteq> 0) 2 c;
          c = step_down (value AND 0x3333 \<noteq> 0) 2 c;
          c = step_down (value AND 0x5555 \<noteq> 0) 1 c
      in c)"

definition count_trailing_zero_bits16 :: "u16 \<Rightarrow> u32" where
  "count_trailing_zero_bits16 value = trailing_masks16 (value AND - value)"

definition trailing_masks32 :: "u32 \<Rightarrow> u32" where
  "trailing_masks32 value =
     (let c = 32;
          c = step_down (value \<noteq> 0) 1 c;
          c = step_down (value AND 0x0000FFFF \<noteq> 0) 16 c;
          c = step_down (value AND 0x00FF00FF \<noteq> 0) 8 c;
          c = step_down (value AND 0x0F0F0F0F \<noteq> 0) 4 c;
          c = step_down (value AND 0x33333333 \<noteq> 0) 2 c;
          c = step_down (value AND 0x55555555 \<noteq> 0) 1 c
      in c)"

definition count_trailing_zero_bits32 :: "u32 \<Rightarrow> u32" where
  "count_trailing_zero_bits32 value = trailing_masks32 (value AND - value)"

definition count_trailing_zero_bits64 :: "u64 \<Rightarrow> u32" where
  "count_trailing_zero_bits64 value =
     (let x = ucast value :: u32
      in if x \<noteq> 0 then count_trailing_zero_bits32 x
         else 32 + count_trailing_zero_bits32 (ucast (drop_bit 32 value)))"

definition smear :: "nat \<Rightarrow> 'a::len word \<Rightarrow> 'a word" where
  "smear k value = value OR drop_bit k value"

definition count_leading_zero_bits8 :: "byte \<Rightarrow> u32" where
  "count_leading_zero_bits8 value = population_count8 (NOT (smear 4 (smear 2 (smear 1 value))))"

definition count_leading_zero_bits16 :: "u16 \<Rightarrow> u32" where
  "count_leading_zero_bits16 value = population_count16 (NOT (smear 8 (smear 4 (smear 2 (smear 1 value)))))"

definition count_leading_zero_bits32 :: "u32 \<Rightarrow> u32" where
  "count_leading_zero_bits32 value =
     population_count32 (NOT (smear 16 (smear 8 (smear 4 (smear 2 (smear 1 value))))))"

definition count_leading_zero_bits64 :: "u64 \<Rightarrow> u32" where
  "count_leading_zero_bits64 value =
     population_count64 (NOT (smear 32 (smear 16 (smear 8 (smear 4 (smear 2 (smear 1 value)))))))"

section \<open>The number of ones in a word\<close>

fun ones :: "(nat \<Rightarrow> bool) \<Rightarrow> nat \<Rightarrow> nat" where
  "ones f 0 = 0"
| "ones f (Suc n) = ones f n + (if f n then 1 else 0)"

lemma ones_card: "ones f n = card {i. i < n \<and> f i}"
proof (induction n)
  case (Suc n)
  have "{i. i < Suc n \<and> f i} = {i. i < n \<and> f i} \<union> (if f n then {n} else {})"
    by (auto simp: less_Suc_eq)
  then show ?case using Suc by (simp add: card_insert_if)
qed simp

lemma ones_add: "ones f (m + n) = ones f m + ones (\<lambda>i. f (m + i)) n"
  by (induction n) (simp_all)

lemma ones_le: "ones f n \<le> n"
  by (induction n) (simp_all)

lemma ones_none: "(\<And>i. i < n \<Longrightarrow> \<not> f i) \<Longrightarrow> ones f n = 0"
  by (simp add: ones_card)

lemma ones_cong: "(\<And>i. i < n \<Longrightarrow> f i = g i) \<Longrightarrow> ones f n = ones g n"
  by (simp add: ones_card cong: conj_cong)

lemma ones_ge: "m \<le> n \<Longrightarrow> (\<And>i. m \<le> i \<Longrightarrow> i < n \<Longrightarrow> \<not> f i) \<Longrightarrow> ones f n = ones f m"
  using ones_add [of f m "n - m"] ones_none [of "n - m" "\<lambda>i. f (m + i)"] by simp

text \<open>
  The trick of \<open>count12\<close>, for six bits at a time: the multiplication makes five copies
  of the bits, the mask keeps every bit of the first twelve once, at a position that is
  a multiple of five, and the remainder by 31 adds them up.
\<close>

definition spread :: "int \<Rightarrow> int" where
  "spread x = x * 0x1001001001001 AND 0x84210842108421"

lemma spread_table:
  "list_all (\<lambda>x. spread x mod 31 = int (ones (bit x) 6) \<and> spread (64 * x) mod 31 = int (ones (bit x) 6)
     \<and> x * 0x1001001001001 AND 0x3f03f03f03f03f = x * 0x1001001001001
     \<and> 64 * x * 0x1001001001001 AND 0x3f03f03f03f03f = 0) [0..63]"
  by code_simp

lemma spread_facts:
  assumes "0 \<le> x" "x < 64"
  shows "spread x mod 31 = int (ones (bit x) 6)" "spread (64 * x) mod 31 = int (ones (bit x) 6)"
    "x * 0x1001001001001 AND 0x3f03f03f03f03f = x * 0x1001001001001"
    "64 * x * 0x1001001001001 AND 0x3f03f03f03f03f = 0"
proof -
  have "x \<in> set [0..63]" using assms by simp
  then show "spread x mod 31 = int (ones (bit x) 6)" "spread (64 * x) mod 31 = int (ones (bit x) 6)"
    "x * 0x1001001001001 AND 0x3f03f03f03f03f = x * 0x1001001001001"
    "64 * x * 0x1001001001001 AND 0x3f03f03f03f03f = 0"
    using spread_table unfolding list_all_iff by blast+
qed

lemma spread_add:
  assumes a: "0 \<le> a" "a < 64" and b: "0 \<le> b" "b < 64"
  shows "spread (a + 64 * b) = spread a + spread (64 * b)"
proof -
  define A B K where d: "A = a * 0x1001001001001" "B = 64 * b * 0x1001001001001" "K = (0x84210842108421::int)"
  have "A AND B = (A AND 0x3f03f03f03f03f) AND B" using spread_facts(3) [OF a] by (simp add: d)
  also have "\<dots> = A AND (B AND 0x3f03f03f03f03f)" by (simp only: and.assoc and.commute and.left_commute)
  also have "\<dots> = 0" using spread_facts(4) [OF b] by (simp add: d)
  finally have dis: "A AND B = 0" .
  then have "A + B = A OR B" by (rule disjunctive_add_eq_or)
  then have 1: "(A + B) AND K = (A AND K) OR (B AND K)" by (simp add: bit.conj_disj_distrib2)
  have "(A AND K) AND (B AND K) = (A AND B) AND (K AND K)" by (simp only: and.assoc and.left_commute)
  then have "(A AND K) AND (B AND K) = 0" using dis by simp
  then have "(A AND K) + (B AND K) = (A AND K) OR (B AND K)" by (rule disjunctive_add_eq_or)
  with 1 show ?thesis by (simp add: spread_def d algebra_simps)
qed

lemma ones_mod: "n \<le> k \<Longrightarrow> ones (bit (x mod 2 ^ k)) n = ones (bit (x::int)) n"
  by (rule ones_cong) (simp add: flip: take_bit_eq_mod add: bit_take_bit_iff)

lemma spread_mod:
  assumes "0 \<le> x" "x < 4096"
  shows "spread x mod 31 = int (ones (bit x) 12)"
proof -
  define a b where d: "a = x mod 64" "b = x div 64"
  have a: "0 \<le> a" "a < 64" and b: "0 \<le> b" "b < 64" and x: "x = a + 64 * b"
    using assms by (auto simp: d)
  have "ones (bit x) 6 = ones (bit a) 6" using ones_mod [of 6 6 x] by (simp add: d)
  moreover have "ones (\<lambda>i. bit x (6 + i)) 6 = ones (bit b) 6"
    by (rule ones_cong) (use bit_drop_bit_eq [of 6 x] in \<open>simp add: d drop_bit_eq_div\<close>)
  ultimately have o: "ones (bit x) 12 = ones (bit a) 6 + ones (bit b) 6"
    using ones_add [of "bit x" 6 6] by simp
  have "spread x mod 31 = (spread a mod 31 + spread (64 * b) mod 31) mod 31"
    unfolding x spread_add [OF a b] by (simp add: mod_simps)
  also have "\<dots> = int (ones (bit a) 6 + ones (bit b) 6)"
    using spread_facts(1) [OF a] spread_facts(2) [OF b] ones_le [of "bit a" 6] ones_le [of "bit b" 6]
    by simp
  finally show ?thesis using o by simp
qed

lemma uint_count12: "uint (count12 v) = int (ones (bit v) 12)"
proof -
  define x where "x = uint v mod 4096"
  have x: "0 \<le> x" "x < 4096" by (simp_all add: x_def)
  have m: "uint (v AND 0xfff) = x"
  proof -
    have "v AND 0xfff = take_bit 12 v" by (simp add: take_bit_eq_mask mask_eq_exp_minus_1)
    then show ?thesis by (simp add: take_bit_eq_mod x_def uint_mod)
  qed
  have "uint ((v AND 0xfff) * 0x1001001001001) = x * 0x1001001001001"
    using x by (simp add: uint_word_ariths m) 
  then have "uint (count12 v) = spread x mod 31"
    by (simp add: count12_def uint_mod uint_and spread_def)
  also have "\<dots> = int (ones (bit x) 12)" using spread_mod [OF x] .
  also have "ones (bit x) 12 = ones (bit v) 12"
  proof (rule ones_cong)
    have "x = take_bit 12 (uint v)" by (simp add: x_def take_bit_eq_mod)
    then show "bit x i = bit v i" if "i < 12" for i
      using that by (simp only: bit_take_bit_iff) (simp add: bit_uint_iff bit_imp_le_length conj_commute cong: conj_cong) 
  qed
  finally show ?thesis .
qed

lemma unat_count12: "unat (count12 v) = ones (bit v) 12"
proof -
  have "int (unat (count12 v)) = int (ones (bit v) 12)" using uint_count12 [of v] by (simp only: uint_nat [symmetric])
  then show ?thesis by (simp only: of_nat_eq_iff)
qed

lemma ones_drop: "ones (bit (drop_bit k (w :: 'a::len word))) n = ones (\<lambda>i. bit w (k + i)) n"
  by (simp add: bit_drop_bit_eq o_def)

lemma count12_le: "unat (count12 v) \<le> 12"
  using ones_le [of "bit v" 12] by (simp add: unat_count12)

lemma ones_word_beyond:
  fixes w :: "'a::len word"
  assumes "LENGTH('a) \<le> n"
  shows "ones (bit w) n = ones (bit w) LENGTH('a)"
  using assms by (rule ones_ge) (auto dest: bit_imp_le_length)

lemma unat_sum_small:
  fixes a b :: u64
  assumes "unat a + unat b < 2 ^ 32"
  shows "unat (a + b) = unat a + unat b"
  using assms unat_add_lem [of a b] by simp

lemma unat_ucast_small: "unat (a :: u64) < 2 ^ 32 \<Longrightarrow> unat (ucast a :: u32) = unat a"
  by (simp add: unsigned_ucast_eq take_bit_nat_eq_self)

lemma ones_ucast:
  fixes w :: "'a::len word"
  assumes "LENGTH('a) \<le> LENGTH('b::len)"
  shows "ones (\<lambda>i. bit (ucast w :: 'b word) (k + i)) n = ones (\<lambda>i. bit w (k + i)) n"
  using assms by (intro ones_cong) (auto simp: bit_ucast_iff dest: bit_imp_le_length)

lemma population_count64_ones: "unat (population_count64 v) = ones (bit v) 64"
proof -
  have "ones (bit v) 64 = ones (bit v) 72" using ones_word_beyond [of 72 v] by simp
  also have "\<dots> = ones (bit v) 12 + ones (\<lambda>i. bit v (12 + i)) 12 + ones (\<lambda>i. bit v (24 + i)) 12
     + ones (\<lambda>i. bit v (36 + i)) 12 + ones (\<lambda>i. bit v (48 + i)) 12 + ones (\<lambda>i. bit v (60 + i)) 12"
    using ones_add [of "bit v" 60 12] ones_add [of "bit v" 48 12] ones_add [of "bit v" 36 12]
      ones_add [of "bit v" 24 12] ones_add [of "bit v" 12 12] by simp
  finally show ?thesis
    using count12_le [of v] count12_le [of "drop_bit 12 v"] count12_le [of "drop_bit 24 v"]
      count12_le [of "drop_bit 36 v"] count12_le [of "drop_bit 48 v"] count12_le [of "drop_bit 60 v"]
    by (simp add: population_count64_def unat_ucast_small unat_sum_small unat_count12 ones_drop)
qed

lemma population_count8_ones: "unat (population_count8 v) = ones (bit v) 8"
  using ones_word_beyond [of 12 v] ones_ucast [where 'b=64, of v 0 12] count12_le [of "ucast v"]
  by (simp add: population_count8_def unat_ucast_small unat_count12)

lemma population_count16_ones: "unat (population_count16 v) = ones (bit v) 16"
  using ones_word_beyond [of 24 v] ones_ucast [where 'b=64, of v 0 12] ones_ucast [where 'b=64, of v 12 12]
    count12_le [of "ucast v"] count12_le [of "drop_bit 12 (ucast v)"] ones_add [of "bit v" 12 12]
  by (simp add: population_count16_def unat_ucast_small unat_sum_small unat_count12 ones_drop)

lemma population_count32_ones: "unat (population_count32 v) = ones (bit v) 32"
  using ones_word_beyond [of 36 v] ones_ucast [where 'b=64, of v 0 12] ones_ucast [where 'b=64, of v 12 12]
    ones_ucast [where 'b=64, of v 24 12]
    count12_le [of "ucast v"] count12_le [of "drop_bit 12 (ucast v)"] count12_le [of "drop_bit 24 (ucast v)"]
    ones_add [of "bit v" 12 12] ones_add [of "bit v" 24 12]
  by (simp add: population_count32_def unat_ucast_small unat_sum_small unat_count12 ones_drop)

section \<open>Trailing zeros\<close>

text \<open>\<open>value & -value\<close> keeps the lowest bit alone.\<close>

lemma and_minus_lowest:
  fixes w :: "'a::len word"
  assumes "bit w k" "\<forall>i < k. \<not> bit w i"
  shows "w AND - w = push_bit k 1"
proof (rule bit_word_eqI)
  fix n assume n: "n < LENGTH('a)"
  have k: "k < LENGTH('a)" using assms(1) by (rule bit_imp_le_length)
  define u where "u = unset_bit k w"
  have "u AND push_bit k 1 = 0"
    by (rule bit_word_eqI) (auto simp: u_def bit_simps)
  moreover have "u OR push_bit k 1 = w"
    using assms(1) by (auto intro!: bit_word_eqI simp: u_def bit_simps)
  ultimately have w: "w = u + push_bit k 1" using disjunctive_add_eq_or [of u "push_bit k 1"] by simp
  have "u AND mask k = 0"
    using assms(2) by (auto intro!: bit_word_eqI simp: u_def bit_simps)
  then have "u + mask k = u OR mask k" by (rule disjunctive_add_eq_or)
  then have "w - 1 = u OR mask k" using w by (simp add: mask_eq_exp_minus_1 push_bit_eq_mult algebra_simps)
  moreover have "bit (- w) n \<longleftrightarrow> \<not> bit (w - 1) n" using n by (simp add: minus_eq_not_minus_1 bit_not_iff)
  ultimately have "bit (- w) n \<longleftrightarrow> \<not> bit (u OR mask k) n" by simp
  then show "bit (w AND - w) n = bit (push_bit k 1 :: 'a word) n"
    using n k assms by (auto simp: u_def bit_simps)
qed

definition lowest_bit :: "'a::len word \<Rightarrow> nat \<Rightarrow> bool" where
  "lowest_bit w k \<longleftrightarrow> bit w k \<and> (\<forall>i < k. \<not> bit w i)"

lemma lowest_bit_exists: "w \<noteq> 0 \<Longrightarrow> \<exists>k. lowest_bit w k"
proof -
  assume "w \<noteq> 0"
  then obtain n where "bit w n" using bit_eq_iff [of w 0] by auto
  then have "bit w (LEAST n. bit w n)" by (rule LeastI)
  then show ?thesis using not_less_Least unfolding lowest_bit_def by blast
qed

lemma lowest_bit_nonzero: "lowest_bit w k \<Longrightarrow> w \<noteq> 0"
  by (auto simp: lowest_bit_def)

lemma lowest_bit_length: "lowest_bit (w :: 'a::len word) k \<Longrightarrow> k < LENGTH('a)"
  by (auto simp: lowest_bit_def dest: bit_imp_le_length)

lemma lowest_bit_and_minus: "lowest_bit w k \<Longrightarrow> w AND - w = push_bit k 1"
  unfolding lowest_bit_def by (rule and_minus_lowest) auto

lemma trailing_table8: "list_all (\<lambda>k. trailing_masks8 (push_bit k 1) = of_nat k) [0..<8]"
  by code_simp

lemma trailing_table16:
  "list_all (\<lambda>k. trailing_masks16 (push_bit k 1) = of_nat k - (if k mod 4 < 2 then 2 else 0)) [0..<16]"
  by code_simp

lemma exp_and_iff: "k < LENGTH('a) \<Longrightarrow> push_bit k 1 AND (m :: 'a::len word) \<noteq> 0 \<longleftrightarrow> bit m k"
proof
  assume "push_bit k 1 AND m \<noteq> 0" "k < LENGTH('a)"
  then obtain n where "bit (push_bit k 1 AND m) n" using bit_word_eqI [of "push_bit k 1 AND m" 0] by auto
  then have "bit (push_bit k 1 :: 'a word) n" "bit m n" by (simp_all only: bit_and_iff)
  moreover from this(1) have "n = k" by (simp add: bit_exp_iff)
  ultimately show "bit m k" by simp
next
  assume k: "k < LENGTH('a)" "bit m k"
  then have "bit (push_bit k 1 AND m) k" by (simp add: bit_simps)
  then show "push_bit k 1 AND m \<noteq> 0" by auto
qed

lemma trailing_table32: "k < 32 \<Longrightarrow> trailing_masks32 (push_bit k 1) = of_nat k"
proof -
  assume k: "k < 32"
  have "list_all (\<lambda>k. step_down (bit (0x55555555 :: int) k) 1 (step_down (bit (0x33333333 :: int) k) 2
      (step_down (bit (0x0F0F0F0F :: int) k) 4 (step_down (bit (0x00FF00FF :: int) k) 8
      (step_down (bit (0x0000FFFF :: int) k) 16 31)))) = of_nat k) [0..<32]"
    by code_simp
  then have t: "step_down (bit (0x55555555 :: int) k) 1 (step_down (bit (0x33333333 :: int) k) 2
      (step_down (bit (0x0F0F0F0F :: int) k) 4 (step_down (bit (0x00FF00FF :: int) k) 8
      (step_down (bit (0x0000FFFF :: int) k) 16 31)))) = of_nat k"
    using k by (simp add: list_all_iff)
  have b: "(push_bit k 1 AND (numeral m :: u32) \<noteq> 0) = bit (numeral m :: int) k" for m
    using k exp_and_iff [of k "numeral m :: u32"] by (simp only: bit_numeral_word_iff) simp
  have z: "(push_bit k 1 :: u32) \<noteq> 0" using k exp_and_iff [of k "- 1 :: u32"] by simp
  have "trailing_masks32 (push_bit k 1) = step_down (bit (0x55555555 :: int) k) 1 (step_down (bit (0x33333333 :: int) k) 2
      (step_down (bit (0x0F0F0F0F :: int) k) 4 (step_down (bit (0x00FF00FF :: int) k) 8
      (step_down (bit (0x0000FFFF :: int) k) 16 (step_down True 1 32)))))"
    unfolding trailing_masks32_def Let_def b using z by (simp only: not_False_eq_True)
  also have "step_down True 1 32 = 31" by (simp add: step_down_def)
  finally show ?thesis using t by (simp only:)
qed

lemma ctz8_lowest: "lowest_bit v k \<Longrightarrow> count_trailing_zero_bits8 v = of_nat k"
  using trailing_table8 lowest_bit_length [of v k] lowest_bit_and_minus [of v k]
  by (simp add: count_trailing_zero_bits8_def list_all_iff)

lemma ctz16_lowest:
  "lowest_bit v k \<Longrightarrow> count_trailing_zero_bits16 v = of_nat k - (if k mod 4 < 2 then 2 else 0)"
  using trailing_table16 lowest_bit_length [of v k] lowest_bit_and_minus [of v k]
  by (simp add: count_trailing_zero_bits16_def list_all_iff)

lemma ctz32_lowest: "lowest_bit v k \<Longrightarrow> count_trailing_zero_bits32 v = of_nat k"
  using trailing_table32 [of k] lowest_bit_length [of v k] lowest_bit_and_minus [of v k]
  by (simp add: count_trailing_zero_bits32_def)

lemma ctz_zero:
  "count_trailing_zero_bits8 0 = 8" "count_trailing_zero_bits16 0 = 16" "count_trailing_zero_bits32 0 = 32"
  by (simp_all add: count_trailing_zero_bits8_def trailing_masks8_def count_trailing_zero_bits16_def
      trailing_masks16_def count_trailing_zero_bits32_def trailing_masks32_def step_down_def)

lemma ctz64_lowest: "lowest_bit v k \<Longrightarrow> count_trailing_zero_bits64 v = of_nat k"
proof (cases "k < 32")
  case True
  moreover assume v: "lowest_bit v k"
  ultimately have "lowest_bit (ucast v :: u32) k" by (auto simp: lowest_bit_def bit_ucast_iff)
  then have "(ucast v :: u32) \<noteq> 0" "count_trailing_zero_bits32 (ucast v) = of_nat k"
    by (rule lowest_bit_nonzero, rule ctz32_lowest)
  then show ?thesis by (simp add: count_trailing_zero_bits64_def)
next
  case False
  assume v: "lowest_bit v k"
  have "(ucast v :: u32) = 0"
    by (rule bit_word_eqI) (use v False in \<open>auto simp: lowest_bit_def bit_ucast_iff\<close>)
  moreover have "lowest_bit (ucast (drop_bit 32 v) :: u32) (k - 32)"
  proof -
    have "bit v (32 + (k - 32))" "k - 32 < 32" using v False lowest_bit_length [OF v] by (simp_all add: lowest_bit_def)
    moreover have "\<not> bit v (32 + i)" if "i < k - 32" for i
    proof -
      have "32 + i < k" using that by simp
      then show ?thesis using v unfolding lowest_bit_def by blast
    qed
    ultimately show ?thesis by (simp add: lowest_bit_def bit_ucast_iff bit_drop_bit_eq)
  qed
  then have "count_trailing_zero_bits32 (ucast (drop_bit 32 v)) = of_nat (k - 32)" by (rule ctz32_lowest)
  moreover have "(32 :: u32) + of_nat (k - 32) = of_nat k"
  proof -
    obtain j where "k = 32 + j" using False le_Suc_ex [of 32 k] by auto
    then show ?thesis by simp
  qed
  ultimately show ?thesis by (simp add: count_trailing_zero_bits64_def)
qed

section \<open>Leading zeros\<close>

definition highest_bit :: "'a::len word \<Rightarrow> nat \<Rightarrow> bool" where
  "highest_bit w h \<longleftrightarrow> bit w h \<and> (\<forall>i > h. \<not> bit w i)"

definition covers :: "'a::len word \<Rightarrow> nat \<Rightarrow> 'a word \<Rightarrow> bool" where
  "covers w d w' \<longleftrightarrow> (\<forall>n. bit w' n \<longleftrightarrow> (\<exists>j < d. bit w (n + j)))"

lemma highest_bit_exp: "h < LENGTH('a) \<Longrightarrow> highest_bit (2 ^ h :: 'a::len word) h"
  by (auto simp: highest_bit_def bit_exp_iff)

lemma covers_self: "covers w 1 w"
  by (simp add: covers_def)

lemma covers_smear:
  assumes "covers w d w'" "k \<le> d"
  shows "covers w (d + k) (smear k w')"
  unfolding covers_def
proof
  fix n
  have "bit (smear k w') n \<longleftrightarrow> (\<exists>j < d. bit w (n + j)) \<or> (\<exists>j < d. bit w (k + n + j))"
    using assms(1) by (simp add: smear_def bit_or_iff bit_drop_bit_eq covers_def)
  also have "\<dots> \<longleftrightarrow> (\<exists>j < d + k. bit w (n + j))"
  proof
    assume "(\<exists>j < d. bit w (n + j)) \<or> (\<exists>j < d. bit w (k + n + j))"
    then show "\<exists>j < d + k. bit w (n + j)"
      by (metis add.assoc add.commute add_less_cancel_left trans_less_add1)
  next
    assume "\<exists>j < d + k. bit w (n + j)"
    then obtain j where j: "j < d + k" "bit w (n + j)" by blast
    show "(\<exists>j < d. bit w (n + j)) \<or> (\<exists>j < d. bit w (k + n + j))"
    proof (cases "j < d")
      case False
      then have "j - k < d" "k + n + (j - k) = n + j" using j assms(2) by auto
      then show ?thesis using j(2) by metis
    qed (use j in blast)
  qed
  finally show "bit (smear k w') n = (\<exists>j < d + k. bit w (n + j))" .
qed

lemma covers_all:
  fixes w :: "'a::len word"
  assumes c: "covers w LENGTH('a) w'" and h: "highest_bit w h"
  shows "ones (bit (NOT w')) LENGTH('a) = LENGTH('a) - 1 - h"
proof -
  have hl: "h < LENGTH('a)" using h by (auto simp: highest_bit_def dest: bit_imp_le_length)
  have b: "bit (NOT w') n \<longleftrightarrow> h < n" if "n < LENGTH('a)" for n
  proof -
    have "bit w' n \<longleftrightarrow> n \<le> h"
    proof
      assume "bit w' n"
      then show "n \<le> h" using c h unfolding covers_def highest_bit_def by (metis le_add1 le_trans not_le)
    next
      assume n: "n \<le> h"
      then show "bit w' n" using c h hl unfolding covers_def highest_bit_def
        by (auto intro!: exI [of _ "h - n"])
    qed
    then show ?thesis using that by (auto simp: bit_not_iff)
  qed
  have "ones (bit (NOT w')) LENGTH('a) = ones (\<lambda>n. h < n) LENGTH('a)" using b by (rule ones_cong)
  also have "\<dots> = LENGTH('a) - 1 - h"
  proof -
    have "{i. i < LENGTH('a) \<and> h < i} = {h<..<LENGTH('a)}" by auto
    then show ?thesis by (simp add: ones_card)
  qed
  finally show ?thesis .
qed

lemma covers_zero: "covers w d w' \<Longrightarrow> w = 0 \<Longrightarrow> w' = 0"
  by (rule bit_word_eqI) (simp add: covers_def)

lemma clz8_covers: "covers w 8 (smear 4 (smear 2 (smear 1 (w :: byte))))"
  using covers_smear [OF covers_smear [OF covers_smear [OF covers_self, of 1 w], of 2], of 4] by simp

lemma clz16_covers: "covers w 16 (smear 8 (smear 4 (smear 2 (smear 1 (w :: u16)))))"
  using covers_smear [OF covers_smear [OF covers_smear [OF covers_smear [OF covers_self, of 1 w], of 2], of 4], of 8] by simp

lemma clz32_covers: "covers w 32 (smear 16 (smear 8 (smear 4 (smear 2 (smear 1 (w :: u32))))))"
  using covers_smear [OF covers_smear [OF covers_smear [OF covers_smear [OF covers_smear [OF covers_self,
     of 1 w], of 2], of 4], of 8], of 16] by simp

lemma clz64_covers: "covers w 64 (smear 32 (smear 16 (smear 8 (smear 4 (smear 2 (smear 1 (w :: u64)))))))"
  using covers_smear [OF covers_smear [OF covers_smear [OF covers_smear [OF covers_smear [OF covers_smear
     [OF covers_self, of 1 w], of 2], of 4], of 8], of 16], of 32] by simp

lemma clz8_highest: "highest_bit w h \<Longrightarrow> unat (count_leading_zero_bits8 w) = 7 - h"
  using covers_all [of w "smear 4 (smear 2 (smear 1 w))" h] clz8_covers [of w]
  by (simp add: count_leading_zero_bits8_def population_count8_ones)

lemma clz16_highest: "highest_bit w h \<Longrightarrow> unat (count_leading_zero_bits16 w) = 15 - h"
  using covers_all [of w "smear 8 (smear 4 (smear 2 (smear 1 w)))" h] clz16_covers [of w]
  by (simp add: count_leading_zero_bits16_def population_count16_ones)

lemma clz32_highest: "highest_bit w h \<Longrightarrow> unat (count_leading_zero_bits32 w) = 31 - h"
  using covers_all [of w "smear 16 (smear 8 (smear 4 (smear 2 (smear 1 w))))" h] clz32_covers [of w]
  by (simp add: count_leading_zero_bits32_def population_count32_ones)

lemma clz64_highest: "highest_bit w h \<Longrightarrow> unat (count_leading_zero_bits64 w) = 63 - h"
  using covers_all [of w "smear 32 (smear 16 (smear 8 (smear 4 (smear 2 (smear 1 w)))))" h] clz64_covers [of w]
  by (simp add: count_leading_zero_bits64_def population_count64_ones)

section \<open>Properties\<close>

text \<open>the multiplication and remainder of \<open>population_count\<close> count the ones of a word,
  for every width.\<close>

lemma population_count_correct:
  "unat (population_count8 a) = card {i. i < 8 \<and> bit a i}
   \<and> unat (population_count16 b) = card {i. i < 16 \<and> bit b i}
   \<and> unat (population_count32 c) = card {i. i < 32 \<and> bit c i}
   \<and> unat (population_count64 d) = card {i. i < 64 \<and> bit d i}"
  by (simp add: population_count8_ones population_count16_ones population_count32_ones population_count64_ones ones_card)

text \<open>\<open>count_leading_zero_bits\<close> is the number of zeros above the highest bit.\<close>

lemma leading_zeros_correct:
  assumes "highest_bit v h"
  shows "unat (count_leading_zero_bits64 v) = 63 - h"
  using assms by (rule clz64_highest)

text \<open>\<open>count_trailing_zero_bits\<close> of 8, 32 and 64 bits is the position of the lowest bit; of
  16 bits it is not: one of its masks is applied twice, so the result is off by two
  whenever the position is 0 or 1 modulo 4 (and then wraps around for the first two).\<close>

lemma trailing_zeros:
  "(lowest_bit a k \<longrightarrow> count_trailing_zero_bits8 a = of_nat k)
   \<and> (lowest_bit b k \<longrightarrow> count_trailing_zero_bits16 b = of_nat k - (if k mod 4 < 2 then 2 else 0))
   \<and> (lowest_bit c k \<longrightarrow> count_trailing_zero_bits32 c = of_nat k)
   \<and> (lowest_bit d k \<longrightarrow> count_trailing_zero_bits64 d = of_nat k)"
  by (simp add: ctz8_lowest ctz16_lowest ctz32_lowest ctz64_lowest)

end
