(* ===== verification/Bit_Arrays.thy ===== *)
theory Bit_Arrays
  imports Byte_Arrays Bit_Algorithms
begin

text \<open>
  \<open>pdk::ds::BitArray\<close> (\<open>src/modules/base/ds/BitArray.cpp\<close>, \<open>BitArray.h\<close>): bits packed in a
  byte array.  Byte 0 holds the difference between the number of bits of the byte array
  and the number of bits of the bit array; bit \<open>i\<close> is bit \<open>i mod 8\<close> of byte
  \<open>1 + i div 8\<close>.  Indices and sizes are natural numbers except in the constructor, which
  is the one place where the code looks at the sign; an access out of range, against
  which the code asserts, leaves the array as it is.
\<close>

record bit_array =
  bits_data :: byte_array

definition bits_bytes :: "bit_array \<Rightarrow> byte list" where
  "bits_bytes b = ba_bytes (bits_data b)"

text \<open>Writing to the bytes of an array through \<open>getRawData\<close>, which detaches it.\<close>

definition bits_store :: "bit_array \<Rightarrow> byte list \<Rightarrow> bit_array" where
  "bits_store b xs = b\<lparr>bits_data := (ba_detach (bits_data b))\<lparr>ba_bytes := xs\<rparr>\<rparr>"

definition bits_size :: "bit_array \<Rightarrow> int" where
  "bits_size b = 8 * int (length (bits_bytes b)) - (if bits_bytes b = [] then 0 else sint (hd (bits_bytes b)))"

definition bits_empty :: bit_array where
  "bits_empty = \<lparr>bits_data = shared_null\<rparr>"

definition low_mask :: "nat \<Rightarrow> byte" where
  "low_mask n = ucast (push_bit (n mod 8) (1 :: u32) - 1)"

definition bit_array_new :: "memory \<Rightarrow> int \<Rightarrow> bool \<Rightarrow> bit_array" where
  "bit_array_new junk sz value =
     (if sz \<le> 0 then \<lparr>bits_data = ba_uninitialized junk 0\<rparr>
      else let n = nat sz;
               d = ba_uninitialized junk (1 + (n + 7) div 8);
               meta = ba_bytes d;
               meta = mem_write meta 1 (replicate (length meta - 1) (if value then 0xff else 0));
               meta = meta[0 := of_nat (length meta * 8 - n)];
               meta = (if value \<and> n mod 8 \<noteq> 0 then meta[1 + n div 8 := meta ! (1 + n div 8) AND low_mask n] else meta)
           in bits_store \<lparr>bits_data = d\<rparr> meta)"

definition test_bit :: "bit_array \<Rightarrow> nat \<Rightarrow> bool" where
  "test_bit b i \<longleftrightarrow> bits_bytes b ! (1 + i div 8) AND push_bit (i mod 8) 1 \<noteq> 0"

definition set_bit_on :: "bit_array \<Rightarrow> nat \<Rightarrow> bit_array" where
  "set_bit_on b i = (let xs = bits_bytes b; k = 1 + i div 8 in bits_store b (xs[k := xs ! k OR push_bit (i mod 8) 1]))"

definition clear_bit :: "bit_array \<Rightarrow> nat \<Rightarrow> bit_array" where
  "clear_bit b i = (let xs = bits_bytes b; k = 1 + i div 8 in bits_store b (xs[k := xs ! k AND NOT (push_bit (i mod 8) 1)]))"

definition set_bit_to :: "bit_array \<Rightarrow> nat \<Rightarrow> bool \<Rightarrow> bit_array" where
  "set_bit_to b i value = (if value then set_bit_on b i else clear_bit b i)"

definition toggle_bit :: "bit_array \<Rightarrow> nat \<Rightarrow> bit_array \<times> bool" where
  "toggle_bit b i =
     (let m = push_bit (i mod 8) 1; xs = bits_bytes b; k = 1 + i div 8; c = xs ! k AND m
      in (bits_store b (xs[k := xs ! k XOR m]), c \<noteq> 0))"

text \<open>\<open>fill(value, first, last)\<close>: single bits up to a byte boundary, whole bytes, single bits.\<close>

function fill_aligned :: "bit_array \<Rightarrow> bool \<Rightarrow> nat \<Rightarrow> nat \<Rightarrow> bit_array \<times> nat" where
  "fill_aligned b value i stop =
     (if i < stop \<and> i mod 8 \<noteq> 0 then fill_aligned (set_bit_to b i value) value (i + 1) stop else (b, i))"
  by pat_completeness auto
termination by (relation "measure (\<lambda>(b, v, i, stop). stop - i)") auto

function fill_bits :: "bit_array \<Rightarrow> bool \<Rightarrow> nat \<Rightarrow> nat \<Rightarrow> bit_array" where
  "fill_bits b value i stop =
     (if i < stop then fill_bits (set_bit_to b i value) value (i + 1) stop else b)"
  by pat_completeness auto
termination by (relation "measure (\<lambda>(b, v, i, stop). stop - i)") auto

declare fill_aligned.simps [simp del] fill_bits.simps [simp del]

definition bits_fill_range :: "bit_array \<Rightarrow> bool \<Rightarrow> nat \<Rightarrow> nat \<Rightarrow> bit_array" where
  "bits_fill_range b value first stop =
     (let (b, first) = fill_aligned b value first stop
      in if stop \<le> first then b
         else let actualSize = (stop - first) div 8 * 8;
                  b = bits_store b (mem_write (bits_bytes b) (1 + first div 8)
                        (replicate (actualSize div 8) (if value then 0xff else 0)))
              in fill_bits b value (first + actualSize) stop)"

definition bits_fill :: "memory \<Rightarrow> bool \<Rightarrow> bit_array \<Rightarrow> int \<Rightarrow> bit_array" where
  "bits_fill junk value b sz = bit_array_new junk (if sz < 0 then bits_size b else sz) value"

text \<open>
  \<open>count\<close>: eight bytes at a time, then four, two and one.  \<open>cells\<close> are the bytes after
  the first with the zero byte the array is terminated with, which the loops may read.
\<close>

definition read_le64 :: "byte list \<Rightarrow> u64" where
  "read_le64 xs = horner_sum ucast (2 ^ 8) (take 8 xs)"

definition read_le32 :: "byte list \<Rightarrow> u32" where
  "read_le32 xs = horner_sum ucast (2 ^ 8) (take 4 xs)"

definition read_le16 :: "byte list \<Rightarrow> u16" where
  "read_le16 xs = horner_sum ucast (2 ^ 8) (take 2 xs)"

function count_words :: "byte list \<Rightarrow> nat \<Rightarrow> nat \<Rightarrow> int \<Rightarrow> nat \<times> int" where
  "count_words cells p end_pos numBits =
     (if p + 7 \<le> end_pos
      then count_words cells (p + 8) end_pos (numBits + uint (population_count64 (read_le64 (drop p cells))))
      else (p, numBits))"
  by pat_completeness auto
termination by (relation "measure (\<lambda>(cells, p, e, n). e + 8 - p)") auto

declare count_words.simps [simp del]

definition bits_count :: "bit_array \<Rightarrow> bool \<Rightarrow> int" where
  "bits_count b on =
     (let cells = tl (bits_bytes b) @ [0];
          end_pos = length (bits_bytes b) - 1;
          (p, numBits) = count_words cells 0 end_pos 0;
          (p, numBits) = (if p + 3 \<le> end_pos
             then (p + 4, numBits + uint (population_count32 (read_le32 (drop p cells)))) else (p, numBits));
          (p, numBits) = (if p + 1 < end_pos
             then (p + 2, numBits + uint (population_count16 (read_le16 (drop p cells)))) else (p, numBits));
          numBits = (if p < end_pos then numBits + uint (population_count8 (cells ! p)) else numBits)
      in if on then numBits else bits_size b - numBits)"

definition bits_resize :: "memory \<Rightarrow> bit_array \<Rightarrow> nat \<Rightarrow> bit_array" where
  "bits_resize junk b sz =
     (if sz = 0 then b\<lparr>bits_data := ba_resize junk (bits_data b) 0\<rparr>
      else let byteSize = length (bits_bytes b);
               b = b\<lparr>bits_data := ba_resize junk (bits_data b) (int (1 + (sz + 7) div 8))\<rparr>;
               xs = bits_bytes b;
               xs = (if sz > 8 * byteSize then mem_write xs byteSize (replicate (length xs - byteSize) 0)
                     else if sz mod 8 \<noteq> 0 then xs[1 + sz div 8 := xs ! (1 + sz div 8) AND low_mask sz]
                     else xs);
               xs = xs[0 := of_nat (length xs * 8 - sz)]
           in bits_store b xs)"

definition bits_truncate :: "memory \<Rightarrow> bit_array \<Rightarrow> nat \<Rightarrow> bit_array" where
  "bits_truncate junk b pos = (if int pos < bits_size b then bits_resize junk b pos else b)"

text \<open>The loops of the compound assignments over the bytes after the first.\<close>

fun zip_bytes :: "(byte \<Rightarrow> byte \<Rightarrow> byte) \<Rightarrow> byte list \<Rightarrow> byte list \<Rightarrow> byte list" where
  "zip_bytes f (x # xs) (y # ys) = f x y # zip_bytes f xs ys"
| "zip_bytes f xs ys = xs"

definition bits_and_assign :: "memory \<Rightarrow> bit_array \<Rightarrow> bit_array \<Rightarrow> bit_array" where
  "bits_and_assign junk b other =
     (let b = bits_resize junk b (nat (max (bits_size b) (bits_size other)));
          data1 = tl (bits_bytes b);
          data2 = tl (bits_bytes other);
          diff = length data1 - length data2
      in bits_store b (take 1 (bits_bytes b)
           @ zip_bytes (AND) (take (length data2) data1) data2 @ replicate diff 0))"

definition bits_or_assign :: "memory \<Rightarrow> bit_array \<Rightarrow> bit_array \<Rightarrow> bit_array" where
  "bits_or_assign junk b other =
     (let b = bits_resize junk b (nat (max (bits_size b) (bits_size other)))
      in bits_store b (take 1 (bits_bytes b) @ zip_bytes (OR) (tl (bits_bytes b)) (tl (bits_bytes other))))"

definition bits_xor_assign :: "memory \<Rightarrow> bit_array \<Rightarrow> bit_array \<Rightarrow> bit_array" where
  "bits_xor_assign junk b other =
     (let b = bits_resize junk b (nat (max (bits_size b) (bits_size other)))
      in bits_store b (take 1 (bits_bytes b) @ zip_bytes (XOR) (tl (bits_bytes b)) (tl (bits_bytes other))))"

definition bits_not :: "memory \<Rightarrow> bit_array \<Rightarrow> bit_array" where
  "bits_not junk b =
     (let sz = bits_size b;
          result = bit_array_new junk sz False;
          data2 = map NOT (tl (bits_bytes b));
          data2 = (if sz \<noteq> 0 \<and> nat sz mod 8 \<noteq> 0
                   then data2[length data2 - 1 := last data2 AND low_mask (nat sz)] else data2)
      in bits_store result (take 1 (bits_bytes result) @ data2))"

definition bits_and :: "memory \<Rightarrow> bit_array \<Rightarrow> bit_array \<Rightarrow> bit_array" where
  "bits_and junk a b = bits_and_assign junk \<lparr>bits_data = ba_copy (bits_data a)\<rparr> b"

definition bits_or :: "memory \<Rightarrow> bit_array \<Rightarrow> bit_array \<Rightarrow> bit_array" where
  "bits_or junk a b = bits_or_assign junk \<lparr>bits_data = ba_copy (bits_data a)\<rparr> b"

definition bits_xor :: "memory \<Rightarrow> bit_array \<Rightarrow> bit_array \<Rightarrow> bit_array" where
  "bits_xor junk a b = bits_xor_assign junk \<lparr>bits_data = ba_copy (bits_data a)\<rparr> b"

definition bits_equal :: "bit_array \<Rightarrow> bit_array \<Rightarrow> bool" where
  "bits_equal a b \<longleftrightarrow> bits_bytes a = bits_bytes b"

section \<open>What a bit array represents\<close>

definition bit_at :: "byte list \<Rightarrow> nat \<Rightarrow> bool" where
  "bit_at xs i = bit (xs ! (i div 8)) (i mod 8)"

text \<open>The bytes of a bit array of \<open>n\<close> bits: unused bits are zero.\<close>

definition bits_rep :: "byte list \<Rightarrow> nat \<Rightarrow> bool" where
  "bits_rep xs n \<longleftrightarrow>
     (if n = 0 then xs = []
      else length xs = 1 + (n + 7) div 8 \<and> hd xs = of_nat (8 * length xs - n)
        \<and> (\<forall>i. n \<le> i \<longrightarrow> i < 8 * ((n + 7) div 8) \<longrightarrow> \<not> bit_at (tl xs) i))"

definition bits_ok :: "bit_array \<Rightarrow> bool" where
  "bits_ok b \<longleftrightarrow> ba_ok (bits_data b) \<and> 0 \<le> bits_size b \<and> bits_rep (bits_bytes b) (nat (bits_size b))"

definition bits_list :: "bit_array \<Rightarrow> bool list" where
  "bits_list b = map (test_bit b) [0..<nat (bits_size b)]"


section \<open>Reading and writing single bits\<close>

lemma and_bit_iff:
  fixes x :: byte
  assumes "j < 8"
  shows "x AND 2 ^ j \<noteq> 0 \<longleftrightarrow> bit x j"
  using exp_and_iff [of j x] assms by (simp add: and.commute)

lemma test_bit_eq: "bits_bytes b = h # xs \<Longrightarrow> test_bit b i = bit_at xs i"
  using and_bit_iff [of "i mod 8"] by (simp add: test_bit_def bit_at_def)

text \<open>The payload: the bytes after the first.\<close>

lemma bit_at_update:
  assumes "k < length xs"
  shows "bit_at (xs[k := f (xs ! k)]) i = (if i div 8 = k then bit (f (xs ! k)) (i mod 8) else bit_at xs i)"
  using assms by (auto simp: bit_at_def)

lemma byte_bit_ops:
  fixes x :: byte
  assumes "j < 8" "m < 8"
  shows "bit (x OR 2 ^ j) m = (m = j \<or> bit x m)"
    "bit (x AND NOT (2 ^ j)) m = (m \<noteq> j \<and> bit x m)"
    "bit (x XOR 2 ^ j) m = (bit x m \<noteq> (m = j))"
  using assms by (auto simp: bit_or_iff bit_and_iff bit_not_iff bit_xor_iff bit_exp_iff)

lemma index_eq_iff: "(j = i) = (j div 8 = i div 8 \<and> j mod 8 = (i mod 8 :: nat))"
  by (metis div_mult_mod_eq)

lemma byte_index [simp]: "i < 8 * n \<Longrightarrow> i div 8 < (n :: nat)"
  by linarith

lemma bit_at_set:
  "i < 8 * length xs \<Longrightarrow>
   bit_at (xs[i div 8 := xs ! (i div 8) OR 2 ^ (i mod 8)]) j = (j = i \<or> bit_at xs j)"
  by (subst bit_at_update [where f = "\<lambda>x. x OR 2 ^ (i mod 8)"])
    (auto simp: bit_at_def byte_bit_ops index_eq_iff [of j i])

lemma bit_at_clear:
  "i < 8 * length xs \<Longrightarrow>
   bit_at (xs[i div 8 := xs ! (i div 8) AND NOT (2 ^ (i mod 8))]) j = (j \<noteq> i \<and> bit_at xs j)"
  by (subst bit_at_update [where f = "\<lambda>x. x AND NOT (2 ^ (i mod 8))"])
    (auto simp: bit_at_def byte_bit_ops index_eq_iff [of j i])

lemma bit_at_toggle:
  "i < 8 * length xs \<Longrightarrow>
   bit_at (xs[i div 8 := xs ! (i div 8) XOR 2 ^ (i mod 8)]) j = (bit_at xs j \<noteq> (j = i))"
  by (subst bit_at_update [where f = "\<lambda>x. x XOR 2 ^ (i mod 8)"])
    (auto simp: bit_at_def byte_bit_ops index_eq_iff [of j i])

lemma bits_bytes_store [simp]: "bits_bytes (bits_store b xs) = xs"
  by (simp add: bits_bytes_def bits_store_def)

lemma ba_ok_store: "ba_ok (bits_data b) \<Longrightarrow> ba_ok (bits_data (bits_store b xs))"
  by (auto simp: bits_store_def ba_ok_def ba_detach_def ba_realloc_def ba_allocate_def is_shared_def split: if_splits)


text \<open>A non-empty bit array by the length it has and its payload.\<close>

definition bits_view :: "bit_array \<Rightarrow> nat \<Rightarrow> byte list \<Rightarrow> bool" where
  "bits_view b n xs \<longleftrightarrow> 0 < n \<and> ba_ok (bits_data b) \<and> length xs = (n + 7) div 8
     \<and> bits_bytes b = of_nat (8 + 8 * length xs - n) # xs
     \<and> (\<forall>i. n \<le> i \<longrightarrow> i < 8 * length xs \<longrightarrow> \<not> bit_at xs i)"

lemma head_byte:
  assumes "0 < n" "l = (n + 7) div 8"
  shows "sint (of_nat (8 + 8 * l - n) :: byte) = 8 + 8 * int l - int n"
proof -
  have l: "n \<le> 8 * l" "8 * l < n + 8" using assms by linarith+
  have "list_all (\<lambda>k. sint (of_nat k :: byte) = int k) [8..<16]" by code_simp
  moreover have "8 + 8 * l - n \<in> set [8..<16]" using l by auto
  ultimately have "sint (of_nat (8 + 8 * l - n) :: byte) = int (8 + 8 * l - n)" unfolding list_all_iff by blast
  then show ?thesis using l by simp
qed

lemma bits_size_view: "bits_view b n xs \<Longrightarrow> bits_size b = int n"
  using head_byte [of n "length xs"] by (auto simp: bits_view_def bits_size_def)

lemma bits_ok_view: "bits_view b n xs \<Longrightarrow> bits_ok b"
  using bits_size_view [of b n xs]
  by (auto simp: bits_ok_def bits_rep_def bits_view_def algebra_simps)

lemma bits_ok_cases:
  assumes "bits_ok b"
  obtains (empty) "bits_bytes b = []" "bits_size b = 0"
  | (view) n xs where "bits_view b n xs"
proof (cases "bits_size b = 0")
  case True
  then show ?thesis using assms empty by (simp add: bits_ok_def bits_rep_def)
next
  case False
  then have "bits_bytes b \<noteq> []" using assms by (auto simp: bits_ok_def bits_size_def)
  then obtain h xs where "bits_bytes b = h # xs" by (cases "bits_bytes b") auto
  then have "bits_view b (nat (bits_size b)) xs"
    using assms False by (auto simp: bits_ok_def bits_rep_def bits_view_def algebra_simps)
  then show ?thesis by (rule view)
qed

lemma bits_list_view: "bits_view b n xs \<Longrightarrow> bits_list b = map (bit_at xs) [0..<n]"
  using bits_size_view [of b n xs] test_bit_eq [of b _ xs] by (auto simp: bits_list_def bits_view_def)

lemma bits_list_empty: "bits_bytes b = [] \<Longrightarrow> bits_list b = []"
  by (simp add: bits_list_def bits_size_def)

lemma bits_viewI:
  assumes "ba_ok (bits_data b)" "0 < n" "length xs = (n + 7) div 8" "h = of_nat (8 + 8 * length xs - n)"
    "\<And>i. n \<le> i \<Longrightarrow> i < 8 * length xs \<Longrightarrow> \<not> bit_at xs i"
  shows "bits_view (bits_store b (h # xs)) n xs"
  using assms by (simp add: bits_view_def ba_ok_store)

lemma set_bit_view:
  assumes v: "bits_view b n xs" and i: "i < n"
  shows "bits_view (set_bit_to b i val) n (xs[i div 8 :=
    (if val then xs ! (i div 8) OR 2 ^ (i mod 8) else xs ! (i div 8) AND NOT (2 ^ (i mod 8)))])" (is "bits_view _ _ ?ys")
proof -
  have V: "0 < n" "ba_ok (bits_data b)" "length xs = (n + 7) div 8"
    "bits_bytes b = of_nat (8 + 8 * length xs - n) # xs"
    "\<And>j. n \<le> j \<Longrightarrow> j < 8 * length xs \<Longrightarrow> \<not> bit_at xs j"
    using v by (auto simp: bits_view_def)
  have i8: "i < 8 * length xs" using i V(3) by linarith
  have "set_bit_to b i val = bits_store b (of_nat (8 + 8 * length xs - n) # ?ys)"
    by (simp add: set_bit_to_def set_bit_on_def clear_bit_def V(4) Let_def)
  moreover have "\<not> bit_at ?ys j" if "n \<le> j" "j < 8 * length ?ys" for j
    using that V(5) i i8 bit_at_set [OF i8, of j] bit_at_clear [OF i8, of j] by auto
  ultimately show ?thesis using bits_viewI [OF V(2,1), of ?ys] V(3) by simp
qed

lemma set_bit_at:
  assumes "bits_view b n xs" "i < n"
  shows "bit_at (xs[i div 8 := (if val then xs ! (i div 8) OR 2 ^ (i mod 8) else xs ! (i div 8) AND NOT (2 ^ (i mod 8)))]) j
    = (if j = i then val else bit_at xs j)"
proof -
  have "i < 8 * length xs" using assms unfolding bits_view_def by linarith
  then show ?thesis using bit_at_set [of i xs j] bit_at_clear [of i xs j] by auto
qed

lemma set_bit_list:
  assumes "bits_ok b" "i < length (bits_list b)"
  shows "bits_ok (set_bit_to b i val) \<and> bits_list (set_bit_to b i val) = (bits_list b)[i := val]"
  using assms(1)
proof (cases rule: bits_ok_cases)
  case empty
  then show ?thesis using assms(2) by (simp add: bits_list_empty)
next
  case (view n xs)
  then have i: "i < n" using assms(2) by (simp add: bits_list_view)
  note W = set_bit_view [OF view i, of val]
  show ?thesis
    unfolding bits_list_view [OF W] bits_list_view [OF view] set_bit_at [OF view i]
    using bits_ok_view [OF W] i by (auto intro!: nth_equalityI simp: nth_list_update)
qed

lemma toggle_bit_list:
  assumes "bits_ok b" "i < length (bits_list b)"
  shows "bits_ok (fst (toggle_bit b i)) \<and> bits_list (fst (toggle_bit b i)) = (bits_list b)[i := \<not> bits_list b ! i]
    \<and> snd (toggle_bit b i) = bits_list b ! i"
  using assms(1)
proof (cases rule: bits_ok_cases)
  case empty
  then show ?thesis using assms(2) by (simp add: bits_list_empty)
next
  case (view n xs)
  then have i: "i < n" using assms(2) by (simp add: bits_list_view)
  let ?ys = "xs[i div 8 := xs ! (i div 8) XOR 2 ^ (i mod 8)]"
  have V: "0 < n" "ba_ok (bits_data b)" "length xs = (n + 7) div 8"
    "bits_bytes b = of_nat (8 + 8 * length xs - n) # xs"
    "\<And>j. n \<le> j \<Longrightarrow> j < 8 * length xs \<Longrightarrow> \<not> bit_at xs j"
    using view by (auto simp: bits_view_def)
  have i8: "i < 8 * length xs" using i V(3) by linarith
  have t: "toggle_bit b i = (bits_store b (of_nat (8 + 8 * length xs - n) # ?ys), bit_at xs i)"
    using and_bit_iff [of "i mod 8" "xs ! (i div 8)"] by (simp add: toggle_bit_def V(4) Let_def bit_at_def)
  have "\<not> bit_at ?ys j" if "n \<le> j" "j < 8 * length ?ys" for j
    using that V(5) i bit_at_toggle [OF i8, of j] by auto
  then have W: "bits_view (fst (toggle_bit b i)) n ?ys"
    using bits_viewI [OF V(2,1), of ?ys] V(3) by (simp add: t)
  show ?thesis
    unfolding bits_list_view [OF W] bits_list_view [OF view] bit_at_toggle [OF i8]
    using bits_ok_view [OF W] i by (auto intro!: nth_equalityI simp: nth_list_update t)
qed

section \<open>Construction and resizing\<close>

lemma bit_low_mask: "j < 8 \<Longrightarrow> bit (low_mask n) j = (j < n mod 8)"
proof -
  have "push_bit (n mod 8) (1 :: u32) - 1 = mask (n mod 8)" by (simp add: mask_eq_exp_minus_1)
  then show "j < 8 \<Longrightarrow> ?thesis" by (simp add: low_mask_def bit_ucast_iff bit_mask_iff)
qed

lemma bit_at_masked:
  assumes "n mod 8 \<noteq> 0" "n div 8 < length xs"
  shows "bit_at (xs[n div 8 := xs ! (n div 8) AND low_mask n]) i =
    (bit_at xs i \<and> (i div 8 = n div 8 \<longrightarrow> i < n))"
proof -
  have "i div 8 = n div 8 \<Longrightarrow> (i mod 8 < n mod 8) = (i < n)" by (metis div_mod_decomp nat_add_left_cancel_less)
  then show ?thesis
    by (subst bit_at_update [where f = "\<lambda>x. x AND low_mask n"]) (use assms in \<open>auto simp: bit_at_def bit_and_iff bit_low_mask\<close>)
qed

lemma bit_at_masked_all:
  assumes "n mod 8 \<noteq> 0" "length xs = (n + 7) div 8"
  shows "i < 8 * length xs \<Longrightarrow> bit_at (xs[n div 8 := xs ! (n div 8) AND low_mask n]) i = (bit_at xs i \<and> i < n)"
proof -
  have "(n mod 8 + 7) div 8 = 1" using assms(1) by (intro div_nat_eqI) auto
  then have l: "length xs = n div 8 + 1" using assms(2) div_add1_eq [of n 7 8] by simp
  assume i: "i < 8 * length xs"
  then have "i < n" if "i div 8 \<noteq> n div 8" using that l by linarith
  then show ?thesis using bit_at_masked [OF assms(1), of xs i] l by auto
qed

lemma bit_at_replicate: "i < 8 * k \<Longrightarrow> bit_at (replicate k (if v then 0xff else 0)) i = v"
proof -
  assume "i < 8 * k"
  moreover have "bit (0xff :: byte) j" if "j < 8" for j
  proof -
    have "(0xff :: byte) = mask 8" by (simp add: mask_eq_exp_minus_1)
    then show ?thesis using that by (simp only: bit_mask_iff) simp
  qed
  ultimately show ?thesis by (simp add: bit_at_def del: bit_numeral_word_iff)
qed

lemma bit_array_new_view:
  fixes n :: nat and val :: bool
  assumes n: "0 < n"
  defines "xs \<equiv> replicate ((n + 7) div 8) (if val then 0xff else (0 :: byte))"
  defines "ys \<equiv> (if val \<and> n mod 8 \<noteq> 0 then xs[n div 8 := xs ! (n div 8) AND low_mask n] else xs)"
  shows "bits_view (bit_array_new junk (int n) val) n ys" and "i < n \<Longrightarrow> bit_at ys i = val"
proof -
  have len: "length xs = (n + 7) div 8" "length ys = (n + 7) div 8" by (simp_all add: xs_def ys_def)
  have at: "bit_at ys i = (val \<and> i < n)" if "i < 8 * length xs" for i
  proof (cases "val \<and> n mod 8 \<noteq> 0")
    case True
    then have "bit_at ys i = (bit_at xs i \<and> i < n)"
      using bit_at_masked_all [OF _ len(1) that] by (simp add: ys_def)
    then show ?thesis using bit_at_replicate [of i _ val] that True by (simp add: xs_def)
  next
    case False
    then have "i < n" if val
    proof -
      have "n = 8 * ((n + 7) div 8)" using False that by auto
      then show ?thesis using \<open>i < 8 * length xs\<close> len by simp
    qed
    then show ?thesis using bit_at_replicate [of i _ val] that False by (auto simp: xs_def ys_def)
  qed
  show "i < n \<Longrightarrow> bit_at ys i = val" using at [of i] len by linarith
  define l where "l = (n + 7) div 8"
  have b: "bit_array_new junk (int n) val = bits_store \<lparr>bits_data = ba_uninitialized junk (1 + l)\<rparr>
      (of_nat (8 + 8 * length ys - n) # ys)"
  proof -
    have w: "mem_write (map junk [0..<1 + l]) 1 (replicate l (if val then 0xff else 0)) = junk 0 # xs"
      by (simp add: mem_write_def xs_def l_def upt_conv_Cons del: upt_Suc)
    have d: "ba_bytes (ba_uninitialized junk (1 + l)) = map junk [0..<1 + l]" by simp
    have u: "(junk 0 # xs)[0 := h] = h # xs" for h by simp
    have m: "(h # xs)[1 + n div 8 := (h # xs) ! (1 + n div 8) AND low_mask n]
      = h # xs[n div 8 := xs ! (n div 8) AND low_mask n]" for h by simp
    have c: "(1 + l) * 8 - n = 8 + 8 * length ys - n" by (simp add: len l_def)
    have "\<not> int n \<le> 0" using n by simp
    then show ?thesis
      unfolding bit_array_new_def Let_def nat_int l_def [symmetric] d length_map length_upt diff_zero
        add_diff_cancel_left' w u m c by (simp only: if_False ys_def)
        (simp add: mult.commute split: if_splits)
  qed
  show "bits_view (bit_array_new junk (int n) val) n ys"
    unfolding b using n len at by (intro bits_viewI) auto
qed

lemma bit_array_new_list:
  "bits_ok (bit_array_new junk sz val) \<and> bits_list (bit_array_new junk sz val) = replicate (nat sz) val"
proof (cases "sz \<le> 0")
  case True
  then have "bits_bytes (bit_array_new junk sz val) = []" by (simp add: bit_array_new_def bits_bytes_def)
  moreover have "ba_ok (bits_data (bit_array_new junk sz val))" using True by (simp add: bit_array_new_def)
  ultimately show ?thesis using True by (simp add: bits_ok_def bits_rep_def bits_size_def bits_list_def)
next
  case False
  define n where "n = nat sz"
  have n: "0 < n" "sz = int n" using False by (simp_all add: n_def)
  note W = bit_array_new_view(1) [OF n(1), of junk val, folded n(2)] bit_array_new_view(2) [OF n(1), of _ val]
  show ?thesis
    using bits_ok_view [OF W(1)] bits_list_view [OF W(1)] W(2) n
    by (auto intro!: nth_equalityI)
qed

text \<open>The sizes between which \<open>resize\<close> clears the new bits.\<close>

definition resize_clears :: "nat \<Rightarrow> nat \<Rightarrow> bool" where
  "resize_clears m n \<longleftrightarrow> m = 0 \<or> n \<le> 8 * ((m + 7) div 8) \<or> 8 + 8 * ((m + 7) div 8) < n"

lemma set_length_Cons: "set_length junk (h # xs) (1 + n) = h # set_length (\<lambda>i. junk (1 + i)) xs n"
  by (simp add: set_length_def flip: map_Suc_upt del: upt_Suc)

lemma bit_at_append:
  "bit_at (xs @ ys) i = (if i < 8 * length xs then bit_at xs i else bit_at ys (i - 8 * length xs))"
proof (cases "i < 8 * length xs")
  case False
  then obtain j where "i = 8 * length xs + j" using le_Suc_ex [of "8 * length xs" i] by auto
  then show ?thesis by (simp add: bit_at_def nth_append)
qed (simp add: bit_at_def nth_append)

lemma bit_at_zeros: "i < 8 * k \<Longrightarrow> \<not> bit_at (replicate k 0) i"
  using bit_at_replicate [of i k False] by simp

lemma bit_at_take: "i < 8 * k \<Longrightarrow> bit_at (take k xs) i = bit_at xs i"
  by (simp add: bit_at_def)

lemma bits_data_upd: "b\<lparr>bits_data := d\<rparr> = \<lparr>bits_data = d\<rparr>"
  by (cases b) simp

text \<open>The bits of an operand, padded with \<open>False\<close>.\<close>

definition padded :: "bool list \<Rightarrow> nat \<Rightarrow> bool" where
  "padded bs i \<longleftrightarrow> i < length bs \<and> bs ! i"

lemma nth_pad: "i < n \<Longrightarrow> (take n bs @ replicate (n - length bs) False) ! i = padded bs i"
  by (auto simp: padded_def nth_append min_def)

lemma pad_eq: "(\<And>i. i < n \<Longrightarrow> f i = padded bs i) \<Longrightarrow> map f [0..<n] = take n bs @ replicate (n - length bs) False"
  by (rule nth_equalityI) (simp_all add: nth_pad del: nth_append)

lemma bits_resize_view:
  assumes v: "bits_view b m xs" and n: "0 < n" and safe: "resize_clears m n"
  shows "\<exists>ys. bits_view (bits_resize junk b n) n ys \<and> (\<forall>i < n. bit_at ys i = (i < m \<and> bit_at xs i))"
proof -
  define l l' where "l = length xs" and "l' = (n + 7) div 8"
  have V: "0 < m" "ba_ok (bits_data b)" "l = (m + 7) div 8" "\<exists>h. ba_bytes (bits_data b) = h # xs"
    "\<And>i. m \<le> i \<Longrightarrow> i < 8 * l \<Longrightarrow> \<not> bit_at xs i"
    using v by (auto simp: bits_view_def l_def bits_bytes_def)
  obtain h where h: "ba_bytes (bits_data b) = h # xs" using V(4) by blast
  define d where "d = ba_resize junk (bits_data b) (int (1 + l'))"
  have nd: "nat (int (1 + l')) = 1 + l'" by simp
  have B: "ba_bytes d = h # set_length (\<lambda>i. junk (1 + i)) xs l'"
    unfolding d_def using V(2) by (simp only: ba_bytes_resize nd h set_length_Cons)
  have okd: "ba_ok d" unfolding d_def using V(2) by (rule ba_ok_resize)
  define zs where "zs = set_length (\<lambda>i. junk (1 + i)) xs l'"
  define ys where "ys = (if n > 8 * (1 + l) then xs @ replicate (l' - l) 0
     else if n mod 8 \<noteq> 0 then zs[n div 8 := zs ! (n div 8) AND low_mask n] else zs)"
  have lz: "length zs = l'" by (simp add: zs_def)
  have big: "l \<le> l'" if "n > 8 * (1 + l)" using that by (simp add: l'_def)
  have w: "mem_write (h # zs) (1 + l) (replicate (l' - l) 0) = h # xs @ replicate (l' - l) 0" if "n > 8 * (1 + l)"
    using big [OF that] by (simp add: mem_write_def zs_def l_def set_length_grow)
  have ly: "length ys = l'" using big lz by (auto simp: ys_def l_def)
  have r: "bits_resize junk b n = bits_store \<lparr>bits_data = d\<rparr> (of_nat (8 + 8 * length ys - n) # ys)"
  proof -
    have e: "bits_bytes (b\<lparr>bits_data := d\<rparr>) = h # zs" by (simp add: bits_bytes_def B zs_def)
    have e2: "length (bits_bytes b) = 1 + l" by (simp add: bits_bytes_def h l_def)
    have m: "(h # zs)[1 + n div 8 := (h # zs) ! (1 + n div 8) AND low_mask n]
      = h # zs[n div 8 := zs ! (n div 8) AND low_mask n]" by simp
    have c: "(1 + l') * 8 - n = 8 + 8 * length ys - n" by (simp add: ly)
    have br: "b\<lparr>bits_data := d\<rparr> = \<lparr>bits_data = d\<rparr>" by (cases b) simp
    show ?thesis
      unfolding bits_resize_def Let_def e2 l'_def [symmetric] d_def [symmetric] e m
      using n w lz by (auto simp: br ys_def ly l_def mult.commute)
  qed
  have at: "bit_at ys i = (i < n \<and> i < m \<and> bit_at xs i)" if i: "i < 8 * l'" for i
  proof (cases "n > 8 * (1 + l)")
    case True
    have ll: "l \<le> l'" using big [OF True] .
    have "bit_at ys i = (i < 8 * l \<and> bit_at xs i)"
      using True i ll bit_at_zeros [of "i - 8 * l" "l' - l"] by (auto simp: ys_def bit_at_append l_def [symmetric])
    moreover have "i < 8 * l \<Longrightarrow> i < n" using True by simp
    moreover have "i < m \<Longrightarrow> i < 8 * l" using V(3) by linarith
    ultimately show ?thesis using V(5) by (meson not_le)
  next
    case False
    then have nl: "n \<le> 8 * l" using safe V(1) unfolding resize_clears_def V(3) [symmetric] by auto
    then have ll: "l' \<le> l" by (simp add: l'_def)
    have z: "bit_at zs i = bit_at xs i"
      using ll i by (simp add: zs_def l_def set_length_shrink bit_at_take)
    have "bit_at ys i = (bit_at zs i \<and> i < n)"
    proof (cases "n mod 8 = 0")
      case True
      then have "i < n" using i by (auto simp: l'_def)
      then show ?thesis using False True by (simp add: ys_def)
    next
      case m: False
      then show ?thesis using False bit_at_masked_all [OF m, of zs i] i lz by (simp add: ys_def l'_def)
    qed
    moreover have "bit_at xs i \<Longrightarrow> i < n \<Longrightarrow> i < m" using V(5) nl by (meson not_le order_less_le_trans)
    ultimately show ?thesis using z by blast
  qed
  have "bits_view (bits_resize junk b n) n ys"
    unfolding r using n ly okd at by (intro bits_viewI) (auto simp: l'_def)
  moreover have "\<forall>i < n. bit_at ys i = (i < m \<and> bit_at xs i)" using at by (auto simp: l'_def)
  ultimately show ?thesis by blast
qed

lemma bits_resize_empty_view:
  assumes e: "bits_bytes b = []" and ok: "ba_ok (bits_data b)" and n: "0 < n"
  shows "\<exists>ys. bits_view (bits_resize junk b n) n ys \<and> (\<forall>i < n. \<not> bit_at ys i)"
proof -
  define l where "l = (n + 7) div 8"
  define d where "d = ba_resize junk (bits_data b) (int (1 + l))"
  have nd: "nat (int (1 + l)) = 1 + l" by simp
  have "length (ba_bytes d) = 1 + l" unfolding d_def using ok by (simp only: ba_bytes_resize nd length_set_length)
  moreover note br = bits_data_upd [of d b]
  ultimately have r: "bits_resize junk b n = bits_store \<lparr>bits_data = d\<rparr>
      (of_nat (8 + 8 * length (replicate l (0 :: byte)) - n) # replicate l 0)"
    using n e unfolding bits_resize_def Let_def l_def [symmetric] d_def [symmetric]
    by (simp add: br bits_bytes_def mem_write_def mult.commute)
  have "ba_ok d" unfolding d_def using ok by (rule ba_ok_resize)
  then have "bits_view (bits_resize junk b n) n (replicate l 0)"
    unfolding r using n bit_at_zeros [of _ l] by (intro bits_viewI) (auto simp: l_def)
  moreover have "\<not> bit_at (replicate l 0) i" if "i < n" for i
  proof (rule bit_at_zeros)
    show "i < 8 * l" using that unfolding l_def by linarith
  qed
  ultimately show ?thesis by blast
qed

lemma bits_ok_length: "bits_ok b \<Longrightarrow> bits_size b = int (length (bits_list b))"
  by (simp add: bits_ok_def bits_list_def)

lemma bits_resize_list:
  assumes ok: "bits_ok b" and safe: "resize_clears (length (bits_list b)) n"
  shows "bits_ok (bits_resize junk b n)
    \<and> bits_list (bits_resize junk b n) = take n (bits_list b) @ replicate (n - length (bits_list b)) False"
proof (cases "n = 0")
  case True
  have "ba_ok (bits_data b)" using ok by (simp add: bits_ok_def)
  then show ?thesis
    using True by (simp add: bits_resize_def bits_ok_def bits_rep_def bits_size_def bits_bytes_def bits_list_def set_length_shrink)
next
  case False
  then have n: "0 < n" by simp
  from ok show ?thesis
  proof (cases rule: bits_ok_cases)
    case empty
    then obtain ys where "bits_view (bits_resize junk b n) n ys" "\<forall>i < n. \<not> bit_at ys i"
      using bits_resize_empty_view [of b n junk] n ok by (auto simp: bits_ok_def)
    then show ?thesis
      using bits_ok_view [of "bits_resize junk b n" n ys] bits_list_view [of "bits_resize junk b n" n ys]
        pad_eq [of n "bit_at ys" "bits_list b"] bits_list_empty [OF empty(1)]
      by (auto simp: padded_def)
  next
    case (view m xs)
    then have m: "length (bits_list b) = m" by (simp add: bits_list_view)
    obtain ys where "bits_view (bits_resize junk b n) n ys" "\<forall>i < n. bit_at ys i = (i < m \<and> bit_at xs i)"
      using bits_resize_view [OF view n, of junk] safe m by auto
    moreover from this have "map (bit_at ys) [0..<n] = take n (bits_list b) @ replicate (n - length (bits_list b)) False"
      by (intro pad_eq) (auto simp: bits_list_view [OF view] padded_def)
    ultimately show ?thesis
      using bits_ok_view [of "bits_resize junk b n" n ys] bits_list_view [of "bits_resize junk b n" n ys] by simp
  qed
qed

section \<open>Boolean operations\<close>

lemma length_zip_bytes [simp]: "length (zip_bytes f xs ys) = length xs"
  by (induction f xs ys rule: zip_bytes.induct) auto

lemma nth_zip_bytes: "k < length xs \<Longrightarrow> zip_bytes f xs ys ! k = (if k < length ys then f (xs ! k) (ys ! k) else xs ! k)"
proof (induction f xs ys arbitrary: k rule: zip_bytes.induct)
  case (1 f x xs y ys)
  then show ?case by (cases k) auto
qed auto

lemma bit_at_zip:
  assumes "i < 8 * length xs" "\<And>x y. \<forall>j < 8. bit (f x y) j = g (bit x j) (bit y j)"
  shows "bit_at (zip_bytes f xs ys) i = (if i < 8 * length ys then g (bit_at xs i) (bit_at ys i) else bit_at xs i)"
proof -
  have "i div 8 < length xs" using assms(1) by simp
  moreover have "(i div 8 < length ys) = (i < 8 * length ys)" by auto
  ultimately show ?thesis using assms(2) by (simp add: bit_at_def nth_zip_bytes)
qed

lemma bits_rebuild:
  assumes v: "bits_view b n xs" and l: "length ys = length xs"
    and z: "\<And>i. n \<le> i \<Longrightarrow> i < 8 * length xs \<Longrightarrow> \<not> bit_at ys i"
  shows "bits_view (bits_store b (take 1 (bits_bytes b) @ ys)) n ys"
proof -
  have V: "0 < n" "ba_ok (bits_data b)" "length xs = (n + 7) div 8"
    "bits_bytes b = of_nat (8 + 8 * length xs - n) # xs"
    using v by (auto simp: bits_view_def)
  show ?thesis using bits_viewI [OF V(2,1), of ys "of_nat (8 + 8 * length xs - n)"] V l z by simp
qed

lemma padded_view: "bits_view b n xs \<Longrightarrow> i < 8 * length xs \<Longrightarrow> padded (bits_list b) i = bit_at xs i"
  unfolding bits_list_view padded_def by (cases "i < n") (auto simp: bits_view_def)

lemma padded_bytes:
  assumes "bits_ok b"
  shows "padded (bits_list b) i = (i < 8 * length (tl (bits_bytes b)) \<and> bit_at (tl (bits_bytes b)) i)"
  using assms
proof (cases rule: bits_ok_cases)
  case (view n xs)
  then have t: "tl (bits_bytes b) = xs" "length xs = (n + 7) div 8" by (auto simp: bits_view_def)
  have "\<not> i < 8 * length xs \<Longrightarrow> \<not> i < n" using t by linarith
  then show ?thesis using padded_view [OF view, of i] view unfolding t(1) by (auto simp: padded_def bits_list_view)
qed (simp add: bits_list_empty padded_def)

lemma bits_assign_or_xor:
  assumes ok: "bits_ok b" "bits_ok c"
    and m: "m = max (length (bits_list b)) (length (bits_list c))" and safe: "resize_clears (length (bits_list b)) m"
    and f: "\<And>x y. \<forall>j < 8. bit (f x y :: byte) j = g (bit x j) (bit y j)" and g: "g False False = False" "\<And>p. g p False = p"
    and r: "r = (let b = bits_resize junk b (nat (max (bits_size b) (bits_size c)))
      in bits_store b (take 1 (bits_bytes b) @ zip_bytes f (tl (bits_bytes b)) (tl (bits_bytes c))))"
  shows "bits_ok r \<and> bits_list r = map (\<lambda>i. g (padded (bits_list b) i) (padded (bits_list c) i)) [0..<m]"
proof -
  have mm: "nat (max (bits_size b) (bits_size c)) = m" by (simp add: bits_ok_length [OF ok(1)] bits_ok_length [OF ok(2)] m flip: of_nat_max)
  define b' where "b' = bits_resize junk b m"
  have R: "bits_ok b'" "bits_list b' = take m (bits_list b) @ replicate (m - length (bits_list b)) False"
    using bits_resize_list [OF ok(1) safe] by (simp_all add: b'_def)
  have pb: "padded (bits_list b') i = padded (bits_list b) i" for i
    by (auto simp: R(2) padded_def nth_append m)
  have rr: "r = bits_store b' (take 1 (bits_bytes b') @ zip_bytes f (tl (bits_bytes b')) (tl (bits_bytes c)))"
    by (simp add: r mm b'_def Let_def)
  from R(1) show ?thesis
  proof (cases rule: bits_ok_cases)
    case empty
    then have "m = 0" using R(2) bits_list_empty [OF empty(1)] by (auto simp: m)
    then show ?thesis
      using empty ba_ok_store [of b' "[]"] R(1)
      by (simp add: rr bits_ok_def bits_size_def bits_rep_def bits_list_def)
  next
    case (view n xs)
    have "length (bits_list b') = m" by (simp add: R(2) m)
    then have nm: "n = m" using view by (simp add: bits_list_view)
    have t: "tl (bits_bytes b') = xs" using view by (simp add: bits_view_def)
    define ys where "ys = zip_bytes f xs (tl (bits_bytes c))"
    have at: "bit_at ys i = g (padded (bits_list b) i) (padded (bits_list c) i)" if i: "i < 8 * length xs" for i
      using bit_at_zip [of i xs f g "tl (bits_bytes c)", OF i f] padded_bytes [OF ok(2), of i] padded_view [OF view i] g pb [of i]
      by (auto simp: ys_def)
    have len: "length xs = (n + 7) div 8" using view by (simp add: bits_view_def)
    have W: "bits_view r n ys"
      unfolding rr t ys_def [symmetric]
    proof (rule bits_rebuild [OF view])
      fix i assume "n \<le> i" "i < 8 * length xs"
      then show "\<not> bit_at ys i" using at [of i] g(1) by (simp add: nm m padded_def)
    qed (simp add: ys_def)
    have "i < 8 * length xs" if "i < n" for i using that len by linarith
    then show ?thesis using bits_ok_view [OF W] bits_list_view [OF W] at nm by auto
  qed
qed

lemma bits_assign_and:
  assumes ok: "bits_ok b" "bits_ok c"
    and m: "m = max (length (bits_list b)) (length (bits_list c))" and safe: "resize_clears (length (bits_list b)) m"
  shows "bits_ok (bits_and_assign junk b c)
    \<and> bits_list (bits_and_assign junk b c) = map (\<lambda>i. padded (bits_list b) i \<and> padded (bits_list c) i) [0..<m]"
proof -
  have mm: "nat (max (bits_size b) (bits_size c)) = m"
    by (simp add: bits_ok_length [OF ok(1)] bits_ok_length [OF ok(2)] m flip: of_nat_max)
  define b' where "b' = bits_resize junk b m"
  have R: "bits_ok b'" "bits_list b' = take m (bits_list b) @ replicate (m - length (bits_list b)) False"
    using bits_resize_list [OF ok(1) safe] by (simp_all add: b'_def)
  have pb: "padded (bits_list b') i = padded (bits_list b) i" for i
    by (auto simp: R(2) padded_def nth_append m)
  define data2 where "data2 = tl (bits_bytes c)"
  have rr: "bits_and_assign junk b c = bits_store b' (take 1 (bits_bytes b')
      @ zip_bytes (AND) (take (length data2) (tl (bits_bytes b'))) data2
      @ replicate (length (tl (bits_bytes b')) - length data2) 0)"
    by (simp add: bits_and_assign_def mm b'_def data2_def Let_def)
  from R(1) show ?thesis
  proof (cases rule: bits_ok_cases)
    case empty
    then have "m = 0" using R(2) bits_list_empty [OF empty(1)] by (auto simp: m)
    then show ?thesis
      using empty ba_ok_store [of b' "[]"] R(1)
      by (simp add: rr bits_ok_def bits_size_def bits_rep_def bits_list_def)
  next
    case (view n xs)
    have "length (bits_list b') = m" by (simp add: R(2) m)
    then have nm: "n = m" using view by (simp add: bits_list_view)
    have t: "tl (bits_bytes b') = xs" using view by (simp add: bits_view_def)
    define zs where "zs = zip_bytes (AND) (take (length data2) xs) data2"
    define ys where "ys = zs @ replicate (length xs - length data2) 0"
    have lz: "length zs = min (length data2) (length xs)" by (simp add: zs_def)
    have ly: "length ys = length xs" by (simp add: ys_def lz)
    have at: "bit_at ys i = (padded (bits_list b) i \<and> padded (bits_list c) i)" if i: "i < 8 * length xs" for i
    proof (cases "i < 8 * length data2")
      case True
      then have "i < 8 * length (take (length data2) xs)" using i by simp
      then have "bit_at zs i = (bit_at xs i \<and> bit_at data2 i)"
        using bit_at_zip [of i "take (length data2) xs" "(AND)" "(\<and>)" data2] True bit_at_take [OF True, of xs]
        by (simp add: zs_def bit_and_iff)
      moreover have "i < 8 * length zs" using True i lz by (simp add: min_def)
      then have "bit_at ys i = bit_at zs i" by (simp add: ys_def bit_at_append)
      moreover have "padded (bits_list c) i = bit_at data2 i"
        using padded_bytes [OF ok(2), of i] True by (simp add: data2_def)
      ultimately show ?thesis using padded_view [OF view i] pb [of i] by simp
    next
      case False
      then have "\<not> padded (bits_list c) i" using padded_bytes [OF ok(2), of i] by (simp add: data2_def)
      moreover have "\<not> bit_at ys i"
        using False i bit_at_zeros [of "i - 8 * length zs" "length xs - length data2"]
        by (auto simp: ys_def bit_at_append lz min_def split: if_splits)
      ultimately show ?thesis by simp
    qed
    have len: "length xs = (n + 7) div 8" using view by (simp add: bits_view_def)
    have W: "bits_view (bits_and_assign junk b c) n ys"
      unfolding rr t zs_def [symmetric] ys_def [symmetric]
    proof (rule bits_rebuild [OF view ly])
      fix i assume "n \<le> i" "i < 8 * length xs"
      then show "\<not> bit_at ys i" using at [of i] by (simp add: nm m padded_def)
    qed
    have "i < 8 * length xs" if "i < n" for i using that len by linarith
    then show ?thesis using bits_ok_view [OF W] bits_list_view [OF W] at nm by auto
  qed
qed

lemma bits_not_list:
  assumes ok: "bits_ok b"
  shows "bits_ok (bits_not junk b) \<and> bits_list (bits_not junk b) = map Not (bits_list b)"
  using ok
proof (cases rule: bits_ok_cases)
  case empty
  then have z: "bits_bytes (bit_array_new junk 0 False) = []" by (simp add: bit_array_new_def bits_bytes_def)
  have "ba_ok (bits_data (bit_array_new junk 0 False))" by (simp add: bit_array_new_def)
  then show ?thesis
    using empty z ba_ok_store [of "bit_array_new junk 0 False" "[]"]
    by (simp add: bits_not_def Let_def bits_ok_def bits_size_def bits_rep_def bits_list_def)
next
  case (view n xs)
  have V: "0 < n" "length xs = (n + 7) div 8" "tl (bits_bytes b) = xs" using view by (auto simp: bits_view_def)
  have sz: "bits_size b = int n" using view by (rule bits_size_view)
  obtain zs where N: "bits_view (bit_array_new junk (int n) False) n zs"
    using bit_array_new_view(1) [OF V(1), of junk False] by blast
  have lz: "length zs = length xs" using N V(2) by (simp add: bits_view_def)
  define ys where "ys = (if n mod 8 \<noteq> 0 then (map NOT xs)[n div 8 := map NOT xs ! (n div 8) AND low_mask n] else map NOT xs)"
  have ne: "xs \<noteq> []" using V(1,2) by auto
  have at0: "bit_at (map NOT xs) i = (\<not> bit_at xs i)" if "i < 8 * length xs" for i
    using that by (simp add: bit_at_def bit_not_iff)
  have at: "bit_at ys i = (i < n \<and> \<not> bit_at xs i)" if i: "i < 8 * length xs" for i
  proof (cases "n mod 8 = 0")
    case True
    then have "i < n" using i V(2) by auto
    then show ?thesis using True at0 [OF i] by (simp add: ys_def)
  next
    case False
    then show ?thesis using bit_at_masked_all [OF False, of "map NOT xs" i] i V(2) at0 [OF i] by (auto simp: ys_def)
  qed
  have li: "length xs - 1 = n div 8" if "n mod 8 \<noteq> 0"
  proof -
    have "(n mod 8 + 7) div 8 = 1" using that by (intro div_nat_eqI) auto
    then show ?thesis using V(2) div_add1_eq [of n 7 8] by simp
  qed
  have r: "bits_not junk b = bits_store (bit_array_new junk (int n) False)
      (take 1 (bits_bytes (bit_array_new junk (int n) False)) @ ys)"
    using V(1) ne li unfolding bits_not_def Let_def sz V(3) nat_int
    by (auto simp: ys_def last_map last_conv_nth)
  have W: "bits_view (bits_not junk b) n ys"
    unfolding r
  proof (rule bits_rebuild [OF N])
    show "length ys = length zs" by (simp add: ys_def lz)
  qed (use at lz in simp)
  have "i < 8 * length xs" if "i < n" for i using that V(2) by linarith
  then show ?thesis
    using bits_ok_view [OF W] bits_list_view [OF W] bits_list_view [OF view] at by auto
qed

section \<open>Counting\<close>

lemma bit_horner:
  "length ys * 8 \<le> LENGTH('a::len) \<Longrightarrow> 8 \<le> LENGTH('a) \<Longrightarrow>
   bit (horner_sum ucast (2 ^ 8) (ys :: byte list) :: 'a word) i = (i < 8 * length ys \<and> bit_at ys i)"
proof (induction ys arbitrary: i)
  case (Cons y ys)
  let ?h = "horner_sum ucast (2 ^ 8) ys :: 'a word"
  have "(ucast y :: 'a word) AND push_bit 8 ?h = 0"
    by (rule bit_word_eqI) (auto simp: bit_and_iff bit_ucast_iff bit_push_bit_iff dest: bit_imp_le_length)
  then have "(ucast y :: 'a word) + push_bit 8 ?h = ucast y OR push_bit 8 ?h" by (rule disjunctive_add_eq_or)
  then have e: "(horner_sum ucast (2 ^ 8) (y # ys) :: 'a word) = ucast y OR push_bit 8 ?h"
    by (simp add: push_bit_eq_mult mult.commute)
  show ?case
  proof (cases "i < 8")
    case True
    then show ?thesis using Cons.prems unfolding e by (auto simp: bit_or_iff bit_ucast_iff bit_push_bit_iff bit_at_def)
  next
    case False
    then obtain j where j: "i = 8 + j" using le_Suc_ex by (metis not_le)
    have "\<not> bit y i" using False bit_imp_le_length [of y i] by auto
    then have "bit (horner_sum ucast (2 ^ 8) (y # ys) :: 'a word) i = (i < LENGTH('a) \<and> bit ?h j)"
      unfolding e by (auto simp: bit_or_iff bit_ucast_iff bit_push_bit_iff j)
    also have "bit ?h j = (j < 8 * length ys \<and> bit_at ys j)" using Cons by simp
    finally have "bit (horner_sum ucast (2 ^ 8) (y # ys) :: 'a word) i = (i < LENGTH('a) \<and> j < 8 * length ys \<and> bit_at ys j)" .
    moreover have "bit_at (y # ys) i = bit_at ys j"
    proof -
      have "(8 + j) div 8 = Suc (j div 8)" "(8 + j) mod 8 = j mod 8" by simp_all
      then show ?thesis by (simp add: j bit_at_def)
    qed
    ultimately show ?thesis using Cons.prems by (auto simp: j)
  qed
qed (simp add: bit_at_def)

lemma ones_read:
  assumes "k * 8 \<le> LENGTH('a::len)" "8 \<le> LENGTH('a)" "p + k \<le> length cells"
  shows "ones (bit (horner_sum ucast (2 ^ 8) (take k (drop p cells)) :: 'a word)) (8 * k) = ones (\<lambda>i. bit_at cells (8 * p + i)) (8 * k)"
proof (rule ones_cong)
  fix i assume i: "i < 8 * k"
  have "length (take k (drop p cells)) = k" using assms(3) by simp
  then show "bit (horner_sum ucast (2 ^ 8) (take k (drop p cells)) :: 'a word) i = bit_at cells (8 * p + i)"
    using bit_horner [where 'a='a, of "take k (drop p cells)" i] assms i by (simp add: bit_at_def)
qed

lemma uint_population_count:
  "uint (population_count8 a) = int (ones (bit a) 8)" "uint (population_count16 b) = int (ones (bit b) 16)"
  "uint (population_count32 c) = int (ones (bit c) 32)" "uint (population_count64 d) = int (ones (bit d) 64)"
  by (simp_all only: uint_nat population_count8_ones population_count16_ones population_count32_ones population_count64_ones)

lemma ones_step:
  "ones f (8 * (p + k)) = ones f (8 * p) + ones (\<lambda>i. f (8 * p + i)) (8 * k)"
  using ones_add [of f "8 * p" "8 * k"] by (simp add: algebra_simps)

lemma count_words_spec:
  assumes "length cells = end_pos + 1" "p \<le> end_pos + 1" "numBits = int (ones (bit_at cells) (8 * p))"
  shows "\<exists>p'. count_words cells p end_pos numBits = (p', int (ones (bit_at cells) (8 * p')))
    \<and> p' \<le> end_pos + 1 \<and> end_pos < p' + 7"
  using assms
proof (induction cells p end_pos numBits rule: count_words.induct)
  case (1 cells p end_pos numBits)
  show ?case
  proof (cases "p + 7 \<le> end_pos")
    case True
    have "int (ones (bit_at cells) (8 * (p + 8))) = numBits + uint (population_count64 (read_le64 (drop p cells)))"
      using ones_read [where 'a=64, of 8 p cells] ones_step [of "bit_at cells" p 8] True "1.prems"
      by (simp add: uint_population_count read_le64_def)
    then show ?thesis using "1.IH" [OF True] "1.prems" True by (simp add: count_words.simps [of cells p])
  qed (use "1.prems" in \<open>simp add: count_words.simps [of cells p]\<close>)
qed

lemma bits_count_view:
  assumes v: "bits_view b n xs"
  shows "bits_count b True = int (ones (bit_at xs) n)"
proof -
  define E where "E = length xs"
  define cells where "cells = xs @ [0 :: byte]"
  have V: "E = (n + 7) div 8" "\<And>i. n \<le> i \<Longrightarrow> i < 8 * E \<Longrightarrow> \<not> bit_at xs i"
    "\<exists>h. bits_bytes b = h # xs" using v by (auto simp: bits_view_def E_def)
  have E: "length cells = E + 1" by (simp add: cells_def E_def)
  let ?S = "\<lambda>k. int (ones (bit_at cells) (8 * k))"
  obtain p where p: "count_words cells 0 E 0 = (p, ?S p)" "p \<le> E + 1" "E < p + 7"
    using count_words_spec [OF E, of 0 0] by auto
  define q where "q = (if p + 3 \<le> E then p + 4 else p)"
  have 1: "(if p + 3 \<le> E then (p + 4, ?S p + uint (population_count32 (read_le32 (drop p cells)))) else (p, ?S p)) = (q, ?S q)"
    using ones_read [where 'a=32, of 4 p cells] ones_step [of "bit_at cells" p 4] E
    by (auto simp: q_def uint_population_count read_le32_def)
  define r where "r = (if q + 1 < E then q + 2 else q)"
  have q: "q \<le> E + 1" "E < q + 3" using p by (auto simp: q_def)
  have 2: "(if q + 1 < E then (q + 2, ?S q + uint (population_count16 (read_le16 (drop q cells)))) else (q, ?S q)) = (r, ?S r)"
    using ones_read [where 'a=16, of 2 q cells] ones_step [of "bit_at cells" q 2] E
    by (auto simp: r_def uint_population_count read_le16_def)
  have r: "r \<le> E + 1" "E \<le> r + 1" using q by (auto simp: r_def)
  define t where "t = (if r < E then r + 1 else r)"
  have 3: "(if r < E then ?S r + uint (population_count8 (cells ! r)) else ?S r) = ?S t"
  proof -
    have "ones (bit (cells ! r)) 8 = ones (\<lambda>i. bit_at cells (8 * r + i)) 8"
      by (rule ones_cong) (simp add: bit_at_def)
    then show ?thesis using ones_step [of "bit_at cells" r 1] by (simp add: t_def uint_population_count)
  qed
  have t: "t \<le> E + 1" "E \<le> t" using r by (auto simp: t_def)
  have c: "bits_count b True = ?S t"
  proof -
    obtain h where h: "bits_bytes b = h # xs" using V(3) by blast
    show ?thesis
      unfolding bits_count_def h list.sel length_Cons diff_Suc_1 cells_def [symmetric] E_def [symmetric] Let_def
        p(1) prod.case 1 2 3 by simp
  qed
  have "ones (bit_at cells) (8 * t) = ones (bit_at cells) n"
  proof (rule ones_ge)
    show "n \<le> 8 * t" using t V(1) by linarith
    fix i assume i: "n \<le> i" "i < 8 * t"
    show "\<not> bit_at cells i"
    proof (cases "i < 8 * E")
      case True
      then show ?thesis using V(2) i by (simp add: cells_def bit_at_append E_def)
    next
      case False
      then show ?thesis using i t bit_at_zeros [of "i - 8 * E" 1] by (simp add: cells_def bit_at_append E_def)
    qed
  qed
  moreover have "ones (bit_at cells) n = ones (bit_at xs) n"
  proof (rule ones_cong)
    fix i assume "i < n"
    then have "i < 8 * length xs" using V(1) unfolding E_def by linarith
    then show "bit_at cells i = bit_at xs i" by (simp add: cells_def bit_at_append)
  qed
  ultimately show ?thesis using c by simp
qed

lemma ones_filter: "ones f n = length (filter f [0..<n])"
  by (induction n) auto

lemma bits_count_list:
  assumes "bits_ok b"
  shows "bits_count b on = int (length (filter (\<lambda>x. x = on) (bits_list b)))"
  using assms
proof (cases rule: bits_ok_cases)
  case empty
  then have "bits_count b True = 0" by (simp add: bits_count_def count_words.simps)
  then show ?thesis using empty bits_list_empty [OF empty(1)] by (cases on) (simp_all add: bits_count_def Let_def split: prod.splits)
next
  case (view n xs)
  have t: "bits_count b True = int (length (filter (\<lambda>x. x) (bits_list b)))"
    using bits_count_view [OF view] by (simp add: bits_list_view [OF view] ones_filter filter_map o_def)
  have "bits_count b False = bits_size b - bits_count b True"
    by (simp add: bits_count_def Let_def split: prod.splits)
  moreover have "length (filter (\<lambda>x. x) (bits_list b)) + length (filter (\<lambda>x. \<not> x) (bits_list b)) = length (bits_list b)"
    by (rule sum_length_filter_compl)
  ultimately show ?thesis using t bits_ok_length [OF assms] by (cases on) (simp_all add: algebra_simps)
qed

section \<open>Filling a range\<close>

definition set_range :: "bool list \<Rightarrow> nat \<Rightarrow> nat \<Rightarrow> bool \<Rightarrow> bool list" where
  "set_range bs i k val = map (\<lambda>j. if i \<le> j \<and> j < k then val else bs ! j) [0..<length bs]"

lemma set_range_none [simp]: "k \<le> i \<Longrightarrow> set_range bs i k val = bs"
  by (rule nth_equalityI) (auto simp: set_range_def)

lemma set_range_step: "i < k \<Longrightarrow> set_range (bs[i := val]) (i + 1) k val = set_range bs i k val"
  by (rule nth_equalityI) (auto simp: set_range_def nth_list_update)

lemma set_range_join: "i \<le> j \<Longrightarrow> j \<le> k \<Longrightarrow> set_range (set_range bs i j val) j k val = set_range bs i k val"
  by (rule nth_equalityI) (auto simp: set_range_def)

lemma length_set_range [simp]: "length (set_range bs i k val) = length bs"
  by (simp add: set_range_def)

lemma fill_bits_list:
  assumes "bits_ok b" "stop \<le> length (bits_list b)"
  shows "bits_ok (fill_bits b val i stop) \<and> bits_list (fill_bits b val i stop) = set_range (bits_list b) i stop val"
  using assms
proof (induction b val i stop rule: fill_bits.induct)
  case (1 b val i stop)
  show ?case
  proof (cases "i < stop")
    case True
    then have "bits_ok (set_bit_to b i val)" "bits_list (set_bit_to b i val) = (bits_list b)[i := val]"
      using set_bit_list [of b i val] "1.prems" by auto
    then show ?thesis using "1.IH" [OF True] "1.prems" True by (subst (1 2) fill_bits.simps) (simp add: set_range_step [simplified])
  qed (use "1.prems" in \<open>simp add: fill_bits.simps [of b]\<close>)
qed

lemma fill_aligned_list:
  assumes "bits_ok b" "stop \<le> length (bits_list b)" "i \<le> stop"
  shows "\<exists>b' i'. fill_aligned b val i stop = (b', i') \<and> bits_ok b' \<and> i \<le> i' \<and> i' \<le> stop
    \<and> (i' < stop \<longrightarrow> i' mod 8 = 0) \<and> bits_list b' = set_range (bits_list b) i i' val"
  using assms
proof (induction b val i stop rule: fill_aligned.induct)
  case (1 b val i stop)
  show ?case
  proof (cases "i < stop \<and> i mod 8 \<noteq> 0")
    case True
    then have "bits_ok (set_bit_to b i val)" "bits_list (set_bit_to b i val) = (bits_list b)[i := val]"
      using set_bit_list [of b i val] "1.prems" by auto
    moreover from this have "\<exists>b' i'. fill_aligned (set_bit_to b i val) val (i + 1) stop = (b', i') \<and> bits_ok b'
        \<and> i + 1 \<le> i' \<and> i' \<le> stop \<and> (i' < stop \<longrightarrow> i' mod 8 = 0)
        \<and> bits_list b' = set_range (bits_list (set_bit_to b i val)) (i + 1) i' val"
      using "1.IH" [OF True] "1.prems" True by simp
    ultimately obtain b' i' where f: "fill_aligned (set_bit_to b i val) val (i + 1) stop = (b', i')" "bits_ok b'"
        "i + 1 \<le> i'" "i' \<le> stop" "i' < stop \<longrightarrow> i' mod 8 = 0"
        "bits_list b' = set_range ((bits_list b)[i := val]) (i + 1) i' val"
      by auto
    have "fill_aligned b val i stop = (b', i')"
      using f(1) True by (subst fill_aligned.simps) simp
    moreover have "bits_list b' = set_range (bits_list b) i i' val"
      using f(3,6) set_range_step [of i i' "bits_list b" val] by simp
    ultimately show ?thesis using f by auto
  qed (use "1.prems" in \<open>auto simp: fill_aligned.simps [of b]\<close>)
qed

lemma bits_fill_range_list:
  assumes ok: "bits_ok b" and l: "i \<le> stop" "stop \<le> length (bits_list b)"
  shows "bits_ok (bits_fill_range b val i stop)
    \<and> bits_list (bits_fill_range b val i stop) = set_range (bits_list b) i stop val"
proof -
  obtain b1 j where f: "fill_aligned b val i stop = (b1, j)" "bits_ok b1" "i \<le> j" "j \<le> stop"
      "j < stop \<longrightarrow> j mod 8 = 0" "bits_list b1 = set_range (bits_list b) i j val"
    using fill_aligned_list [OF ok l(2) l(1), of val] by (elim exE conjE) (rule that)
  show ?thesis
  proof (cases "j < stop")
    case False
    then have "j = stop" using f(4) by simp
    then show ?thesis using f by (simp add: bits_fill_range_def)
  next
    case True
    define K where "K = (stop - j) div 8"
    define J where "J = j div 8"
    have j8: "j = 8 * J" using True f(5) by (auto simp: J_def)
    have KJ: "8 * (J + K) \<le> stop" using True by (simp add: K_def j8)
    from f(2) show ?thesis
    proof (cases rule: bits_ok_cases)
      case empty
      then have "length (bits_list b) = 0" using f(6) bits_list_empty [OF empty(1)] by (metis length_set_range list.size(3))
      then show ?thesis using True l by simp
    next
      case (view n xs)
      have len: "length (bits_list b) = n" using f(6) bits_list_view [OF view] by (metis length_set_range length_map length_upt diff_zero)
      have V: "0 < n" "length xs = (n + 7) div 8" "bits_bytes b1 = of_nat (8 + 8 * length xs - n) # xs"
        "\<And>i. n \<le> i \<Longrightarrow> i < 8 * length xs \<Longrightarrow> \<not> bit_at xs i"
        using view by (auto simp: bits_view_def)
      have n8: "n \<le> 8 * length xs" using V(2) by linarith
      define c where "c = (if val then 0xff else (0 :: byte))"
      define ys where "ys = mem_write xs J (replicate K c)"
      have "8 * (J + K) \<le> 8 * length xs" using KJ l(2) len n8 by linarith
      then have fit: "J + K \<le> length xs" by simp
      then have ly: "length ys = length xs" by (simp add: ys_def)
      have at: "bit_at ys k = (if 8 * J \<le> k \<and> k < 8 * (J + K) then val else bit_at xs k)" if k: "k < 8 * length xs" for k
      proof -
        have kl: "k div 8 < length xs" using k by simp
        have "ys ! (k div 8) = (if J \<le> k div 8 \<and> k div 8 < J + K then c else xs ! (k div 8))"
          using nth_mem_write [of J "replicate K c" xs, OF _ kl] fit unfolding ys_def
          by (cases "J \<le> k div 8 \<and> k div 8 < J + K") auto
        moreover have "(J \<le> k div 8) = (8 * J \<le> k)" "(k div 8 < J + K) = (k < 8 * (J + K))"
          using less_eq_div_iff_mult_less_eq [of 8 J k] div_less_iff_less_mult [of 8 k "J + K"]
          by (simp_all only: mult.commute zero_less_numeral)
        moreover have "bit c (k mod 8) = val"
          using bit_at_replicate [of "k mod 8" 1 val] by (simp add: c_def bit_at_def)
        ultimately show ?thesis by (simp add: bit_at_def)
      qed
      define b2 where "b2 = bits_store b1 (mem_write (bits_bytes b1) (1 + J) (replicate K c))"
      have w: "mem_write (h # xs) (1 + J) (replicate K c) = h # ys" for h
        by (simp add: mem_write_def ys_def)
      have b2: "b2 = bits_store b1 (take 1 (bits_bytes b1) @ ys)" by (simp add: b2_def V(3) w [simplified])
      have W: "bits_view b2 n ys"
        unfolding b2
      proof (rule bits_rebuild [OF view ly])
        fix k assume "n \<le> k" "k < 8 * length xs"
        then show "\<not> bit_at ys k" using at [of k] V(4) KJ l(2) len by auto
      qed
      have L2: "bits_list b2 = set_range (bits_list b1) j (8 * (J + K)) val"
        unfolding bits_list_view [OF W] bits_list_view [OF view]
        using at n8 by (intro nth_equalityI) (auto simp: set_range_def j8)
      have jk: "j + K * 8 = 8 * (J + K)" by (simp add: j8)
      have "bits_fill_range b val i stop = fill_bits b2 val (8 * (J + K)) stop"
        using True unfolding bits_fill_range_def f(1) Let_def prod.case
        by (simp add: K_def [symmetric] J_def [symmetric] jk b2_def c_def)
      moreover have "bits_ok b2" using W by (rule bits_ok_view)
      moreover have "length (bits_list b2) = n" using bits_list_view [OF W] by simp
      ultimately show ?thesis
        using fill_bits_list [of b2 stop val "8 * (J + K)"] l len L2 f(3,6) KJ
          set_range_join [of i j "8 * (J + K)" "bits_list b" val] set_range_join [of i "8 * (J + K)" stop "bits_list b" val] j8
        by simp
    qed
  qed
qed

section \<open>Equality\<close>

lemma bytes_eq_bits:
  assumes "length xs = length ys" "\<And>i. i < 8 * length xs \<Longrightarrow> bit_at xs i = bit_at ys i"
  shows "xs = ys"
proof (rule nth_equalityI [OF assms(1)])
  fix k assume k: "k < length xs"
  show "xs ! k = ys ! k"
  proof (rule bit_word_eqI)
    fix j assume "j < LENGTH(8)"
    then show "bit (xs ! k) j = bit (ys ! k) j"
      using assms(2) [of "8 * k + j"] k by (simp add: bit_at_def)
  qed
qed

lemma bits_bytes_view: "bits_view b n xs \<Longrightarrow> bits_bytes b = of_nat (8 + 8 * length xs - n) # xs"
  by (simp add: bits_view_def)

lemma bits_list_Nil_iff: "bits_ok b \<Longrightarrow> bits_list b = [] \<longleftrightarrow> bits_bytes b = []"
proof (erule bits_ok_cases)
  show "bits_list b = [] \<longleftrightarrow> bits_bytes b = []" if "bits_view b n xs" for n xs
    using bits_list_view [OF that] bits_bytes_view [OF that] that by (simp add: bits_view_def)
qed (simp add: bits_list_empty)

lemma bits_equal_iff:
  assumes "bits_ok a" "bits_ok b"
  shows "bits_equal a b = (bits_list a = bits_list b)"
proof
  assume "bits_equal a b"
  then have e: "bits_bytes a = bits_bytes b" by (simp add: bits_equal_def)
  then have "bits_size a = bits_size b" by (simp add: bits_size_def)
  then show "bits_list a = bits_list b" using e by (simp add: bits_list_def test_bit_def)
next
  assume l: "bits_list a = bits_list b"
  show "bits_equal a b"
  proof (cases "bits_list a = []")
    case True
    then have "bits_bytes a = []" "bits_bytes b = []"
      using l bits_list_Nil_iff [OF assms(1)] bits_list_Nil_iff [OF assms(2)] by simp_all
    then show ?thesis by (simp add: bits_equal_def)
  next
    case False
    obtain n xs where A: "bits_view a n xs" using assms(1) False by (auto elim: bits_ok_cases dest: bits_list_empty)
    obtain m ys where B: "bits_view b m ys" using assms(2) False l by (auto elim: bits_ok_cases dest: bits_list_empty)
    have nm: "n = m" using arg_cong [OF l, of length] by (simp add: bits_list_view [OF A] bits_list_view [OF B])
    have len: "length xs = length ys" using A B nm by (simp add: bits_view_def)
    have "xs = ys"
    proof (rule bytes_eq_bits [OF len])
      fix i assume i: "i < 8 * length xs"
      then show "bit_at xs i = bit_at ys i"
        using padded_view [OF A i] padded_view [OF B, of i] len l by simp
    qed
    then show ?thesis by (simp add: bits_equal_def bits_bytes_view [OF A] bits_bytes_view [OF B] nm)
  qed
qed

section \<open>Properties\<close>

text \<open>a bit array constructed with a size and a value is well formed and holds that value in
  every bit; setting, clearing and toggling a bit changes that bit alone, and \<open>toggleBit\<close>
  returns the old value.\<close>

lemma bit_array_updates:
  assumes "bits_ok b" "i < length (bits_list b)"
  shows "bits_list (bit_array_new junk sz val) = replicate (nat sz) val \<and> bits_ok (bit_array_new junk sz val)
    \<and> bits_list (set_bit_to b i val) = (bits_list b)[i := val] \<and> bits_ok (set_bit_to b i val)
    \<and> bits_list (fst (toggle_bit b i)) = (bits_list b)[i := \<not> bits_list b ! i]
      \<and> snd (toggle_bit b i) = bits_list b ! i \<and> bits_ok (fst (toggle_bit b i))"
  using assms bit_array_new_list [of junk sz val] set_bit_list [of b i val] toggle_bit_list [of b i] by auto

definition bits_example :: bit_array where
  "bits_example = \<lparr>bits_data = ba_of_data [13, 0b101]\<rparr>"

lemma bits_example_view: "bits_view bits_example 3 [0b101]"
  unfolding bits_view_def
proof (intro conjI allI impI)
  fix i :: nat assume "3 \<le> i" "i < 8 * length [0b101 :: byte]"
  then have "i \<in> set [3..<8]" unfolding set_upt by simp
  moreover have "list_all (\<lambda>i. \<not> bit_at [0b101 :: byte] i) [3..<8]" by code_simp
  ultimately show "\<not> bit_at [0b101 :: byte] i" unfolding list_all_iff by blast
qed (simp_all add: bits_example_def bits_bytes_def)

lemma bits_example_list: "bits_list bits_example = [True, False, True]"
  unfolding bits_list_view [OF bits_example_view] by code_simp

lemma bits_example_ok: "bits_ok bits_example"
  by (rule bits_ok_view [OF bits_example_view])

text \<open>C32: \<open>count\<close>, which reads eight, four, two and one bytes at a time and at times the
  terminating zero byte, is the number of bits that have the value asked for.\<close>

theorem bit_array_count:
  assumes "bits_ok b"
  shows "bits_count b on = int (length (filter (\<lambda>x. x = on) (bits_list b)))"
  using assms by (rule bits_count_list)

theorem bit_array_count_witness: "bits_count bits_example True = 2"
  using bit_array_count [OF bits_example_ok, of True] by (simp add: bits_example_list)

text \<open>\<open>~\<close> negates every bit and keeps the unused bits zero, so that negating twice gives an
  array that is equal to the first, byte for byte.\<close>

lemma bit_array_not:
  assumes "bits_ok b"
  shows "bits_list (bits_not junk b) = map Not (bits_list b) \<and> bits_equal (bits_not junk (bits_not junk b)) b"
proof -
  have n: "bits_ok (bits_not junk b)" "bits_list (bits_not junk b) = map Not (bits_list b)"
    using bits_not_list [OF assms, of junk] by simp_all
  then have "bits_ok (bits_not junk (bits_not junk b))" "bits_list (bits_not junk (bits_not junk b)) = bits_list b"
    using bits_not_list [OF n(1), of junk] by (simp_all add: o_def)
  then show ?thesis using bits_equal_iff assms n by simp
qed

text \<open>the compound assignments are the bitwise operations on the two arrays padded with zero
  bits to the longer size, when \<open>resize\<close> clears what it adds.\<close>

lemma bit_array_assign_ops:
  assumes "bits_ok a" "bits_ok b" "resize_clears (length (bits_list a)) (max (length (bits_list a)) (length (bits_list b)))"
  shows "let n = max (length (bits_list a)) (length (bits_list b)); p = padded (bits_list a); q = padded (bits_list b)
    in bits_list (bits_and_assign junk a b) = map (\<lambda>i. p i \<and> q i) [0..<n]
     \<and> bits_list (bits_or_assign junk a b) = map (\<lambda>i. p i \<or> q i) [0..<n]
     \<and> bits_list (bits_xor_assign junk a b) = map (\<lambda>i. p i \<noteq> q i) [0..<n]"
  using bits_assign_and [OF assms(1,2) refl assms(3), of junk]
    bits_assign_or_xor [OF assms(1,2) refl assms(3), of "(OR)" "(\<or>)", OF _ _ _ bits_or_assign_def [of junk]]
    bits_assign_or_xor [OF assms(1,2) refl assms(3), of "(XOR)" "(\<noteq>)", OF _ _ _ bits_xor_assign_def [of junk]]
  by (simp add: Let_def bit_or_iff bit_xor_iff)

text \<open>\<open>fill\<close> of a range sets exactly the bits of the range, whatever the alignment of its ends.\<close>

lemma bit_array_fill_range:
  assumes "bits_ok b" "i \<le> stop" "stop \<le> length (bits_list b)"
  shows "bits_ok (bits_fill_range b val i stop)
    \<and> bits_list (bits_fill_range b val i stop) = take i (bits_list b) @ replicate (stop - i) val @ drop stop (bits_list b)"
proof -
  have "set_range (bits_list b) i stop val = take i (bits_list b) @ replicate (stop - i) val @ drop stop (bits_list b)"
    using assms(2,3) by (intro nth_equalityI) (auto simp: set_range_def nth_append)
  then show ?thesis using bits_fill_range_list [OF assms, of val] by simp
qed

text \<open>\<open>resize\<close> keeps the bits both sizes share and clears the new ones, for every size
  but those that need exactly one byte more.\<close>

lemma bit_array_resize:
  assumes "bits_ok b" "resize_clears (length (bits_list b)) n"
  shows "bits_ok (bits_resize junk b n)
    \<and> bits_list (bits_resize junk b n) = take n (bits_list b) @ replicate (n - length (bits_list b)) False"
  using assms by (rule bits_resize_list)

text \<open>growing a bit array into exactly one more byte leaves the new bits with whatever the memory
  held: the code compares the new size in bits with the old size in bits of all the
  bytes, the first one included.\<close>

lemma bit_array_resize_gap:
  assumes "bits_ok b" "length (bits_list b) = 8 * k" "0 < k" "j < 8"
  shows "test_bit (bits_resize junk b (8 * k + 8)) (8 * k + j) = bit (junk (k + 1)) j"
  using assms(1)
proof (cases rule: bits_ok_cases)
  case empty
  then show ?thesis using assms(2,3) by (simp add: bits_list_empty)
next
  case (view n xs)
  have n: "n = 8 * k" using assms(2) bits_list_view [OF view] by simp
  have l: "length xs = k" using view n by (simp add: bits_view_def)
  define d where "d = ba_resize junk (bits_data b) (int (1 + (8 * k + 8 + 7) div 8))"
  have kk: "nat (int (1 + (8 * k + 8 + 7) div 8)) = k + 2" by simp
  have "ba_bytes (bits_data b) = of_nat (8 + 8 * length xs - n) # xs" "ba_ok (bits_data b)"
    using view by (simp_all add: bits_view_def bits_bytes_def)
  then obtain h where B: "ba_bytes d = h # xs @ [junk (k + 1)]"
    unfolding d_def by (simp only: ba_bytes_resize kk) (simp add: set_length_def l)
  have "bits_bytes (bits_resize junk b (8 * k + 8)) = of_nat (length (ba_bytes d) * 8 - (8 * k + 8)) # xs @ [junk (k + 1)]"
  proof -
    have e: "bits_bytes (b\<lparr>bits_data := d\<rparr>) = ba_bytes d" "length (bits_bytes b) = 1 + k"
      using bits_bytes_view [OF view] l by (simp_all add: bits_bytes_def)
    then show ?thesis
      using B l unfolding bits_resize_def Let_def d_def [symmetric] e(1) by simp
  qed
  then have "test_bit (bits_resize junk b (8 * k + 8)) (8 * k + j) = bit_at (xs @ [junk (k + 1)]) (8 * k + j)"
    by (rule test_bit_eq)
  then show ?thesis using assms(4) l by (simp add: bit_at_def nth_append)
qed

end
