(* ===== verification/Dates.thy ===== *)
theory Dates
  imports Pdk_Prelude
begin

text \<open>
  \<open>pdk::time::Date\<close> (\<open>src/modules/base/time/DateTime.cpp\<close>, \<open>include/pdk/base/time/Date.h\<close>):
  dates of the proleptic Gregorian calendar as Julian day numbers.  There is no year 0.
  The values stay far inside 64 bits (and the year, month and day inside 32), because a
  valid date lies between \<open>minJd\<close> and \<open>maxJd\<close>, so they are modelled as \<open>int\<close>; division and
  remainder are C's (\<open>c_div\<close>, \<open>c_mod\<close>), which truncate towards zero.
\<close>

section \<open>The conversions\<close>

definition floordiv :: "int \<Rightarrow> int \<Rightarrow> int" where
  "floordiv a b = c_div (a - (if a < 0 then b - 1 else 0)) b"

definition julian_day_from_date :: "int \<Rightarrow> int \<Rightarrow> int \<Rightarrow> int" where
  "julian_day_from_date year month day =
     (let year = (if year < 0 then year + 1 else year);
          a = floordiv (14 - month) 12;
          y = year + 4800 - a;
          m = month + 12 * a - 3
      in day + floordiv (153 * m + 2) 5 + 365 * y + floordiv y 4 - floordiv y 100 + floordiv y 400 - 32045)"

record parsed_date =
  m_year :: int
  m_month :: int
  m_day :: int

definition get_date_from_julian_day :: "int \<Rightarrow> parsed_date" where
  "get_date_from_julian_day julianDay =
     (let a = julianDay + 32044;
          b = floordiv (4 * a + 3) 146097;
          c = a - floordiv (146097 * b) 4;
          d = floordiv (4 * c + 3) 1461;
          e = c - floordiv (1461 * d) 4;
          m = floordiv (5 * e + 2) 153;
          day = e - floordiv (153 * m + 2) 5 + 1;
          month = m + 3 - 12 * floordiv m 10;
          year = 100 * b + d - 4800 + floordiv m 10
      in \<lparr>m_year = (if year \<le> 0 then year - 1 else year), m_month = month, m_day = day\<rparr>)"

definition month_days :: "int list" where
  "month_days = [0, 31, 28, 31, 30, 31, 30, 31, 31, 30, 31, 30, 31]"

definition is_leap_year :: "int \<Rightarrow> bool" where
  "is_leap_year y =
     (let y = (if y < 1 then y + 1 else y)
      in (c_mod y 4 = 0 \<and> c_mod y 100 \<noteq> 0) \<or> c_mod y 400 = 0)"

definition date_is_valid :: "int \<Rightarrow> int \<Rightarrow> int \<Rightarrow> bool" where
  "date_is_valid year month day =
     (if year = 0 then False
      else day > 0 \<and> month > 0 \<and> month \<le> 12
           \<and> (day \<le> month_days ! nat month \<or> (day = 29 \<and> month = 2 \<and> is_leap_year year)))"

section \<open>The class\<close>

record date =
  m_jd :: int

definition null_jd :: int where "null_jd = - (2 ^ 63)"
definition min_jd :: int where "min_jd = - 784350574879"
definition max_jd :: int where "max_jd = 784354017364"

definition date_null :: date where
  "date_null = \<lparr>m_jd = null_jd\<rparr>"

definition date_valid :: "date \<Rightarrow> bool" where
  "date_valid d \<longleftrightarrow> m_jd d \<ge> min_jd \<and> m_jd d \<le> max_jd"

definition from_julian_day :: "int \<Rightarrow> date" where
  "from_julian_day jd = (if jd \<ge> min_jd \<and> jd \<le> max_jd then \<lparr>m_jd = jd\<rparr> else date_null)"

definition set_date :: "int \<Rightarrow> int \<Rightarrow> int \<Rightarrow> date" where
  "set_date year month day =
     (if date_is_valid year month day then \<lparr>m_jd = julian_day_from_date year month day\<rparr> else date_null)"

definition date_get_year :: "date \<Rightarrow> int" where
  "date_get_year d = (if \<not> date_valid d then 0 else m_year (get_date_from_julian_day (m_jd d)))"

definition date_get_month :: "date \<Rightarrow> int" where
  "date_get_month d = (if \<not> date_valid d then 0 else m_month (get_date_from_julian_day (m_jd d)))"

definition date_get_day :: "date \<Rightarrow> int" where
  "date_get_day d = (if \<not> date_valid d then 0 else m_day (get_date_from_julian_day (m_jd d)))"

definition get_date :: "date \<Rightarrow> parsed_date" where
  "get_date d = (if date_valid d then get_date_from_julian_day (m_jd d) else \<lparr>m_year = 0, m_month = 0, m_day = 0\<rparr>)"

definition get_day_of_week :: "date \<Rightarrow> int" where
  "get_day_of_week d =
     (if \<not> date_valid d then 0
      else if m_jd d \<ge> 0 then c_mod (m_jd d) 7 + 1 else c_mod (m_jd d + 1) 7 + 7)"

definition get_day_of_year :: "date \<Rightarrow> int" where
  "get_day_of_year d =
     (if \<not> date_valid d then 0 else m_jd d - julian_day_from_date (date_get_year d) 1 1 + 1)"

definition get_days_in_month :: "date \<Rightarrow> int" where
  "get_days_in_month d =
     (if \<not> date_valid d then 0
      else let pd = get_date_from_julian_day (m_jd d)
           in if m_month pd = 2 \<and> is_leap_year (m_year pd) then 29 else month_days ! nat (m_month pd))"

definition get_days_in_year :: "date \<Rightarrow> int" where
  "get_days_in_year d =
     (if \<not> date_valid d then 0
      else if is_leap_year (m_year (get_date_from_julian_day (m_jd d))) then 366 else 365)"

text \<open>\<open>getWeekNumber\<close>: the week and the year it belongs to.\<close>

definition get_week_number :: "date \<Rightarrow> int \<times> int" where
  "get_week_number d =
     (if \<not> date_valid d then (0, 0)
      else let year = date_get_year d;
               yday = get_day_of_year d;
               wday = get_day_of_week d;
               week = c_div (yday - wday + 10) 7
           in if week = 0
              then let year = year - 1
                   in (c_div (yday + 365 + (if is_leap_year year then 1 else 0) - wday + 10) 7, year)
              else if week = 53
              then let w = c_div (yday - 365 - (if is_leap_year year then 1 else 0) - wday + 10) 7
                   in if w > 0 then (w, year + 1) else (week, year)
              else (week, year))"

definition fixed_date :: "int \<Rightarrow> int \<Rightarrow> int \<Rightarrow> date" where
  "fixed_date y m d = set_date y m (min d (get_days_in_month (set_date y m 1)))"

definition add_days :: "date \<Rightarrow> int \<Rightarrow> date" where
  "add_days d ndays = (if \<not> date_valid d then date_null else from_julian_day (m_jd d + ndays))"

definition days_to :: "date \<Rightarrow> date \<Rightarrow> int" where
  "days_to d other = (if \<not> date_valid d \<or> \<not> date_valid other then 0 else m_jd other - m_jd d)"

text \<open>The loop of \<open>addMonths\<close> on the year and the month.\<close>

function add_months_loop :: "int \<Rightarrow> int \<Rightarrow> int \<Rightarrow> int \<times> int" where
  "add_months_loop y m nmonths =
     (if nmonths = 0 then (y, m)
      else if nmonths < 0 \<and> nmonths + 12 \<le> 0 then add_months_loop (y - 1) m (nmonths + 12)
      else if nmonths < 0
      then let m = m + nmonths in if m \<le> 0 then (y - 1, m + 12) else (y, m)
      else if nmonths - 12 \<ge> 0 then add_months_loop (y + 1) m (nmonths - 12)
      else if m = 12 then add_months_loop (y + 1) 0 nmonths
      else let m = m + nmonths in if m > 12 then (y + 1, m - 12) else (y, m))"
  by pat_completeness auto
termination
  by (relation "measures [\<lambda>(y, m, n). nat \<bar>n\<bar>, \<lambda>(y, m, n). if m = 12 then 1 else 0]") auto

declare add_months_loop.simps [simp del]

definition add_months :: "date \<Rightarrow> int \<Rightarrow> date" where
  "add_months d nmonths =
     (if \<not> date_valid d then date_null
      else if nmonths = 0 then d
      else let pd = get_date_from_julian_day (m_jd d);
               oldY = m_year pd;
               increasing = (nmonths > 0);
               (y, m) = add_months_loop oldY (m_month pd) nmonths;
               y = (if (oldY > 0 \<and> y \<le> 0) \<or> (oldY < 0 \<and> y \<ge> 0)
                    then y + (if increasing then 1 else - 1) else y)
           in fixed_date y m (m_day pd))"

definition add_years :: "date \<Rightarrow> int \<Rightarrow> date" where
  "add_years d nyears =
     (if \<not> date_valid d then date_null
      else let pd = get_date_from_julian_day (m_jd d);
               oldy = m_year pd;
               y = oldy + nyears;
               y = (if (oldy > 0 \<and> y \<le> 0) \<or> (oldy < 0 \<and> y \<ge> 0)
                    then y + (if nyears > 0 then 1 else - 1) else y)
           in fixed_date y (m_month pd) (m_day pd))"

end
