(* ===== verification/Gregorian.thy ===== *)
theory Gregorian
  imports Dates
begin

text \<open>
  The Gregorian calendar as a bijection between its dates and the Julian day numbers
  (locale \<open>day_numbering\<close>, interpreted on the conversions of \<open>Dates\<close>), and the properties of
  the operations of \<open>pdk::time::Date\<close>.
\<close>

section \<open>Arithmetic\<close>

lemma floordiv_eq [simp]: "0 < b \<Longrightarrow> floordiv a b = a div b"
proof (cases "a < 0")
  case True
  assume b: "0 < b"
  define q r where "q = a div b" and "r = a mod b"
  have a: "a = b * q + r" "0 \<le> r" "r < b" using b by (simp_all add: q_def r_def)
  have "- (a - (b - 1)) = b * (- q) + (b - 1 - r)" using a(1) by (simp add: algebra_simps)
  then have "(- (a - (b - 1))) div b = - q"
    using a(2,3) by (intro int_div_pos_eq [of _ b "- q" "b - 1 - r"]) auto
  moreover have "a - (b - 1) < 0" using True b by simp
  ultimately show ?thesis using True b by (simp add: floordiv_def c_div_neg q_def)
qed (simp add: floordiv_def)

lemma c_mod_eq_0 [simp]: "0 < b \<Longrightarrow> c_mod a b = 0 \<longleftrightarrow> a mod b = 0"
  by (cases "a < 0") (simp_all add: c_mod_neg mod_eq_0_iff_dvd)

text \<open>The astronomical year, which has a year 0.\<close>

definition astro :: "int \<Rightarrow> int" where
  "astro y = (if y < 0 then y + 1 else y)"

definition leap :: "int \<Rightarrow> bool" where
  "leap y \<longleftrightarrow> (y mod 4 = 0 \<and> y mod 100 \<noteq> 0) \<or> y mod 400 = 0"

lemma is_leap_year_eq: "y \<noteq> 0 \<Longrightarrow> is_leap_year y = leap (astro y)"
  by (simp add: is_leap_year_def leap_def astro_def Let_def)

text \<open>Years that begin in March: the year and the month counted from there.\<close>

definition march_year :: "int \<Rightarrow> int \<Rightarrow> int" where
  "march_year y month = astro y + 4800 - (if month \<le> 2 then 1 else 0)"

definition march_month :: "int \<Rightarrow> int" where
  "march_month month = (if month \<le> 2 then month + 9 else month - 3)"

lemma julian_day_march:
  fixes year month day :: int
  assumes "1 \<le> month" "month \<le> 12"
  defines "y \<equiv> march_year year month" and "m \<equiv> march_month month"
  shows "julian_day_from_date year month day =
    day + (153 * m + 2) div 5 + 365 * y + y div 4 - y div 100 + y div 400 - 32045"
proof -
  have "(14 - month) div 12 = (if month \<le> 2 then 1 else 0)"
    using assms(1,2) by (auto intro!: int_div_pos_eq [of _ 12 1 "2 - month", simplified] div_pos_pos_trivial)
  then show ?thesis
    by (simp add: julian_day_from_date_def Let_def y_def m_def march_year_def march_month_def astro_def algebra_simps)
qed

lemma century_days:
  assumes "0 \<le> d" "d < (100 :: int)"
  shows "365 * (100 * b + d) + (100 * b + d) div 4 - (100 * b + d) div 100 + (100 * b + d) div 400
    = (146097 * b) div 4 + (1461 * d) div 4"
proof -
  have 1: "(100 * b + d) div 4 = 25 * b + d div 4"
    using div_mult_self1 [of 4 d "25 * b"] by (simp add: algebra_simps)
  have 2: "(100 * b + d) div 100 = b" using assms by (intro int_div_pos_eq) auto
  have "(100 * b + d) div (100 * 4) = (100 * b + d) div 100 div 4" by (rule zdiv_zmult2_eq) simp
  moreover have "(100 :: int) * 4 = 400" by simp
  ultimately have 3: "(100 * b + d) div 400 = b div 4" using 2 by metis
  have 4: "(146097 * b) div 4 = 36524 * b + b div 4"
    using div_mult_self1 [of 4 b "36524 * b"] by (simp add: algebra_simps)
  have 5: "(1461 * d) div 4 = 365 * d + d div 4"
    using div_mult_self1 [of 4 d "365 * d"] by (simp add: algebra_simps)
  show ?thesis unfolding 1 2 3 4 5 by simp
qed

text \<open>The days before a month of the March year.\<close>

definition month_start :: "int \<Rightarrow> int" where
  "month_start m = (153 * m + 2) div 5"

lemma month_of_day:
  assumes "month_start m \<le> e" "e < month_start (m + 1)"
  shows "(5 * e + 2) div 153 = m"
proof -
  have "5 * month_start m \<ge> 153 * m - 2" "5 * month_start (m + 1) \<le> 153 * (m + 1) + 2"
    unfolding month_start_def by linarith+
  then have "153 * m \<le> 5 * e + 2" "5 * e + 2 < 153 * (m + 1)" using assms by linarith+
  then show ?thesis by (intro int_div_pos_eq [of _ 153 m "5 * e + 2 - 153 * m"]) auto
qed

lemma quarter_eq:
  assumes "k mod 4 = (1 :: int)"
  shows "4 * ((k * x) div 4) = k * x - x mod 4"
proof -
  have "(k * x) mod 4 = x mod 4" using mod_mult_left_eq [of k 4 x] assms by simp
  then show ?thesis using minus_mod_eq_mult_div [of "k * x" 4] by simp
qed

lemmas quarter = quarter_eq [of 146097, simplified] quarter_eq [of 1461, simplified]

lemma decode_march:
  assumes d: "0 \<le> d" "d < 100" and e: "0 \<le> e" "4 * e + 3 - d mod 4 < 1461"
    and c: "4 * ((1461 * d) div 4 + e) + 3 - b mod 4 < 146097"
    and m: "month_start m \<le> e" "e < month_start (m + 1)" "0 \<le> m" "m \<le> 11"
  shows "get_date_from_julian_day ((146097 * b) div 4 + (1461 * d) div 4 + e - 32044) =
    (let y = 100 * b + d - 4800 + m div 10
     in \<lparr>m_year = (if y \<le> 0 then y - 1 else y), m_month = m + 3 - 12 * (m div 10), m_day = e - month_start m + 1\<rparr>)"
proof -
  define C where "C = (1461 * d) div 4 + e"
  define A where "A = (146097 * b) div 4 + C"
  have b4: "4 * ((146097 * b) div 4) = 146097 * b - b mod 4" by (rule quarter)
  have d4: "4 * ((1461 * d) div 4) = 1461 * d - d mod 4" by (rule quarter)
  have bm: "0 \<le> b mod 4" "b mod 4 \<le> 3" and dm: "0 \<le> d mod 4" "d mod 4 \<le> 3"
    using pos_mod_bound [of 4 b] pos_mod_bound [of 4 d] by auto
  have C0: "0 \<le> C" using d e by (simp add: C_def)
  have "4 * A + 3 = 146097 * b + (4 * C + 3 - b mod 4)" using b4 by (simp add: A_def)
  then have 1: "(4 * A + 3) div 146097 = b"
    using c bm C0 by (intro int_div_pos_eq [of _ 146097 b "4 * C + 3 - b mod 4"]) (auto simp: C_def)
  have "4 * C + 3 = 1461 * d + (4 * e + 3 - d mod 4)" using d4 by (simp add: C_def)
  then have 2: "(4 * C + 3) div 1461 = d"
    using e dm by (intro int_div_pos_eq [of _ 1461 d "4 * e + 3 - d mod 4"]) auto
  have 3: "(5 * e + 2) div 153 = m" using month_of_day [OF m(1,2)] .
  have j: "(146097 * b) div 4 + (1461 * d) div 4 + e - 32044 + 32044 = A" by (simp add: A_def C_def)
  have AC: "A - (146097 * b) div 4 = C" and Ce: "C - (1461 * d) div 4 = e" by (simp_all add: A_def C_def)
  show ?thesis
    unfolding get_date_from_julian_day_def j Let_def
    by (simp add: 1 AC 2 Ce 3 month_start_def)
qed

section \<open>The calendar\<close>

text \<open>The days of a month, independently of the code's table.\<close>

definition days_of :: "int \<Rightarrow> int \<Rightarrow> int" where
  "days_of year month =
     (if month = 2 then (if leap (astro year) then 29 else 28)
      else if month \<in> {4, 6, 9, 11} then 30 else 31)"

definition calendar_date :: "int \<Rightarrow> int \<Rightarrow> int \<Rightarrow> bool" where
  "calendar_date year month day \<longleftrightarrow> year \<noteq> 0 \<and> 1 \<le> month \<and> month \<le> 12 \<and> 1 \<le> day \<and> day \<le> days_of year month"

lemma month_cases:
  assumes "1 \<le> (month :: int)" "month \<le> 12"
  shows "month = 1 \<or> month = 2 \<or> month = 3 \<or> month = 4 \<or> month = 5 \<or> month = 6 \<or>
    month = 7 \<or> month = 8 \<or> month = 9 \<or> month = 10 \<or> month = 11 \<or> month = 12"
  using assms by presburger

lemma month_days_nth:
  assumes "1 \<le> month" "month \<le> 12"
  shows "month_days ! nat month = (if month = 2 then 28 else if month \<in> {4, 6, 9, 11} then 30 else 31)"
  using month_cases [OF assms] by (elim disjE) (simp_all add: month_days_def eval_nat_numeral)

lemma date_is_valid_eq: "date_is_valid year month day = calendar_date year month day"
proof (cases "year \<noteq> 0 \<and> 1 \<le> month \<and> month \<le> 12")
  case True
  then show ?thesis
    by (auto simp: date_is_valid_def calendar_date_def days_of_def is_leap_year_eq month_days_nth)
qed (auto simp: date_is_valid_def calendar_date_def)

lemma month_start_step:
  assumes "1 \<le> month" "month \<le> 12" "month \<noteq> 2"
  shows "month_start (march_month month + 1) = month_start (march_month month) + days_of year month"
  using month_cases [OF assms(1,2)] assms(3)
  by (elim disjE) (simp_all add: month_start_def march_month_def days_of_def)

lemma march_month_range: "1 \<le> month \<Longrightarrow> month \<le> 12 \<Longrightarrow> 0 \<le> march_month month \<and> march_month month \<le> 11"
  by (auto simp: march_month_def)

lemma month_start_nonneg: "0 \<le> m \<Longrightarrow> 0 \<le> month_start m"
  by (simp add: month_start_def)

lemma month_start_mono: "m \<le> n \<Longrightarrow> month_start m \<le> month_start n"
  by (simp add: month_start_def zdiv_mono1)

text \<open>The 29th of February is the 365th day, counted from 0, of a March year.\<close>

lemma day_in_march_year:
  assumes v: "calendar_date year month day"
  defines "m \<equiv> march_month month"
  defines "e \<equiv> month_start m + day - 1"
  shows "month_start m \<le> e" "e < month_start (m + 1)" "0 \<le> e" "e \<le> 365"
    "e = 365 \<Longrightarrow> month = 2 \<and> leap (astro year)"
proof -
  have mr: "0 \<le> m" "m \<le> 11" using v march_month_range by (auto simp: m_def calendar_date_def)
  show 1: "month_start m \<le> e" using v by (simp add: e_def calendar_date_def)
  show "0 \<le> e" using 1 month_start_nonneg [OF mr(1)] by simp
  have feb: "month_start 11 = 337" "month_start 12 = 367" by (simp_all add: month_start_def)
  show "e < month_start (m + 1)"
    using v month_start_step [of month year] feb
    by (cases "month = 2") (auto simp: e_def m_def calendar_date_def march_month_def days_of_def split: if_splits)
  have "e \<le> 365 \<and> (e = 365 \<longrightarrow> month = 2 \<and> leap (astro year))"
  proof (cases "month = 2")
    case True
    then show ?thesis
      using v feb by (auto simp: e_def m_def calendar_date_def march_month_def days_of_def split: if_splits)
  next
    case False
    then have "m \<le> 10" using v by (auto simp: m_def march_month_def calendar_date_def)
    then have "month_start (m + 1) \<le> 337" using month_start_mono [of "m + 1" 11] feb by simp
    then show ?thesis using \<open>e < month_start (m + 1)\<close> by simp
  qed
  then show "e \<le> 365" "e = 365 \<Longrightarrow> month = 2 \<and> leap (astro year)" by auto
qed

lemma mod_4_of_mod_100: "(x mod 100) mod 4 = (x :: int) mod 4"
  by (simp add: mod_mod_cancel)

lemma mod_pred: "(x + 1) mod n = 0 \<Longrightarrow> 0 < n \<Longrightarrow> x mod n = n - (1 :: int)"
  using mod_diff_left_eq [of "x + 1" n 1] by (simp add: zmod_minus1)

lemma century_mod_4:
  assumes "x mod 100 = (99 :: int)" "leap (x + 1)"
  shows "(x div 100) mod 4 = 3"
proof -
  have "(x + 1) mod 100 = 0" using assms(1) by presburger
  then have "(x + 1) mod 400 = 0" using assms(2) by (simp add: leap_def)
  then have "x mod 400 = 399" using mod_pred [of x 400] by simp
  moreover have "x mod (100 * 4) = 100 * (x div 100 mod 4) + x mod 100" by (rule zmod_zmult2_eq) simp
  ultimately show ?thesis using assms(1) by simp
qed

lemma leap_shift: "leap (x + 4800) = leap x"
proof -
  have "(x + 4800) mod 4 = x mod 4" "(x + 4800) mod 100 = x mod 100" "(x + 4800) mod 400 = x mod 400"
    using mod_mult_self1 [of x 1200 4] mod_mult_self1 [of x 48 100] mod_mult_self1 [of x 12 400] by simp_all
  then show ?thesis by (simp add: leap_def)
qed

lemma leap_mod_4: "leap x \<Longrightarrow> x mod 4 = 0"
  unfolding leap_def by presburger

text \<open>The Julian day of a date, split at the century, the year and the month.\<close>

lemma julian_day_split:
  fixes year month day :: int
  assumes "1 \<le> month" "month \<le> 12"
  defines "y \<equiv> march_year year month"
  shows "julian_day_from_date year month day =
    (146097 * (y div 100)) div 4 + (1461 * (y mod 100)) div 4
      + (month_start (march_month month) + day - 1) - 32044"
proof -
  have "y = 100 * (y div 100) + y mod 100" by simp
  moreover have "0 \<le> y mod 100" "y mod 100 < 100" by simp_all
  ultimately have "365 * y + y div 4 - y div 100 + y div 400 =
      (146097 * (y div 100)) div 4 + (1461 * (y mod 100)) div 4"
    using century_days [of "y mod 100" "y div 100"] by metis
  then show ?thesis
    using julian_day_march [OF assms(1,2), of year day] unfolding y_def month_start_def by simp
qed

lemma decode_encode:
  assumes v: "calendar_date year month day"
  shows "get_date_from_julian_day (julian_day_from_date year month day)
    = \<lparr>m_year = year, m_month = month, m_day = day\<rparr>"
proof -
  have mo: "1 \<le> month" "month \<le> 12" and y0: "year \<noteq> 0" using v by (auto simp: calendar_date_def)
  define y where "y = march_year year month"
  define b d where "b = y div 100" and "d = y mod 100"
  define m where "m = march_month month"
  define e where "e = month_start m + day - 1"
  note E = day_in_march_year [OF v, folded m_def, folded e_def]
  have d: "0 \<le> d" "d < 100" by (simp_all add: d_def)
  have leap: "y mod 4 = 3 \<and> leap (y + 1)" if "e = 365"
  proof -
    have "y + 1 = astro year + 4800" "leap (astro year)" using E(5) [OF that] by (simp_all add: y_def march_year_def)
    then have "leap (y + 1)" by (simp only: leap_shift)
    moreover have "(y + 1) mod 4 = 0" using leap_mod_4 [OF calculation] .
    ultimately show ?thesis using mod_pred [of y 4] by simp
  qed
  have d4: "d mod 4 = y mod 4" by (simp add: d_def mod_4_of_mod_100)
  have e4: "4 * e + 3 - d mod 4 < 1461"
  proof (cases "e = 365")
    case True
    then show ?thesis using leap d4 by simp
  next
    case False
    then show ?thesis using E(4) pos_mod_sign [of 4 d] by linarith
  qed
  have q: "4 * ((1461 * d) div 4) = 1461 * d - d mod 4" by (rule quarter)
  have c: "4 * ((1461 * d) div 4 + e) + 3 - b mod 4 < 146097"
  proof (cases "d = 99 \<and> e = 365")
    case True
    then have "b mod 4 = 3" using leap century_mod_4 [of y] by (simp add: b_def d_def)
    then show ?thesis using True by simp
  next
    case False
    have b: "0 \<le> b mod 4" by simp
    have "d \<le> 98 \<or> d = 99 \<and> e \<le> 364" using False d E(4) by linarith
    then show ?thesis
    proof
      assume "d \<le> 98"
      moreover have "4 * (q + e) + 3 - r' < 146097"
        if "4 * q = 1461 * d - r" "4 * e + 3 - r < 1461" "0 \<le> r'" "d \<le> 98" for q r r'
        using that by simp
      ultimately show ?thesis using q e4 b by blast
    next
      assume "d = 99 \<and> e \<le> 364"
      then show ?thesis using b by auto
    qed
  qed
  have mr: "0 \<le> m" "m \<le> 11" using march_month_range [OF mo] by (simp_all add: m_def)
  have "julian_day_from_date year month day = (146097 * b) div 4 + (1461 * d) div 4 + e - 32044"
    using julian_day_split [OF mo, of year day] by (simp add: b_def d_def y_def e_def m_def)
  then have *: "get_date_from_julian_day (julian_day_from_date year month day) =
      (let y = 100 * b + d - 4800 + m div 10
       in \<lparr>m_year = (if y \<le> 0 then y - 1 else y), m_month = m + 3 - 12 * (m div 10), m_day = e - month_start m + 1\<rparr>)"
    using decode_march [OF d E(3) e4 c E(1,2) mr] by simp
  have y: "100 * b + d = y" by (simp add: b_def d_def)
  have m10: "m div 10 = (if month \<le> 2 then 1 else 0)" using month_cases [OF mo] by (auto simp: m_def march_month_def)
  have 1: "y - 4800 + m div 10 = astro year" unfolding m10 by (simp add: y_def march_year_def)
  have 2: "m + 3 - 12 * (m div 10) = month" unfolding m10 by (simp add: m_def march_month_def)
  have 3: "(if astro year \<le> 0 then astro year - 1 else astro year) = year" using y0 by (auto simp: astro_def)
  show ?thesis unfolding * y Let_def 1 2 3 by (simp add: e_def)
qed


text \<open>Every Julian day has such a decomposition.\<close>

lemma julian_day_parts:
  fixes jd :: int
  obtains b d e where
    "jd = (146097 * b) div 4 + (1461 * d) div 4 + e - 32044"
    "0 \<le> d" "d < 100" "0 \<le> e" "e \<le> 365" "4 * e + 3 - d mod 4 < 1461"
    "4 * ((1461 * d) div 4 + e) + 3 - b mod 4 < 146097"
proof -
  define A where "A = jd + 32044"
  define b r where "b = (4 * A + 3) div 146097" and "r = (4 * A + 3) mod 146097"
  define C where "C = A - (146097 * b) div 4"
  define d s where "d = (4 * C + 3) div 1461" and "s = (4 * C + 3) mod 1461"
  define e where "e = C - (1461 * d) div 4"
  have r: "0 \<le> r" "r < 146097" "4 * A + 3 = 146097 * b + r" by (simp_all add: b_def r_def)
  have bm: "0 \<le> b mod 4" "b mod 4 \<le> 3" and dm: "0 \<le> d mod 4" "d mod 4 \<le> 3"
    using pos_mod_bound [of 4 b] pos_mod_bound [of 4 d] by auto
  have C: "4 * C + 3 = r + b mod 4" using r(3) quarter(1) [of b] by (simp add: C_def)
  have C1: "0 \<le> C" "C \<le> 36524" using C r(1,2) bm by linarith+
  have s: "0 \<le> s" "s < 1461" "4 * C + 3 = 1461 * d + s" by (simp_all add: d_def s_def)
  have d: "0 \<le> d" "d < 100" using C1 s by linarith+
  have e: "4 * e + 3 = s + d mod 4" using s(3) quarter(2) [of d] by (simp add: e_def)
  have e1: "0 \<le> e" "e \<le> 365" using e s(1,2) dm by linarith+
  have "jd = (146097 * b) div 4 + (1461 * d) div 4 + e - 32044" by (simp add: e_def C_def A_def)
  moreover have "4 * e + 3 - d mod 4 < 1461" using e s by simp
  moreover have "4 * ((1461 * d) div 4 + e) + 3 - b mod 4 < 146097" using C r by (simp add: e_def)
  ultimately show ?thesis using that d e1 by blast
qed

lemma day_in_month:
  assumes "0 \<le> e" "e \<le> 365"
  obtains m where "0 \<le> m" "m \<le> 11" "month_start m \<le> e" "e < month_start (m + 1)"
proof
  define m where "m = (5 * e + 2) div 153"
  have m: "153 * m \<le> 5 * e + 2" "5 * e + 2 < 153 * (m + 1)"
    unfolding m_def using mult_div_mod_eq [of 153 "5 * e + 2"] pos_mod_bound [of 153 "5 * e + 2"] pos_mod_sign [of 153 "5 * e + 2"] by auto
  show "0 \<le> m" using assms by (simp add: m_def)
  have "m < 12" using m assms by linarith
  then show "m \<le> 11" by simp
  show "month_start m \<le> e" "e < month_start (m + 1)" unfolding month_start_def using m by linarith+
qed

lemma decode_calendar_date:
  fixes jd :: int
  defines "p \<equiv> get_date_from_julian_day jd"
  shows "calendar_date (m_year p) (m_month p) (m_day p) \<and> julian_day_from_date (m_year p) (m_month p) (m_day p) = jd"
proof -
  obtain b d e where jd: "jd = (146097 * b) div 4 + (1461 * d) div 4 + e - 32044"
    and d: "0 \<le> d" "d < 100" and e: "0 \<le> e" "e \<le> 365" "4 * e + 3 - d mod 4 < 1461"
    and c: "4 * ((1461 * d) div 4 + e) + 3 - b mod 4 < 146097"
    using julian_day_parts [of jd] by metis
  obtain m where m: "0 \<le> m" "m \<le> 11" "month_start m \<le> e" "e < month_start (m + 1)"
    using day_in_month [OF e(1,2)] by metis
  define y where "y = 100 * b + d"
  define j where "j = (if 10 \<le> m then 1 else 0 :: int)"
  have j: "m div 10 = j" using m(1,2) by (auto simp: j_def div_pos_pos_trivial intro: int_div_pos_eq [of _ 10 1 "m - 10"])
  define Y where "Y = y - 4800 + j"
  define year month day where "year = (if Y \<le> 0 then Y - 1 else Y)"
    and "month = m + 3 - 12 * j" and "day = e - month_start m + 1"
  have p: "p = \<lparr>m_year = year, m_month = month, m_day = day\<rparr>"
    using decode_march [OF d e(1,3) c m(3,4) m(1,2)] unfolding p_def jd j y_def [symmetric]
    by (simp add: year_def month_def day_def Y_def Let_def)
  have astro: "astro year = Y" by (simp add: astro_def year_def)
  have mo: "1 \<le> month" "month \<le> 12" "march_month month = m" using m(1,2) by (auto simp: month_def j_def march_month_def)
  have my: "march_year year month = y" using m(1,2) by (auto simp: march_year_def astro Y_def j_def month_def)
  have y: "y div 100 = b" "y mod 100 = d"
    using d by (auto simp: y_def intro!: int_div_pos_eq)
  have enc: "julian_day_from_date year month day = jd"
    using julian_day_split [OF mo(1,2), of year day] unfolding my y mo(3) jd by (simp add: day_def)
  have feb: "leap Y" if "e = 365" "month = 2"
  proof -
    have d3: "d mod 4 = 3" using e(3) that(1) pos_mod_bound [of 4 d] by simp
    have "j = 1" using that(2) m(1,2) by (auto simp: month_def j_def)
    then have Yy: "Y + 4800 = y + 1" by (simp add: Y_def)
    have "y mod 4 = 3" using d3 y(2) mod_4_of_mod_100 [of y] by simp
    then have "(y + 1) mod 4 = 0" by presburger
    moreover have "(y + 1) mod 400 = 0" if "(y + 1) mod 100 = 0"
    proof -
      have "d = 99" using that mod_pred [of y 100] y(2) by simp
      then have "b mod 4 = 3" using c \<open>e = 365\<close> pos_mod_bound [of 4 b] by simp
      moreover have "y mod (100 * 4) = 100 * (y div 100 mod 4) + y mod 100" by (rule zmod_zmult2_eq) simp
      ultimately have "y mod 400 = 399" using y \<open>d = 99\<close> by simp
      then show ?thesis using mod_add_left_eq [of y 400 1] by simp
    qed
    ultimately have "leap (y + 1)" by (auto simp: leap_def)
    then show ?thesis using leap_shift [of Y] Yy by simp
  qed
  have feb_start: "month_start 11 = 337" by (simp add: month_start_def)
  have "day \<le> days_of year month"
  proof (cases "month = 2")
    case True
    then have "m = 11" using m(1,2) by (auto simp: month_def j_def split: if_splits)
    moreover have "e \<le> 364 \<or> leap Y" using True feb e(2) by fastforce
    ultimately show ?thesis using True e(2) feb_start by (auto simp: day_def days_of_def astro)
  next
    case False
    then show ?thesis using month_start_step [OF mo(1,2) False, of year] m(4) mo(3) by (simp add: day_def)
  qed
  moreover have "year \<noteq> 0" by (simp add: year_def)
  moreover have "1 \<le> day" using m(3) by (simp add: day_def)
  ultimately show ?thesis using mo enc by (simp add: p calendar_date_def)
qed


section \<open>The order of the days\<close>

definition next_date :: "parsed_date \<Rightarrow> parsed_date" where
  "next_date p =
     (if m_day p < days_of (m_year p) (m_month p) then p\<lparr>m_day := m_day p + 1\<rparr>
      else if m_month p < 12 then p\<lparr>m_month := m_month p + 1, m_day := 1\<rparr>
      else \<lparr>m_year = (if m_year p = - 1 then 1 else m_year p + 1), m_month = 1, m_day = 1\<rparr>)"

definition on_calendar :: "parsed_date \<Rightarrow> bool" where
  "on_calendar p \<longleftrightarrow> calendar_date (m_year p) (m_month p) (m_day p)"

definition encode_date :: "parsed_date \<Rightarrow> int" where
  "encode_date p = julian_day_from_date (m_year p) (m_month p) (m_day p)"

lemma div_succ: "0 < n \<Longrightarrow> (x + 1) div n = x div n + (if (x + 1) mod n = 0 then 1 else 0 :: int)"
proof -
  assume n: "0 < n"
  have x: "x = n * (x div n) + x mod n" "0 \<le> x mod n" "x mod n < n" using n by simp_all
  show ?thesis
  proof (cases "x mod n = n - 1")
    case True
    then have "x + 1 = n * (x div n + 1) + 0" using x(1) [unfolded True] by (simp add: algebra_simps)
    then have "(x + 1) div n = x div n + 1" "(x + 1) mod n = 0"
      using n int_div_pos_eq [of "x + 1" n "x div n + 1" 0] int_mod_pos_eq [of "x + 1" n "x div n + 1" 0] by auto
    then show ?thesis by simp
  next
    case False
    then have "x + 1 = n * (x div n) + (x mod n + 1)" "x mod n + 1 < n" using x by auto
    then have "(x + 1) div n = x div n" "(x + 1) mod n = x mod n + 1"
      using x(2) int_div_pos_eq [of "x + 1" n "x div n" "x mod n + 1"] int_mod_pos_eq [of "x + 1" n "x div n" "x mod n + 1"] by auto
    then show ?thesis using x(2) by simp
  qed
qed

definition year_start :: "int \<Rightarrow> int" where
  "year_start year = julian_day_from_date year 1 1"

definition leap_days :: "int \<Rightarrow> int" where
  "leap_days y = y div 4 - y div 100 + y div 400"

lemma leap_days_succ: "leap_days (y + 1) = leap_days y + (if leap (y + 1) then 1 else 0)"
proof -
  have "(y + 1) mod 400 = 0 \<Longrightarrow> (y + 1) mod 100 = 0" "(y + 1) mod 100 = 0 \<Longrightarrow> (y + 1) mod 4 = 0"
    using dvd_trans [of 100 400 "y + 1"] dvd_trans [of 4 100 "y + 1"] by (simp_all add: mod_eq_0_iff_dvd)
  then show ?thesis by (simp add: leap_days_def div_succ leap_def)
qed

text \<open>The days of a year before the first of a month.\<close>

definition days_before :: "int \<Rightarrow> int \<Rightarrow> int" where
  "days_before year month = sum_list (map (days_of year) [1..month - 1])"

lemma julian_day_year_start:
  assumes "1 \<le> month" "month \<le> 12"
  shows "julian_day_from_date year month day = year_start year + days_before year month + day - 1"
proof -
  define y where "y = 4799 + astro year"
  have s: "year_start year = 1 + 306 + 365 * y + leap_days y - 32045"
    using julian_day_march [of 1 year 1] by (simp add: year_start_def march_year_def march_month_def y_def leap_days_def)
  have l: "leap (y + 1) = leap (astro year)" using leap_shift [of "astro year"] by (simp add: y_def add.commute)
  have j: "julian_day_from_date year month day =
      day + month_start (march_month month) + 365 * march_year year month + leap_days (march_year year month) - 32045"
    using julian_day_march [OF assms, of year day] by (simp add: month_start_def leap_days_def)
  have m: "march_year year month = (if month \<le> 2 then y else y + 1)" by (simp add: march_year_def y_def)
  show ?thesis
    using month_cases [OF assms] unfolding j m s
    by (elim disjE) (simp_all add: month_start_def march_month_def days_before_def days_of_def leap_days_succ l upto.simps)
qed


lemma days_before_1 [simp]: "days_before year 1 = 0"
  by (simp add: days_before_def)

lemma days_before_succ: "1 \<le> month \<Longrightarrow> days_before year (month + 1) = days_before year month + days_of year month"
  using upto_rec2 [of 1 month] by (simp add: days_before_def)

lemma days_before_13: "days_before year 13 = (if leap (astro year) then 366 else 365)"
  by (simp add: days_before_def days_of_def upto.simps)

lemma days_of_pos: "28 \<le> days_of year month"
  by (simp add: days_of_def)

lemma days_before_mono:
  assumes "1 \<le> m" "m \<le> n"
  shows "days_before year m \<le> days_before year n"
  using assms(2)
proof (induction rule: int_ge_induct)
  case (step i)
  then show ?case using days_before_succ [of i year] days_of_pos [of year i] assms(1) by simp
qed simp

definition year_after :: "int \<Rightarrow> int" where
  "year_after year = (if year = - 1 then 1 else year + 1)"

lemma astro_year_after: "year \<noteq> 0 \<Longrightarrow> astro (year_after year) = astro year + 1"
  by (simp add: astro_def year_after_def)

lemma year_start_eq: "year_start year = 365 * (4799 + astro year) + leap_days (4799 + astro year) - 31738"
  using julian_day_march [of 1 year 1]
  by (simp add: year_start_def march_year_def march_month_def leap_days_def)

lemma year_start_after:
  assumes "year \<noteq> 0"
  shows "year_start (year_after year) = year_start year + days_before year 13"
proof -
  have "leap (astro year + 4800) = leap (astro year)" by (rule leap_shift)
  then show ?thesis
    unfolding year_start_eq astro_year_after [OF assms] days_before_13
    using leap_days_succ [of "4799 + astro year"] by (simp add: algebra_simps)
qed

lemma year_start_mono: "astro y \<le> astro y' \<Longrightarrow> year_start y \<le> year_start y'"
proof -
  have "leap_days a + a \<le> leap_days b + b" if "a \<le> b" for a b
    using that
  proof (induction rule: int_ge_induct)
    case (step i)
    then show ?case using leap_days_succ [of i] by (simp split: if_splits)
  qed simp
  moreover assume "astro y \<le> astro y'"
  ultimately show ?thesis
    unfolding year_start_eq by (smt (verit, best))
qed

lemma julian_day_next:
  assumes v: "on_calendar p"
  shows "on_calendar (next_date p) \<and> encode_date (next_date p) = encode_date p + 1"
proof (cases p)
  case (fields year month day)
  note v' = v [unfolded on_calendar_def calendar_date_def fields, simplified]
  consider (day) "day < days_of year month" | (month) "day = days_of year month" "month < 12"
    | (year) "day = days_of year month" "month = 12" using v' by linarith
  then show ?thesis
  proof cases
    case day
    then show ?thesis
      using v' fields by (simp add: next_date_def on_calendar_def calendar_date_def encode_date_def julian_day_year_start)
  next
    case month
    then show ?thesis
      using v' fields days_before_succ [of month year] days_of_pos [of year "month + 1"]
      by (simp add: next_date_def on_calendar_def calendar_date_def encode_date_def julian_day_year_start)
  next
    case year
    have "next_date p = \<lparr>m_year = year_after year, m_month = 1, m_day = 1\<rparr>"
      using year fields by (simp add: next_date_def year_after_def)
    moreover have "year_after year \<noteq> 0" by (simp add: year_after_def)
    moreover have "days_before year 13 = days_before year 12 + days_of year 12" using days_before_succ [of 12 year] by simp
    ultimately show ?thesis
      using v' fields year year_start_after [of year] days_of_pos [of "year_after year" 1]
      by (simp add: on_calendar_def calendar_date_def encode_date_def julian_day_year_start)
  qed
qed

section \<open>Numberings of days\<close>

text \<open>
  A numbering of the days of a calendar: dates and numbers correspond one to one and the number
  of the next date is the next number.
\<close>

locale day_numbering =
  fixes enc :: "'a \<Rightarrow> int" and dec :: "int \<Rightarrow> 'a" and on :: "'a \<Rightarrow> bool" and nxt :: "'a \<Rightarrow> 'a"
  assumes dec_on: "on (dec j)"
    and enc_dec: "enc (dec j) = j"
    and dec_enc: "on x \<Longrightarrow> dec (enc x) = x"
    and nxt_on: "on x \<Longrightarrow> on (nxt x)"
    and enc_nxt: "on x \<Longrightarrow> enc (nxt x) = enc x + 1"
begin

lemma enc_eq_iff: "on x \<Longrightarrow> on y \<Longrightarrow> enc x = enc y \<longleftrightarrow> x = y"
  using dec_enc by metis

lemma funpow_on: "on x \<Longrightarrow> on ((nxt ^^ n) x)"
  by (induction n) (auto intro: nxt_on)

lemma enc_funpow: "on x \<Longrightarrow> enc ((nxt ^^ n) x) = enc x + int n"
  by (induction n) (simp_all add: enc_nxt funpow_on)

lemma dec_plus: "dec (j + int n) = (nxt ^^ n) (dec j)"
  using dec_enc [OF funpow_on [OF dec_on [of j]]] enc_funpow [OF dec_on [of j]] by (metis enc_dec)

lemma surj_nxt: "on x \<Longrightarrow> \<exists>y. on y \<and> nxt y = x"
proof (intro exI conjI)
  assume x: "on x"
  show "on (dec (enc x - 1))" by (rule dec_on)
  show "nxt (dec (enc x - 1)) = x"
    using dec_enc [OF nxt_on [OF dec_on [of "enc x - 1"]]] dec_enc [OF x] enc_nxt [OF dec_on [of "enc x - 1"]]
    by (simp add: enc_dec)
qed

end

interpretation civil: day_numbering encode_date get_date_from_julian_day on_calendar next_date
proof
  fix j x
  show "on_calendar (get_date_from_julian_day j)" "encode_date (get_date_from_julian_day j) = j"
    using decode_calendar_date [of j] by (simp_all add: on_calendar_def encode_date_def)
  assume x: "on_calendar x"
  show "get_date_from_julian_day (encode_date x) = x"
    using decode_encode x by (simp add: on_calendar_def encode_date_def)
  show "on_calendar (next_date x)" "encode_date (next_date x) = encode_date x + 1"
    using julian_day_next [OF x] by simp_all
qed


section \<open>Valid dates\<close>

lemma year_start_bounds: "year_start (- 2147483648) = min_jd" "year_start 2147483647 + 365 = max_jd + 1"
  by (simp_all add: year_start_eq astro_def leap_days_def min_jd_def max_jd_def)

lemma day_in_year:
  assumes "calendar_date year month day"
  shows "year_start year \<le> julian_day_from_date year month day"
    "julian_day_from_date year month day < year_start (year_after year)"
proof -
  have v: "year \<noteq> 0" "1 \<le> month" "month \<le> 12" "1 \<le> day" "day \<le> days_of year month"
    using assms by (simp_all add: calendar_date_def)
  show "year_start year \<le> julian_day_from_date year month day"
    using v days_before_mono [of 1 month year] by (simp add: julian_day_year_start)
  show "julian_day_from_date year month day < year_start (year_after year)"
    using v days_before_succ [of month year] days_before_mono [of "month + 1" 13 year]
    by (simp add: julian_day_year_start year_start_after)
qed

lemma astro_le_iff: "x \<noteq> 0 \<Longrightarrow> y \<noteq> 0 \<Longrightarrow> astro x \<le> astro y \<longleftrightarrow> x \<le> y"
  by (auto simp: astro_def)

lemma year_of_day:
  assumes "year \<noteq> 0" "year_start year \<le> jd" "jd < year_start (year_after year)"
  shows "m_year (get_date_from_julian_day jd) = year"
proof (rule ccontr)
  define p where "p = get_date_from_julian_day jd"
  have c: "calendar_date (m_year p) (m_month p) (m_day p)" and j: "julian_day_from_date (m_year p) (m_month p) (m_day p) = jd"
    using decode_calendar_date [of jd] by (simp_all add: p_def)
  have y0: "m_year p \<noteq> 0" using c by (simp add: calendar_date_def)
  note b = day_in_year [OF c, unfolded j]
  assume "m_year (get_date_from_julian_day jd) \<noteq> year"
  then have "astro (year_after (m_year p)) \<le> astro year \<or> astro (year_after year) \<le> astro (m_year p)"
    using assms(1) y0 astro_le_iff [of year "m_year p"] astro_le_iff [of "m_year p" year]
    by (auto simp: astro_year_after p_def)
  then show False
    using year_start_mono [of "year_after (m_year p)" year] year_start_mono [of "year_after year" "m_year p"] b assms by auto
qed

text \<open>The valid dates are the dates whose year fits in a 32-bit \<open>int\<close>.\<close>

lemma date_valid_iff:
  assumes "calendar_date year month day"
  shows "date_valid \<lparr>m_jd = julian_day_from_date year month day\<rparr> \<longleftrightarrow> - 2147483648 \<le> year \<and> year \<le> 2147483647"
proof -
  have y0: "year \<noteq> 0" using assms by (simp add: calendar_date_def)
  note b = day_in_year [OF assms]
  have "min_jd \<le> julian_day_from_date year month day" if "- 2147483648 \<le> year"
    using year_start_mono [of "- 2147483648" year] astro_le_iff [of "- 2147483648" year] y0 that b year_start_bounds by simp
  moreover have "julian_day_from_date year month day \<le> max_jd" if "year \<le> 2147483647"
  proof -
    have "astro (year_after year) \<le> astro (year_after 2147483647)"
      using astro_le_iff [of year 2147483647] y0 that by (simp add: astro_year_after)
    moreover have "year_start (year_after 2147483647) = max_jd + 1"
      using year_start_after [of 2147483647] year_start_bounds(2) by (simp add: days_before_13 leap_def astro_def)
    ultimately show ?thesis using year_start_mono [of "year_after year" "year_after 2147483647"] b by simp
  qed
  moreover have "julian_day_from_date year month day < min_jd" if "year < - 2147483648"
    using year_start_mono [of "year_after year" "- 2147483648"] astro_le_iff [of "year_after year" "- 2147483648"]
      that b year_start_bounds by (simp add: year_after_def)
  moreover have "max_jd < julian_day_from_date year month day" if "2147483647 < year"
  proof -
    have "year_start (year_after 2147483647) = max_jd + 1"
      using year_start_after [of 2147483647] year_start_bounds(2) by (simp add: days_before_13 leap_def astro_def)
    moreover have "astro (year_after 2147483647) \<le> astro year" using that by (simp add: astro_def year_after_def)
    ultimately show ?thesis using year_start_mono [of "year_after 2147483647" year] b by simp
  qed
  ultimately show ?thesis by (force simp: date_valid_def not_le)
qed

lemma get_date_on: "date_valid d \<Longrightarrow> on_calendar (get_date d)"
  using civil.dec_on by (simp add: get_date_def)

lemma encode_get_date: "date_valid d \<Longrightarrow> encode_date (get_date d) = m_jd d"
  using civil.enc_dec by (simp add: get_date_def)

lemma date_fields:
  assumes "date_valid d"
  shows "date_get_year d = m_year (get_date d)" "date_get_month d = m_month (get_date d)"
    "date_get_day d = m_day (get_date d)"
  using assms by (simp_all add: date_get_year_def date_get_month_def date_get_day_def get_date_def)


section \<open>Properties\<close>

lemma set_date_valid:
  "calendar_date year month day \<Longrightarrow> - 2147483648 \<le> year \<Longrightarrow> year \<le> 2147483647 \<Longrightarrow>
    date_valid (set_date year month day)"
  by (simp add: set_date_def date_is_valid_eq date_valid_iff)

lemma date_null_invalid [simp]: "\<not> date_valid date_null"
  by (simp add: date_valid_def date_null_def null_jd_def min_jd_def)

lemma set_date_valid_D:
  assumes "date_valid (set_date year month day)"
  shows "calendar_date year month day" "set_date year month day = \<lparr>m_jd = julian_day_from_date year month day\<rparr>"
  using assms by (auto simp: set_date_def date_is_valid_eq split: if_splits)

lemma get_set_date:
  "date_valid (set_date year month day) \<Longrightarrow>
    get_date (set_date year month day) = \<lparr>m_year = year, m_month = month, m_day = day\<rparr>"
  using set_date_valid_D [of year month day] decode_encode [of year month day] by (simp add: get_date_def)

text \<open>A date set from a year, a month and a day that exist in the calendar reads back as this year, month and
  day for every 32-bit year, and any other triple gives the null date, which reads back as zeros.\<close>

lemma date_set_get:
  assumes "- 2147483648 \<le> year" "year \<le> 2147483647"
  shows "get_date (set_date year month day) =
    (if calendar_date year month day then \<lparr>m_year = year, m_month = month, m_day = day\<rparr>
     else \<lparr>m_year = 0, m_month = 0, m_day = 0\<rparr>)"
proof (cases "calendar_date year month day")
  case True
  then show ?thesis using get_set_date [OF set_date_valid] assms by simp
next
  case False
  then have "set_date year month day = date_null" by (simp add: set_date_def date_is_valid_eq)
  then show ?thesis using False by (simp add: get_date_def)
qed

text \<open>C40: Adding days walks through the calendar day by day: the date after n days is the n-th successor of the
  date in the calendar, and the distance to it is n.\<close>

theorem date_add_days:
  assumes "date_valid d" "date_valid (add_days d (int n))"
  shows "get_date (add_days d (int n)) = (next_date ^^ n) (get_date d) \<and> days_to d (add_days d (int n)) = int n"
proof -
  have a: "add_days d (int n) = \<lparr>m_jd = m_jd d + int n\<rparr>"
    using assms by (auto simp: add_days_def from_julian_day_def split: if_splits)
  then show ?thesis using assms civil.dec_plus [of "m_jd d" n] by (simp add: get_date_def days_to_def)
qed

theorem date_add_days_witness:
  "get_date (add_days (set_date 2000 2 28) (int 2)) = \<lparr>m_year = 2000, m_month = 3, m_day = 1\<rparr>"
proof -
  have "date_valid (set_date 2000 2 28)" "date_valid (add_days (set_date 2000 2 28) (int 2))" by code_simp+
  moreover have "get_date (set_date 2000 2 28) = \<lparr>m_year = 2000, m_month = 2, m_day = 28\<rparr>"
    using get_set_date [of 2000 2 28] calculation(1) by simp
  ultimately show ?thesis
    using date_add_days [of "set_date 2000 2 28" 2] by (simp add: eval_nat_numeral next_date_def days_of_def leap_def astro_def)
qed

lemma get_day_of_week_eq: "date_valid d \<Longrightarrow> get_day_of_week d = m_jd d mod 7 + 1"
proof -
  define q r where "q = m_jd d div 7" and "r = m_jd d mod 7"
  have r: "0 \<le> r" "r < 7" and j: "m_jd d = 7 * q + r" by (simp_all add: q_def r_def)
  have "(- (m_jd d + 1)) mod 7 = 6 - r"
    using r j by (intro int_mod_pos_eq [of _ 7 "- q - 1" "6 - r"]) auto
  then show "date_valid d \<Longrightarrow> get_day_of_week d = m_jd d mod 7 + 1"
    using r by (cases "m_jd d = - 1") (auto simp: get_day_of_week_def c_mod_neg r_def)
qed

lemma get_day_of_year_eq:
  "date_valid d \<Longrightarrow> get_day_of_year d = m_jd d - year_start (date_get_year d) + 1"
  by (simp add: get_day_of_year_def year_start_def)

lemma day_in_own_year:
  assumes "date_valid d"
  shows "date_get_year d \<noteq> 0" "year_start (date_get_year d) \<le> m_jd d"
    "m_jd d < year_start (date_get_year d) + days_before (date_get_year d) 13"
proof -
  have c: "calendar_date (m_year (get_date d)) (m_month (get_date d)) (m_day (get_date d))"
    using get_date_on [OF assms] by (simp add: on_calendar_def)
  show y: "date_get_year d \<noteq> 0" using c date_fields [OF assms] by (simp add: calendar_date_def)
  show "year_start (date_get_year d) \<le> m_jd d"
    "m_jd d < year_start (date_get_year d) + days_before (date_get_year d) 13"
    using day_in_year [OF c] encode_get_date [OF assms] year_start_after [OF y]
    by (simp_all add: date_fields [OF assms] encode_date_def)
qed

lemma get_days_in_month_eq:
  assumes "date_valid d"
  shows "get_days_in_month d = days_of (date_get_year d) (date_get_month d)"
    "calendar_date (date_get_year d) (date_get_month d) (date_get_day d)"
proof -
  show c: "calendar_date (date_get_year d) (date_get_month d) (date_get_day d)"
    using get_date_on [OF assms] by (simp add: on_calendar_def date_fields [OF assms])
  then have "date_get_year d \<noteq> 0" "1 \<le> date_get_month d" "date_get_month d \<le> 12"
    by (simp_all add: calendar_date_def)
  then show "get_days_in_month d = days_of (date_get_year d) (date_get_month d)"
    using assms month_days_nth [of "date_get_month d"] month_days_nth [of 2] is_leap_year_eq [of "date_get_year d"]
      date_fields [OF assms]
    by (simp add: get_days_in_month_def Let_def get_date_def days_of_def)
qed

text \<open>The day of the year counts the days of the earlier months and of the month, the length of the month is
  the calendar's, and the length of the year is the sum over its months.\<close>

lemma date_positions:
  assumes "date_valid d"
  shows "get_day_of_year d = sum_list (map (days_of (date_get_year d)) [1..date_get_month d - 1]) + date_get_day d \<and>
    get_days_in_month d = days_of (date_get_year d) (date_get_month d) \<and>
    get_days_in_year d = sum_list (map (days_of (date_get_year d)) [1..12])"
proof -
  note c = get_days_in_month_eq(2) [OF assms]
  then have y: "date_get_year d \<noteq> 0" and m: "1 \<le> date_get_month d" "date_get_month d \<le> 12"
    by (simp_all add: calendar_date_def)
  have j: "m_jd d = julian_day_from_date (date_get_year d) (date_get_month d) (date_get_day d)"
    using encode_get_date [OF assms] by (simp add: encode_date_def date_fields [OF assms])
  have "get_day_of_year d = days_before (date_get_year d) (date_get_month d) + date_get_day d"
    unfolding get_day_of_year_eq [OF assms] j julian_day_year_start [OF m] by simp
  moreover have "get_days_in_year d = days_before (date_get_year d) 13"
    using assms is_leap_year_eq [OF y] date_fields [OF assms]
    by (simp add: get_days_in_year_def days_before_13 get_date_def)
  ultimately show ?thesis using get_days_in_month_eq(1) [OF assms] by (simp add: days_before_def)
qed

lemma week_number_at:
  assumes "date_valid d" "k = get_day_of_year d - get_day_of_week d + 4"
  shows "get_week_number d =
    (let year = date_get_year d; week = c_div (k + 6) 7
     in if week = 0 then (c_div (k + (365 + (if is_leap_year (year - 1) then 1 else 0)) + 6) 7, year - 1)
        else if week = 53
        then let w = c_div (k - (365 + (if is_leap_year year then 1 else 0)) + 6) 7
             in if w > 0 then (w, year + 1) else (week, year)
        else (week, year))"
  using assms(1) unfolding get_week_number_def assms(2) Let_def by (simp add: algebra_simps)

text \<open>The week number follows ISO 8601: a date belongs to the year of the Thursday of its week, and the number of
  the week is the position of this Thursday among the Thursdays of that year.  The code steps from year 1 to year 0 and
  from year -1 to year 0; this never shows, because year 1 begins with a Monday.\<close>

lemma date_week_number:
  assumes v: "date_valid d"
    and t: "thursday = add_days d (4 - get_day_of_week d)" "date_valid thursday"
  shows "get_week_number d = ((get_day_of_year thursday + 6) div 7, date_get_year thursday)"
proof -
  define year S L w where "year = date_get_year d" and "S = year_start year" and "L = days_before year 13"
    and "w = get_day_of_week d"
  have w: "1 \<le> w" "w \<le> 7" using get_day_of_week_eq [OF v] by (auto simp: w_def)
  have y0: "year \<noteq> 0" and jd: "S \<le> m_jd d" "m_jd d < S + L"
    using day_in_own_year [OF v] by (simp_all add: year_def S_def L_def)
  have jt: "m_jd thursday = m_jd d + 4 - w"
    using t v by (auto simp: add_days_def from_julian_day_def w_def split: if_splits)
  have ty: "date_get_year thursday = m_year (get_date_from_julian_day (m_jd thursday))"
    using t(2) by (simp add: date_get_year_def)
  have L: "L = 365 + (if is_leap_year year then 1 else 0)"
    using y0 by (simp add: L_def days_before_13 is_leap_year_eq)
  define k where "k = m_jd d - S + 1 - w + 4"
  have k: "- 2 \<le> k" "k \<le> L + 3" using jd w by (simp_all add: k_def)
  have k4: "k = get_day_of_year d - get_day_of_week d + 4"
    using get_day_of_year_eq [OF v] by (simp add: k_def S_def year_def w_def)
  have "0 \<le> k + 6" using k by simp
  then have week: "c_div (k + 6) 7 = (k + 6) div 7" by simp
  note code = week_number_at [OF v k4, unfolded Let_def, folded year_def, unfolded week, folded L]
  have w_eq: "w = m_jd d mod 7 + 1" using get_day_of_week_eq [OF v] by (simp add: w_def)
  have monday: "year_start 1 = 1721426" by (simp add: year_start_eq astro_def leap_days_def)
  consider (before) "k \<le> 0" | (within) "1 \<le> k" "k \<le> L" | (after) "L < k" by linarith
  then show ?thesis
  proof cases
    case before
    define S' L' where "S' = year_start (year - 1)" and "L' = days_before (year - 1) 13"
    have "year \<noteq> 1"
    proof
      assume "year = 1"
      then have "1721426 \<le> m_jd d" "m_jd d + 5 - (m_jd d mod 7 + 1) \<le> 1721426"
        using jd before w_eq monday by (simp_all add: S_def k_def)
      then show False by presburger
    qed
    then have y': "year - 1 \<noteq> 0" "year_after (year - 1) = year" using y0 by (simp_all add: year_after_def)
    have S': "S = S' + L'" using year_start_after [OF y'(1)] y'(2) by (simp add: S'_def L'_def S_def)
    have L': "L' = 365 + (if is_leap_year (year - 1) then 1 else 0)"
      using y' by (simp add: L'_def days_before_13 is_leap_year_eq)
    have "date_get_year thursday = year - 1"
      unfolding ty using y' before jt jd w L' S' k
      by (intro year_of_day) (auto simp: k_def S_def S'_def split: if_splits)
    moreover from this have "get_day_of_year thursday = k + L'"
      using get_day_of_year_eq [OF t(2)] jt S' by (simp add: k_def S'_def)
    moreover have "(k + 6) div 7 = 0" using before k by simp
    moreover have "0 \<le> k + L' + 6" using k L' by simp
    ultimately show ?thesis unfolding code L' [symmetric] by simp
  next
    case within
    have "date_get_year thursday = year"
      unfolding ty using y0 within jt jd w year_start_after [OF y0]
      by (intro year_of_day) (auto simp: k_def S_def L_def)
    moreover from this have "get_day_of_year thursday = k"
      using get_day_of_year_eq [OF t(2)] jt by (simp add: k_def S_def)
    moreover have "0 < (k + 6) div 7" using within by simp
    moreover have "\<not> c_div (k - L + 6) 7 > 0" if "(k + 6) div 7 = 53"
    proof -
      have "365 \<le> k" using that by linarith
      then show ?thesis using within L by (auto split: if_splits)
    qed
    ultimately show ?thesis unfolding code by auto
  next
    case after
    have "year \<noteq> - 1"
    proof
      assume 1: "year = - 1"
      then have "S + L = 1721426" using year_start_after [of "- 1"] monday by (simp add: S_def L_def year_after_def)
      then have "m_jd d < 1721426" "1721426 < m_jd d + 5 - (m_jd d mod 7 + 1)"
        using jd after w_eq by (simp_all add: k_def)
      then show False by presburger
    qed
    then have y': "year_after year = year + 1" "year + 1 \<noteq> 0" by (simp_all add: year_after_def)
    have S': "year_start (year + 1) = S + L" using year_start_after [OF y0] y'(1) by (simp add: S_def L_def)
    have "date_get_year thursday = year + 1"
      unfolding ty using y' after jt jd w k S' year_start_after [OF y'(2)] days_before_mono [of 1 13 "year + 1"]
        days_before_13 [of "year + 1"]
      by (intro year_of_day) (auto simp: k_def split: if_splits)
    moreover from this have "get_day_of_year thursday = k - L"
      using get_day_of_year_eq [OF t(2)] jt S' by (simp add: k_def)
    moreover have "(k + 6) div 7 = 53" using after k L by (auto split: if_splits)
    moreover have "c_div (k - L + 6) 7 = (k - L + 6) div 7" "0 < (k - L + 6) div 7"
      using after by auto
    ultimately show ?thesis unfolding code by simp
  qed
qed


subsection \<open>Months and years\<close>

lemma add_months_loop_eq:
  assumes "1 \<le> m \<and> m \<le> 12 \<or> m = 0 \<and> 0 < n \<and> n < 12" "add_months_loop y m n = (y', m')"
  shows "1 \<le> m' \<and> m' \<le> 12 \<and> 12 * y' + m' = 12 * y + m + n"
  using assms
proof (induction y m n rule: add_months_loop.induct)
  case (1 y m n)
  show ?case
    using 1 by (subst (asm) add_months_loop.simps) (auto simp: Let_def split: if_splits)
qed

definition calendar_year :: "int \<Rightarrow> int" where
  "calendar_year Y = (if Y \<le> 0 then Y - 1 else Y)"

lemma calendar_year_astro: "y \<noteq> 0 \<Longrightarrow> calendar_year (astro y) = y"
  by (auto simp: calendar_year_def astro_def)

lemma skip_year_0:
  fixes oldy y n :: int
  assumes "oldy \<noteq> 0" "n \<noteq> 0" "0 < n \<Longrightarrow> oldy \<le> y" "n < 0 \<Longrightarrow> y \<le> oldy"
  shows "(if (oldy > 0 \<and> y \<le> 0) \<or> (oldy < 0 \<and> y \<ge> 0) then y + (if n > 0 then 1 else - 1) else y)
    = calendar_year (astro oldy + (y - oldy))"
  using assms by (auto simp: calendar_year_def astro_def)

lemma fixed_date_eq:
  assumes "1 \<le> d"
  shows "fixed_date y m d =
    (if date_valid (set_date y m 1) then set_date y m (min d (days_of y m)) else date_null)"
proof (cases "date_valid (set_date y m 1)")
  case True
  note g = get_set_date [OF True]
  have "get_days_in_month (set_date y m 1) = days_of y m"
    using get_days_in_month_eq(1) [OF True] date_fields [OF True] g by simp
  then show ?thesis using True by (simp add: fixed_date_def)
next
  case False
  then show ?thesis using assms by (simp add: fixed_date_def get_days_in_month_def set_date_def date_is_valid_def)
qed

text \<open>The date that is n months away in the calendar without a year 0, its day at most the length of the month.\<close>

definition months_away :: "parsed_date \<Rightarrow> int \<Rightarrow> date" where
  "months_away p n =
     (let k = 12 * astro (m_year p) + (m_month p - 1) + n; y = calendar_year (k div 12); m = k mod 12 + 1
      in if date_valid (set_date y m 1) then set_date y m (min (m_day p) (days_of y m)) else date_null)"

lemma months_away_parts:
  assumes "1 \<le> m'" "m' \<le> 12" "12 * a + m' = 12 * astro (m_year p) + m_month p + n" "1 \<le> m_day p"
  shows "fixed_date (calendar_year a) m' (m_day p) = months_away p n"
proof -
  define k where "k = 12 * astro (m_year p) + (m_month p - 1) + n"
  have "k = 12 * a + (m' - 1)" using assms(3) by (simp add: k_def)
  then have "k div 12 = a" "k mod 12 = m' - 1"
    using assms(1,2) int_div_pos_eq [of k 12 a "m' - 1"] int_mod_pos_eq [of k 12 a "m' - 1"] by auto
  then show ?thesis unfolding months_away_def Let_def k_def [symmetric] fixed_date_eq [OF assms(4)] by simp
qed

lemma calendar_of_valid:
  assumes "date_valid d"
  shows "m_year (get_date d) \<noteq> 0" "1 \<le> m_month (get_date d)" "m_month (get_date d) \<le> 12" "1 \<le> m_day (get_date d)"
    "m_day (get_date d) \<le> days_of (m_year (get_date d)) (m_month (get_date d))"
    "d = set_date (m_year (get_date d)) (m_month (get_date d)) (m_day (get_date d))"
  using get_date_on [OF assms] encode_get_date [OF assms]
  by (simp_all add: on_calendar_def calendar_date_def set_date_def date_is_valid_eq encode_date_def)

lemma months_away_0:
  assumes "date_valid d"
  shows "months_away (get_date d) 0 = d"
proof -
  note c = calendar_of_valid [OF assms]
  have "date_valid (set_date (m_year (get_date d)) (m_month (get_date d)) 1)"
  proof -
    have "calendar_date (m_year (get_date d)) (m_month (get_date d)) (m_day (get_date d))"
      using c by (simp add: calendar_date_def)
    then have "- 2147483648 \<le> m_year (get_date d) \<and> m_year (get_date d) \<le> 2147483647"
      using date_valid_iff encode_get_date [OF assms] assms by (metis encode_date_def date.surjective old.unit.exhaust)
    then show ?thesis using c days_of_pos [of "m_year (get_date d)" "m_month (get_date d)"]
      by (intro set_date_valid) (simp_all add: calendar_date_def)
  qed
  then have "fixed_date (m_year (get_date d)) (m_month (get_date d)) (m_day (get_date d)) = d"
    using c(5,6) by (simp add: fixed_date_eq [OF c(4)] min_def)
  then show ?thesis
    using months_away_parts [OF c(2,3) _ c(4), of "astro (m_year (get_date d))" 0] calendar_year_astro [OF c(1)] by simp
qed

text \<open>\<open>addMonths\<close> and \<open>addYears\<close> move through the calendar, which has no year 0, by the given number of months,
  keep the day where the month has it and take the last day of the month where it has not, and give the null date
  when the month lies outside the representable years.\<close>

lemma date_add_months:
  assumes v: "date_valid d"
  shows "add_months d n = months_away (get_date d) n \<and> add_years d n = months_away (get_date d) (12 * n)"
proof
  define p where "p = get_date d"
  have p: "get_date_from_julian_day (m_jd d) = p" using v by (simp add: get_date_def p_def)
  note c = calendar_of_valid [OF v, folded p_def]
  show "add_months d n = months_away (get_date d) n"
  proof (cases "n = 0")
    case True
    then show ?thesis using months_away_0 [OF v] v by (simp add: add_months_def)
  next
    case False
    obtain y m where ym: "add_months_loop (m_year p) (m_month p) n = (y, m)" by fastforce
    have s: "1 \<le> m" "m \<le> 12" "12 * y + m = 12 * m_year p + m_month p + n"
      using add_months_loop_eq [OF _ ym] c by auto
    have dir: "0 < n \<Longrightarrow> m_year p \<le> y" "n < 0 \<Longrightarrow> y \<le> m_year p" using s c by linarith+
    have "add_months d n = fixed_date (calendar_year (astro (m_year p) + (y - m_year p))) m (m_day p)"
      using v False by (simp add: add_months_def p ym Let_def skip_year_0 [OF c(1) False dir])
    also have "\<dots> = months_away p n"
      using s by (intro months_away_parts c) (simp_all add: algebra_simps)
    finally show ?thesis by (simp add: p_def)
  qed
  show "add_years d n = months_away (get_date d) (12 * n)"
  proof (cases "n = 0")
    case True
    have "add_years d 0 = fixed_date (m_year p) (m_month p) (m_day p)"
      using v c(1) by (auto simp: add_years_def p Let_def)
    also have "\<dots> = months_away p 0"
      using months_away_parts [OF c(2,3) _ c(4), of "astro (m_year p)" 0] calendar_year_astro [OF c(1)] by simp
    finally show ?thesis using True by (simp add: p_def)
  next
    case False
    have "add_years d n = fixed_date (calendar_year (astro (m_year p) + n)) (m_month p) (m_day p)"
      using v skip_year_0 [OF c(1) False, of "m_year p + n"] by (simp add: add_years_def p Let_def)
    also have "\<dots> = months_away p (12 * n)"
      using c by (intro months_away_parts) simp_all
    finally show ?thesis by (simp add: p_def)
  qed
qed

end
