(* ===== verification/Clock_Times.thy ===== *)
theory Clock_Times
  imports Pdk_Prelude
begin

text \<open>
  \<open>pdk::time::Time\<close> (\<open>src/modules/base/time/DateTime.cpp\<close>, \<open>include/pdk/base/time/Time.h\<close>): a time of
  day as milliseconds since midnight, -1 for the null time.  Where the C++ computes with \<open>int\<close> on an
  argument of the caller, an intermediate result outside 32 bits is undefined behaviour: the model
  returns \<open>None\<close> there.  The current time, which the system clock gives, is a parameter.
\<close>

definition secs_per_day :: int where "secs_per_day = 86400"
definition msecs_per_day :: int where "msecs_per_day = 86400000"
definition secs_per_hour :: int where "secs_per_hour = 3600"
definition msecs_per_hour :: int where "msecs_per_hour = 3600000"
definition secs_per_min :: int where "secs_per_min = 60"
definition msecs_per_min :: int where "msecs_per_min = 60000"

lemmas time_consts = secs_per_day_def msecs_per_day_def secs_per_hour_def msecs_per_hour_def
  secs_per_min_def msecs_per_min_def

definition in_int :: "int \<Rightarrow> bool" where
  "in_int x \<longleftrightarrow> - (2 ^ 31) \<le> x \<and> x < 2 ^ 31"

record clock_time =
  m_mds :: int

definition time_null :: clock_time where
  "time_null = \<lparr>m_mds = - 1\<rparr>"

definition time_ds :: "clock_time \<Rightarrow> int" where
  "time_ds t = (if m_mds t = - 1 then 0 else m_mds t)"

definition time_valid :: "clock_time \<Rightarrow> bool" where
  "time_valid t \<longleftrightarrow> m_mds t > - 1 \<and> m_mds t < msecs_per_day"

definition time_is_null :: "clock_time \<Rightarrow> bool" where
  "time_is_null t \<longleftrightarrow> m_mds t = - 1"

definition get_hour :: "clock_time \<Rightarrow> int" where
  "get_hour t = (if \<not> time_valid t then - 1 else c_div (time_ds t) msecs_per_hour)"

definition get_minute :: "clock_time \<Rightarrow> int" where
  "get_minute t = (if \<not> time_valid t then - 1 else c_div (c_mod (time_ds t) msecs_per_hour) msecs_per_min)"

definition get_second :: "clock_time \<Rightarrow> int" where
  "get_second t = (if \<not> time_valid t then - 1 else c_mod (c_div (time_ds t) 1000) secs_per_min)"

definition get_msec :: "clock_time \<Rightarrow> int" where
  "get_msec t = (if \<not> time_valid t then - 1 else c_mod (time_ds t) 1000)"

text \<open>The arguments are converted to \<open>unsigned\<close>: a negative one is not below the bound.\<close>

definition time_is_valid :: "int \<Rightarrow> int \<Rightarrow> int \<Rightarrow> int \<Rightarrow> bool" where
  "time_is_valid h m s ms \<longleftrightarrow>
     h mod 2 ^ 32 < 24 \<and> m mod 2 ^ 32 < 60 \<and> s mod 2 ^ 32 < 60 \<and> ms mod 2 ^ 32 < 1000"

definition set_hms :: "int \<Rightarrow> int \<Rightarrow> int \<Rightarrow> int \<Rightarrow> clock_time" where
  "set_hms h m s ms =
     (if \<not> time_is_valid h m s ms then time_null
      else \<lparr>m_mds = (h * secs_per_hour + m * secs_per_min + s) * 1000 + ms\<rparr>)"

definition from_msecs_since_start_of_day :: "int \<Rightarrow> clock_time" where
  "from_msecs_since_start_of_day msecs = \<lparr>m_mds = msecs\<rparr>"

definition msecs_since_start_of_day :: "clock_time \<Rightarrow> int" where
  "msecs_since_start_of_day t = (if m_mds t = - 1 then 0 else m_mds t)"

definition time_add_msecs :: "clock_time \<Rightarrow> int \<Rightarrow> clock_time option" where
  "time_add_msecs t ms =
     (if time_valid t
      then if ms < 0
           then if \<not> in_int (msecs_per_day - ms) then None
                else let negdays = c_div (msecs_per_day - ms) msecs_per_day
                     in if \<not> in_int (time_ds t + ms) \<or> \<not> in_int (negdays * msecs_per_day)
                          \<or> \<not> in_int (time_ds t + ms + negdays * msecs_per_day) then None
                        else Some \<lparr>m_mds = c_mod (time_ds t + ms + negdays * msecs_per_day) msecs_per_day\<rparr>
           else if \<not> in_int (time_ds t + ms) then None
                else Some \<lparr>m_mds = c_mod (time_ds t + ms) msecs_per_day\<rparr>
      else Some time_null)"

definition time_add_secs :: "clock_time \<Rightarrow> int \<Rightarrow> clock_time option" where
  "time_add_secs t s = time_add_msecs t (c_mod s secs_per_day * 1000)"

definition time_secs_to :: "clock_time \<Rightarrow> clock_time \<Rightarrow> int" where
  "time_secs_to t u =
     (if \<not> time_valid t \<or> \<not> time_valid u then 0
      else let ourSeconds = c_div (time_ds t) 1000; theirSeconds = c_div (time_ds u) 1000
           in theirSeconds - ourSeconds)"

definition time_msecs_to :: "clock_time \<Rightarrow> clock_time \<Rightarrow> int" where
  "time_msecs_to t u = (if \<not> time_valid t \<or> \<not> time_valid u then 0 else time_ds u - time_ds t)"

text \<open>\<open>restart\<close>: the elapsed milliseconds and the new start.\<close>

definition time_restart :: "clock_time \<Rightarrow> clock_time \<Rightarrow> int \<times> clock_time" where
  "time_restart now t =
     (let n = time_msecs_to t now; n = (if n < 0 then n + 86400 * 1000 else n) in (n, now))"

definition time_elapsed :: "clock_time \<Rightarrow> clock_time \<Rightarrow> int" where
  "time_elapsed now t = (let n = time_msecs_to t now in if n < 0 then n + 86400 * 1000 else n)"

section \<open>Properties\<close>

lemma time_valid_ds:
  assumes "time_valid t"
  shows "time_ds t = m_mds t" "0 \<le> m_mds t" "m_mds t < 86400000"
  using assms by (simp_all add: time_valid_def time_ds_def msecs_per_day_def)

lemma unsigned_below: "in_int x \<Longrightarrow> n \<le> 2 ^ 31 \<Longrightarrow> x mod 2 ^ 32 < n \<longleftrightarrow> 0 \<le> x \<and> x < n"
proof -
  assume x: "in_int x" and n: "n \<le> 2 ^ 31"
  show ?thesis
  proof (cases "0 \<le> x")
    case True
    then show ?thesis using x by (simp add: in_int_def)
  next
    case False
    then have "x mod 2 ^ 32 = x + 2 ^ 32"
      using x by (intro int_mod_pos_eq [of x "2 ^ 32" "- 1"]) (simp_all add: in_int_def)
    then show ?thesis using False x n by (simp add: in_int_def)
  qed
qed

lemma time_is_valid_iff:
  assumes "in_int h" "in_int m" "in_int s" "in_int ms"
  shows "time_is_valid h m s ms \<longleftrightarrow> 0 \<le> h \<and> h < 24 \<and> 0 \<le> m \<and> m < 60 \<and> 0 \<le> s \<and> s < 60 \<and> 0 \<le> ms \<and> ms < 1000"
  using assms by (simp add: time_is_valid_def unsigned_below [simplified])

lemma mds_digits:
  assumes "0 \<le> m" "m < 60" "0 \<le> s" "s < 60" "0 \<le> ms" "ms < (1000 :: int)"
  shows "((h * 3600 + m * 60 + s) * 1000 + ms) div 3600000 = h"
    "((h * 3600 + m * 60 + s) * 1000 + ms) mod 3600000 div 60000 = m"
    "((h * 3600 + m * 60 + s) * 1000 + ms) div 1000 mod 60 = s"
    "((h * 3600 + m * 60 + s) * 1000 + ms) mod 1000 = ms"
proof -
  let ?t = "(h * 3600 + m * 60 + s) * 1000 + ms"
  show "?t div 3600000 = h" using assms by (intro int_div_pos_eq [of _ _ _ "(m * 60 + s) * 1000 + ms"]) auto
  have "?t mod 3600000 = (m * 60 + s) * 1000 + ms" using assms by (intro int_mod_pos_eq [of _ _ h]) auto
  moreover have "((m * 60 + s) * 1000 + ms) div 60000 = m"
    using assms by (intro int_div_pos_eq [of _ _ _ "s * 1000 + ms"]) auto
  ultimately show "?t mod 3600000 div 60000 = m" by simp
  have "?t div 1000 = h * 3600 + m * 60 + s" using assms by (intro int_div_pos_eq [of _ _ _ ms]) auto
  moreover have "(h * 3600 + m * 60 + s) mod 60 = s" using assms by (intro int_mod_pos_eq [of _ _ "h * 60 + m"]) auto
  ultimately show "?t div 1000 mod 60 = s" by simp
  show "?t mod 1000 = ms" using assms by (intro int_mod_pos_eq [of _ _ "h * 3600 + m * 60 + s"]) auto
qed

lemma set_hms_fields:
  fixes h m s ms :: int
  assumes "0 \<le> h" "h < 24" "0 \<le> m" "m < 60" "0 \<le> s" "s < 60" "0 \<le> ms" "ms < 1000"
  defines "t \<equiv> set_hms h m s ms"
  shows "t = \<lparr>m_mds = (h * 3600 + m * 60 + s) * 1000 + ms\<rparr>" "time_valid t"
    "get_hour t = h" "get_minute t = m" "get_second t = s" "get_msec t = ms"
proof -
  show t: "t = \<lparr>m_mds = (h * 3600 + m * 60 + s) * 1000 + ms\<rparr>"
    using assms by (simp add: set_hms_def time_is_valid_iff in_int_def time_consts)
  have b: "0 \<le> (h * 3600 + m * 60 + s) * 1000 + ms" "(h * 3600 + m * 60 + s) * 1000 + ms < 86400000"
    using assms by auto
  then show v: "time_valid t" by (simp add: t time_valid_def msecs_per_day_def)
  have d: "time_ds t = (h * 3600 + m * 60 + s) * 1000 + ms" using b by (simp add: t time_ds_def)
  have "time_ds t div 3600000 = h" "time_ds t mod 3600000 div 60000 = m" "time_ds t div 1000 mod 60 = s"
    "time_ds t mod 1000 = ms"
    using mds_digits [of m s ms h] assms(3-8) unfolding d by blast+
  moreover have "0 \<le> time_ds t" using b d by simp
  ultimately show "get_hour t = h" "get_minute t = m" "get_second t = s" "get_msec t = ms"
    using v by (simp_all add: get_hour_def get_minute_def get_second_def get_msec_def time_consts)
qed

text \<open>A time set from an hour, a minute, a second and a millisecond in range reads back as these four; with any
  other four 32-bit integers it is the null time, whose parts read as -1.\<close>

lemma time_set_get:
  assumes "in_int h" "in_int m" "in_int s" "in_int ms" "t = set_hms h m s ms"
  shows "if 0 \<le> h \<and> h < 24 \<and> 0 \<le> m \<and> m < 60 \<and> 0 \<le> s \<and> s < 60 \<and> 0 \<le> ms \<and> ms < 1000
    then get_hour t = h \<and> get_minute t = m \<and> get_second t = s \<and> get_msec t = ms
    else time_is_null t \<and> get_hour t = - 1 \<and> get_minute t = - 1 \<and> get_second t = - 1 \<and> get_msec t = - 1"
proof (cases "0 \<le> h \<and> h < 24 \<and> 0 \<le> m \<and> m < 60 \<and> 0 \<le> s \<and> s < 60 \<and> 0 \<le> ms \<and> ms < 1000")
  case True
  then show ?thesis using set_hms_fields [of h m s ms] assms(5) by simp
next
  case False
  then have "t = time_null" using assms by (auto simp: set_hms_def time_is_valid_iff)
  then have "time_is_null t \<and> \<not> time_valid t" by (simp add: time_null_def time_is_null_def time_valid_def)
  then show ?thesis using False by (simp add: get_hour_def get_minute_def get_second_def get_msec_def)
qed

lemma add_msecs_modulo:
  assumes v: "time_valid t" and ms: "in_int ms"
  shows "time_add_msecs t ms =
    (if - 2061083647 \<le> ms \<and> m_mds t + ms < 2 ^ 31 then Some \<lparr>m_mds = (m_mds t + ms) mod 86400000\<rparr> else None)"
proof (cases "ms < 0")
  case neg: True
  note d = time_valid_ds [OF v]
  show ?thesis
  proof (cases "- 2061083647 \<le> ms")
    case True
    define q where "q = (86400000 - ms) div 86400000"
    have q: "q * 86400000 \<le> 86400000 - ms" "86400000 - ms < (q + 1) * 86400000"
      using mult_div_mod_eq [of 86400000 "86400000 - ms"] pos_mod_bound [of 86400000 "86400000 - ms"]
        pos_mod_sign [of 86400000 "86400000 - ms"] unfolding q_def by simp_all
    have "0 \<le> q" using neg by (simp add: q_def pos_imp_zdiv_nonneg_iff)
    moreover have "q * 86400000 < 2 ^ 31" using q True by simp
    moreover have "0 \<le> m_mds t + ms + q * 86400000" using q d by (simp add: algebra_simps)
    moreover have "m_mds t + ms + q * 86400000 \<le> 172800000" using q d by (simp add: algebra_simps)
    moreover have "(m_mds t + ms + q * 86400000) mod 86400000 = (m_mds t + ms) mod 86400000"
      using mod_mult_self1 [of "m_mds t + ms" q 86400000] by simp
    moreover have "in_int (86400000 - ms)" "in_int (m_mds t + ms)" using True neg d by (simp_all add: in_int_def)
    moreover have "c_div (86400000 - ms) 86400000 = q" using neg by (simp add: q_def)
    ultimately show ?thesis using True neg v d by (simp add: time_add_msecs_def msecs_per_day_def in_int_def Let_def)
  next
    case False
    then show ?thesis using neg v by (simp add: time_add_msecs_def msecs_per_day_def in_int_def)
  qed
next
  case False
  then show ?thesis using v time_valid_ds [OF v] ms by (simp add: time_add_msecs_def msecs_per_day_def in_int_def)
qed

text \<open>Adding milliseconds to a valid time is addition modulo a day in the range where the C++ is defined, and the
  result is undefined (\<open>None\<close>) exactly outside it: above the largest \<open>int\<close> minus the time, and below -2061083647.\<close>

lemma time_add_msecs_modulo:
  assumes v: "time_valid t" and ms: "in_int ms"
  shows "time_add_msecs t ms =
    (if - 2061083647 \<le> ms \<and> m_mds t + ms < 2 ^ 31 then Some \<lparr>m_mds = (m_mds t + ms) mod 86400000\<rparr> else None)"
  using add_msecs_modulo [OF v ms] .

lemma c_mod_bound: "0 < b \<Longrightarrow> - b < c_mod a b \<and> c_mod a b < b"
proof -
  assume b: "0 < b"
  then have "0 \<le> a mod b" "a mod b < b" "0 \<le> - a mod b" "- a mod b < b" by simp_all
  moreover have "c_mod a b = (if a < 0 then - (- a mod b) else a mod b)" using b by (simp add: c_mod_neg)
  ultimately show ?thesis using b by (auto simp only: split: if_splits)
qed

lemma c_mod_cong: "0 < b \<Longrightarrow> c_mod a b mod b = a mod b"
  by (simp add: c_mod_def mod_diff_eq [symmetric])

text \<open>Adding seconds is defined for every 32-bit argument and is addition modulo a day; a clock started at a valid
  time and read at another valid time shows the milliseconds from the one to the other modulo a day.\<close>

lemma time_add_secs_elapsed:
  assumes v: "time_valid t" and now: "time_valid now"
  shows "time_add_secs t s = Some \<lparr>m_mds = (m_mds t + s * 1000) mod 86400000\<rparr> \<and>
    time_elapsed now t = (m_mds now - m_mds t) mod 86400000 \<and> time_restart now t = (time_elapsed now t, now)"
proof (intro conjI)
  note d = time_valid_ds [OF v] and n = time_valid_ds [OF now]
  have b: "- 86400 < c_mod s 86400" "c_mod s 86400 < 86400" using c_mod_bound [of 86400 s] by simp_all
  have "(m_mds t + c_mod s 86400 * 1000) mod 86400000 = (m_mds t + s * 1000) mod 86400000"
  proof -
    have "c_mod s 86400 * 1000 = s * 1000 - c_div s 86400 * 86400000" by (simp add: c_mod_def algebra_simps)
    then have "m_mds t + c_mod s 86400 * 1000 = m_mds t + s * 1000 + (- c_div s 86400) * 86400000" by simp
    then show ?thesis by (metis mod_mult_self1)
  qed
  then show "time_add_secs t s = Some \<lparr>m_mds = (m_mds t + s * 1000) mod 86400000\<rparr>"
    using add_msecs_modulo [OF v, of "c_mod s 86400 * 1000"] b d
    by (simp add: time_add_secs_def secs_per_day_def in_int_def)
  show "time_elapsed now t = (m_mds now - m_mds t) mod 86400000"
  proof (cases "m_mds now < m_mds t")
    case True
    then have "(m_mds now - m_mds t) mod 86400000 = m_mds now - m_mds t + 86400000"
      using d n by (intro int_mod_pos_eq [of _ _ "- 1"]) auto
    then show ?thesis using True v now d n by (simp add: time_elapsed_def time_msecs_to_def)
  next
    case False
    then show ?thesis using v now d n by (simp add: time_elapsed_def time_msecs_to_def)
  qed
  show "time_restart now t = (time_elapsed now t, now)" by (simp add: time_restart_def time_elapsed_def Let_def)
qed

end
