(* ===== verification/Date_Times.thy ===== *)
theory Date_Times
  imports Gregorian Clock_Times
begin

text \<open>
  \<open>pdk::time::DateTime\<close> (\<open>src/modules/base/time/DateTime.cpp\<close>, \<open>include/pdk/base/time/DateTime.h\<close>,
  \<open>internal/DateTimePrivate.h\<close>): a date and a time with a time specification.

  The data is a machine word in one of two forms: 56 bits of milliseconds with a status byte
  (constructor \<open>Short\<close>), or a pointer to a reference-counted \<open>DateTimePrivate\<close> (constructor \<open>Long\<close>).
  Every write through the pointer follows a \<open>detach\<close>, which the code asserts, so the shared object is
  modelled by its value.  No operation sets a status bit above the eighth, so the status is a byte in
  both forms.  Milliseconds are \<open>int\<close>: the properties that need it say when they fit in 64 bits.

  What the C library and the time zone backends give is the parameter \<open>P :: 'z platform\<close>: \<open>mktime\<close>
  (\<open>None\<close> for -1), \<open>localtime_r\<close>, the variables \<open>timezone\<close> and \<open>tzname\<close>, and the virtual functions of
  \<open>TimeZonePrivate\<close> on a time zone of type \<open>'z\<close>.
\<close>

section \<open>Platform\<close>

record tm =
  tm_sec :: int
  tm_min :: int
  tm_hour :: int
  tm_mday :: int
  tm_mon :: int
  tm_year :: int
  tm_isdst :: int

record zone_data =
  zd_atMSecsSinceEpoch :: int
  zd_offsetFromUtc :: int
  zd_standardTimeOffset :: int

record 'z platform =
  p_mktime :: "tm \<Rightarrow> (int \<times> tm) option"
  p_localtime :: "int \<Rightarrow> tm option"
  p_timezone :: int
  p_tzname :: "bool \<Rightarrow> string"
  z_null :: 'z
  z_valid :: "'z \<Rightarrow> bool"
  z_offsetFromUtc :: "'z \<Rightarrow> int \<Rightarrow> int"
  z_standardTimeOffset :: "'z \<Rightarrow> int \<Rightarrow> int"
  z_isDaylightTime :: "'z \<Rightarrow> int \<Rightarrow> bool"
  z_dataForLocalTime :: "'z \<Rightarrow> int \<Rightarrow> int \<Rightarrow> zone_data"

datatype time_spec = LocalTime | UTC | OffsetFromUTC | TimeZone

fun spec_index :: "time_spec \<Rightarrow> byte" where
  "spec_index LocalTime = 0" | "spec_index UTC = 1" | "spec_index OffsetFromUTC = 2" | "spec_index TimeZone = 3"

definition spec_of_index :: "byte \<Rightarrow> time_spec" where
  "spec_of_index i = (if i = 0 then LocalTime else if i = 1 then UTC else if i = 2 then OffsetFromUTC else TimeZone)"

datatype daylight_status = UnknownDaylightTime | StandardTime | DaylightTime

fun daylight_int :: "daylight_status \<Rightarrow> int" where
  "daylight_int UnknownDaylightTime = - 1" | "daylight_int StandardTime = 0" | "daylight_int DaylightTime = 1"

section \<open>Status bits\<close>

abbreviation (input) ShortData :: byte where "ShortData \<equiv> 0x01"
abbreviation (input) ValidDate :: byte where "ValidDate \<equiv> 0x02"
abbreviation (input) ValidTime :: byte where "ValidTime \<equiv> 0x04"
abbreviation (input) ValidDateTime :: byte where "ValidDateTime \<equiv> 0x08"
abbreviation (input) TimeSpecMask :: byte where "TimeSpecMask \<equiv> 0x30"
abbreviation (input) SetToStandardTime :: byte where "SetToStandardTime \<equiv> 0x40"
abbreviation (input) SetToDaylightTime :: byte where "SetToDaylightTime \<equiv> 0x80"
abbreviation (input) ValidityMask :: byte where "ValidityMask \<equiv> 0x0E"
abbreviation (input) DaylightMask :: byte where "DaylightMask \<equiv> 0xC0"

unbundle bit_operations_syntax

definition merge_spec :: "byte \<Rightarrow> time_spec \<Rightarrow> byte" where
  "merge_spec status spec = (status AND NOT TimeSpecMask) OR push_bit 4 (spec_index spec)"

definition extract_spec :: "byte \<Rightarrow> time_spec" where
  "extract_spec status = spec_of_index (drop_bit 4 (status AND TimeSpecMask))"

definition merge_daylight_status :: "byte \<Rightarrow> daylight_status \<Rightarrow> byte" where
  "merge_daylight_status sf status =
     (let sf = sf AND NOT DaylightMask
      in if status = DaylightTime then sf OR SetToDaylightTime
         else if status = StandardTime then sf OR SetToStandardTime else sf)"

definition extract_daylight_status :: "byte \<Rightarrow> daylight_status" where
  "extract_daylight_status status =
     (if status AND SetToDaylightTime \<noteq> 0 then DaylightTime
      else if status AND SetToStandardTime \<noteq> 0 then StandardTime else UnknownDaylightTime)"

section \<open>Milliseconds\<close>

definition julian_day_for_epoch :: int where "julian_day_for_epoch = 2440588"
definition time_t_max :: int where "time_t_max = 2145916799"

definition msecs_to_time :: "int \<Rightarrow> date \<times> clock_time" where
  "msecs_to_time msecs =
     (let jd = julian_day_for_epoch;
          (jd, msecs) = (if \<bar>msecs\<bar> \<ge> msecs_per_day
                         then (jd + c_div msecs msecs_per_day, c_mod msecs msecs_per_day) else (jd, msecs));
          (jd, ds) = (if msecs < 0
                      then let ds = msecs_per_day - msecs - 1;
                               jd = jd - c_div ds msecs_per_day;
                               ds = c_mod ds msecs_per_day
                           in (jd, msecs_per_day - ds - 1)
                      else (jd, msecs))
      in (from_julian_day jd, from_msecs_since_start_of_day ds))"

definition time_to_msecs :: "date \<Rightarrow> clock_time \<Rightarrow> int" where
  "time_to_msecs date time = (m_jd date - julian_day_for_epoch) * msecs_per_day + msecs_since_start_of_day time"

section \<open>Local time\<close>

record local_result =
  lr_msecs :: int
  lr_date :: date
  lr_time :: clock_time
  lr_dst :: daylight_status
  lr_abbreviation :: string
  lr_ok :: bool

text \<open>\<open>pdk_mktime\<close>, always called with a daylight status.\<close>

definition pdk_mktime :: "'z platform \<Rightarrow> date \<Rightarrow> clock_time \<Rightarrow> daylight_status \<Rightarrow> local_result" where
  "pdk_mktime P date time dst =
     (let msec = get_msec time;
          pd = get_date date;
          local = \<lparr>tm_sec = get_second time, tm_min = get_minute time, tm_hour = get_hour time,
                   tm_mday = m_day pd, tm_mon = m_month pd - 1, tm_year = m_year pd - 1900,
                   tm_isdst = daylight_int dst\<rparr>
      in case p_mktime P local of
           Some (secsSinceEpoch, local) \<Rightarrow>
             \<lparr>lr_msecs = secsSinceEpoch * 1000 + msec,
              lr_date = set_date (tm_year local + 1900) (tm_mon local + 1) (tm_mday local),
              lr_time = set_hms (tm_hour local) (tm_min local) (tm_sec local) msec,
              lr_dst = (if tm_isdst local \<ge> 1 then DaylightTime
                        else if tm_isdst local = 0 then StandardTime else UnknownDaylightTime),
              lr_abbreviation = p_tzname P (tm_isdst local \<ge> 1),
              lr_ok = True\<rparr>
         | None \<Rightarrow>
             \<lparr>lr_msecs = - 1 * 1000 + msec, lr_date = date_null, lr_time = time_null,
              lr_dst = UnknownDaylightTime, lr_abbreviation = '''', lr_ok = False\<rparr>)"

definition pdk_localtime :: "'z platform \<Rightarrow> int \<Rightarrow> bool \<times> date \<times> clock_time \<times> daylight_status" where
  "pdk_localtime P msecsSinceEpoch =
     (let secsSinceEpoch = c_div msecsSinceEpoch 1000; msec = c_mod msecsSinceEpoch 1000
      in case p_localtime P secsSinceEpoch of
           Some local \<Rightarrow>
             (True, set_date (tm_year local + 1900) (tm_mon local + 1) (tm_mday local),
              set_hms (tm_hour local) (tm_min local) (tm_sec local) msec,
              if tm_isdst local > 0 then DaylightTime
              else if tm_isdst local < 0 then UnknownDaylightTime else StandardTime)
         | None \<Rightarrow> (False, date_null, time_null, UnknownDaylightTime))"

text \<open>The date of the year 2037 that stands for a date after it.\<close>

definition fake_date :: "date \<Rightarrow> date" where
  "fake_date dt =
     (let pd = get_date dt; month = m_month pd; day = m_day pd;
          day = (if month = 2 \<and> day = 29 then day - 1 else day)
      in set_date 2037 month day)"

definition local_msecs_to_epoch_msecs :: "'z platform \<Rightarrow> int \<Rightarrow> daylight_status \<Rightarrow> local_result" where
  "local_msecs_to_epoch_msecs P localMsecs dst =
     (let (dt, tm) = msecs_to_time localMsecs;
          msecsMax = time_t_max * 1000
      in if localMsecs \<le> msecs_per_day
         then let r = pdk_mktime P dt tm dst
              in if localMsecs \<ge> - msecs_per_day \<and> lr_ok r \<and> lr_msecs r \<ge> 0 then r
                 else \<lparr>lr_msecs = localMsecs + p_timezone P * 1000,
                       lr_date = fst (msecs_to_time localMsecs), lr_time = snd (msecs_to_time localMsecs),
                       lr_dst = StandardTime, lr_abbreviation = p_tzname P False, lr_ok = True\<rparr>
         else if localMsecs \<ge> msecsMax - msecs_per_day
         then let r = pdk_mktime P dt tm dst;
                  near = (localMsecs \<le> msecsMax + msecs_per_day)
              in if near \<and> lr_ok r \<and> lr_msecs r \<le> msecsMax then r
                 else let (dt, tm, dst) = (if near then (lr_date r, lr_time r, lr_dst r) else (dt, tm, dst));
                          fakeDate = fake_date dt;
                          fakeDiff = days_to fakeDate dt;
                          r = pdk_mktime P fakeDate tm dst;
                          (utcDate, utcTime) = msecs_to_time (lr_msecs r);
                          utcDate = add_days utcDate fakeDiff
                      in r\<lparr>lr_msecs := time_to_msecs utcDate utcTime, lr_date := add_days (lr_date r) fakeDiff\<rparr>
         else pdk_mktime P dt tm dst)"

text \<open>\<open>zoneMSecsToEpochMSecs\<close>: the milliseconds in UTC and the adjusted local date and time.\<close>

definition zone_msecs_to_epoch_msecs :: "'z platform \<Rightarrow> int \<Rightarrow> 'z \<Rightarrow> daylight_status \<Rightarrow> int \<times> date \<times> clock_time" where
  "zone_msecs_to_epoch_msecs P zoneMSecs zone hint =
     (let data = z_dataForLocalTime P zone zoneMSecs (daylight_int hint)
      in if zd_atMSecsSinceEpoch data \<ge> 0
         then (zd_atMSecsSinceEpoch data, msecs_to_time (zd_atMSecsSinceEpoch data + zd_offsetFromUtc data * 1000))
         else (zoneMSecs - zd_standardTimeOffset data * 1000, msecs_to_time zoneMSecs))"

section \<open>The data\<close>

record 'z dt_private =
  dp_msecs :: int
  dp_status :: byte
  dp_offsetFromUtc :: int
  dp_timeZone :: 'z

datatype 'z dt_data = Short (short_status: byte) (short_msecs: int) | Long "'z dt_private"

definition spec_can_be_small :: "time_spec \<Rightarrow> bool" where
  "spec_can_be_small spec \<longleftrightarrow> spec = LocalTime \<or> spec = UTC"

definition msecs_can_be_small :: "int \<Rightarrow> bool" where
  "msecs_can_be_small msecs \<longleftrightarrow> sint (word_of_int msecs :: 56 word) = msecs"

fun is_short :: "'z dt_data \<Rightarrow> bool" where
  "is_short (Short s m) = True" | "is_short (Long p) = False"

fun get_msecs :: "'z dt_data \<Rightarrow> int" where
  "get_msecs (Short s m) = m" | "get_msecs (Long p) = dp_msecs p"

fun get_status :: "'z dt_data \<Rightarrow> byte" where
  "get_status (Short s m) = s" | "get_status (Long p) = dp_status p"

fun dt_offset :: "'z dt_data \<Rightarrow> int" where
  "dt_offset (Short s m) = 0" | "dt_offset (Long p) = dp_offsetFromUtc p"

definition get_spec :: "'z dt_data \<Rightarrow> time_spec" where
  "get_spec d = extract_spec (get_status d)"

text \<open>Writes to the active member of the union; writing the other member is excluded by \<open>dt_wf\<close> below.\<close>

fun put_short :: "'z dt_data \<Rightarrow> byte \<Rightarrow> 'z dt_data" where
  "put_short (Short s m) status = Short status m" | "put_short (Long p) status = Long p"

fun upd_long :: "('z dt_private \<Rightarrow> 'z dt_private) \<Rightarrow> 'z dt_data \<Rightarrow> 'z dt_data" where
  "upd_long f (Short s m) = Short s m" | "upd_long f (Long p) = Long (f p)"

definition data_default :: "'z dt_data" where
  "data_default = Short (merge_spec ShortData LocalTime) 0"

definition data_of_spec :: "'z platform \<Rightarrow> time_spec \<Rightarrow> 'z dt_data" where
  "data_of_spec P spec =
     (if spec_can_be_small spec then Short (merge_spec ShortData spec) 0
      else Long \<lparr>dp_msecs = 0, dp_status = merge_spec 0 spec, dp_offsetFromUtc = 0, dp_timeZone = z_null P\<rparr>)"

fun data_copy :: "'z dt_data \<Rightarrow> 'z dt_data" where
  "data_copy (Short s m) = Short s m"
| "data_copy (Long p) =
     (if spec_can_be_small (extract_spec (dp_status p)) \<and> msecs_can_be_small (dp_msecs p)
      then Short (dp_status p OR ShortData) (dp_msecs p) else Long p)"

fun dt_detach :: "'z platform \<Rightarrow> 'z dt_data \<Rightarrow> 'z dt_data" where
  "dt_detach P (Short s m) =
     Long \<lparr>dp_msecs = m, dp_status = s AND NOT ShortData, dp_offsetFromUtc = 0, dp_timeZone = z_null P\<rparr>"
| "dt_detach P (Long p) = Long p"

section \<open>Validity\<close>

definition put_status :: "'z dt_data \<Rightarrow> byte \<Rightarrow> 'z dt_data" where
  "put_status d status =
     (if status AND ShortData \<noteq> 0 then put_short d status else upd_long (\<lambda>p. p\<lparr>dp_status := status\<rparr>) d)"

text \<open>The two ends of \<open>refresh_datetime\<close>: the status, and in long data the cached offset.\<close>

definition put_refreshed :: "'z dt_data \<Rightarrow> byte \<Rightarrow> int \<Rightarrow> 'z dt_data" where
  "put_refreshed d status offset =
     (if status AND ShortData \<noteq> 0 then put_short d status
      else upd_long (\<lambda>p. p\<lparr>dp_status := status, dp_offsetFromUtc := offset\<rparr>) d)"

text \<open>Its first part: a time zone that is not valid, or the UTC time by the time zone.\<close>

definition refresh_zone :: "'z platform \<Rightarrow> 'z dt_data \<Rightarrow> 'z dt_data \<times> byte \<times> int \<times> date \<times> clock_time" where
  "refresh_zone P d =
     (let status = get_status d; msecs = get_msecs d
      in case d of
           Long p \<Rightarrow>
             (if extract_spec status = TimeZone
              then if \<not> z_valid P (dp_timeZone p) then (d, status AND NOT ValidDateTime, 0, date_null, time_null)
                   else let (epochMSecs, testDate, testTime) =
                              zone_msecs_to_epoch_msecs P msecs (dp_timeZone p) (extract_daylight_status status)
                        in (Long (p\<lparr>dp_offsetFromUtc := z_offsetFromUtc P (dp_timeZone p) epochMSecs\<rparr>),
                            status, epochMSecs, testDate, testTime)
              else (d, status, 0, date_null, time_null))
         | Short _ _ \<Rightarrow> (d, status, 0, date_null, time_null))"

definition refresh_datetime :: "'z platform \<Rightarrow> 'z dt_data \<Rightarrow> 'z dt_data" where
  "refresh_datetime P d =
     (let spec = get_spec d; msecs = get_msecs d;
          (d, status, epochMSecs, testDate, testTime) = refresh_zone P d
      in if status AND ValidDate = 0 \<or> status AND ValidTime = 0
         then put_refreshed d (status AND NOT ValidDateTime) 0
         else let r = local_msecs_to_epoch_msecs P msecs (extract_daylight_status status);
                  (epochMSecs, testDate, testTime) =
                    (if spec = LocalTime then (lr_msecs r, lr_date r, lr_time r) else (epochMSecs, testDate, testTime))
              in if time_to_msecs testDate testTime = msecs
                 then put_refreshed d (status OR ValidDateTime) (c_div (msecs - epochMSecs) 1000)
                 else put_refreshed d (status AND NOT ValidDateTime) 0)"

definition check_valid_datetime :: "'z platform \<Rightarrow> 'z dt_data \<Rightarrow> 'z dt_data" where
  "check_valid_datetime P d =
     (let status = get_status d; spec = extract_spec status
      in if spec = OffsetFromUTC \<or> spec = UTC
         then if status AND ValidDate \<noteq> 0 \<and> status AND ValidTime \<noteq> 0
              then put_status d (status OR ValidDateTime)
              else put_status d (status AND NOT ValidDateTime)
         else refresh_datetime P d)"

definition set_time_spec :: "'z platform \<Rightarrow> 'z dt_data \<Rightarrow> time_spec \<Rightarrow> int \<Rightarrow> 'z dt_data" where
  "set_time_spec P d spec offsetSeconds =
     (let status = get_status d AND NOT (ValidDateTime OR DaylightMask OR TimeSpecMask);
          (spec, offsetSeconds) =
            (case spec of
               OffsetFromUTC \<Rightarrow> (if offsetSeconds = 0 then UTC else OffsetFromUTC, offsetSeconds)
             | TimeZone \<Rightarrow> (LocalTime, 0)
             | UTC \<Rightarrow> (UTC, 0)
             | LocalTime \<Rightarrow> (LocalTime, 0));
          status = merge_spec status spec
      in if is_short d \<and> offsetSeconds = 0 then put_short d status
         else upd_long (\<lambda>p. p\<lparr>dp_status := status AND NOT ShortData, dp_offsetFromUtc := offsetSeconds,
                              dp_timeZone := z_null P\<rparr>) (dt_detach P d))"

definition set_datetime :: "'z platform \<Rightarrow> 'z dt_data \<Rightarrow> date \<Rightarrow> clock_time \<Rightarrow> 'z dt_data" where
  "set_datetime P d date time =
     (let useTime = (if \<not> time_valid time \<and> date_valid date then from_msecs_since_start_of_day 0 else time);
          (days, newStatus) =
            (if date_valid date then (m_jd date - julian_day_for_epoch, ValidDate) else (0, 0));
          (ds, newStatus) =
            (if time_valid useTime then (msecs_since_start_of_day useTime, newStatus OR ValidTime) else (0, newStatus));
          msecs = days * msecs_per_day + ds;
          d = (case d of
                 Short s m \<Rightarrow>
                   (if msecs_can_be_small msecs
                    then Short ((s AND NOT (ValidityMask OR DaylightMask)) OR newStatus) msecs
                    else dt_detach P d)
               | Long p \<Rightarrow> d);
          d = (if \<not> is_short d
               then upd_long (\<lambda>p. p\<lparr>dp_msecs := msecs,
                                    dp_status := (dp_status p AND NOT (ValidityMask OR DaylightMask)) OR newStatus\<rparr>)
                      (dt_detach P d)
               else d)
      in check_valid_datetime P d)"

definition get_datetime :: "'z dt_data \<Rightarrow> date \<times> clock_time" where
  "get_datetime d =
     (let (date, time) = msecs_to_time (get_msecs d); status = get_status d
      in (if status AND ValidDate = 0 then date_null else date,
          if status AND ValidTime = 0 then time_null else time))"

section \<open>Construction\<close>

definition dt_create :: "'z platform \<Rightarrow> date \<Rightarrow> clock_time \<Rightarrow> time_spec \<Rightarrow> int \<Rightarrow> 'z dt_data" where
  "dt_create P toDate toTime toSpec offsetSeconds =
     (let result = data_of_spec P toSpec;
          result = set_time_spec P result toSpec offsetSeconds
      in set_datetime P result toDate toTime)"

definition dt_create_zone :: "'z platform \<Rightarrow> date \<Rightarrow> clock_time \<Rightarrow> 'z \<Rightarrow> 'z dt_data" where
  "dt_create_zone P toDate toTime toTimeZone =
     (let result = data_of_spec P TimeZone;
          result = upd_long (\<lambda>p. p\<lparr>dp_status := merge_spec (dp_status p) TimeZone, dp_timeZone := toTimeZone\<rparr>) result
      in set_datetime P result toDate toTime)"

section \<open>The class\<close>

definition dt_is_null :: "'z dt_data \<Rightarrow> bool" where
  "dt_is_null d \<longleftrightarrow> get_status d AND ValidDate = 0 \<and> get_status d AND ValidTime = 0"

definition dt_is_valid :: "'z dt_data \<Rightarrow> bool" where
  "dt_is_valid d \<longleftrightarrow> get_status d AND ValidDateTime \<noteq> 0"

definition dt_get_date :: "'z dt_data \<Rightarrow> date" where
  "dt_get_date d = (if get_status d AND ValidDate = 0 then date_null else fst (msecs_to_time (get_msecs d)))"

definition dt_get_time :: "'z dt_data \<Rightarrow> clock_time" where
  "dt_get_time d = (if get_status d AND ValidTime = 0 then time_null else snd (msecs_to_time (get_msecs d)))"

definition to_msecs_since_epoch :: "'z platform \<Rightarrow> 'z dt_data \<Rightarrow> int" where
  "to_msecs_since_epoch P d =
     (case get_spec d of
        UTC \<Rightarrow> get_msecs d
      | OffsetFromUTC \<Rightarrow> get_msecs d - dt_offset d * 1000
      | LocalTime \<Rightarrow> lr_msecs (local_msecs_to_epoch_msecs P (get_msecs d) (extract_daylight_status (get_status d)))
      | TimeZone \<Rightarrow>
          (case d of
             Long p \<Rightarrow> fst (zone_msecs_to_epoch_msecs P (dp_msecs p) (dp_timeZone p)
                             (extract_daylight_status (get_status d)))
           | Short _ _ \<Rightarrow> 0))"

definition to_secs_since_epoch :: "'z platform \<Rightarrow> 'z dt_data \<Rightarrow> int" where
  "to_secs_since_epoch P d = c_div (to_msecs_since_epoch P d) 1000"

definition epoch_msecs_to_localtime :: "'z platform \<Rightarrow> int \<Rightarrow> date \<times> clock_time \<times> daylight_status" where
  "epoch_msecs_to_localtime P msecs =
     (if msecs < 0
      then let (date, time) = msecs_to_time (msecs - p_timezone P * 1000) in (date, time, StandardTime)
      else if msecs > time_t_max * 1000
      then let (utcDate, utcTime) = msecs_to_time msecs;
               fakeDate = fake_date utcDate;
               fakeMsecs = to_msecs_since_epoch P (dt_create P fakeDate utcTime UTC 0);
               (res, localDate, localTime, dst) = pdk_localtime P fakeMsecs
           in (add_days localDate (days_to fakeDate utcDate), localTime, dst)
      else snd (pdk_localtime P msecs))"

definition get_offset_from_utc :: "'z platform \<Rightarrow> 'z dt_data \<Rightarrow> int" where
  "get_offset_from_utc P d =
     (if \<not> is_short d then dt_offset d
      else if \<not> dt_is_valid d then 0
      else if get_spec d = LocalTime then c_div (get_msecs d - to_msecs_since_epoch P d) 1000
      else 0)"

definition is_daylight_time :: "'z platform \<Rightarrow> 'z dt_data \<Rightarrow> bool" where
  "is_daylight_time P d =
     (case get_spec d of
        UTC \<Rightarrow> False
      | OffsetFromUTC \<Rightarrow> False
      | TimeZone \<Rightarrow>
          (case d of Long p \<Rightarrow> z_isDaylightTime P (dp_timeZone p) (to_msecs_since_epoch P d) | Short _ _ \<Rightarrow> False)
      | LocalTime \<Rightarrow>
          (let status = extract_daylight_status (get_status d);
               status = (if status = UnknownDaylightTime
                         then lr_dst (local_msecs_to_epoch_msecs P (get_msecs d) status) else status)
           in status = DaylightTime))"

definition dt_set_date :: "'z platform \<Rightarrow> 'z dt_data \<Rightarrow> date \<Rightarrow> 'z dt_data" where
  "dt_set_date P d date = set_datetime P d date (dt_get_time d)"

definition dt_set_time :: "'z platform \<Rightarrow> 'z dt_data \<Rightarrow> clock_time \<Rightarrow> 'z dt_data" where
  "dt_set_time P d time = set_datetime P d (dt_get_date d) time"

definition dt_set_time_spec :: "'z platform \<Rightarrow> 'z dt_data \<Rightarrow> time_spec \<Rightarrow> 'z dt_data" where
  "dt_set_time_spec P d spec = check_valid_datetime P (set_time_spec P d spec 0)"

definition set_offset_from_utc :: "'z platform \<Rightarrow> 'z dt_data \<Rightarrow> int \<Rightarrow> 'z dt_data" where
  "set_offset_from_utc P d offsetSeconds = check_valid_datetime P (set_time_spec P d OffsetFromUTC offsetSeconds)"

definition set_time_zone :: "'z platform \<Rightarrow> 'z dt_data \<Rightarrow> 'z \<Rightarrow> 'z dt_data" where
  "set_time_zone P d toZone =
     refresh_datetime P
       (upd_long (\<lambda>p. p\<lparr>dp_status := merge_spec (dp_status p) TimeZone, dp_offsetFromUtc := 0, dp_timeZone := toZone\<rparr>)
         (dt_detach P d))"

definition set_msecs_since_epoch :: "'z platform \<Rightarrow> 'z dt_data \<Rightarrow> int \<Rightarrow> 'z dt_data" where
  "set_msecs_since_epoch P d msecs =
     (let spec = get_spec d;
          status = get_status d AND NOT ValidityMask;
          valid = status OR ValidDate OR ValidTime OR ValidDateTime;
          (d, status, msecs) =
            (case spec of
               UTC \<Rightarrow> (d, valid, msecs)
             | OffsetFromUTC \<Rightarrow> (d, valid, msecs + dt_offset d * 1000)
             | TimeZone \<Rightarrow>
                 (case dt_detach P d of
                    Long p \<Rightarrow>
                      (let (dst, offset) =
                             (if msecs \<ge> 0
                              then (if z_isDaylightTime P (dp_timeZone p) msecs then DaylightTime else StandardTime,
                                    z_offsetFromUtc P (dp_timeZone p) msecs)
                              else (StandardTime, z_standardTimeOffset P (dp_timeZone p) msecs))
                       in (Long (p\<lparr>dp_offsetFromUtc := offset\<rparr>),
                           merge_daylight_status status dst OR ValidDate OR ValidTime OR ValidDateTime,
                           msecs + offset * 1000))
                  | Short s m \<Rightarrow> (d, status, msecs))
             | LocalTime \<Rightarrow>
                 (let (dt, tm, dst) = epoch_msecs_to_localtime P msecs;
                      d = set_datetime P d dt tm
                  in (d, merge_daylight_status (get_status d) dst, get_msecs d)));
          d = (if msecs_can_be_small msecs \<and> is_short d then Short status msecs
               else upd_long (\<lambda>p. p\<lparr>dp_status := status AND NOT ShortData, dp_msecs := msecs\<rparr>) (dt_detach P d))
      in if spec = LocalTime \<or> spec = TimeZone then refresh_datetime P d else d)"

definition from_msecs_since_epoch :: "'z platform \<Rightarrow> int \<Rightarrow> time_spec \<Rightarrow> int \<Rightarrow> 'z dt_data" where
  "from_msecs_since_epoch P msecs spec offsetSeconds =
     set_msecs_since_epoch P (set_time_spec P data_default spec offsetSeconds) msecs"

definition from_msecs_since_epoch_zone :: "'z platform \<Rightarrow> int \<Rightarrow> 'z \<Rightarrow> 'z dt_data" where
  "from_msecs_since_epoch_zone P msecs timeZone =
     set_msecs_since_epoch P (set_time_zone P data_default timeZone) msecs"

section \<open>Arithmetic\<close>

definition massage_adjusted_datetime :: "'z platform \<Rightarrow> 'z dt_data \<Rightarrow> date \<Rightarrow> clock_time \<Rightarrow> date \<times> clock_time" where
  "massage_adjusted_datetime P d date time =
     (case get_spec d of
        LocalTime \<Rightarrow>
          (let r = local_msecs_to_epoch_msecs P (time_to_msecs date time) UnknownDaylightTime
           in (lr_date r, lr_time r))
      | TimeZone \<Rightarrow>
          (case d of
             Long p \<Rightarrow> snd (zone_msecs_to_epoch_msecs P (time_to_msecs date time) (dp_timeZone p) UnknownDaylightTime)
           | Short _ _ \<Rightarrow> (date, time))
      | _ \<Rightarrow> (date, time))"

definition dt_add_days :: "'z platform \<Rightarrow> 'z dt_data \<Rightarrow> int \<Rightarrow> 'z dt_data" where
  "dt_add_days P d ndays =
     (let dt = data_copy d;
          (date, time) = get_datetime d;
          date = add_days date ndays;
          (date, time) = massage_adjusted_datetime P dt date time
      in set_datetime P dt date time)"

definition dt_add_months :: "'z platform \<Rightarrow> 'z dt_data \<Rightarrow> int \<Rightarrow> 'z dt_data" where
  "dt_add_months P d nmonths =
     (let dt = data_copy d;
          (date, time) = get_datetime d;
          date = add_months date nmonths;
          (date, time) = massage_adjusted_datetime P dt date time
      in set_datetime P dt date time)"

definition dt_add_years :: "'z platform \<Rightarrow> 'z dt_data \<Rightarrow> int \<Rightarrow> 'z dt_data" where
  "dt_add_years P d nyears =
     (let dt = data_copy d;
          (date, time) = get_datetime d;
          date = add_years date nyears;
          (date, time) = massage_adjusted_datetime P dt date time
      in set_datetime P dt date time)"

definition dt_add_msecs :: "'z platform \<Rightarrow> 'z dt_data \<Rightarrow> int \<Rightarrow> 'z dt_data" where
  "dt_add_msecs P d msecs =
     (if \<not> dt_is_valid d then data_default
      else let dt = data_copy d; spec = get_spec d
           in if spec = LocalTime \<or> spec = TimeZone
              then set_msecs_since_epoch P dt (to_msecs_since_epoch P d + msecs)
              else if is_short d
              then let msecs = msecs + get_msecs dt
                   in if msecs_can_be_small msecs
                      then (case dt of Short s m \<Rightarrow> Short s msecs | Long p \<Rightarrow> dt)
                      else upd_long (\<lambda>p. p\<lparr>dp_msecs := msecs\<rparr>) (dt_detach P dt)
              else upd_long (\<lambda>p. p\<lparr>dp_msecs := dp_msecs p + msecs\<rparr>) (dt_detach P dt))"

definition dt_add_secs :: "'z platform \<Rightarrow> 'z dt_data \<Rightarrow> int \<Rightarrow> 'z dt_data" where
  "dt_add_secs P d s = dt_add_msecs P d (s * 1000)"

definition dt_days_to :: "'z dt_data \<Rightarrow> 'z dt_data \<Rightarrow> int" where
  "dt_days_to d other = days_to (dt_get_date d) (dt_get_date other)"

definition dt_msecs_to :: "'z platform \<Rightarrow> 'z dt_data \<Rightarrow> 'z dt_data \<Rightarrow> int" where
  "dt_msecs_to P d other =
     (if \<not> dt_is_valid d \<or> \<not> dt_is_valid other then 0
      else to_msecs_since_epoch P other - to_msecs_since_epoch P d)"

definition dt_secs_to :: "'z platform \<Rightarrow> 'z dt_data \<Rightarrow> 'z dt_data \<Rightarrow> int" where
  "dt_secs_to P d other = c_div (dt_msecs_to P d other) 1000"

definition to_time_spec :: "'z platform \<Rightarrow> 'z dt_data \<Rightarrow> time_spec \<Rightarrow> 'z dt_data" where
  "to_time_spec P d spec =
     (if get_spec d = spec \<and> (spec = UTC \<or> spec = LocalTime) then data_copy d
      else if \<not> dt_is_valid d then dt_set_time_spec P (data_copy d) spec
      else from_msecs_since_epoch P (to_msecs_since_epoch P d) spec 0)"

definition to_offset_from_utc :: "'z platform \<Rightarrow> 'z dt_data \<Rightarrow> int \<Rightarrow> 'z dt_data" where
  "to_offset_from_utc P d offsetSeconds =
     (if get_spec d = OffsetFromUTC \<and> dt_offset d = offsetSeconds then data_copy d
      else if \<not> dt_is_valid d then set_offset_from_utc P (data_copy d) offsetSeconds
      else from_msecs_since_epoch P (to_msecs_since_epoch P d) OffsetFromUTC offsetSeconds)"

definition dt_eq :: "'z platform \<Rightarrow> 'z dt_data \<Rightarrow> 'z dt_data \<Rightarrow> bool" where
  "dt_eq P d other =
     (if get_spec d = LocalTime \<and> get_status d = get_status other then get_msecs d = get_msecs other
      else to_msecs_since_epoch P d = to_msecs_since_epoch P other)"

definition dt_less :: "'z platform \<Rightarrow> 'z dt_data \<Rightarrow> 'z dt_data \<Rightarrow> bool" where
  "dt_less P d other =
     (if get_spec d = LocalTime \<and> get_status d = get_status other then get_msecs d < get_msecs other
      else to_msecs_since_epoch P d < to_msecs_since_epoch P other)"

end
