(* ===== verification/Date_Time_Proofs.thy ===== *)
theory Date_Time_Proofs
  imports Date_Times
begin

text \<open>
  The properties of \<open>pdk::time::DateTime\<close>: the invariant of its two representations, the clock
  arithmetic of milliseconds, and the operations on the specifications \<open>UTC\<close> and \<open>OffsetFromUTC\<close>.
\<close>

named_theorems dt_bits \<open>the bits of a status byte\<close>

section \<open>Status bits\<close>

lemma flag_iff [dt_bits]:
  fixes s :: byte
  shows "s AND 0x01 = 0 \<longleftrightarrow> \<not> bit s 0" "s AND 0x02 = 0 \<longleftrightarrow> \<not> bit s 1" "s AND 0x04 = 0 \<longleftrightarrow> \<not> bit s 2"
    "s AND 0x08 = 0 \<longleftrightarrow> \<not> bit s 3" "s AND 0x40 = 0 \<longleftrightarrow> \<not> bit s 6" "s AND 0x80 = 0 \<longleftrightarrow> \<not> bit s 7"
  using bit_iff_and_push_bit_not_eq_0 [of s 0] bit_iff_and_push_bit_not_eq_0 [of s 1]
    bit_iff_and_push_bit_not_eq_0 [of s 2] bit_iff_and_push_bit_not_eq_0 [of s 3]
    bit_iff_and_push_bit_not_eq_0 [of s 6] bit_iff_and_push_bit_not_eq_0 [of s 7]
  by simp_all

lemma byte_eq_iff:
  fixes a b :: byte
  shows "a = b \<longleftrightarrow> bit a 0 = bit b 0 \<and> bit a 1 = bit b 1 \<and> bit a 2 = bit b 2 \<and> bit a 3 = bit b 3 \<and>
    bit a 4 = bit b 4 \<and> bit a 5 = bit b 5 \<and> bit a 6 = bit b 6 \<and> bit a 7 = bit b 7" (is "_ \<longleftrightarrow> ?bits")
proof
  assume bits: ?bits
  show "a = b"
  proof (rule bit_word_eqI)
    fix n assume "n < LENGTH(8)"
    then have "n = 0 \<or> n = 1 \<or> n = 2 \<or> n = 3 \<or> n = 4 \<or> n = 5 \<or> n = 6 \<or> n = 7" by auto
    then show "bit a n = bit b n" using bits by (elim disjE) simp_all
  qed
qed simp

lemma extract_spec_bits [dt_bits]:
  "extract_spec s =
    (if bit s 5 then if bit s 4 then TimeZone else OffsetFromUTC else if bit s 4 then UTC else LocalTime)"
  by (simp add: extract_spec_def spec_of_index_def byte_eq_iff bit_simps)

lemma merge_spec_bits [dt_bits]:
  "bit (merge_spec s spec) 0 = bit s 0" "bit (merge_spec s spec) 1 = bit s 1" "bit (merge_spec s spec) 2 = bit s 2"
  "bit (merge_spec s spec) 3 = bit s 3" "bit (merge_spec s spec) 4 = (spec = UTC \<or> spec = TimeZone)"
  "bit (merge_spec s spec) 5 = (spec = OffsetFromUTC \<or> spec = TimeZone)"
  "bit (merge_spec s spec) 6 = bit s 6" "bit (merge_spec s spec) 7 = bit s 7"
  by (cases spec; simp add: merge_spec_def bit_simps)+

lemma extract_merge_spec [simp]: "extract_spec (merge_spec s spec) = spec"
  by (cases spec) (simp_all add: extract_spec_bits merge_spec_bits)

lemma merge_daylight_bits [dt_bits]:
  "bit (merge_daylight_status s dst) 0 = bit s 0" "bit (merge_daylight_status s dst) 1 = bit s 1"
  "bit (merge_daylight_status s dst) 2 = bit s 2" "bit (merge_daylight_status s dst) 3 = bit s 3"
  "bit (merge_daylight_status s dst) 4 = bit s 4" "bit (merge_daylight_status s dst) 5 = bit s 5"
  "bit (merge_daylight_status s dst) 6 = (dst = StandardTime)" "bit (merge_daylight_status s dst) 7 = (dst = DaylightTime)"
  by (cases dst; simp add: merge_daylight_status_def bit_simps)+

lemma extract_merge_daylight [simp]: "extract_daylight_status (merge_daylight_status s dst) = dst"
  by (cases dst) (simp_all add: extract_daylight_status_def flag_iff merge_daylight_bits)

section \<open>Milliseconds\<close>

lemma msecs_to_time_eq:
  "msecs_to_time ms = (from_julian_day (2440588 + ms div 86400000), \<lparr>m_mds = ms mod 86400000\<rparr>)"
proof -
  define q r where "q = ms div 86400000" and "r = ms mod 86400000"
  have r: "0 \<le> r" "r < 86400000" and ms: "ms = 86400000 * q + r" by (simp_all add: q_def r_def)
  show ?thesis
  proof (cases "ms < 0")
    case False
    then have "ms < 86400000 \<Longrightarrow> q = 0 \<and> r = ms" by (simp add: q_def r_def)
    then show ?thesis using False
      by (auto simp: msecs_to_time_def Let_def msecs_per_day_def julian_day_for_epoch_def
          from_msecs_since_start_of_day_def q_def r_def)
  next
    case neg: True
    show ?thesis
    proof (cases "r = 0")
      case True
      then have d: "c_div ms 86400000 = q" "c_mod ms 86400000 = 0" "ms \<le> - 86400000"
        using neg ms by (auto simp: c_div_neg c_mod_neg)
      then show ?thesis
        using neg True d(3)
        by (simp add: d(1) d(2) msecs_to_time_def Let_def msecs_per_day_def julian_day_for_epoch_def
            from_msecs_since_start_of_day_def q_def [symmetric] r_def [symmetric])
    next
      case False
      have "- ms = 86400000 * (- q - 1) + (86400000 - r)" using ms by simp
      then have m: "(- ms) div 86400000 = - q - 1" "(- ms) mod 86400000 = 86400000 - r"
        using r False int_div_pos_eq [of "- ms" 86400000 "- q - 1" "86400000 - r"]
          int_mod_pos_eq [of "- ms" 86400000 "- q - 1" "86400000 - r"] by auto
      have d: "c_div ms 86400000 = q + 1" "c_mod ms 86400000 = r - 86400000"
        using neg m by (simp_all add: c_div_neg c_mod_neg)
      have small: "q = - 1 \<and> ms = r - 86400000" if "\<not> - ms \<ge> 86400000"
        using that neg int_div_pos_eq [of ms 86400000 "- 1" "ms + 86400000"]
          int_mod_pos_eq [of ms 86400000 "- 1" "ms + 86400000"] by (simp add: q_def r_def)
      have div1: "(86400000 - (r - 86400000) - 1) div 86400000 = 1" "(86400000 - (r - 86400000) - 1) mod 86400000 = 86399999 - r"
        using r False
          int_div_pos_eq [of "86400000 - (r - 86400000) - 1" 86400000 1 "86399999 - r"]
          int_mod_pos_eq [of "86400000 - (r - 86400000) - 1" 86400000 1 "86399999 - r"] by auto
      show ?thesis
      proof (cases "- ms \<ge> 86400000")
        case True
        then show ?thesis
          using neg r d div1
          by (simp add: msecs_to_time_def Let_def msecs_per_day_def julian_day_for_epoch_def
              from_msecs_since_start_of_day_def q_def [symmetric] r_def [symmetric])
      next
        case False
        then show ?thesis
          using neg r div1 small int_div_pos_eq [of "r - 86400000" 86400000 "- 1" r]
            int_mod_pos_eq [of "r - 86400000" 86400000 "- 1" r]
          by (simp add: msecs_to_time_def Let_def msecs_per_day_def julian_day_for_epoch_def
              from_msecs_since_start_of_day_def q_def [symmetric] r_def [symmetric])
      qed
    qed
  qed
qed

lemma time_to_msecs_eq: "time_valid t \<Longrightarrow> time_to_msecs d t = (m_jd d - 2440588) * 86400000 + m_mds t"
  by (auto simp: time_to_msecs_def julian_day_for_epoch_def msecs_per_day_def msecs_since_start_of_day_def time_valid_def)


section \<open>The invariant of the representations\<close>

text \<open>
  Short data carries the \<open>ShortData\<close> bit, milliseconds of 56 bits and no offset or zone; long data does not
  carry the bit.
\<close>

fun dt_wf :: "'z dt_data \<Rightarrow> bool" where
  "dt_wf (Short s m) \<longleftrightarrow> bit s 0 \<and> msecs_can_be_small m \<and> spec_can_be_small (extract_spec s)"
| "dt_wf (Long p) \<longleftrightarrow> \<not> bit (dp_status p) 0"

lemma small_0 [simp]: "msecs_can_be_small 0"
  by (simp add: msecs_can_be_small_def)

lemma wf_default: "dt_wf data_default"
  by (simp add: data_default_def spec_can_be_small_def dt_bits)

lemma wf_of_spec: "dt_wf (data_of_spec P spec)"
  by (cases spec) (simp_all add: data_of_spec_def dt_bits spec_can_be_small_def)

lemma wf_detach: "dt_wf d \<Longrightarrow> dt_wf (dt_detach P d)"
  by (cases d) (simp_all add: bit_simps)

lemma wf_copy: "dt_wf d \<Longrightarrow> dt_wf (data_copy d)"
  by (cases d) (auto simp: bit_simps extract_spec_bits)

lemma wf_status: "dt_wf d \<Longrightarrow> bit (get_status d) 0 = is_short d"
  by (cases d) simp_all

lemma detach_simps [simp]:
  "\<not> is_short (dt_detach P d)" "get_msecs (dt_detach P d) = get_msecs d"
  by (cases d; simp)+

lemma is_short_upd [simp]: "is_short (upd_long f d) = is_short d"
  by (cases d) simp_all

lemma is_short_put [simp]: "is_short (put_short d s) = is_short d"
  by (cases d) simp_all

lemma wf_put_short:
  "dt_wf d \<Longrightarrow> is_short d \<Longrightarrow> bit s 0 \<Longrightarrow> extract_spec s = get_spec d \<Longrightarrow> dt_wf (put_short d s)"
  by (cases d) (simp_all add: get_spec_def)

lemma wf_upd_long:
  "dt_wf d \<Longrightarrow> (\<And>p. \<not> bit (dp_status p) 0 \<Longrightarrow> \<not> bit (dp_status (f p)) 0) \<Longrightarrow> dt_wf (upd_long f d)"
  by (cases d) simp_all

text \<open>Writing a status that differs only in the flags.\<close>

definition same_kind :: "byte \<Rightarrow> byte \<Rightarrow> bool" where
  "same_kind s t \<longleftrightarrow> bit s 0 = bit t 0 \<and> bit s 4 = bit t 4 \<and> bit s 5 = bit t 5"

lemma same_kind_spec: "same_kind s t \<Longrightarrow> extract_spec s = extract_spec t"
  by (simp add: same_kind_def extract_spec_bits)

lemma wf_put:
  assumes "dt_wf d" "same_kind s (get_status d)"
  shows "dt_wf (put_refreshed d s off)" "dt_wf (put_status d s)"
  using assms wf_status [OF assms(1)] same_kind_spec [OF assms(2)]
  by (cases d; simp add: put_status_def put_refreshed_def flag_iff same_kind_def)+

lemma same_kind_flags [simp]:
  "same_kind (s AND - 9) t = same_kind s t" "same_kind (s OR 8) t = same_kind s t" "same_kind s s"
proof -
  have "bit (- 9 :: byte) 0" "bit (- 9 :: byte) 4" "bit (- 9 :: byte) 5" by (simp_all add: bit_simps)
  then show "same_kind (s AND - 9) t = same_kind s t" by (simp add: same_kind_def bit_simps)
qed (simp_all add: same_kind_def bit_simps)

lemma refresh_zone_kind:
  assumes "dt_wf d" "refresh_zone P d = (d', status, e, td, tt)"
  shows "dt_wf d'" "get_status d' = get_status d" "same_kind status (get_status d)" "get_msecs d' = get_msecs d"
  using assms by (auto simp: refresh_zone_def Let_def split: dt_data.splits if_splits prod.splits)

lemma wf_refresh:
  assumes "dt_wf d"
  shows "dt_wf (refresh_datetime P d)"
proof -
  obtain d' status e td tt where z: "refresh_zone P d = (d', status, e, td, tt)" by (metis prod_cases5)
  note k = refresh_zone_kind [OF assms z]
  have "dt_wf (put_refreshed d' (status AND NOT 8) off)" "dt_wf (put_refreshed d' (status OR 8) off)" for off
    using k by (auto intro!: wf_put)
  then show ?thesis by (simp add: refresh_datetime_def z Let_def split: prod.splits)
qed

lemma wf_check_valid: "dt_wf d \<Longrightarrow> dt_wf (check_valid_datetime P d)"
  by (simp add: check_valid_datetime_def Let_def wf_refresh wf_put)

lemma wf_set_time_spec: "dt_wf d \<Longrightarrow> dt_wf (set_time_spec P d spec off)"
  by (cases d; cases spec; cases "off = 0")
    (simp_all add: set_time_spec_def Let_def bit_simps merge_spec_bits spec_can_be_small_def)

lemma wf_set_datetime: "dt_wf d \<Longrightarrow> dt_wf (set_datetime P d date time)"
  unfolding set_datetime_def Let_def
  by (cases d; cases "date_valid date"; cases "time_valid time")
    (auto intro!: wf_check_valid simp: bit_simps extract_spec_bits)


text \<open>Writing milliseconds and a status of the same kind.\<close>

definition put_msecs :: "'z platform \<Rightarrow> 'z dt_data \<Rightarrow> byte \<Rightarrow> int \<Rightarrow> 'z dt_data" where
  "put_msecs P d status msecs =
     (if msecs_can_be_small msecs \<and> is_short d then Short status msecs
      else upd_long (\<lambda>p. p\<lparr>dp_status := status AND NOT 1, dp_msecs := msecs\<rparr>) (dt_detach P d))"

lemma bit_clear_short [simp]: "bit (s AND - 2) k \<longleftrightarrow> k \<noteq> 0 \<and> bit s k" for s :: byte
proof -
  have "s AND - 2 = s AND NOT 1" by simp
  then show ?thesis by (simp only: bit_and_iff bit_not_iff bit_1_iff) (metis impossible_bit)
qed

lemma extract_spec_clear [simp]: "extract_spec (s AND - 2) = extract_spec s"
  by (simp add: extract_spec_bits)

lemma put_msecs_get:
  assumes "dt_wf d" "same_kind status (get_status d)"
  shows "get_msecs (put_msecs P d status msecs) = msecs" "dt_wf (put_msecs P d status msecs)"
    "get_spec (put_msecs P d status msecs) = get_spec d"
    "\<And>k. k \<noteq> 0 \<Longrightarrow> bit (get_status (put_msecs P d status msecs)) k = bit status k"
  using assms same_kind_spec [OF assms(2)]
  by (cases d; simp add: put_msecs_def same_kind_def get_spec_def)+

lemma put_msecs_offset: "dt_wf d \<Longrightarrow> get_spec d = OffsetFromUTC \<Longrightarrow> dt_offset (put_msecs P d status msecs) = dt_offset d"
  by (cases d) (simp_all add: put_msecs_def get_spec_def spec_can_be_small_def)

definition valid_status :: "byte \<Rightarrow> byte" where
  "valid_status s = (s AND NOT 0x0E) OR 2 OR 4 OR 8"

lemma valid_status_bits:
  "bit (valid_status s) 1" "bit (valid_status s) 2" "bit (valid_status s) 3" "same_kind (valid_status s) t = same_kind s t"
  by (simp_all add: valid_status_def same_kind_def bit_simps)

lemma set_msecs_fixed:
  assumes "dt_wf d" "get_spec d = UTC \<or> get_spec d = OffsetFromUTC"
  shows "set_msecs_since_epoch P d ms =
    put_msecs P d (valid_status (get_status d)) (if get_spec d = UTC then ms else ms + dt_offset d * 1000)"
  using assms(2)
  by (auto simp: set_msecs_since_epoch_def Let_def put_msecs_def valid_status_def)


lemma same_kind_daylight [simp]: "same_kind (merge_daylight_status s dst) t = same_kind s t"
  by (simp add: same_kind_def merge_daylight_bits)

lemma same_kind_clear [simp]: "same_kind (s AND - 15) t = same_kind s t"
proof -
  have "bit (- 15 :: byte) 0" "bit (- 15 :: byte) 4" "bit (- 15 :: byte) 5" by (simp_all add: bit_simps)
  then show ?thesis by (simp add: same_kind_def bit_simps)
qed

lemma same_kind_valid [simp]:
  "same_kind (s OR 2) t = same_kind s t" "same_kind (s OR 4) t = same_kind s t" "same_kind (s OR 14) t = same_kind s t"
  by (simp_all add: same_kind_def bit_simps)

text \<open>What \<open>setMSecsSinceEpoch\<close> writes in the zones with transitions.\<close>

lemma set_msecs_local:
  assumes "get_spec d = LocalTime" "epoch_msecs_to_localtime P ms = (dt, tm, dst)"
  defines "d' \<equiv> set_datetime P d dt tm"
  shows "set_msecs_since_epoch P d ms =
    refresh_datetime P (put_msecs P d' (merge_daylight_status (get_status d') dst) (get_msecs d'))"
  using assms by (simp add: set_msecs_since_epoch_def Let_def put_msecs_def)

definition zone_dst :: "'z platform \<Rightarrow> 'z \<Rightarrow> int \<Rightarrow> daylight_status" where
  "zone_dst P z ms = (if ms \<ge> 0 then if z_isDaylightTime P z ms then DaylightTime else StandardTime else StandardTime)"

definition zone_offset :: "'z platform \<Rightarrow> 'z \<Rightarrow> int \<Rightarrow> int" where
  "zone_offset P z ms = (if ms \<ge> 0 then z_offsetFromUtc P z ms else z_standardTimeOffset P z ms)"

definition zone_status :: "'z platform \<Rightarrow> 'z dt_private \<Rightarrow> int \<Rightarrow> byte" where
  "zone_status P p ms = merge_daylight_status (dp_status p AND - 15) (zone_dst P (dp_timeZone p) ms) OR 2 OR 4 OR 8"

lemma set_msecs_zone:
  assumes "d = Long p" "get_spec d = TimeZone"
  shows "set_msecs_since_epoch P d ms =
    refresh_datetime P (put_msecs P (Long (p\<lparr>dp_offsetFromUtc := zone_offset P (dp_timeZone p) ms\<rparr>))
      (zone_status P p ms) (ms + zone_offset P (dp_timeZone p) ms * 1000))"
  using assms by (auto simp: set_msecs_since_epoch_def Let_def put_msecs_def zone_status_def zone_dst_def zone_offset_def)

lemma wf_zone_long: "dt_wf d \<Longrightarrow> get_spec d = TimeZone \<or> get_spec d = OffsetFromUTC \<Longrightarrow> \<exists>p. d = Long p"
  by (cases d) (auto simp: get_spec_def spec_can_be_small_def)

lemma wf_set_msecs:
  assumes "dt_wf d"
  shows "dt_wf (set_msecs_since_epoch P d ms)"
proof (cases "get_spec d")
  case LocalTime
  obtain dt tm dst where e: "epoch_msecs_to_localtime P ms = (dt, tm, dst)" by (metis prod_cases3)
  show ?thesis
    unfolding set_msecs_local [OF LocalTime e] using wf_set_datetime [OF assms]
    by (intro wf_refresh put_msecs_get(2)) simp_all
next
  case UTC
  then show ?thesis
    using assms set_msecs_fixed [of d P ms] by (simp add: put_msecs_get(2) valid_status_bits)
next
  case OffsetFromUTC
  then show ?thesis
    using assms set_msecs_fixed [of d P ms] by (simp add: put_msecs_get(2) valid_status_bits)
next
  case TimeZone
  then obtain p where p: "d = Long p" using wf_zone_long [OF assms] by blast
  show ?thesis
    unfolding set_msecs_zone [OF p TimeZone] using assms
    by (intro wf_refresh put_msecs_get(2)) (simp_all add: p zone_status_def)
qed

lemma wf_create: "dt_wf (dt_create P date time spec off)"
  by (simp add: dt_create_def Let_def wf_set_datetime wf_set_time_spec wf_of_spec)

lemma wf_set_time_zone: "dt_wf d \<Longrightarrow> dt_wf (set_time_zone P d z)"
  unfolding set_time_zone_def by (intro wf_refresh wf_upd_long wf_detach) (simp_all add: merge_spec_bits)

lemma wf_create_zone: "dt_wf (dt_create_zone P date time z)"
  unfolding dt_create_zone_def Let_def by (intro wf_set_datetime wf_upd_long wf_of_spec) (simp add: merge_spec_bits)

lemma wf_add_msecs:
  assumes "dt_wf d"
  shows "dt_wf (dt_add_msecs P d ms)"
proof -
  have c: "dt_wf (data_copy d)" using wf_copy [OF assms] .
  have "dt_wf (case data_copy d of Short s m \<Rightarrow> Short s (ms + get_msecs (data_copy d)) | Long p \<Rightarrow> data_copy d)"
    if "msecs_can_be_small (ms + get_msecs (data_copy d))"
    using c that by (cases "data_copy d") simp_all
  moreover have "dt_wf (upd_long f (dt_detach P (data_copy d)))" if "\<And>p. dp_status (f p) = dp_status p" for f
    using wf_detach [OF c] that by (intro wf_upd_long) simp_all
  ultimately show ?thesis
    using wf_set_msecs [OF c] wf_default by (auto simp: dt_add_msecs_def Let_def)
qed

text \<open>A concrete platform for the witnesses: the local time is UTC, every time zone has offset 0.\<close>

definition utc_mktime :: "tm \<Rightarrow> (int \<times> tm) option" where
  "utc_mktime t =
     Some (time_to_msecs (set_date (tm_year t + 1900) (tm_mon t + 1) (tm_mday t))
             (set_hms (tm_hour t) (tm_min t) (tm_sec t) 0) div 1000, t)"

definition utc_localtime :: "int \<Rightarrow> tm option" where
  "utc_localtime secs =
     (let (date, time) = msecs_to_time (secs * 1000); pd = get_date date
      in Some \<lparr>tm_sec = get_second time, tm_min = get_minute time, tm_hour = get_hour time, tm_mday = m_day pd,
               tm_mon = m_month pd - 1, tm_year = m_year pd - 1900, tm_isdst = 0\<rparr>)"

definition utc_platform :: "unit platform" where
  "utc_platform =
     \<lparr>p_mktime = utc_mktime, p_localtime = utc_localtime, p_timezone = 0, p_tzname = (\<lambda>_. ''UTC''), z_null = (),
      z_valid = (\<lambda>_. True), z_offsetFromUtc = (\<lambda>_ _. 0), z_standardTimeOffset = (\<lambda>_ _. 0),
      z_isDaylightTime = (\<lambda>_ _. False),
      z_dataForLocalTime =
        (\<lambda>_ ms _. \<lparr>zd_atMSecsSinceEpoch = ms, zd_offsetFromUtc = 0, zd_standardTimeOffset = 0\<rparr>)\<rparr>"

text \<open>C34: Every constructor and every operation keeps the representation sound: short data has the mark, 56-bit
  milliseconds and a specification that needs no offset and no zone, long data does not have the mark.\<close>

theorem datetime_representation_invariant:
  shows "dt_wf data_default \<and> dt_wf (dt_create P date time spec off) \<and> dt_wf (dt_create_zone P date time z) \<and>
    (dt_wf d \<longrightarrow> dt_wf (data_copy d) \<and> dt_wf (dt_set_date P d date) \<and> dt_wf (dt_set_time P d time) \<and>
      dt_wf (dt_set_time_spec P d spec) \<and> dt_wf (set_offset_from_utc P d off) \<and> dt_wf (set_time_zone P d z) \<and>
      dt_wf (set_msecs_since_epoch P d n) \<and> dt_wf (dt_add_days P d n) \<and> dt_wf (dt_add_months P d n) \<and>
      dt_wf (dt_add_years P d n) \<and> dt_wf (dt_add_msecs P d n) \<and> dt_wf (to_time_spec P d spec) \<and>
      dt_wf (to_offset_from_utc P d off))"
proof (intro conjI impI)
  show "dt_wf data_default" by (rule wf_default)
  show "dt_wf (dt_create P date time spec off)" by (rule wf_create)
  show "dt_wf (dt_create_zone P date time z)" by (rule wf_create_zone)
  assume d: "dt_wf d"
  note c = wf_copy [OF d]
  have from_ms: "dt_wf (from_msecs_since_epoch P m sp o')" for m sp o'
    by (simp add: from_msecs_since_epoch_def wf_set_msecs wf_set_time_spec wf_default)
  show "dt_wf (data_copy d)" by (rule c)
  show "dt_wf (dt_set_date P d date)" "dt_wf (dt_set_time P d time)"
    using d by (simp_all add: dt_set_date_def dt_set_time_def wf_set_datetime)
  show "dt_wf (dt_set_time_spec P d spec)" "dt_wf (set_offset_from_utc P d off)"
    using d by (simp_all add: dt_set_time_spec_def set_offset_from_utc_def wf_check_valid wf_set_time_spec)
  show "dt_wf (set_time_zone P d z)" "dt_wf (set_msecs_since_epoch P d n)" "dt_wf (dt_add_msecs P d n)"
    using d by (simp_all add: wf_set_time_zone wf_set_msecs wf_add_msecs)
  show "dt_wf (dt_add_days P d n)" "dt_wf (dt_add_months P d n)" "dt_wf (dt_add_years P d n)"
    using c by (simp_all add: dt_add_days_def dt_add_months_def dt_add_years_def Let_def wf_set_datetime split: prod.splits)
  show "dt_wf (to_time_spec P d spec)"
    using c from_ms by (simp add: to_time_spec_def dt_set_time_spec_def wf_check_valid wf_set_time_spec)
  show "dt_wf (to_offset_from_utc P d off)"
    using c from_ms by (simp add: to_offset_from_utc_def set_offset_from_utc_def wf_check_valid wf_set_time_spec)
qed


theorem datetime_representation_invariant_witness:
  "dt_wf (dt_add_msecs utc_platform (set_msecs_since_epoch utc_platform data_default (2 ^ 60)) (- (2 ^ 60)))"
proof -
  have "dt_wf (set_msecs_since_epoch utc_platform data_default (2 ^ 60))"
    using datetime_representation_invariant [where d = "data_default :: unit dt_data" and P = utc_platform] by blast
  then show ?thesis
    using datetime_representation_invariant [where d = "set_msecs_since_epoch utc_platform data_default (2 ^ 60)" and P = utc_platform]
    by blast
qed

section \<open>Dates and times in UTC and at a fixed offset\<close>

definition fixed_spec :: "time_spec \<Rightarrow> bool" where
  "fixed_spec spec \<longleftrightarrow> spec = UTC \<or> spec = OffsetFromUTC"

lemma fixed_specs [simp]: "fixed_spec UTC" "fixed_spec OffsetFromUTC" "\<not> fixed_spec LocalTime" "\<not> fixed_spec TimeZone"
  by (simp_all add: fixed_spec_def)

lemma to_msecs_fixed:
  "fixed_spec (get_spec d) \<Longrightarrow> to_msecs_since_epoch P d = get_msecs d - (if get_spec d = UTC then 0 else dt_offset d * 1000)"
  by (auto simp: fixed_spec_def to_msecs_since_epoch_def)

lemma dt_is_valid_iff: "dt_is_valid d \<longleftrightarrow> bit (get_status d) 3"
  by (simp add: dt_is_valid_def flag_iff)

lemma set_msecs_fixed_get:
  assumes "dt_wf d" "fixed_spec (get_spec d)"
  shows "to_msecs_since_epoch P (set_msecs_since_epoch P d ms) = ms"
    "dt_is_valid (set_msecs_since_epoch P d ms)" "get_spec (set_msecs_since_epoch P d ms) = get_spec d"
  using assms put_msecs_get [OF assms(1), of "valid_status (get_status d)"] put_msecs_offset [OF assms(1)]
  by (auto simp: fixed_spec_def set_msecs_fixed to_msecs_fixed dt_is_valid_iff valid_status_bits)

text \<open>In UTC and at a fixed offset, the milliseconds since the epoch that are set are the ones that are read, for
  short and long data, and the result is valid; the date and the time of the result are those of the Julian day and of
  the position in the day of the milliseconds shifted by the offset.\<close>

lemma datetime_set_msecs:
  assumes "dt_wf d" "fixed_spec (get_spec d)"
  shows "to_msecs_since_epoch P (set_msecs_since_epoch P d ms) = ms \<and> dt_is_valid (set_msecs_since_epoch P d ms) \<and>
    (let local = (if get_spec d = UTC then ms else ms + dt_offset d * 1000)
     in dt_get_date (set_msecs_since_epoch P d ms) = from_julian_day (2440588 + local div 86400000) \<and>
        dt_get_time (set_msecs_since_epoch P d ms) = \<lparr>m_mds = local mod 86400000\<rparr>)"
proof -
  note v = put_msecs_get [OF assms(1), of "valid_status (get_status d)", unfolded valid_status_bits same_kind_flags(3), simplified]
  show ?thesis
    using set_msecs_fixed_get [OF assms, of P ms] assms v
    by (simp add: set_msecs_fixed fixed_spec_def Let_def dt_get_date_def dt_get_time_def flag_iff msecs_to_time_eq valid_status_bits
        valid_status_bits(1) [simplified])
qed

lemma copy_same:
  "get_msecs (data_copy d) = get_msecs d" "k \<noteq> 0 \<Longrightarrow> bit (get_status (data_copy d)) k = bit (get_status d) k"
  by (cases d; simp add: bit_simps)+

lemma copy_spec: "get_spec (data_copy d) = get_spec d"
  by (simp add: get_spec_def extract_spec_bits copy_same)

lemma copy_long: "get_spec d = OffsetFromUTC \<or> get_spec d = TimeZone \<Longrightarrow> dt_wf d \<Longrightarrow> data_copy d = d"
  using wf_zone_long [of d] by (auto simp: get_spec_def spec_can_be_small_def)

lemma detach_same:
  "dt_wf d \<Longrightarrow> get_spec (dt_detach P d) = get_spec d"
  "dt_wf d \<Longrightarrow> k \<noteq> 0 \<Longrightarrow> bit (get_status (dt_detach P d)) k = bit (get_status d) k"
  "\<not> is_short d \<Longrightarrow> dt_detach P d = d"
  by (cases d; simp add: get_spec_def)+

text \<open>Copying, which turns long data into short data when it fits, and detaching, which turns short data into long
  data, change no observation: neither the milliseconds since the epoch, the date, the time, the specification, the
  validity nor the daylight saving.\<close>

lemma datetime_representations_agree:
  assumes "dt_wf d" "e = data_copy d \<or> e = dt_detach P d"
  shows "to_msecs_since_epoch P e = to_msecs_since_epoch P d \<and> dt_get_date e = dt_get_date d \<and>
    dt_get_time e = dt_get_time d \<and> get_spec e = get_spec d \<and> dt_is_valid e = dt_is_valid d \<and>
    is_daylight_time P e = is_daylight_time P d"
proof -
  have s: "get_spec e = get_spec d" and m: "get_msecs e = get_msecs d"
    and b: "\<And>k. k \<noteq> 0 \<Longrightarrow> bit (get_status e) k = bit (get_status d) k"
    using assms by (auto simp: copy_spec copy_same detach_same)
  have l: "e = d" if "get_spec d = OffsetFromUTC \<or> get_spec d = TimeZone"
    using that assms copy_long wf_zone_long [OF assms(1)] by auto
  have dst: "extract_daylight_status (get_status e) = extract_daylight_status (get_status d)"
    by (simp add: extract_daylight_status_def flag_iff b)
  have "to_msecs_since_epoch P e = to_msecs_since_epoch P d"
  proof (cases "e = d")
    case False
    then have "get_spec d = LocalTime \<or> get_spec d = UTC" using l by (cases "get_spec d") auto
    then show ?thesis using s m dst by (auto simp: to_msecs_since_epoch_def)
  qed simp
  moreover have "is_daylight_time P e = is_daylight_time P d"
  proof (cases "e = d")
    case False
    then have "get_spec d = LocalTime \<or> get_spec d = UTC" using l by (cases "get_spec d") auto
    then show ?thesis using s m dst by (auto simp: is_daylight_time_def)
  qed simp
  ultimately show ?thesis
    using s m b by (simp add: dt_get_date_def dt_get_time_def dt_is_valid_iff flag_iff)
qed

section \<open>Setting the date and the time\<close>

lemma put_status_get:
  assumes "dt_wf d" "same_kind st (get_status d)"
  shows "get_status (put_status d st) = st" "get_msecs (put_status d st) = get_msecs d"
    "dt_offset (put_status d st) = dt_offset d" "get_spec (put_status d st) = get_spec d"
    "is_short (put_status d st) = is_short d"
  using assms wf_status [OF assms(1)] same_kind_spec [OF assms(2)]
  by (cases d; simp add: put_status_def flag_iff same_kind_def get_spec_def)+

definition used_time :: "date \<Rightarrow> clock_time \<Rightarrow> clock_time" where
  "used_time date time = (if \<not> time_valid time \<and> date_valid date then \<lparr>m_mds = 0\<rparr> else time)"

definition local_msecs :: "date \<Rightarrow> clock_time \<Rightarrow> int" where
  "local_msecs date time =
     (if date_valid date then (m_jd date - 2440588) * 86400000 else 0)
       + (if time_valid (used_time date time) then m_mds (used_time date time) else 0)"

text \<open>The data before its validity is checked.\<close>

definition put_datetime :: "'z platform \<Rightarrow> 'z dt_data \<Rightarrow> date \<Rightarrow> clock_time \<Rightarrow> 'z dt_data" where
  "put_datetime P d date time =
     (let new = (if date_valid date then 2 else 0) OR (if time_valid (used_time date time) then 4 else 0);
          f = (\<lambda>s. (s AND - 207) OR new); msecs = local_msecs date time
      in case d of
           Short s m \<Rightarrow>
             (if msecs_can_be_small msecs then Short (f s) msecs
              else Long \<lparr>dp_msecs = msecs, dp_status = f (s AND - 2), dp_offsetFromUtc = 0, dp_timeZone = z_null P\<rparr>)
         | Long p \<Rightarrow> Long (p\<lparr>dp_msecs := msecs, dp_status := f (dp_status p)\<rparr>))"

lemma set_datetime_eq: "set_datetime P d date time = check_valid_datetime P (put_datetime P d date time)"
proof -
  have u: "(if \<not> time_valid time \<and> date_valid date then from_msecs_since_start_of_day 0 else time) = used_time date time"
    by (simp add: used_time_def from_msecs_since_start_of_day_def)
  have m: "time_valid t \<Longrightarrow> msecs_since_start_of_day t = m_mds t" for t
    by (simp add: msecs_since_start_of_day_def time_valid_def)
  have l: "(fst (if date_valid date then (m_jd date - julian_day_for_epoch, 2 :: byte) else (0, 0))) * msecs_per_day
      + (if time_valid (used_time date time) then msecs_since_start_of_day (used_time date time) else 0) = local_msecs date time"
    by (simp add: local_msecs_def m julian_day_for_epoch_def msecs_per_day_def)
  show ?thesis
    unfolding set_datetime_def put_datetime_def u l [symmetric] Let_def
    by (cases d; cases "date_valid date"; cases "time_valid (used_time date time)") (simp_all add: m)
qed

lemma bit_new_status:
  fixes s :: byte and a b :: bool
  defines "x \<equiv> (s AND - 207) OR ((if a then 2 else 0) OR (if b then 4 else 0))"
  shows "bit x 0 = bit s 0" "bit x 1 = a" "bit x 2 = b" "bit x 4 = bit s 4" "bit x 5 = bit s 5"
    "\<not> bit x 3" "\<not> bit x 6" "\<not> bit x 7"
proof -
  have "bit (- 207 :: byte) 0" "\<not> bit (- 207 :: byte) 1" "\<not> bit (- 207 :: byte) 2" "\<not> bit (- 207 :: byte) 3"
    "bit (- 207 :: byte) 4" "bit (- 207 :: byte) 5" "\<not> bit (- 207 :: byte) 6" "\<not> bit (- 207 :: byte) 7"
    by (simp_all add: bit_simps)
  then show "bit x 0 = bit s 0" "bit x 1 = a" "bit x 2 = b" "bit x 4 = bit s 4" "bit x 5 = bit s 5"
    "\<not> bit x 3" "\<not> bit x 6" "\<not> bit x 7"
    by (simp_all add: x_def bit_simps)
qed

lemma put_datetime_get:
  fixes P :: "'z platform" and d :: "'z dt_data" and date :: date and time :: clock_time
  assumes "dt_wf d"
  defines "e \<equiv> put_datetime P d date time"
  shows "dt_wf e" "get_msecs e = local_msecs date time" "get_spec e = get_spec d"
    "bit (get_status e) 1 = date_valid date" "bit (get_status e) 2 = time_valid (used_time date time)"
    "\<not> bit (get_status e) 6" "\<not> bit (get_status e) 7"
    "fixed_spec (get_spec d) \<Longrightarrow> dt_offset e = dt_offset d"
  using assms(1)
  by (cases d; simp add: e_def put_datetime_def Let_def bit_new_status bit_new_status(2) [simplified] get_spec_def extract_spec_bits
      spec_can_be_small_def split: if_splits)+

lemma set_datetime_fixed:
  fixes P :: "'z platform" and d :: "'z dt_data" and date :: date and time :: clock_time
  assumes "dt_wf d" "fixed_spec (get_spec d)"
  defines "e \<equiv> set_datetime P d date time"
  shows "get_msecs e = local_msecs date time" "get_spec e = get_spec d" "dt_offset e = dt_offset d"
    "bit (get_status e) 1 = date_valid date" "bit (get_status e) 2 = time_valid (used_time date time)"
    "dt_is_valid e = (date_valid date \<and> time_valid (used_time date time))"
proof -
  define e0 st where "e0 = put_datetime P d date time" and "st = get_status e0"
  note g = put_datetime_get [OF assms(1), where P = P and date = date and time = time, folded e0_def, folded st_def]
  have x: "extract_spec st = UTC \<or> extract_spec st = OffsetFromUTC"
    using assms(2) g(3) by (auto simp: fixed_spec_def get_spec_def st_def)
  have k: "same_kind (st OR 8) (get_status e0)" "same_kind (st AND - 9) (get_status e0)" by (simp_all add: st_def)
  define nst where "nst = (if date_valid date \<and> time_valid (used_time date time) then st OR 8 else st AND - 9)"
  have e: "e = put_status e0 nst"
    using x g(4,5) unfolding e_def set_datetime_eq e0_def [symmetric] check_valid_datetime_def Let_def st_def [symmetric]
    by (auto simp: flag_iff nst_def)
  have nk: "same_kind nst (get_status e0)" using k by (simp add: nst_def)
  note p = put_status_get [OF g(1) nk, folded e]
  show "get_msecs e = local_msecs date time" "get_spec e = get_spec d" using p(2,4) g(2,3) by simp_all
  show "dt_offset e = dt_offset d" using p(3) g(8) assms(2) by simp
  have "bit (- 9 :: byte) 1" "bit (- 9 :: byte) 2" "\<not> bit (- 9 :: byte) 3" by (simp_all add: bit_simps)
  then show "bit (get_status e) 1 = date_valid date" "bit (get_status e) 2 = time_valid (used_time date time)"
    "dt_is_valid e = (date_valid date \<and> time_valid (used_time date time))"
    using g(4,5) unfolding dt_is_valid_iff p(1) by (auto simp: nst_def bit_simps)
qed


lemma set_time_spec_get:
  shows "get_spec (set_time_spec P d spec off) =
      (if spec = OffsetFromUTC then if off = 0 then UTC else OffsetFromUTC
       else if spec = TimeZone then LocalTime else spec)"
    "dt_offset (set_time_spec P d spec off) = (if spec = OffsetFromUTC then off else 0)"
  by (cases d; cases spec; cases "off = 0"; simp add: set_time_spec_def Let_def get_spec_def merge_spec_bits)+

lemma msecs_of_local:
  assumes "date_valid date" "time_valid time"
  shows "msecs_to_time ((m_jd date - 2440588) * 86400000 + m_mds time) = (date, time)"
proof -
  have "((m_jd date - 2440588) * 86400000 + m_mds time) div 86400000 = m_jd date - 2440588"
    "((m_jd date - 2440588) * 86400000 + m_mds time) mod 86400000 = m_mds time"
    using time_valid_ds [OF assms(2)]
    by (auto intro!: int_div_pos_eq [of _ _ _ "m_mds time"] int_mod_pos_eq [of _ _ "m_jd date - 2440588"])
  then show ?thesis using assms(1) by (simp add: msecs_to_time_eq from_julian_day_def date_valid_def)
qed

text \<open>A date and time made in UTC or at a fixed offset has the date and the time it was made of (midnight for a
  null time), its milliseconds since the epoch are those of the local time less the offset, and it is valid; of an
  invalid date it is invalid and has the null date.\<close>

lemma datetime_create:
  assumes "spec = UTC \<or> spec = OffsetFromUTC" "d = dt_create P date time spec off"
  shows "if date_valid date
    then dt_is_valid d \<and> dt_get_date d = date \<and> dt_get_time d = (if time_valid time then time else set_hms 0 0 0 0) \<and>
      to_msecs_since_epoch P d = time_to_msecs date (dt_get_time d) - (if spec = UTC then 0 else off * 1000)
    else \<not> dt_is_valid d \<and> dt_get_date d = date_null \<and> (dt_get_time d = time \<or> \<not> time_valid time \<and> dt_get_time d = time_null)"
proof -
  define d0 where "d0 = set_time_spec P (data_of_spec P spec) spec off"
  have w: "dt_wf d0" by (simp add: d0_def wf_set_time_spec wf_of_spec)
  have sp: "get_spec d0 = (if spec = OffsetFromUTC \<and> off \<noteq> 0 then OffsetFromUTC else UTC)"
    "dt_offset d0 = (if spec = OffsetFromUTC then off else 0)"
    using assms(1) unfolding d0_def set_time_spec_get by auto
  then have f: "fixed_spec (get_spec d0)" by simp
  note s = set_datetime_fixed [OF w f, where P = P and date = date and time = time]
  have d: "d = set_datetime P d0 date time" using assms(2) by (simp add: dt_create_def Let_def d0_def)
  have mid: "set_hms 0 0 0 0 = \<lparr>m_mds = 0\<rparr>" by code_simp
  show ?thesis
  proof (cases "date_valid date")
    case True
    define t where "t = used_time date time"
    have t: "time_valid t" "t = (if time_valid time then time else set_hms 0 0 0 0)"
      using True by (auto simp: t_def used_time_def mid time_valid_def msecs_per_day_def)
    have m: "get_msecs d = (m_jd date - 2440588) * 86400000 + m_mds t"
      using s(1) True t(1) by (simp add: d local_msecs_def t_def)
    have g: "dt_get_date d = date" "dt_get_time d = t"
      using s(4,5) True t(1) msecs_of_local [OF True t(1)]
      by (simp_all add: dt_get_date_def dt_get_time_def flag_iff d [symmetric] m t_def)
    have "dt_is_valid d" using s(6) True t(1) by (simp add: d t_def)
    moreover have "to_msecs_since_epoch P d = time_to_msecs date t - (if spec = UTC then 0 else off * 1000)"
      using s(2,3) f sp assms(1) by (auto simp: to_msecs_fixed d [symmetric] m time_to_msecs_eq [OF t(1)])
    ultimately show ?thesis using True g t(2) by simp
  next
    case False
    then have u: "used_time date time = time" by (simp add: used_time_def)
    have "dt_get_date d = date_null" using s(4) False by (simp add: dt_get_date_def flag_iff d)
    moreover have "dt_get_time d = (if time_valid time then time else time_null)"
    proof (cases "time_valid time")
      case True
      then have "get_msecs d = m_mds time" using s(1) False by (simp add: d local_msecs_def u)
      then show ?thesis
        using True s(5) time_valid_ds [OF True] by (simp add: dt_get_time_def flag_iff d [symmetric] u msecs_to_time_eq)
    qed (use s(5) in \<open>simp add: dt_get_time_def flag_iff d u\<close>)
    moreover have "\<not> dt_is_valid d" using s(6) False by (simp add: d)
    ultimately show ?thesis using False by auto
  qed
qed

text \<open>Adding milliseconds to a valid date and time in UTC or at a fixed offset moves it by exactly that many
  milliseconds and back again gives the same point in time, whatever the representation is before and after.\<close>

lemma datetime_add_msecs:
  assumes "dt_wf d" "fixed_spec (get_spec d)" "dt_is_valid d"
  shows "to_msecs_since_epoch P (dt_add_msecs P d n) = to_msecs_since_epoch P d + n \<and>
    dt_is_valid (dt_add_msecs P d n) \<and> get_spec (dt_add_msecs P d n) = get_spec d \<and>
    dt_msecs_to P d (dt_add_msecs P d n) = n \<and>
    dt_eq P (dt_add_msecs P (dt_add_msecs P d n) (- n)) d"
proof -
  have step: "to_msecs_since_epoch P (dt_add_msecs P d n) = to_msecs_since_epoch P d + n \<and>
      dt_is_valid (dt_add_msecs P d n) \<and> get_spec (dt_add_msecs P d n) = get_spec d"
    if d: "dt_wf d" "fixed_spec (get_spec d)" "dt_is_valid d" for d :: "'a dt_data" and n
  proof (cases "is_short d")
    case True
    then obtain s m where s: "d = Short s m" by (cases d) auto
    then have u: "extract_spec s = UTC" using d(1,2) by (auto simp: get_spec_def spec_can_be_small_def fixed_spec_def)
    then show ?thesis
      using s d(3) by (auto simp: dt_add_msecs_def Let_def get_spec_def to_msecs_since_epoch_def dt_is_valid_iff)
  next
    case False
    then obtain p where p: "d = Long p" by (cases d) auto
    define e where "e = data_copy d"
    obtain q where q: "dt_detach P e = Long q" by (cases e) auto
    have g: "get_spec e = get_spec d" "get_msecs e = get_msecs d" "\<And>k. k \<noteq> 0 \<Longrightarrow> bit (get_status e) k = bit (get_status d) k"
      by (simp_all add: e_def copy_spec copy_same)
    have we: "dt_wf e" using wf_copy [OF d(1)] by (simp add: e_def)
    have q': "dp_msecs q = dp_msecs p" "extract_spec (dp_status q) = extract_spec (dp_status p)"
      "bit (dp_status q) 3 = bit (dp_status p) 3"
      using g detach_same(1) [OF we, of P] detach_same(2) [OF we, of 3 P] detach_simps(2) [of P e] q p
      by (auto simp: get_spec_def)
    have "dp_offsetFromUtc q = dp_offsetFromUtc p" if "extract_spec (dp_status p) = OffsetFromUTC"
      using that q p copy_long [OF _ d(1)] by (simp add: e_def get_spec_def)
    note off = this
    have "get_spec d \<noteq> LocalTime" "get_spec d \<noteq> TimeZone" using d(2) by auto
    then have r: "dt_add_msecs P d n = Long (q\<lparr>dp_msecs := dp_msecs q + n\<rparr>)"
      unfolding dt_add_msecs_def Let_def e_def [symmetric] q using d(3) False by simp
    have "extract_spec (dp_status p) = UTC \<or> extract_spec (dp_status p) = OffsetFromUTC"
      using d(2) p by (auto simp: fixed_spec_def get_spec_def)
    then show ?thesis
      unfolding r using d(3) q' off by (auto simp: p get_spec_def to_msecs_since_epoch_def dt_is_valid_iff)
  qed
  define e where "e = dt_add_msecs P d n"
  note s = step [OF assms, of n, folded e_def]
  have we: "dt_wf e" using wf_add_msecs [OF assms(1)] by (simp add: e_def)
  have f: "fixed_spec (get_spec e)" using s assms(2) by simp
  note b = step [OF we f, of "- n"]
  show ?thesis
    unfolding e_def [symmetric] using s b assms(2,3) by (auto simp: dt_msecs_to_def dt_eq_def)
qed

section \<open>Local time and time zones\<close>

lemma refresh_get:
  assumes "dt_wf d"
  shows "get_msecs (refresh_datetime P d) = get_msecs d" "get_spec (refresh_datetime P d) = get_spec d"
    "k \<noteq> 3 \<Longrightarrow> bit (get_status (refresh_datetime P d)) k = bit (get_status d) k"
proof -
  obtain d' status e td tt where z: "refresh_zone P d = (d', status, e, td, tt)" by (metis prod_cases5)
  note k = refresh_zone_kind [OF assms z]
  have st: "status = get_status d \<or> status = get_status d AND - 9"
    using z by (auto simp: refresh_zone_def Let_def split: dt_data.splits if_splits prod.splits)
  have put: "get_msecs (put_refreshed d' s off) = get_msecs d" "get_spec (put_refreshed d' s off) = get_spec d"
    "get_status (put_refreshed d' s off) = s" if "same_kind s (get_status d)" for s off
    using that k wf_status [OF k(1)] same_kind_spec [OF that]
    by (cases d'; simp add: put_refreshed_def flag_iff same_kind_def get_spec_def)+
  have r: "\<exists>s off. refresh_datetime P d = put_refreshed d' s off \<and> same_kind s (get_status d) \<and>
      (s = status AND - 9 \<or> s = status OR 8)"
    using k(3) by (auto simp: refresh_datetime_def z Let_def split: prod.splits)
  then obtain s off where s: "refresh_datetime P d = put_refreshed d' s off" "same_kind s (get_status d)"
    "s = status AND - 9 \<or> s = status OR 8" by blast
  show "get_msecs (refresh_datetime P d) = get_msecs d" "get_spec (refresh_datetime P d) = get_spec d"
    using put [OF s(2)] s(1) by simp_all
  have n9: "bit (x AND - 9) k = bit x k" "bit (x OR 8) k = bit x k" if "k \<noteq> 3" for x :: byte and k
  proof -
    have "x AND - 9 = x AND NOT (push_bit 3 1)" "x OR 8 = x OR push_bit 3 1" by simp_all
    then show "bit (x AND - 9) k = bit x k" "bit (x OR 8) k = bit x k"
      using that by (simp_all only: bit_and_iff bit_or_iff bit_not_iff bit_push_bit_iff bit_1_iff) (use impossible_bit in fastforce)+
  qed
  show "k \<noteq> 3 \<Longrightarrow> bit (get_status (refresh_datetime P d)) k = bit (get_status d) k"
    using put(3) [OF s(2)] s(1,3) st n9 by auto
qed

text \<open>A point of time where the C library's \<open>localtime\<close> and \<open>mktime\<close> are inverse to each other.\<close>

definition local_clock_at :: "'z platform \<Rightarrow> int \<Rightarrow> bool" where
  "local_clock_at P secs \<longleftrightarrow>
     (case p_localtime P secs of
        None \<Rightarrow> False
      | Some t \<Rightarrow>
          p_mktime P t = Some (secs, t) \<and> tm_isdst t \<in> {- 1, 0, 1} \<and>
          date_valid (set_date (tm_year t + 1900) (tm_mon t + 1) (tm_mday t)) \<and>
          0 \<le> tm_hour t \<and> tm_hour t < 24 \<and> 0 \<le> tm_min t \<and> tm_min t < 60 \<and> 0 \<le> tm_sec t \<and> tm_sec t < 60 \<and>
          \<bar>time_to_msecs (set_date (tm_year t + 1900) (tm_mon t + 1) (tm_mday t))
             (set_hms (tm_hour t) (tm_min t) (tm_sec t) 0) - secs * 1000\<bar> \<le> msecs_per_day)"

lemma local_time_round_trip:
  fixes P :: "'z platform" and ms :: int
  assumes ms: "0 \<le> ms" "ms \<le> time_t_max * 1000" and c: "local_clock_at P (ms div 1000)"
  obtains date time dst where
    "pdk_localtime P ms = (True, date, time, dst)" "date_valid date" "time_valid time"
    "lr_msecs (local_msecs_to_epoch_msecs P (time_to_msecs date time) dst) = ms"
    "lr_date (local_msecs_to_epoch_msecs P (time_to_msecs date time) dst) = date"
    "lr_time (local_msecs_to_epoch_msecs P (time_to_msecs date time) dst) = time"
proof -
  define secs msec where "secs = ms div 1000" and "msec = ms mod 1000"
  have msec: "0 \<le> msec" "msec < 1000" and ms_eq: "ms = secs * 1000 + msec" by (simp_all add: secs_def msec_def)
  obtain t where t: "p_localtime P secs = Some t" using c by (auto simp: local_clock_at_def secs_def split: option.splits)
  define date time where "date = set_date (tm_year t + 1900) (tm_mon t + 1) (tm_mday t)"
    and "time = set_hms (tm_hour t) (tm_min t) (tm_sec t) msec"
  define dst where "dst = (if tm_isdst t > 0 then DaylightTime else if tm_isdst t < 0 then UnknownDaylightTime else StandardTime)"
  have law: "p_mktime P t = Some (secs, t)" "tm_isdst t = - 1 \<or> tm_isdst t = 0 \<or> tm_isdst t = 1" "date_valid date"
    "0 \<le> tm_hour t" "tm_hour t < 24" "0 \<le> tm_min t" "tm_min t < 60" "0 \<le> tm_sec t" "tm_sec t < 60"
    "\<bar>time_to_msecs date (set_hms (tm_hour t) (tm_min t) (tm_sec t) 0) - secs * 1000\<bar> \<le> 86400000"
    using c t by (simp_all add: local_clock_at_def secs_def date_def msecs_per_day_def)
  note f = set_hms_fields [OF law(4-9) msec, folded time_def]
  note f0 = set_hms_fields [OF law(4-9), of 0, simplified]
  have loc: "pdk_localtime P ms = (True, date, time, dst)"
    using t ms by (simp add: pdk_localtime_def secs_def msec_def date_def time_def dst_def Let_def)
  define L where "L = time_to_msecs date time"
  have L: "L = (m_jd date - 2440588) * 86400000 + m_mds time" by (simp add: L_def time_to_msecs_eq f(2))
  have near: "\<bar>L - ms\<bar> \<le> 86400000"
    using law(10) unfolding time_to_msecs_eq [OF f0(2)] by (simp add: L f(1) f0(1) ms_eq)
  have dec: "msecs_to_time L = (date, time)" unfolding L by (rule msecs_of_local [OF law(3) f(2)])
  have g: "get_date date = \<lparr>m_year = tm_year t + 1900, m_month = tm_mon t + 1, m_day = tm_mday t\<rparr>"
    using get_set_date law(3) by (simp add: date_def)
  have isdst: "daylight_int dst = tm_isdst t" using law(2) by (auto simp: dst_def)
  have tm: "\<lparr>tm_sec = get_second time, tm_min = get_minute time, tm_hour = get_hour time,
      tm_mday = m_day (get_date date), tm_mon = m_month (get_date date) - 1, tm_year = m_year (get_date date) - 1900,
      tm_isdst = daylight_int dst\<rparr> = t"
    using f g isdst by (simp add: tm.equality)
  have mk: "lr_msecs (pdk_mktime P date time dst) = ms" "lr_date (pdk_mktime P date time dst) = date"
    "lr_time (pdk_mktime P date time dst) = time" "lr_ok (pdk_mktime P date time dst)"
    unfolding pdk_mktime_def Let_def tm law(1) by (simp_all add: f(6) ms_eq) (simp_all add: date_def time_def)
  have "local_msecs_to_epoch_msecs P L dst = pdk_mktime P date time dst"
  proof -
    have "L \<le> 86400000 \<Longrightarrow> - 86400000 \<le> L" using near ms(1) by simp
    moreover have "L \<le> time_t_max * 1000 + 86400000" using near ms(2) by simp
    ultimately show ?thesis
      unfolding local_msecs_to_epoch_msecs_def dec Let_def using mk ms by (simp add: msecs_per_day_def)
  qed
  then show ?thesis using that [OF loc law(3) f(2)] mk by (simp add: L_def)
qed

text \<open>C33: In local time, the milliseconds since the epoch that are set are read back, and the result is valid, at every
  point of the range of \<open>time_t\<close> where the C library's conversions are inverse to each other.\<close>

theorem datetime_local_round_trip:
  assumes "dt_wf d" "get_spec d = LocalTime" "0 \<le> ms" "ms \<le> time_t_max * 1000" "local_clock_at P (ms div 1000)"
  shows "to_msecs_since_epoch P (set_msecs_since_epoch P d ms) = ms \<and> dt_is_valid (set_msecs_since_epoch P d ms)"
proof -
  obtain date time dst where l: "pdk_localtime P ms = (True, date, time, dst)" "date_valid date" "time_valid time"
    and r: "lr_msecs (local_msecs_to_epoch_msecs P (time_to_msecs date time) dst) = ms"
    "lr_date (local_msecs_to_epoch_msecs P (time_to_msecs date time) dst) = date"
    "lr_time (local_msecs_to_epoch_msecs P (time_to_msecs date time) dst) = time"
    using local_time_round_trip [OF assms(3-5)] by metis
  have e: "epoch_msecs_to_localtime P ms = (date, time, dst)"
    using assms(3,4) l(1) by (simp add: epoch_msecs_to_localtime_def)
  define L d1 d2 st d3 where "L = time_to_msecs date time" and "d1 = put_datetime P d date time"
    and "d2 = set_datetime P d date time" and "st = merge_daylight_status (get_status d2) dst"
    and "d3 = put_msecs P d2 st (get_msecs d2)"
  note g = put_datetime_get [OF assms(1), where P = P and date = date and time = time, folded d1_def]
  have u: "used_time date time = time" using l(3) by (simp add: used_time_def)
  have L: "L = local_msecs date time" using l(2,3) by (simp add: L_def local_msecs_def time_to_msecs_eq u)
  have d2: "d2 = refresh_datetime P d1"
    using g(3) assms(2)
    by (simp add: d2_def set_datetime_eq check_valid_datetime_def Let_def get_spec_def d1_def [symmetric])
  have w2: "dt_wf d2" using wf_refresh [OF g(1)] by (simp add: d2)
  have g2: "get_msecs d2 = L" "get_spec d2 = LocalTime" "bit (get_status d2) 1" "bit (get_status d2) 2"
    using refresh_get [OF g(1), where P = P] g(2-5) l(2,3) u assms(2) by (simp_all add: d2 L)
  have k: "same_kind st (get_status d2)" by (simp add: st_def)
  note g3 = put_msecs_get [OF w2 k, where P = P and msecs = "get_msecs d2", folded d3_def]
  have g4: "get_msecs d3 = L" "get_spec d3 = LocalTime" "bit (get_status d3) 1" "bit (get_status d3) 2"
    "extract_daylight_status (get_status d3) = dst"
    using g3 g2 by (simp_all add: st_def merge_daylight_bits merge_daylight_bits(2) [simplified] extract_daylight_status_def flag_iff)
      (cases dst; simp)
  have s: "set_msecs_since_epoch P d ms = refresh_datetime P d3"
    unfolding set_msecs_local [OF assms(2) e] d3_def st_def d2_def ..
  obtain d' status e' td tt where z: "refresh_zone P d3 = (d', status, e', td, tt)" by (metis prod_cases5)
  have z': "d' = d3" "status = get_status d3"
    using z g4(2) by (auto simp: refresh_zone_def Let_def get_spec_def split: dt_data.splits)
  have r3: "refresh_datetime P d3 = put_refreshed d3 (get_status d3 OR 8) (c_div (L - ms) 1000)"
    using g4 r unfolding refresh_datetime_def z z' Let_def by (simp add: flag_iff L_def)
  have w3: "dt_wf d3" by (rule g3(2))
  have st: "get_status (refresh_datetime P d3) = get_status d3 OR 8"
    unfolding r3 using w3 by (cases d3) (simp_all add: put_refreshed_def flag_iff bit_simps)
  have "extract_daylight_status (get_status d3 OR 8) = extract_daylight_status (get_status d3)"
    by (simp add: extract_daylight_status_def flag_iff bit_simps)
  then have "extract_daylight_status (get_status d3 OR 8) = dst" using g4(5) by simp
  then have "to_msecs_since_epoch P (refresh_datetime P d3) = ms"
    using refresh_get(1,2) [OF w3, where P = P] g4(1,2) r(1) by (simp add: to_msecs_since_epoch_def st L_def)
  moreover have "dt_is_valid (refresh_datetime P d3)" by (simp add: dt_is_valid_iff st bit_simps)
  ultimately show ?thesis by (simp add: s)
qed

theorem datetime_local_round_trip_witness:
  "to_msecs_since_epoch utc_platform (set_msecs_since_epoch utc_platform data_default 951782400123) = 951782400123"
proof -
  have "dt_wf (data_default :: unit dt_data)" "get_spec (data_default :: unit dt_data) = LocalTime"
    "local_clock_at utc_platform (951782400123 div 1000)" by code_simp+
  then show ?thesis using datetime_local_round_trip [of data_default 951782400123 utc_platform] by (simp add: time_t_max_def)
qed

end
