(* ===== verification/Number_Text.thy ===== *)
theory Number_Text
  imports Byte_Codec
begin

text \<open>
  Integers as text: the parsers of \<open>src/utils/LocaleTools.cpp\<close>, \<open>src/utils/Locale.cpp\<close> and
  \<open>ByteArray.cpp\<close> on top of the C library's \<open>strtoll\<close> and \<open>strtoull\<close>, and the formatting of
  \<open>LocaleData::longLongToString\<close> and \<open>unsLongLongToString\<close>.

  A C string is the list of its bytes before the terminating null byte.  A pointer into it is
  the list of the bytes that follow.
\<close>

unbundle bit_operations_syntax

section \<open>The C library\<close>

text \<open>\<open>isspace\<close> of the C locale, as \<open>ascii_isspace\<close> of \<open>kernel/StringUtils.h\<close>.\<close>

definition ascii_isspace :: "byte \<Rightarrow> bool" where
  "ascii_isspace c \<longleftrightarrow> c \<ge> 1 \<and> c \<le> 32 \<and> bit (0x80001F00 :: u32) (unat c - 1)"

text \<open>The value of a digit, 36 for any other byte.\<close>

definition strto_digit :: "byte \<Rightarrow> nat" where
  "strto_digit c =
     (if 48 \<le> c \<and> c \<le> 57 then unat c - 48
      else if 65 \<le> c \<and> c \<le> 90 then unat c - 55
      else if 97 \<le> c \<and> c \<le> 122 then unat c - 87 else 36)"

fun strto_sign :: "byte list \<Rightarrow> bool \<times> byte list" where
  "strto_sign [] = (False, [])"
| "strto_sign (c # s) = (if c = 45 then (True, s) else if c = 43 then (False, s) else (False, c # s))"

text \<open>The base 0 is read off the text; the prefix \<open>0x\<close> counts when a digit follows.\<close>

definition has_0x :: "byte list \<Rightarrow> bool" where
  "has_0x s \<longleftrightarrow> length s \<ge> 3 \<and> s ! 0 = 48 \<and> (s ! 1 = 120 \<or> s ! 1 = 88) \<and> strto_digit (s ! 2) < 16"

definition strto_base :: "nat \<Rightarrow> byte list \<Rightarrow> nat \<times> byte list" where
  "strto_base base s =
     (if (base = 0 \<or> base = 16) \<and> has_0x s then (16, drop 2 s)
      else if base = 0 then if s \<noteq> [] \<and> s ! 0 = 48 then (8, s) else (10, s)
      else (base, s))"

text \<open>The sign, the value of the digits and the rest of the text, or \<open>None\<close> without any digit.\<close>

definition strto :: "nat \<Rightarrow> byte list \<Rightarrow> (bool \<times> nat \<times> byte list) option" where
  "strto base s =
     (let (neg, s) = strto_sign (dropWhile ascii_isspace s);
          (base, s) = strto_base base s;
          ds = takeWhile (\<lambda>c. strto_digit c < base) s
      in if ds = [] then None
         else Some (neg, foldl (\<lambda>v d. v * base + strto_digit d) 0 ds, dropWhile (\<lambda>c. strto_digit c < base) s))"

text \<open>The result, whether \<open>errno\<close> is set (\<open>ERANGE\<close>), and the end pointer.\<close>

definition strtoll :: "byte list \<Rightarrow> nat \<Rightarrow> int \<times> bool \<times> byte list" where
  "strtoll s base =
     (case strto base s of
        None \<Rightarrow> (0, False, s)
      | Some (neg, v, rest) \<Rightarrow>
          (let n = (if neg then - int v else int v)
           in if n < - (2 ^ 63) then (- (2 ^ 63), True, rest)
              else if n \<ge> 2 ^ 63 then (2 ^ 63 - 1, True, rest)
              else (n, False, rest)))"

definition strtoull :: "byte list \<Rightarrow> nat \<Rightarrow> int \<times> bool \<times> byte list" where
  "strtoull s base =
     (case strto base s of
        None \<Rightarrow> (0, False, s)
      | Some (neg, v, rest) \<Rightarrow>
          (if int v \<ge> 2 ^ 64 then (2 ^ 64 - 1, True, rest)
           else ((if neg then (- int v) mod 2 ^ 64 else int v), False, rest)))"

section \<open>Parsing\<close>

text \<open>The result with the end pointer, or \<open>None\<close> for \<open>ok\<close> false.\<close>

definition pdk_strtoull :: "byte list \<Rightarrow> nat \<Rightarrow> (int \<times> byte list) option" where
  "pdk_strtoull nptr base =
     (let begin' = dropWhile ascii_isspace nptr
      in if begin' \<noteq> [] \<and> hd begin' = 45 then None
         else let (result, errno, endptr2) = strtoull nptr base
              in if (result = 0 \<or> result = 2 ^ 64 - 1) \<and> (errno \<or> length endptr2 = length nptr) then None
                 else Some (result, endptr2))"

definition pdk_strtoll :: "byte list \<Rightarrow> nat \<Rightarrow> (int \<times> byte list) option" where
  "pdk_strtoll nptr base =
     (let (result, errno, endptr2) = strtoll nptr base
      in if (result = 0 \<or> result = - (2 ^ 63) \<or> result = 2 ^ 63 - 1) \<and> (errno \<or> length nptr = length endptr2) then None
         else Some (result, endptr2))"

definition bytearray_to_long_long :: "byte list \<Rightarrow> nat \<Rightarrow> int option" where
  "bytearray_to_long_long num base =
     (if num = [] then None
      else case pdk_strtoll num base of
             None \<Rightarrow> None
           | Some (l, endptr) \<Rightarrow> if endptr \<noteq> [] then None else Some l)"

definition bytearray_to_uns_long_long :: "byte list \<Rightarrow> nat \<Rightarrow> int option" where
  "bytearray_to_uns_long_long num base =
     (case pdk_strtoull num base of
        None \<Rightarrow> None
      | Some (l, endptr) \<Rightarrow> if endptr \<noteq> [] then None else Some l)"

text \<open>
  \<open>ByteArray::toInt\<close> and its siblings: the 64-bit value, if it survives the conversion to the type, which
  has \<open>w\<close> bits.  The bytes of the array end for \<open>strtoll\<close> at the first null byte.
\<close>

definition to_integral :: "bool \<Rightarrow> nat \<Rightarrow> byte list \<Rightarrow> nat \<Rightarrow> int option" where
  "to_integral is_signed w bs base =
     (let data = takeWhile (\<lambda>c. c \<noteq> 0) bs;
          val = (if is_signed then bytearray_to_long_long data base else bytearray_to_uns_long_long data base);
          conv = (\<lambda>v. if is_signed then signed_take_bit (w - 1) v else take_bit w v)
      in case val of None \<Rightarrow> None | Some v \<Rightarrow> if conv v \<noteq> v then None else Some v)"

text \<open>\<open>setNum\<close> of an unsigned number.\<close>

definition set_unsigned_num :: "nat \<Rightarrow> nat \<Rightarrow> byte list option" where
  "set_unsigned_num n base = ulltoa2 n base"

section \<open>Formatting\<close>

text \<open>
  \<open>pdk_ulltoa\<close> writes at most 65 digits; the cells left are the fuel.  A UTF-16 text is a list of code
  units.
\<close>

fun ulltoa_loop :: "nat \<Rightarrow> nat \<Rightarrow> nat \<Rightarrow> u16 \<Rightarrow> u16 list \<Rightarrow> u16 list option" where
  "ulltoa_loop cells l base zero p =
     (if l = 0 then Some p
      else case cells of
             0 \<Rightarrow> None
           | Suc cells \<Rightarrow>
               if base = 0 then None
               else let c = l mod base;
                        ch = (if base \<noteq> 10 \<or> zero = 48
                              then of_nat (if c < 10 then 48 + c else c - 10 + 97) else zero + of_nat c)
                    in ulltoa_loop cells (l div base) base zero (ch # p))"

declare ulltoa_loop.simps [simp del]

definition pdk_ulltoa :: "nat \<Rightarrow> nat \<Rightarrow> u16 \<Rightarrow> u16 list option" where
  "pdk_ulltoa l base zero = ulltoa_loop 65 l base zero []"

text \<open>The negation of the smallest 64-bit integer overflows, which is \<open>None\<close> here.\<close>

definition pdk_lltoa :: "int \<Rightarrow> nat \<Rightarrow> u16 \<Rightarrow> u16 list option" where
  "pdk_lltoa l base zero =
     (if l = - (2 ^ 63) then None else pdk_ulltoa (nat (if l < 0 then - l else l)) base zero)"

text \<open>The characters of a locale that integers are written with.\<close>

record number_symbols =
  ns_zero :: u16
  ns_group :: u16
  ns_plus :: u16
  ns_minus :: u16

text \<open>\<open>LocaleData::Flag\<close>.\<close>

definition flag_zero_padded :: u32 where "flag_zero_padded = 0x02"
definition flag_left_adjusted :: u32 where "flag_left_adjusted = 0x04"
definition flag_blank_before_positive :: u32 where "flag_blank_before_positive = 0x08"
definition flag_always_show_sign :: u32 where "flag_always_show_sign = 0x10"
definition flag_thousands_group :: u32 where "flag_thousands_group = 0x20"
definition flag_capital :: u32 where "flag_capital = 0x40"
definition flag_show_base :: u32 where "flag_show_base = 0x80"
definition flag_uppercase_base :: u32 where "flag_uppercase_base = 0x100"

definition has_flag :: "u32 \<Rightarrow> u32 \<Rightarrow> bool" where
  "has_flag flags f \<longleftrightarrow> flags AND f \<noteq> 0"

text \<open>The loop that inserts the group character from the right.\<close>

function group_thousands :: "u16 \<Rightarrow> int \<Rightarrow> u16 list \<Rightarrow> u16 list" where
  "group_thousands sep i s =
     (if i > 0 then group_thousands sep (i - 3) (take (nat i) s @ [sep] @ drop (nat i) s) else s)"
  by pat_completeness auto
termination by (relation "measure (\<lambda>(g, i, s). nat i)") auto

declare group_thousands.simps [simp del]

text \<open>\<open>String::toUpper\<close>, which uses the Unicode tables, is the parameter \<open>upper\<close>.\<close>

definition long_long_to_string ::
  "(u16 list \<Rightarrow> u16 list) \<Rightarrow> number_symbols \<Rightarrow> int \<Rightarrow> int \<Rightarrow> nat \<Rightarrow> int \<Rightarrow> u32 \<Rightarrow> u16 list option" where
  "long_long_to_string upper syms l precision base width flags =
     (let precision_not_specified = (precision = - 1);
          precision = (if precision = - 1 then 1 else precision);
          negative = (l < 0 \<and> base = 10);
          flags = (if base \<noteq> 10 then flags AND NOT flag_always_show_sign AND NOT flag_blank_before_positive else flags);
          zero = (if base = 10 then ns_zero syms else 48)
      in map_option (\<lambda>num_str.
           let num_str = (if has_flag flags flag_thousands_group \<and> base = 10
                          then group_thousands (ns_group syms) (int (length num_str) - 3) num_str else num_str);
               num_str = replicate (nat (precision - int (length num_str))) zero @ num_str;
               num_str = (if has_flag flags flag_show_base \<and> base = 8 \<and> (num_str = [] \<or> hd num_str \<noteq> 48)
                          then 48 # num_str else num_str);
               zero_padded = (has_flag flags flag_zero_padded \<and> \<not> has_flag flags flag_left_adjusted
                              \<and> precision_not_specified);
               num_pad_chars = width - int (length num_str)
                 - (if negative \<or> has_flag flags flag_always_show_sign \<or> has_flag flags flag_blank_before_positive
                    then 1 else 0)
                 - (if (base = 16 \<or> base = 2) \<and> has_flag flags flag_show_base then 2 else 0);
               num_str = (if zero_padded then replicate (nat num_pad_chars) zero @ num_str else num_str);
               num_str = (if has_flag flags flag_capital then upper num_str else num_str);
               num_str = (if base = 16 \<and> has_flag flags flag_show_base
                          then [48, if has_flag flags flag_uppercase_base then 88 else 120] @ num_str else num_str);
               num_str = (if base = 2 \<and> has_flag flags flag_show_base
                          then [48, if has_flag flags flag_uppercase_base then 66 else 98] @ num_str else num_str)
           in if negative then ns_minus syms # num_str
              else if has_flag flags flag_always_show_sign then ns_plus syms # num_str
              else if has_flag flags flag_blank_before_positive then 32 # num_str
              else num_str)
         (if base = 10 then pdk_lltoa l base (ns_zero syms)
          else pdk_ulltoa (nat (l mod 2 ^ 64)) base (ns_zero syms)))"

definition uns_long_long_to_string ::
  "(u16 list \<Rightarrow> u16 list) \<Rightarrow> number_symbols \<Rightarrow> nat \<Rightarrow> int \<Rightarrow> nat \<Rightarrow> int \<Rightarrow> u32 \<Rightarrow> u16 list option" where
  "uns_long_long_to_string upper syms l precision base width flags =
     (let resultZero = (if base = 10 then ns_zero syms else 48)
      in map_option (\<lambda>num_str.
           if precision = - 1 \<and> flags = 0 then num_str
           else
           let precision_not_specified = (precision = - 1);
               precision = (if precision = - 1 then 1 else precision);
               num_str = (if has_flag flags flag_thousands_group \<and> base = 10
                          then group_thousands (ns_group syms) (int (length num_str) - 3) num_str else num_str);
               num_str = replicate (nat (precision - int (length num_str))) resultZero @ num_str;
               num_str = (if has_flag flags flag_show_base \<and> base = 8 \<and> (num_str = [] \<or> hd num_str \<noteq> 48)
                          then 48 # num_str else num_str);
               zero_padded = (has_flag flags flag_zero_padded \<and> \<not> has_flag flags flag_left_adjusted
                              \<and> precision_not_specified);
               num_pad_chars = width - int (length num_str)
                 - (if (base = 16 \<or> base = 2) \<and> has_flag flags flag_show_base then 2 else 0);
               num_str = (if zero_padded then replicate (nat num_pad_chars) resultZero @ num_str else num_str);
               num_str = (if has_flag flags flag_capital then upper num_str else num_str);
               num_str = (if base = 16 \<and> has_flag flags flag_show_base
                          then [48, if has_flag flags flag_uppercase_base then 88 else 120] @ num_str
                          else if base = 2 \<and> has_flag flags flag_show_base
                          then [48, if has_flag flags flag_uppercase_base then 66 else 98] @ num_str else num_str)
           in if has_flag flags flag_always_show_sign then ns_plus syms # num_str
              else if has_flag flags flag_blank_before_positive then 32 # num_str
              else num_str)
         (if l \<noteq> 0 then pdk_ulltoa l base (ns_zero syms) else Some [resultZero]))"

text \<open>\<open>String::number\<close>: the C locale.\<close>

definition c_symbols :: number_symbols where
  "c_symbols = \<lparr>ns_zero = 48, ns_group = 44, ns_plus = 43, ns_minus = 45\<rparr>"

definition string_number :: "int \<Rightarrow> nat \<Rightarrow> u16 list option" where
  "string_number n base = long_long_to_string id c_symbols n (- 1) base (- 1) 0"


section \<open>Digits\<close>

lemma strto_digit_bounds [simp]: "strto_digit c \<le> 36"
  by (auto simp: strto_digit_def word_le_nat_alt)

lemma unat_digit: "c < 36 \<Longrightarrow> unat (ulltoa2_digit c) = c + (if c < 10 then 48 else 87)"
proof -
  assume c: "c < 36"
  define m where "m = c + (if c < 10 then 48 else 87)"
  have "m < 256" using c by (simp add: m_def)
  then have "unat (of_nat m :: byte) = m" by (simp add: unsigned_of_nat take_bit_nat_eq_self)
  then show ?thesis by (simp only: m_def ulltoa2_digit_def)
qed

text \<open>No digit is a space, a sign, a null byte, a point or the letter of a prefix.\<close>

lemma digit_not_special:
  assumes "c < 36"
  shows "\<not> ascii_isspace (ulltoa2_digit c)" "ulltoa2_digit c \<noteq> 45" "ulltoa2_digit c \<noteq> 43" "ulltoa2_digit c \<noteq> 0"
    "ulltoa2_digit c \<noteq> 46" "c < 16 \<Longrightarrow> ulltoa2_digit c \<noteq> 120" "ulltoa2_digit c \<noteq> 88"
    "strto_digit (ulltoa2_digit c) = c"
  using unat_digit [OF assms] assms
  by (auto simp: ascii_isspace_def word_le_nat_alt word_unat_eq_iff strto_digit_def split: if_splits)

definition digits_value :: "nat \<Rightarrow> byte list \<Rightarrow> nat" where
  "digits_value base ds = foldl (\<lambda>v d. v * base + strto_digit d) 0 ds"

text \<open>The digits of a number, the most significant first; none for 0.\<close>

fun digits_of :: "nat \<Rightarrow> nat \<Rightarrow> nat list" where
  "digits_of base n = (if n = 0 \<or> base < 2 then [] else digits_of base (n div base) @ [n mod base])"

declare digits_of.simps [simp del]

definition digit16 :: "nat \<Rightarrow> u16" where
  "digit16 c = of_nat (c + (if c < 10 then 48 else 87))"

lemma digits_of_0 [simp]: "digits_of base 0 = []"
  by (simp add: digits_of.simps)

lemma digits_of_step: "0 < n \<Longrightarrow> 2 \<le> base \<Longrightarrow> digits_of base n = digits_of base (n div base) @ [n mod base]"
  by (subst digits_of.simps) simp

lemma digits_of_less: "2 \<le> base \<Longrightarrow> c \<in> set (digits_of base n) \<Longrightarrow> c < base"
  by (induction base n rule: digits_of.induct) (subst (asm) (2) digits_of.simps, auto split: if_splits)

lemma digits_of_nonempty: "2 \<le> base \<Longrightarrow> digits_of base n = [] \<longleftrightarrow> n = 0"
  by (subst digits_of.simps) auto

lemma length_digits_of: "2 \<le> base \<Longrightarrow> n < base ^ k \<Longrightarrow> length (digits_of base n) \<le> k"
proof (induction k arbitrary: n)
  case (Suc k)
  show ?case
  proof (cases "n = 0")
    case False
    have "n div base < base ^ k" using Suc.prems by (simp add: less_mult_imp_div_less mult.commute)
    then show ?thesis using Suc.IH [OF Suc.prems(1)] False Suc.prems(1) by (simp add: digits_of_step)
  qed simp
qed simp

lemma value_digits_of: "2 \<le> base \<Longrightarrow> foldl (\<lambda>v d. v * base + d) 0 (digits_of base n) = n"
proof (induction base n rule: digits_of.induct)
  case (1 base n)
  then show ?case by (cases "n = 0") (simp_all add: digits_of_step)
qed

lemma ulltoa2_loop_digits:
  "2 \<le> base \<Longrightarrow> ulltoa2_loop cells n base p = Some q \<Longrightarrow>
    q = map ulltoa2_digit (if n = 0 then [0] else digits_of base n) @ p"
proof (induction cells n base p rule: ulltoa2_loop.induct)
  case (2 cells n base p)
  then show ?case
    by (cases "n = 0"; cases "n div base = 0") (auto simp: Let_def digits_of_step)
qed simp

lemma ulltoa_loop_digits:
  "2 \<le> base \<Longrightarrow> l < base ^ cells \<Longrightarrow> ulltoa_loop cells l base 48 p = Some (map digit16 (digits_of base l) @ p)"
proof (induction cells arbitrary: l p)
  case 0
  then show ?case by (simp add: ulltoa_loop.simps)
next
  case (Suc cells)
  show ?case
  proof (cases "l = 0")
    case True
    then show ?thesis by (simp add: ulltoa_loop.simps)
  next
    case False
    have lt: "l div base < base ^ cells" using Suc.prems by (simp add: less_mult_imp_div_less mult.commute)
    show ?thesis
      using False Suc.prems(1) Suc.IH [OF Suc.prems(1) lt]
      by (subst ulltoa_loop.simps) (simp add: Let_def digits_of_step digit16_def add.commute)
  qed
qed

lemma digits_value_map:
  assumes "2 \<le> base" "base \<le> 36"
  shows "digits_value base (map ulltoa2_digit (digits_of base n)) = n"
proof -
  have "strto_digit (ulltoa2_digit c) = c" if "c \<in> set (digits_of base n)" for c
    using digit_not_special(8) [of c] digits_of_less [OF assms(1) that] assms(2) by simp
  then have "digits_value base (map ulltoa2_digit (digits_of base n)) = foldl (\<lambda>v d. v * base + d) 0 (digits_of base n)"
    by (simp add: digits_value_def foldl_map cong: foldl_cong)
  then show ?thesis using value_digits_of [OF assms(1)] by simp
qed

section \<open>Parsing digits\<close>

lemma strto_digits:
  assumes b: "2 \<le> base" "base \<le> 36" and cs: "cs \<noteq> []" "\<And>c. c \<in> set cs \<Longrightarrow> c < base"
    and rest: "rest = [] \<or> base \<le> strto_digit (hd rest)" "base = 16 \<Longrightarrow> rest = []"
  defines "ds \<equiv> map ulltoa2_digit cs"
  shows "strto base (ds @ rest) = Some (False, digits_value base ds, rest)"
    "strto base (45 # ds @ rest) = Some (True, digits_value base ds, rest)"
proof -
  have d: "\<not> ascii_isspace d \<and> d \<noteq> 45 \<and> d \<noteq> 43 \<and> d \<noteq> 88 \<and> strto_digit d < base" if dd: "d \<in> set ds" for d
  proof -
    obtain c where c: "c \<in> set cs" "d = ulltoa2_digit c" using dd by (auto simp: ds_def)
    have "c < base" using cs(2) [OF c(1)] .
    then show ?thesis using digit_not_special [of c] b c(2) by simp
  qed
  have x: "d \<noteq> 120" if b16: "base = 16" and dd: "d \<in> set ds" for d
  proof -
    obtain c where c: "c \<in> set cs" "d = ulltoa2_digit c" using dd by (auto simp: ds_def)
    have "c < 16" using cs(2) [OF c(1)] b16 by simp
    then show ?thesis using digit_not_special(6) [of c] c(2) by simp
  qed
  obtain d0 ds' where ds: "ds = d0 # ds'" using cs(1) by (cases ds) (auto simp: ds_def)
  have h: "\<not> ascii_isspace d0" "d0 \<noteq> 45" "d0 \<noteq> 43" using d [of d0] by (auto simp: ds)
  have "\<not> has_0x (ds @ rest)" if "base = 16"
  proof
    assume "has_0x (ds @ rest)"
    then have "1 < length ds" "ds ! 1 = 120 \<or> ds ! 1 = 88" using rest(2) that by (auto simp: has_0x_def)
    then show False using x [OF that, of "ds ! 1"] d [of "ds ! 1"] nth_mem [of 1 ds] by auto
  qed
  then have base: "strto_base base (ds @ rest) = (base, ds @ rest)" using b by (auto simp: strto_base_def)
  have tw: "takeWhile (\<lambda>c. strto_digit c < base) (ds @ rest) = ds" "dropWhile (\<lambda>c. strto_digit c < base) (ds @ rest) = rest"
    using d rest(1) by (cases rest; auto simp: takeWhile_append2 dropWhile_append2)+
  have ne: "ds \<noteq> []" by (simp add: ds)
  show "strto base (ds @ rest) = Some (False, digits_value base ds, rest)"
    using base tw ne h by (simp add: strto_def ds digits_value_def)
  have "\<not> ascii_isspace 45" by (simp add: ascii_isspace_def)
  then show "strto base (45 # ds @ rest) = Some (True, digits_value base ds, rest)"
    using base tw ne by (simp add: strto_def digits_value_def)
qed

lemma pdk_strtoll_digits:
  assumes "2 \<le> base" "base \<le> 36" "cs \<noteq> []" "\<And>c. c \<in> set cs \<Longrightarrow> c < base"
    "digits_value base (map ulltoa2_digit cs) < 2 ^ 63"
  shows "pdk_strtoll (map ulltoa2_digit cs) base = Some (int (digits_value base (map ulltoa2_digit cs)), [])"
proof -
  have "int (digits_value base (map ulltoa2_digit cs)) < 2 ^ 63" using assms(5) by simp
  then show ?thesis
    using strto_digits(1) [OF assms(1-4), of "[]"] assms(3) by (simp add: pdk_strtoll_def strtoll_def)
qed

lemma pdk_strtoll_neg_digits:
  assumes "2 \<le> base" "base \<le> 36" "cs \<noteq> []" "\<And>c. c \<in> set cs \<Longrightarrow> c < base"
    "digits_value base (map ulltoa2_digit cs) \<le> 2 ^ 63"
  shows "pdk_strtoll (45 # map ulltoa2_digit cs) base = Some (- int (digits_value base (map ulltoa2_digit cs)), [])"
proof -
  have "int (digits_value base (map ulltoa2_digit cs)) \<le> 2 ^ 63" using assms(5) by simp
  then show ?thesis
    using strto_digits(2) [OF assms(1-4), of "[]"] by (simp add: pdk_strtoll_def strtoll_def)
qed

lemma pdk_strtoull_digits:
  assumes "2 \<le> base" "base \<le> 36" "cs \<noteq> []" "\<And>c. c \<in> set cs \<Longrightarrow> c < base"
    "rest = [] \<or> base \<le> strto_digit (hd rest)" "base = 16 \<Longrightarrow> rest = []"
    "digits_value base (map ulltoa2_digit cs) < 2 ^ 64"
  shows "pdk_strtoull (map ulltoa2_digit cs @ rest) base = Some (int (digits_value base (map ulltoa2_digit cs)), rest)"
proof -
  obtain c cs' where cs: "cs = c # cs'" using assms(3) by (cases cs) auto
  have "c < 36" using assms(2,4) by (fastforce simp: cs)
  then have "dropWhile ascii_isspace (map ulltoa2_digit cs @ rest) = map ulltoa2_digit cs @ rest"
    "hd (map ulltoa2_digit cs @ rest) \<noteq> 45" using digit_not_special [of c] by (simp_all add: cs)
  moreover have "int (digits_value base (map ulltoa2_digit cs)) < 2 ^ 64" using assms(7) by simp
  ultimately show ?thesis
    using strto_digits(1) [OF assms(1-6)] assms(3) by (simp add: pdk_strtoull_def strtoull_def Let_def)
qed


lemma ulltoa2_digits:
  assumes "2 \<le> base" "base \<le> 36" "n < 2 ^ 64"
  shows "ulltoa2 n base = Some (map ulltoa2_digit (if n = 0 then [0] else digits_of base n))"
proof -
  obtain ds where "ulltoa2 n base = Some ds" using ulltoa2_value [OF assms] by blast
  then show ?thesis using ulltoa2_loop_digits [OF assms(1), of 66 n "[]" ds] by (simp add: ulltoa2_def)
qed

lemma printed_digits:
  assumes "2 \<le> base" "base \<le> 36"
  defines "cs \<equiv> \<lambda>n. if n = 0 then [0] else digits_of base n"
  shows "cs n \<noteq> []" "c \<in> set (cs n) \<Longrightarrow> c < base" "digits_value base (map ulltoa2_digit (cs n)) = n"
proof -
  show "cs n \<noteq> []" using assms(1) by (simp add: cs_def digits_of_nonempty)
  show "c \<in> set (cs n) \<Longrightarrow> c < base" using digits_of_less [OF assms(1), of c n] assms(1) by (auto simp: cs_def split: if_splits)
  show "digits_value base (map ulltoa2_digit (cs n)) = n"
    using digits_value_map [OF assms(1,2)] digit_not_special(8) [of 0] by (simp add: cs_def digits_value_def)
qed

lemma takeWhile_printed: "\<forall>c \<in> set cs. c < 36 \<Longrightarrow> takeWhile (\<lambda>c. c \<noteq> 0) (map ulltoa2_digit cs) = map ulltoa2_digit cs"
  using digit_not_special(4) by (simp add: takeWhile_eq_all_conv)

lemma pdk_strtoll_range:
  assumes "2 \<le> base" "base \<le> 36" "cs \<noteq> []" "\<And>c. c \<in> set cs \<Longrightarrow> c < base"
    "2 ^ 63 \<le> digits_value base (map ulltoa2_digit cs)"
  shows "pdk_strtoll (map ulltoa2_digit cs) base = None"
proof -
  have "\<not> int (digits_value base (map ulltoa2_digit cs)) < 2 ^ 63" using assms(5) by simp
  then show ?thesis
    using strto_digits(1) [OF assms(1-4), of "[]"] by (simp add: pdk_strtoll_def strtoll_def)
qed

text \<open>What the four conversions make of the digits of a number, and of a minus sign with digits.\<close>

lemma to_integral_digits:
  assumes "2 \<le> base" "base \<le> 36" "m < 2 ^ 64" "0 < w" "w \<le> 64"
  defines "ds \<equiv> map ulltoa2_digit (if m = 0 then [0] else digits_of base m)"
  shows "to_integral True w ds base = (if int m < 2 ^ (w - 1) then Some (int m) else None)"
    "to_integral False w ds base = (if int m < 2 ^ w then Some (int m) else None)"
proof -
  define cs where "cs = (if m = 0 then [0] else digits_of base m)"
  note p = printed_digits [OF assms(1,2), where n = m, folded cs_def]
  have c36: "\<forall>c \<in> set cs. c < 36" by (intro ballI order.strict_trans2 [OF p(2) assms(2)])
  have ds: "ds = map ulltoa2_digit cs" by (simp add: ds_def cs_def)
  have s: "signed_take_bit (w - 1) (int m) = int m \<longleftrightarrow> int m < 2 ^ (w - 1)"
    using signed_take_bit_int_eq_self_iff [of "w - 1" "int m"] by (simp add: order.trans [of _ 0])
  have u: "take_bit w (int m) = int m \<longleftrightarrow> int m < 2 ^ w" by (simp add: take_bit_int_eq_self_iff)
  show "to_integral True w ds base = (if int m < 2 ^ (w - 1) then Some (int m) else None)"
  proof (cases "m < 2 ^ 63")
    case True
    then have "pdk_strtoll (map ulltoa2_digit cs) base = Some (int m, [])"
      using pdk_strtoll_digits [OF assms(1,2) p(1,2)] p(3) by simp
    then show ?thesis using p(1) s by (simp add: ds takeWhile_printed [OF c36] to_integral_def bytearray_to_long_long_def)
  next
    case False
    have "(2 :: int) ^ (w - 1) \<le> 2 ^ 63" using assms(5) by (intro power_increasing) auto
    also have "\<dots> \<le> int m" using False by simp
    finally have "\<not> int m < 2 ^ (w - 1)" by simp
    moreover have "pdk_strtoll (map ulltoa2_digit cs) base = None"
      using pdk_strtoll_range [OF assms(1,2) p(1,2)] p(3) False by simp
    ultimately show ?thesis by (simp add: ds takeWhile_printed [OF c36] to_integral_def bytearray_to_long_long_def)
  qed
  have "pdk_strtoull (map ulltoa2_digit cs) base = Some (int m, [])"
    using pdk_strtoull_digits [OF assms(1,2) p(1,2), of "[]"] p(3) assms(3) by simp
  then show "to_integral False w ds base = (if int m < 2 ^ w then Some (int m) else None)"
    using u by (simp add: ds takeWhile_printed [OF c36] to_integral_def bytearray_to_uns_long_long_def)
qed

lemma to_integral_minus:
  assumes "2 \<le> base" "base \<le> 36" "0 < m" "m \<le> 2 ^ 63"
  defines "ds \<equiv> 45 # map ulltoa2_digit (digits_of base m)"
  shows "to_integral True w ds base = (if - (2 ^ (w - 1)) \<le> - int m then Some (- int m) else None)"
    "to_integral False w ds base = None"
proof -
  note p = printed_digits [OF assms(1,2), where n = m]
  have cs: "(if m = 0 then [0] else digits_of base m) = digits_of base m" using assms(3) by simp
  have c36: "\<forall>c \<in> set (digits_of base m). c < 36"
    using order.strict_trans2 [OF digits_of_less [OF assms(1)] assms(2)] by blast
  have s: "signed_take_bit (w - 1) (- int m) = - int m \<longleftrightarrow> - (2 ^ (w - 1)) \<le> - int m"
    using signed_take_bit_int_eq_self_iff [of "w - 1" "- int m"] zero_less_power [of "2 :: int" "w - 1"] assms(3)
    by linarith
  have "pdk_strtoll (45 # map ulltoa2_digit (digits_of base m)) base = Some (- int m, [])"
    using pdk_strtoll_neg_digits [OF assms(1,2) p(1,2)] p(3) assms(4) unfolding cs by simp
  then show "to_integral True w ds base = (if - (2 ^ (w - 1)) \<le> - int m then Some (- int m) else None)"
    using s by (simp add: ds_def takeWhile_printed [OF c36] to_integral_def bytearray_to_long_long_def)
  have "\<not> ascii_isspace 45" by (simp add: ascii_isspace_def)
  then show "to_integral False w ds base = None"
    by (simp add: ds_def takeWhile_printed [OF c36] to_integral_def bytearray_to_uns_long_long_def pdk_strtoull_def)
qed

text \<open>C36: An integer written by \<open>setNum\<close>, of a signed or an unsigned 64-bit number, in a base from 2 to 36 is read back in that base
  by the conversions of \<open>ByteArray\<close> (\<open>toShort\<close> to \<open>toULongLong\<close>) into every signed and unsigned integer type that holds it,
  and is an error for a type that does not.  (A negative number is written with its sign in base 10 only, and the theorem
  is about base 10 then.)\<close>

theorem number_print_parse:
  assumes "2 \<le> base" "base \<le> 36" "- (2 ^ 63) \<le> n" "n < (if uns then 2 ^ 64 else 2 ^ 63)"
    "0 \<le> n \<or> base = 10 \<and> \<not> uns" "0 < w" "w \<le> 64"
  shows "\<exists>ds. (if uns then set_unsigned_num (nat n) base else set_num n base) = Some ds \<and>
    to_integral True w ds base = (if - (2 ^ (w - 1)) \<le> n \<and> n < 2 ^ (w - 1) then Some n else None) \<and>
    to_integral False w ds base = (if 0 \<le> n \<and> n < 2 ^ w then Some n else None)"
proof -
  define m where "m = nat \<bar>n\<bar>"
  have m: "m < 2 ^ 64" using assms(3,4) by (auto simp: m_def split: if_splits)
  have u: "ulltoa2 m base = Some (map ulltoa2_digit (if m = 0 then [0] else digits_of base m))"
    by (rule ulltoa2_digits [OF assms(1,2) m])
  show ?thesis
  proof (cases "0 \<le> n")
    case True
    have "- (2 ^ (w - 1)) \<le> (0 :: int)" by simp
    then have low: "- (2 ^ (w - 1)) \<le> n" using True by linarith
    have nat: "nat n = m" "int m = n" using True by (simp_all add: m_def)
    have "unat (word_of_int n :: 64 word) = m" if "\<not> uns"
      using True assms(4) that by (simp add: m_def unsigned_of_int take_bit_int_eq_self nat_eq_iff)
    then have "(if uns then set_unsigned_num (nat n) base else set_num n base) =
        Some (map ulltoa2_digit (if m = 0 then [0] else digits_of base m))"
      using True u nat by (simp add: set_num_def set_unsigned_num_def)
    then show ?thesis
      using to_integral_digits [OF assms(1,2) m assms(6,7)] low True unfolding nat(2) by auto
  next
    case False
    then have b: "base = 10" "\<not> uns" using assms(5) by simp_all
    have n: "nat (- (1 + n)) + 1 = m" "0 < m" "m \<le> 2 ^ 63" "- int m = n"
      using False assms(3) by (auto simp: m_def)
    then have "set_num n base = Some (45 # map ulltoa2_digit (digits_of base m))"
      using False u b by (simp add: set_num_def chr_of_def)
    moreover have "n < 2 ^ (w - 1)" using False zero_less_power [of "2 :: int" "w - 1"] by linarith
    ultimately show ?thesis
      using to_integral_minus [OF assms(1,2) n(2,3)] False b(2) unfolding n(4) by auto
  qed
qed

theorem number_print_parse_witness:
  "(\<exists>ds. set_num (- 32768) 10 = Some ds \<and> to_integral True 16 ds 10 = Some (- 32768) \<and> to_integral False 16 ds 10 = None) \<and>
   (\<exists>ds. set_unsigned_num 32768 16 = Some ds \<and> to_integral True 16 ds 16 = None \<and> to_integral False 16 ds 16 = Some 32768)"
  using number_print_parse [of 10 "- 32768" False 16] number_print_parse [of 16 32768 True 16] by simp

section \<open>Formatting\<close>

text \<open>Grouping by the definition: a separator in front of the last three digits, and so on to the left.\<close>

fun grouped :: "u16 \<Rightarrow> u16 list \<Rightarrow> u16 list" where
  "grouped sep s =
     (if length s \<le> 3 then s else grouped sep (take (length s - 3) s) @ [sep] @ drop (length s - 3) s)"

declare grouped.simps [simp del]

lemma group_small: "i \<le> 0 \<Longrightarrow> group_thousands sep i s = s" "length s \<le> 3 \<Longrightarrow> grouped sep s = s"
  by (simp_all add: group_thousands.simps [of sep i] grouped.simps [of sep s])

lemma group_thousands_append:
  "i \<le> int (length s) \<Longrightarrow> group_thousands sep i (s @ t) = group_thousands sep i s @ t"
proof (induction sep i s rule: group_thousands.induct)
  case (1 sep i s)
  show ?case
  proof (cases "i > 0")
    case True
    have "i - 3 \<le> int (length (take (nat i) s @ [sep] @ drop (nat i) s))" using 1(2) by simp
    from 1(1) [OF True this] show ?thesis
      using True 1(2) by (simp add: group_thousands.simps [of sep i] nat_le_iff)
  qed (simp add: group_thousands.simps [of sep i])
qed

lemma group_thousands_eq: "group_thousands sep (int (length s) - 3) s = grouped sep s"
proof (induction sep s rule: grouped.induct)
  case (1 sep s)
  show ?case
  proof (cases "length s \<le> 3")
    case True
    then show ?thesis by (simp add: group_thousands.simps grouped.simps)
  next
    case False
    define n where "n = length s - 3"
    have n: "int (length s) - 3 = int n" "0 < n" using False by (simp_all add: n_def)
    have "group_thousands sep (int (length s) - 3) s
        = group_thousands sep (int n - 3) (take n s @ [sep] @ drop n s)"
      unfolding n(1) by (subst group_thousands.simps) (simp add: n(2))
    also have "\<dots> = group_thousands sep (int n - 3) (take n s) @ [sep] @ drop n s"
      using False by (intro group_thousands_append) (simp add: n_def)
    also have "group_thousands sep (int n - 3) (take n s) = grouped sep (take n s)"
      using 1 [OF False] by (simp add: n_def)
    finally show ?thesis using False by (subst grouped.simps) (simp add: n_def)
  qed
qed


lemma ulltoa_digits:
  assumes "2 \<le> base" "l < 2 ^ 64"
  shows "pdk_ulltoa l base 48 = Some (map digit16 (digits_of base l))"
proof -
  have "(2 :: nat) ^ 64 \<le> base ^ 65"
  proof -
    have "(2 :: nat) ^ 64 \<le> 2 ^ 65" by simp
    also have "\<dots> \<le> base ^ 65" using assms(1) by (intro power_mono) auto
    finally show ?thesis .
  qed
  then show ?thesis using ulltoa_loop_digits [OF assms(1), of l 65 "[]"] assms(2) by (simp add: pdk_ulltoa_def)
qed

lemma ulltoa_0 [simp]: "pdk_ulltoa 0 base zero = Some []"
  by (simp add: pdk_ulltoa_def ulltoa_loop.simps)

lemma ulltoa_loop_length: "ulltoa_loop cells l base zero p = Some q \<Longrightarrow> length p \<le> length q"
proof (induction cells arbitrary: l p)
  case 0
  then show ?case by (simp add: ulltoa_loop.simps [of 0] split: if_splits)
next
  case (Suc cells)
  show ?case
  proof (cases "l = 0")
    case False
    then obtain ch where "ulltoa_loop cells (l div base) base zero (ch # p) = Some q"
      using Suc.prems by (subst (asm) ulltoa_loop.simps) (auto simp: Let_def split: if_splits)
    then show ?thesis using Suc.IH by fastforce
  qed (use Suc.prems in \<open>simp add: ulltoa_loop.simps [of "Suc cells"]\<close>)
qed

lemma ulltoa_nonempty:
  assumes "pdk_ulltoa l base zero = Some q" "l \<noteq> 0"
  shows "1 \<le> length q"
proof -
  obtain ch cells where "ulltoa_loop cells (l div base) base zero [ch] = Some q"
    using assms unfolding pdk_ulltoa_def
    by (subst (asm) ulltoa_loop.simps) (auto simp: Let_def split: if_splits nat.splits)
  then show ?thesis using ulltoa_loop_length by fastforce
qed

text \<open>What both formatting functions do with the digits in base 10: grouping, the precision, and the rest.\<close>

definition with_groups :: "number_symbols \<Rightarrow> u32 \<Rightarrow> u16 list \<Rightarrow> u16 list" where
  "with_groups syms flags s =
     (if has_flag flags flag_thousands_group then group_thousands (ns_group syms) (int (length s) - 3) s else s)"

definition with_precision :: "number_symbols \<Rightarrow> int \<Rightarrow> u16 list \<Rightarrow> u16 list" where
  "with_precision syms precision s =
     (let p = (if precision = - 1 then 1 else precision) in replicate (nat (p - int (length s))) (ns_zero syms) @ s)"

definition finish :: "(u16 list \<Rightarrow> u16 list) \<Rightarrow> number_symbols \<Rightarrow> int \<Rightarrow> int \<Rightarrow> int \<Rightarrow> u32 \<Rightarrow> u16 list \<Rightarrow> u16 list" where
  "finish upper syms precision width sign_space flags s =
     (let s = (if has_flag flags flag_zero_padded \<and> \<not> has_flag flags flag_left_adjusted \<and> precision = - 1
               then replicate (nat (width - int (length s) - sign_space)) (ns_zero syms) @ s else s);
          s = (if has_flag flags flag_capital then upper s else s)
      in if has_flag flags flag_always_show_sign then ns_plus syms # s
         else if has_flag flags flag_blank_before_positive then 32 # s else s)"

lemma signed_format_10:
  assumes "0 \<le> l" "l < 2 ^ 63"
  shows "long_long_to_string upper syms l precision 10 width flags =
    map_option (\<lambda>s. finish upper syms precision width
        (if has_flag flags flag_always_show_sign \<or> has_flag flags flag_blank_before_positive then 1 else 0) flags
        (with_precision syms precision (with_groups syms flags s)))
      (pdk_ulltoa (nat l) 10 (ns_zero syms))"
  using assms
  by (simp add: long_long_to_string_def pdk_lltoa_def Let_def finish_def with_precision_def with_groups_def
      cong: map_option_cong if_cong)

lemma unsigned_format_10:
  "uns_long_long_to_string upper syms n precision 10 width flags =
    map_option (\<lambda>s. if precision = - 1 \<and> flags = 0 then s
        else finish upper syms precision width 0 flags (with_precision syms precision (with_groups syms flags s)))
      (if n = 0 then Some [ns_zero syms] else pdk_ulltoa n 10 (ns_zero syms))"
  by (simp add: uns_long_long_to_string_def Let_def finish_def with_precision_def with_groups_def cong: map_option_cong if_cong)

text \<open>For a number that both types hold, in base 10 and with any locale, width, precision and flags, the signed and
  the unsigned formatting agree, except where a padding with zeros meets a sign (only the signed formatting leaves
  space for it) and for 0 with precision 0.\<close>

lemma format_signed_unsigned:
  assumes "n < 2 ^ 63" "precision = - 1 \<or> 0 < precision \<or> n \<noteq> 0"
    and "has_flag flags flag_zero_padded \<Longrightarrow>
      \<not> has_flag flags flag_always_show_sign \<and> \<not> has_flag flags flag_blank_before_positive"
  shows "long_long_to_string upper syms (int n) precision 10 width flags
    = uns_long_long_to_string upper syms n precision 10 width flags"
proof -
  define z where "z = ns_zero syms"
  have adj: "finish upper syms precision width
        (if has_flag flags flag_always_show_sign \<or> has_flag flags flag_blank_before_positive then 1 else 0) flags s
      = finish upper syms precision width 0 flags s" for s
    using assms(3) by (auto simp: finish_def)
  have fast: "finish upper syms precision width 0 flags (with_precision syms precision (with_groups syms flags s)) = s"
    if "precision = - 1" "flags = 0" "1 \<le> length s" for s
    using that by (simp add: finish_def with_precision_def with_groups_def has_flag_def)
  show ?thesis
  proof (cases "n = 0")
    case True
    have g: "with_groups syms flags [] = []" "with_groups syms flags [z] = [z]"
      by (simp_all add: with_groups_def group_thousands.simps)
    have "with_precision syms precision [] = with_precision syms precision [z]"
      using assms(2) True
      by (cases "nat precision") (auto simp: with_precision_def z_def nat_diff_distrib replicate_append_same)
    then show ?thesis
      using True fast [of "[z]"] g by (auto simp: signed_format_10 unsigned_format_10 adj z_def)
  next
    case False
    then show ?thesis
      using assms(1) fast ulltoa_nonempty [of n 10 z]
      by (cases "pdk_ulltoa n 10 z") (auto simp: signed_format_10 unsigned_format_10 adj z_def)
  qed
qed


text \<open>Where a padding with zeros meets a sign, the unsigned text is one character too wide.\<close>

lemma unsigned_padding_wide:
  "map_option length (long_long_to_string id c_symbols 7 (- 1) 10 5 (flag_zero_padded OR flag_always_show_sign)) = Some 5"
  "map_option length (uns_long_long_to_string id c_symbols 7 (- 1) 10 5 (flag_zero_padded OR flag_always_show_sign)) = Some 6"
  by code_simp+

text \<open>\<open>String::toLatin1\<close>.\<close>

definition to_latin1 :: "u16 list \<Rightarrow> byte list" where
  "to_latin1 s = map (\<lambda>c. if c > 0xFF then 63 else ucast c) s"

lemma to_latin1_digit: "c < 36 \<Longrightarrow> to_latin1 [digit16 c] = [ulltoa2_digit c]"
proof -
  assume "c < 36"
  define m where "m = c + (if c < 10 then 48 else 87)"
  have "m < 256" using \<open>c < 36\<close> by (simp add: m_def)
  then have "unat (of_nat m :: u16) = m" by (simp add: unsigned_of_nat take_bit_nat_eq_self)
  then have "\<not> (of_nat m :: u16) > 0xFF" "ucast (of_nat m :: u16) = (of_nat m :: byte)"
    using \<open>m < 256\<close> by (simp_all add: word_less_nat_alt word_unat_eq_iff unsigned_ucast_eq take_bit_nat_eq_self unsigned_of_nat)
  then show ?thesis by (simp only: to_latin1_def digit16_def ulltoa2_digit_def m_def list.map if_False)
qed

lemma to_latin1_digits: "\<forall>c \<in> set cs. c < 36 \<Longrightarrow> to_latin1 (map digit16 cs) = map ulltoa2_digit cs"
  using to_latin1_digit by (induction cs) (auto simp: to_latin1_def)


lemma grouped_length: "length s \<le> length (grouped sep s)"
proof (induction sep s rule: grouped.induct)
  case (1 sep s)
  then show ?case by (subst grouped.simps) auto
qed

lemma c_format:
  assumes "- (2 ^ 63) < n" "n < 2 ^ 63" "flags = 0 \<or> flags = flag_thousands_group"
  defines "ds \<equiv> map digit16 (if n = 0 then [0] else digits_of 10 (nat \<bar>n\<bar>))"
  shows "long_long_to_string upper c_symbols n (- 1) 10 width flags =
    Some ((if n < 0 then [45] else []) @ (if flags = 0 then ds else grouped 44 ds))"
proof -
  have f: "\<not> has_flag flags flag_show_base" "\<not> has_flag flags flag_capital" "\<not> has_flag flags flag_zero_padded"
    "\<not> has_flag flags flag_always_show_sign" "\<not> has_flag flags flag_blank_before_positive"
    "has_flag flags flag_thousands_group \<longleftrightarrow> flags \<noteq> 0"
    using assms(3) by (auto simp: has_flag_def flag_show_base_def flag_capital_def flag_zero_padded_def
        flag_always_show_sign_def flag_blank_before_positive_def flag_thousands_group_def)
  define cs where "cs = digits_of 10 (nat \<bar>n\<bar>)"
  have u: "pdk_ulltoa (nat \<bar>n\<bar>) 10 48 = Some (map digit16 cs)"
    unfolding cs_def by (rule ulltoa_digits) (use assms(1,2) in auto)
  show ?thesis
  proof (cases "n = 0")
    case True
    then show ?thesis
      using f assms(3)
      by (auto simp: signed_format_10 finish_def with_precision_def with_groups_def group_small
          ds_def c_symbols_def digit16_def)
  next
    case False
    then have ne: "map digit16 cs \<noteq> []" by (simp add: cs_def digits_of_nonempty)
    then have len: "1 \<le> length (map digit16 cs)" by (cases cs) auto
    have pad: "nat (1 - int (length (map digit16 cs))) = 0" "nat (1 - int (length (grouped 44 (map digit16 cs)))) = 0"
      using len grouped_length [of "map digit16 cs" 44] by linarith+
    have g: "group_thousands 44 (int (length cs) - 3) (map digit16 cs) = grouped 44 (map digit16 cs)"
      using group_thousands_eq [of 44 "map digit16 cs"] by simp
    have ds: "ds = map digit16 cs" using False by (simp add: ds_def cs_def)
    show ?thesis
    proof (cases "n < 0")
      case True
      have "pdk_lltoa n 10 48 = Some (map digit16 cs)" using True assms(1) u by (simp add: pdk_lltoa_def)
      then show ?thesis
        using True f pad g ds by (simp add: long_long_to_string_def Let_def c_symbols_def)
    next
      case False
      then show ?thesis
        using f pad g ds u assms(2)
        by (simp add: signed_format_10 finish_def with_precision_def with_groups_def c_symbols_def)
    qed
  qed
qed

text \<open>\<open>String::number\<close> writes in base 10 a text that \<open>toLatin1\<close> and the integer parser read back to the same
  number, for every 64-bit number but the smallest; with grouping, separators stand in front of every third digit from
  the right and nothing else changes.\<close>

lemma number_text:
  assumes "- (2 ^ 63) < n" "n < 2 ^ 63"
  shows "\<exists>ds. string_number n 10 = Some ((if n < 0 then [45] else []) @ ds) \<and>
    bytearray_to_long_long (to_latin1 ((if n < 0 then [45] else []) @ ds)) 10 = Some n \<and>
    long_long_to_string upper c_symbols n (- 1) 10 width flag_thousands_group
      = Some ((if n < 0 then [45] else []) @ grouped 44 ds)"
proof -
  define cs where "cs = (if nat \<bar>n\<bar> = 0 then [0] else digits_of 10 (nat \<bar>n\<bar>))"
  have cs: "map digit16 (if n = 0 then [0] else digits_of 10 (nat \<bar>n\<bar>)) = map digit16 cs" by (simp add: cs_def)
  note p = printed_digits [where base = 10 and n = "nat \<bar>n\<bar>", simplified, folded cs_def [simplified]]
  have p: "cs \<noteq> []" "\<And>c. c \<in> set cs \<Longrightarrow> c < 10" "digits_value 10 (map ulltoa2_digit cs) = nat \<bar>n\<bar>"
    using printed_digits [where base = 10 and n = "nat \<bar>n\<bar>", folded cs_def] by simp_all
  have l1: "to_latin1 (map digit16 cs) = map ulltoa2_digit cs" using p(2) by (intro to_latin1_digits) fastforce
  have l1': "to_latin1 (45 # map digit16 cs) = 45 # map ulltoa2_digit cs" using l1 by (simp add: to_latin1_def)
  have "bytearray_to_long_long (to_latin1 ((if n < 0 then [45] else []) @ map digit16 cs)) 10 = Some n"
  proof (cases "n < 0")
    case True
    have "pdk_strtoll (45 # map ulltoa2_digit cs) 10 = Some (n, [])"
      using pdk_strtoll_neg_digits [of 10 cs] p True assms(1) by simp
    then show ?thesis using True by (simp add: bytearray_to_long_long_def l1')
  next
    case False
    have "pdk_strtoll (map ulltoa2_digit cs) 10 = Some (n, [])"
      using pdk_strtoll_digits [of 10 cs] p False assms(2) by simp
    then show ?thesis using False p(1) by (simp add: bytearray_to_long_long_def l1)
  qed
  then show ?thesis
    using c_format [OF assms, of 0 id "- 1"] c_format [OF assms, of flag_thousands_group upper width] cs
    by (auto simp: string_number_def flag_thousands_group_def intro!: exI [of _ "map digit16 cs"])
qed

end
