(* ===== verification/Version_Numbers.thy ===== *)
theory Version_Numbers
  imports Number_Text
begin

text \<open>
  \<open>pdk::utils::VersionNumber\<close> (\<open>src/utils/VersionNumber.cpp\<close>, \<open>include/pdk/utils/VersionNumber.h\<close>):
  a sequence of integers, kept in one 64-bit word (little endian) when it has at most seven segments of
  eight bits, else in a vector on the heap.  The lowest byte of the word holds the mark and the length.
  A subtraction of segments that overflows \<open>int\<close> is undefined behaviour, \<open>None\<close> in the model.
\<close>

unbundle bit_operations_syntax

definition inline_segment_count :: nat where "inline_segment_count = 7"

datatype segment_storage = Inline "64 word" | Pointer "int list"

text \<open>The signed byte \<open>k\<close> of the word, and the word with a byte replaced.\<close>

definition word_byte :: "64 word \<Rightarrow> nat \<Rightarrow> int" where
  "word_byte w k = sint (ucast (drop_bit (8 * k) w) :: byte)"

definition set_word_byte :: "64 word \<Rightarrow> nat \<Rightarrow> byte \<Rightarrow> 64 word" where
  "set_word_byte w k b = (w AND NOT (push_bit (8 * k) 0xFF)) OR push_bit (8 * k) (ucast b)"

fun is_using_pointer :: "segment_storage \<Rightarrow> bool" where
  "is_using_pointer (Inline w) = (even (word_byte w 0))"
| "is_using_pointer (Pointer s) = True"

fun storage_size :: "segment_storage \<Rightarrow> int" where
  "storage_size (Inline w) = word_byte w 0 div 2"
| "storage_size (Pointer s) = int (length s)"

definition pint8 :: "int \<Rightarrow> int" where
  "pint8 x = signed_take_bit 7 x"

definition data_fits_inline :: "int list \<Rightarrow> bool" where
  "data_fits_inline data \<longleftrightarrow> length data \<le> inline_segment_count \<and> list_all (\<lambda>x. x = pint8 x) data"

text \<open>\<open>setInlineData\<close>: the length and the mark, then each segment shifted to its byte.\<close>

fun inline_bytes :: "64 word \<Rightarrow> nat \<Rightarrow> int list \<Rightarrow> 64 word" where
  "inline_bytes w k [] = w"
| "inline_bytes w k (x # xs) = inline_bytes (w OR push_bit (8 * k) (word_of_int x AND 0xFF)) (k + 1) xs"

definition set_inline_data :: "int list \<Rightarrow> segment_storage" where
  "set_inline_data data = Inline (inline_bytes (of_nat (1 + length data * 2)) 1 data)"

definition storage_of :: "int list \<Rightarrow> segment_storage" where
  "storage_of seg = (if data_fits_inline seg then set_inline_data seg else Pointer seg)"

text \<open>The constructors from one, two and three numbers.\<close>

definition set_segments :: "nat \<Rightarrow> int \<Rightarrow> int \<Rightarrow> int \<Rightarrow> segment_storage" where
  "set_segments len maj mnr mic =
     (if maj = pint8 maj \<and> mnr = pint8 mnr \<and> mic = pint8 mic then set_inline_data (take len [maj, mnr, mic])
      else Pointer (take len [maj, mnr, mic]))"

fun storage_resize :: "segment_storage \<Rightarrow> nat \<Rightarrow> segment_storage" where
  "storage_resize (Pointer s) len = Pointer (take len s @ replicate (len - length s) 0)"
| "storage_resize (Inline w) len = Inline (set_word_byte w 0 (of_nat (1 + 2 * len)))"

fun storage_at :: "segment_storage \<Rightarrow> nat \<Rightarrow> int" where
  "storage_at (Pointer s) i = s ! i"
| "storage_at (Inline w) i = word_byte w (1 + i)"

definition segment_count :: "segment_storage \<Rightarrow> int" where
  "segment_count v = storage_size v"

definition segment_at :: "segment_storage \<Rightarrow> nat \<Rightarrow> int" where
  "segment_at v i = (if storage_size v > int i then storage_at v i else 0)"

definition get_segments :: "segment_storage \<Rightarrow> int list" where
  "get_segments v =
     (case v of Pointer s \<Rightarrow> s | Inline w \<Rightarrow> map (segment_at v) [0..<nat (segment_count v)])"

definition version_is_null :: "segment_storage \<Rightarrow> bool" where
  "version_is_null v \<longleftrightarrow> segment_count v = 0"

definition version_is_normalized :: "segment_storage \<Rightarrow> bool" where
  "version_is_normalized v \<longleftrightarrow> version_is_null v \<or> segment_at v (nat (segment_count v - 1)) \<noteq> 0"

fun last_nonzero :: "segment_storage \<Rightarrow> nat \<Rightarrow> nat" where
  "last_nonzero v 0 = 0"
| "last_nonzero v (Suc i) = (if storage_at v i \<noteq> 0 then Suc i else last_nonzero v i)"

definition normalized :: "segment_storage \<Rightarrow> segment_storage" where
  "normalized v = storage_resize v (last_nonzero v (nat (storage_size v)))"

definition is_prefix_of :: "segment_storage \<Rightarrow> segment_storage \<Rightarrow> bool" where
  "is_prefix_of v other \<longleftrightarrow>
     \<not> segment_count v > segment_count other
     \<and> list_all (\<lambda>i. segment_at v i = segment_at other i) [0..<nat (segment_count v)]"

text \<open>The result is \<open>None\<close> where the C++ subtraction or negation leaves \<open>int\<close>.\<close>

definition checked_int :: "int \<Rightarrow> int option" where
  "checked_int x = (if - (2 ^ 31) \<le> x \<and> x < 2 ^ 31 then Some x else None)"

fun compare_common :: "segment_storage \<Rightarrow> segment_storage \<Rightarrow> nat list \<Rightarrow> int option" where
  "compare_common v1 v2 [] = Some 0"
| "compare_common v1 v2 (i # is) =
     (if segment_at v1 i \<noteq> segment_at v2 i then checked_int (segment_at v1 i - segment_at v2 i)
      else compare_common v1 v2 is)"

definition version_compare :: "segment_storage \<Rightarrow> segment_storage \<Rightarrow> int option" where
  "version_compare v1 v2 =
     (let commonlen = nat (min (segment_count v1) (segment_count v2))
      in case compare_common v1 v2 [0..<commonlen] of
           None \<Rightarrow> None
         | Some x \<Rightarrow>
             if x \<noteq> 0 then Some x
             else if segment_count v1 > int commonlen
             then if segment_at v1 commonlen \<noteq> 0 then Some (segment_at v1 commonlen) else Some 1
             else if segment_count v2 > int commonlen
             then if segment_at v2 commonlen \<noteq> 0 then checked_int (- segment_at v2 commonlen) else Some (- 1)
             else Some 0)"

fun common_length :: "segment_storage \<Rightarrow> segment_storage \<Rightarrow> nat \<Rightarrow> nat list \<Rightarrow> nat" where
  "common_length v1 v2 n [] = n"
| "common_length v1 v2 n (i # is) = (if segment_at v1 i \<noteq> segment_at v2 i then i else common_length v1 v2 n is)"

definition common_prefix :: "segment_storage \<Rightarrow> segment_storage \<Rightarrow> segment_storage" where
  "common_prefix v1 v2 =
     (let commonlen = nat (min (segment_count v1) (segment_count v2));
          i = common_length v1 v2 commonlen [0..<commonlen]
      in if i = 0 then Inline 1
         else storage_resize (if \<not> is_using_pointer v1 then v1 else v2) i)"

text \<open>\<open>toString\<close>; the point is 46.\<close>

fun version_text :: "segment_storage \<Rightarrow> bool \<Rightarrow> nat list \<Rightarrow> u16 list \<Rightarrow> u16 list option" where
  "version_text v first [] version = Some version"
| "version_text v first (i # is) version =
     (case string_number (segment_at v i) 10 of
        None \<Rightarrow> None
      | Some num \<Rightarrow> version_text v False is (version @ (if first then [] else [46]) @ num))"

definition version_to_string :: "segment_storage \<Rightarrow> u16 list option" where
  "version_to_string v = version_text v True [0..<nat (segment_count v)] []"

lemma strto_consumes:
  assumes "strto base s = Some (neg, v, rest)"
  shows "length rest < length s"
proof -
  define s1 where "s1 = dropWhile ascii_isspace s"
  obtain neg' s2 where s2: "strto_sign s1 = (neg', s2)" by fastforce
  obtain b s3 where s3: "strto_base base s2 = (b, s3)" by fastforce
  have "length s1 \<le> length s" by (simp add: s1_def length_dropWhile_le)
  moreover have "length s2 \<le> length s1" using s2 by (cases s1) (auto split: if_splits)
  moreover have "length s3 \<le> length s2" using s3 by (auto simp: strto_base_def split: if_splits)
  moreover have "length rest < length s3"
  proof -
    have "takeWhile (\<lambda>c. strto_digit c < b) s3 \<noteq> []" "rest = dropWhile (\<lambda>c. strto_digit c < b) s3"
      using assms s2 s3 by (auto simp: strto_def s1_def Let_def split: if_splits)
    then show ?thesis by (cases s3) (auto simp: less_Suc_eq_le length_dropWhile_le split: if_splits)
  qed
  ultimately show ?thesis by linarith
qed

lemma strtoull_consumes:
  assumes "pdk_strtoull s base = Some (v, rest)"
  shows "length rest < length s"
proof -
  obtain r e p where u: "strtoull s base = (r, e, p)" using prod_cases3 by blast
  have p: "rest = p" "\<not> ((r = 0 \<or> r = 2 ^ 64 - 1) \<and> (e \<or> length p = length s))"
    using assms u by (auto simp: pdk_strtoull_def Let_def split: if_splits)
  show ?thesis
  proof (cases "strto base s")
    case None
    then show ?thesis using u p by (auto simp: strtoull_def)
  next
    case (Some x)
    obtain neg w q where "x = (neg, w, q)" using prod_cases3 by blast
    then show ?thesis using u p(1) Some strto_consumes [of base s] by (auto simp: strtoull_def split: if_splits)
  qed
qed

text \<open>\<open>fromString\<close> on the Latin-1 text: the segments and the index of the suffix.\<close>

function parse_segments :: "byte list \<Rightarrow> int list \<Rightarrow> byte list \<Rightarrow> int list \<times> byte list" where
  "parse_segments start seg lastGoodEnd =
     (case pdk_strtoull start 10 of
        None \<Rightarrow> (seg, lastGoodEnd)
      | Some (value, end') \<Rightarrow>
          if value > 2 ^ 31 - 1 then (seg, lastGoodEnd)
          else if length end' > 1 \<and> hd end' = 46
          then parse_segments (tl end') (seg @ [value]) end'
          else (seg @ [value], end'))"
  by pat_completeness auto
termination
  by (relation "measure (\<lambda>(s, _, _). length s)") (auto dest: strtoull_consumes)

declare parse_segments.simps [simp del]

definition version_from_string :: "byte list \<Rightarrow> segment_storage \<times> nat" where
  "version_from_string string =
     (let (seg, lastGoodEnd) = parse_segments string [] string
      in (storage_of seg, length string - length lastGoodEnd))"

end
