(* ===== verification/Version_Proofs.thy ===== *)
theory Version_Proofs
  imports Version_Numbers "HOL-Library.Sublist"
begin

text \<open>
  The properties of \<open>pdk::utils::VersionNumber\<close>: both representations stand for the list of the
  segments, the operations are those of lists, the comparison is a linear order (an instance of the class
  \<open>linorder\<close>), and the text of a version is parsed back.
\<close>

section \<open>Bytes of a word\<close>

definition byte_of :: "64 word \<Rightarrow> nat \<Rightarrow> byte" where
  "byte_of w k = ucast (drop_bit (8 * k) w)"

lemma bit_byte_of: "bit (byte_of w k) i \<longleftrightarrow> i < 8 \<and> bit w (8 * k + i)"
  by (auto simp: byte_of_def bit_ucast_iff bit_drop_bit_eq add.commute numeral_eq_Suc)

lemma bit_ff [simp]: "bit (0xFF :: int) n \<longleftrightarrow> n < 8" "bit (0xFF :: nat) n \<longleftrightarrow> n < 8"
proof -
  have "(0xFF :: int) = mask 8" "(0xFF :: nat) = mask 8" by (simp_all add: mask_eq_exp_minus_1)
  then show "bit (0xFF :: int) n \<longleftrightarrow> n < 8" "bit (0xFF :: nat) n \<longleftrightarrow> n < 8" by (simp_all only: bit_mask_iff) auto
qed

lemma byte_of_or:
  assumes "8 * k + 8 \<le> 64"
  shows "byte_of (w OR push_bit (8 * k) (x AND 0xFF)) j = (if j = k then byte_of w j OR ucast x else byte_of w j)"
proof (rule bit_word_eqI)
  fix i assume "i < LENGTH(8)"
  then have i: "i < 8" by simp
  have "j = k \<longleftrightarrow> 8 * k \<le> 8 * j + i \<and> 8 * j + i - 8 * k < 8" using i by auto
  then show "bit (byte_of (w OR push_bit (8 * k) (x AND 0xFF)) j) i
      = bit (if j = k then byte_of w j OR ucast x else byte_of w j) i"
    using i assms by (auto simp: bit_byte_of bit_or_iff bit_push_bit_iff bit_and_iff bit_ucast_iff)
qed

lemma byte_of_set:
  assumes "8 * k + 8 \<le> 64"
  shows "byte_of (set_word_byte w k b) j = (if j = k then b else byte_of w j)"
proof (rule bit_word_eqI)
  fix i assume "i < LENGTH(8)"
  then have i: "i < 8" by simp
  have e: "j = k \<longleftrightarrow> 8 * k \<le> 8 * j + i \<and> 8 * j + i - 8 * k < 8" using i by auto
  have n: "bit (NOT (push_bit (8 * k) 0xFF) :: 64 word) n \<longleftrightarrow> n < 64 \<and> \<not> (8 * k \<le> n \<and> n - 8 * k < 8)" for n
    by (auto simp: bit_not_iff bit_push_bit_iff)
  show "bit (byte_of (set_word_byte w k b) j) i = bit (if j = k then b else byte_of w j) i"
    using i assms e bit_imp_le_length [of b "8 * j + i - 8 * k"] bit_imp_le_length [of w "8 * j + i"]
    by (auto simp: bit_byte_of set_word_byte_def bit_or_iff bit_and_iff n bit_push_bit_iff bit_ucast_iff)
qed


lemma word_byte_eq: "word_byte w k = sint (byte_of w k)"
  by (simp add: word_byte_def byte_of_def)

lemma byte_of_inline_bytes:
  "8 * (k + length xs) \<le> 64 \<Longrightarrow> byte_of (inline_bytes w k xs) j =
    (if k \<le> j \<and> j < k + length xs then byte_of w j OR ucast (word_of_int (xs ! (j - k)) :: 64 word) else byte_of w j)"
proof (induction w k xs rule: inline_bytes.induct)
  case (2 w k x xs)
  define w' where "w' = w OR push_bit (8 * k) (word_of_int x AND 0xFF)"
  have l: "8 * (k + 1 + length xs) \<le> 64" "8 * k + 8 \<le> 64" using 2(2) by simp_all
  have w': "byte_of w' j = (if j = k then byte_of w j OR ucast (word_of_int x :: 64 word) else byte_of w j)"
    unfolding w'_def by (rule byte_of_or [OF l(2)])
  have "byte_of (inline_bytes w k (x # xs)) j =
      (if k + 1 \<le> j \<and> j < k + 1 + length xs then byte_of w' j OR ucast (word_of_int (xs ! (j - (k + 1))) :: 64 word)
       else byte_of w' j)"
    using 2(1) [OF l(1)] by (simp only: inline_bytes.simps w'_def)
  then show ?case unfolding w' by (auto simp: nth_Cons' Suc_diff_Suc not_le)
qed auto

lemma byte_of_small:
  assumes "n < 256"
  shows "byte_of (of_nat n) j = (if j = 0 then of_nat n else 0)"
proof (rule bit_word_eqI)
  fix i assume i: "i < LENGTH(8)"
  have "\<not> bit n m" if "8 \<le> m" for m
  proof -
    have "(2 :: nat) ^ 8 \<le> 2 ^ m" using that by (intro power_increasing) auto
    then have "n div 2 ^ m = 0" using assms by simp
    then show ?thesis by (simp add: bit_iff_odd)
  qed
  then show "bit (byte_of (of_nat n) j) i = bit (if j = 0 then of_nat n else 0 :: byte) i"
    using i by (auto simp: bit_byte_of bit_of_nat_iff)
qed

lemma sint_byte: "sint (ucast (word_of_int x :: 64 word) :: byte) = signed_take_bit 7 x"
proof -
  have "ucast (word_of_int x :: 64 word) = (word_of_int x :: byte)"
    by (rule bit_word_eqI) (simp add: bit_ucast_iff bit_word_of_int_iff)
  then show ?thesis by (simp add: signed_of_int)
qed

section \<open>The segments\<close>

fun version_wf :: "segment_storage \<Rightarrow> bool" where
  "version_wf (Inline w) \<longleftrightarrow> odd (word_byte w 0) \<and> 0 \<le> word_byte w 0 \<and> word_byte w 0 \<le> 15"
| "version_wf (Pointer s) \<longleftrightarrow> True"

lemma length_get_segments: "version_wf v \<Longrightarrow> int (length (get_segments v)) = segment_count v"
  by (cases v) (simp_all add: get_segments_def segment_count_def)

lemma segment_at_nth: "segment_at v i = (if i < length (get_segments v) then get_segments v ! i else 0)"
  by (cases v) (auto simp: get_segments_def segment_at_def segment_count_def)

lemma small_sint: "n < 128 \<Longrightarrow> sint (of_nat n :: byte) = int n"
  by (simp add: signed_of_nat signed_take_bit_int_eq_self_iff)

lemma set_inline_data:
  assumes "data_fits_inline data"
  shows "version_wf (set_inline_data data)" "get_segments (set_inline_data data) = data"
    "\<not> is_using_pointer (set_inline_data data)"
proof -
  have l: "length data \<le> 7" and p: "\<And>x. x \<in> set data \<Longrightarrow> x = signed_take_bit 7 x"
    using assms by (auto simp: data_fits_inline_def inline_segment_count_def list_all_iff pint8_def)
  define n where "n = 1 + length data * 2"
  define w where "w = inline_bytes (of_nat n) 1 data"
  have n: "n < 256" "n < 128" using l by (simp_all add: n_def)
  have b: "byte_of w j = (if 1 \<le> j \<and> j < 1 + length data then ucast (word_of_int (data ! (j - 1)) :: 64 word)
      else if j = 0 then of_nat n else 0)" for j
    using l byte_of_inline_bytes [of 1 data "of_nat n" j] byte_of_small [OF n(1), of j] by (auto simp: w_def)
  have b0: "word_byte w 0 = int n" using b [of 0] small_sint [OF n(2)] by (simp add: word_byte_eq)
  have bs: "word_byte w (Suc i) = data ! i" if "i < length data" for i
    using b [of "Suc i"] that p [of "data ! i"] by (simp add: word_byte_eq sint_byte)
  have d: "set_inline_data data = Inline w" by (simp add: set_inline_data_def w_def n_def)
  show "version_wf (set_inline_data data)" "\<not> is_using_pointer (set_inline_data data)"
    using l unfolding d by (simp_all add: b0) (simp_all add: n_def)
  have "int n div 2 = int (length data)" by (simp add: n_def)
  then show "get_segments (set_inline_data data) = data"
    unfolding d by (auto simp: get_segments_def segment_count_def segment_at_def b0 bs intro!: nth_equalityI)
qed

lemma storage_of_segments: "version_wf (storage_of seg)" "get_segments (storage_of seg) = seg"
  by (simp_all add: storage_of_def set_inline_data) (simp_all add: get_segments_def)

lemma storage_resize_segments:
  assumes "version_wf v" "n \<le> length (get_segments v)"
  shows "version_wf (storage_resize v n)" "get_segments (storage_resize v n) = take n (get_segments v)"
    "is_using_pointer (storage_resize v n) = is_using_pointer v"
proof -
  have "version_wf (storage_resize v n) \<and> get_segments (storage_resize v n) = take n (get_segments v) \<and>
    is_using_pointer (storage_resize v n) = is_using_pointer v"
  proof (cases v)
    case (Pointer s)
    then show ?thesis using assms by (simp add: get_segments_def)
  next
    case (Inline w)
    have n: "n \<le> 7" using assms Inline by (auto simp: get_segments_def segment_count_def)
    have b0: "word_byte (set_word_byte w 0 (of_nat (1 + 2 * n))) 0 = int (1 + 2 * n)"
      using n small_sint [of "1 + 2 * n"] by (simp only: word_byte_eq byte_of_set) simp
    have bs: "word_byte (set_word_byte w 0 b) (Suc i) = word_byte w (Suc i)" for i b
      by (simp add: word_byte_eq byte_of_set)
    have "int (1 + 2 * n) div 2 = int n" by simp
    then show ?thesis
      using assms n b0 unfolding Inline
      by (auto simp: get_segments_def segment_count_def segment_at_def bs take_map take_upt intro!: nth_equalityI)
  qed
  then show "version_wf (storage_resize v n)" "get_segments (storage_resize v n) = take n (get_segments v)"
    "is_using_pointer (storage_resize v n) = is_using_pointer v" by simp_all
qed


section \<open>Operations on the segments\<close>

lemma nat_segment_count: "version_wf v \<Longrightarrow> nat (segment_count v) = length (get_segments v)"
  using length_get_segments [of v] by simp

lemma storage_at_nth:
  assumes "version_wf v" "i < length (get_segments v)"
  shows "storage_at v i = get_segments v ! i"
  using assms segment_at_nth [of v i] length_get_segments [OF assms(1)]
  by (simp add: segment_at_def segment_count_def)

lemma last_nonzero_eq:
  assumes "version_wf v" "n \<le> length (get_segments v)"
  shows "take (last_nonzero v n) (get_segments v) = rev (dropWhile (\<lambda>x. x = 0) (rev (take n (get_segments v))))"
    "last_nonzero v n \<le> n"
  using assms(2)
  by (induction n) (auto simp: storage_at_nth [OF assms(1)] take_Suc_conv_app_nth Suc_le_eq)

lemma normalized_segments:
  assumes "version_wf v"
  shows "version_wf (normalized v)" "get_segments (normalized v) = rev (dropWhile (\<lambda>x. x = 0) (rev (get_segments v)))"
proof -
  define n where "n = last_nonzero v (nat (storage_size v))"
  have s: "nat (storage_size v) = length (get_segments v)"
    using nat_segment_count [OF assms] by (simp add: segment_count_def)
  have n: "n \<le> length (get_segments v)" unfolding n_def s by (rule last_nonzero_eq(2) [OF assms order.refl])
  have e: "normalized v = storage_resize v n" by (simp add: normalized_def n_def)
  show "version_wf (normalized v)" unfolding e by (rule storage_resize_segments(1) [OF assms n])
  show "get_segments (normalized v) = rev (dropWhile (\<lambda>x. x = 0) (rev (get_segments v)))"
    unfolding e storage_resize_segments(2) [OF assms n] using last_nonzero_eq(1) [OF assms order.refl] by (simp add: n_def s)
qed

lemma is_prefix_of_eq:
  assumes "version_wf v" "version_wf u"
  shows "is_prefix_of v u = prefix (get_segments v) (get_segments u)"
proof -
  have l: "is_prefix_of v u \<longleftrightarrow> length (get_segments v) \<le> length (get_segments u) \<and>
      (\<forall>i < length (get_segments v). get_segments v ! i = get_segments u ! i)"
    using length_get_segments [OF assms(1)] length_get_segments [OF assms(2)]
    by (auto simp: is_prefix_of_def nat_segment_count [OF assms(1)] list_all_iff segment_at_nth)
  show ?thesis
    unfolding l prefix_def
    by (metis append_take_drop_id le_add1 length_append nth_append nth_take_lemma order.refl take_all_iff)
qed

lemma common_length_lcp:
  assumes "n \<le> length xs" "n \<le> length ys" "k \<le> n" "n = length xs \<or> n = length ys"
    and "\<And>i. i < n \<Longrightarrow> segment_at v i = xs ! i \<and> segment_at u i = ys ! i"
  shows "take (common_length v u n [k..<n] - k) (drop k xs) = longest_common_prefix (drop k xs) (drop k ys) \<and>
    k \<le> common_length v u n [k..<n] \<and> common_length v u n [k..<n] \<le> n"
  using assms(3)
proof (induction "n - k" arbitrary: k)
  case 0
  then have "drop k xs = [] \<or> drop k ys = []" using assms(4) by auto
  then show ?case using 0 by (cases "drop k xs") auto
next
  case (Suc d)
  then have k: "k < n" by simp
  then have u: "[k..<n] = k # [Suc k..<n]" by (simp add: upt_conv_Cons)
  have xs: "drop k xs = xs ! k # drop (Suc k) xs" and ys: "drop k ys = ys ! k # drop (Suc k) ys"
    using k assms(1,2) by (simp_all add: Cons_nth_drop_Suc)
  show ?case
  proof (cases "xs ! k = ys ! k")
    case True
    have IH: "take (common_length v u n [Suc k..<n] - Suc k) (drop (Suc k) xs)
        = longest_common_prefix (drop (Suc k) xs) (drop (Suc k) ys) \<and>
      Suc k \<le> common_length v u n [Suc k..<n] \<and> common_length v u n [Suc k..<n] \<le> n"
      using Suc k by simp
    then have "Suc k \<le> common_length v u n [Suc k..<n]" by blast
    then have "common_length v u n [Suc k..<n] - k = Suc (common_length v u n [Suc k..<n] - Suc k)" by simp
    then show ?thesis using True assms(5) [OF k] IH unfolding u xs ys by simp
  next
    case False
    then show ?thesis using assms(5) [OF k] k unfolding u xs ys by simp
  qed
qed

lemma common_prefix_segments:
  assumes "version_wf v" "version_wf u"
  shows "version_wf (common_prefix v u)"
    "get_segments (common_prefix v u) = longest_common_prefix (get_segments v) (get_segments u)"
proof -
  define xs ys n where "xs = get_segments v" and "ys = get_segments u" and "n = min (length xs) (length ys)"
  have n: "nat (min (segment_count v) (segment_count u)) = n"
    using length_get_segments [OF assms(1)] length_get_segments [OF assms(2)] by (simp add: n_def xs_def ys_def)
  define i where "i = common_length v u n [0..<n]"
  have i: "take i xs = longest_common_prefix xs ys" "i \<le> n"
  proof -
    have "segment_at v j = xs ! j \<and> segment_at u j = ys ! j" if "j < n" for j
      using that by (simp add: n_def segment_at_nth xs_def ys_def)
    moreover have "n \<le> length xs" "n \<le> length ys" "n = length xs \<or> n = length ys" by (auto simp: n_def)
    ultimately show "take i xs = longest_common_prefix xs ys" "i \<le> n"
      using common_length_lcp [of n xs ys 0 v u] by (simp_all add: i_def)
  qed
  then have len: "i \<le> length xs" "i \<le> length ys" by (simp_all add: n_def)
  have "prefix (longest_common_prefix xs ys) ys" by (rule longest_common_prefix_prefix2)
  then have tk: "take i ys = longest_common_prefix xs ys"
    using i(1) len by (metis append_eq_conv_conj length_take min.absorb2 prefix_def)
  have e: "common_prefix v u = (if i = 0 then Inline 1 else storage_resize (if \<not> is_using_pointer v then v else u) i)"
    by (simp add: common_prefix_def n Let_def i_def)
  have null: "version_wf (Inline 1)" "get_segments (Inline 1) = []" by code_simp+
  show "version_wf (common_prefix v u)"
    unfolding e using null len assms by (auto simp: storage_resize_segments xs_def ys_def)
  show "get_segments (common_prefix v u) = longest_common_prefix (get_segments v) (get_segments u)"
    unfolding e using null len assms i tk by (auto simp: storage_resize_segments xs_def ys_def)
qed


section \<open>The order of versions\<close>

text \<open>
  Segment by segment; where one version ends, the end stands below every segment that is not negative and
  above every negative one.
\<close>

datatype version = Version (segments: "int list")

fun segments_less :: "int list \<Rightarrow> int list \<Rightarrow> bool" where
  "segments_less [] [] = False"
| "segments_less [] (y # ys) = (0 \<le> y)"
| "segments_less (x # xs) [] = (x < 0)"
| "segments_less (x # xs) (y # ys) = (x < y \<or> x = y \<and> segments_less xs ys)"

lemma segments_less_irrefl [simp]: "\<not> segments_less xs xs"
  by (induction xs) simp_all

lemma segments_less_trans: "segments_less xs ys \<Longrightarrow> segments_less ys zs \<Longrightarrow> segments_less xs zs"
proof (induction xs ys arbitrary: zs rule: segments_less.induct)
  case (2 y ys)
  then show ?case by (cases zs) auto
next
  case (3 x xs)
  then show ?case by (cases zs) auto
next
  case (4 x xs y ys)
  then show ?case by (cases zs) auto
qed simp

lemma segments_less_total: "segments_less xs ys \<or> xs = ys \<or> segments_less ys xs"
  by (induction xs ys rule: segments_less.induct) auto

instantiation version :: linorder
begin

definition less_version_def: "v < u \<longleftrightarrow> segments_less (segments v) (segments u)"

definition less_eq_version_def: "(v :: version) \<le> u \<longleftrightarrow> v = u \<or> v < u"

instance
proof
  fix u v w :: version
  show "u < v \<longleftrightarrow> u \<le> v \<and> \<not> v \<le> u"
    unfolding less_eq_version_def less_version_def
    by (metis segments_less_irrefl segments_less_trans)
  show "u \<le> u" by (simp add: less_eq_version_def)
  show "u \<le> v \<Longrightarrow> v \<le> w \<Longrightarrow> u \<le> w"
    unfolding less_eq_version_def less_version_def by (metis segments_less_trans)
  show "u \<le> v \<Longrightarrow> v \<le> u \<Longrightarrow> u = v"
    unfolding less_eq_version_def less_version_def by (metis segments_less_irrefl segments_less_trans)
  show "u \<le> v \<or> v \<le> u"
    unfolding less_eq_version_def less_version_def by (metis segments_less_total version.exhaust_sel)
qed

end

definition version_of :: "segment_storage \<Rightarrow> version" where
  "version_of v = Version (get_segments v)"

text \<open>The comparison on lists of segments.\<close>

fun compare_lists :: "int list \<Rightarrow> int list \<Rightarrow> int option" where
  "compare_lists [] [] = Some 0"
| "compare_lists [] (y # ys) = (if y \<noteq> 0 then checked_int (- y) else Some (- 1))"
| "compare_lists (x # xs) [] = (if x \<noteq> 0 then Some x else Some 1)"
| "compare_lists (x # xs) (y # ys) = (if x \<noteq> y then checked_int (x - y) else compare_lists xs ys)"

lemma compare_common_lists:
  assumes n: "n = min (length xs) (length ys)"
    and at: "\<And>i. segment_at v i = (if i < length xs then xs ! i else 0)" "\<And>i. segment_at u i = (if i < length ys then ys ! i else 0)"
    and k: "k \<le> n"
  shows "(case compare_common v u [k..<n] of
        None \<Rightarrow> None
      | Some x \<Rightarrow>
          if x \<noteq> 0 then Some x
          else if length xs > n then if segment_at v n \<noteq> 0 then Some (segment_at v n) else Some 1
          else if length ys > n then if segment_at u n \<noteq> 0 then checked_int (- segment_at u n) else Some (- 1)
          else Some 0) = compare_lists (drop k xs) (drop k ys)"
  using k
proof (induction "n - k" arbitrary: k)
  case 0
  then have "k = n" by simp
  then show ?case
    using n by (cases "length xs > n"; cases "length ys > n") (auto simp: at Cons_nth_drop_Suc [symmetric])
next
  case (Suc d)
  then have k: "k < n" by simp
  then have u: "[k..<n] = k # [Suc k..<n]" by (simp add: upt_conv_Cons)
  have xs: "drop k xs = xs ! k # drop (Suc k) xs" and ys: "drop k ys = ys ! k # drop (Suc k) ys"
    using k n by (simp_all add: Cons_nth_drop_Suc)
  have a: "segment_at v k = xs ! k" "segment_at u k = ys ! k" using k n by (simp_all add: at)
  show ?case
  proof (cases "xs ! k = ys ! k")
    case True
    have "d = n - Suc k" "Suc k \<le> n" using Suc.hyps(2) k by simp_all
    from Suc.hyps(1) [OF this] show ?thesis unfolding u xs ys using True a by simp
  next
    case False
    then show ?thesis unfolding u xs ys using a by (simp add: checked_int_def)
  qed
qed

lemma version_compare_lists:
  assumes "version_wf v" "version_wf u"
  shows "version_compare v u = compare_lists (get_segments v) (get_segments u)"
proof -
  define n where "n = min (length (get_segments v)) (length (get_segments u))"
  have n: "nat (min (segment_count v) (segment_count u)) = n"
    using length_get_segments [OF assms(1)] length_get_segments [OF assms(2)] by (simp add: n_def)
  have c: "segment_count v > int n \<longleftrightarrow> length (get_segments v) > n" "segment_count u > int n \<longleftrightarrow> length (get_segments u) > n"
    using length_get_segments [OF assms(1)] length_get_segments [OF assms(2)] by linarith+
  show ?thesis
    unfolding version_compare_def Let_def n c
    using compare_common_lists [OF n_def, of v u 0] segment_at_nth by simp
qed

lemma compare_lists_order:
  assumes "compare_lists xs ys = Some r"
  shows "(r < 0 \<longleftrightarrow> segments_less xs ys) \<and> (r = 0 \<longleftrightarrow> xs = ys) \<and> (r > 0 \<longleftrightarrow> segments_less ys xs)"
  using assms
  by (induction xs ys rule: compare_lists.induct) (auto simp: checked_int_def split: if_splits)

lemma compare_lists_defined:
  assumes "\<forall>x \<in> set xs \<union> set ys. 0 \<le> x \<and> x < 2 ^ 31"
  shows "\<exists>r. compare_lists xs ys = Some r"
  using assms by (induction xs ys rule: compare_lists.induct) (auto simp: checked_int_def)

section \<open>The text of a version\<close>

definition number_digits_of :: "int \<Rightarrow> nat list" where
  "number_digits_of x = (if x = 0 then [0] else digits_of 10 (nat x))"

fun version_digits :: "int list \<Rightarrow> u16 list" where
  "version_digits [] = []"
| "version_digits (x # xs) =
     map digit16 (number_digits_of x) @ (if xs = [] then [] else 46 # version_digits xs)"

lemma string_number_nonneg:
  "0 \<le> x \<Longrightarrow> x < 2 ^ 31 \<Longrightarrow> string_number x 10 = Some (map digit16 (number_digits_of x))"
  using c_format [of x 0 id "- 1"] by (simp add: string_number_def number_digits_of_def)

lemma version_text_eq:
  assumes "\<And>i. i \<in> set is \<Longrightarrow> 0 \<le> segment_at v i \<and> segment_at v i < 2 ^ 31"
  shows "version_text v first is acc =
    Some (acc @ (if first \<or> is = [] then [] else [46]) @ version_digits (map (segment_at v) is))"
  using assms
proof (induction v first "is" acc rule: version_text.induct)
  case (2 v first i "is" version)
  then have i: "string_number (segment_at v i) 10 = Some (map digit16 (number_digits_of (segment_at v i)))"
    by (intro string_number_nonneg) simp_all
  show ?case using 2(1) [OF i] 2(2) i by simp
qed simp

lemma number_digits_of:
  assumes "0 \<le> x"
  shows "number_digits_of x \<noteq> []" "c \<in> set (number_digits_of x) \<Longrightarrow> c < 10"
    "int (digits_value 10 (map ulltoa2_digit (number_digits_of x))) = x"
proof -
  have e: "number_digits_of x = (if nat x = 0 then [0] else digits_of 10 (nat x))"
    using assms by (simp add: number_digits_of_def)
  show "number_digits_of x \<noteq> []" "c \<in> set (number_digits_of x) \<Longrightarrow> c < 10"
    "int (digits_value 10 (map ulltoa2_digit (number_digits_of x))) = x"
    unfolding e using assms printed_digits [where base = 10 and n = "nat x"] by simp_all
qed

lemma to_latin1_append: "to_latin1 (s @ t) = to_latin1 s @ to_latin1 t"
  by (simp add: to_latin1_def)

lemma parse_version_digits:
  assumes "xs \<noteq> []" "\<forall>x \<in> set xs. 0 \<le> x \<and> x < 2 ^ 31"
  shows "parse_segments (to_latin1 (version_digits xs)) seg l = (seg @ xs, [])"
  using assms
proof (induction xs arbitrary: seg l)
  case (Cons x xs)
  define rest where "rest = to_latin1 (if xs = [] then [] else 46 # version_digits xs)"
  have x: "0 \<le> x" "x < 2 ^ 31" using Cons.prems by simp_all
  note d = number_digits_of [OF x(1)]
  have l1: "to_latin1 (map digit16 (number_digits_of x)) = map ulltoa2_digit (number_digits_of x)"
    using d(2) by (intro to_latin1_digits) fastforce
  have b: "to_latin1 (version_digits (x # xs)) = map ulltoa2_digit (number_digits_of x) @ rest"
    by (simp only: version_digits.simps to_latin1_append l1 rest_def)
  have r: "rest = [] \<or> 10 \<le> strto_digit (hd rest)" by (simp add: rest_def to_latin1_def strto_digit_def)
  have "digits_value 10 (map ulltoa2_digit (number_digits_of x)) < 2 ^ 64"
  proof -
    have "int (digits_value 10 (map ulltoa2_digit (number_digits_of x))) < int (2 ^ 64)" using d(3) x(2) by simp
    then show ?thesis by (simp only: of_nat_less_iff)
  qed
  then have p: "pdk_strtoull (to_latin1 (version_digits (x # xs))) 10 = Some (x, rest)"
    unfolding b using pdk_strtoull_digits [of 10 "number_digits_of x" rest] d(1,2) r d(3) by simp
  show ?case
  proof (cases "xs = []")
    case True
    then show ?thesis using p x(2) by (subst parse_segments.simps) (simp add: rest_def to_latin1_def)
  next
    case False
    then have rest: "rest = 46 # to_latin1 (version_digits xs)" by (simp add: rest_def to_latin1_def)
    obtain y ys where xs: "xs = y # ys" using False by (cases xs) auto
    have "0 \<le> y" using Cons.prems(2) xs by simp
    then have "to_latin1 (version_digits xs) \<noteq> []"
      using number_digits_of(1) [of y] by (simp add: xs to_latin1_def)
    then have "length rest > 1" by (cases "to_latin1 (version_digits xs)") (auto simp: rest)
    then show ?thesis
      using p x(2) Cons.IH [OF False] Cons.prems(2) rest by (subst parse_segments.simps) simp
  qed
qed simp

section \<open>Properties\<close>

text \<open>C35: The inline word and the vector represent the same thing: the segments that are stored are read back, a short
  list of small segments is inline, and normalising, testing for a prefix and taking the common prefix are the
  operations of lists, whatever the representation of the arguments.\<close>

theorem version_representation:
  assumes "version_wf v" "version_wf u"
  shows "get_segments (storage_of seg) = seg \<and> version_wf (storage_of seg) \<and>
    (is_using_pointer (storage_of seg) \<longleftrightarrow> \<not> (length seg \<le> 7 \<and> (\<forall>x \<in> set seg. - 128 \<le> x \<and> x < 128))) \<and>
    get_segments (normalized v) = rev (dropWhile (\<lambda>x. x = 0) (rev (get_segments v))) \<and>
    is_prefix_of v u = prefix (get_segments v) (get_segments u) \<and>
    get_segments (common_prefix v u) = longest_common_prefix (get_segments v) (get_segments u)"
proof -
  have "is_using_pointer (storage_of seg) \<longleftrightarrow> \<not> data_fits_inline seg"
    by (simp add: storage_of_def set_inline_data)
  also have "\<dots> \<longleftrightarrow> \<not> (length seg \<le> 7 \<and> (\<forall>x \<in> set seg. - 128 \<le> x \<and> x < 128))"
  proof -
    have "x = signed_take_bit 7 x \<longleftrightarrow> - 128 \<le> x \<and> x < 128" for x :: int
      using signed_take_bit_int_eq_self_iff [of 7 x] by auto
    then show ?thesis by (simp add: data_fits_inline_def inline_segment_count_def list_all_iff pint8_def)
  qed
  finally show ?thesis
    using storage_of_segments normalized_segments [OF assms(1)] is_prefix_of_eq [OF assms] common_prefix_segments [OF assms]
    by simp
qed

theorem version_representation_witness:
  "get_segments (common_prefix (storage_of [5, 9, 0]) (storage_of [5, 9, 300])) = [5, 9]"
proof -
  have "version_wf (storage_of [5, 9, 0])" "version_wf (storage_of [5, 9, 300])" by code_simp+
  moreover have "get_segments (storage_of [5, 9, 0]) = [5, 9, 0]" "get_segments (storage_of [5, 9, 300]) = [5, 9, 300]"
    by code_simp+
  ultimately show ?thesis using version_representation [of "storage_of [5, 9, 0]" "storage_of [5, 9, 300]"] by simp
qed

text \<open>C37: \<open>compare\<close> implements the linear order of versions: whenever its result is defined, the sign is that of the
  order and 0 means equality; it is defined for all versions without negative segments, but the difference of two
  segments of opposite signs can overflow.\<close>

theorem version_compare_order:
  assumes "version_wf v" "version_wf u"
  shows "(\<forall>r. version_compare v u = Some r \<longrightarrow>
      (r < 0 \<longleftrightarrow> version_of v < version_of u) \<and> (r = 0 \<longleftrightarrow> version_of v = version_of u) \<and>
      (r > 0 \<longleftrightarrow> version_of v > version_of u)) \<and>
    ((\<forall>x \<in> set (get_segments v) \<union> set (get_segments u). 0 \<le> x \<and> x < 2 ^ 31) \<longrightarrow> version_compare v u \<noteq> None) \<and>
    version_compare (storage_of [2147483647]) (storage_of [- 1]) = None"
proof (intro conjI allI impI)
  show "version_compare (storage_of [2147483647]) (storage_of [- 1]) = None" by code_simp
  assume "\<forall>x \<in> set (get_segments v) \<union> set (get_segments u). 0 \<le> x \<and> x < 2 ^ 31"
  from compare_lists_defined [OF this] show "version_compare v u \<noteq> None"
    by (auto simp: version_compare_lists [OF assms])
next
  fix r assume "version_compare v u = Some r"
  then have "compare_lists (get_segments v) (get_segments u) = Some r" by (simp add: version_compare_lists [OF assms])
  from compare_lists_order [OF this]
  show "(r < 0 \<longleftrightarrow> version_of v < version_of u)" "(r = 0 \<longleftrightarrow> version_of v = version_of u)"
    "(r > 0 \<longleftrightarrow> version_of v > version_of u)"
    by (simp_all add: version_of_def less_version_def)
qed

theorem version_compare_order_witness: "version_of (storage_of [1, 2]) < version_of (storage_of [1, 2, 0])"
proof -
  have "version_wf (storage_of [1, 2])" "version_wf (storage_of [1, 2, 0])"
    "version_compare (storage_of [1, 2]) (storage_of [1, 2, 0]) = Some (- 1)" by code_simp+
  then show ?thesis using version_compare_order [of "storage_of [1, 2]" "storage_of [1, 2, 0]"] by auto
qed


text \<open>A version without negative segments is written and parsed back to the same segments, with the suffix starting
  at the end of the text.\<close>

lemma version_text_round_trip:
  assumes "version_wf v" "get_segments v \<noteq> []" "\<forall>x \<in> set (get_segments v). 0 \<le> x \<and> x < 2 ^ 31"
  shows "\<exists>s. version_to_string v = Some s \<and> version_from_string (to_latin1 s) = (storage_of (get_segments v), length s)"
proof -
  have "map (segment_at v) [0..<length (get_segments v)] = get_segments v"
    by (auto simp: segment_at_nth intro!: nth_equalityI)
  moreover have "0 \<le> segment_at v i \<and> segment_at v i < 2 ^ 31" if "i \<in> set [0..<length (get_segments v)]" for i
    using that assms(3) by (simp add: segment_at_nth)
  ultimately have "version_to_string v = Some (version_digits (get_segments v))"
    using version_text_eq [of "[0..<length (get_segments v)]" v True "[]"]
    by (simp add: version_to_string_def nat_segment_count [OF assms(1)])
  moreover have "version_from_string (to_latin1 (version_digits (get_segments v)))
      = (storage_of (get_segments v), length (version_digits (get_segments v)))"
    using parse_version_digits [OF assms(2,3)] by (simp add: version_from_string_def to_latin1_def)
  ultimately show ?thesis by blast
qed

end
