(* ===== verification/Utf_Codecs.thy ===== *)
theory Utf_Codecs
  imports Pdk_Prelude
begin

text \<open>
  The UTF codecs: \<open>modules/base/text/codecs/UtfCodec.cpp\<close>, \<open>UtfCodecPrivate.h\<close>, the surrogates of
  \<open>base/lang/Character.h\<close> and \<open>StringIterator::next\<close>.

  The build without the vectorised ASCII loops is modelled, where \<open>simd_encode_ascii\<close> and
  \<open>simd_decode_ascii\<close> return \<open>false\<close>.  A pointer into a buffer is the list of the cells from there to the
  end.  A null pointer to a converter state is \<open>None\<close>.
\<close>

unbundle bit_operations_syntax

section \<open>Surrogates\<close>

definition is_high_surrogate :: "u32 \<Rightarrow> bool" where
  "is_high_surrogate ucs4 \<longleftrightarrow> ucs4 AND 0xfffffc00 = 0xd800"

definition is_low_surrogate :: "u32 \<Rightarrow> bool" where
  "is_low_surrogate ucs4 \<longleftrightarrow> ucs4 AND 0xfffffc00 = 0xdc00"

definition is_surrogate :: "u32 \<Rightarrow> bool" where
  "is_surrogate ucs4 \<longleftrightarrow> ucs4 - 0xd800 < 0x2048"

definition requires_surrogates :: "u32 \<Rightarrow> bool" where
  "requires_surrogates ucs4 \<longleftrightarrow> ucs4 \<ge> 0x10000"

definition surrogate_to_ucs4 :: "u16 \<Rightarrow> u16 \<Rightarrow> u32" where
  "surrogate_to_ucs4 high low = push_bit 10 (ucast high) + ucast low - 0x35fdc00"

definition get_high_surrogate :: "u32 \<Rightarrow> u16" where
  "get_high_surrogate ucs4 = ucast (drop_bit 10 ucs4) + 0xd7c0"

definition get_low_surrogate :: "u32 \<Rightarrow> u16" where
  "get_low_surrogate ucs4 = ucast (ucs4 mod 0x400 + 0xdc00)"

text \<open>\<open>StringIterator::next\<close>: the code point and the rest of the text.\<close>

fun iterator_next :: "u16 \<Rightarrow> u16 list \<Rightarrow> u32 \<times> u16 list" where
  "iterator_next uc [] = (if is_surrogate (ucast uc) then 0xfffd else ucast uc, [])"
| "iterator_next uc (low # rest) =
     (if is_surrogate (ucast uc)
      then if is_high_surrogate (ucast uc) \<and> is_low_surrogate (ucast low)
           then (surrogate_to_ucs4 uc low, rest) else (0xfffd, low # rest)
      else (ucast uc, low # rest))"

section \<open>One character of UTF-8\<close>

datatype utf_error = Utf_Error | End_Of_String

text \<open>\<open>toUtf8\<close>: the bytes of the character that starts with the unit \<open>u\<close> and the text after it.\<close>

definition last_utf8_byte :: "u16 \<Rightarrow> byte" where
  "last_utf8_byte u = 0x80 OR ucast (u AND 0x3f)"

definition middle_utf8_byte :: "u16 \<Rightarrow> byte" where
  "middle_utf8_byte u = 0x80 OR (ucast (drop_bit 6 u) AND 0x3f)"

definition to_utf8 :: "u16 \<Rightarrow> u16 list \<Rightarrow> utf_error + byte list \<times> u16 list" where
  "to_utf8 u src =
     (if u < 0x80 then Inr ([ucast u], src)
      else if u < 0x800 then Inr ([0xc0 OR ucast (drop_bit 6 u), last_utf8_byte u], src)
      else if \<not> is_surrogate (ucast u)
      then Inr ([0xe0 OR ucast (drop_bit 12 u), middle_utf8_byte u, last_utf8_byte u], src)
      else case src of
             [] \<Rightarrow> Inl End_Of_String
           | low # src \<Rightarrow>
               if \<not> is_high_surrogate (ucast u) then Inl Utf_Error
               else if \<not> is_low_surrogate (ucast low) then Inl Utf_Error
               else let ucs4 = surrogate_to_ucs4 u low; u = ucast ucs4
                    in Inr ([0xf0 OR (ucast (drop_bit 18 ucs4) AND 0xf),
                             0x80 OR (ucast (drop_bit 12 ucs4) AND 0x3f),
                             middle_utf8_byte u, last_utf8_byte u], src))"

definition is_continuation_byte :: "byte \<Rightarrow> bool" where
  "is_continuation_byte b \<longleftrightarrow> b AND 0xc0 = 0x80"

text \<open>\<open>fromUtf8\<close>: how many bytes are needed, the least code point for that length and the first bits.\<close>

definition utf8_lead :: "byte \<Rightarrow> (nat \<times> u32 \<times> u32) option" where
  "utf8_lead b =
     (if b \<le> 0xC1 then None
      else if b < 0xe0 then Some (2, 0x80, ucast (b AND 0x1f))
      else if b < 0xf0 then Some (3, 0x800, ucast (b AND 0x0f))
      else if b < 0xf5 then Some (4, 0x10000, ucast (b AND 0x07))
      else None)"

fun utf8_continue :: "nat \<Rightarrow> u32 \<Rightarrow> byte list \<Rightarrow> u32 option" where
  "utf8_continue 0 uc src = Some uc"
| "utf8_continue (Suc k) uc [] = None"
| "utf8_continue (Suc k) uc (b # src) =
     (if \<not> is_continuation_byte b then None else utf8_continue k (push_bit 6 uc OR ucast (b AND 0x3f)) src)"

text \<open>The units written, and the number of bytes consumed with the first one.\<close>

definition from_utf8 :: "byte \<Rightarrow> byte list \<Rightarrow> utf_error + u16 list \<times> nat" where
  "from_utf8 b src =
     (if b < 0x80 then Inr ([ucast b], 1)
      else case utf8_lead b of
             None \<Rightarrow> Inl Utf_Error
           | Some (charsNeeded, min_uc, uc) \<Rightarrow>
               if length src < charsNeeded - 1
               then if length src > 0 \<and> \<not> is_continuation_byte (src ! 0) then Inl Utf_Error
                    else if length src > 1 \<and> \<not> is_continuation_byte (src ! 1) then Inl Utf_Error
                    else Inl End_Of_String
               else case utf8_continue (charsNeeded - 1) uc src of
                      None \<Rightarrow> Inl Utf_Error
                    | Some uc \<Rightarrow>
                        if uc < min_uc then Inl Utf_Error
                        else if is_surrogate uc \<or> uc > 0x10ffff then Inl Utf_Error
                        else if \<not> requires_surrogates uc then Inr ([ucast uc], charsNeeded)
                        else Inr ([get_high_surrogate uc, get_low_surrogate uc], charsNeeded))"

section \<open>UTF-8 without a state\<close>

lemma to_utf8_shorter: "to_utf8 u src = Inr (bs, rest) \<Longrightarrow> length rest \<le> length src"
  by (auto simp: to_utf8_def Let_def split: if_splits list.splits)

function utf8_from_unicode :: "u16 list \<Rightarrow> byte list" where
  "utf8_from_unicode [] = []"
| "utf8_from_unicode (uc # src) =
     (case to_utf8 uc src of
        Inr (bs, src) \<Rightarrow> bs @ utf8_from_unicode src
      | Inl e \<Rightarrow> 63 # utf8_from_unicode src)"
  by pat_completeness auto
termination by (relation "measure length") (auto dest: to_utf8_shorter)

function utf8_decode_loop :: "byte list \<Rightarrow> u16 list" where
  "utf8_decode_loop [] = []"
| "utf8_decode_loop (b # src) =
     (case from_utf8 b src of
        Inr (us, n) \<Rightarrow> us @ utf8_decode_loop (drop (n - 1) src)
      | Inl e \<Rightarrow> 0xfffd # utf8_decode_loop src)"
  by pat_completeness auto
termination by (relation "measure length") auto

definition utf8_bom :: "byte list" where
  "utf8_bom = [0xef, 0xbb, 0xbf]"

definition utf8_to_unicode :: "byte list \<Rightarrow> u16 list" where
  "utf8_to_unicode src =
     utf8_decode_loop (if length src \<ge> 3 \<and> take 3 src = utf8_bom then drop 3 src else src)"

section \<open>The state of a converter\<close>

text \<open>\<open>TextCodec::ConverterState\<close>; \<open>cs_data\<close> are the twelve bytes of \<open>m_stateData\<close>, on a little-endian host.\<close>

record converter_state =
  cs_ignore_header :: bool
  cs_invalid_to_null :: bool
  cs_remaining :: nat
  cs_invalid :: nat
  cs_data :: "byte list"

definition converter_state_new :: converter_state where
  "converter_state_new = \<lparr>cs_ignore_header = False, cs_invalid_to_null = False, cs_remaining = 0, cs_invalid = 0,
     cs_data = replicate 12 0\<rparr>"

definition le_bytes :: "u32 \<Rightarrow> byte list" where
  "le_bytes w = [ucast w, ucast (drop_bit 8 w), ucast (drop_bit 16 w), ucast (drop_bit 24 w)]"

definition le_word :: "byte list \<Rightarrow> u32" where
  "le_word bs = ucast (bs ! 0) OR push_bit 8 (ucast (bs ! 1)) OR push_bit 16 (ucast (bs ! 2)) OR push_bit 24 (ucast (bs ! 3))"

definition state_word :: "converter_state \<Rightarrow> nat \<Rightarrow> u32" where
  "state_word st i = le_word (mem_read (cs_data st) (4 * i) 4)"

definition put_state_word :: "nat \<Rightarrow> u32 \<Rightarrow> converter_state \<Rightarrow> converter_state" where
  "put_state_word i w st = st\<lparr>cs_data := mem_write (cs_data st) (4 * i) (le_bytes w)\<rparr>"

section \<open>UTF-8 with a state\<close>

text \<open>The loop of \<open>convertFromUnicode\<close>: the bytes, the number of invalid characters and the pending surrogate.\<close>

function utf8_encode_loop :: "byte \<Rightarrow> u16 option \<Rightarrow> u16 list \<Rightarrow> byte list \<times> nat \<times> u16 option" where
  "utf8_encode_loop replacement high [] = ([], 0, high)"
| "utf8_encode_loop replacement high (x # xs) =
     (let (uc, src) = (case high of Some u \<Rightarrow> (u, x # xs) | None \<Rightarrow> (x, xs))
      in case to_utf8 uc src of
           Inr (bs, src) \<Rightarrow> (let (out, invalid, high) = utf8_encode_loop replacement None src in (bs @ out, invalid, high))
         | Inl Utf_Error \<Rightarrow>
             (let (out, invalid, high) = utf8_encode_loop replacement None src in (replacement # out, Suc invalid, high))
         | Inl End_Of_String \<Rightarrow> ([], 0, Some uc))"
  by pat_completeness auto
termination
  by (relation "measure (\<lambda>(r, high, src). 2 * length src + (if high = None then 0 else 1))")
    (auto dest!: to_utf8_shorter split: option.splits)

definition utf8_from_unicode_state ::
  "u16 list \<Rightarrow> converter_state option \<Rightarrow> byte list \<times> converter_state option" where
  "utf8_from_unicode_state src state =
     (case state of
        None \<Rightarrow> (fst (utf8_encode_loop 63 None src), None)
      | Some st \<Rightarrow>
          let replacement = (if cs_invalid_to_null st then 0 else 63);
              high = (if cs_remaining st \<noteq> 0 then Some (ucast (state_word st 0)) else None);
              header = (if \<not> cs_ignore_header st then utf8_bom else []);
              (out, invalid, high) = utf8_encode_loop replacement high src;
              st = st\<lparr>cs_invalid := cs_invalid st + invalid, cs_ignore_header := True, cs_remaining := 0\<rparr>
          in (header @ out,
              Some (case high of None \<Rightarrow> st | Some u \<Rightarrow> put_state_word 0 (ucast u) (st\<lparr>cs_remaining := 1\<rparr>))))"

text \<open>
  The main loop of \<open>convertToUnicode\<close>; \<open>pos\<close> is the distance from \<open>start\<close>.  The results are the units, whether
  the header is done, the number of invalid characters, and the rest from the unfinished sequence on.
\<close>

function utf8_main_loop ::
  "u16 \<Rightarrow> bool \<Rightarrow> nat \<Rightarrow> byte list \<Rightarrow> u16 list \<times> bool \<times> nat \<times> byte list option" where
  "utf8_main_loop replacement headerdone pos [] = ([], headerdone, 0, None)"
| "utf8_main_loop replacement headerdone pos (ch # src) =
     (case from_utf8 ch src of
        Inr (us, n) \<Rightarrow>
          (let us = (if \<not> headerdone \<and> pos + n = 3 \<and> last us = 0xfeff then butlast us else us);
               (out, h, invalid, pending) = utf8_main_loop replacement True (pos + n) (drop (n - 1) src)
           in (us @ out, h, invalid, pending))
      | Inl Utf_Error \<Rightarrow>
          (let (out, h, invalid, pending) = utf8_main_loop replacement headerdone (pos + 1) src
           in (replacement # out, h, Suc invalid, pending))
      | Inl End_Of_String \<Rightarrow> ([], headerdone, 0, Some (ch # src)))"
  by pat_completeness auto
termination by (relation "measure (\<lambda>(r, h, p, src). length src)") auto

text \<open>
  The bytes kept from the last call come first: \<open>Inl\<close> is the early return with the new state, \<open>Inr\<close> the
  units, the state of the header, the number of invalid characters and the rest of the input.
\<close>

definition utf8_resume ::
  "u16 \<Rightarrow> byte list \<Rightarrow> converter_state \<Rightarrow> converter_state + u16 list \<times> bool \<times> nat \<times> byte list" where
  "utf8_resume replacement chars st =
     (if cs_remaining st = 0 then Inr ([], cs_ignore_header st, 0, chars)
      else
        let new = min (4 - cs_remaining st) (length chars);
            buf = mem_read (cs_data st) 0 (cs_remaining st) @ take new chars
        in case from_utf8 (hd buf) (tl buf) of
             Inr (us, n) \<Rightarrow>
               Inr (if \<not> cs_ignore_header st \<and> last us = 0xfeff then butlast us else us, True, 0,
                    drop (n - cs_remaining st) chars)
           | Inl e \<Rightarrow>
               if e = Utf_Error \<or> chars = [] then Inr ([replacement], cs_ignore_header st, 1, chars)
               else Inl (st\<lparr>cs_remaining := cs_remaining st + new, cs_data := mem_write (cs_data st) 0 buf\<rparr>))"

definition utf8_to_unicode_state ::
  "byte list \<Rightarrow> converter_state option \<Rightarrow> u16 list \<times> converter_state option" where
  "utf8_to_unicode_state chars state =
     (case state of
        None \<Rightarrow>
          (let (out, h, invalid, pending) = utf8_main_loop 0xfffd False 0 chars
           in (out @ (case pending of None \<Rightarrow> [] | Some rest \<Rightarrow> replicate (length rest) 0xfffd), None))
      | Some st \<Rightarrow>
          (let replacement = (if cs_invalid_to_null st then 0 else 0xfffd)
           in case utf8_resume replacement chars st of
                Inl st \<Rightarrow> ([], Some st)
              | Inr (out1, headerdone, invalid1, src) \<Rightarrow>
                  (let (out2, h, invalid2, pending) = utf8_main_loop replacement headerdone 0 src;
                       st = st\<lparr>cs_invalid := cs_invalid st + invalid1 + invalid2,
                               cs_ignore_header := cs_ignore_header st \<or> h\<rparr>
                   in (out1 @ out2,
                       Some (case pending of
                               None \<Rightarrow> st\<lparr>cs_remaining := 0\<rparr>
                             | Some rest \<Rightarrow> st\<lparr>cs_remaining := length rest,
                                              cs_data := mem_write (cs_data st) 0 rest\<rparr>)))))"

section \<open>UTF-16 and UTF-32\<close>

datatype endianness = Detect_Endianness | Big_Endianness | Little_Endianness

fun endian_code :: "endianness \<Rightarrow> u32" where
  "endian_code Detect_Endianness = 0"
| "endian_code Big_Endianness = 1"
| "endian_code Little_Endianness = 2"

definition endian_of :: "u32 \<Rightarrow> endianness" where
  "endian_of c = (if c = 0 then Detect_Endianness else if c = 1 then Big_Endianness else Little_Endianness)"

text \<open>The order of the host, \<open>SysInfo::ByteOrder\<close>, is the parameter \<open>host\<close>.\<close>

definition resolve_endian :: "endianness \<Rightarrow> endianness \<Rightarrow> endianness" where
  "resolve_endian host e = (if e = Detect_Endianness then host else e)"

definition unit_bytes :: "endianness \<Rightarrow> u16 \<Rightarrow> byte list" where
  "unit_bytes endian u =
     (if endian = Big_Endianness then [ucast (drop_bit 8 u), ucast (u AND 0xff)]
      else [ucast (u AND 0xff), ucast (drop_bit 8 u)])"

definition writes_header :: "converter_state option \<Rightarrow> bool" where
  "writes_header state \<longleftrightarrow> (case state of None \<Rightarrow> True | Some st \<Rightarrow> \<not> cs_ignore_header st)"

definition header_written :: "converter_state option \<Rightarrow> converter_state option" where
  "header_written state = map_option (\<lambda>st. st\<lparr>cs_remaining := 0, cs_ignore_header := True\<rparr>) state"

definition utf16_from_unicode ::
  "endianness \<Rightarrow> u16 list \<Rightarrow> converter_state option \<Rightarrow> endianness \<Rightarrow> byte list \<times> converter_state option" where
  "utf16_from_unicode host uc state e =
     (let endian = resolve_endian host e
      in ((if writes_header state then unit_bytes endian 0xfeff else []) @ concat (map (unit_bytes endian) uc),
          header_written state))"

definition unit_of :: "byte \<Rightarrow> byte \<Rightarrow> u16" where
  "unit_of row cell = push_bit 8 (ucast row) OR ucast cell"

text \<open>
  The loop of \<open>Utf16::convertToUnicode\<close>: the half unit, the state of the header and the byte order; first what it
  does with one unit.
\<close>

definition utf16_unit :: "endianness \<Rightarrow> bool \<Rightarrow> endianness \<Rightarrow> u16 \<Rightarrow> u16 list \<times> endianness" where
  "utf16_unit host headerdone endian ch =
     (if headerdone then ([ch], endian)
      else if endian = Detect_Endianness
      then if ch = 0xfffe then ([], Little_Endianness)
           else if ch = 0xfeff then ([], Big_Endianness)
           else if host = Big_Endianness then ([ch], Big_Endianness)
           else ([drop_bit 8 ch OR push_bit 8 (ch AND 0xff)], Little_Endianness)
      else if ch \<noteq> 0xfeff then ([ch], endian) else ([], endian))"

fun utf16_decode_loop ::
  "endianness \<Rightarrow> byte option \<Rightarrow> bool \<Rightarrow> endianness \<Rightarrow> byte list \<Rightarrow>
   u16 list \<times> byte option \<times> bool \<times> endianness" where
  "utf16_decode_loop host half headerdone endian [] = ([], half, headerdone, endian)"
| "utf16_decode_loop host None headerdone endian (c # chars) =
     utf16_decode_loop host (Some c) headerdone endian chars"
| "utf16_decode_loop host (Some buf) headerdone endian (c # chars) =
     (let (ws, endian) =
            utf16_unit host headerdone endian (if endian = Little_Endianness then unit_of c buf else unit_of buf c);
          (out, half, h, endian) = utf16_decode_loop host None True endian chars
      in (ws @ out, half, h, endian))"

definition utf16_to_unicode ::
  "endianness \<Rightarrow> byte list \<Rightarrow> converter_state option \<Rightarrow> endianness \<Rightarrow> u16 list \<times> converter_state option" where
  "utf16_to_unicode host chars state e =
     (let headerdone = (case state of None \<Rightarrow> False | Some st \<Rightarrow> cs_ignore_header st);
          endian = (case state of Some st \<Rightarrow> if e = Detect_Endianness then endian_of (state_word st 0) else e | None \<Rightarrow> e);
          half = (case state of Some st \<Rightarrow> if cs_remaining st \<noteq> 0 then Some (ucast (state_word st 1)) else None
                              | None \<Rightarrow> None);
          endian = (if headerdone then resolve_endian host endian else endian);
          (out, half, h, endian) = utf16_decode_loop host half headerdone endian chars
      in (out, map_option (\<lambda>st.
            put_state_word 1 (case half of None \<Rightarrow> 0 | Some buf \<Rightarrow> ucast buf)
              (put_state_word 0 (endian_code endian)
                 (st\<lparr>cs_ignore_header := cs_ignore_header st \<or> h, cs_remaining := (if half = None then 0 else 1)\<rparr>))) state))"

definition ucs4_bytes :: "endianness \<Rightarrow> u32 \<Rightarrow> byte list" where
  "ucs4_bytes endian cp =
     (if endian = Big_Endianness
      then [ucast (drop_bit 24 cp), ucast (drop_bit 16 cp AND 0xff), ucast (drop_bit 8 cp AND 0xff), ucast (cp AND 0xff)]
      else [ucast (cp AND 0xff), ucast (drop_bit 8 cp AND 0xff), ucast (drop_bit 16 cp AND 0xff), ucast (drop_bit 24 cp)])"

lemma iterator_next_shorter: "length (snd (iterator_next uc src)) \<le> length src"
  by (cases src) auto

function utf32_encode_loop :: "endianness \<Rightarrow> u16 list \<Rightarrow> byte list" where
  "utf32_encode_loop endian [] = []"
| "utf32_encode_loop endian (uc # src) =
     (let (cp, src) = iterator_next uc src in ucs4_bytes endian cp @ utf32_encode_loop endian src)"
  by pat_completeness auto
termination
  by (relation "measure (\<lambda>(e, src). length src)") (auto, metis iterator_next_shorter less_Suc_eq_le snd_conv)

text \<open>The array has four bytes for each unit; what the loop does not write keeps the junk of the allocation.\<close>

definition utf32_from_unicode ::
  "memory \<Rightarrow> endianness \<Rightarrow> u16 list \<Rightarrow> converter_state option \<Rightarrow> endianness \<Rightarrow> byte list \<times> converter_state option" where
  "utf32_from_unicode junk host uc state e =
     (let endian = resolve_endian host e;
          len = 4 * length uc + (if writes_header state then 4 else 0);
          header = (if \<not> writes_header state then []
                    else if endian = Big_Endianness then [0, 0, 0xfe, 0xff] else [0xff, 0xfe, 0, 0])
      in (mem_write (map junk [0..<len]) 0 (header @ utf32_encode_loop endian uc), header_written state))"

definition from_endian :: "endianness \<Rightarrow> byte list \<Rightarrow> u32" where
  "from_endian endian bs = le_word (if endian = Big_Endianness then rev bs else bs)"

definition utf32_units :: "u32 \<Rightarrow> u16 list" where
  "utf32_units code =
     (if requires_surrogates code then [get_high_surrogate code, get_low_surrogate code] else [ucast code])"

definition utf32_header :: "endianness \<Rightarrow> bool \<Rightarrow> endianness \<Rightarrow> byte list \<Rightarrow> bool \<times> endianness" where
  "utf32_header host headerdone endian tuple =
     (if headerdone then (False, endian)
      else if endian = Detect_Endianness
      then if tuple = [0xff, 0xfe, 0, 0] then (True, Little_Endianness)
           else if tuple = [0, 0, 0xfe, 0xff] then (True, Big_Endianness)
           else (False, if host = Big_Endianness then Big_Endianness else Little_Endianness)
      else (from_endian endian tuple = 0xfeff, endian))"

fun utf32_decode_loop ::
  "endianness \<Rightarrow> byte list \<Rightarrow> bool \<Rightarrow> endianness \<Rightarrow> byte list \<Rightarrow> u16 list \<times> byte list \<times> endianness" where
  "utf32_decode_loop host tuple headerdone endian [] = ([], tuple, endian)"
| "utf32_decode_loop host tuple headerdone endian (c # chars) =
     (let tuple = tuple @ [c]
      in if length tuple \<noteq> 4 then utf32_decode_loop host tuple headerdone endian chars
         else
           let (skip, endian) = utf32_header host headerdone endian tuple;
               (out, tuple', endian') = utf32_decode_loop host [] headerdone endian chars
           in ((if skip then [] else utf32_units (from_endian endian tuple)) @ out, tuple', endian'))"

text \<open>The four bytes of \<open>tuple\<close> are all copied to the state; only the first \<open>num\<close> are read again.\<close>

definition utf32_to_unicode ::
  "endianness \<Rightarrow> byte list \<Rightarrow> converter_state option \<Rightarrow> endianness \<Rightarrow> u16 list \<times> converter_state option" where
  "utf32_to_unicode host chars state e =
     (let headerdone = (case state of None \<Rightarrow> False | Some st \<Rightarrow> cs_ignore_header st);
          endian = (case state of Some st \<Rightarrow> if e = Detect_Endianness then endian_of (state_word st 0) else e | None \<Rightarrow> e);
          tuple = (case state of None \<Rightarrow> [] | Some st \<Rightarrow> mem_read (cs_data st) 4 (cs_remaining st));
          endian = (if headerdone then resolve_endian host endian else endian);
          (out, tuple, endian) = utf32_decode_loop host tuple headerdone endian chars
      in (out, map_option (\<lambda>st.
            let st = put_state_word 0 (endian_code endian) st
            in st\<lparr>cs_remaining := length tuple, cs_data := mem_write (cs_data st) 4 tuple\<rparr>) state))"

end
