(* ===== verification/Utf_Forms.thy ===== *)
theory Utf_Forms
  imports Utf_Codecs Byte_Codec "HOL-Library.Sublist"
begin

text \<open>
  The encoding forms of Unicode in arithmetic on natural numbers, and that one step of the UTF-8 encoder and
  decoder follows them: \<open>to_utf8\<close> writes, and \<open>from_utf8\<close> accepts, the encoding forms of the code points the
  codecs let through and nothing else.
\<close>

unbundle bit_operations_syntax

section \<open>The encoding forms\<close>

text \<open>
  The code points the codecs let through: the range that \<open>isSurrogate\<close> takes for surrogates is longer
  than that of Unicode, which ends at 0xdfff.
\<close>

definition scalar :: "nat \<Rightarrow> bool" where
  "scalar c \<longleftrightarrow> c < 0x110000 \<and> \<not> (0xd800 \<le> c \<and> c < 0xf848)"

definition utf8_of :: "nat \<Rightarrow> byte list" where
  "utf8_of c =
     map of_nat
       (if c < 0x80 then [c]
        else if c < 0x800 then [0xc0 + c div 64, 0x80 + c mod 64]
        else if c < 0x10000 then [0xe0 + c div 4096, 0x80 + c div 64 mod 64, 0x80 + c mod 64]
        else [0xf0 + c div 262144, 0x80 + c div 4096 mod 64, 0x80 + c div 64 mod 64, 0x80 + c mod 64])"

definition utf16_of :: "nat \<Rightarrow> u16 list" where
  "utf16_of c =
     map of_nat
       (if c < 0x10000 then [c] else [0xd800 + (c - 0x10000) div 1024, 0xdc00 + (c - 0x10000) mod 1024])"

lemma utf8_of_cases:
  "c < 0x80 \<Longrightarrow> utf8_of c = [of_nat c]"
  "0x80 \<le> c \<Longrightarrow> c < 0x800 \<Longrightarrow> utf8_of c = [of_nat (0xc0 + c div 64), of_nat (0x80 + c mod 64)]"
  "0x800 \<le> c \<Longrightarrow> c < 0x10000 \<Longrightarrow>
     utf8_of c = [of_nat (0xe0 + c div 4096), of_nat (0x80 + c div 64 mod 64), of_nat (0x80 + c mod 64)]"
  "0x10000 \<le> c \<Longrightarrow> utf8_of c = [of_nat (0xf0 + c div 262144), of_nat (0x80 + c div 4096 mod 64),
     of_nat (0x80 + c div 64 mod 64), of_nat (0x80 + c mod 64)]"
  by (simp_all add: utf8_of_def)

lemma utf16_of_cases:
  "c < 0x10000 \<Longrightarrow> utf16_of c = [of_nat c]"
  "0x10000 \<le> c \<Longrightarrow> utf16_of c = [of_nat (0xd800 + (c - 0x10000) div 1024), of_nat (0xdc00 + (c - 0x10000) mod 1024)]"
  by (simp_all add: utf16_of_def)

section \<open>Bit fields\<close>

lemma tag_or: "d < 2 ^ k \<Longrightarrow> t = 2 ^ k * x \<Longrightarrow> t OR d = t + (d :: nat)"
  using or_shift_add [of d k x] by (simp add: push_bit_eq_mult mult.commute)

lemma unat_tag6: "unat (d :: byte) < 64 \<Longrightarrow> unat (0x80 OR d) = 128 + unat d" "unat d < 64 \<Longrightarrow> unat (0xc0 OR d) = 192 + unat d"
  using tag_or [of "unat d" 6 128 2] tag_or [of "unat d" 6 192 3] by (simp_all add: unsigned_or_eq)

lemma unat_tag4: "unat (d :: byte) < 16 \<Longrightarrow> unat (0xe0 OR d) = 224 + unat d" "unat d < 16 \<Longrightarrow> unat (0xf0 OR d) = 240 + unat d"
  using tag_or [of "unat d" 4 224 14] tag_or [of "unat d" 4 240 15] by (simp_all add: unsigned_or_eq)

lemma unat_and_masks:
  fixes w :: "'a::len word"
  assumes "6 < LENGTH('a)"
  shows "unat (w AND 0x3f) = unat w mod 64" "unat (w AND 0x1f) = unat w mod 32" "unat (w AND 0xf) = unat w mod 16"
    "unat (w AND 7) = unat w mod 8"
proof -
  have m: "unat (w AND mask n) = unat w mod 2 ^ n" for n
  proof -
    have "unat (take_bit n w) = take_bit n (unat w)" by (rule unsigned_take_bit_eq)
    moreover have "w AND mask n = take_bit n w" by (simp only: take_bit_eq_mask)
    moreover have "take_bit n (unat w) = unat w mod 2 ^ n" by (simp only: take_bit_eq_mod)
    ultimately show ?thesis by (simp only:)
  qed
  show "unat (w AND 0x3f) = unat w mod 64" "unat (w AND 0x1f) = unat w mod 32" "unat (w AND 0xf) = unat w mod 16"
    "unat (w AND 7) = unat w mod 8"
    using m [of 6] m [of 5] m [of 4] m [of 3] by (simp_all add: mask_eq_exp_minus_1)
qed

lemma unat_drop: "unat (drop_bit n (w :: 'a::len word)) = unat w div 2 ^ n"
proof -
  have "unat (drop_bit n w) = drop_bit n (take_bit (LENGTH('a)) (unat w))" by (simp add: unsigned_drop_bit_eq)
  also have "take_bit (LENGTH('a)) (unat w) = unat w" by (rule take_bit_nat_eq_self) (rule unsigned_less)
  finally show ?thesis by (simp add: drop_bit_eq_div)
qed

lemma unat_ucast: "unat (ucast w :: 'b::len word) = unat w mod 2 ^ LENGTH('b)"
  by (simp add: unsigned_ucast_eq take_bit_eq_mod)

lemmas word_fields = unat_tag6 unat_tag4 unat_and_masks unat_drop unat_ucast

lemma unat_utf8_bytes:
  "unat (last_utf8_byte u) = 128 + unat u mod 64"
  "unat (middle_utf8_byte u) = 128 + unat u div 64 mod 64"
proof -
  have "unat u mod 64 < 256" using mod_less_divisor [of 64 "unat u"] by linarith
  then show "unat (last_utf8_byte u) = 128 + unat u mod 64"
    by (simp add: last_utf8_byte_def word_fields)
  have "unat u div 64 mod 256 mod 64 = unat u div 64 mod 64" by (simp add: mod_mod_cancel)
  then show "unat (middle_utf8_byte u) = 128 + unat u div 64 mod 64"
    by (simp add: middle_utf8_byte_def word_fields)
qed

lemma utf8_byte_eqI: "unat b = n \<Longrightarrow> b = of_nat n"
  by auto

lemma unat_small: "n < 2 ^ LENGTH('a::len) \<Longrightarrow> unat (of_nat n :: 'a word) = n"
  by (simp add: unsigned_of_nat take_bit_nat_eq_self)

section \<open>Surrogates\<close>

lemma is_surrogate_iff: "is_surrogate w \<longleftrightarrow> 0xd800 \<le> unat w \<and> unat w < 0xf848"
proof -
  have "unat w < 2 ^ 32" using unsigned_less [of w] by simp
  then show ?thesis unfolding is_surrogate_def by unat_arith auto
qed

lemma and_high_mask: "(w :: u32) AND 0xfffffc00 = push_bit 10 (drop_bit 10 w)"
proof -
  have "(0xfffffc00 :: u32) = NOT (mask 10)" by (simp add: mask_eq_exp_minus_1)
  moreover have "w AND NOT (mask 10) = push_bit 10 (drop_bit 10 w)" by (rule bit_word_eqI) (auto simp: bit_simps)
  ultimately show ?thesis by metis
qed

lemma unat_push: "unat k * 2 ^ n < 2 ^ 32 \<Longrightarrow> unat (push_bit n (k :: u32)) = unat k * 2 ^ n"
proof -
  assume k: "unat k * 2 ^ n < 2 ^ 32"
  have "unat (push_bit n k) = take_bit 32 (push_bit n (unat k))" by (subst unsigned_push_bit_eq) simp
  then show ?thesis using k by (simp add: push_bit_eq_mult take_bit_nat_eq_self)
qed

lemma surrogate_halves:
  "is_high_surrogate w \<longleftrightarrow> 0xd800 \<le> unat w \<and> unat w < 0xdc00"
  "is_low_surrogate w \<longleftrightarrow> 0xdc00 \<le> unat w \<and> unat w < 0xe000"
proof -
  have *: "push_bit 10 (drop_bit 10 w) = push_bit 10 k \<longleftrightarrow> unat w div 1024 = unat k" if "unat k < 64" for k :: u32
  proof -
    have "unat w < 2 ^ 32" using unsigned_less [of w, where ?'a = nat] by simp
    then have "unat w div 1024 * 1024 < 2 ^ 32" by (meson div_times_less_eq_dividend le_less_trans)
    then have u: "unat (push_bit 10 (drop_bit 10 w)) = unat w div 1024 * 1024"
      using unat_push [of "drop_bit 10 w" 10] by (simp add: unat_drop)
    show ?thesis unfolding word_unat_eq_iff u using that unat_push [of k 10] by simp
  qed
  have "(0xd800 :: u32) = push_bit 10 54" "(0xdc00 :: u32) = push_bit 10 55" by (simp_all add: push_bit_eq_mult)
  then have "is_high_surrogate w \<longleftrightarrow> unat w div 1024 = 54" "is_low_surrogate w \<longleftrightarrow> unat w div 1024 = 55"
    using *[of 54] *[of 55] by (simp_all add: is_high_surrogate_def is_low_surrogate_def and_high_mask)
  then show "is_high_surrogate w \<longleftrightarrow> 0xd800 \<le> unat w \<and> unat w < 0xdc00"
    "is_low_surrogate w \<longleftrightarrow> 0xdc00 \<le> unat w \<and> unat w < 0xe000" by auto
qed

lemma unit_surrogates:
  "is_surrogate (ucast (u :: u16)) \<longleftrightarrow> 0xd800 \<le> unat u \<and> unat u < 0xf848"
  "is_high_surrogate (ucast u) \<longleftrightarrow> 0xd800 \<le> unat u \<and> unat u < 0xdc00"
  "is_low_surrogate (ucast u) \<longleftrightarrow> 0xdc00 \<le> unat u \<and> unat u < 0xe000"
proof -
  have "unat (ucast u :: u32) = unat u" using unsigned_less [of u, where ?'a = nat] by (simp add: unat_ucast)
  then show "is_surrogate (ucast (u :: u16)) \<longleftrightarrow> 0xd800 \<le> unat u \<and> unat u < 0xf848"
    "is_high_surrogate (ucast u) \<longleftrightarrow> 0xd800 \<le> unat u \<and> unat u < 0xdc00"
    "is_low_surrogate (ucast u) \<longleftrightarrow> 0xdc00 \<le> unat u \<and> unat u < 0xe000"
    by (simp_all add: is_surrogate_iff surrogate_halves)
qed

lemma surrogate_to_ucs4_eq:
  assumes "unat h = 0xd800 + a" "unat l = 0xdc00 + b" "a < 1024" "b < 1024"
  shows "unat (surrogate_to_ucs4 h l) = 0x10000 + a * 1024 + b"
proof -
  have h: "unat (ucast h :: u32) = 0xd800 + a" and l: "unat (ucast l :: u32) = 0xdc00 + b"
    using assms by (simp_all add: unat_ucast)
  have "surrogate_to_ucs4 h l = of_nat (unat (push_bit 10 (ucast h :: u32)) + unat (ucast l :: u32)) - 0x35fdc00"
    by (simp add: surrogate_to_ucs4_def)
  also have "unat (push_bit 10 (ucast h :: u32)) = (0xd800 + a) * 1024"
    using unat_push [of "ucast h" 10] assms(3) by (simp add: h)
  also have "of_nat ((0xd800 + a) * 1024 + unat (ucast l :: u32)) - 0x35fdc00 = (of_nat (0x10000 + a * 1024 + b) :: u32)"
    by (simp add: l)
  finally have "surrogate_to_ucs4 h l = of_nat (0x10000 + a * 1024 + b)" .
  then show ?thesis using unat_small [where 'a = 32, of "0x10000 + a * 1024 + b"] assms(3,4) by (simp only:) simp
qed

lemma get_surrogates_eq:
  assumes "0x10000 \<le> c" "c < 0x110000"
  shows "[get_high_surrogate (of_nat c), get_low_surrogate (of_nat c)] = utf16_of c"
proof -
  have "unat (get_high_surrogate (of_nat c)) = 0xd800 + (c - 0x10000) div 1024"
  proof -
    have d: "(c - 0x10000) div 1024 = c div 1024 - 64" using assms by linarith
    have "c div 1024 < 1088" using assms by linarith
    moreover have "(ucast (drop_bit 10 (of_nat c :: u32)) :: u16) = of_nat (c div 1024)"
      using assms by (intro utf8_byte_eqI) (simp add: unat_drop unat_ucast unat_small)
    then have "get_high_surrogate (of_nat c) = of_nat (c div 1024 + 0xd7c0)"
      by (simp only: get_high_surrogate_def of_nat_add of_nat_numeral)
    moreover have "64 \<le> c div 1024" using assms by linarith
    ultimately show ?thesis using unat_small [where 'a = 16, of "c div 1024 + 0xd7c0"] by (simp only: d) simp
  qed
  moreover have "unat (get_low_surrogate (of_nat c)) = 0xdc00 + (c - 0x10000) mod 1024"
  proof -
    have "c mod 1024 = ((c - 0x10000) + 64 * 1024) mod 1024" using assms(1) by simp
    also have "\<dots> = (c - 0x10000) mod 1024" by (rule mod_mult_self1)
    finally have "c mod 1024 = (c - 0x10000) mod 1024" .
    then show ?thesis using assms by (simp add: get_low_surrogate_def word_fields unat_small unat_mod unat_word_ariths)
  qed
  ultimately have "get_high_surrogate (of_nat c) = of_nat (0xd800 + (c - 0x10000) div 1024)"
    "get_low_surrogate (of_nat c) = of_nat (0xdc00 + (c - 0x10000) mod 1024)"
    by (blast intro: utf8_byte_eqI)+
  then show ?thesis using utf16_of_cases(2) [OF assms(1)] by (simp only:)
qed

section \<open>One character\<close>

lemma to_utf8_unit:
  assumes "scalar c" "c < 0x10000"
  shows "to_utf8 (of_nat c) src = Inr (utf8_of c, src)"
proof -
  define u :: u16 where "u = of_nat c"
  have u: "unat u = c" using assms(2) by (simp add: u_def unat_small)
  have l: "last_utf8_byte u = of_nat (0x80 + c mod 64)" "middle_utf8_byte u = of_nat (0x80 + c div 64 mod 64)"
    by (intro utf8_byte_eqI; simp add: unat_utf8_bytes u)+
  have a: "ucast u = (of_nat c :: byte)" if "c < 0x80"
    using that by (intro utf8_byte_eqI) (simp add: unat_ucast u)
  have b: "0xc0 OR ucast (drop_bit 6 u) = (of_nat (0xc0 + c div 64) :: byte)" if "c < 0x800"
  proof (rule utf8_byte_eqI)
    have "unat (ucast (drop_bit 6 u) :: byte) = c div 64" using that by (simp add: unat_ucast unat_drop u)
    then show "unat (0xc0 OR ucast (drop_bit 6 u) :: byte) = 0xc0 + c div 64" using that by (simp add: unat_tag6)
  qed
  have d: "0xe0 OR ucast (drop_bit 12 u) = (of_nat (0xe0 + c div 4096) :: byte)"
  proof (rule utf8_byte_eqI)
    have "c div 4096 < 16" using assms(2) by linarith
    moreover from this have "unat (ucast (drop_bit 12 u) :: byte) = c div 4096" by (simp add: unat_ucast unat_drop u)
    ultimately show "unat (0xe0 OR ucast (drop_bit 12 u) :: byte) = 0xe0 + c div 4096" by (simp add: unat_tag4)
  qed
  have "u < 0x80 \<longleftrightarrow> c < 0x80" "u < 0x800 \<longleftrightarrow> c < 0x800" by (simp_all add: word_less_nat_alt u)
  moreover have "\<not> is_surrogate (ucast u)" using assms(1) by (simp add: unit_surrogates u scalar_def)
  ultimately show ?thesis
    unfolding u_def [symmetric] using a b d assms(2) by (simp add: to_utf8_def l utf8_of_cases)
qed

lemma to_utf8_pair:
  assumes "scalar c" "0x10000 \<le> c" "utf16_of c = [h, l]"
  shows "to_utf8 h (l # src) = Inr (utf8_of c, src)"
proof -
  define a b where "a = (c - 0x10000) div 1024" and "b = (c - 0x10000) mod 1024"
  have ab: "a < 1024" "b < 1024" "c = 0x10000 + a * 1024 + b"
    using assms(1,2) by (auto simp: a_def b_def scalar_def)
  have hl: "unat h = 0xd800 + a" "unat l = 0xdc00 + b"
    using assms(2,3) ab(1,2) by (auto simp: utf16_of_cases a_def [symmetric] b_def [symmetric] unat_small simp del: of_nat_add)
  have v: "unat (surrogate_to_ucs4 h l) = c" using surrogate_to_ucs4_eq [OF hl ab(1,2)] ab(3) by simp
  define w where "w = surrogate_to_ucs4 h l"
  have c: "c < 0x110000" using assms(1) by (simp add: scalar_def)
  have u: "unat (ucast w :: u16) = c mod 65536" using v by (simp add: w_def unat_ucast)
  have m: "c mod 65536 mod 64 = c mod 64" "c mod 65536 div 64 mod 64 = c div 64 mod 64"
  proof -
    show "c mod 65536 mod 64 = c mod 64" by (simp add: mod_mod_cancel)
    have "c mod (64 * 1024) div 64 = c div 64 mod 1024" by (rule mod_mult2_eq [THEN arg_cong [where f = "\<lambda>x. x div 64"], THEN trans]) simp
    then show "c mod 65536 div 64 mod 64 = c div 64 mod 64" by (simp add: mod_mod_cancel)
  qed
  have l: "last_utf8_byte (ucast w) = of_nat (0x80 + c mod 64)" "middle_utf8_byte (ucast w) = of_nat (0x80 + c div 64 mod 64)"
    by (intro utf8_byte_eqI; simp add: unat_utf8_bytes u m)+
  have d: "0xf0 OR (ucast (drop_bit 18 w) AND 0xf) = (of_nat (0xf0 + c div 262144) :: byte)"
  proof (rule utf8_byte_eqI)
    have "c div 262144 < 5" using c by linarith
    moreover from this have "unat (ucast (drop_bit 18 w) AND 0xf :: byte) = c div 262144"
      using v by (simp add: w_def unat_and_masks unat_ucast unat_drop)
    ultimately show "unat (0xf0 OR (ucast (drop_bit 18 w) AND 0xf) :: byte) = 0xf0 + c div 262144"
      by (simp add: unat_tag4)
  qed
  have e: "0x80 OR (ucast (drop_bit 12 w) AND 0x3f) = (of_nat (0x80 + c div 4096 mod 64) :: byte)"
  proof (rule utf8_byte_eqI)
    have "unat (ucast (drop_bit 12 w) AND 0x3f :: byte) = c div 4096 mod 64"
      using v by (simp add: w_def unat_and_masks unat_ucast unat_drop mod_mod_cancel)
    then show "unat (0x80 OR (ucast (drop_bit 12 w) AND 0x3f) :: byte) = 0x80 + c div 4096 mod 64"
      by (simp add: unat_tag6)
  qed
  have "\<not> h < 0x80" "\<not> h < 0x800" using hl by (simp_all add: word_less_nat_alt)
  then show ?thesis
    using hl ab assms(2) by (simp add: to_utf8_def unit_surrogates w_def [symmetric] l d e utf8_of_cases Let_def)
qed

lemma is_continuation_byte_iff: "is_continuation_byte b \<longleftrightarrow> 128 \<le> unat b \<and> unat b < 192"
proof -
  have "(0xc0 :: byte) = NOT (mask 6)" by (simp add: mask_eq_exp_minus_1)
  moreover have "b AND NOT (mask 6) = push_bit 6 (drop_bit 6 b)" by (rule bit_word_eqI) (auto simp: bit_simps)
  ultimately have e: "b AND 0xc0 = push_bit 6 (drop_bit 6 b)" by metis
  have "unat b < 256" using unsigned_less [of b, where ?'a = nat] by simp
  then have "unat b div 64 < 4" by simp
  then have "unat (push_bit 6 (drop_bit 6 b)) = unat b div 64 * 64"
    by (subst unsigned_push_bit_eq) (simp add: unat_drop push_bit_eq_mult take_bit_nat_eq_self)
  then have "b AND 0xc0 = 0x80 \<longleftrightarrow> unat b div 64 * 64 = 128"
    unfolding e word_unat_eq_iff by simp
  then show ?thesis unfolding is_continuation_byte_def by auto
qed

lemma continue_step:
  assumes "unat uc < 2 ^ 20"
  shows "unat (push_bit 6 (uc :: u32) OR ucast (b AND 0x3f :: byte)) = unat uc * 64 + unat b mod 64"
proof -
  have "unat (push_bit 6 uc) = unat uc * 64" using unat_push [of uc 6] assms by simp
  moreover have "unat (ucast (b AND 0x3f :: byte) :: u32) = unat b mod 64"
  proof -
    have "unat b mod 64 < 2 ^ 32" by (rule less_trans [OF mod_less_divisor]) simp_all
    then show ?thesis by (simp add: unat_ucast unat_and_masks)
  qed
  ultimately show ?thesis
    using tag_or [of "unat b mod 64" 6 "unat uc * 64" "unat uc"] by (simp add: unsigned_or_eq)
qed

fun cont_value :: "nat \<Rightarrow> nat \<Rightarrow> byte list \<Rightarrow> nat option" where
  "cont_value 0 v src = Some v"
| "cont_value (Suc k) v [] = None"
| "cont_value (Suc k) v (b # src) =
     (if 128 \<le> unat b \<and> unat b < 192 then cont_value k (v * 64 + unat b mod 64) src else None)"

lemma utf8_continue_value:
  "(unat uc + 1) * 64 ^ k \<le> 2 ^ 26 \<Longrightarrow>
   utf8_continue k uc src = map_option of_nat (cont_value k (unat uc) src)
   \<and> (\<forall>v. cont_value k (unat uc) src = Some v \<longrightarrow> v < 2 ^ 26)"
proof (induction k uc src rule: utf8_continue.induct)
  case (3 k uc b src)
  define uc' where "uc' = push_bit 6 uc OR ucast (b AND 0x3f)"
  have "(unat uc + 1) * 64 * 1 \<le> (unat uc + 1) * 64 * 64 ^ k" by (rule mult_le_mono2) simp
  also have "\<dots> \<le> 2 ^ 26" using 3(2) by (simp add: algebra_simps)
  finally have u: "unat uc' = unat uc * 64 + unat b mod 64" using continue_step [of uc b] by (simp add: uc'_def)
  have "(unat uc' + 1) * 64 ^ k \<le> (unat uc + 1) * 64 * 64 ^ k"
    unfolding u by (rule mult_le_mono1) (use mod_less_divisor [of 64 "unat b"] in simp)
  also have "\<dots> \<le> 2 ^ 26" using 3(2) by (simp add: algebra_simps)
  finally show ?case
    using 3(1) by (simp add: is_continuation_byte_iff u uc'_def [symmetric])
qed simp_all

lemma lead_values:
  "utf8_lead b =
    (if unat b < 0xc2 then None
     else if unat b < 0xe0 then Some (2, 0x80, of_nat (unat b mod 32))
     else if unat b < 0xf0 then Some (3, 0x800, of_nat (unat b mod 16))
     else if unat b < 0xf5 then Some (4, 0x10000, of_nat (unat b mod 8)) else None)"
proof -
  have "ucast (b AND 0x1f) = (of_nat (unat b mod 32) :: u32)" "ucast (b AND 0xf) = (of_nat (unat b mod 16) :: u32)"
    "ucast (b AND 7) = (of_nat (unat b mod 8) :: u32)"
    by (rule utf8_byte_eqI, simp add: unat_ucast unat_and_masks unat_small)+
  moreover have "b \<le> 0xc1 \<longleftrightarrow> unat b < 0xc2" "b < 0xe0 \<longleftrightarrow> unat b < 0xe0" "b < 0xf0 \<longleftrightarrow> unat b < 0xf0" "b < 0xf5 \<longleftrightarrow> unat b < 0xf5"
    by (auto simp: word_le_nat_alt word_less_nat_alt)
  ultimately show ?thesis unfolding utf8_lead_def by (simp only:)
qed

lemma decoded_value:
  assumes "(v + 1) * 64 ^ k \<le> 2 ^ 26" "unat l = least" "v < 32"
  shows
  "(case utf8_continue k (of_nat v) src of
          None \<Rightarrow> Inl Utf_Error
        | Some uc \<Rightarrow>
            if uc < l then Inl Utf_Error
            else if is_surrogate uc \<or> uc > 0x10ffff then Inl Utf_Error
            else if \<not> requires_surrogates uc then Inr ([ucast uc], n)
            else Inr ([get_high_surrogate uc, get_low_surrogate uc], n))
      = (case cont_value k v src of
           None \<Rightarrow> Inl Utf_Error
         | Some c \<Rightarrow> if c < least \<or> \<not> scalar c then Inl Utf_Error else Inr (utf16_of c, n))"
proof -
  have v: "unat (of_nat v :: u32) = v" using assms(3) by (intro unat_small) simp
  note c = utf8_continue_value [where uc = "of_nat v" and k = k and src = src, unfolded v, OF assms(1)]
  show ?thesis
  proof (cases "cont_value k v src")
    case None
    then show ?thesis using c by simp
  next
    case (Some w)
    define uc :: u32 where "uc = of_nat w"
    have "w < 2 ^ 26" using c Some by blast
    then have w: "unat uc = w" by (simp add: uc_def unat_small)
    have r: "uc < l \<longleftrightarrow> w < least" using assms(2) by (simp add: word_less_nat_alt w)
    have "is_surrogate uc \<or> uc > 0x10ffff \<longleftrightarrow> \<not> scalar w"
      by (auto simp: is_surrogate_iff w word_less_nat_alt scalar_def)
    moreover have "requires_surrogates uc \<longleftrightarrow> 0x10000 \<le> w" by (simp add: requires_surrogates_def word_le_nat_alt w)
    moreover have "[ucast uc] = utf16_of w" if "w < 0x10000"
    proof -
      have "ucast uc = (of_nat w :: u16)" using that by (intro utf8_byte_eqI) (simp add: unat_ucast w)
      then show ?thesis using that by (simp add: utf16_of_cases)
    qed
    moreover have "[get_high_surrogate uc, get_low_surrogate uc] = utf16_of w" if "0x10000 \<le> w" "scalar w"
      using get_surrogates_eq [OF that(1)] that(2) by (simp add: uc_def scalar_def)
    ultimately show ?thesis using c Some r by (simp add: uc_def [symmetric])
  qed
qed

definition lead_fields :: "nat \<Rightarrow> (nat \<times> nat \<times> nat) option" where
  "lead_fields b =
     (if b < 0xc2 then None
      else if b < 0xe0 then Some (2, 0x80, b mod 32)
      else if b < 0xf0 then Some (3, 0x800, b mod 16)
      else if b < 0xf5 then Some (4, 0x10000, b mod 8) else None)"

lemma from_utf8_values:
  assumes "\<not> b < 0x80"
  shows "from_utf8 b src =
    (case lead_fields (unat b) of
       None \<Rightarrow> Inl Utf_Error
     | Some (n, least, v) \<Rightarrow>
         if length src < n - 1
         then if (src \<noteq> [] \<and> \<not> is_continuation_byte (src ! 0)) \<or> (length src > 1 \<and> \<not> is_continuation_byte (src ! 1))
              then Inl Utf_Error else Inl End_Of_String
         else case cont_value (n - 1) v src of
                None \<Rightarrow> Inl Utf_Error
              | Some c \<Rightarrow> if c < least \<or> \<not> scalar c then Inl Utf_Error else Inr (utf16_of c, n))"
proof -
  have m: "unat b mod 32 < 32" "unat b mod 16 < 16" "unat b mod 8 < 8" by simp_all
  have d2: "(unat b mod 32 + 1) * 64 ^ Suc 0 \<le> 2 ^ 26" "unat (0x80 :: u32) = 0x80" "unat b mod 32 < 32" using m by simp_all
  have d3: "(unat b mod 16 + 1) * 64 ^ 2 \<le> 2 ^ 26" "unat (0x800 :: u32) = 0x800" "unat b mod 16 < 32" using m by simp_all
  have d4: "(unat b mod 8 + 1) * 64 ^ 3 \<le> 2 ^ 26" "unat (0x10000 :: u32) = 0x10000" "unat b mod 8 < 32" using m by simp_all
  show ?thesis
    using assms by (simp add: from_utf8_def lead_values lead_fields_def decoded_value [OF d2] decoded_value [OF d3] decoded_value [OF d4])
qed

lemma cont_value_bytes:
  "cont_value 1 v (of_nat (0x80 + c mod 64) # rest) = Some (v * 64 + c mod 64)"
  "cont_value 2 v (of_nat (0x80 + d mod 64) # of_nat (0x80 + c mod 64) # rest) = Some ((v * 64 + d mod 64) * 64 + c mod 64)"
  "cont_value 3 v (of_nat (0x80 + e mod 64) # of_nat (0x80 + d mod 64) # of_nat (0x80 + c mod 64) # rest)
     = Some (((v * 64 + e mod 64) * 64 + d mod 64) * 64 + c mod 64)"
proof -
  have u: "unat (of_nat (0x80 + x mod 64) :: byte) = 0x80 + x mod 64" for x
    using mod_less_divisor [of 64 x] by (intro unat_small) simp
  have m: "(0x80 + x mod 64) mod 64 = x mod 64" for x :: nat using mod_mult_self2 [of "x mod 64" 64 2] by (simp add: add.commute)
  have l: "x mod 64 < 64" for x :: nat by simp
  show "cont_value 1 v (of_nat (0x80 + c mod 64) # rest) = Some (v * 64 + c mod 64)"
    "cont_value 2 v (of_nat (0x80 + d mod 64) # of_nat (0x80 + c mod 64) # rest) = Some ((v * 64 + d mod 64) * 64 + c mod 64)"
    "cont_value 3 v (of_nat (0x80 + e mod 64) # of_nat (0x80 + d mod 64) # of_nat (0x80 + c mod 64) # rest)
     = Some (((v * 64 + e mod 64) * 64 + d mod 64) * 64 + c mod 64)"
    using l [of c] l [of d] l [of e] by (simp_all add: u m numeral_2_eq_2 numeral_3_eq_3 del: of_nat_add)
qed

lemma digit_tag: "x < m \<Longrightarrow> (q * m + x) mod m = (x :: nat)"
  by simp

text \<open>The decoder reads what the encoding form says, and accepts nothing else.\<close>

lemma from_utf8_of:
  assumes "scalar c"
  shows "from_utf8 (hd (utf8_of c)) (tl (utf8_of c) @ rest) = Inr (utf16_of c, length (utf8_of c))"
proof -
  consider "c < 0x80" | "0x80 \<le> c" "c < 0x800" | "0x800 \<le> c" "c < 0x10000" | "0x10000 \<le> c" by linarith
  then show ?thesis
  proof cases
    case 1
    then show ?thesis
      by (simp add: from_utf8_def utf8_of_cases utf16_of_cases word_less_nat_alt unat_small word_unat_eq_iff unat_ucast)
  next
    case 2
    define b :: byte where "b = of_nat (0xc0 + c div 64)"
    have b: "unat b = 0xc0 + c div 64" "c div 64 < 32" "2 \<le> c div 64" using 2 by (simp_all add: b_def unat_small del: of_nat_add)
    have "(c div 64 + 6 * 32) mod 32 = c div 64 mod 32" by (rule mod_mult_self1)
    then have "unat b mod 32 = c div 64" using b by (simp add: add.commute)
    moreover have "\<not> b < 0x80" using b by (simp add: word_less_nat_alt)
    ultimately show ?thesis
      using 2 b assms from_utf8_values [of b "of_nat (0x80 + c mod 64) # rest"] cont_value_bytes(1) [of "c div 64" c rest]
      by (simp add: utf8_of_cases b_def [symmetric] lead_fields_def del: of_nat_add)
  next
    case 3
    define b :: byte where "b = of_nat (0xe0 + c div 4096)"
    have b: "unat b = 0xe0 + c div 4096" "c div 4096 < 16" using 3 by (simp_all add: b_def unat_small del: of_nat_add)
    have "\<not> b < 0x80" "unat b mod 16 = c div 4096"
      using b digit_tag [of "c div 4096" 16 14] by (simp_all add: word_less_nat_alt)
    moreover have "(c div 4096 * 64 + c div 64 mod 64) * 64 + c mod 64 = c"
    proof -
      have "c div 4096 = c div 64 div 64" by (simp add: div_mult2_eq)
      then show ?thesis by simp
    qed
    ultimately show ?thesis
      using 3 b assms from_utf8_values [of b "of_nat (0x80 + c div 64 mod 64) # of_nat (0x80 + c mod 64) # rest"]
        cont_value_bytes(2) [of "c div 4096" "c div 64" c rest]
      by (simp add: utf8_of_cases b_def [symmetric] lead_fields_def del: of_nat_add)
  next
    case 4
    define b :: byte where "b = of_nat (0xf0 + c div 262144)"
    have "c div 262144 < 5" using assms by (auto simp: scalar_def)
    then have b: "unat b = 0xf0 + c div 262144" "c div 262144 < 5" by (simp_all add: b_def unat_small del: of_nat_add)
    have "\<not> b < 0x80" "unat b mod 8 = c div 262144"
      using b digit_tag [of "c div 262144" 8 30] by (simp_all add: word_less_nat_alt)
    moreover have "((c div 262144 * 64 + c div 4096 mod 64) * 64 + c div 64 mod 64) * 64 + c mod 64 = c"
    proof -
      have "c div 4096 = c div 64 div 64" "c div 262144 = c div 64 div 64 div 64" by (simp_all add: div_mult2_eq)
      then show ?thesis by simp
    qed
    ultimately show ?thesis
      using 4 b assms from_utf8_values
          [of b "of_nat (0x80 + c div 4096 mod 64) # of_nat (0x80 + c div 64 mod 64) # of_nat (0x80 + c mod 64) # rest"]
        cont_value_bytes(3) [of "c div 262144" "c div 4096" "c div 64" c rest]
      by (simp add: utf8_of_cases b_def [symmetric] lead_fields_def del: of_nat_add)
  qed
qed

lemma digit64:
  "y < 64 \<Longrightarrow> (p * 64 + y) div 64 = (p :: nat)" "y < 64 \<Longrightarrow> (p * 64 + y) mod 64 = (y :: nat)"
  by simp_all

lemma cont_value_Suc:
  "cont_value (Suc k) v src = Some c \<longleftrightarrow>
    (\<exists>x rest. x < 64 \<and> src = of_nat (0x80 + x) # rest \<and> cont_value k (v * 64 + x) rest = Some c)"
proof (cases src)
  case (Cons b rest)
  have "128 \<le> unat b \<and> unat b < 192 \<longleftrightarrow> (\<exists>x < 64. b = of_nat (0x80 + x))" (is "?l = ?r")
  proof
    assume ?l
    then show ?r by (intro exI [of _ "unat b - 128"] conjI) (linarith, simp del: of_nat_add)
  next
    assume ?r
    then show ?l by (auto simp: unat_small simp del: of_nat_add)
  qed
  note l = this
  have m: "unat b mod 64 = x" if "b = of_nat (0x80 + x)" "x < 64" for x
  proof -
    have "unat b = x + 2 * 64" using that by (simp add: unat_small del: of_nat_add)
    then show ?thesis using that(2) mod_mult_self1 [of x 2 64] by simp
  qed
  show ?thesis (is "?L = ?R")
  proof
    assume ?L
    then have "128 \<le> unat b \<and> unat b < 192" "cont_value k (v * 64 + unat b mod 64) rest = Some c"
      unfolding Cons by (simp_all split: if_splits)
    then show ?R using l m unfolding Cons by metis
  next
    assume ?R
    then obtain x where "x < 64" "b = of_nat (0x80 + x)" "cont_value k (v * 64 + x) rest = Some c" unfolding Cons by auto
    then show ?L unfolding Cons using l m by auto
  qed
qed simp

lemma from_utf8_accepts:
  assumes "from_utf8 b src = Inr (us, n)"
  obtains c where "scalar c" "b # take (n - 1) src = utf8_of c" "us = utf16_of c" "n = length (utf8_of c)"
proof (cases "b < 0x80")
  case True
  then have "unat b < 0x80" by (simp add: word_less_nat_alt)
  then show ?thesis
    using that [of "unat b"] assms True
    by (simp add: from_utf8_def scalar_def utf8_of_cases utf16_of_cases unat_ucast word_unat_eq_iff unat_small)
next
  case False
  note f = assms [unfolded from_utf8_values [OF False] lead_fields_def]
  consider "0xc2 \<le> unat b" "unat b < 0xe0" | "0xe0 \<le> unat b" "unat b < 0xf0" | "0xf0 \<le> unat b" "unat b < 0xf5"
    using f by (auto split: if_splits)
  then show ?thesis
  proof cases
    case 1
    define v where "v = unat b - 0xc0"
    have v: "unat b mod 32 = v" "b = of_nat (0xc0 + v)" "2 \<le> v" "v < 32" using 1 mod_mult_self1 [of v 6 32] by (simp_all add: v_def del: of_nat_add)
    obtain c where c: "cont_value 1 v src = Some c" "scalar c" "us = utf16_of c" "n = 2" "0x80 \<le> c"
      using f 1 by (auto simp: v(1) split: if_splits option.splits)
    then obtain x rest where x: "x < 64" "src = of_nat (0x80 + x) # rest" "c = v * 64 + x"
      by (auto simp: cont_value_Suc simp del: of_nat_add)
    then show ?thesis using that [of c] c v by (simp add: utf8_of_cases del: of_nat_add)
  next
    case 2
    define v where "v = unat b - 0xe0"
    have v: "unat b mod 16 = v" "b = of_nat (0xe0 + v)" "v < 16" using 2 mod_mult_self1 [of v 14 16] by (simp_all add: v_def del: of_nat_add)
    obtain c where c: "cont_value 2 v src = Some c" "scalar c" "us = utf16_of c" "n = 3" "0x800 \<le> c"
      using f 2 by (auto simp: v(1) split: if_splits option.splits)
    then obtain x y rest where x: "x < 64" "y < 64" "src = of_nat (0x80 + x) # of_nat (0x80 + y) # rest" "c = (v * 64 + x) * 64 + y"
      by (auto simp: cont_value_Suc numeral_2_eq_2 simp del: of_nat_add)
    then have "c < 0x10000" using v(3) unfolding x(4) by simp
    have q: "c div 64 = v * 64 + x" unfolding x(4) by (rule digit64 [OF x(2)])
    moreover have "c div 4096 = c div 64 div 64" by (simp add: div_mult2_eq)
    ultimately have d: "c div 4096 = v" "c div 64 mod 64 = x" "c mod 64 = y"
      using digit64 [OF x(1)] digit64 [OF x(2)] by (simp_all only: x(4))
    show ?thesis using that [of c] c(2-5) v(2) x(3) \<open>c < 0x10000\<close> by (simp add: utf8_of_cases d del: of_nat_add)
  next
    case 3
    define v where "v = unat b - 0xf0"
    have v: "unat b mod 8 = v" "b = of_nat (0xf0 + v)" "v < 5" using 3 mod_mult_self1 [of v 30 8] by (simp_all add: v_def del: of_nat_add)
    obtain c where c: "cont_value 3 v src = Some c" "scalar c" "us = utf16_of c" "n = 4" "0x10000 \<le> c"
      using f 3 by (auto simp: v(1) split: if_splits option.splits)
    then obtain x y z rest where x: "x < 64" "y < 64" "z < 64"
        "src = of_nat (0x80 + x) # of_nat (0x80 + y) # of_nat (0x80 + z) # rest" "c = ((v * 64 + x) * 64 + y) * 64 + z"
      by (auto simp: cont_value_Suc numeral_3_eq_3 simp del: of_nat_add)
    have q: "c div 64 = (v * 64 + x) * 64 + y" unfolding x(5) by (rule digit64 [OF x(3)])
    moreover have "c div 4096 = c div 64 div 64" "c div 262144 = c div 64 div 64 div 64" by (simp_all add: div_mult2_eq)
    ultimately have d: "c div 262144 = v" "c div 4096 mod 64 = x" "c div 64 mod 64 = y" "c mod 64 = z"
      using digit64 [OF x(1)] digit64 [OF x(2)] digit64 [OF x(3)] by (simp_all only: x(5))
    show ?thesis using that [of c] c(2-5) v(2) x(4) by (simp add: utf8_of_cases d del: of_nat_add)
  qed
qed

lemma utf8_of_shape:
  assumes "scalar c" "utf8_of c = b # ts"
  shows "ts \<noteq> [] \<Longrightarrow> \<not> b < 0x80 \<and> (\<exists>least v. lead_fields (unat b) = Some (Suc (length ts), least, v))"
    "list_all is_continuation_byte ts" "length ts \<le> 3"
proof -
  have u: "unat (of_nat (0x80 + x mod 64) :: byte) = 0x80 + x mod 64" for x
    using mod_less_divisor [of 64 x] by (intro unat_small) simp
  have t: "is_continuation_byte (of_nat (0x80 + x mod 64))" for x
    unfolding is_continuation_byte_iff u by simp
  consider "c < 0x80" | "0x80 \<le> c" "c < 0x800" | "0x800 \<le> c" "c < 0x10000" | "0x10000 \<le> c" by linarith
  then have "(ts \<noteq> [] \<longrightarrow> \<not> b < 0x80 \<and> (\<exists>least v. lead_fields (unat b) = Some (Suc (length ts), least, v)))
    \<and> list_all is_continuation_byte ts \<and> length ts \<le> 3"
  proof cases
    case 1
    then show ?thesis using assms(2) by (simp add: utf8_of_cases)
  next
    case 2
    then have "unat (of_nat (0xc0 + c div 64) :: byte) = 0xc0 + c div 64" "c div 64 < 32" "2 \<le> c div 64"
      by (simp_all add: unat_small del: of_nat_add)
    then show ?thesis using 2 assms(2)
      by (auto simp: utf8_of_cases lead_fields_def word_less_nat_alt t simp del: of_nat_add)
  next
    case 3
    then have "unat (of_nat (0xe0 + c div 4096) :: byte) = 0xe0 + c div 4096" "c div 4096 < 16"
      by (simp_all add: unat_small del: of_nat_add)
    then show ?thesis using 3 assms(2)
      by (auto simp: utf8_of_cases lead_fields_def word_less_nat_alt t simp del: of_nat_add)
  next
    case 4
    have "c div 262144 < 5" using assms(1) by (auto simp: scalar_def)
    then have "unat (of_nat (0xf0 + c div 262144) :: byte) = 0xf0 + c div 262144" "c div 262144 < 5"
      by (simp_all add: unat_small del: of_nat_add)
    then show ?thesis using 4 assms(2)
      by (auto simp: utf8_of_cases lead_fields_def word_less_nat_alt t simp del: of_nat_add)
  qed
  then show "ts \<noteq> [] \<Longrightarrow> \<not> b < 0x80 \<and> (\<exists>least v. lead_fields (unat b) = Some (Suc (length ts), least, v))"
    "list_all is_continuation_byte ts" "length ts \<le> 3" by simp_all
qed

lemma utf8_of_not_Nil [simp]: "utf8_of c \<noteq> []"
  by (simp add: utf8_of_def)

lemma from_utf8_partial:
  assumes "scalar c" "utf8_of c = b # p @ q" "q \<noteq> []"
  shows "from_utf8 b p = Inl End_Of_String"
proof -
  obtain least v where l: "\<not> b < 0x80" "lead_fields (unat b) = Some (Suc (length (p @ q)), least, v)"
    using utf8_of_shape(1) [OF assms(1,2)] assms(3) by auto
  have "list_all is_continuation_byte p" using utf8_of_shape(2) [OF assms(1,2)] by simp
  moreover have "length p < length (p @ q)" using assms(3) by simp
  ultimately show ?thesis
    using l(2) by (auto simp: from_utf8_values [OF l(1)] list_all_length)
qed

end
