(* ===== verification/Utf_Streams.thy ===== *)
theory Utf_Streams
  imports Utf_Forms
begin

text \<open>
  Streams of text through the codecs: a text is converted in pieces cut at any place, with the converter state
  carried from call to call.
\<close>

unbundle bit_operations_syntax

section \<open>Converting piece by piece\<close>

fun feed :: "('a list \<Rightarrow> 's \<Rightarrow> 'b list \<times> 's) \<Rightarrow> 'a list list \<Rightarrow> 's \<Rightarrow> 'b list \<times> 's" where
  "feed convert [] st = ([], st)"
| "feed convert (c # cs) st =
     (let (out1, st1) = convert c st; (out2, st2) = feed convert cs st1 in (out1 @ out2, st2))"

text \<open>A conversion that does not see where its input is cut.\<close>

locale stream_conversion =
  fixes step :: "'a list \<Rightarrow> 't \<Rightarrow> 'b list \<times> 't"
  assumes step_append:
    "step (c @ d) t = (let (out1, t1) = step c t; (out2, t2) = step d t1 in (out1 @ out2, t2))"
begin

lemma feed_step: "cs \<noteq> [] \<Longrightarrow> feed step cs t = step (concat cs) t"
proof (induction cs arbitrary: t)
  case (Cons c cs)
  then show ?case by (cases "cs = []") (simp_all add: case_prod_beta step_append)
qed simp

end

text \<open>
  A converter whose state stands for the state of such a conversion: what the state of the converter holds beyond
  that does not matter.
\<close>

locale stream_converter = stream_conversion step
  for step :: "'a list \<Rightarrow> 't \<Rightarrow> 'b list \<times> 't" +
  fixes convert :: "'a list \<Rightarrow> 's \<Rightarrow> 'b list \<times> 's" and abs :: "'s \<Rightarrow> 't" and ok :: "'s \<Rightarrow> bool"
  assumes convert_ok: "ok st \<Longrightarrow> ok (snd (convert c st))"
    and convert_step: "ok st \<Longrightarrow> step c (abs st) = (fst (convert c st), abs (snd (convert c st)))"
begin

lemma feed_abs: "ok st \<Longrightarrow> feed step cs (abs st) = (fst (feed convert cs st), abs (snd (feed convert cs st)))"
proof (induction cs arbitrary: st)
  case (Cons c cs)
  then show ?case using convert_ok [of st c] by (simp add: case_prod_beta convert_step)
qed simp

lemma feed_concat:
  assumes "ok st" "cs \<noteq> []"
  shows "fst (feed convert cs st) = fst (convert (concat cs) st)"
    "abs (snd (feed convert cs st)) = abs (snd (convert (concat cs) st))"
  using feed_abs [OF assms(1), of cs] feed_step [OF assms(2), of "abs st"] convert_step [OF assms(1), of "concat cs"]
  by simp_all

lemma feed_ok: "ok st \<Longrightarrow> ok (snd (feed convert cs st))"
proof (induction cs arbitrary: st)
  case (Cons c cs)
  then show ?case using convert_ok [of st c] by (simp add: case_prod_beta)
qed simp

end

section \<open>The words of a converter state\<close>

lemma le_word_bytes [simp]: "le_word (le_bytes w) = w"
proof (rule bit_word_eqI)
  fix n assume "n < LENGTH(32)"
  then consider "n < 8" | "8 \<le> n" "n < 16" | "16 \<le> n" "n < 24" | "24 \<le> n" "n < 32" by fastforce
  then show "bit (le_word (le_bytes w)) n = bit w n" by cases (auto simp: le_word_def le_bytes_def bit_simps)
qed

lemma length_le_bytes [simp]: "length (le_bytes w) = 4"
  by (simp add: le_bytes_def)

definition state_ok :: "converter_state \<Rightarrow> bool" where
  "state_ok st \<longleftrightarrow> length (cs_data st) = 12"

lemma state_word_put:
  assumes "state_ok st" "i < 3" "j < 3"
  shows "state_word (put_state_word i w st) j = (if i = j then w else state_word st j)"
proof (cases "i = j")
  case False
  have "mem_read (mem_write (cs_data st) (4 * i) (le_bytes w)) (4 * j) 4 = mem_read (cs_data st) (4 * j) 4"
    using assms False
    by (intro nth_equalityI) (auto simp: state_ok_def mem_read_def nth_mem_write)
  then show ?thesis using False by (simp add: state_word_def put_state_word_def)
qed (use assms mem_read_write [of "4 * i" "le_bytes w" "cs_data st"] in
    \<open>simp add: state_word_def put_state_word_def state_ok_def\<close>)

lemma state_ok_put [simp]: "i < 3 \<Longrightarrow> state_ok st \<Longrightarrow> state_ok (put_state_word i w st)"
  by (auto simp: state_ok_def put_state_word_def mem_write_def)

lemma state_ok_upd [simp]:
  "state_ok (st\<lparr>cs_remaining := r\<rparr>) = state_ok st" "state_ok (st\<lparr>cs_invalid := n\<rparr>) = state_ok st"
  "state_ok (st\<lparr>cs_ignore_header := h\<rparr>) = state_ok st"
  "length d = 12 \<Longrightarrow> state_ok (st\<lparr>cs_data := d\<rparr>)"
  by (simp_all add: state_ok_def)

lemma state_ok_new [simp]: "state_ok converter_state_new"
  by (simp add: state_ok_def converter_state_new_def)

section \<open>The encoder of UTF-8\<close>

lemma encode_step:
  assumes "(case high of Some u \<Rightarrow> (u, x # xs) | None \<Rightarrow> (x, xs)) = (uc, src)"
  shows "utf8_encode_loop r high (x # xs) =
    (case to_utf8 uc src of
       Inr (bs, src) \<Rightarrow> (bs @ fst (utf8_encode_loop r None src), snd (utf8_encode_loop r None src))
     | Inl Utf_Error \<Rightarrow> (r # fst (utf8_encode_loop r None src),
         Suc (fst (snd (utf8_encode_loop r None src))), snd (snd (utf8_encode_loop r None src)))
     | Inl End_Of_String \<Rightarrow> ([], 0, Some uc))"
  by (simp add: assms case_prod_beta split: sum.split utf_error.split prod.split)

lemma utf8_encode_append:
  "utf8_encode_loop r high (c @ d) =
     (let (out1, n1, high1) = utf8_encode_loop r high c; (out2, n2, high2) = utf8_encode_loop r high1 d
      in (out1 @ out2, n1 + n2, high2))"
proof (induction r high c rule: utf8_encode_loop.induct)
  case (2 r high x xs)
  obtain uc src where u: "(case high of Some u \<Rightarrow> (u, x # xs) | None \<Rightarrow> (x, xs)) = (uc, src)" by fastforce
  then have u': "(case high of Some u \<Rightarrow> (u, x # (xs @ d)) | None \<Rightarrow> (x, xs @ d)) = (uc, src @ d)"
    by (auto split: option.splits)
  note s1 = encode_step [OF u, of r] and s2 = encode_step [OF u', of r]
  show ?case
  proof (cases "src = [] \<and> to_utf8 uc [] = Inl End_Of_String")
    case True
    then have "high = None" "xs = []" "uc = x" using u by (auto split: option.splits)
    then show ?thesis using True
      by (cases d) (auto simp: case_prod_beta Let_def split: sum.split utf_error.split)
  next
    case False
    have a: "to_utf8 uc (src @ d) = (case to_utf8 uc src of Inr (bs, rest) \<Rightarrow> Inr (bs, rest @ d) | Inl e \<Rightarrow> Inl e)"
      using False by (cases src) (auto simp: to_utf8_def Let_def split: if_splits)
    show ?thesis
    proof (cases "to_utf8 uc src")
      case (Inr p)
      obtain bs rest where p: "p = (bs, rest)" by fastforce
      show ?thesis using 2(2) [OF u [symmetric] refl Inr p [symmetric]]
        by (simp add: s1 s2 a Inr p case_prod_beta Let_def del: utf8_encode_loop.simps)
    next
      case (Inl e)
      have "e = Utf_Error"
        using False Inl by (cases e) (auto simp: to_utf8_def Let_def split: if_splits list.splits)
      then show ?thesis
        using 2(1) [OF u [symmetric] refl Inl] by (simp add: s1 s2 a Inl case_prod_beta Let_def del: utf8_encode_loop.simps)
    qed
  qed
qed (simp add: case_prod_beta)

text \<open>The conversions with a state that is there.\<close>

definition utf8_encoder :: "u16 list \<Rightarrow> converter_state \<Rightarrow> byte list \<times> converter_state" where
  "utf8_encoder c st = (let (out, st') = utf8_from_unicode_state c (Some st) in (out, the st'))"

definition utf8_decoder :: "byte list \<Rightarrow> converter_state \<Rightarrow> u16 list \<times> converter_state" where
  "utf8_decoder c st = (let (out, st') = utf8_to_unicode_state c (Some st) in (out, the st'))"

definition utf16_encoder :: "endianness \<Rightarrow> endianness \<Rightarrow> u16 list \<Rightarrow> converter_state \<Rightarrow> byte list \<times> converter_state" where
  "utf16_encoder host e c st = (let (out, st') = utf16_from_unicode host c (Some st) e in (out, the st'))"

definition utf16_decoder :: "endianness \<Rightarrow> endianness \<Rightarrow> byte list \<Rightarrow> converter_state \<Rightarrow> u16 list \<times> converter_state" where
  "utf16_decoder host e c st = (let (out, st') = utf16_to_unicode host c (Some st) e in (out, the st'))"

lemma ucast_unit [simp]: "ucast (ucast (u :: u16) :: u32) = u"
  by (rule bit_word_eqI) (simp add: bit_ucast_iff)

lemma put_state_word_sel [simp]:
  "cs_ignore_header (put_state_word i w st) = cs_ignore_header st"
  "cs_invalid_to_null (put_state_word i w st) = cs_invalid_to_null st"
  "cs_remaining (put_state_word i w st) = cs_remaining st"
  "cs_invalid (put_state_word i w st) = cs_invalid st"
  by (simp_all add: put_state_word_def)

lemma put_state_word_upd [simp]:
  "put_state_word i w (st\<lparr>cs_remaining := r\<rparr>) = (put_state_word i w st)\<lparr>cs_remaining := r\<rparr>"
  "put_state_word i w (st\<lparr>cs_invalid := n\<rparr>) = (put_state_word i w st)\<lparr>cs_invalid := n\<rparr>"
  "put_state_word i w (st\<lparr>cs_ignore_header := h\<rparr>) = (put_state_word i w st)\<lparr>cs_ignore_header := h\<rparr>"
  by (simp_all add: put_state_word_def)

lemma state_word_upd [simp]:
  "state_word (st\<lparr>cs_remaining := r\<rparr>) i = state_word st i"
  "state_word (st\<lparr>cs_invalid := n\<rparr>) i = state_word st i"
  "state_word (st\<lparr>cs_ignore_header := h\<rparr>) i = state_word st i"
  by (simp_all add: state_word_def)

lemma put_put_state_word [simp]:
  "state_ok st \<Longrightarrow> i < 3 \<Longrightarrow> put_state_word i v (put_state_word i w st) = put_state_word i v st"
  by (simp add: state_ok_def put_state_word_def mem_write_def)

definition enc_replacement :: "converter_state \<Rightarrow> byte" where
  "enc_replacement st = (if cs_invalid_to_null st then 0 else 63)"

definition enc_pending :: "converter_state \<Rightarrow> u16 option" where
  "enc_pending st = (if cs_remaining st \<noteq> 0 then Some (ucast (state_word st 0)) else None)"

definition enc_state :: "converter_state \<Rightarrow> nat \<Rightarrow> u16 option \<Rightarrow> converter_state" where
  "enc_state st n high =
     (let st' = st\<lparr>cs_invalid := cs_invalid st + n, cs_ignore_header := True, cs_remaining := 0\<rparr>
      in case high of None \<Rightarrow> st' | Some u \<Rightarrow> put_state_word 0 (ucast u) (st'\<lparr>cs_remaining := 1\<rparr>))"

lemma utf8_encoder_step:
  assumes "utf8_encode_loop (enc_replacement st) (enc_pending st) c = (out, n, high)"
  shows "utf8_encoder c st = ((if cs_ignore_header st then [] else utf8_bom) @ out, enc_state st n high)"
  using assms unfolding enc_replacement_def enc_pending_def
  by (cases "cs_invalid_to_null st"; cases "cs_remaining st = 0")
    (simp_all add: utf8_encoder_def utf8_from_unicode_state_def enc_state_def Let_def split: option.split)

lemma enc_state_facts:
  assumes "state_ok st"
  shows "state_ok (enc_state st n high)" "enc_pending (enc_state st n high) = high"
    "enc_replacement (enc_state st n high) = enc_replacement st" "cs_ignore_header (enc_state st n high)"
    "cs_invalid (enc_state st n high) = cs_invalid st + n"
  using assms
  by (auto simp: enc_state_def enc_pending_def enc_replacement_def Let_def state_word_put split: option.split)

text \<open>The replacement, the pending surrogate, the state of the header and the number of invalid characters.\<close>

definition utf8_enc_abs :: "converter_state \<Rightarrow> byte \<times> u16 option \<times> bool \<times> nat" where
  "utf8_enc_abs st = (enc_replacement st, enc_pending st, cs_ignore_header st, cs_invalid st)"

fun utf8_enc_step :: "u16 list \<Rightarrow> byte \<times> u16 option \<times> bool \<times> nat \<Rightarrow> byte list \<times> (byte \<times> u16 option \<times> bool \<times> nat)" where
  "utf8_enc_step c (r, high, header, n) =
     (let (out, m, high) = utf8_encode_loop r high c
      in ((if header then [] else utf8_bom) @ out, (r, high, True, n + m)))"

interpretation utf8_enc: stream_converter utf8_enc_step utf8_encoder utf8_enc_abs state_ok
proof
  fix c d t
  show "utf8_enc_step (c @ d) t = (let (out1, t1) = utf8_enc_step c t; (out2, t2) = utf8_enc_step d t1 in (out1 @ out2, t2))"
    by (cases t) (simp add: utf8_encode_append case_prod_beta Let_def add.assoc)
next
  fix st c assume st: "state_ok st"
  obtain out n high where 1: "utf8_encode_loop (enc_replacement st) (enc_pending st) c = (out, n, high)"
    using prod_cases3 by blast
  show "state_ok (snd (utf8_encoder c st))" by (simp add: utf8_encoder_step [OF 1] enc_state_facts st)
  show "utf8_enc_step c (utf8_enc_abs st) = (fst (utf8_encoder c st), utf8_enc_abs (snd (utf8_encoder c st)))"
    by (simp add: utf8_encoder_step [OF 1] enc_state_facts st utf8_enc_abs_def 1)
qed

section \<open>UTF-16\<close>

lemma utf16_decode_append:
  "utf16_decode_loop host half h e (c @ d) =
     (let (out1, half1, h1, e1) = utf16_decode_loop host half h e c; (out2, half2, h2, e2) = utf16_decode_loop host half1 h1 e1 d
      in (out1 @ out2, half2, h2, e2))"
proof (induction host half h e c rule: utf16_decode_loop.induct)
  case (3 host buf h e c chars)
  obtain ws e' where u: "utf16_unit host h e (if e = Little_Endianness then unit_of c buf else unit_of buf c) = (ws, e')"
    by fastforce
  then show ?case using 3 [OF u [symmetric] refl] by (simp only: append_Cons utf16_decode_loop.simps u) (simp add: case_prod_beta Let_def)
qed (simp_all add: case_prod_beta)

text \<open>The byte order is settled once the header is done.\<close>

definition settled :: "bool \<Rightarrow> endianness \<Rightarrow> bool" where
  "settled h e \<longleftrightarrow> h \<longrightarrow> e \<noteq> Detect_Endianness"

lemma utf16_unit_settled: "settled h e \<Longrightarrow> host \<noteq> Detect_Endianness \<Longrightarrow> snd (utf16_unit host h e ch) \<noteq> Detect_Endianness"
  "e \<noteq> Detect_Endianness \<Longrightarrow> snd (utf16_unit host h e ch) = e"
  by (auto simp: utf16_unit_def settled_def)

lemma utf16_decode_settled:
  assumes "host \<noteq> Detect_Endianness" "utf16_decode_loop host half h e c = (out, half', h', e')"
  shows "settled h e \<Longrightarrow> settled h' e'" "h \<Longrightarrow> h'" "e \<noteq> Detect_Endianness \<Longrightarrow> e' = e"
proof -
  have "(settled h e \<longrightarrow> settled h' e') \<and> (h \<longrightarrow> h') \<and> (e \<noteq> Detect_Endianness \<longrightarrow> e' = e)"
    using assms
  proof (induction host half h e c arbitrary: out rule: utf16_decode_loop.induct)
    case (3 host buf h e c chars)
    obtain ws e1 where u: "utf16_unit host h e (if e = Little_Endianness then unit_of c buf else unit_of buf c) = (ws, e1)"
      by fastforce
    obtain out2 where l: "utf16_decode_loop host None True e1 chars = (out2, half', h', e')"
      using 3(3) by (simp only: utf16_decode_loop.simps u) (auto simp: Let_def split: prod.splits)
    define ch where "ch = (if e = Little_Endianness then unit_of c buf else unit_of buf c)"
    have "e1 = snd (utf16_unit host h e ch)" using u by (simp add: ch_def)
    then have "settled h e \<Longrightarrow> e1 \<noteq> Detect_Endianness" "e \<noteq> Detect_Endianness \<Longrightarrow> e1 = e"
      using utf16_unit_settled(1) [of h e host ch] utf16_unit_settled(2) [of e host h ch] 3(2) by simp_all
    then show ?case using 3(1) [OF u [symmetric] refl 3(2) l] by (auto simp: settled_def)
  qed auto
  then show "settled h e \<Longrightarrow> settled h' e'" "h \<Longrightarrow> h'" "e \<noteq> Detect_Endianness \<Longrightarrow> e' = e" by blast+
qed

lemma endian_of_code [simp]: "endian_of (endian_code e) = e"
  by (cases e) (simp_all add: endian_of_def)

lemma ucast_byte_word [simp]: "ucast (ucast (b :: byte) :: u32) = b"
  by (rule bit_word_eqI) (simp add: bit_ucast_iff)

text \<open>The half unit, the state of the header and the byte order of a state.\<close>

definition utf16_abs :: "endianness \<Rightarrow> endianness \<Rightarrow> converter_state \<Rightarrow> byte option \<times> bool \<times> endianness" where
  "utf16_abs host e st =
     (let endian = (if e = Detect_Endianness then endian_of (state_word st 0) else e)
      in (if cs_remaining st \<noteq> 0 then Some (ucast (state_word st 1)) else None, cs_ignore_header st,
          if cs_ignore_header st then resolve_endian host endian else endian))"

fun utf16_step :: "endianness \<Rightarrow> byte list \<Rightarrow> byte option \<times> bool \<times> endianness \<Rightarrow> u16 list \<times> byte option \<times> bool \<times> endianness" where
  "utf16_step host c (half, h, e) = utf16_decode_loop host half h e c"

lemma utf16_step_append:
  "utf16_step host (c @ d) t = (let (out1, t1) = utf16_step host c t; (out2, t2) = utf16_step host d t1 in (out1 @ out2, t2))"
proof (cases t)
  case (fields half h e)
  obtain out1 half1 h1 e1 where "utf16_decode_loop host half h e c = (out1, half1, h1, e1)" using prod_cases4 by blast
  then show ?thesis by (simp add: fields utf16_decode_append case_prod_beta Let_def)
qed

lemma utf16_decoder_step:
  assumes "host \<noteq> Detect_Endianness" "state_ok st"
  shows "state_ok (snd (utf16_decoder host e c st))"
    "utf16_step host c (utf16_abs host e st) = (fst (utf16_decoder host e c st), utf16_abs host e (snd (utf16_decoder host e c st)))"
proof -
  obtain half h e0 where a: "utf16_abs host e st = (half, h, e0)" using prod_cases3 by blast
  obtain out half' h' e' where l: "utf16_decode_loop host half h e0 c = (out, half', h', e')" using prod_cases4 by blast
  define st' where "st' = put_state_word 1 (case half' of None \<Rightarrow> 0 | Some buf \<Rightarrow> ucast buf)
      (put_state_word 0 (endian_code e')
        (st\<lparr>cs_ignore_header := cs_ignore_header st \<or> h', cs_remaining := (if half' = None then 0 else 1)\<rparr>))"
  have d: "utf16_decoder host e c st = (out, st')"
    using a l by (auto simp: utf16_decoder_def utf16_to_unicode_def utf16_abs_def Let_def st'_def)
  show "state_ok (snd (utf16_decoder host e c st))" using assms(2) by (simp add: d st'_def)
  have h: "h = cs_ignore_header st" and e0: "e0 = (let endian = (if e = Detect_Endianness then endian_of (state_word st 0) else e)
      in if h then resolve_endian host endian else endian)"
    using a by (auto simp: utf16_abs_def Let_def)
  have s: "settled h e0" using assms(1) by (auto simp: settled_def e0 resolve_endian_def Let_def)
  note t = utf16_decode_settled [OF assms(1) l]
  have w: "state_word st' 0 = endian_code e'" "state_word st' 1 = (case half' of None \<Rightarrow> 0 | Some buf \<Rightarrow> ucast buf)"
    using assms(2) by (simp_all add: st'_def state_word_put)
  have "(if e = Detect_Endianness then e' else e) = e'"
    using t(3) assms(1) by (auto simp: e0 resolve_endian_def Let_def split: if_splits)
  moreover have "h' \<Longrightarrow> resolve_endian host e' = e'" using t(1) [OF s] by (auto simp: settled_def resolve_endian_def)
  moreover have "cs_ignore_header st' = h'" using t(2) by (auto simp: st'_def h)
  moreover have "cs_remaining st' = (if half' = None then 0 else 1)" by (simp add: st'_def)
  ultimately have "utf16_abs host e st' = (half', h', e')"
    by (auto simp: utf16_abs_def w w [unfolded One_nat_def] Let_def split: option.split)
  then show "utf16_step host c (utf16_abs host e st)
      = (fst (utf16_decoder host e c st), utf16_abs host e (snd (utf16_decoder host e c st)))"
    by (simp add: a l d)
qed

interpretation utf16_big: stream_converter "utf16_step Big_Endianness" "utf16_decoder Big_Endianness e"
  "utf16_abs Big_Endianness e" state_ok for e
  by unfold_locales (simp_all add: utf16_step_append utf16_decoder_step)

interpretation utf16_little: stream_converter "utf16_step Little_Endianness" "utf16_decoder Little_Endianness e"
  "utf16_abs Little_Endianness e" state_ok for e
  by unfold_locales (simp_all add: utf16_step_append utf16_decoder_step)

lemma utf16_encoder_eq:
  "utf16_encoder host e c st =
    ((if cs_ignore_header st then [] else unit_bytes (resolve_endian host e) 0xfeff)
       @ concat (map (unit_bytes (resolve_endian host e)) c), st\<lparr>cs_remaining := 0, cs_ignore_header := True\<rparr>)"
  by (simp add: utf16_encoder_def utf16_from_unicode_def writes_header_def header_written_def Let_def)

fun utf16_enc_step :: "endianness \<Rightarrow> u16 list \<Rightarrow> bool \<Rightarrow> byte list \<times> bool" where
  "utf16_enc_step endian c header = ((if header then [] else unit_bytes endian 0xfeff) @ concat (map (unit_bytes endian) c), True)"

interpretation utf16_enc: stream_converter "utf16_enc_step (resolve_endian host e)" "utf16_encoder host e" cs_ignore_header
  "\<lambda>st. True" for host e
  by unfold_locales (simp_all add: utf16_encoder_eq)

lemma unit_of_bytes [simp]: "unit_of (ucast (drop_bit 8 u)) (ucast (u AND 0xff)) = u"
proof -
  have "(0xff :: u16) = mask 8" by (simp add: mask_eq_exp_minus_1)
  then have a: "u AND 0xff = take_bit 8 u" by (simp only: take_bit_eq_mask)
  show ?thesis unfolding a
  proof (rule bit_word_eqI)
    fix n assume "n < LENGTH(16)"
    then show "bit (unit_of (ucast (drop_bit 8 u)) (ucast (take_bit 8 u))) n = bit u n"
      by (cases "n < 8") (auto simp: unit_of_def bit_simps)
  qed
qed

lemma utf16_decode_units:
  assumes "e \<noteq> Detect_Endianness"
  shows "utf16_decode_loop host None True e (concat (map (unit_bytes e) u)) = (u, None, True, e)"
proof (induction u)
  case (Cons w u)
  obtain a b where "unit_bytes e w = [a, b]" "(if e = Little_Endianness then unit_of b a else unit_of a b) = w"
    by (cases "e = Big_Endianness") (use assms in \<open>auto simp: unit_bytes_def\<close>, cases e, auto)
  then show ?case using Cons by (simp add: utf16_unit_def)
qed simp

lemma utf16_decode_header:
  assumes "b \<noteq> Detect_Endianness" "e = b \<or> e = Detect_Endianness"
  shows "utf16_decode_loop host None False e (unit_bytes b 0xfeff @ rest) = utf16_decode_loop host None True b rest"
proof -
  have "(ucast (0xfeff AND 0xff :: u16) :: byte) = 0xff" "(ucast (drop_bit 8 0xfeff :: u16) :: byte) = 0xfe" by simp_all
  moreover have "unit_of 0xfe 0xff = 0xfeff" "unit_of 0xff 0xfe = 0xfffe" by (simp_all add: unit_of_def)
  ultimately show ?thesis
    using assms by (cases b) (auto simp: unit_bytes_def utf16_unit_def case_prod_beta)
qed

section \<open>The decoder of UTF-8 on encoded text\<close>

text \<open>The bytes kept from a character that has not ended, before the text \<open>cs\<close>.\<close>

definition unfinished :: "byte list \<Rightarrow> nat list \<Rightarrow> bool" where
  "unfinished p cs \<longleftrightarrow> p = [] \<or> (\<exists>c cs' q. cs = c # cs' \<and> utf8_of c = p @ q \<and> q \<noteq> [])"

lemma split_encoded:
  assumes "src @ rest = concat (map utf8_of cs)"
  obtains cs1 cs2 p where "cs = cs1 @ cs2" "src = concat (map utf8_of cs1) @ p" "unfinished p cs2"
    "p @ rest = concat (map utf8_of cs2)"
  using assms
proof (induction cs arbitrary: src thesis)
  case Nil
  then show ?case using Nil(1) [of "[]" "[]" "[]"] by (simp add: unfinished_def)
next
  case (Cons c cs)
  show ?case
  proof (cases "length (utf8_of c) \<le> length src")
    case True
    define src' where "src' = drop (length (utf8_of c)) src"
    have "take (length (utf8_of c)) src = utf8_of c"
      using arg_cong [OF Cons.prems(2), of "take (length (utf8_of c))"] True by simp
    then have s: "src = utf8_of c @ src'" using append_take_drop_id [of "length (utf8_of c)" src] by (simp add: src'_def)
    then have "src' @ rest = concat (map utf8_of cs)" using Cons.prems(2) by simp
    from Cons.IH [OF _ this] obtain cs1 cs2 p where i: "cs = cs1 @ cs2" "src' = concat (map utf8_of cs1) @ p" "unfinished p cs2"
      "p @ rest = concat (map utf8_of cs2)" by blast
    show ?thesis using Cons.prems(1) [of "c # cs1" cs2 p] i s by simp
  next
    case False
    then obtain q where "src @ q = utf8_of c" using Cons.prems(2) by (auto simp: append_eq_append_conv2)
    then have q: "utf8_of c = src @ q" "q \<noteq> []" using False by auto
    show ?thesis using Cons.prems(1) [of "[]" "c # cs" src] Cons.prems(2) q by (auto simp: unfinished_def)
  qed
qed

text \<open>What is left of a text when a byte order mark at its start is dropped.\<close>

definition strip_mark :: "bool \<Rightarrow> nat list \<Rightarrow> nat list" where
  "strip_mark h cs = (if \<not> h \<and> cs \<noteq> [] \<and> hd cs = 0xfeff then tl cs else cs)"

lemma utf16_of_mark: "scalar c \<Longrightarrow> last (utf16_of c) = 0xfeff \<longleftrightarrow> c = 0xfeff"
proof (cases "c < 0x10000")
  case True
  then have "unat (of_nat c :: u16) = c" by (intro unat_small) simp
  then show ?thesis using True by (simp add: utf16_of_cases word_unat_eq_iff)
next
  case False
  have "(of_nat (0xdc00 + (c - 0x10000) mod 1024) :: u16) \<noteq> 0xfeff"
  proof -
    have "(c - 0x10000) mod 1024 < 1024" by simp
    then have "unat (of_nat (0xdc00 + (c - 0x10000) mod 1024) :: u16) = 0xdc00 + (c - 0x10000) mod 1024" by (intro unat_small) simp
    moreover have "0xdc00 + (c - 0x10000) mod 1024 < 0xfeff" using \<open>(c - 0x10000) mod 1024 < 1024\<close> by simp
    ultimately show ?thesis by (auto simp: word_unat_eq_iff simp del: of_nat_add)
  qed
  then show ?thesis using False by (simp add: utf16_of_cases)
qed

lemma utf16_of_not_Nil [simp]: "utf16_of c \<noteq> []"
  by (simp add: utf16_of_def)

lemma utf8_main_char:
  assumes "scalar c" "\<not> h \<Longrightarrow> pos = 0"
  shows "utf8_main_loop r h pos (utf8_of c @ src) =
    (let (out, h', n, pending) = utf8_main_loop r True (pos + length (utf8_of c)) src
     in (concat (map utf16_of (strip_mark h [c])) @ out, h', n, pending))"
proof -
  obtain b ts where b: "utf8_of c = b # ts" using utf8_of_not_Nil by (cases "utf8_of c") blast
  have f: "from_utf8 b (ts @ src) = Inr (utf16_of c, Suc (length ts))" using from_utf8_of [OF assms(1), of src] b by simp
  have m: "(if \<not> h \<and> pos + Suc (length ts) = 3 \<and> last (utf16_of c) = 0xfeff then butlast (utf16_of c) else utf16_of c)
      = concat (map utf16_of (strip_mark h [c]))"
  proof (cases "c = 0xfeff")
    case True
    then have "length ts = 2" "utf16_of c = [0xfeff]" using b by (auto simp: utf8_of_cases utf16_of_cases)
    then show ?thesis using assms(2) True by (auto simp: strip_mark_def)
  next
    case False
    then show ?thesis using utf16_of_mark [OF assms(1)] by (simp add: strip_mark_def)
  qed
  have "utf8_main_loop r h pos (b # (ts @ src)) =
    (let (out, h', n, pending) = utf8_main_loop r True (pos + Suc (length ts)) src
     in ((if \<not> h \<and> pos + Suc (length ts) = 3 \<and> last (utf16_of c) = 0xfeff then butlast (utf16_of c) else utf16_of c) @ out, h', n, pending))"
    by (simp only: utf8_main_loop.simps f) (simp add: case_prod_beta Let_def)
  then show ?thesis unfolding m by (simp add: b)
qed

lemma utf8_main_encoded:
  assumes "list_all scalar cs1" "list_all scalar cs2" "unfinished p cs2" "\<not> h \<Longrightarrow> pos = 0"
  shows "utf8_main_loop r h pos (concat (map utf8_of cs1) @ p) =
    (concat (map utf16_of (strip_mark h cs1)), h \<or> cs1 \<noteq> [], 0, if p = [] then None else Some p)"
  using assms(1,4)
proof (induction cs1 arbitrary: h pos)
  case Nil
  show ?case
  proof (cases p)
    case (Cons b ts)
    then obtain c cs' q where "cs2 = c # cs'" "utf8_of c = b # ts @ q" "q \<noteq> []"
      using assms(3) by (auto simp: unfinished_def)
    then have "from_utf8 b ts = Inl End_Of_String" using from_utf8_partial [of c b ts q] assms(2) by simp
    then show ?thesis using Cons by (simp add: strip_mark_def)
  qed (simp add: strip_mark_def)
next
  case (Cons c cs1)
  have "strip_mark True cs1 = cs1" by (simp add: strip_mark_def)
  then have "utf8_main_loop r True (pos + length (utf8_of c)) (concat (map utf8_of cs1) @ p)
      = (concat (map utf16_of cs1), True, 0, if p = [] then None else Some p)"
    using Cons.IH [of True "pos + length (utf8_of c)"] Cons.prems by simp
  moreover have "concat (map utf16_of (strip_mark h (c # cs1))) = concat (map utf16_of (strip_mark h [c])) @ concat (map utf16_of cs1)"
    by (simp add: strip_mark_def)
  ultimately show ?case using utf8_main_char [of c h pos r "concat (map utf8_of cs1) @ p"] Cons.prems by simp
qed

text \<open>The state in which the decoder has kept the bytes \<open>p\<close>.\<close>

definition pending :: "byte list \<Rightarrow> converter_state \<Rightarrow> bool" where
  "pending p st \<longleftrightarrow> state_ok st \<and> cs_remaining st = length p \<and> mem_read (cs_data st) 0 (length p) = p"

lemma unfinished_length: "unfinished p cs \<Longrightarrow> list_all scalar cs \<Longrightarrow> length p \<le> 3"
proof (cases p)
  case (Cons b ts)
  assume "unfinished p cs" "list_all scalar cs"
  then obtain c cs' q where "cs = c # cs'" "utf8_of c = b # ts @ q" "q \<noteq> []" "scalar c"
    using Cons by (auto simp: unfinished_def)
  then have "length (ts @ q) \<le> 3" using utf8_of_shape(3) by blast
  then show ?thesis using Cons \<open>q \<noteq> []\<close> by (cases q) auto
qed simp

lemma pending_store:
  assumes "state_ok st" "length p \<le> 12"
  shows "pending p (st\<lparr>cs_remaining := length p, cs_data := mem_write (cs_data st) 0 p\<rparr>)"
  using assms mem_read_write [of 0 p "cs_data st"] by (simp add: pending_def state_ok_def)

definition dec_replacement :: "converter_state \<Rightarrow> u16" where
  "dec_replacement st = (if cs_invalid_to_null st then 0 else 0xfffd)"

lemma utf8_decoder_main:
  assumes "utf8_resume (dec_replacement st) c st = Inr (out1, h1, n1, src)"
    "utf8_main_loop (dec_replacement st) h1 0 src = (out2, h2, n2, rest)"
  shows "utf8_decoder c st = (out1 @ out2,
    (let st' = st\<lparr>cs_invalid := cs_invalid st + n1 + n2, cs_ignore_header := cs_ignore_header st \<or> h2\<rparr>
     in case rest of None \<Rightarrow> st'\<lparr>cs_remaining := 0\<rparr>
        | Some p \<Rightarrow> st'\<lparr>cs_remaining := length p, cs_data := mem_write (cs_data st') 0 p\<rparr>))"
  using assms unfolding dec_replacement_def
  by (simp add: utf8_decoder_def utf8_to_unicode_state_def Let_def split: option.split)

lemma append_eq_longer:
  assumes "c @ r = q @ x" "length q \<le> length c"
  obtains c' where "c = q @ c'" "c' @ r = x"
  using assms by (auto simp: append_eq_append_conv2)

text \<open>One call on a piece of an encoded text.\<close>

lemma utf8_decoder_piece:
  assumes "list_all scalar cs" "unfinished p cs" "pending p st" "p @ c @ rest = concat (map utf8_of cs)" "c \<noteq> []"
  obtains cs1 cs2 p' st' where "cs = cs1 @ cs2" "unfinished p' cs2" "p' @ rest = concat (map utf8_of cs2)"
    "utf8_decoder c st = (concat (map utf16_of (strip_mark (cs_ignore_header st) cs1)), st')" "pending p' st'"
    "cs_ignore_header st' = (cs_ignore_header st \<or> cs1 \<noteq> [])" "cs_invalid st' = cs_invalid st"
proof -
  note result = that
  let ?h = "cs_ignore_header st" and ?r = "dec_replacement st"
  have st: "state_ok st" "cs_remaining st = length p" "mem_read (cs_data st) 0 (length p) = p"
    using assms(3) by (simp_all add: pending_def)
  have main: thesis
    if "cs = cs0 @ cs'" "src @ rest = concat (map utf8_of cs')" "h1 = (?h \<or> cs0 \<noteq> [])"
      "utf8_resume ?r c st = Inr (concat (map utf16_of (strip_mark ?h cs0)), h1, 0, src)"
    for cs0 cs' src h1
  proof -
    from split_encoded [OF that(2)] obtain cs1 cs2 p' where
      s: "cs' = cs1 @ cs2" "src = concat (map utf8_of cs1) @ p'" "unfinished p' cs2" "p' @ rest = concat (map utf8_of cs2)"
      by blast
    have sc: "list_all scalar cs1" "list_all scalar cs2" using assms(1) that(1) s(1) by simp_all
    define st' where "st' = (let st' = st\<lparr>cs_ignore_header := ?h \<or> h1 \<or> cs1 \<noteq> []\<rparr>
      in if p' = [] then st'\<lparr>cs_remaining := 0\<rparr> else st'\<lparr>cs_remaining := length p', cs_data := mem_write (cs_data st') 0 p'\<rparr>)"
    have d: "utf8_decoder c st = (concat (map utf16_of (strip_mark ?h cs0)) @ concat (map utf16_of (strip_mark h1 cs1)), st')"
      using utf8_decoder_main [OF that(4), folded s(2)] utf8_main_encoded [OF sc s(3), of h1 0 ?r]
      by (simp add: s(2) st'_def Let_def)
    have m: "concat (map utf16_of (strip_mark ?h cs0)) @ concat (map utf16_of (strip_mark h1 cs1))
        = concat (map utf16_of (strip_mark ?h (cs0 @ cs1)))"
      using that(3) by (cases "cs0 = []") (auto simp: strip_mark_def)
    have "length p' \<le> 12" using unfinished_length [OF s(3) sc(2)] by simp
    then have "pending p' st'"
      using st(1) pending_store [of "st\<lparr>cs_ignore_header := ?h \<or> h1 \<or> cs1 \<noteq> []\<rparr>" p']
      by (auto simp: st'_def Let_def pending_def mem_read_def)
    moreover have "cs_ignore_header st' = (?h \<or> cs0 @ cs1 \<noteq> [])" "cs_invalid st' = cs_invalid st"
      using that(3) by (auto simp: st'_def Let_def)
    ultimately show thesis
      using result [of "cs0 @ cs1" cs2 p' st'] d m that(1) s by simp
  qed
  show thesis
  proof (cases "p = []")
    case True
    then show thesis using main [of "[]" cs c ?h] assms(4) st(2) by (simp add: utf8_resume_def strip_mark_def)
  next
    case False
    then obtain x cs' q where x: "cs = x # cs'" "utf8_of x = p @ q" "q \<noteq> []" "scalar x"
      using assms(1,2) by (auto simp: unfinished_def)
    obtain b ts where p: "p = b # ts" using False by (cases p) auto
    have len: "length ts + length q \<le> 3" using utf8_of_shape(3) [OF x(4), of b "ts @ q"] x(2) p by simp
    have q: "c @ rest = q @ concat (map utf8_of cs')" using assms(4) x by simp
    let ?new = "min (4 - length p) (length c)"
    let ?buf = "p @ take ?new c"
    have buf: "hd ?buf = b" "tl ?buf = ts @ take ?new c" by (simp_all add: p)
    show thesis
    proof (cases "length c < length q")
      case True
      then have "length c \<le> length q" by simp
      from append_eq_longer [OF q [symmetric] this] obtain q' where "q = c @ q'" by blast
      then have q': "q = c @ q'" "q' \<noteq> []" using True by auto
      have new: "?new = length c" using len p q' by (cases q') auto
      have e: "from_utf8 b (ts @ c) = Inl End_Of_String"
        using from_utf8_partial [of x b "ts @ c" q'] x p q' by simp
      define st' where "st' = st\<lparr>cs_remaining := length (p @ c), cs_data := mem_write (cs_data st) 0 (p @ c)\<rparr>"
      have "utf8_resume ?r c st = Inl st'"
        using False assms(5) st e new p by (simp add: utf8_resume_def Let_def st'_def)
      then have d: "utf8_decoder c st = ([], st')"
        unfolding dec_replacement_def by (simp add: utf8_decoder_def utf8_to_unicode_state_def Let_def)
      have "length (p @ c) \<le> 12" using len p q' by simp
      then have "pending (p @ c) st'" unfolding st'_def by (rule pending_store [OF st(1)])
      moreover have "unfinished (p @ c) cs" using x q' by (auto simp: unfinished_def)
      ultimately show thesis
        using result [of "[]" cs "p @ c" st'] d assms(4) by (simp add: strip_mark_def st'_def)
    next
      case False
      then have "length q \<le> length c" by simp
      from append_eq_longer [OF q this] obtain c' where c': "c = q @ c'" "c' @ rest = concat (map utf8_of cs')" by blast
      have "length q \<le> ?new" using len c' p by auto
      then have more: "take ?new c = q @ take (?new - length q) c'" using c'(1) by simp
      then have "from_utf8 b (ts @ take ?new c) = Inr (utf16_of x, length (utf8_of x))"
        using from_utf8_of [OF x(4), of "take (?new - length q) c'"] x(2) p unfolding more by simp
      moreover have "drop (length (utf8_of x) - length p) c = c'" using x(2) c'(1) by simp
      moreover have "(if \<not> ?h \<and> last (utf16_of x) = 0xfeff then butlast (utf16_of x) else utf16_of x)
          = concat (map utf16_of (strip_mark ?h [x]))"
        using utf16_of_mark [OF x(4)] by (auto simp: strip_mark_def utf16_of_cases)
      ultimately have "utf8_resume ?r c st = Inr (concat (map utf16_of (strip_mark ?h [x])), True, 0, c')"
        using \<open>p \<noteq> []\<close> st buf by (simp add: utf8_resume_def Let_def)
      then show thesis using main [of "[x]" cs' c' True] x c'(2) by simp
    qed
  qed
qed

text \<open>All the pieces.\<close>

lemma utf8_decoder_pieces:
  assumes "list_all scalar cs" "unfinished p cs" "pending p st" "p @ concat pieces = concat (map utf8_of cs)" "[] \<notin> set pieces"
  shows "fst (feed utf8_decoder pieces st) = concat (map utf16_of (strip_mark (cs_ignore_header st) cs))
    \<and> pending [] (snd (feed utf8_decoder pieces st)) \<and> cs_invalid (snd (feed utf8_decoder pieces st)) = cs_invalid st"
  using assms
proof (induction pieces arbitrary: cs p st)
  case Nil
  have "cs = []"
  proof (rule ccontr)
    assume "cs \<noteq> []"
    then obtain c cs' where c: "cs = c # cs'" by (cases cs) auto
    with Nil.prems(2,4) show False by (auto simp: unfinished_def)
  qed
  then show ?case using Nil.prems by (simp add: strip_mark_def)
next
  case (Cons piece pieces)
  from Cons.prems have "p @ piece @ concat pieces = concat (map utf8_of cs)" "piece \<noteq> []" by auto
  from utf8_decoder_piece [OF Cons.prems(1-3) this] obtain cs1 cs2 p' st' where
    n: "cs = cs1 @ cs2" "unfinished p' cs2" "p' @ concat pieces = concat (map utf8_of cs2)"
      "utf8_decoder piece st = (concat (map utf16_of (strip_mark (cs_ignore_header st) cs1)), st')" "pending p' st'"
      "cs_ignore_header st' = (cs_ignore_header st \<or> cs1 \<noteq> [])" "cs_invalid st' = cs_invalid st" by blast
  have m: "concat (map utf16_of (strip_mark (cs_ignore_header st) cs1)) @ concat (map utf16_of (strip_mark (cs_ignore_header st') cs2))
      = concat (map utf16_of (strip_mark (cs_ignore_header st) cs))"
    unfolding n(1,6) by (cases "cs1 = []") (simp_all add: strip_mark_def)
  show ?case
    using Cons.IH [OF _ n(2,5,3)] Cons.prems(1,5) m by (simp add: n(1,4,7) case_prod_beta)
qed

lemma utf8_encode_text:
  "list_all scalar cs \<Longrightarrow> utf8_encode_loop r None (concat (map utf16_of cs)) = (concat (map utf8_of cs), 0, None)"
proof (induction cs)
  case (Cons c cs)
  show ?case
  proof (cases "c < 0x10000")
    case True
    then have "to_utf8 (of_nat c) (concat (map utf16_of cs)) = Inr (utf8_of c, concat (map utf16_of cs))"
      using to_utf8_unit Cons.prems by simp
    then show ?thesis using Cons True by (simp add: utf16_of_cases)
  next
    case False
    then obtain h l where hl: "utf16_of c = [h, l]" by (simp add: utf16_of_cases)
    then have "to_utf8 h (l # concat (map utf16_of cs)) = Inr (utf8_of c, concat (map utf16_of cs))"
      using to_utf8_pair [of c h l] Cons.prems False by simp
    then show ?thesis using Cons by (simp add: hl)
  qed
qed simp

lemma utf8_bom_of: "utf8_bom = utf8_of 0xfeff"
  by (simp add: utf8_bom_def utf8_of_cases)

lemma scalar_mark [simp]: "scalar 0xfeff"
  by (simp add: scalar_def)

section \<open>Sizes\<close>

lemma length_utf16_of: "length (utf16_of c) \<le> length (utf8_of c)" "length (utf16_of c) \<le> 2" "length (utf8_of c) \<le> 4"
    "length (utf8_of c) < 4 \<Longrightarrow> length (utf16_of c) = 1"
  by (auto simp: utf16_of_def utf8_of_def split: if_splits)

lemma from_utf8_length:
  assumes "from_utf8 b src = Inr (us, n)"
  shows "length us \<le> n" "n \<le> Suc (length src)" "1 \<le> n" "length us \<le> 2" "n < 4 \<Longrightarrow> length us = 1" "n \<le> 4"
proof -
  obtain c where c: "b # take (n - 1) src = utf8_of c" "us = utf16_of c" "n = length (utf8_of c)"
    using from_utf8_accepts [OF assms] by blast
  from arg_cong [OF c(1), of length] c(3) have "Suc (min (length src) (n - 1)) = n" by simp
  then show "length us \<le> n" "n \<le> Suc (length src)" "1 \<le> n" "length us \<le> 2" "n < 4 \<Longrightarrow> length us = 1" "n \<le> 4"
    using length_utf16_of [of c] c(2,3) by auto
qed

lemma utf8_main_length: "length (fst (utf8_main_loop r h pos src)) \<le> length src"
proof (induction r h pos src rule: utf8_main_loop.induct)
  case (2 r h pos ch src)
  show ?case
  proof (cases "from_utf8 ch src")
    case (Inl e)
    then show ?thesis using 2(1) [of e] Inl by (cases e) (simp_all add: case_prod_beta)
  next
    case (Inr p)
    obtain us n where p: "p = (us, n)" by fastforce
    define us' where "us' = (if \<not> h \<and> pos + n = 3 \<and> last us = 0xfeff then butlast us else us)"
    have "length us' \<le> length us" by (simp add: us'_def)
    then show ?thesis
      using 2(2) [OF Inr p [symmetric] us'_def] from_utf8_length [OF Inr [unfolded p]] Inr p
      by (auto simp: case_prod_beta Let_def)
  qed
qed simp

lemma utf8_decode_length: "length (utf8_decode_loop src) \<le> length src"
proof (induction src rule: utf8_decode_loop.induct)
  case (2 b src)
  show ?case
  proof (cases "from_utf8 b src")
    case (Inr p)
    obtain us n where p: "p = (us, n)" by fastforce
    then show ?thesis using 2(2) [OF Inr p [symmetric]] from_utf8_length [OF Inr [unfolded p]] Inr by simp
  qed (use 2(1) in simp)
qed simp

lemma to_utf8_length:
  assumes "to_utf8 u src = Inr (bs, rest)"
  shows "length bs + 3 * length rest \<le> 3 + 3 * length src"
    "is_surrogate (ucast u) \<Longrightarrow> length bs = 4 \<and> Suc (length rest) = length src"
proof -
  show "length bs + 3 * length rest \<le> 3 + 3 * length src"
    using assms by (auto simp: to_utf8_def Let_def split: if_splits list.splits)
  assume "is_surrogate (ucast u)"
  moreover from this have "\<not> u < 0x80" "\<not> u < 0x800" by (auto simp: unit_surrogates word_less_nat_alt)
  ultimately show "length bs = 4 \<and> Suc (length rest) = length src"
    using assms by (auto simp: to_utf8_def Let_def split: if_splits list.splits)
qed

lemma utf8_encode_length_None: "high = None \<Longrightarrow> length (fst (utf8_encode_loop r high src)) \<le> 3 * length src"
proof (induction r high src rule: utf8_encode_loop.induct)
  case (2 r high x xs)
  have c: "(case high of Some u \<Rightarrow> (u, x # xs) | None \<Rightarrow> (x, xs)) = (x, xs)" using 2(3) by simp
  note s = encode_step [OF c, of r]
  show ?case
  proof (cases "to_utf8 x xs")
    case (Inl e)
    then show ?thesis using 2(1) [OF c [symmetric] refl Inl] Inl by (cases e) (simp_all add: s del: utf8_encode_loop.simps)
  next
    case (Inr p)
    obtain bs rest where p: "p = (bs, rest)" by fastforce
    then show ?thesis
      using 2(2) [OF c [symmetric] refl Inr p [symmetric] refl] to_utf8_length(1) [OF Inr [unfolded p]]
      by (simp add: s Inr p del: utf8_encode_loop.simps)
  qed
qed simp

lemma utf8_encode_length:
  assumes "\<And>u. high = Some u \<Longrightarrow> is_surrogate (ucast u)"
  shows "length (fst (utf8_encode_loop r high src)) \<le> 3 * length src + (if high = None then 0 else 1)"
proof (cases high)
  case (Some u)
  show ?thesis
  proof (cases src)
    case (Cons x xs)
    have c: "(case high of Some u \<Rightarrow> (u, x # xs) | None \<Rightarrow> (x, xs)) = (u, x # xs)" using Some by simp
    note s = encode_step [OF c, of r, unfolded Some]
    show ?thesis
    proof (cases "to_utf8 u (x # xs)")
      case (Inl e)
      then show ?thesis using utf8_encode_length_None [of None r "x # xs"] Some Cons by (cases e) (simp_all add: s del: utf8_encode_loop.simps)
    next
      case (Inr p)
      obtain bs rest where p: "p = (bs, rest)" by fastforce
      show ?thesis
        using to_utf8_length(2) [OF Inr [unfolded p]] assms [OF Some] utf8_encode_length_None [of None r rest] Some Cons Inr p
        by (auto simp: s case_prod_beta simp del: utf8_encode_loop.simps)
    qed
  qed simp
qed (use utf8_encode_length_None in simp)

lemma utf8_from_unicode_length: "length (utf8_from_unicode src) \<le> 3 * length src"
proof (induction src rule: utf8_from_unicode.induct)
  case (2 u src)
  show ?case
  proof (cases "to_utf8 u src")
    case (Inr p)
    obtain bs rest where p: "p = (bs, rest)" by fastforce
    then show ?thesis
      using 2(2) [OF Inr p [symmetric]] to_utf8_length(1) [OF Inr [unfolded p]] Inr by simp
  qed (use 2(1) in simp)
qed simp

section \<open>Properties\<close>

text \<open>C29: One step of the UTF-8 decoder succeeds on a sequence exactly when the sequence starts with the UTF-8 encoding
  form of a code point that the codecs let through, and then it writes the UTF-16 encoding form of that code point and
  consumes the bytes of its encoding form: no overlong form, no truncated form and no surrogate is accepted.\<close>

theorem utf8_decoder_exact:
  "from_utf8 b src = Inr (us, n) \<longleftrightarrow>
    (\<exists>c. scalar c \<and> prefix (utf8_of c) (b # src) \<and> us = utf16_of c \<and> n = length (utf8_of c))"
proof
  assume "from_utf8 b src = Inr (us, n)"
  from from_utf8_accepts [OF this] obtain c where
    c: "scalar c" "b # take (n - 1) src = utf8_of c" "us = utf16_of c" "n = length (utf8_of c)" by blast
  have "prefix (utf8_of c) (b # src)" unfolding c(2) [symmetric] by (simp add: take_is_prefix)
  then show "\<exists>c. scalar c \<and> prefix (utf8_of c) (b # src) \<and> us = utf16_of c \<and> n = length (utf8_of c)" using c by blast
next
  assume "\<exists>c. scalar c \<and> prefix (utf8_of c) (b # src) \<and> us = utf16_of c \<and> n = length (utf8_of c)"
  then obtain c rest where c: "scalar c" "b # src = utf8_of c @ rest" "us = utf16_of c" "n = length (utf8_of c)"
    by (auto simp: prefix_def)
  then have "b = hd (utf8_of c)" "src = tl (utf8_of c) @ rest" by (cases "utf8_of c"; simp)+
  then show "from_utf8 b src = Inr (us, n)" using from_utf8_of [OF c(1)] c(3,4) by simp
qed

text \<open>C28: A text of code points that the codecs let through, encoded to UTF-8 in pieces cut at any place, even within a
  surrogate pair, and decoded from pieces cut at any place, even within a character, is the same text: the state carries
  the unfinished characters, and the byte order mark that the encoder writes is the one the decoder drops.\<close>

theorem utf8_stream_round_trip:
  assumes "list_all scalar cs" "concat texts = concat (map utf16_of cs)" "texts \<noteq> []"
    "concat pieces = fst (feed utf8_encoder texts converter_state_new)" "[] \<notin> set pieces"
  shows "concat pieces = utf8_bom @ concat (map utf8_of cs) \<and>
    fst (feed utf8_decoder pieces converter_state_new) = concat texts \<and>
    cs_invalid (snd (feed utf8_decoder pieces converter_state_new)) = 0"
proof -
  have "fst (feed utf8_encoder texts converter_state_new) = fst (utf8_encoder (concat texts) converter_state_new)"
    by (rule utf8_enc.feed_concat(1) [OF state_ok_new assms(3)])
  also have "\<dots> = utf8_bom @ concat (map utf8_of cs)"
    using utf8_encode_text [OF assms(1), of 63] utf8_encoder_step [of converter_state_new "concat texts"]
    by (simp add: assms(2) enc_replacement_def enc_pending_def converter_state_new_def)
  finally have e: "concat pieces = utf8_bom @ concat (map utf8_of cs)" using assms(4) by simp
  have "pending [] converter_state_new" by (simp add: pending_def mem_read_def converter_state_new_def state_ok_def)
  moreover have "[] @ concat pieces = concat (map utf8_of (0xfeff # cs))" by (simp add: e utf8_bom_of)
  ultimately have "fst (feed utf8_decoder pieces converter_state_new)
      = concat (map utf16_of (strip_mark (cs_ignore_header converter_state_new) (0xfeff # cs)))
    \<and> pending [] (snd (feed utf8_decoder pieces converter_state_new))
    \<and> cs_invalid (snd (feed utf8_decoder pieces converter_state_new)) = cs_invalid converter_state_new"
    using utf8_decoder_pieces [of "0xfeff # cs" "[]"] assms(1,5) by (simp add: unfinished_def)
  then show ?thesis using e by (simp add: strip_mark_def converter_state_new_def assms(2))
qed

theorem utf8_stream_round_trip_witness:
  "fst (feed utf8_decoder [[0xef, 0xbb], [0xbf, 0xf0, 0x9f], [0x98, 0x80, 0x41]] converter_state_new) = [0xd83d, 0xde00, 0x41]"
proof -
  have s: "list_all scalar [0x1f600, 0x41]" by (simp add: scalar_def)
  have t: "concat [[0xd83d], [0xde00, 0x41]] = concat (map utf16_of [0x1f600, 0x41])" by (simp add: utf16_of_def)
  have e: "concat [[0xef, 0xbb], [0xbf, 0xf0, 0x9f], [0x98, 0x80, 0x41]]
      = fst (feed utf8_encoder [[0xd83d], [0xde00, 0x41]] converter_state_new)"
    by code_simp
  show ?thesis using utf8_stream_round_trip [OF s t _ e] by simp
qed

text \<open>C39: The code points from 0xe000 to 0xf847 are characters for private use, not surrogates, but the length of the
  range in \<open>isSurrogate\<close> is written as 0x2048: the UTF-8 encoder replaces each of them by a question mark, the decoder
  rejects the encoding form of each, and UTF-32 writes the replacement character.\<close>

theorem utf8_private_use_lost:
  "\<forall>c \<in> {0xe000..<0xf848}. utf8_from_unicode [of_nat c] = [63] \<and>
     from_utf8 (hd (utf8_of c)) (tl (utf8_of c)) = Inl Utf_Error \<and> iterator_next (of_nat c) [] = (0xfffd, [])"
proof
  fix c :: nat assume c: "c \<in> {0xe000..<0xf848}"
  define u :: u16 where "u = of_nat c"
  have u: "unat u = c" using c by (simp add: u_def unat_small)
  have s: "is_surrogate (ucast u)" using c by (simp add: unit_surrogates u)
  have "\<not> u < 0x80" "\<not> u < 0x800" using c by (simp_all add: word_less_nat_alt u)
  then have "to_utf8 u [] = Inl End_Of_String" using s by (simp add: to_utf8_def)
  then have "utf8_from_unicode [u] = [63]" by simp
  moreover have "from_utf8 (hd (utf8_of c)) (tl (utf8_of c)) = Inl Utf_Error"
  proof -
    define b :: byte where "b = of_nat (0xe0 + c div 4096)"
    have "c div 4096 < 16" using c by auto
    then have b: "unat b = 0xe0 + c div 4096" by (simp add: b_def unat_small del: of_nat_add)
    have n: "\<not> b < 0x80" "lead_fields (unat b) = Some (3, 0x800, c div 4096)"
      using b \<open>c div 4096 < 16\<close> digit_tag [of "c div 4096" 16 14] by (simp_all add: word_less_nat_alt lead_fields_def)
    have "(c div 4096 * 64 + c div 64 mod 64) * 64 + c mod 64 = c"
    proof -
      have "c div 4096 = c div 64 div 64" by (simp add: div_mult2_eq)
      then show ?thesis by simp
    qed
    then have v: "cont_value 2 (c div 4096) (tl (utf8_of c)) = Some c"
      using cont_value_bytes(2) [of "c div 4096" "c div 64" c "[]"] c by (simp add: utf8_of_cases del: of_nat_add)
    have "hd (utf8_of c) = b" "length (tl (utf8_of c)) = 2" using c by (simp_all add: utf8_of_cases b_def)
    moreover have "\<not> scalar c" using c by (simp add: scalar_def)
    ultimately show ?thesis using from_utf8_values [OF n(1), of "tl (utf8_of c)"] n(2) v by simp
  qed
  ultimately show "utf8_from_unicode [of_nat c] = [63] \<and> from_utf8 (hd (utf8_of c)) (tl (utf8_of c)) = Inl Utf_Error \<and>
      iterator_next (of_nat c) [] = (0xfffd, [])"
    using s by (simp add: u_def)
qed

theorem utf8_private_use_lost_witness: "utf8_from_unicode [0xe000] = [63]"
proof -
  have "(0xe000 :: nat) \<in> {0xe000..<0xf848}" by simp
  from utf8_private_use_lost [rule_format, OF this] show ?thesis by simp
qed

text \<open>The sizes of the buffers: the encoder writes at most three bytes for each unit, the decoder at most one unit
  for each byte, and with a state one more when characters are kept from the last call. The decoder reserves room for
  it, the encoder does not: with a kept surrogate and one more unit it writes four bytes into an array of three.\<close>

lemma utf8_buffer_sizes:
  assumes "cs_remaining st \<le> 3"
    "cs_remaining st \<noteq> 0 \<longrightarrow> is_surrogate (ucast (ucast (state_word st 0) :: u16))"
  shows "length (utf8_from_unicode text) \<le> 3 * length text \<and>
    length (utf8_to_unicode bytes) \<le> length bytes \<and>
    length (fst (utf8_to_unicode_state bytes (Some st))) \<le> length bytes + 1 \<and>
    length (fst (utf8_from_unicode_state text (Some st)))
      \<le> 3 * length text + (if cs_ignore_header st then 0 else 3) + (if cs_remaining st = 0 then 0 else 1) \<and>
    (\<exists>st'. cs_ignore_header st' \<and> length (fst (utf8_from_unicode_state [0xde00] (Some st'))) = 3 * length [0xde00 :: u16] + 1)"
proof (intro conjI)
  show "length (utf8_from_unicode text) \<le> 3 * length text" by (rule utf8_from_unicode_length)
  show "length (utf8_to_unicode bytes) \<le> length bytes"
    using utf8_decode_length [of bytes] utf8_decode_length [of "drop 3 bytes"] by (auto simp: utf8_to_unicode_def)
  show "length (fst (utf8_to_unicode_state bytes (Some st))) \<le> length bytes + 1"
  proof -
    have r: "length out1 + length src \<le> length bytes + 1"
      if "utf8_resume r bytes st = Inr (out1, h1, n1, src)" for r out1 h1 n1 src
    proof (cases "cs_remaining st = 0")
      case False
      define buf where "buf = mem_read (cs_data st) 0 (cs_remaining st) @ take (min (4 - cs_remaining st) (length bytes)) bytes"
      show ?thesis
      proof (cases "from_utf8 (hd buf) (tl buf)")
        case (Inl e)
        then show ?thesis using that False by (auto simp: utf8_resume_def Let_def buf_def [symmetric] split: if_splits)
      next
        case (Inr p)
        obtain us n where p: "p = (us, n)" by fastforce
        have "length out1 \<le> length us" "src = drop (n - cs_remaining st) bytes"
          using that False Inr p by (auto simp: utf8_resume_def Let_def buf_def [symmetric])
        moreover have "length buf \<le> cs_remaining st + length bytes" by (simp add: buf_def)
        ultimately show ?thesis using from_utf8_length [OF Inr [unfolded p]] assms(1) False
          by (cases "n < 4") auto
      qed
    qed (use that in \<open>simp add: utf8_resume_def\<close>)
    show ?thesis
    proof (cases "utf8_resume (dec_replacement st) bytes st")
      case (Inr q)
      obtain out1 h1 n1 src where q: "q = (out1, h1, n1, src)" using prod_cases4 by blast
      obtain out2 h2 n2 rest where m: "utf8_main_loop (dec_replacement st) h1 0 src = (out2, h2, n2, rest)" using prod_cases4 by blast
      have "fst (utf8_to_unicode_state bytes (Some st)) = out1 @ out2"
        using Inr m q unfolding dec_replacement_def by (simp add: utf8_to_unicode_state_def Let_def)
      then show ?thesis using r [OF Inr [unfolded q]] utf8_main_length [of "dec_replacement st" h1 0 src] m by simp
    qed (simp add: utf8_to_unicode_state_def dec_replacement_def)
  qed
  show "length (fst (utf8_from_unicode_state text (Some st)))
      \<le> 3 * length text + (if cs_ignore_header st then 0 else 3) + (if cs_remaining st = 0 then 0 else 1)"
  proof -
    obtain out n high where l: "utf8_encode_loop (enc_replacement st) (enc_pending st) text = (out, n, high)" using prod_cases3 by blast
    have "length out \<le> 3 * length text + (if enc_pending st = None then 0 else 1)"
      using utf8_encode_length [of "enc_pending st" "enc_replacement st" "text"] assms(2) l by (auto simp: enc_pending_def split: if_splits)
    moreover have "fst (utf8_from_unicode_state text (Some st)) = fst (utf8_encoder text st)"
      by (simp add: utf8_encoder_def case_prod_beta)
    ultimately show ?thesis
      using utf8_encoder_step [OF l] by (auto simp: utf8_bom_def enc_pending_def split: if_splits)
  qed
  have "length (fst (utf8_from_unicode_state [0xde00] (Some (snd (utf8_encoder [0xd83d] converter_state_new))))) = 4"
    "cs_ignore_header (snd (utf8_encoder [0xd83d] converter_state_new))" by code_simp+
  then show "\<exists>st'. cs_ignore_header st' \<and> length (fst (utf8_from_unicode_state [0xde00] (Some st'))) = 3 * length [0xde00 :: u16] + 1"
    by (intro exI [where x = "snd (utf8_encoder [0xd83d] converter_state_new)"]) simp
qed

text \<open>C38: Any sequence of units encoded to UTF-16 in pieces, in either byte order or in that of the host, and decoded in
  pieces cut anywhere, even between the two bytes of a unit, on a host of either byte order, is the same sequence.\<close>

theorem utf16_stream_round_trip:
  assumes "host \<noteq> Detect_Endianness" "texts \<noteq> []" "pieces \<noteq> []" "host' \<in> {Big_Endianness, Little_Endianness}"
    "concat pieces = fst (feed (utf16_encoder host e) texts converter_state_new)"
  shows "fst (feed (utf16_decoder host' e) pieces converter_state_new) = concat texts"
proof -
  define b where "b = resolve_endian host e"
  have b: "b \<noteq> Detect_Endianness" "e = b \<or> e = Detect_Endianness" using assms(1) by (auto simp: b_def resolve_endian_def)
  have "fst (feed (utf16_encoder host e) texts converter_state_new) = fst (utf16_encoder host e (concat texts) converter_state_new)"
    by (rule utf16_enc.feed_concat(1)) (use assms(2) in auto)
  then have p: "concat pieces = unit_bytes b 0xfeff @ concat (map (unit_bytes b) (concat texts))"
    using assms(5) by (simp add: utf16_encoder_eq b_def converter_state_new_def)
  have "fst (feed (utf16_decoder host' e) pieces converter_state_new) = fst (utf16_decoder host' e (concat pieces) converter_state_new)"
    using assms(3,4) utf16_big.feed_concat(1) [OF state_ok_new] utf16_little.feed_concat(1) [OF state_ok_new] by auto
  also have "\<dots> = fst (utf16_step host' (concat pieces) (utf16_abs host' e converter_state_new))"
    using utf16_decoder_step(2) [of host' converter_state_new "concat pieces" e] assms(4) by auto
  also have "utf16_abs host' e converter_state_new = (None, False, e)"
  proof -
    have "state_word converter_state_new 0 = 0" by code_simp
    then show ?thesis by (simp add: utf16_abs_def converter_state_new_def endian_of_def Let_def)
  qed
  also have "fst (utf16_step host' (concat pieces) (None, False, e)) = concat texts"
    using utf16_decode_header [OF b, of host' "concat (map (unit_bytes b) (concat texts))"] utf16_decode_units [OF b(1), of host']
    by (simp add: p)
  finally show ?thesis .
qed

theorem utf16_stream_round_trip_witness:
  "fst (feed (utf16_decoder Big_Endianness Detect_Endianness) [[0xff], [0xfe, 0x00, 0xd8, 0x41], [0x00]] converter_state_new) = [0xd800, 0x41]"
proof -
  have "concat [[0xff], [0xfe, 0x00, 0xd8, 0x41], [0x00]]
    = fst (feed (utf16_encoder Little_Endianness Detect_Endianness) [[0xd800], [0x41]] converter_state_new)" by code_simp
  from utf16_stream_round_trip [OF _ _ _ _ this, of Big_Endianness] show ?thesis by simp
qed

section \<open>UTF-32\<close>

lemma from_endian_bytes:
  "length (ucs4_bytes e w) = 4" "e \<noteq> Detect_Endianness \<Longrightarrow> from_endian e (ucs4_bytes e w) = w"
proof -
  have m: "ucast (x AND 0xff) = (ucast x :: byte)" for x :: u32
  proof -
    have "x AND 0xff = take_bit 8 x" by (simp add: take_bit_eq_mask mask_eq_exp_minus_1)
    then show ?thesis by (simp only:) (rule bit_word_eqI, simp add: bit_simps)
  qed
  show "length (ucs4_bytes e w) = 4" by (simp add: ucs4_bytes_def)
  assume "e \<noteq> Detect_Endianness"
  then have "(if e = Big_Endianness then rev (ucs4_bytes e w) else ucs4_bytes e w) = le_bytes w"
    by (simp add: ucs4_bytes_def m le_bytes_def)
  then show "from_endian e (ucs4_bytes e w) = w" by (simp add: from_endian_def)
qed

lemma utf32_decode_four:
  assumes "length q = 4"
  shows "utf32_decode_loop host [] h e (q @ chars) =
    (let (skip, endian) = utf32_header host h e q; (out, tuple', endian') = utf32_decode_loop host [] h endian chars
     in ((if skip then [] else utf32_units (from_endian endian q)) @ out, tuple', endian'))"
proof -
  obtain a b c d where "q = [a, b, c, d]" using assms by (auto simp: length_Suc_conv numeral_eq_Suc)
  then show ?thesis by (simp only:) (simp add: Let_def)
qed

lemma utf32_decode_bmp:
  assumes "e \<noteq> Detect_Endianness"
  shows "utf32_decode_loop host [] False e (concat (map (\<lambda>w. ucs4_bytes e (ucast w)) u))
    = (filter (\<lambda>w. w \<noteq> 0xfeff) u, [], e)"
proof (induction u)
  case (Cons w u)
  have "(ucast w :: u32) = 0xfeff \<longleftrightarrow> w = 0xfeff"
    using unsigned_less [of w, where ?'a = nat] by (simp add: word_unat_eq_iff unat_ucast)
  moreover have "\<not> requires_surrogates (ucast w)"
    using unsigned_less [of w, where ?'a = nat] by (simp add: requires_surrogates_def word_le_nat_alt unat_ucast)
  ultimately show ?case
    using Cons assms by (simp add: utf32_decode_four from_endian_bytes utf32_header_def utf32_units_def)
qed simp

lemma utf32_encode_bmp:
  "\<forall>w \<in> set u. \<not> is_surrogate (ucast w) \<Longrightarrow> utf32_encode_loop e u = concat (map (\<lambda>w. ucs4_bytes e (ucast w)) u)"
proof (induction u)
  case (Cons w u)
  then show ?case by (cases u) simp_all
qed simp

text \<open>A text of units that \<open>isSurrogate\<close> does not take for surrogates survives UTF-32 except that every U+FEFF in
  it is dropped, not only the mark at the start, for \<open>convertToUnicode\<close> never notes that the header is done. For a text
  with a surrogate pair, the encoder leaves the end of its array uninitialised: it has four bytes for each unit.\<close>

lemma utf32_round_trip:
  assumes "\<forall>w \<in> set u. \<not> is_surrogate (ucast w)" "host \<in> {Big_Endianness, Little_Endianness}"
  shows "fst (utf32_to_unicode host (fst (utf32_from_unicode junk host u None e)) None e) = filter (\<lambda>w. w \<noteq> 0xfeff) u \<and>
    drop 8 (fst (utf32_from_unicode junk host [0xd83d, 0xde00] None e)) = map junk [8..<12]"
proof
  define b where "b = resolve_endian host e"
  have b: "b \<noteq> Detect_Endianness" "e = b \<or> e = Detect_Endianness" using assms(2) by (auto simp: b_def resolve_endian_def)
  define body where "body = concat (map (\<lambda>w. ucs4_bytes b (ucast w)) u)"
  define header where "header = (if b = Big_Endianness then [0, 0, 0xfe, 0xff] else [0xff, 0xfe, 0, 0 :: byte])"
  have "length body = 4 * length u" unfolding body_def by (induction u) (simp_all add: from_endian_bytes(1))
  then have "fst (utf32_from_unicode junk host u None e) = header @ body"
    using utf32_encode_bmp [OF assms(1), of b, folded body_def]
    by (simp add: utf32_from_unicode_def b_def [symmetric] writes_header_def header_def mem_write_def Let_def)
  moreover have "utf32_decode_loop host [] False e (header @ body) = utf32_decode_loop host [] False b body"
  proof -
    have "utf32_header host False e header = (True, b)"
      using b by (cases b) (auto simp: header_def utf32_header_def from_endian_def le_word_def)
    then show ?thesis using utf32_decode_four [of header host False e body] by (simp add: header_def case_prod_beta)
  qed
  ultimately show "fst (utf32_to_unicode host (fst (utf32_from_unicode junk host u None e)) None e) = filter (\<lambda>w. w \<noteq> 0xfeff) u"
    using utf32_decode_bmp [OF b(1), of host u, folded body_def] by (simp add: utf32_to_unicode_def case_prod_beta)
  have "utf32_encode_loop b [0xd83d, 0xde00] = ucs4_bytes b (surrogate_to_ucs4 0xd83d 0xde00)"
    by (simp add: is_surrogate_iff surrogate_halves)
  then show "drop 8 (fst (utf32_from_unicode junk host [0xd83d, 0xde00] None e)) = map junk [8..<12]"
    by (simp add: utf32_from_unicode_def b_def [symmetric] writes_header_def mem_write_def from_endian_bytes(1) Let_def drop_map)
qed

end
