(* ===== verification/Read_Write_Lock.thy ===== *)
theory Read_Write_Lock
  imports Pdk_Prelude "HOL-Library.Multiset"
begin

text \<open>
  \<open>ReadWriteLock\<close> (\<open>modules/base/os/thread/ReadWriteLock.cpp\<close>, \<open>ReadWriteLockPrivate.h\<close>) without recursion: any
  number of threads that lock, try to lock with a timeout and unlock, interleaved at every atomic operation on
  \<open>m_implPtr\<close>.

  A step of a thread is one atomic operation, or one critical section of a mutex: what a critical section reads is
  written only under the same mutex, and a block just allocated is written before it is published.  A wait on a
  condition variable may end at any time: by a notification, by its timeout or for no reason.  What the environment
  decides is the argument \<open>choice\<close> of a step: the operation that an idle thread starts, the block that the
  free list hands out, whether the timeout has passed.

  Threads are anonymous, so the threads of a state are a multiset of program counters.
\<close>

section \<open>The lock and its blocks\<close>

text \<open>
  The values of \<open>m_implPtr\<close>: 0, the number of readers minus one shifted by 4 with the mark 1, the mark 2, or a pointer
  to the block with the given index in the free list.
\<close>

datatype lock_ptr = Null | Locked_For_Read nat | Locked_For_Write | Private nat

record rw_private =
  reader_count :: int
  writer_count :: int
  waiting_readers :: int
  waiting_writers :: int

definition empty_private :: rw_private where
  "empty_private = \<lparr>reader_count = 0, writer_count = 0, waiting_readers = 0, waiting_writers = 0\<rparr>"

record rw_shared =
  impl_ptr :: lock_ptr
  blocks :: "nat \<Rightarrow> rw_private"

definition rw_lock_new :: rw_shared where
  "rw_lock_new = \<lparr>impl_ptr = Null, blocks = \<lambda>k. empty_private\<rparr>"

section \<open>The threads\<close>

text \<open>
  The places in \<open>tryLockForRead\<close>, \<open>tryLockForWrite\<close> and \<open>unlock\<close>, with the timeout and the local \<open>dptr\<close>; the flag of
  the places in \<open>unlock\<close> says whether the thread holds the lock for writing.  \<open>Failed\<close> is a failed assertion.
\<close>

datatype pc =
    Idle
  | Read_Loop int lock_ptr | Read_Mutex int nat | Read_Wait int nat | Read_Woken int nat
  | Write_Loop int lock_ptr | Write_Mutex int nat | Write_Wait int nat | Write_Woken int nat
  | Has_Read | Has_Write
  | Unlock_Loop bool lock_ptr | Unlock_Mutex bool nat
  | Failed

record choice =
  ch_write :: bool
  ch_timeout :: int
  ch_block :: nat
  ch_expired :: bool

datatype notification = No_Notify | Notify_Writer nat | Notify_Readers nat

definition with_block :: "nat \<Rightarrow> rw_private \<Rightarrow> rw_shared \<Rightarrow> rw_shared" where
  "with_block k p s = s\<lparr>blocks := (blocks s)(k := p)\<rparr>"

text \<open>\<open>testAndSet\<close> with the current value on failure.\<close>

definition test_and_set ::
  "rw_shared \<Rightarrow> lock_ptr \<Rightarrow> lock_ptr \<Rightarrow> pc \<Rightarrow> (lock_ptr \<Rightarrow> pc) \<Rightarrow> rw_shared \<times> pc \<times> notification" where
  "test_and_set s expected new done again =
     (if impl_ptr s = expected then (s\<lparr>impl_ptr := new\<rparr>, done, No_Notify) else (s, again (impl_ptr s), No_Notify))"

text \<open>\<open>ReadWriteLockPrivate::lockForRead\<close>, from the head of its loop to the end or the next wait.\<close>

definition private_lock_for_read :: "choice \<Rightarrow> int \<Rightarrow> nat \<Rightarrow> rw_shared \<Rightarrow> rw_shared \<times> pc \<times> notification" where
  "private_lock_for_read c t k s =
     (let p = blocks s k
      in if waiting_writers p \<noteq> 0 \<or> writer_count p \<noteq> 0
         then if t = 0 \<or> (t > 0 \<and> ch_expired c) then (s, Idle, No_Notify)
              else (with_block k (p\<lparr>waiting_readers := waiting_readers p + 1\<rparr>) s, Read_Wait t k, No_Notify)
         else (with_block k (p\<lparr>reader_count := reader_count p + 1\<rparr>) s, Has_Read, No_Notify))"

definition private_lock_for_write :: "choice \<Rightarrow> int \<Rightarrow> nat \<Rightarrow> rw_shared \<Rightarrow> rw_shared \<times> pc \<times> notification" where
  "private_lock_for_write c t k s =
     (let p = blocks s k
      in if reader_count p \<noteq> 0 \<or> writer_count p \<noteq> 0
         then if t = 0 then (s, Idle, No_Notify)
              else if t > 0 \<and> ch_expired c
              then (s, Idle, if waiting_readers p \<noteq> 0 \<and> waiting_writers p = 0 \<and> writer_count p = 0
                             then Notify_Readers k else No_Notify)
              else (with_block k (p\<lparr>waiting_writers := waiting_writers p + 1\<rparr>) s, Write_Wait t k, No_Notify)
         else (with_block k (p\<lparr>writer_count := 1\<rparr>) s, Has_Write, No_Notify))"

text \<open>
  One turn of the loop of \<open>tryLockForRead\<close>.  A thread that finds the lock held in the pointer itself allocates a block
  with the counts of the holders and publishes it; when that fails the block goes back unchanged.
\<close>

definition read_loop :: "choice \<Rightarrow> rw_shared \<Rightarrow> int \<Rightarrow> lock_ptr \<Rightarrow> rw_shared \<times> pc \<times> notification" where
  "read_loop c s t dptr =
     (case dptr of
        Null \<Rightarrow> test_and_set s Null (Locked_For_Read 0) Has_Read (Read_Loop t)
      | Locked_For_Read n \<Rightarrow> test_and_set s dptr (Locked_For_Read (n + 1)) Has_Read (Read_Loop t)
      | Locked_For_Write \<Rightarrow>
          if t = 0 then (s, Idle, No_Notify)
          else let k = ch_block c; val = (blocks s k)\<lparr>writer_count := 1\<rparr>
               in if impl_ptr s = dptr then ((with_block k val s)\<lparr>impl_ptr := Private k\<rparr>, Read_Mutex t k, No_Notify)
                  else (s, Read_Loop t (impl_ptr s), No_Notify)
      | Private k \<Rightarrow> (s, Read_Mutex t k, No_Notify))"

definition write_loop :: "choice \<Rightarrow> rw_shared \<Rightarrow> int \<Rightarrow> lock_ptr \<Rightarrow> rw_shared \<times> pc \<times> notification" where
  "write_loop c s t dptr =
     (case dptr of
        Null \<Rightarrow> test_and_set s Null Locked_For_Write Has_Write (Write_Loop t)
      | Private k \<Rightarrow> (s, Write_Mutex t k, No_Notify)
      | _ \<Rightarrow>
          if t = 0 then (s, Idle, No_Notify)
          else let k = ch_block c;
                   val = (case dptr of Locked_For_Read n \<Rightarrow> (blocks s k)\<lparr>reader_count := int n + 1\<rparr>
                                     | _ \<Rightarrow> (blocks s k)\<lparr>writer_count := 1\<rparr>)
               in if impl_ptr s = dptr then ((with_block k val s)\<lparr>impl_ptr := Private k\<rparr>, Write_Mutex t k, No_Notify)
                  else (s, Write_Loop t (impl_ptr s), No_Notify))"

text \<open>One turn of the loop of \<open>unlock\<close>: the values 1 and 2 of the pointer are the uncontended cases.\<close>

definition unlock_loop :: "rw_shared \<Rightarrow> bool \<Rightarrow> lock_ptr \<Rightarrow> rw_shared \<times> pc \<times> notification" where
  "unlock_loop s w dptr =
     (case dptr of
        Null \<Rightarrow> (s, Failed, No_Notify)
      | Locked_For_Read 0 \<Rightarrow> test_and_set s dptr Null Idle (Unlock_Loop w)
      | Locked_For_Write \<Rightarrow> test_and_set s dptr Null Idle (Unlock_Loop w)
      | Locked_For_Read (Suc n) \<Rightarrow> test_and_set s dptr (Locked_For_Read n) Idle (Unlock_Loop w)
      | Private k \<Rightarrow> (s, Unlock_Mutex w k, No_Notify))"

text \<open>\<open>ReadWriteLockPrivate::unlock\<close>: which waiting threads are woken.\<close>

definition private_unlock :: "nat \<Rightarrow> rw_private \<Rightarrow> notification" where
  "private_unlock k p =
     (if waiting_writers p \<noteq> 0 then Notify_Writer k else if waiting_readers p \<noteq> 0 then Notify_Readers k else No_Notify)"

definition unlock_mutex :: "rw_shared \<Rightarrow> nat \<Rightarrow> rw_shared \<times> pc \<times> notification" where
  "unlock_mutex s k =
     (let p = blocks s k
      in if writer_count p \<noteq> 0 \<and> (writer_count p \<noteq> 1 \<or> reader_count p \<noteq> 0) then (s, Failed, No_Notify)
         else if writer_count p = 0 \<and> \<not> reader_count p > 0 then (s, Failed, No_Notify)
         else let q = (if writer_count p \<noteq> 0 then p\<lparr>writer_count := 0\<rparr> else p\<lparr>reader_count := reader_count p - 1\<rparr>)
              in if writer_count p = 0 \<and> reader_count q > 0 then (with_block k q s, Idle, No_Notify)
                 else if waiting_readers q \<noteq> 0 \<or> waiting_writers q \<noteq> 0 then (with_block k q s, Idle, private_unlock k q)
                 else if impl_ptr s \<noteq> Private k \<or> q \<noteq> empty_private then (s, Failed, No_Notify)
                 else ((with_block k q s)\<lparr>impl_ptr := Null\<rparr>, Idle, No_Notify))"

text \<open>A step of one thread; to lock, a critical section first reads the pointer again.\<close>

fun thread_step :: "choice \<Rightarrow> rw_shared \<Rightarrow> pc \<Rightarrow> rw_shared \<times> pc \<times> notification" where
  "thread_step c s Idle =
     (if ch_write c then write_loop c s (ch_timeout c) Null else read_loop c s (ch_timeout c) Null)"
| "thread_step c s (Read_Loop t dptr) = read_loop c s t dptr"
| "thread_step c s (Read_Mutex t k) =
     (if impl_ptr s \<noteq> Private k then (s, Read_Loop t (impl_ptr s), No_Notify) else private_lock_for_read c t k s)"
| "thread_step c s (Read_Wait t k) = (s, Read_Woken t k, No_Notify)"
| "thread_step c s (Read_Woken t k) =
     (let p = blocks s k
      in private_lock_for_read c t k (with_block k (p\<lparr>waiting_readers := waiting_readers p - 1\<rparr>) s))"
| "thread_step c s (Write_Loop t dptr) = write_loop c s t dptr"
| "thread_step c s (Write_Mutex t k) =
     (if impl_ptr s \<noteq> Private k then (s, Write_Loop t (impl_ptr s), No_Notify) else private_lock_for_write c t k s)"
| "thread_step c s (Write_Wait t k) = (s, Write_Woken t k, No_Notify)"
| "thread_step c s (Write_Woken t k) =
     (let p = blocks s k
      in private_lock_for_write c t k (with_block k (p\<lparr>waiting_writers := waiting_writers p - 1\<rparr>) s))"
| "thread_step c s Has_Read = (s, Unlock_Loop False (impl_ptr s), No_Notify)"
| "thread_step c s Has_Write = (s, Unlock_Loop True (impl_ptr s), No_Notify)"
| "thread_step c s (Unlock_Loop w dptr) = unlock_loop s w dptr"
| "thread_step c s (Unlock_Mutex w k) = unlock_mutex s k"
| "thread_step c s Failed = (s, Failed, No_Notify)"

section \<open>The steps of the system\<close>

fun wake_reader :: "nat \<Rightarrow> pc \<Rightarrow> pc" where
  "wake_reader k (Read_Wait t j) = (if j = k then Read_Woken t j else Read_Wait t j)"
| "wake_reader k pc = pc"

fun waits_for_write :: "nat \<Rightarrow> pc \<Rightarrow> bool" where
  "waits_for_write k (Write_Wait t j) = (j = k)"
| "waits_for_write k pc = False"

text \<open>\<open>notify_all\<close> wakes every waiting reader, \<open>notify_one\<close> any one of the waiting writers.\<close>

inductive notify :: "notification \<Rightarrow> pc multiset \<Rightarrow> pc multiset \<Rightarrow> bool" where
  nobody: "notify No_Notify m m"
| readers: "notify (Notify_Readers k) m (image_mset (wake_reader k) m)"
| one_writer: "notify (Notify_Writer k) (add_mset (Write_Wait t k) m) (add_mset (Write_Woken t k) m)"
| no_writer: "\<forall>pc \<in># m. \<not> waits_for_write k pc \<Longrightarrow> notify (Notify_Writer k) m m"

inductive rw_step :: "rw_shared \<times> pc multiset \<Rightarrow> rw_shared \<times> pc multiset \<Rightarrow> bool" where
  step: "thread_step c s pc = (s', pc', n) \<Longrightarrow> notify n m m' \<Longrightarrow> rw_step (s, add_mset pc m) (s', add_mset pc' m')"

inductive rw_reachable :: "rw_shared \<times> pc multiset \<Rightarrow> bool" where
  start: "rw_reachable (rw_lock_new, replicate_mset threads Idle)"
| move: "rw_reachable g \<Longrightarrow> rw_step g g' \<Longrightarrow> rw_reachable g'"

end
