(* ===== verification/Lock_Proofs.thy ===== *)
theory Lock_Proofs
  imports Read_Write_Lock
begin

text \<open>
  The invariant of \<open>ReadWriteLock\<close>: the pointer and the counts of the published block say how many threads hold the
  lock and how many wait, and nobody sleeps on a lock that is free.
\<close>

section \<open>Counting threads\<close>

definition cnt :: "(pc \<Rightarrow> bool) \<Rightarrow> pc multiset \<Rightarrow> int" where
  "cnt P m = int (size (filter_mset P m))"

lemma cnt_add [simp]: "cnt P (add_mset pc m) = (if P pc then 1 else 0) + cnt P m"
  by (simp add: cnt_def)

lemma cnt_nonneg: "0 \<le> cnt P m"
  by (simp add: cnt_def)

lemma cnt_suc_pos [simp]: "0 < 1 + cnt P m"
  using cnt_nonneg [of P m] by linarith

lemma cnt_zero: "cnt P m = 0 \<longleftrightarrow> (\<forall>pc \<in># m. \<not> P pc)"
proof (induction m)
  case (add pc m)
  have "1 + cnt P m \<noteq> 0" using cnt_nonneg [of P m] by linarith
  then show ?case using add by auto
qed (simp add: cnt_def)

lemma cnt_image: "cnt P (image_mset f m) = cnt (\<lambda>pc. P (f pc)) m"
  by (induction m) (simp_all add: cnt_def)

lemma cnt_cong: "(\<And>pc. P pc = Q pc) \<Longrightarrow> cnt P m = cnt Q m"
  by presburger

text \<open>Who holds the lock, who is counted as waiting, who sleeps.\<close>

fun is_reader :: "pc \<Rightarrow> bool" where
  "is_reader Has_Read = True"
| "is_reader (Unlock_Loop w d) = (\<not> w)"
| "is_reader (Unlock_Mutex w k) = (\<not> w)"
| "is_reader pc = False"

fun is_writer :: "pc \<Rightarrow> bool" where
  "is_writer Has_Write = True"
| "is_writer (Unlock_Loop w d) = w"
| "is_writer (Unlock_Mutex w k) = w"
| "is_writer pc = False"

fun waiting_read :: "nat \<Rightarrow> pc \<Rightarrow> bool" where
  "waiting_read k (Read_Wait t j) = (j = k)"
| "waiting_read k (Read_Woken t j) = (j = k)"
| "waiting_read k pc = False"

fun waiting_write :: "nat \<Rightarrow> pc \<Rightarrow> bool" where
  "waiting_write k (Write_Wait t j) = (j = k)"
| "waiting_write k (Write_Woken t j) = (j = k)"
| "waiting_write k pc = False"

fun asleep_read :: "nat \<Rightarrow> pc \<Rightarrow> bool" where
  "asleep_read k (Read_Wait t j) = (j = k)"
| "asleep_read k pc = False"

fun woken_write :: "nat \<Rightarrow> pc \<Rightarrow> bool" where
  "woken_write k (Write_Woken t j) = (j = k)"
| "woken_write k pc = False"

text \<open>What each thread knows of the lock.\<close>

fun pc_ok :: "lock_ptr \<Rightarrow> pc \<Rightarrow> bool" where
  "pc_ok p (Unlock_Loop w d) = (d \<noteq> Null \<and> (\<forall>k. d = Private k \<longrightarrow> p = Private k))"
| "pc_ok p (Unlock_Mutex w k) = (p = Private k)"
| "pc_ok p Failed = False"
| "pc_ok p pc = True"

text \<open>The holders according to the pointer.\<close>

fun holders_ok :: "rw_shared \<Rightarrow> int \<Rightarrow> int \<Rightarrow> bool" where
  "holders_ok s r w =
     (case impl_ptr s of
        Null \<Rightarrow> r = 0 \<and> w = 0
      | Locked_For_Read n \<Rightarrow> r = int n + 1 \<and> w = 0
      | Locked_For_Write \<Rightarrow> r = 0 \<and> w = 1
      | Private k \<Rightarrow> reader_count (blocks s k) = r \<and> writer_count (blocks s k) = w \<and> (w = 0 \<or> w = 1 \<and> r = 0))"

declare holders_ok.simps [simp del]

text \<open>Nobody sleeps on a free lock: a writer has been woken, or no writer waits and every waiting reader has been.\<close>

definition awake :: "rw_shared \<Rightarrow> pc multiset \<Rightarrow> bool" where
  "awake s m \<longleftrightarrow>
     (\<forall>k. impl_ptr s = Private k \<longrightarrow> cnt is_reader m = 0 \<longrightarrow> cnt is_writer m = 0 \<longrightarrow>
        (if cnt (waiting_write k) m > 0 then cnt (woken_write k) m > 0
         else cnt (asleep_read k) m = 0 \<and> cnt (waiting_read k) m > 0))"

definition rw_inv :: "rw_shared \<Rightarrow> pc multiset \<Rightarrow> bool" where
  "rw_inv s m \<longleftrightarrow>
     holders_ok s (cnt is_reader m) (cnt is_writer m)
     \<and> (\<forall>k. waiting_readers (blocks s k) = cnt (waiting_read k) m \<and> waiting_writers (blocks s k) = cnt (waiting_write k) m)
     \<and> (\<forall>k. impl_ptr s \<noteq> Private k \<longrightarrow> blocks s k = empty_private)
     \<and> (\<forall>pc \<in># m. pc_ok (impl_ptr s) pc)
     \<and> awake s m"

section \<open>Notifications\<close>

lemma wake_reader_same [simp]:
  "is_reader (wake_reader k pc) = is_reader pc" "is_writer (wake_reader k pc) = is_writer pc"
  "waiting_read j (wake_reader k pc) = waiting_read j pc" "waiting_write j (wake_reader k pc) = waiting_write j pc"
  "woken_write j (wake_reader k pc) = woken_write j pc" "pc_ok p (wake_reader k pc) = pc_ok p pc"
  "asleep_read j (wake_reader k pc) = (asleep_read j pc \<and> j \<noteq> k)"
  by (cases pc; auto)+

lemma cnt_mono: "(\<And>pc. P pc \<Longrightarrow> Q pc) \<Longrightarrow> cnt P m \<le> cnt Q m"
  by (induction m) (auto simp: cnt_def)

lemma notify_counts:
  assumes "notify n m m'"
  shows "cnt is_reader m' = cnt is_reader m" "cnt is_writer m' = cnt is_writer m"
    "cnt (waiting_read k) m' = cnt (waiting_read k) m" "cnt (waiting_write k) m' = cnt (waiting_write k) m"
    "(\<forall>pc \<in># m'. pc_ok p pc) = (\<forall>pc \<in># m. pc_ok p pc)"
    "cnt (asleep_read k) m' \<le> cnt (asleep_read k) m" "cnt (woken_write k) m \<le> cnt (woken_write k) m'"
    "n = Notify_Readers k \<Longrightarrow> cnt (asleep_read k) m' = 0"
    "n = Notify_Writer k \<Longrightarrow> cnt (waiting_write k) m > 0 \<Longrightarrow> cnt (woken_write k) m' > 0"
proof -
  show "cnt is_reader m' = cnt is_reader m" "cnt is_writer m' = cnt is_writer m"
    "cnt (waiting_read k) m' = cnt (waiting_read k) m" "cnt (waiting_write k) m' = cnt (waiting_write k) m"
    "(\<forall>pc \<in># m'. pc_ok p pc) = (\<forall>pc \<in># m. pc_ok p pc)" "cnt (woken_write k) m \<le> cnt (woken_write k) m'"
    using assms by (cases; auto simp: cnt_image)+
  show "cnt (asleep_read k) m' \<le> cnt (asleep_read k) m"
    using assms by cases (auto simp: cnt_image intro: cnt_mono)
  show "cnt (asleep_read k) m' = 0" if "n = Notify_Readers k"
    using assms that by cases (auto simp: cnt_image cnt_zero)
  show "cnt (woken_write k) m' > 0" if "n = Notify_Writer k" "cnt (waiting_write k) m > 0"
    using assms that
  proof cases
    case (one_writer j t m1)
    then show ?thesis using that(1) cnt_nonneg [of "woken_write k" m1] by simp
  next
    case (no_writer j)
    note nk = that
    have "waiting_write k pc \<Longrightarrow> woken_write k pc" if "pc \<in># m" for pc
      using no_writer that nk(1) by (cases pc) auto
    moreover obtain pc where "pc \<in># m" "waiting_write k pc" using nk(2) cnt_zero [of "waiting_write k" m] by fastforce
    ultimately have "cnt (woken_write k) m \<noteq> 0" unfolding cnt_zero by blast
    then have "cnt (woken_write k) m > 0" using cnt_nonneg [of "woken_write k" m] by linarith
    then show ?thesis using no_writer by simp
  qed (use that in auto)
qed

section \<open>Every step keeps the invariant\<close>

text \<open>The invariant does not depend on what is notified, except that a notification may be what keeps somebody awake.\<close>

definition awake_after :: "rw_shared \<Rightarrow> notification \<Rightarrow> pc multiset \<Rightarrow> bool" where
  "awake_after s n m \<longleftrightarrow>
     (\<forall>k. impl_ptr s = Private k \<longrightarrow> cnt is_reader m = 0 \<longrightarrow> cnt is_writer m = 0 \<longrightarrow>
        (if cnt (waiting_write k) m > 0 then cnt (woken_write k) m > 0 \<or> n = Notify_Writer k
         else (cnt (asleep_read k) m = 0 \<or> n = Notify_Readers k) \<and> cnt (waiting_read k) m > 0))"

definition rw_inv_after :: "rw_shared \<Rightarrow> notification \<Rightarrow> pc multiset \<Rightarrow> bool" where
  "rw_inv_after s n m \<longleftrightarrow>
     holders_ok s (cnt is_reader m) (cnt is_writer m)
     \<and> (\<forall>k. waiting_readers (blocks s k) = cnt (waiting_read k) m \<and> waiting_writers (blocks s k) = cnt (waiting_write k) m)
     \<and> (\<forall>k. impl_ptr s \<noteq> Private k \<longrightarrow> blocks s k = empty_private)
     \<and> (\<forall>pc \<in># m. pc_ok (impl_ptr s) pc)
     \<and> awake_after s n m"

lemma rw_inv_notify:
  assumes "rw_inv_after s n (add_mset pc m)" "notify n m m'"
    "\<And>k. n = Notify_Readers k \<Longrightarrow> \<not> asleep_read k pc" "\<And>k. n = Notify_Writer k \<Longrightarrow> \<not> waiting_write k pc"
  shows "rw_inv s (add_mset pc m')"
proof -
  define a where "a = add_mset pc m"
  define b where "b = add_mset pc m'"
  note c = notify_counts [OF assms(2)]
  have e: "cnt is_reader b = cnt is_reader a" "cnt is_writer b = cnt is_writer a"
    "cnt (waiting_read k) b = cnt (waiting_read k) a" "cnt (waiting_write k) b = cnt (waiting_write k) a"
    "(\<forall>pc \<in># b. pc_ok p pc) = (\<forall>pc \<in># a. pc_ok p pc)" for k p
    by (simp_all add: a_def b_def c)
  have mono: "cnt (asleep_read k) b \<le> cnt (asleep_read k) a" "cnt (woken_write k) a \<le> cnt (woken_write k) b" for k
    using c(6,7) by (simp_all add: a_def b_def)
  have r: "cnt (asleep_read k) b = 0" if "n = Notify_Readers k" for k
    using c(8) [OF that] assms(3) [OF that] by (simp add: b_def)
  have w: "cnt (woken_write k) b > 0" if "n = Notify_Writer k" "cnt (waiting_write k) a > 0" for k
  proof -
    have "cnt (woken_write k) m' > 0" using c(9) [OF that(1)] that(2) assms(4) [OF that(1)] by (simp add: a_def)
    then show ?thesis by (simp add: b_def add_pos_pos)
  qed
  have "awake s b"
    unfolding awake_def
  proof (intro allI impI)
    fix k assume "impl_ptr s = Private k" "cnt is_reader b = 0" "cnt is_writer b = 0"
    then have after: "if cnt (waiting_write k) a > 0 then cnt (woken_write k) a > 0 \<or> n = Notify_Writer k
         else (cnt (asleep_read k) a = 0 \<or> n = Notify_Readers k) \<and> cnt (waiting_read k) a > 0"
      using assms(1) unfolding rw_inv_after_def awake_after_def a_def [symmetric] by (simp add: e)
    have "cnt (asleep_read k) a = 0 \<Longrightarrow> cnt (asleep_read k) b = 0" using mono(1) [of k] cnt_nonneg [of "asleep_read k" b] by linarith
    then show "if cnt (waiting_write k) b > 0 then cnt (woken_write k) b > 0
         else cnt (asleep_read k) b = 0 \<and> cnt (waiting_read k) b > 0"
      using after w [of k] r [of k] mono(2) [of k] by (auto simp: e split: if_splits)
  qed
  then show ?thesis
    using assms(1) unfolding rw_inv_def rw_inv_after_def a_def [symmetric] b_def [symmetric] by (simp add: e)
qed

text \<open>The invariant without its last clause, and without its first either.\<close>

definition rw_rest :: "rw_shared \<Rightarrow> pc multiset \<Rightarrow> bool" where
  "rw_rest s m \<longleftrightarrow>
     (\<forall>k. waiting_readers (blocks s k) = cnt (waiting_read k) m \<and> waiting_writers (blocks s k) = cnt (waiting_write k) m)
     \<and> (\<forall>k. impl_ptr s \<noteq> Private k \<longrightarrow> blocks s k = empty_private)
     \<and> (\<forall>pc \<in># m. pc_ok (impl_ptr s) pc)"

definition rw_counts :: "rw_shared \<Rightarrow> pc multiset \<Rightarrow> bool" where
  "rw_counts s m \<longleftrightarrow> holders_ok s (cnt is_reader m) (cnt is_writer m) \<and> rw_rest s m"

lemma rw_inv_counts: "rw_inv s m \<longleftrightarrow> rw_counts s m \<and> awake s m"
  "rw_inv_after s n m \<longleftrightarrow> rw_counts s m \<and> awake_after s n m"
  by (auto simp: rw_inv_def rw_inv_after_def rw_counts_def rw_rest_def)

lemma rw_counts_rest: "rw_counts s m \<Longrightarrow> rw_rest s m"
  by (simp add: rw_counts_def)

lemma with_block_simps [simp]:
  "impl_ptr (with_block k p s) = impl_ptr s" "blocks (with_block k p s) j = (if j = k then p else blocks s j)"
  by (simp_all add: with_block_def)

lemma holders_unshared: "(\<forall>k. impl_ptr s \<noteq> Private k) \<Longrightarrow> awake_after s n m"
  by (simp add: awake_after_def)

lemma awake_held: "cnt is_reader m > 0 \<or> cnt is_writer m > 0 \<Longrightarrow> awake_after s n m"
  by (auto simp: awake_after_def)

text \<open>A thread changes its place and nothing else.\<close>

lemma local_move:
  assumes "rw_inv s (add_mset pc m)" "is_reader pc' = is_reader pc" "is_writer pc' = is_writer pc"
    "\<And>k. waiting_read k pc' = waiting_read k pc" "\<And>k. waiting_write k pc' = waiting_write k pc"
    "\<And>k. asleep_read k pc' \<Longrightarrow> asleep_read k pc" "\<And>k. woken_write k pc \<Longrightarrow> woken_write k pc'" "pc_ok (impl_ptr s) pc'"
  shows "rw_inv_after s n (add_mset pc' m)"
proof -
  define a where "a = add_mset pc m"
  define b where "b = add_mset pc' m"
  have e: "cnt is_reader b = cnt is_reader a" "cnt is_writer b = cnt is_writer a"
    "cnt (waiting_read k) b = cnt (waiting_read k) a" "cnt (waiting_write k) b = cnt (waiting_write k) a" for k
    using assms(2-5) by (simp_all add: a_def b_def)
  have mono: "cnt (woken_write k) a \<le> cnt (woken_write k) b" "cnt (asleep_read k) b \<le> cnt (asleep_read k) a" for k
    using assms(6,7) by (auto simp: a_def b_def)
  have inv: "rw_counts s a" "awake s a" using assms(1) by (simp_all add: rw_inv_counts a_def)
  have "awake_after s n b"
    unfolding awake_after_def
  proof (intro allI impI)
    fix k assume "impl_ptr s = Private k" "cnt is_reader b = 0" "cnt is_writer b = 0"
    then have "if cnt (waiting_write k) a > 0 then cnt (woken_write k) a > 0
         else cnt (asleep_read k) a = 0 \<and> cnt (waiting_read k) a > 0"
      using inv(2) by (simp add: awake_def e)
    moreover have "cnt (asleep_read k) a = 0 \<Longrightarrow> cnt (asleep_read k) b = 0"
      using mono(2) [of k] cnt_nonneg [of "asleep_read k" b] by linarith
    ultimately show "if cnt (waiting_write k) b > 0 then cnt (woken_write k) b > 0 \<or> n = Notify_Writer k
         else (cnt (asleep_read k) b = 0 \<or> n = Notify_Readers k) \<and> cnt (waiting_read k) b > 0"
      using mono(1) [of k] by (auto simp: e split: if_splits)
  qed
  moreover have "rw_counts s b" using inv(1) assms(8) by (auto simp: rw_counts_def rw_rest_def e) (auto simp: a_def b_def)
  ultimately show ?thesis by (simp add: rw_inv_counts b_def)
qed

text \<open>The pointer changes among the values that are no pointers.\<close>

lemma pc_ok_unshared: "(\<forall>k. p \<noteq> Private k) \<Longrightarrow> pc_ok p pc \<Longrightarrow> pc_ok q pc"
  by (cases pc) auto

lemma pointer_move:
  assumes "rw_inv s (add_mset pc m)" "\<forall>k. impl_ptr s \<noteq> Private k" "\<forall>k. p \<noteq> Private k"
    "\<And>k. waiting_read k pc' = waiting_read k pc" "\<And>k. waiting_write k pc' = waiting_write k pc" "pc_ok p pc'"
    "holders_ok (s\<lparr>impl_ptr := p\<rparr>) (cnt is_reader (add_mset pc' m)) (cnt is_writer (add_mset pc' m))"
  shows "rw_inv_after (s\<lparr>impl_ptr := p\<rparr>) n (add_mset pc' m)"
proof -
  define a where "a = add_mset pc m"
  define b where "b = add_mset pc' m"
  have e: "cnt (waiting_read k) b = cnt (waiting_read k) a" "cnt (waiting_write k) b = cnt (waiting_write k) a" for k
    using assms(4,5) by (simp_all add: a_def b_def)
  have "pc_ok p x" if "x \<in># b" for x
    using that assms(1,6) pc_ok_unshared [OF assms(2)] by (auto simp: rw_inv_counts rw_counts_def rw_rest_def b_def)
  moreover have "rw_counts s a" using assms(1) by (simp add: rw_inv_counts a_def)
  ultimately have "rw_counts (s\<lparr>impl_ptr := p\<rparr>) b"
    using assms(2,3,7) by (auto simp: rw_counts_def rw_rest_def e b_def [symmetric])
  then show ?thesis using holders_unshared [of "s\<lparr>impl_ptr := p\<rparr>"] assms(3) by (simp add: rw_inv_counts b_def)
qed

text \<open>A block is published for a held lock.\<close>

lemma publish:
  assumes "rw_inv s (add_mset pc m)" "\<forall>k. impl_ptr s \<noteq> Private k" "cnt is_reader (add_mset pc m) > 0 \<or> cnt is_writer (add_mset pc m) > 0"
    "is_reader pc' = is_reader pc" "is_writer pc' = is_writer pc"
    "\<And>j. waiting_read j pc' = waiting_read j pc" "\<And>j. waiting_write j pc' = waiting_write j pc" "pc_ok (Private k) pc'"
    "reader_count v = cnt is_reader (add_mset pc m)" "writer_count v = cnt is_writer (add_mset pc m)"
    "waiting_readers v = 0" "waiting_writers v = 0"
  shows "rw_inv_after ((with_block k v s)\<lparr>impl_ptr := Private k\<rparr>) n (add_mset pc' m)"
proof -
  define a where "a = add_mset pc m"
  define b where "b = add_mset pc' m"
  have e: "cnt is_reader b = cnt is_reader a" "cnt is_writer b = cnt is_writer a"
    "cnt (waiting_read j) b = cnt (waiting_read j) a" "cnt (waiting_write j) b = cnt (waiting_write j) a" for j
    using assms(4-7) by (simp_all add: a_def b_def)
  have inv: "rw_counts s a" using assms(1) by (simp add: rw_inv_counts a_def)
  then have z: "cnt (waiting_read j) a = 0" "cnt (waiting_write j) a = 0" for j
    using assms(2) unfolding rw_counts_def rw_rest_def empty_private_def by (metis rw_private.select_convs(3,4))+
  have "pc_ok (Private k) x" if "x \<in># b" for x
    using that assms(1,8) pc_ok_unshared [OF assms(2)] by (auto simp: rw_inv_counts rw_counts_def rw_rest_def b_def)
  moreover have "cnt is_writer a = 0 \<or> cnt is_writer a = 1 \<and> cnt is_reader a = 0"
    using inv assms(2) by (auto simp: rw_counts_def rw_rest_def holders_ok.simps split: lock_ptr.splits)
  ultimately have "rw_counts ((with_block k v s)\<lparr>impl_ptr := Private k\<rparr>) b"
    using inv assms(2,9-12) z by (auto simp: rw_counts_def rw_rest_def e a_def [symmetric] holders_ok.simps)
  moreover have "awake_after ((with_block k v s)\<lparr>impl_ptr := Private k\<rparr>) n b"
    using assms(3) by (intro awake_held) (simp add: e a_def [symmetric])
  ultimately show ?thesis by (simp add: rw_inv_counts b_def)
qed

text \<open>The attempts to get the lock of a published block; the thread itself is not counted.\<close>

definition rw_idle :: "rw_shared \<Rightarrow> pc multiset \<Rightarrow> nat \<Rightarrow> bool" where
  "rw_idle s m k \<longleftrightarrow> impl_ptr s = Private k \<and> rw_counts s m"

lemma rw_counts_upd:
  assumes "rw_rest s m" "impl_ptr s = Private k" "pc_ok (Private k) pc"
    "reader_count q = cnt is_reader (add_mset pc m)" "writer_count q = cnt is_writer (add_mset pc m)"
    "cnt is_writer (add_mset pc m) = 0 \<or> cnt is_writer (add_mset pc m) = 1 \<and> cnt is_reader (add_mset pc m) = 0"
    "waiting_readers q = cnt (waiting_read k) (add_mset pc m)" "waiting_writers q = cnt (waiting_write k) (add_mset pc m)"
    "\<And>j. j \<noteq> k \<Longrightarrow> \<not> waiting_read j pc \<and> \<not> waiting_write j pc"
  shows "rw_counts (with_block k q s) (add_mset pc m)"
proof -
  note c = assms(1) [unfolded rw_rest_def]
  have "waiting_readers (blocks (with_block k q s) j) = cnt (waiting_read j) (add_mset pc m) \<and>
      waiting_writers (blocks (with_block k q s) j) = cnt (waiting_write j) (add_mset pc m)" for j
  proof (cases "j = k")
    case False
    then show ?thesis using assms(9) [OF False] c by simp
  qed (use assms(7,8) in simp)
  moreover have "blocks (with_block k q s) j = empty_private" if "impl_ptr s \<noteq> Private j" for j
    using that c assms(2) by auto
  ultimately show ?thesis
    using c assms(2-6) unfolding rw_counts_def rw_rest_def by (simp add: holders_ok.simps del: cnt_add)
qed

lemma read_attempt:
  assumes "rw_idle s m k"
    "cnt is_reader m = 0 \<Longrightarrow> cnt is_writer m = 0 \<Longrightarrow> cnt (waiting_write k) m > 0 \<Longrightarrow> cnt (woken_write k) m > 0"
    "private_lock_for_read c t k s = (s', pc', n)"
  shows "rw_inv_after s' n (add_mset pc' m) \<and> n = No_Notify"
proof -
  let ?p = "blocks s k"
  have ptr: "impl_ptr s = Private k" and counts: "rw_counts s m" using assms(1) by (simp_all add: rw_idle_def)
  have b: "reader_count ?p = cnt is_reader m" "writer_count ?p = cnt is_writer m"
    "cnt is_writer m = 0 \<or> cnt is_writer m = 1 \<and> cnt is_reader m = 0"
    "waiting_readers ?p = cnt (waiting_read k) m" "waiting_writers ?p = cnt (waiting_write k) m"
    using counts ptr by (auto simp: rw_counts_def rw_rest_def holders_ok.simps)
  show ?thesis
  proof (cases "waiting_writers ?p \<noteq> 0 \<or> writer_count ?p \<noteq> 0")
    case True
    then have w: "cnt (waiting_write k) m > 0 \<or> cnt is_writer m > 0"
      using b cnt_nonneg [of "waiting_write k" m] by auto
    show ?thesis
    proof (cases "t = 0 \<or> (t > 0 \<and> ch_expired c)")
      case stop: True
      then have s: "s' = s" "pc' = Idle" "n = No_Notify" using assms(3) True by (simp_all add: private_lock_for_read_def Let_def)
      have "rw_counts s (add_mset Idle m)" using counts by (simp add: rw_counts_def rw_rest_def)
      moreover have "awake_after s No_Notify (add_mset Idle m)"
        using w assms(2) ptr by (auto simp: awake_after_def)
      ultimately show ?thesis by (simp add: s rw_inv_counts)
    next
      case False
      then have s: "s' = with_block k (?p\<lparr>waiting_readers := waiting_readers ?p + 1\<rparr>) s" "pc' = Read_Wait t k" "n = No_Notify"
        using assms(3) True by (auto simp: private_lock_for_read_def Let_def)
      have "rw_counts s' (add_mset pc' m)" unfolding s by (rule rw_counts_upd [OF rw_counts_rest [OF counts] ptr]) (use b in auto)
      moreover have "awake_after s' No_Notify (add_mset pc' m)"
        using w assms(2) ptr by (auto simp: awake_after_def s)
      ultimately show ?thesis by (simp add: s(3) rw_inv_counts)
    qed
  next
    case False
    then have s: "s' = with_block k (?p\<lparr>reader_count := reader_count ?p + 1\<rparr>) s" "pc' = Has_Read" "n = No_Notify"
      using assms(3) by (simp_all add: private_lock_for_read_def Let_def)
    have "rw_counts s' (add_mset pc' m)" unfolding s by (rule rw_counts_upd [OF rw_counts_rest [OF counts] ptr]) (use b False in auto)
    moreover have "awake_after s' No_Notify (add_mset pc' m)" by (rule awake_held) (simp add: s)
    ultimately show ?thesis by (simp add: s(3) rw_inv_counts)
  qed
qed

lemma write_attempt:
  assumes "rw_idle s m k" "private_lock_for_write c t k s = (s', pc', n)"
  shows "rw_inv_after s' n (add_mset pc' m) \<and> (n \<noteq> No_Notify \<longrightarrow> pc' = Idle)"
proof -
  let ?p = "blocks s k"
  have ptr: "impl_ptr s = Private k" and counts: "rw_counts s m" using assms(1) by (simp_all add: rw_idle_def)
  have b: "reader_count ?p = cnt is_reader m" "writer_count ?p = cnt is_writer m"
    "cnt is_writer m = 0 \<or> cnt is_writer m = 1 \<and> cnt is_reader m = 0"
    "waiting_readers ?p = cnt (waiting_read k) m" "waiting_writers ?p = cnt (waiting_write k) m"
    using counts ptr by (auto simp: rw_counts_def rw_rest_def holders_ok.simps)
  show ?thesis
  proof (cases "reader_count ?p \<noteq> 0 \<or> writer_count ?p \<noteq> 0")
    case True
    then have w: "cnt is_reader m > 0 \<or> cnt is_writer m > 0" using b cnt_nonneg [of is_reader m] by auto
    show ?thesis
    proof (cases "t = 0 \<or> (t > 0 \<and> ch_expired c)")
      case stop: True
      then have s: "s' = s" "pc' = Idle" using assms(2) True by (auto simp: private_lock_for_write_def Let_def split: if_splits)
      have "rw_counts s (add_mset Idle m)" using counts by (simp add: rw_counts_def rw_rest_def)
      moreover have "awake_after s n (add_mset Idle m)" using w by (intro awake_held) simp
      ultimately show ?thesis by (simp add: s rw_inv_counts)
    next
      case False
      then have s: "s' = with_block k (?p\<lparr>waiting_writers := waiting_writers ?p + 1\<rparr>) s" "pc' = Write_Wait t k" "n = No_Notify"
        using assms(2) True by (auto simp: private_lock_for_write_def Let_def)
      have "rw_counts s' (add_mset pc' m)" unfolding s by (rule rw_counts_upd [OF rw_counts_rest [OF counts] ptr]) (use b in auto)
      moreover have "awake_after s' n (add_mset pc' m)" using w by (intro awake_held) (simp add: s)
      ultimately show ?thesis by (simp add: s(3) rw_inv_counts)
    qed
  next
    case False
    then have s: "s' = with_block k (?p\<lparr>writer_count := 1\<rparr>) s" "pc' = Has_Write" "n = No_Notify"
      using assms(2) by (simp_all add: private_lock_for_write_def Let_def)
    have "rw_counts s' (add_mset pc' m)" unfolding s by (rule rw_counts_upd [OF rw_counts_rest [OF counts] ptr]) (use b False in auto)
    moreover have "awake_after s' No_Notify (add_mset pc' m)" by (rule awake_held) (simp add: s)
    ultimately show ?thesis by (simp add: s(3) rw_inv_counts)
  qed
qed

end
