(* ===== verification/Lock_Steps.thy ===== *)
theory Lock_Steps
  imports Lock_Proofs
begin

text \<open>Every step of \<open>ReadWriteLock\<close> keeps the invariant, and what follows for the reachable states.\<close>

section \<open>The threads that try to lock\<close>

text \<open>The places of a thread that neither holds the lock nor waits for it.\<close>

fun outside :: "pc \<Rightarrow> bool" where
  "outside Idle = True"
| "outside (Read_Loop t d) = True"
| "outside (Write_Loop t d) = True"
| "outside (Read_Mutex t k) = True"
| "outside (Write_Mutex t k) = True"
| "outside pc = False"

lemma outside_simps:
  assumes "outside pc"
  shows "is_reader pc = False" "is_writer pc = False" "waiting_read k pc = False" "waiting_write k pc = False"
    "asleep_read k pc = False" "woken_write k pc = False" "pc_ok p pc"
  using assms by (cases pc; simp)+

lemma outside_move:
  assumes "rw_inv s (add_mset pc m)" "outside pc" "outside pc'"
  shows "rw_inv_after s n (add_mset pc' m)"
  using assms by (intro local_move [OF assms(1)]) (auto simp: outside_simps)

lemma rw_inv_holders: "rw_inv s m \<Longrightarrow> holders_ok s (cnt is_reader m) (cnt is_writer m)"
  by (simp add: rw_inv_def)

lemma take_free_lock:
  assumes "rw_inv s (add_mset pc m)" "outside pc" "impl_ptr s = p" "\<forall>k. p \<noteq> Private k"
    "(p, q, pc') \<in> {(Null, Locked_For_Read 0, Has_Read), (Null, Locked_For_Write, Has_Write)} \<or>
     (\<exists>i. p = Locked_For_Read i \<and> q = Locked_For_Read (i + 1) \<and> pc' = Has_Read)"
  shows "rw_inv_after (s\<lparr>impl_ptr := q\<rparr>) n (add_mset pc' m)"
proof (rule pointer_move [OF assms(1)])
  show "holders_ok (s\<lparr>impl_ptr := q\<rparr>) (cnt is_reader (add_mset pc' m)) (cnt is_writer (add_mset pc' m))"
    using rw_inv_holders [OF assms(1)] assms(2-5) by (auto simp: holders_ok.simps outside_simps)
qed (use assms(2-5) in \<open>auto simp: outside_simps\<close>)

lemma publish_held:
  assumes "rw_inv s (add_mset pc m)" "outside pc" "outside pc'" "impl_ptr s = p"
    "p = Locked_For_Write \<and> v = (blocks s k)\<lparr>writer_count := 1\<rparr> \<or>
     (\<exists>i. p = Locked_For_Read i \<and> v = (blocks s k)\<lparr>reader_count := int i + 1\<rparr>)"
  shows "rw_inv_after ((with_block k v s)\<lparr>impl_ptr := Private k\<rparr>) n (add_mset pc' m)"
proof -
  have "blocks s k = empty_private" using assms(1,4,5) by (auto simp: rw_inv_def)
  then show ?thesis
    using rw_inv_holders [OF assms(1)] assms(2-5)
    by (intro publish [OF assms(1)]) (auto simp: outside_simps holders_ok.simps empty_private_def)
qed

lemma read_loop_inv:
  assumes "rw_inv s (add_mset pc m)" "outside pc" "read_loop c s t dptr = (s', pc', n)"
  shows "rw_inv_after s' n (add_mset pc' m) \<and> n = No_Notify"
proof (cases "impl_ptr s = dptr \<and> (\<forall>k. dptr \<noteq> Private k) \<and> (dptr = Locked_For_Write \<longrightarrow> t \<noteq> 0)")
  case False
  then have "s' = s \<and> outside pc' \<and> n = No_Notify"
    using assms(3) by (auto simp: read_loop_def test_and_set_def Let_def split: lock_ptr.splits if_splits)
  then show ?thesis using outside_move [OF assms(1,2)] by blast
next
  case True
  show ?thesis
  proof (cases dptr)
    case Locked_For_Write
    then have e: "s' = (with_block (ch_block c) ((blocks s (ch_block c))\<lparr>writer_count := 1\<rparr>) s)\<lparr>impl_ptr := Private (ch_block c)\<rparr>"
      "pc' = Read_Mutex t (ch_block c)" "n = No_Notify"
      using assms(3) True by (auto simp: read_loop_def Let_def)
    show ?thesis unfolding e using publish_held [OF assms(1,2)] True Locked_For_Write by simp
  qed (use assms(3) True take_free_lock [OF assms(1,2)] in \<open>auto simp: read_loop_def test_and_set_def\<close>)
qed

lemma write_loop_inv:
  assumes "rw_inv s (add_mset pc m)" "outside pc" "write_loop c s t dptr = (s', pc', n)"
  shows "rw_inv_after s' n (add_mset pc' m) \<and> n = No_Notify"
proof (cases "impl_ptr s = dptr \<and> (\<forall>k. dptr \<noteq> Private k) \<and> (dptr \<noteq> Null \<longrightarrow> t \<noteq> 0)")
  case False
  then have "s' = s \<and> outside pc' \<and> n = No_Notify"
    using assms(3) by (auto simp: write_loop_def test_and_set_def Let_def split: lock_ptr.splits if_splits)
  then show ?thesis using outside_move [OF assms(1,2)] by blast
next
  case True
  let ?k = "ch_block c"
  show ?thesis
  proof (cases dptr)
    case Null
    then show ?thesis using assms(3) True take_free_lock [OF assms(1,2)] by (auto simp: write_loop_def test_and_set_def)
  next
    case (Locked_For_Read i)
    then have e: "s' = (with_block ?k ((blocks s ?k)\<lparr>reader_count := int i + 1\<rparr>) s)\<lparr>impl_ptr := Private ?k\<rparr>"
      "pc' = Write_Mutex t ?k" "n = No_Notify"
      using assms(3) True by (auto simp: write_loop_def Let_def)
    show ?thesis unfolding e using publish_held [OF assms(1,2)] True Locked_For_Read by simp
  next
    case Locked_For_Write
    then have e: "s' = (with_block ?k ((blocks s ?k)\<lparr>writer_count := 1\<rparr>) s)\<lparr>impl_ptr := Private ?k\<rparr>"
      "pc' = Write_Mutex t ?k" "n = No_Notify"
      using assms(3) True by (auto simp: write_loop_def Let_def)
    show ?thesis unfolding e using publish_held [OF assms(1,2)] True Locked_For_Write by simp
  qed (use True in simp)
qed

text \<open>A thread leaves its place to try the lock of a published block.\<close>

lemma leave_outside:
  assumes "rw_inv s (add_mset pc m)" "outside pc" "impl_ptr s = Private k"
  shows "rw_idle s m k"
    "cnt is_reader m = 0 \<Longrightarrow> cnt is_writer m = 0 \<Longrightarrow> cnt (waiting_write k) m > 0 \<Longrightarrow> cnt (woken_write k) m > 0"
  using assms by (auto simp: rw_idle_def rw_inv_counts rw_counts_def rw_rest_def outside_simps awake_def)

lemma waiting_shared:
  assumes "rw_inv s m" "cnt (waiting_read k) m > 0 \<or> cnt (waiting_write k) m > 0"
  shows "impl_ptr s = Private k"
proof (rule ccontr)
  assume "impl_ptr s \<noteq> Private k"
  then have "blocks s k = empty_private" using assms(1) by (simp add: rw_inv_def)
  then show False using assms by (auto simp: rw_inv_def empty_private_def dest: spec [of _ k])
qed

lemma leave_waiting:
  assumes "rw_inv s (add_mset pc m)" "impl_ptr s = Private k" "\<not> is_reader pc" "\<not> is_writer pc"
    "\<And>j. j \<noteq> k \<Longrightarrow> \<not> waiting_read j pc \<and> \<not> waiting_write j pc"
    "reader_count q = reader_count (blocks s k)" "writer_count q = writer_count (blocks s k)"
    "waiting_readers q = cnt (waiting_read k) m" "waiting_writers q = cnt (waiting_write k) m"
  shows "rw_idle (with_block k q s) m k"
proof -
  have inv: "holders_ok s (cnt is_reader m) (cnt is_writer m)" "rw_rest s (add_mset pc m)"
    using assms(1,3,4) by (simp_all add: rw_inv_counts rw_counts_def)
  have "waiting_readers (blocks (with_block k q s) j) = cnt (waiting_read j) m \<and>
      waiting_writers (blocks (with_block k q s) j) = cnt (waiting_write j) m" for j
  proof (cases "j = k")
    case False
    then show ?thesis using assms(5) [OF False] inv(2) by (simp add: rw_rest_def)
  qed (use assms(8,9) in simp)
  moreover have "blocks (with_block k q s) j = empty_private" if "impl_ptr s \<noteq> Private j" for j
    using that inv(2) assms(2) by (auto simp: rw_rest_def)
  moreover have "holders_ok (with_block k q s) (cnt is_reader m) (cnt is_writer m)"
    using inv(1) assms(2,6,7) by (simp add: holders_ok.simps)
  ultimately show ?thesis using inv(2) assms(2) by (simp add: rw_idle_def rw_counts_def rw_rest_def)
qed

lemma leave_woken_read:
  assumes "rw_inv s (add_mset (Read_Woken t k) m)"
  shows "rw_idle (with_block k ((blocks s k)\<lparr>waiting_readers := waiting_readers (blocks s k) - 1\<rparr>) s) m k"
    "cnt is_reader m = 0 \<Longrightarrow> cnt is_writer m = 0 \<Longrightarrow> cnt (waiting_write k) m > 0 \<Longrightarrow> cnt (woken_write k) m > 0"
proof -
  have ptr: "impl_ptr s = Private k" by (rule waiting_shared [OF assms(1)]) simp
  show "rw_idle (with_block k ((blocks s k)\<lparr>waiting_readers := waiting_readers (blocks s k) - 1\<rparr>) s) m k"
    by (rule leave_waiting [OF assms(1) ptr]) (use assms in \<open>auto simp: rw_inv_def\<close>)
  show "cnt is_reader m = 0 \<Longrightarrow> cnt is_writer m = 0 \<Longrightarrow> cnt (waiting_write k) m > 0 \<Longrightarrow> cnt (woken_write k) m > 0"
    using assms(1) ptr by (auto simp: rw_inv_def awake_def)
qed

lemma leave_woken_write:
  assumes "rw_inv s (add_mset (Write_Woken t k) m)"
  shows "rw_idle (with_block k ((blocks s k)\<lparr>waiting_writers := waiting_writers (blocks s k) - 1\<rparr>) s) m k"
proof -
  have ptr: "impl_ptr s = Private k" by (rule waiting_shared [OF assms(1)]) simp
  show ?thesis by (rule leave_waiting [OF assms(1) ptr]) (use assms in \<open>auto simp: rw_inv_def\<close>)
qed

section \<open>The threads that unlock\<close>

lemma pc_ok_Null: "pc_ok p pc \<Longrightarrow> \<not> is_reader pc \<Longrightarrow> \<not> is_writer pc \<Longrightarrow> pc_ok Null pc"
  by (cases pc) auto

lemma held_not_Null:
  assumes "rw_inv s (add_mset pc m)" "is_reader pc \<or> is_writer pc"
  shows "impl_ptr s \<noteq> Null"
proof
  assume "impl_ptr s = Null"
  then have "cnt is_reader (add_mset pc m) = 0" "cnt is_writer (add_mset pc m) = 0"
    using rw_inv_holders [OF assms(1)] by (auto simp: holders_ok.simps)
  then show False using assms(2) cnt_nonneg [of is_reader m] cnt_nonneg [of is_writer m] by (auto split: if_splits)
qed

lemma unlock_loop_inv:
  assumes "rw_inv s (add_mset (Unlock_Loop w dptr) m)" "unlock_loop s w dptr = (s', pc', n)"
  shows "rw_inv_after s' n (add_mset pc' m) \<and> n = No_Notify"
proof -
  let ?pc = "Unlock_Loop w dptr"
  have ok: "dptr \<noteq> Null" "\<And>k. dptr = Private k \<Longrightarrow> impl_ptr s = Private k" using assms(1) by (auto simp: rw_inv_def)
  have stay: "rw_inv_after s No_Notify (add_mset x m)" if "x = Unlock_Loop w (impl_ptr s) \<or> x = Unlock_Mutex w k \<and> dptr = Private k" for x k
    using that ok held_not_Null [OF assms(1)] by (intro local_move [OF assms(1)]) auto
  have give: "rw_inv_after (s\<lparr>impl_ptr := p\<rparr>) No_Notify (add_mset Idle m)"
    if "impl_ptr s = dptr" "dptr = Locked_For_Write \<and> p = Null \<or> dptr = Locked_For_Read 0 \<and> p = Null \<or>
      (\<exists>i. dptr = Locked_For_Read (Suc i) \<and> p = Locked_For_Read i)" for p
  proof (rule pointer_move [OF assms(1)])
    show "holders_ok (s\<lparr>impl_ptr := p\<rparr>) (cnt is_reader (add_mset Idle m)) (cnt is_writer (add_mset Idle m))"
      using rw_inv_holders [OF assms(1)] that cnt_nonneg [of is_reader m] cnt_nonneg [of is_writer m]
      by (cases w) (auto simp: holders_ok.simps)
  qed (use that in auto)
  show ?thesis
    using assms(2) ok stay give
    by (auto simp: unlock_loop_def test_and_set_def split: lock_ptr.splits nat.splits if_splits)
qed

text \<open>The critical section of \<open>unlock\<close>: both assertions hold, and whoever must be woken is.\<close>

lemma unlock_mutex_inv:
  assumes "rw_inv s (add_mset (Unlock_Mutex w k) m)" "unlock_mutex s k = (s', pc', n)"
  shows "rw_inv_after s' n (add_mset pc' m) \<and> pc' = Idle"
proof -
  let ?p = "blocks s k"
  define q where "q = (if writer_count ?p \<noteq> 0 then ?p\<lparr>writer_count := 0\<rparr> else ?p\<lparr>reader_count := reader_count ?p - 1\<rparr>)"
  have ptr: "impl_ptr s = Private k" and rest: "rw_rest s (add_mset (Unlock_Mutex w k) m)"
    using assms(1) by (auto simp: rw_inv_counts rw_counts_def rw_rest_def)
  then have rest': "rw_rest s m" by (simp add: rw_rest_def)
  have b: "reader_count ?p = (if w then 0 else 1) + cnt is_reader m" "writer_count ?p = (if w then 1 else 0) + cnt is_writer m"
    "writer_count ?p = 0 \<or> writer_count ?p = 1 \<and> reader_count ?p = 0"
    using rw_inv_holders [OF assms(1)] ptr by (auto simp: holders_ok.simps)
  have p: "writer_count ?p \<noteq> 0 \<Longrightarrow> writer_count ?p = 1 \<and> reader_count ?p = 0" "writer_count ?p = 0 \<Longrightarrow> reader_count ?p > 0"
    using b cnt_nonneg [of is_writer m] by (auto split: if_splits)
  have q: "reader_count q = cnt is_reader m" "writer_count q = cnt is_writer m" "cnt is_writer m = 0"
    "writer_count ?p \<noteq> 0 \<Longrightarrow> reader_count q = 0"
    "waiting_readers q = cnt (waiting_read k) m" "waiting_writers q = cnt (waiting_write k) m"
    using b cnt_nonneg [of is_writer m] cnt_nonneg [of is_reader m] rest' by (auto simp: q_def rw_rest_def split: if_splits)
  have step: "(s', pc', n) =
      (if writer_count ?p = 0 \<and> reader_count q > 0 then (with_block k q s, Idle, No_Notify)
       else if waiting_readers q \<noteq> 0 \<or> waiting_writers q \<noteq> 0 then (with_block k q s, Idle, private_unlock k q)
       else if q \<noteq> empty_private then (s, Failed, No_Notify)
       else ((with_block k q s)\<lparr>impl_ptr := Null\<rparr>, Idle, No_Notify))"
    using assms(2) p unfolding unlock_mutex_def Let_def q_def [symmetric] ptr by (auto split: if_splits)
  have counts: "rw_counts (with_block k q s) (add_mset Idle m)"
    by (rule rw_counts_upd [OF rest' ptr]) (use q in simp_all)
  consider (more) "writer_count ?p = 0" "reader_count q > 0"
    | (wake) "reader_count q = 0" "waiting_readers q \<noteq> 0 \<or> waiting_writers q \<noteq> 0"
    | (free) "reader_count q = 0" "waiting_readers q = 0" "waiting_writers q = 0"
    using q cnt_nonneg [of is_reader m] by fastforce
  then show ?thesis
  proof cases
    case more
    then have "s' = with_block k q s" "pc' = Idle" "n = No_Notify" using step by simp_all
    then show ?thesis using counts awake_held [of "add_mset Idle m"] more q by (simp add: rw_inv_counts)
  next
    case wake
    then have s: "s' = with_block k q s" "pc' = Idle" "n = private_unlock k q" using step by simp_all
    have "awake_after s' n (add_mset Idle m)"
      using wake(2) q cnt_nonneg [of "waiting_read k" m] cnt_nonneg [of "waiting_write k" m] ptr
      by (auto simp: awake_after_def s private_unlock_def)
    then show ?thesis using counts s by (simp add: rw_inv_counts)
  next
    case free
    then have e: "q = empty_private" using q by (auto simp: empty_private_def intro!: rw_private.equality)
    then have s: "s' = (with_block k q s)\<lparr>impl_ptr := Null\<rparr>" "pc' = Idle" "n = No_Notify" using step free by simp_all
    have "pc_ok Null x" if "x \<in># m" for x
    proof (rule pc_ok_Null)
      show "pc_ok (Private k) x" using that rest' ptr by (simp add: rw_rest_def)
      show "\<not> is_reader x" "\<not> is_writer x" using that free q cnt_zero [of is_reader m] cnt_zero [of is_writer m] by auto
    qed
    moreover have "blocks s' j = empty_private" for j using rest' ptr e s(1) by (auto simp: rw_rest_def)
    ultimately have "rw_counts s' (add_mset Idle m)"
      using free q counts s(1) unfolding rw_counts_def rw_rest_def by (simp add: holders_ok.simps)
    moreover have "awake_after s' n (add_mset Idle m)" by (rule holders_unshared) (simp add: s(1))
    ultimately show ?thesis using s(2) by (simp add: rw_inv_counts)
  qed
qed

section \<open>All steps\<close>

lemma thread_step_inv:
  assumes "rw_inv s (add_mset pc m)" "thread_step c s pc = (s', pc', n)"
  shows "rw_inv_after s' n (add_mset pc' m) \<and> (n \<noteq> No_Notify \<longrightarrow> pc' = Idle)"
proof -
  note inv = assms(1) and step = assms(2)
  have moved: "?thesis" if "s' = s" "n = No_Notify" "rw_inv_after s No_Notify (add_mset pc' m)" using that by simp
  show ?thesis
  proof (cases pc)
    case Idle
    then show ?thesis using step read_loop_inv [OF inv] write_loop_inv [OF inv] by (auto split: if_splits)
  next
    case (Read_Loop t d)
    then show ?thesis using step read_loop_inv [OF inv] by simp
  next
    case (Write_Loop t d)
    then show ?thesis using step write_loop_inv [OF inv] by simp
  next
    case (Read_Mutex t k)
    show ?thesis
    proof (cases "impl_ptr s = Private k")
      case True
      then have a: "private_lock_for_read c t k s = (s', pc', n)" using step Read_Mutex by simp
      have out: "outside pc" using Read_Mutex by simp
      show ?thesis using read_attempt [OF leave_outside [OF inv out True] a] by blast
    next
      case False
      then show ?thesis using step Read_Mutex outside_move [OF inv] by auto
    qed
  next
    case (Write_Mutex t k)
    show ?thesis
    proof (cases "impl_ptr s = Private k")
      case True
      then have a: "private_lock_for_write c t k s = (s', pc', n)" using step Write_Mutex by simp
      have out: "outside pc" using Write_Mutex by simp
      show ?thesis using write_attempt [OF leave_outside(1) [OF inv out True] a] by blast
    next
      case False
      then show ?thesis using step Write_Mutex outside_move [OF inv] by auto
    qed
  next
    case (Read_Wait t k)
    then show ?thesis using step by (intro moved local_move [OF inv]) auto
  next
    case (Write_Wait t k)
    then show ?thesis using step by (intro moved local_move [OF inv]) auto
  next
    case (Read_Woken t k)
    then have a: "private_lock_for_read c t k (with_block k ((blocks s k)\<lparr>waiting_readers := waiting_readers (blocks s k) - 1\<rparr>) s) = (s', pc', n)"
      using step by (simp add: Let_def)
    show ?thesis using read_attempt [OF leave_woken_read [OF inv [unfolded Read_Woken]] a] by blast
  next
    case (Write_Woken t k)
    then have a: "private_lock_for_write c t k (with_block k ((blocks s k)\<lparr>waiting_writers := waiting_writers (blocks s k) - 1\<rparr>) s) = (s', pc', n)"
      using step by (simp add: Let_def)
    show ?thesis using write_attempt [OF leave_woken_write [OF inv [unfolded Write_Woken]] a] by blast
  next
    case Has_Read
    then show ?thesis using step held_not_Null [OF inv] by (intro moved local_move [OF inv]) auto
  next
    case Has_Write
    then show ?thesis using step held_not_Null [OF inv] by (intro moved local_move [OF inv]) auto
  next
    case (Unlock_Loop w d)
    then show ?thesis using step inv unlock_loop_inv by auto
  next
    case (Unlock_Mutex w k)
    then show ?thesis using step inv unlock_mutex_inv by auto
  next
    case Failed
    then show ?thesis using inv by (simp add: rw_inv_def)
  qed
qed

lemma rw_step_inv:
  assumes "rw_step g g'" "rw_inv (fst g) (snd g)"
  shows "rw_inv (fst g') (snd g')"
  using assms
proof cases
  case (step c s pc s' pc' n m m')
  have inv: "rw_inv_after s' n (add_mset pc' m) \<and> (n \<noteq> No_Notify \<longrightarrow> pc' = Idle)"
    using step assms(2) by (intro thread_step_inv) auto
  show ?thesis unfolding step by (simp, rule rw_inv_notify [OF _ step(4)]) (use inv in auto)
qed

lemma rw_reachable_inv: "rw_reachable g \<Longrightarrow> rw_inv (fst g) (snd g)"
proof (induction rule: rw_reachable.induct)
  case (start threads)
  have "cnt P (replicate_mset threads Idle) = 0" if "\<not> P Idle" for P
    using that by (simp add: cnt_zero)
  then show ?case by (auto simp: rw_inv_def rw_lock_new_def holders_ok.simps empty_private_def awake_def)
qed (rule rw_step_inv)

section \<open>What holds in every reachable state\<close>

text \<open>C14: in every reachable state at most one thread holds the lock for writing, and none for reading beside it; no
  assertion of the code has failed; the pointer is null exactly when nobody holds the lock and nobody waits for it; a
  published block counts the threads that hold the lock and those that wait.\<close>

theorem rw_lock_exclusion:
  assumes "rw_reachable (s, m)"
  shows "cnt is_writer m \<le> 1 \<and> (cnt is_writer m = 1 \<longrightarrow> cnt is_reader m = 0) \<and> Failed \<notin># m
    \<and> (impl_ptr s = Null \<longleftrightarrow>
         cnt is_reader m = 0 \<and> cnt is_writer m = 0 \<and> (\<forall>k. cnt (waiting_read k) m = 0 \<and> cnt (waiting_write k) m = 0))
    \<and> (\<forall>k. impl_ptr s = Private k \<longrightarrow>
         blocks s k = \<lparr>reader_count = cnt is_reader m, writer_count = cnt is_writer m,
                       waiting_readers = cnt (waiting_read k) m, waiting_writers = cnt (waiting_write k) m\<rparr>)
    \<and> (\<forall>k. impl_ptr s \<noteq> Private k \<longrightarrow> blocks s k = empty_private \<and> cnt (waiting_read k) m = 0 \<and> cnt (waiting_write k) m = 0)"
proof -
  have inv: "rw_inv s m" using rw_reachable_inv [OF assms] by simp
  note h = rw_inv_holders [OF inv]
  have waits: "waiting_readers (blocks s k) = cnt (waiting_read k) m" "waiting_writers (blocks s k) = cnt (waiting_write k) m"
    "impl_ptr s \<noteq> Private k \<Longrightarrow> blocks s k = empty_private" for k
    using inv by (simp_all add: rw_inv_def)
  have excl: "cnt is_writer m \<le> 1 \<and> (cnt is_writer m = 1 \<longrightarrow> cnt is_reader m = 0)"
    using h by (cases "impl_ptr s") (auto simp: holders_ok.simps)
  have "pc_ok (impl_ptr s) Failed" if "Failed \<in># m" using that inv unfolding rw_inv_def by blast
  then have "Failed \<notin># m" by auto
  moreover have "blocks s k = \<lparr>reader_count = cnt is_reader m, writer_count = cnt is_writer m,
      waiting_readers = cnt (waiting_read k) m, waiting_writers = cnt (waiting_write k) m\<rparr>" if "impl_ptr s = Private k" for k
    using that h waits(1,2) [of k] by (intro rw_private.equality) (auto simp: holders_ok.simps)
  moreover have "blocks s k = empty_private \<and> cnt (waiting_read k) m = 0 \<and> cnt (waiting_write k) m = 0"
    if "impl_ptr s \<noteq> Private k" for k
    using waits(3) [OF that] waits(1,2) [of k] by (simp add: empty_private_def)
  moreover have "impl_ptr s = Null \<Longrightarrow> cnt is_reader m = 0 \<and> cnt is_writer m = 0" using h by (simp add: holders_ok.simps)
  moreover have "impl_ptr s = Null \<or> (\<exists>k. impl_ptr s = Private k)" if "cnt is_reader m = 0" "cnt is_writer m = 0"
    using h that by (cases "impl_ptr s") (auto simp: holders_ok.simps)
  moreover have "cnt (waiting_read k) m > 0 \<or> cnt (waiting_write k) m > 0"
    if "cnt is_reader m = 0" "cnt is_writer m = 0" "impl_ptr s = Private k" for k
    using inv that by (auto simp: rw_inv_def awake_def split: if_splits)
  ultimately show ?thesis using excl by (metis less_irrefl lock_ptr.distinct(5))
qed

lemma rw_move:
  assumes "rw_reachable (s, add_mset pc m)" "thread_step c s pc = (s', pc', n)" "notify n m m'"
  shows "rw_reachable (s', add_mset pc' m')"
  using rw_reachable.move [OF assms(1)] rw_step.step [OF assms(2,3)] by blast

lemma rw_two_threads: "rw_reachable (rw_lock_new, {#Idle, Idle#})"
  using rw_reachable.start [of 2] by (simp add: numeral_2_eq_2)

lemma rw_writer_in: "rw_reachable (rw_lock_new\<lparr>impl_ptr := Locked_For_Write\<rparr>, {#Has_Write, Idle#})"
  by (rule rw_move [OF rw_two_threads _ notify.nobody, where c = "\<lparr>ch_write = True, ch_timeout = -1, ch_block = 0, ch_expired = False\<rparr>"])
     (simp add: write_loop_def test_and_set_def rw_lock_new_def)

theorem rw_lock_exclusion_witness: "cnt is_reader {#Has_Write, Idle#} = 0"
  using rw_lock_exclusion [OF rw_writer_in] by (simp add: cnt_def)

text \<open>C15: no wake-up is lost.  When nobody holds the lock and some thread waits for it, a thread has been woken whose next
  critical section takes the lock, whatever the timeouts.\<close>

theorem rw_lock_no_lost_wakeup:
  assumes "rw_reachable (s, m)" "cnt is_reader m = 0" "cnt is_writer m = 0" "pc \<in># m" "waiting_read k pc \<or> waiting_write k pc"
  shows "\<exists>pc' \<in># m. (\<exists>t. pc' = Read_Woken t k \<or> pc' = Write_Woken t k)
    \<and> (\<forall>c. fst (snd (thread_step c s pc')) = Has_Read \<or> fst (snd (thread_step c s pc')) = Has_Write)"
proof -
  have inv: "rw_inv s m" using rw_reachable_inv [OF assms(1)] by simp
  have some: "cnt (waiting_read k) m > 0 \<or> cnt (waiting_write k) m > 0"
    using assms(4,5) cnt_zero [of "waiting_read k" m] cnt_zero [of "waiting_write k" m]
      cnt_nonneg [of "waiting_read k" m] cnt_nonneg [of "waiting_write k" m] by force
  have ptr: "impl_ptr s = Private k" by (rule waiting_shared [OF inv some])
  have none: "reader_count (blocks s k) = 0" "writer_count (blocks s k) = 0"
    using rw_inv_holders [OF inv] ptr assms(2,3) by (simp_all add: holders_ok.simps)
  have woken: "if cnt (waiting_write k) m > 0 then cnt (woken_write k) m > 0
      else cnt (asleep_read k) m = 0 \<and> cnt (waiting_read k) m > 0"
    using inv ptr assms(2,3) by (simp add: rw_inv_def awake_def)
  show ?thesis
  proof (cases "cnt (waiting_write k) m > 0")
    case True
    then have "cnt (woken_write k) m \<noteq> 0" using woken by simp
    then obtain x where x: "x \<in># m" "woken_write k x" unfolding cnt_zero by blast
    then obtain t where "x = Write_Woken t k" by (cases x) auto
    then show ?thesis using x(1) none by (intro bexI [of _ x]) (auto simp: Let_def private_lock_for_write_def)
  next
    case False
    then have w: "cnt (waiting_read k) m \<noteq> 0" "cnt (asleep_read k) m = 0" using woken by simp_all
    then obtain x where x: "x \<in># m" "waiting_read k x" "\<not> asleep_read k x" unfolding cnt_zero by blast
    then obtain t where "x = Read_Woken t k" by (cases x) auto
    moreover have "waiting_writers (blocks s k) = 0" using inv False cnt_nonneg [of "waiting_write k" m] by (simp add: rw_inv_def)
    ultimately show ?thesis using x(1) none by (intro bexI [of _ x]) (auto simp: Let_def private_lock_for_read_def)
  qed
qed

text \<open>A reader waits for a writer, the writer leaves and wakes it.\<close>

definition run_read :: choice where
  "run_read = \<lparr>ch_write = False, ch_timeout = -1, ch_block = 0, ch_expired = False\<rparr>"

definition run_shared :: "int \<Rightarrow> int \<Rightarrow> rw_shared" where
  "run_shared w r = \<lparr>impl_ptr = Private 0,
     blocks = (\<lambda>k. empty_private)(0 := \<lparr>reader_count = 0, writer_count = w, waiting_readers = r, waiting_writers = 0\<rparr>)\<rparr>"

lemma run_asks: "rw_reachable (rw_lock_new\<lparr>impl_ptr := Locked_For_Write\<rparr>, {#Read_Loop (-1) Locked_For_Write, Has_Write#})"
  by (rule rw_move [where c = run_read, OF rw_writer_in [unfolded add_mset_commute [of Has_Write Idle]] _ notify.nobody])
     (simp add: read_loop_def test_and_set_def rw_lock_new_def run_read_def)

lemma run_publishes: "rw_reachable (run_shared 1 0, {#Read_Mutex (-1) 0, Has_Write#})"
  by (rule rw_move [where c = run_read, OF run_asks _ notify.nobody])
     (simp add: read_loop_def rw_lock_new_def run_read_def run_shared_def with_block_def empty_private_def)

lemma run_sleeps: "rw_reachable (run_shared 1 1, {#Has_Write, Read_Wait (-1) 0#})"
  unfolding add_mset_commute [of Has_Write]
  by (rule rw_move [where c = run_read, OF run_publishes _ notify.nobody])
     (simp add: private_lock_for_read_def Let_def run_read_def run_shared_def with_block_def)

lemma run_unlocks: "rw_reachable (run_shared 1 1, {#Unlock_Mutex True 0, Read_Wait (-1) 0#})"
proof -
  have "rw_reachable (run_shared 1 1, {#Unlock_Loop True (Private 0), Read_Wait (-1) 0#})"
    by (rule rw_move [where c = run_read, OF run_sleeps _ notify.nobody]) (simp add: run_shared_def)
  then show ?thesis by (rule rw_move [where c = run_read, OF _ _ notify.nobody]) (simp add: unlock_loop_def)
qed

lemma run_wakes: "rw_reachable (run_shared 0 1, {#Idle, Read_Woken (-1) 0#})"
proof (rule rw_move [where c = run_read, OF run_unlocks])
  show "thread_step run_read (run_shared 1 1) (Unlock_Mutex True 0) = (run_shared 0 1, Idle, Notify_Readers 0)"
    by (simp add: unlock_mutex_def Let_def run_shared_def private_unlock_def with_block_def)
  show "notify (Notify_Readers 0) {#Read_Wait (-1) 0#} {#Read_Woken (-1) 0#}"
    using notify.readers [of 0 "{#Read_Wait (-1) 0#}"] by simp
qed

theorem rw_lock_no_lost_wakeup_witness: "\<exists>pc' \<in># {#Idle, Read_Woken (-1) 0#}. \<exists>t. pc' = Read_Woken t 0 \<or> pc' = Write_Woken t 0"
  using rw_lock_no_lost_wakeup [OF run_wakes, of "Read_Woken (-1) 0" 0] by (auto simp: cnt_def)

end
