(* ===== verification/Recursive_Locks.thy ===== *)
theory Recursive_Locks
  imports Read_Write_Lock
begin

text \<open>
  \<open>ReadWriteLock\<close> with recursion: \<open>recursiveLockForRead\<close>, \<open>recursiveLockForWrite\<close> and \<open>recursiveUnlock\<close> of
  \<open>ReadWriteLockPrivate\<close>, called without waiting (timeout 0).  Each is one critical section of the mutex.  Threads are
  numbers; the owner of the write lock is \<open>None\<close> while \<open>m_currentWriter\<close> is the handle of no thread.
\<close>

record rec_lock = rw_private +
  current_writer :: "nat option"
  current_readers :: "nat \<rightharpoonup> int"

definition rec_lock_new :: rec_lock where
  "rec_lock_new = rw_private.extend empty_private \<lparr>current_writer = None, current_readers = Map.empty\<rparr>"

definition recursive_try_read :: "nat \<Rightarrow> rec_lock \<Rightarrow> bool \<times> rec_lock" where
  "recursive_try_read self l =
     (case current_readers l self of
        Some n \<Rightarrow> (True, l\<lparr>current_readers := (current_readers l)(self \<mapsto> n + 1)\<rparr>)
      | None \<Rightarrow>
          if waiting_writers l \<noteq> 0 \<or> writer_count l \<noteq> 0 then (False, l)
          else (True, l\<lparr>reader_count := reader_count l + 1, current_readers := (current_readers l)(self \<mapsto> 1)\<rparr>))"

definition recursive_try_write :: "nat \<Rightarrow> rec_lock \<Rightarrow> bool \<times> rec_lock" where
  "recursive_try_write self l =
     (if current_writer l = Some self then (True, l\<lparr>writer_count := writer_count l + 1\<rparr>)
      else if reader_count l \<noteq> 0 \<or> writer_count l \<noteq> 0 then (False, l)
      else (True, l\<lparr>writer_count := 1, current_writer := Some self\<rparr>))"

definition recursive_unlock :: "nat \<Rightarrow> rec_lock \<Rightarrow> rec_lock" where
  "recursive_unlock self l =
     (if current_writer l = Some self
      then if writer_count l - 1 > 0 then l\<lparr>writer_count := writer_count l - 1\<rparr> else l\<lparr>writer_count := 0\<rparr>
      else case current_readers l self of
          None \<Rightarrow> l
        | Some n \<Rightarrow>
            if n - 1 \<le> 0 then l\<lparr>current_readers := (current_readers l)(self := None), reader_count := reader_count l - 1\<rparr>
            else l\<lparr>current_readers := (current_readers l)(self \<mapsto> n - 1)\<rparr>)"

section \<open>Readers only\<close>

text \<open>Operations of readers: thread and whether it locks.\<close>

definition rec_read_op :: "nat \<times> bool \<Rightarrow> rec_lock \<Rightarrow> rec_lock" where
  "rec_read_op op l = (if snd op then snd (recursive_try_read (fst op) l) else recursive_unlock (fst op) l)"

text \<open>The number of read locks that a thread holds after a sequence of operations, unlocking at zero being an error that is ignored.\<close>

fun read_depth :: "nat \<Rightarrow> (nat \<times> bool) list \<Rightarrow> nat \<Rightarrow> nat" where
  "read_depth self [] d = d"
| "read_depth self (op # ops) d = read_depth self ops (if fst op \<noteq> self then d else if snd op then d + 1 else d - 1)"

definition depth_entry :: "nat \<Rightarrow> int option" where
  "depth_entry d = (if d = 0 then None else Some (int d))"

definition readers_inv :: "rec_lock \<Rightarrow> (nat \<Rightarrow> nat) \<Rightarrow> bool" where
  "readers_inv l d \<longleftrightarrow>
     writer_count l = 0 \<and> waiting_writers l = 0 \<and> current_writer l = None \<and> finite {i. d i > 0}
     \<and> reader_count l = int (card {i. d i > 0}) \<and> (\<forall>i. current_readers l i = depth_entry (d i))"

lemma readers_inv_step:
  assumes "readers_inv l d"
  shows "readers_inv (rec_read_op (i, b) l) (d(i := if b then d i + 1 else d i - 1))"
proof -
  define e where "e = d(i := if b then d i + 1 else d i - 1)"
  have f: "finite {j. d j > 0}" and c: "reader_count l = int (card {j. d j > 0})" using assms by (simp_all add: readers_inv_def)
  have l: "writer_count l = 0" "waiting_writers l = 0" "current_writer l = None" "\<And>j. current_readers l j = depth_entry (d j)"
    using assms by (simp_all add: readers_inv_def)
  have s: "{j. e j > 0} = (if e i > 0 then insert i {j. d j > 0} else {j. d j > 0} - {i})" by (auto simp: e_def)
  then have fe: "finite {j. e j > 0}" using f by (auto split: if_splits)
  have "card {j. e j > 0} = (if e i > 0 then if d i > 0 then card {j. d j > 0} else card {j. d j > 0} + 1
      else card {j. d j > 0} - (if d i > 0 then 1 else 0))"
    using f by (auto simp: s insert_absorb)
  moreover have "d i > 0 \<Longrightarrow> card {j. d j > 0} > 0" using f by (auto simp: card_gt_0_iff)
  ultimately show ?thesis
    using l c fe unfolding e_def [symmetric] readers_inv_def
    by (auto simp: rec_read_op_def recursive_try_read_def recursive_unlock_def e_def depth_entry_def
        of_nat_diff split: if_splits option.splits)
qed

lemma readers_inv_run:
  assumes "readers_inv l d"
  shows "readers_inv (fold rec_read_op ops l) (\<lambda>i. read_depth i ops (d i))"
  using assms
proof (induction ops arbitrary: l d)
  case (Cons op ops)
  obtain i b where op: "op = (i, b)" by (cases op)
  have "readers_inv (fold rec_read_op ops (rec_read_op op l))
      (\<lambda>j. read_depth j ops ((d(i := if b then d i + 1 else d i - 1)) j))"
    by (rule Cons.IH) (unfold op, rule readers_inv_step [OF Cons.prems])
  moreover have "(\<lambda>j. read_depth j ops ((d(i := if b then d i + 1 else d i - 1)) j)) = (\<lambda>j. read_depth j (op # ops) (d j))"
    by (auto simp: op fun_eq_iff)
  ultimately show ?case by simp
qed simp

text \<open>as long as nobody locks a new recursive lock for writing, a thread can lock it for writing exactly when every
  thread has unlocked as often as it has locked.\<close>

lemma recursive_readers:
  "fst (recursive_try_write self (fold rec_read_op ops rec_lock_new)) \<longleftrightarrow> (\<forall>i. read_depth i ops 0 = 0)"
proof -
  have new: "readers_inv rec_lock_new (\<lambda>i. 0)"
    by (simp add: readers_inv_def rec_lock_new_def empty_private_def rw_private.defs depth_entry_def)
  note inv = readers_inv_run [OF new, of ops, unfolded readers_inv_def]
  then have "reader_count (fold rec_read_op ops rec_lock_new) = 0 \<longleftrightarrow> {i. read_depth i ops 0 > 0} = {}" by simp
  then show ?thesis using inv by (auto simp: recursive_try_write_def)
qed

section \<open>The owner that is never forgotten\<close>














end
