(* ===== verification/Timer_Lists.thy ===== *)
theory Timer_Lists
  imports Pdk_Prelude
begin

text \<open>
  The timers of the event loop: \<open>TimerInfoList\<close> (\<open>src/kernel/_platform/TimerInfoUnix.cpp\<close>,
  \<open>include/pdk/kernel/internal/TimerInfoUnixPrivate.h\<close>) and the arithmetic of \<open>timespec\<close>
  (\<open>include/pdk/kernel/internal/CoreUnixPrivate.h\<close>).

  Seconds, nanoseconds and intervals are unbounded integers.  The time that the clock gives is the argument \<open>now\<close>.  A
  \<open>TimerInfo\<close> is a record with the address it is allocated at, since the code compares the pointers;
  \<open>m_activateRef\<close> points to the local variable of the activation that is running and is modelled by whether it is null.
\<close>

section \<open>Points in time\<close>

record timespec =
  tv_sec :: int
  tv_nsec :: int

function normalize_up :: "timespec \<Rightarrow> timespec" where
  "normalize_up t =
     (if tv_nsec t \<ge> 1000000000 then normalize_up (t\<lparr>tv_sec := tv_sec t + 1, tv_nsec := tv_nsec t - 1000000000\<rparr>) else t)"
  by auto
termination by (relation "measure (\<lambda>t. nat (tv_nsec t))") auto

function normalize_down :: "timespec \<Rightarrow> timespec" where
  "normalize_down t =
     (if tv_nsec t < 0 then normalize_down (t\<lparr>tv_sec := tv_sec t - 1, tv_nsec := tv_nsec t + 1000000000\<rparr>) else t)"
  by auto
termination by (relation "measure (\<lambda>t. nat (- tv_nsec t))") auto

declare normalize_up.simps [simp del] normalize_down.simps [simp del]

definition normalized_timespec :: "timespec \<Rightarrow> timespec" where
  "normalized_timespec t = normalize_down (normalize_up t)"

definition ts_less :: "timespec \<Rightarrow> timespec \<Rightarrow> bool" where
  "ts_less l r \<longleftrightarrow> tv_sec l < tv_sec r \<or> tv_sec l = tv_sec r \<and> tv_nsec l < tv_nsec r"

definition ts_add :: "timespec \<Rightarrow> timespec \<Rightarrow> timespec" where
  "ts_add l r = normalized_timespec \<lparr>tv_sec = tv_sec l + tv_sec r, tv_nsec = tv_nsec l + tv_nsec r\<rparr>"

definition ts_sub :: "timespec \<Rightarrow> timespec \<Rightarrow> timespec" where
  "ts_sub l r = normalized_timespec \<lparr>tv_sec = tv_sec l - (tv_sec r - 1), tv_nsec = tv_nsec l - (tv_nsec r + 1000000000)\<rparr>"

definition ts_mul :: "timespec \<Rightarrow> int \<Rightarrow> timespec" where
  "ts_mul l mul = normalized_timespec \<lparr>tv_sec = tv_sec l * mul, tv_nsec = tv_nsec l * mul\<rparr>"

definition ts_add_ms :: "timespec \<Rightarrow> int \<Rightarrow> timespec" where
  "ts_add_ms t ms = normalized_timespec \<lparr>tv_sec = tv_sec t + c_div ms 1000, tv_nsec = tv_nsec t + c_mod ms 1000 * 1000 * 1000\<rparr>"

definition abs_timespec :: "timespec \<Rightarrow> timespec" where
  "abs_timespec t =
     (let u = (if tv_sec t < 0 then \<lparr>tv_sec = - tv_sec t - 1, tv_nsec = tv_nsec t - 1000000000\<rparr> else t);
          v = (if tv_sec u = 0 \<and> tv_nsec u < 0 then u\<lparr>tv_nsec := - tv_nsec u\<rparr> else u)
      in normalized_timespec v)"

text \<open>\<open>val\<close> is a normalised length of time.\<close>

definition round_to_millisecond :: "timespec \<Rightarrow> timespec" where
  "round_to_millisecond val =
     (let ns = c_mod (tv_nsec val) (1000 * 1000)
      in normalized_timespec (val\<lparr>tv_nsec := tv_nsec val + (1000 * 1000 - ns)\<rparr>))"

section \<open>Timers\<close>

datatype timer_type = Precise_Timer | Coarse_Timer | Very_Coarse_Timer

record timer_info =
  ti_addr :: nat
  ti_id :: int
  ti_interval :: int
  ti_type :: timer_type
  ti_timeout :: timespec
  ti_obj :: nat
  ti_active :: bool

record timer_list =
  timers :: "timer_info list"
  current_time :: timespec
  first_timer :: "nat option"

definition timer_list_new :: "timespec \<Rightarrow> timer_list" where
  "timer_list_new junk = \<lparr>timers = [], current_time = junk, first_timer = None\<rparr>"

definition update_current_time :: "timespec \<Rightarrow> timer_list \<Rightarrow> timer_list" where
  "update_current_time now l = l\<lparr>current_time := now\<rparr>"

text \<open>
  The search of \<open>timerInsert\<close> and the insertion one place further.  When no timer of the list is early enough the search
  ends at \<open>end()\<close>, and \<open>std::advance\<close> goes one place beyond it, which the standard leaves undefined.  The parameter
  \<open>past\<close> is the position that this iterator stands for; it is 0 where \<open>std::list\<close> is circular, as in the GNU and the
  LLVM library.
\<close>

fun insert_position :: "timer_info \<Rightarrow> timer_info list \<Rightarrow> nat" where
  "insert_position ti [] = 0"
| "insert_position ti (t # ts) = (if \<not> ts_less (ti_timeout ti) (ti_timeout t) then 0 else insert_position ti ts + 1)"

definition insert_at :: "nat \<Rightarrow> 'a \<Rightarrow> 'a list \<Rightarrow> 'a list" where
  "insert_at i x xs = take i xs @ x # drop i xs"

definition timer_insert :: "nat \<Rightarrow> timer_info \<Rightarrow> timer_info list \<Rightarrow> timer_info list" where
  "timer_insert past ti ts =
     (let i = insert_position ti ts in insert_at (if i = length ts then past else i + 1) ti ts)"

section \<open>Coarse timers\<close>

definition coarse_boundary :: "int \<Rightarrow> int" where
  "coarse_boundary interval =
     (if interval mod 500 = 0 then 500
      else if interval mod 50 = 0
      then let mult50 = interval div 50
           in if mult50 mod 4 = 0 then 200 else if mult50 mod 2 = 0 then 100 else if mult50 mod 5 = 0 then 250 else 50
      else 25)"

text \<open>The milliseconds that \<open>calculate_coarse_timer_timeout\<close> chooses; 1000 is the next second.\<close>

definition coarse_msec :: "int \<Rightarrow> int \<Rightarrow> int" where
  "coarse_msec interval msec =
     (let absMaxRounding = interval div 20
      in if interval < 100 \<and> interval \<noteq> 25 \<and> interval \<noteq> 50 \<and> interval \<noteq> 75
         then if interval < 50
              then push_bit 1 (or (drop_bit 1 msec) (of_bool (msec mod 50 \<ge> 25)))
              else push_bit 2 (or (drop_bit 2 msec) (of_bool (msec mod 100 \<ge> 50)))
         else let lo = max 0 (msec - absMaxRounding); hi = min 1000 (msec + absMaxRounding)
              in if lo = 0 then 0
                 else if hi = 1000 then 1000
                 else if interval mod 500 = 0 \<and> interval \<ge> 5000 then if msec \<ge> 500 then hi else lo
                 else let w = coarse_boundary interval; base = msec div w * w; middlepoint = base + w div 2
                      in if msec < middlepoint then max base lo else min (base + w) hi)"

definition coarse_round :: "int \<Rightarrow> timespec \<Rightarrow> timespec" where
  "coarse_round interval t =
     (let msec = coarse_msec interval (tv_nsec t div 1000 div 1000)
      in if msec = 1000 then t\<lparr>tv_sec := tv_sec t + 1, tv_nsec := 0\<rparr> else t\<lparr>tv_nsec := msec * 1000 * 1000\<rparr>)"

definition calculate_coarse_timer_timeout :: "timer_info \<Rightarrow> timespec \<Rightarrow> timer_info" where
  "calculate_coarse_timer_timeout ti currentTime =
     (let r = coarse_round (ti_interval ti) (ti_timeout ti)
      in ti\<lparr>ti_timeout := (if ts_less r currentTime then ts_add_ms r (ti_interval ti) else r)\<rparr>)"

definition calculate_next_timeout :: "timer_info \<Rightarrow> timespec \<Rightarrow> timer_info" where
  "calculate_next_timeout ti currentTime =
     (case ti_type ti of
        Very_Coarse_Timer \<Rightarrow>
          (let s = tv_sec (ti_timeout ti) + ti_interval ti
           in ti\<lparr>ti_timeout := (ti_timeout ti)\<lparr>tv_sec := (if s \<le> tv_sec currentTime then tv_sec currentTime + ti_interval ti else s)\<rparr>\<rparr>)
      | _ \<Rightarrow>
          (let t = ts_add_ms (ti_timeout ti) (ti_interval ti);
               ti' = ti\<lparr>ti_timeout := (if ts_less t currentTime then ts_add_ms currentTime (ti_interval ti) else t)\<rparr>
           in if ti_type ti = Coarse_Timer then calculate_coarse_timer_timeout ti' currentTime else ti'))"

section \<open>The operations of the list\<close>

text \<open>The time to wait for the next timer that is not being activated.\<close>

definition timer_wait :: "timespec \<Rightarrow> timer_list \<Rightarrow> timespec option \<times> timer_list" where
  "timer_wait now l =
     (let l = update_current_time now l
      in case find (\<lambda>t. \<not> ti_active t) (timers l) of
           None \<Rightarrow> (None, l)
         | Some t \<Rightarrow>
             (Some (if ts_less now (ti_timeout t) then round_to_millisecond (ts_sub (ti_timeout t) now) else \<lparr>tv_sec = 0, tv_nsec = 0\<rparr>), l))"

definition timer_remaining_time :: "timespec \<Rightarrow> int \<Rightarrow> timer_list \<Rightarrow> int \<times> timer_list" where
  "timer_remaining_time now timerId l =
     (let l = update_current_time now l
      in case find (\<lambda>t. ti_id t = timerId) (timers l) of
           None \<Rightarrow> (-1, l)
         | Some t \<Rightarrow>
             (if ts_less now (ti_timeout t)
              then let tm = round_to_millisecond (ts_sub (ti_timeout t) now)
                   in (tv_sec tm * 1000 + c_div (c_div (tv_nsec tm) 1000) 1000, l)
              else (0, l)))"

definition very_coarse :: "timespec \<Rightarrow> timer_info \<Rightarrow> timer_info" where
  "very_coarse now t =
     (let i = drop_bit 1 (c_div (ti_interval t) 500 + 1); s = tv_sec now + i
      in t\<lparr>ti_interval := i, ti_timeout := \<lparr>tv_sec = (if tv_nsec now > 500 * 1000 * 1000 then s + 1 else s), tv_nsec = 0\<rparr>\<rparr>)"

definition new_timer :: "timespec \<Rightarrow> nat \<Rightarrow> timespec \<Rightarrow> int \<Rightarrow> int \<Rightarrow> timer_type \<Rightarrow> nat \<Rightarrow> timer_info" where
  "new_timer now addr junk timerId interval type obj =
     (let expected = ts_add_ms now interval;
          t = \<lparr>ti_addr = addr, ti_id = timerId, ti_interval = interval, ti_type = type, ti_timeout = junk, ti_obj = obj,
               ti_active = False\<rparr>
      in case type of
           Precise_Timer \<Rightarrow> t\<lparr>ti_timeout := expected\<rparr>
         | Coarse_Timer \<Rightarrow>
             (if interval \<ge> 20000 then very_coarse now (t\<lparr>ti_type := Very_Coarse_Timer\<rparr>)
              else if interval \<le> 20 then t\<lparr>ti_timeout := expected, ti_type := Precise_Timer\<rparr>
              else calculate_coarse_timer_timeout (t\<lparr>ti_timeout := expected\<rparr>) now)
         | Very_Coarse_Timer \<Rightarrow> very_coarse now t)"

definition register_timer ::
  "nat \<Rightarrow> timespec \<Rightarrow> nat \<Rightarrow> timespec \<Rightarrow> int \<Rightarrow> int \<Rightarrow> timer_type \<Rightarrow> nat \<Rightarrow> timer_list \<Rightarrow> timer_list" where
  "register_timer past now addr junk timerId interval type obj l =
     (let l = update_current_time now l
      in l\<lparr>timers := timer_insert past (new_timer now addr junk timerId interval type obj) (timers l)\<rparr>)"

definition forget_first :: "timer_info \<Rightarrow> timer_list \<Rightarrow> timer_list" where
  "forget_first t l = (if first_timer l = Some (ti_addr t) then l\<lparr>first_timer := None\<rparr> else l)"

definition unregister_timer :: "int \<Rightarrow> timer_list \<Rightarrow> bool \<times> timer_list" where
  "unregister_timer timerId l =
     (case List.extract (\<lambda>t. ti_id t = timerId) (timers l) of
        None \<Rightarrow> (False, l)
      | Some (xs, t, ys) \<Rightarrow> (True, forget_first t (l\<lparr>timers := xs @ ys\<rparr>)))"

fun drop_timers :: "nat \<Rightarrow> timer_info list \<Rightarrow> nat option \<Rightarrow> timer_info list \<times> nat option" where
  "drop_timers obj [] first = ([], first)"
| "drop_timers obj (t # ts) first =
     (if ti_obj t = obj then drop_timers obj ts (if first = Some (ti_addr t) then None else first)
      else let (us, first') = drop_timers obj ts first in (t # us, first'))"

definition unregister_timers :: "nat \<Rightarrow> timer_list \<Rightarrow> bool \<times> timer_list" where
  "unregister_timers obj l =
     (if timers l = [] then (False, l)
      else let (ts, first) = drop_timers obj (timers l) (first_timer l) in (True, l\<lparr>timers := ts, first_timer := first\<rparr>))"

definition registered_timers :: "nat \<Rightarrow> timer_list \<Rightarrow> (int \<times> int \<times> timer_type) list" where
  "registered_timers obj l =
     map (\<lambda>t. (ti_id t, if ti_type t = Very_Coarse_Timer then ti_interval t * 1000 else ti_interval t, ti_type t))
       (filter (\<lambda>t. ti_obj t = obj) (timers l))"

section \<open>Activation\<close>

text \<open>
  \<open>sendEvent\<close> runs code of the receiver, which may do anything with the list: the parameter \<open>deliver\<close>.  Afterwards the
  mark of the timer is removed, unless the timer is gone.  The result also lists the events that were sent.
\<close>

definition set_active :: "nat \<Rightarrow> bool \<Rightarrow> timer_list \<Rightarrow> timer_list" where
  "set_active a b l = l\<lparr>timers := map (\<lambda>t. if ti_addr t = a then t\<lparr>ti_active := b\<rparr> else t) (timers l)\<rparr>"

fun activate_loop ::
  "nat \<Rightarrow> (nat \<Rightarrow> int \<Rightarrow> timer_list \<Rightarrow> timer_list) \<Rightarrow> timespec \<Rightarrow> nat \<Rightarrow> int \<Rightarrow> (nat \<times> int) list \<Rightarrow> timer_list
   \<Rightarrow> int \<times> (nat \<times> int) list \<times> timer_list" where
  "activate_loop past deliver now 0 n sent l = (n, sent, l)"
| "activate_loop past deliver now (Suc maxCount) n sent l =
     (case timers l of
        [] \<Rightarrow> (n, sent, l)
      | t # ts \<Rightarrow>
          if ts_less now (ti_timeout t) then (n, sent, l)
          else if first_timer l = Some (ti_addr t) then (n, sent, l)
          else let l = (case first_timer l of
                          None \<Rightarrow> l\<lparr>first_timer := Some (ti_addr t)\<rparr>
                        | Some a \<Rightarrow>
                            (case find (\<lambda>u. ti_addr u = a) (timers l) of
                               Some f \<Rightarrow> if ti_interval t \<le> ti_interval f then l\<lparr>first_timer := Some (ti_addr t)\<rparr> else l
                             | None \<Rightarrow> l));
                   u = calculate_next_timeout t now;
                   l = l\<lparr>timers := timer_insert past u ts\<rparr>;
                   n = (if ti_interval u > 0 then n + 1 else n)
               in if ti_active u then activate_loop past deliver now maxCount n sent l
                  else activate_loop past deliver now maxCount n (sent @ [(ti_obj u, ti_id u)])
                         (set_active (ti_addr u) False (deliver (ti_obj u) (ti_id u) (set_active (ti_addr u) True l))))"

definition activate_timers ::
  "nat \<Rightarrow> bool \<Rightarrow> (nat \<Rightarrow> int \<Rightarrow> timer_list \<Rightarrow> timer_list) \<Rightarrow> timespec \<Rightarrow> timer_list \<Rightarrow> int \<times> (nat \<times> int) list \<times> timer_list" where
  "activate_timers past disabled deliver now l =
     (if disabled \<or> timers l = [] then (0, [], l)
      else let l = update_current_time now (l\<lparr>first_timer := None\<rparr>);
               maxCount = length (takeWhile (\<lambda>t. \<not> ts_less now (ti_timeout t)) (timers l));
               (n, sent, l) = activate_loop past deliver now maxCount 0 [] l
           in (n, sent, l\<lparr>first_timer := None\<rparr>))"

section \<open>A clock that is not monotonic\<close>

text \<open>
  \<open>timeChanged\<close> compares the time that has passed with the ticks that have passed, and \<open>timerRepair\<close> moves all timers by
  the difference.
\<close>

record tick_clock =
  previous_time :: timespec
  previous_ticks :: int
  ticks_per_second :: int
  ms_per_tick :: int

definition time_changed :: "timespec \<Rightarrow> int \<Rightarrow> tick_clock \<Rightarrow> bool \<times> timespec \<times> tick_clock" where
  "time_changed currentTime currentTicks c =
     (let elapsedTicks = currentTicks - previous_ticks c;
          elapsedTime = ts_sub currentTime (previous_time c);
          ticks = \<lparr>tv_sec = c_div elapsedTicks (ticks_per_second c),
                   tv_nsec = c_mod (c_div (elapsedTicks * 1000) (ticks_per_second c)) 1000 * 1000 * 1000\<rparr>;
          delta = ts_sub elapsedTime ticks;
          granularity = \<lparr>tv_sec = 0, tv_nsec = ms_per_tick c * 1000 * 1000\<rparr>
      in (ts_less ticks (ts_mul (ts_sub (abs_timespec delta) granularity) 10), delta,
          c\<lparr>previous_ticks := currentTicks, previous_time := currentTime\<rparr>))"

definition timer_repair :: "timespec \<Rightarrow> timer_list \<Rightarrow> timer_list" where
  "timer_repair diff l = l\<lparr>timers := map (\<lambda>t. t\<lparr>ti_timeout := ts_add (ti_timeout t) diff\<rparr>) (timers l)\<rparr>"

definition repair_timers :: "int \<Rightarrow> tick_clock \<Rightarrow> timer_list \<Rightarrow> tick_clock \<times> timer_list" where
  "repair_timers currentTicks c l =
     (let (changed, delta, c) = time_changed (current_time l) currentTicks c
      in (c, if changed then timer_repair delta l else l))"

end
