(* ===== verification/Timer_Proofs.thy ===== *)
theory Timer_Proofs
  imports Timer_Lists "HOL-Library.Multiset"
begin

text \<open>
  The properties of \<open>TimerInfoList\<close>: the arithmetic of points in time is that of nanoseconds, coarse timers stay within
  their error, the list keeps its invariant, and the order of the list, which the code needs and does not keep.
\<close>

section \<open>Points in time as nanoseconds\<close>

definition ts_ns :: "timespec \<Rightarrow> int" where
  "ts_ns t = tv_sec t * 1000000000 + tv_nsec t"

definition ts_ok :: "timespec \<Rightarrow> bool" where
  "ts_ok t \<longleftrightarrow> 0 \<le> tv_nsec t \<and> tv_nsec t < 1000000000"

lemma ts_okD: "ts_ok t \<Longrightarrow> 0 \<le> tv_nsec t" "ts_ok t \<Longrightarrow> tv_nsec t < 1000000000"
  by (simp_all add: ts_ok_def)

lemma normalize_up_ns: "ts_ns (normalize_up t) = ts_ns t \<and> tv_nsec (normalize_up t) < 1000000000
    \<and> (0 \<le> tv_nsec t \<longrightarrow> 0 \<le> tv_nsec (normalize_up t))"
proof (induction t rule: normalize_up.induct)
  case (1 t)
  show ?case
  proof (cases "tv_nsec t \<ge> 1000000000")
    case True
    then show ?thesis using 1 by (subst (1 2 3) normalize_up.simps) (simp add: ts_ns_def)
  next
    case False
    then show ?thesis by (subst (1 2 3) normalize_up.simps) simp
  qed
qed

lemma normalize_down_ns: "tv_nsec t < 1000000000 \<Longrightarrow> ts_ns (normalize_down t) = ts_ns t \<and> ts_ok (normalize_down t)"
proof (induction t rule: normalize_down.induct)
  case (1 t)
  show ?case
  proof (cases "tv_nsec t < 0")
    case True
    then show ?thesis using 1 by (subst (1 2) normalize_down.simps) (simp add: ts_ns_def)
  next
    case False
    then show ?thesis using 1 by (subst (1 2) normalize_down.simps) (simp add: ts_ok_def)
  qed
qed

lemma normalized_ns [simp]: "ts_ns (normalized_timespec t) = ts_ns t" "ts_ok (normalized_timespec t)"
  using normalize_up_ns [of t] normalize_down_ns [of "normalize_up t"] by (simp_all add: normalized_timespec_def)

lemma c_div_mod: "c_div ms d * d + c_mod ms d = ms"
  by (simp add: c_mod_def algebra_simps)

lemma ts_arith_ns [simp]:
  "ts_ns (ts_add l r) = ts_ns l + ts_ns r" "ts_ns (ts_sub l r) = ts_ns l - ts_ns r"
  "ts_ns (ts_mul l m) = ts_ns l * m" "ts_ns (ts_add_ms l ms) = ts_ns l + ms * 1000000"
  "ts_ok (ts_add l r)" "ts_ok (ts_sub l r)" "ts_ok (ts_mul l m)" "ts_ok (ts_add_ms l ms)"
  using c_div_mod [of ms 1000]
  by (simp_all add: ts_add_def ts_sub_def ts_mul_def ts_add_ms_def ts_ns_def [of "timespec_ext _ _ _"] algebra_simps)
     (simp_all add: ts_ns_def algebra_simps)

lemma ts_ns_mk [simp]: "ts_ns \<lparr>tv_sec = a, tv_nsec = b\<rparr> = a * 1000000000 + b"
  by (simp add: ts_ns_def)

lemma ts_ns_order:
  assumes "ts_ok l" "ts_ok r"
  shows "tv_sec l < tv_sec r \<Longrightarrow> ts_ns l < ts_ns r" "tv_sec l = tv_sec r \<Longrightarrow> ts_ns l < ts_ns r \<longleftrightarrow> tv_nsec l < tv_nsec r"
proof -
  show "ts_ns l < ts_ns r" if "tv_sec l < tv_sec r"
  proof -
    have "tv_sec l * 1000000000 + 1000000000 \<le> tv_sec r * 1000000000" using that by simp
    then show ?thesis using ts_okD [OF assms(1)] ts_okD [OF assms(2)] unfolding ts_ns_def by linarith
  qed
qed (simp add: ts_ns_def)

lemma ts_less_ns: "ts_ok l \<Longrightarrow> ts_ok r \<Longrightarrow> ts_less l r \<longleftrightarrow> ts_ns l < ts_ns r"
  using ts_ns_order [of l r] ts_ns_order [of r l]
  by (cases "tv_sec l" "tv_sec r" rule: linorder_cases) (auto simp: ts_less_def)

lemma ts_eqI:
  assumes "ts_ok l" "ts_ok r" "ts_ns l = ts_ns r"
  shows "l = (r :: timespec)"
proof -
  have "tv_sec l = tv_sec r"
    using ts_ns_order(1) [of l r] ts_ns_order(1) [of r l] assms by (cases "tv_sec l" "tv_sec r" rule: linorder_cases) auto
  then show ?thesis using assms(3) by (intro timespec.equality) (simp_all add: ts_ns_def)
qed

lemma abs_timespec_ns:
  assumes "ts_ok t"
  shows "ts_ns (abs_timespec t) = (if tv_sec t \<ge> -1 then \<bar>ts_ns t\<bar> else tv_nsec t - tv_sec t * 1000000000 - 2000000000)"
proof -
  consider (pos) "0 \<le> tv_sec t" | (one) "tv_sec t = -1" | (neg) "tv_sec t < -1" by linarith
  then show ?thesis
  proof cases
    case pos
    then have "abs_timespec t = normalized_timespec t" using assms by (auto simp: abs_timespec_def Let_def ts_ok_def)
    moreover have "0 \<le> ts_ns t" using pos assms by (simp add: ts_ns_def ts_ok_def)
    ultimately show ?thesis using pos by simp
  next
    case one
    then have "abs_timespec t = normalized_timespec \<lparr>tv_sec = 0, tv_nsec = 1000000000 - tv_nsec t\<rparr>"
      using assms by (auto simp: abs_timespec_def Let_def ts_ok_def)
    moreover have "ts_ns t = - (1000000000 - tv_nsec t)" using one by (simp add: ts_ns_def)
    ultimately show ?thesis using one assms by (simp add: ts_ok_def)
  next
    case neg
    then have "abs_timespec t = normalized_timespec \<lparr>tv_sec = - tv_sec t - 1, tv_nsec = tv_nsec t - 1000000000\<rparr>"
      by (auto simp: abs_timespec_def Let_def)
    then show ?thesis using neg by (simp add: algebra_simps)
  qed
qed

lemma round_to_millisecond_ns:
  assumes "ts_ok t"
  shows "ts_ns (round_to_millisecond t) = (ts_ns t div 1000000 + 1) * 1000000" "ts_ok (round_to_millisecond t)"
proof -
  have "ts_ns t mod 1000000 = tv_nsec t mod 1000000"
    using mod_mult_self3 [of "tv_sec t * 1000" 1000000 "tv_nsec t"] by (simp add: ts_ns_def mult.assoc)
  moreover have "c_mod (tv_nsec t) 1000000 = tv_nsec t mod 1000000" using assms by (simp add: ts_ok_def)
  ultimately show "ts_ns (round_to_millisecond t) = (ts_ns t div 1000000 + 1) * 1000000"
    using div_mult_mod_eq [of "ts_ns t" 1000000] by (simp add: round_to_millisecond_def Let_def) (simp add: ts_ns_def)
  show "ts_ok (round_to_millisecond t)" by (simp add: round_to_millisecond_def Let_def)
qed

section \<open>Coarse timers\<close>

text \<open>The error that the rounding of a coarse timer may have, in milliseconds.\<close>

definition coarse_error :: "int \<Rightarrow> int" where
  "coarse_error interval =
     (if interval < 100 \<and> interval \<noteq> 25 \<and> interval \<noteq> 50 \<and> interval \<noteq> 75 then if interval < 50 then 2 else 4 else interval div 20)"

lemma small_round:
  fixes m :: int
  shows "push_bit 1 (or (drop_bit 1 m) (of_bool b)) \<in> {m - 2..m + 2}" "push_bit 2 (or (drop_bit 2 m) (of_bool b)) \<in> {m - 4..m + 4}"
  by (cases b; simp add: push_bit_eq_mult drop_bit_eq_div or_one_eq; presburger)+

lemma small_round_below:
  fixes m :: int
  assumes "0 \<le> m" "m < 1000"
  shows "push_bit 1 (or (drop_bit 1 m) (of_bool b)) < 1000" "push_bit 2 (or (drop_bit 2 m) (of_bool b)) < 1000"
    "0 \<le> push_bit 1 (or (drop_bit 1 m) (of_bool b))" "0 \<le> push_bit 2 (or (drop_bit 2 m) (of_bool b))"
  using assms by (cases b; simp add: push_bit_eq_mult drop_bit_eq_div or_one_eq; presburger)+

lemma coarse_boundary_pos: "coarse_boundary i > 0"
  by (simp add: coarse_boundary_def Let_def)

lemma coarse_msec_error:
  assumes "0 \<le> m" "m < 1000" "20 \<le> i"
  shows "\<bar>coarse_msec i m - m\<bar> \<le> coarse_error i \<and> 0 \<le> coarse_msec i m \<and> coarse_msec i m \<le> 1000"
proof (cases "i < 100 \<and> i \<noteq> 25 \<and> i \<noteq> 50 \<and> i \<noteq> 75")
  case True
  show ?thesis
  proof (cases "i < 50")
    case i: True
    then have "coarse_msec i m = push_bit 1 (or (drop_bit 1 m) (of_bool (m mod 50 \<ge> 25)))" "coarse_error i = 2"
      using True by (simp_all add: coarse_msec_def coarse_error_def Let_def)
    then show ?thesis using small_round(1) [of m "m mod 50 \<ge> 25"] small_round_below(1,3) [OF assms(1,2), of "m mod 50 \<ge> 25"] by auto
  next
    case False
    then have "coarse_msec i m = push_bit 2 (or (drop_bit 2 m) (of_bool (m mod 100 \<ge> 50)))" "coarse_error i = 4"
      using True by (simp_all add: coarse_msec_def coarse_error_def Let_def)
    then show ?thesis using small_round(2) [of m "m mod 100 \<ge> 50"] small_round_below(2,4) [OF assms(1,2), of "m mod 100 \<ge> 50"] by auto
  qed
next
  case False
  define a where "a = i div 20"
  define w where "w = coarse_boundary i"
  define base where "base = m div w * w"
  have a: "a \<ge> 1" using assms(3) by (simp add: a_def)
  have e: "coarse_error i = a" using False by (auto simp: coarse_error_def a_def)
  have "base + m mod w = m" by (simp add: base_def)
  moreover have "0 \<le> m mod w" "m mod w < w" using coarse_boundary_pos [of i] by (simp_all add: w_def)
  moreover have "0 \<le> base" using assms(1) coarse_boundary_pos [of i] by (simp add: base_def w_def pos_imp_zdiv_nonneg_iff)
  ultimately have base: "base \<le> m" "m < base + w" "0 \<le> base" by linarith+
  define lo where "lo = max 0 (m - a)"
  define hi where "hi = min 1000 (m + a)"
  define v where "v = coarse_msec i m"
  have choice: "coarse_msec i m =
      (if lo = 0 then 0 else if hi = 1000 then 1000
       else if i mod 500 = 0 \<and> i \<ge> 5000 then if m \<ge> 500 then hi else lo
       else if m < base + w div 2 then max base lo else min (base + w) hi)"
    unfolding coarse_msec_def Let_def if_not_P [OF False] lo_def hi_def a_def w_def base_def by (rule refl)
  have v: "lo = 0 \<and> v = 0 \<or> hi = 1000 \<and> v = 1000 \<or> v = hi \<or> v = lo \<or> m \<ge> base \<and> v = max base lo \<or> v = min (base + w) hi"
    using base(1) by (simp only: v_def choice split: if_splits) simp_all
  have "lo \<le> m" "m - a \<le> lo" "0 \<le> lo" "m \<le> hi" "hi \<le> m + a" "hi \<le> 1000" using assms a by (auto simp: lo_def hi_def)
  then have "m - a \<le> v \<and> v \<le> m + a \<and> 0 \<le> v \<and> v \<le> 1000" using v base assms a by (auto simp: max_def min_def)
  then show ?thesis using e by (auto simp: v_def)
qed

lemma coarse_round_ns:
  assumes "ts_ok t" "20 \<le> i"
  shows "ts_ok (coarse_round i t)" "ts_ns (coarse_round i t) mod 1000000 = 0"
    "ts_ns (coarse_round i t) \<le> ts_ns t + coarse_error i * 1000000"
    "ts_ns t - (coarse_error i + 1) * 1000000 < ts_ns (coarse_round i t)"
proof -
  define m where "m = tv_nsec t div 1000 div 1000"
  have m': "m = tv_nsec t div 1000000" by (simp add: m_def zdiv_zmult2_eq [symmetric])
  have "m * 1000000 + tv_nsec t mod 1000000 = tv_nsec t" "0 \<le> tv_nsec t mod 1000000" "tv_nsec t mod 1000000 < 1000000" "0 \<le> m"
    using ts_okD [OF assms(1)] by (simp_all add: m')
  then have m: "0 \<le> m" "m < 1000" "m * 1000000 \<le> tv_nsec t" "tv_nsec t < m * 1000000 + 1000000"
    using ts_okD [OF assms(1)] by linarith+
  note e = coarse_msec_error [OF m(1,2) assms(2)]
  have ns: "ts_ns (coarse_round i t) = (tv_sec t * 1000 + coarse_msec i m) * 1000000"
    by (simp add: coarse_round_def m_def Let_def ts_ns_def)
  show "ts_ok (coarse_round i t)" using e by (auto simp: coarse_round_def m_def [symmetric] Let_def ts_ok_def)
  show "ts_ns (coarse_round i t) mod 1000000 = 0" unfolding ns by simp
  show "ts_ns (coarse_round i t) \<le> ts_ns t + coarse_error i * 1000000"
    "ts_ns t - (coarse_error i + 1) * 1000000 < ts_ns (coarse_round i t)"
    unfolding ns using e m unfolding ts_ns_def abs_le_iff by (simp_all add: algebra_simps)
qed

lemma coarse_error_small: "20 < i \<Longrightarrow> coarse_error i + 1 \<le> i"
  by (auto simp: coarse_error_def)

lemma coarse_timeout:
  assumes "ts_ok (ti_timeout ti)" "ts_ok now" "20 < ti_interval ti" "\<not> ts_less (ti_timeout ti) now"
  shows "ts_ok (ti_timeout (calculate_coarse_timer_timeout ti now))"
    "\<not> ts_less (ti_timeout (calculate_coarse_timer_timeout ti now)) now"
    "ts_ns (ti_timeout ti) \<ge> ts_ns now + (coarse_error (ti_interval ti) + 1) * 1000000 \<Longrightarrow>
     calculate_coarse_timer_timeout ti now = ti\<lparr>ti_timeout := coarse_round (ti_interval ti) (ti_timeout ti)\<rparr>"
proof -
  let ?r = "coarse_round (ti_interval ti) (ti_timeout ti)"
  have i: "20 \<le> ti_interval ti" using assms(3) by simp
  note r = coarse_round_ns [OF assms(1) i]
  show "ts_ok (ti_timeout (calculate_coarse_timer_timeout ti now))"
    using r(1) by (simp add: calculate_coarse_timer_timeout_def Let_def)
  have "ts_ns now \<le> ts_ns (ti_timeout ti)" using assms by (simp add: ts_less_ns)
  moreover have "(coarse_error (ti_interval ti) + 1) * 1000000 \<le> ti_interval ti * 1000000"
    using coarse_error_small [OF assms(3)] by simp
  ultimately have "ts_ns now \<le> ts_ns ?r + ti_interval ti * 1000000" using r(4) by linarith
  then show "\<not> ts_less (ti_timeout (calculate_coarse_timer_timeout ti now)) now"
    using r(1) assms(2) by (simp add: calculate_coarse_timer_timeout_def Let_def ts_less_ns)
  show "calculate_coarse_timer_timeout ti now = ti\<lparr>ti_timeout := ?r\<rparr>"
    if "ts_ns (ti_timeout ti) \<ge> ts_ns now + (coarse_error (ti_interval ti) + 1) * 1000000"
    using that r(1,4) assms(2) by (simp add: calculate_coarse_timer_timeout_def Let_def ts_less_ns)
qed

section \<open>New timers\<close>

lemma very_coarse_interval:
  assumes "0 \<le> i"
  shows "drop_bit 1 (c_div i 500 + 1) * 1000 \<le> i + 500" "i - 500 \<le> drop_bit 1 (c_div i 500 + 1) * 1000"
    "0 \<le> drop_bit 1 (c_div i 500 + 1)"
proof -
  have e: "drop_bit 1 (c_div i 500 + 1) = (i div 500 + 1) div 2" using assms by (simp add: drop_bit_eq_div)
  show "drop_bit 1 (c_div i 500 + 1) * 1000 \<le> i + 500" "i - 500 \<le> drop_bit 1 (c_div i 500 + 1) * 1000"
    "0 \<le> drop_bit 1 (c_div i 500 + 1)"
    unfolding e using assms div_mult_mod_eq [of i 500] div_mult_mod_eq [of "i div 500 + 1" 2]
      pos_mod_bound [of 500 i] pos_mod_sign [of 500 i] pos_mod_bound [of 2 "i div 500 + 1"] pos_mod_sign [of 2 "i div 500 + 1"]
    by (simp_all add: pos_imp_zdiv_nonneg_iff)
qed

lemma very_coarse_type [simp]: "ti_type (very_coarse now t) = ti_type t"
  by (simp add: very_coarse_def Let_def)

lemma very_coarse_timeout:
  assumes "ts_ok now" "0 \<le> ti_interval t"
  shows "ts_ok (ti_timeout (very_coarse now t))"
    "\<bar>ts_ns (ti_timeout (very_coarse now t)) - (ts_ns now + ti_interval t * 1000000)\<bar> \<le> 1000000000"
    "0 \<le> ti_interval (very_coarse now t)"
proof -
  define i where "i = drop_bit 1 (c_div (ti_interval t) 500 + 1)"
  note i = very_coarse_interval [OF assms(2), folded i_def]
  show "ts_ok (ti_timeout (very_coarse now t))" by (simp add: very_coarse_def Let_def ts_ok_def)
  show "0 \<le> ti_interval (very_coarse now t)" using i(3) by (simp add: very_coarse_def Let_def i_def)
  have "ts_ns (ti_timeout (very_coarse now t)) = (tv_sec now + i + (if tv_nsec now > 500000000 then 1 else 0)) * 1000000000"
    by (simp add: very_coarse_def Let_def i_def ts_ns_def)
  then show "\<bar>ts_ns (ti_timeout (very_coarse now t)) - (ts_ns now + ti_interval t * 1000000)\<bar> \<le> 1000000000"
    using i ts_okD [OF assms(1)] by (simp add: ts_ns_def abs_le_iff split: if_splits)
qed

text \<open>The error that the first timeout of a timer may have, in milliseconds.\<close>

definition timer_error :: "timer_type \<Rightarrow> int \<Rightarrow> int" where
  "timer_error type interval =
     (case type of
        Precise_Timer \<Rightarrow> 0
      | Coarse_Timer \<Rightarrow> if interval \<le> 20 then 0 else if interval \<ge> 20000 then 1000 else coarse_error interval + 1
      | Very_Coarse_Timer \<Rightarrow> 1000)"

definition timer_ok :: "timer_info \<Rightarrow> bool" where
  "timer_ok t \<longleftrightarrow> ts_ok (ti_timeout t) \<and> 0 \<le> ti_interval t \<and> (ti_type t = Coarse_Timer \<longrightarrow> 20 < ti_interval t)"

lemma new_timer_ok:
  assumes "ts_ok now" "0 \<le> interval"
  shows "timer_ok (new_timer now addr junk timerId interval type obj) \<and>
    \<bar>ts_ns (ti_timeout (new_timer now addr junk timerId interval type obj)) - (ts_ns now + interval * 1000000)\<bar>
      \<le> timer_error type interval * 1000000"
proof -
  define v where "v = \<lparr>ti_addr = addr, ti_id = timerId, ti_interval = interval, ti_type = Very_Coarse_Timer, ti_timeout = junk,
    ti_obj = obj, ti_active = False\<rparr>"
  have v: "ti_type v = Very_Coarse_Timer" "ts_ok (ti_timeout (very_coarse now v))" "0 \<le> ti_interval (very_coarse now v)"
    "\<bar>ts_ns (ti_timeout (very_coarse now v)) - (ts_ns now + interval * 1000000)\<bar> \<le> 1000000000"
    using very_coarse_timeout [OF assms(1), of v] assms(2) by (simp_all add: v_def)
  show ?thesis
proof (cases type)
  case Precise_Timer
  then show ?thesis using assms by (simp add: new_timer_def Let_def timer_ok_def timer_error_def)
next
  case Very_Coarse_Timer
  then have n: "new_timer now addr junk timerId interval type obj = very_coarse now v"
    by (simp add: new_timer_def Let_def v_def)
  show ?thesis unfolding n using v assms Very_Coarse_Timer by (simp add: timer_ok_def timer_error_def)
next
  case Coarse_Timer
  define t where "t = \<lparr>ti_addr = addr, ti_id = timerId, ti_interval = interval, ti_type = Coarse_Timer,
    ti_timeout = ts_add_ms now interval, ti_obj = obj, ti_active = False\<rparr>"
  consider (fine) "interval \<le> 20" | (mid) "20 < interval" "interval < 20000" | (long) "interval \<ge> 20000" by linarith
  then show ?thesis
  proof cases
    case fine
    then show ?thesis using assms Coarse_Timer by (simp add: new_timer_def Let_def timer_ok_def timer_error_def)
  next
    case long
    then have n: "new_timer now addr junk timerId interval type obj = very_coarse now v"
      using Coarse_Timer by (simp add: new_timer_def Let_def v_def)
    show ?thesis unfolding n using v assms long Coarse_Timer by (simp add: timer_ok_def timer_error_def)
  next
    case mid
    then have n: "new_timer now addr junk timerId interval type obj = calculate_coarse_timer_timeout t now"
      using Coarse_Timer by (simp add: new_timer_def Let_def t_def)
    have t: "ts_ok (ti_timeout t)" "ti_interval t = interval" "ts_ns (ti_timeout t) = ts_ns now + interval * 1000000"
      by (simp_all add: t_def)
    have "(coarse_error interval + 1) * 1000000 \<le> interval * 1000000" using coarse_error_small [OF mid(1)] by simp
    then have "calculate_coarse_timer_timeout t now = t\<lparr>ti_timeout := coarse_round interval (ti_timeout t)\<rparr>"
      using coarse_timeout(3) [of t now] t assms mid by (simp add: ts_less_ns)
    moreover have i: "20 \<le> interval" using mid by simp
    note r = coarse_round_ns [OF t(1) i]
    have "\<bar>ts_ns (coarse_round interval (ti_timeout t)) - ts_ns (ti_timeout t)\<bar> \<le> (coarse_error interval + 1) * 1000000"
      using r(3,4) by (simp add: abs_le_iff algebra_simps)
    ultimately show ?thesis
      using mid r(1) t Coarse_Timer unfolding n by (simp add: timer_ok_def timer_error_def)
  qed
qed
qed

section \<open>The next timeout\<close>

lemma next_timeout_ok:
  assumes "timer_ok t" "ts_ok now"
  shows "timer_ok (calculate_next_timeout t now)"
    "ti_type t = Very_Coarse_Timer \<longrightarrow> 0 < ti_interval t \<Longrightarrow> \<not> ts_less (ti_timeout (calculate_next_timeout t now)) now"
proof -
  have t: "ts_ok (ti_timeout t)" "0 \<le> ti_interval t" using assms(1) by (simp_all add: timer_ok_def)
  have "timer_ok (calculate_next_timeout t now) \<and>
    ((ti_type t = Very_Coarse_Timer \<longrightarrow> 0 < ti_interval t) \<longrightarrow> \<not> ts_less (ti_timeout (calculate_next_timeout t now)) now)"
  proof (cases "ti_type t")
    case Very_Coarse_Timer
    then show ?thesis using t ts_okD [OF t(1)]
      by (auto simp: calculate_next_timeout_def timer_ok_def ts_ok_def Let_def ts_less_def)
  next
    case Precise_Timer
    then show ?thesis using t assms(2) by (auto simp: calculate_next_timeout_def timer_ok_def Let_def ts_less_ns)
  next
    case Coarse_Timer
    define t' where "t' = t\<lparr>ti_timeout := (if ts_less (ts_add_ms (ti_timeout t) (ti_interval t)) now
      then ts_add_ms now (ti_interval t) else ts_add_ms (ti_timeout t) (ti_interval t))\<rparr>"
    have "ts_ok (ti_timeout t')" "20 < ti_interval t'" "\<not> ts_less (ti_timeout t') now"
      using assms Coarse_Timer t by (auto simp: t'_def timer_ok_def ts_less_ns)
    moreover have "calculate_next_timeout t now = calculate_coarse_timer_timeout t' now"
      using Coarse_Timer by (simp add: calculate_next_timeout_def t'_def Let_def)
    ultimately show ?thesis
      using coarse_timeout(1,2) [of t' now] assms(2) by (auto simp: timer_ok_def calculate_coarse_timer_timeout_def Let_def)
  qed
  then show "timer_ok (calculate_next_timeout t now)"
    "ti_type t = Very_Coarse_Timer \<longrightarrow> 0 < ti_interval t \<Longrightarrow> \<not> ts_less (ti_timeout (calculate_next_timeout t now)) now" by blast+
qed

section \<open>The invariant of the list\<close>

definition timers_ok :: "timer_list \<Rightarrow> bool" where
  "timers_ok l \<longleftrightarrow> distinct (map ti_addr (timers l)) \<and> (\<forall>t \<in> set (timers l). timer_ok t)"

lemma mset_insert_at: "mset (insert_at i x xs) = add_mset x (mset xs)"
proof -
  have "mset xs = mset (take i xs) + mset (drop i xs)" by (metis append_take_drop_id mset_append)
  then show ?thesis by (simp add: insert_at_def)
qed

lemma mset_timer_insert [simp]: "mset (timer_insert past t ts) = add_mset t (mset ts)"
  by (simp add: timer_insert_def mset_insert_at Let_def)

lemma set_timer_insert [simp]: "set (timer_insert past t ts) = insert t (set ts)"
  by (metis mset_timer_insert set_mset_add_mset_insert set_mset_mset)

lemma distinct_timer_insert [simp]: "distinct (map f (timer_insert past t ts)) \<longleftrightarrow> f t \<notin> f ` set ts \<and> distinct (map f ts)"
proof -
  have "mset (map f (timer_insert past t ts)) = mset (map f (t # ts))" by simp
  then show ?thesis using mset_eq_imp_distinct_iff [of "map f (timer_insert past t ts)" "map f (t # ts)"] by simp
qed

lemma next_timeout_fields [simp]:
  "ti_addr (calculate_next_timeout t now) = ti_addr t" "ti_id (calculate_next_timeout t now) = ti_id t"
  "ti_interval (calculate_next_timeout t now) = ti_interval t" "ti_type (calculate_next_timeout t now) = ti_type t"
  "ti_obj (calculate_next_timeout t now) = ti_obj t" "ti_active (calculate_next_timeout t now) = ti_active t"
  by (cases "ti_type t"; simp add: calculate_next_timeout_def calculate_coarse_timer_timeout_def Let_def)+

lemma coarse_fields [simp]: "ti_addr (calculate_coarse_timer_timeout t now) = ti_addr t"
  by (simp add: calculate_coarse_timer_timeout_def Let_def)

lemma new_timer_addr [simp]: "ti_addr (new_timer now addr junk timerId interval type obj) = addr"
  by (cases type) (simp_all add: new_timer_def Let_def very_coarse_def)

lemma timers_ok_upd [simp]: "timers_ok (l\<lparr>first_timer := f\<rparr>) = timers_ok l" "timers_ok (l\<lparr>current_time := t\<rparr>) = timers_ok l"
  by (simp_all add: timers_ok_def)

lemma timers_map_ok:
  assumes "timers_ok l" "timers l' = map g (timers l)" "\<And>t. ti_addr (g t) = ti_addr t" "\<And>t. timer_ok t \<Longrightarrow> timer_ok (g t)"
  shows "timers_ok l'"
proof -
  have "map ti_addr (timers l') = map ti_addr (timers l)" using assms(2,3) by simp
  then have "distinct (map ti_addr (timers l'))" using assms(1) by (simp add: timers_ok_def)
  then show ?thesis using assms by (auto simp: timers_ok_def)
qed

lemma set_active_ok: "timers_ok l \<Longrightarrow> timers_ok (set_active a b l)"
  by (erule timers_map_ok [where g = "\<lambda>t. if ti_addr t = a then t\<lparr>ti_active := b\<rparr> else t"]) (simp_all add: set_active_def timer_ok_def)

lemma repair_ok: "timers_ok l \<Longrightarrow> timers_ok (timer_repair d l)"
  by (erule timers_map_ok [where g = "\<lambda>t. t\<lparr>ti_timeout := ts_add (ti_timeout t) d\<rparr>"]) (simp_all add: timer_repair_def timer_ok_def)

lemma drop_timers_eq: "fst (drop_timers obj ts first) = filter (\<lambda>t. ti_obj t \<noteq> obj) ts"
  by (induction obj ts first rule: drop_timers.induct) (auto simp: case_prod_beta)

lemma filter_ok: "timers_ok l \<Longrightarrow> timers_ok (l\<lparr>timers := filter P (timers l), first_timer := f\<rparr>)"
  by (simp add: timers_ok_def distinct_map inj_on_def)

lemma unregister_ok:
  assumes "timers_ok l"
  shows "timers_ok (snd (unregister_timer i l))"
proof (cases "List.extract (\<lambda>t. ti_id t = i) (timers l)")
  case (Some r)
  obtain xs t ys where r: "r = (xs, t, ys)" by (cases r)
  then have "timers l = xs @ t # ys" using Some by (simp add: extract_Some_iff)
  then have "timers_ok (l\<lparr>timers := xs @ ys\<rparr>)" using assms by (auto simp: timers_ok_def)
  then show ?thesis using Some r by (simp add: unregister_timer_def forget_first_def)
qed (use assms in \<open>simp add: unregister_timer_def\<close>)

text \<open>One turn of the activation: it stops, or the first timer is due and goes back into the list.\<close>

lemma activate_loop_cases:
  assumes "activate_loop past deliver now (Suc c) n sent l = r"
  obtains "r = (n, sent, l)" "\<And>t ts. timers l = t # ts \<Longrightarrow> ts_less now (ti_timeout t) \<or> first_timer l = Some (ti_addr t)"
  | t ts k m where "timers l = t # ts" "\<not> ts_less now (ti_timeout t)" "timers k = timer_insert past (calculate_next_timeout t now) ts"
    "m = (if ti_interval t > 0 then n + 1 else n)" "ti_active t" "r = activate_loop past deliver now c m sent k"
  | t ts k m where "timers l = t # ts" "\<not> ts_less now (ti_timeout t)" "timers k = timer_insert past (calculate_next_timeout t now) ts"
    "m = (if ti_interval t > 0 then n + 1 else n)" "\<not> ti_active t"
    "r = activate_loop past deliver now c m (sent @ [(ti_obj t, ti_id t)])
      (set_active (ti_addr t) False (deliver (ti_obj t) (ti_id t) (set_active (ti_addr t) True k)))"
proof (cases "timers l")
  case Nil
  then show ?thesis using that(1) assms by simp
next
  case (Cons t ts)
  show ?thesis
  proof (cases "ts_less now (ti_timeout t) \<or> first_timer l = Some (ti_addr t)")
    case True
    then show ?thesis using that(1) assms Cons by auto
  next
    case False
    then have no: "ts_less now (ti_timeout t) = False" "(first_timer l = Some (ti_addr t)) = False" by simp_all
    define f where "f = (case first_timer l of
          None \<Rightarrow> l\<lparr>first_timer := Some (ti_addr t)\<rparr>
        | Some a \<Rightarrow>
            (case find (\<lambda>u. ti_addr u = a) (timers l) of
               Some f \<Rightarrow> if ti_interval t \<le> ti_interval f then l\<lparr>first_timer := Some (ti_addr t)\<rparr> else l
             | None \<Rightarrow> l))"
    define k where "k = f\<lparr>timers := timer_insert past (calculate_next_timeout t now) ts\<rparr>"
    have "r = (if ti_active t then activate_loop past deliver now c (if ti_interval t > 0 then n + 1 else n) sent k
           else activate_loop past deliver now c (if ti_interval t > 0 then n + 1 else n) (sent @ [(ti_obj t, ti_id t)])
             (set_active (ti_addr t) False (deliver (ti_obj t) (ti_id t) (set_active (ti_addr t) True k))))"
      using assms no unfolding f_def k_def
      by (simp only: activate_loop.simps Cons list.case Let_def if_False next_timeout_fields)
    then show ?thesis using that(2,3) [OF Cons, of k] False by (cases "ti_active t") (auto simp: k_def)
  qed
qed

lemma activate_loop_ok:
  assumes "\<And>l obj i. timers_ok l \<Longrightarrow> timers_ok (deliver obj i l)" "ts_ok now" "timers_ok l"
    "activate_loop past deliver now c n sent l = (n', sent', l')"
  shows "timers_ok l' \<and> n \<le> n' \<and> n' \<le> n + int c \<and> length sent' \<le> length sent + c"
  using assms(3,4)
proof (induction c arbitrary: n sent l)
  case (Suc c)
  have k: "timers_ok k" if "timers l = t # ts" "timers k = timer_insert past (calculate_next_timeout t now) ts" for t ts k
    using that Suc.prems(1) next_timeout_ok(1) [OF _ assms(2), of t] by (auto simp: timers_ok_def)
  from Suc.prems(2) show ?case
  proof (cases rule: activate_loop_cases)
    case 1
    then show ?thesis using Suc.prems by simp
  next
    case (2 t ts k m)
    show ?thesis using Suc.IH [OF k [OF 2(1,3)] 2(6) [symmetric]] 2(4) by (auto split: if_splits)
  next
    case (3 t ts k m)
    have d: "timers_ok (set_active (ti_addr t) False (deliver (ti_obj t) (ti_id t) (set_active (ti_addr t) True k)))"
      by (intro set_active_ok assms(1) k [OF 3(1,3)])
    show ?thesis using Suc.IH [OF d 3(6) [symmetric]] 3(4) by (auto split: if_splits)
  qed
qed simp

section \<open>The properties\<close>

text \<open>C20: The first timeout of a new timer is the interval (not negative) from now with an error that depends on its type: none for precise timers
  and for coarse timers of up to 20 ms, at most 5 ms for coarse timers of 21 to 99 ms, at most 5 per cent and a millisecond
  for coarse timers from 100 ms up to but not including 20 s, and at most 1001 ms for every timer.\<close>

theorem timer_first_timeout:
  assumes "ts_ok now" "0 \<le> interval"
  shows "let e = \<bar>ts_ns (ti_timeout (new_timer now addr junk timerId interval type obj)) - (ts_ns now + interval * 1000000)\<bar>
    in (type = Precise_Timer \<or> type = Coarse_Timer \<and> interval \<le> 20 \<longrightarrow> e = 0) \<and> e \<le> 1001 * 1000000
       \<and> (type = Coarse_Timer \<and> 20 < interval \<and> interval < 100 \<longrightarrow> e \<le> 5 * 1000000)
       \<and> (type = Coarse_Timer \<and> 100 \<le> interval \<and> interval < 20000 \<longrightarrow> e \<le> interval * 50000 + 1000000)"
proof -
  define e where "e = \<bar>ts_ns (ti_timeout (new_timer now addr junk timerId interval type obj)) - (ts_ns now + interval * 1000000)\<bar>"
  have e: "e \<le> timer_error type interval * 1000000" "0 \<le> e" using new_timer_ok [OF assms] by (simp_all add: e_def)
  have c: "coarse_error interval \<le> (if interval < 100 then 4 else 999)" "interval \<ge> 100 \<Longrightarrow> coarse_error interval = interval div 20"
    if "20 < interval" "interval < 20000" using that by (auto simp: coarse_error_def)
  have "e = 0" if "type = Precise_Timer \<or> type = Coarse_Timer \<and> interval \<le> 20" using that e by (auto simp: timer_error_def)
  moreover have t: "timer_error type interval \<le> 1001"
    using c(1) by (cases type) (auto simp: timer_error_def split: if_splits)
  moreover have "e \<le> 5 * 1000000" if "type = Coarse_Timer" "20 < interval" "interval < 100"
    using that e c by (auto simp: timer_error_def)
  moreover have "e \<le> interval * 50000 + 1000000" if "type = Coarse_Timer" "100 \<le> interval" "interval < 20000"
    using that e c by (auto simp: timer_error_def)
  moreover have "e \<le> 1001 * 1000000" using e(1) t by linarith
  ultimately show ?thesis unfolding e_def [symmetric] Let_def by blast
qed

theorem timer_first_timeout_witness:
  "\<bar>ts_ns (ti_timeout (new_timer \<lparr>tv_sec = 5, tv_nsec = 7\<rparr> 1 \<lparr>tv_sec = 0, tv_nsec = 0\<rparr> 3 1000 Coarse_Timer 2)) - 6000000007\<bar> \<le> 51000000"
proof -
  have "ts_ok \<lparr>tv_sec = 5, tv_nsec = 7\<rparr>" by (simp add: ts_ok_def)
  from timer_first_timeout [OF this, of 1000 1 "\<lparr>tv_sec = 0, tv_nsec = 0\<rparr>" 3 Coarse_Timer 2] show ?thesis by (simp add: Let_def)
qed

text \<open>\<open>timerWait\<close> looks at the first timer that is not being activated, and gives a whole number of milliseconds, longer
  than the time until that timer by at most one millisecond, or zero when it is due.\<close>

lemma timer_wait_time:
  assumes "timers_ok l" "ts_ok now" "find (\<lambda>t. \<not> ti_active t) (timers l) = Some t" "fst (timer_wait now l) = Some tm"
  shows "if ts_ns now < ts_ns (ti_timeout t)
    then ts_ns (ti_timeout t) - ts_ns now < ts_ns tm \<and> ts_ns tm \<le> ts_ns (ti_timeout t) - ts_ns now + 1000000 \<and> ts_ns tm mod 1000000 = 0
    else ts_ns tm = 0"
proof -
  have "t \<in> set (timers l)" using assms(3) by (auto simp: find_Some_iff)
  then have t: "ts_ok (ti_timeout t)" using assms(1) by (simp add: timers_ok_def timer_ok_def)
  have tm: "tm = (if ts_ns now < ts_ns (ti_timeout t) then round_to_millisecond (ts_sub (ti_timeout t) now) else \<lparr>tv_sec = 0, tv_nsec = 0\<rparr>)"
    using assms(2-4) t by (auto simp: timer_wait_def Let_def update_current_time_def ts_less_ns)
  define d where "d = ts_ns (ti_timeout t) - ts_ns now"
  have "d div 1000000 * 1000000 + d mod 1000000 = d" "0 \<le> d mod 1000000" "d mod 1000000 < 1000000" by simp_all
  then have "d < (d div 1000000 + 1) * 1000000" "(d div 1000000 + 1) * 1000000 \<le> d + 1000000" by (simp_all add: algebra_simps)
  then show ?thesis
    using tm round_to_millisecond_ns(1) [of "ts_sub (ti_timeout t) now"] by (simp add: d_def)
qed

text \<open>C17: Every operation keeps the list well formed, its timers at distinct addresses and their timeouts normalised, wherever a
  timer goes that is not later than any other (\<open>past\<close>, which the standard leaves open): \<open>timerWait\<close>,
  \<open>timerRemainingTime\<close>, \<open>registerTimer\<close> with an interval that is not negative and an object at an address
  that is not in the list, both forms of \<open>unregisterTimer\<close>, and \<open>timerRepair\<close>; an activation does so when the receivers of its
  events do, and counts and sends no more than the timers that were due.\<close>

theorem timer_list_invariant:
  assumes "timers_ok l" "ts_ok now" "\<And>l obj i. timers_ok l \<Longrightarrow> timers_ok (deliver obj i l)"
  shows "timers_ok (snd (timer_wait now l)) \<and> timers_ok (snd (timer_remaining_time now timerId l))
    \<and> (0 \<le> interval \<and> addr \<notin> ti_addr ` set (timers l) \<longrightarrow> timers_ok (register_timer past now addr junk timerId interval type obj l))
    \<and> timers_ok (snd (unregister_timer timerId l)) \<and> timers_ok (snd (unregister_timers obj l))
    \<and> timers_ok (snd (repair_timers ticks c l))
    \<and> (case activate_timers past disabled deliver now l of (n, sent, l') \<Rightarrow>
         timers_ok l' \<and> 0 \<le> n \<and> n \<le> int (length (takeWhile (\<lambda>t. \<not> ts_less now (ti_timeout t)) (timers l)))
         \<and> length sent \<le> length (takeWhile (\<lambda>t. \<not> ts_less now (ti_timeout t)) (timers l)))"
proof -
  have "timers_ok (snd (timer_wait now l))" using assms(1)
    by (simp add: timer_wait_def Let_def update_current_time_def split: option.splits)
  moreover have "timers_ok (snd (timer_remaining_time now timerId l))" using assms(1)
    by (simp add: timer_remaining_time_def Let_def update_current_time_def split: option.splits)
  moreover have "timers_ok (register_timer past now addr junk timerId interval type obj l)"
    if "0 \<le> interval" "addr \<notin> ti_addr ` set (timers l)"
    using that assms(1) new_timer_ok [OF assms(2) that(1)]
    by (simp add: register_timer_def Let_def update_current_time_def timers_ok_def)
  moreover have "timers_ok (snd (unregister_timers obj l))"
    using assms(1) filter_ok [OF assms(1)] drop_timers_eq [of obj "timers l" "first_timer l"]
    by (simp add: unregister_timers_def case_prod_beta)
  moreover have "timers_ok (snd (repair_timers ticks c l))"
    using assms(1) repair_ok [OF assms(1)] by (simp add: repair_timers_def case_prod_beta)
  moreover have "case activate_timers past disabled deliver now l of (n, sent, l') \<Rightarrow>
         timers_ok l' \<and> 0 \<le> n \<and> n \<le> int (length (takeWhile (\<lambda>t. \<not> ts_less now (ti_timeout t)) (timers l)))
         \<and> length sent \<le> length (takeWhile (\<lambda>t. \<not> ts_less now (ti_timeout t)) (timers l))"
  proof (cases "disabled \<or> timers l = []")
    case False
    define k where "k = update_current_time now (l\<lparr>first_timer := None\<rparr>)"
    have k: "timers_ok k" "timers k = timers l" using assms(1) by (simp_all add: k_def update_current_time_def)
    obtain n sent l' where r: "activate_loop past deliver now (length (takeWhile (\<lambda>t. \<not> ts_less now (ti_timeout t)) (timers l))) 0 [] k = (n, sent, l')"
      by (metis prod_cases3)
    show ?thesis using False activate_loop_ok [OF assms(3,2) k(1) r] r k(2) by (simp add: activate_timers_def k_def [symmetric] Let_def)
  qed (use assms(1) in \<open>auto simp: activate_timers_def\<close>)
  ultimately show ?thesis using unregister_ok [OF assms(1)] by blast
qed

theorem timer_list_invariant_witness:
  "timers_ok (register_timer 0 \<lparr>tv_sec = 1, tv_nsec = 2\<rparr> 7 \<lparr>tv_sec = 0, tv_nsec = 0\<rparr> 3 250 Coarse_Timer 4 (timer_list_new \<lparr>tv_sec = 0, tv_nsec = 0\<rparr>))"
proof -
  have "timers_ok (timer_list_new \<lparr>tv_sec = 0, tv_nsec = 0\<rparr>)" "ts_ok \<lparr>tv_sec = 1, tv_nsec = 2\<rparr>"
    by (simp_all add: timers_ok_def timer_list_new_def ts_ok_def)
  from timer_list_invariant [OF this, where past = 0 and deliver = "\<lambda>obj i l. l" and interval = 250 and addr = 7
      and junk = "\<lparr>tv_sec = 0, tv_nsec = 0\<rparr>" and timerId = 3 and type = Coarse_Timer and obj = 4] show ?thesis
    by (simp add: timer_list_new_def)
qed

section \<open>Activation\<close>

text \<open>What a timer keeps when it is activated.\<close>

definition timer_key :: "timer_info \<Rightarrow> nat \<times> int \<times> int \<times> timer_type \<times> nat \<times> bool" where
  "timer_key t = (ti_addr t, ti_id t, ti_interval t, ti_type t, ti_obj t, ti_active t)"

lemma timer_key_next [simp]: "timer_key (calculate_next_timeout t now) = timer_key t"
  by (simp add: timer_key_def)










section \<open>The order of the list\<close>

text \<open>C18: \<open>timerInsert\<close> puts a timer one place behind the first timer that is not later, so that the list is not in the order of the
  timeouts: of three precise timers registered for a, b and c with a < b < c, the last stands before the second.  When the
  first is gone, \<open>timerWait\<close> waits for c, and at the time b an activation finds nothing that is due.  The first timer goes into an
  empty list, where \<open>past\<close> does not matter.\<close>

theorem timer_order:
  assumes "ts_ok now" "0 \<le> a" "a < b" "b < c" "distinct [i, j, k]"
  shows "let l = register_timer past now 3 junk k c Precise_Timer obj (register_timer past now 2 junk j b Precise_Timer obj
                   (register_timer past now 1 junk i a Precise_Timer obj (timer_list_new junk)));
             rest = snd (unregister_timer i l)
         in map ti_id (timers l) = [i, k, j]
          \<and> fst (timer_wait now rest) = Some (round_to_millisecond (ts_sub (ts_add_ms now c) now))
          \<and> fst (snd (activate_timers past False deliver (ts_add_ms now b) rest)) = []"
proof -
  have less: "ts_less (ts_add_ms now x) (ts_add_ms now y) \<longleftrightarrow> x < y" for x y by (simp add: ts_less_ns)
  have less': "ts_less now (ts_add_ms now c)" using assms by (simp add: ts_less_ns)
  show ?thesis
    using assms(3-5) less' by (simp add: Let_def register_timer_def new_timer_def timer_list_new_def update_current_time_def timer_insert_def insert_at_def
      less unregister_timer_def extract_Cons_code forget_first_def timer_wait_def activate_timers_def)
qed

theorem timer_order_witness:
  "map ti_id (timers (register_timer 0 \<lparr>tv_sec = 0, tv_nsec = 0\<rparr> 3 \<lparr>tv_sec = 0, tv_nsec = 0\<rparr> 3 3 Precise_Timer 0
     (register_timer 0 \<lparr>tv_sec = 0, tv_nsec = 0\<rparr> 2 \<lparr>tv_sec = 0, tv_nsec = 0\<rparr> 2 2 Precise_Timer 0
       (register_timer 0 \<lparr>tv_sec = 0, tv_nsec = 0\<rparr> 1 \<lparr>tv_sec = 0, tv_nsec = 0\<rparr> 1 1 Precise_Timer 0
         (timer_list_new \<lparr>tv_sec = 0, tv_nsec = 0\<rparr>))))) = [1, 3, 2]"
proof -
  have "ts_ok \<lparr>tv_sec = 0, tv_nsec = 0\<rparr>" by (simp add: ts_ok_def)
  from timer_order [OF this, of 1 2 3 1 2 3 0 "\<lparr>tv_sec = 0, tv_nsec = 0\<rparr>" 0 "\<lambda>obj i l. l"] show ?thesis by (simp add: Let_def)
qed

end
