(* ===== verification/Byte_Search.thy ===== *)
theory Byte_Search
  imports Byte_Edit Utf_Codecs
begin

text \<open>
  Searching for byte strings: \<open>ByteArrayMatcher\<close> and \<open>pdk_find_byte_array\<close> (\<open>src/modules/base/ds/ByteArrayMatcher.cpp\<close>),
  the searches and the replacement of \<open>ByteArray\<close> that use them (\<open>ByteArray.cpp\<close>), and \<open>StringMatcher\<close>
  (\<open>src/modules/base/lang/StringMatcher.cpp\<close>), whose algorithm is the same on the low bytes of 16-bit units.

  The skip table is a function from bytes; \<open>key\<close> is what the code indexes it with.  Pointers into the text are
  indices.
\<close>

section \<open>The skip table and the search of Boyer and Moore\<close>

fun bm_fill :: "('a \<Rightarrow> byte) \<Rightarrow> 'a list \<Rightarrow> (byte \<Rightarrow> nat) \<Rightarrow> byte \<Rightarrow> nat" where
  "bm_fill key [] skiptable = skiptable"
| "bm_fill key (c # cs) skiptable = bm_fill key cs (skiptable(key c := length cs))"

definition bm_init_skiptable :: "('a \<Rightarrow> byte) \<Rightarrow> 'a list \<Rightarrow> byte \<Rightarrow> nat" where
  "bm_init_skiptable key pat = (let l = min (length pat) 255 in bm_fill key (drop (length pat - l) pat) (\<lambda>c. l))"

text \<open>
  The inner loop says how many elements agree, backwards from \<open>current\<close>.  The step of the outer loop is never 0, since
  \<open>bm_find\<close> does not start it for an empty pattern.
\<close>

function bm_compare :: "'a list \<Rightarrow> nat \<Rightarrow> 'a list \<Rightarrow> nat \<Rightarrow> nat" where
  "bm_compare hay current pat skip =
     (if skip < length pat \<and> hay ! (current - skip) = pat ! (length pat - 1 - skip)
      then bm_compare hay current pat (skip + 1) else skip)"
  by auto
termination by (relation "measure (\<lambda>(hay, current, pat, skip). length pat - skip)") auto

declare bm_compare.simps [simp del]

function bm_loop :: "('a \<Rightarrow> byte) \<Rightarrow> (byte \<Rightarrow> nat) \<Rightarrow> 'a list \<Rightarrow> 'a list \<Rightarrow> nat \<Rightarrow> int" where
  "bm_loop key skiptable hay pat current =
     (if current < length hay
      then let skip = skiptable (key (hay ! current));
               match = (if skip = 0 then bm_compare hay current pat 0 else 0)
           in if skip = 0 \<and> match > length pat - 1 then int current - int match + 1
              else let step = (if skip \<noteq> 0 then skip
                               else if skiptable (key (hay ! (current - match))) = length pat then length pat - match else 1)
                   in if step = 0 \<or> current + step > length hay then - 1 else bm_loop key skiptable hay pat (current + step)
      else - 1)"
  by auto
termination
  by (relation "measure (\<lambda>(key, skiptable, hay, pat, current). length hay - current)") (auto split: if_splits)

declare bm_loop.simps [simp del]

definition bm_find :: "('a \<Rightarrow> byte) \<Rightarrow> 'a list \<Rightarrow> nat \<Rightarrow> 'a list \<Rightarrow> (byte \<Rightarrow> nat) \<Rightarrow> int" where
  "bm_find key hay index pat skiptable =
     (if pat = [] then if index > length hay then - 1 else int index
      else bm_loop key skiptable hay pat (index + (length pat - 1)))"

section \<open>Matchers\<close>

record byte_matcher =
  bm_pattern :: "byte list"
  bm_skiptable :: "byte \<Rightarrow> nat"

definition byte_matcher_empty :: byte_matcher where
  "byte_matcher_empty = \<lparr>bm_pattern = [], bm_skiptable = \<lambda>c. 0\<rparr>"

definition byte_matcher_new :: "byte list \<Rightarrow> byte_matcher" where
  "byte_matcher_new pat = \<lparr>bm_pattern = pat, bm_skiptable = bm_init_skiptable id pat\<rparr>"

definition set_pattern :: "byte list \<Rightarrow> byte_matcher \<Rightarrow> byte_matcher" where
  "set_pattern pat m = m\<lparr>bm_pattern := pat, bm_skiptable := bm_init_skiptable id pat\<rparr>"

definition index_in :: "byte_matcher \<Rightarrow> byte list \<Rightarrow> int \<Rightarrow> int" where
  "index_in m hay from = bm_find id hay (nat (if from < 0 then 0 else from)) (bm_pattern m) (bm_skiptable m)"

definition find_boyer_moore :: "byte list \<Rightarrow> int \<Rightarrow> byte list \<Rightarrow> int" where
  "find_boyer_moore hay offset needle =
     bm_find id hay (nat (if offset < 0 then 0 else offset)) needle (bm_init_skiptable id needle)"

text \<open>
  \<open>StringMatcher\<close>.  The case folding of one code point, which reads the Unicode tables, is the parameter \<open>convert\<close>;
  \<open>fold_case\<close> joins a low surrogate to the high surrogate before it, if that is not before the start.
\<close>

fun fold_units :: "(u32 \<Rightarrow> u32) \<Rightarrow> u16 option \<Rightarrow> u16 list \<Rightarrow> u32 list" where
  "fold_units convert before [] = []"
| "fold_units convert before (u # us) =
     convert (case before of
                Some h \<Rightarrow> if is_low_surrogate (ucast u) \<and> is_high_surrogate (ucast h) then surrogate_to_ucs4 h u else ucast u
              | None \<Rightarrow> ucast u)
     # fold_units convert (Some u) us"

definition low_byte :: "'a::len word \<Rightarrow> byte" where
  "low_byte u = ucast (and u 0xff)"

record string_matcher =
  sm_pattern :: "u16 list"
  sm_sensitive :: bool
  sm_skiptable :: "byte \<Rightarrow> nat"

definition string_init_skiptable :: "(u32 \<Rightarrow> u32) \<Rightarrow> u16 list \<Rightarrow> bool \<Rightarrow> byte \<Rightarrow> nat" where
  "string_init_skiptable convert pat sensitive =
     (let l = min (length pat) 255; rest = drop (length pat - l) pat
      in if sensitive then bm_fill low_byte rest (\<lambda>c. l)
         else bm_fill low_byte (fold_units convert None rest) (\<lambda>c. l))"

definition string_bm_find :: "(u32 \<Rightarrow> u32) \<Rightarrow> u16 list \<Rightarrow> nat \<Rightarrow> u16 list \<Rightarrow> (byte \<Rightarrow> nat) \<Rightarrow> bool \<Rightarrow> int" where
  "string_bm_find convert hay index pat skiptable sensitive =
     (if sensitive then bm_find low_byte hay index pat skiptable
      else bm_find low_byte (fold_units convert None hay) index (fold_units convert None pat) skiptable)"

definition string_matcher_new :: "(u32 \<Rightarrow> u32) \<Rightarrow> u16 list \<Rightarrow> bool \<Rightarrow> string_matcher" where
  "string_matcher_new convert pat sensitive =
     \<lparr>sm_pattern = pat, sm_sensitive = sensitive, sm_skiptable = string_init_skiptable convert pat sensitive\<rparr>"

definition string_set_pattern :: "(u32 \<Rightarrow> u32) \<Rightarrow> u16 list \<Rightarrow> string_matcher \<Rightarrow> string_matcher" where
  "string_set_pattern convert pat m =
     m\<lparr>sm_pattern := pat, sm_skiptable := string_init_skiptable convert pat (sm_sensitive m)\<rparr>"

definition set_case_sensitivity :: "(u32 \<Rightarrow> u32) \<Rightarrow> bool \<Rightarrow> string_matcher \<Rightarrow> string_matcher" where
  "set_case_sensitivity convert sensitive m =
     (if sensitive = sm_sensitive m then m
      else m\<lparr>sm_skiptable := string_init_skiptable convert (sm_pattern m) sensitive, sm_sensitive := sensitive\<rparr>)"

definition string_index_in :: "(u32 \<Rightarrow> u32) \<Rightarrow> string_matcher \<Rightarrow> u16 list \<Rightarrow> int \<Rightarrow> int" where
  "string_index_in convert m hay from =
     string_bm_find convert hay (nat (if from < 0 then 0 else from)) (sm_pattern m) (sm_skiptable m) (sm_sensitive m)"

section \<open>The search with a rolling hash\<close>

text \<open>
  The memory around the bytes of the text: the code may read in front of them.  Characters are signed.
\<close>

definition around :: "(int \<Rightarrow> byte) \<Rightarrow> byte list \<Rightarrow> int \<Rightarrow> byte" where
  "around junk xs i = (if 0 \<le> i \<and> i < int (length xs) then xs ! nat i else junk i)"

definition read_at :: "(int \<Rightarrow> byte) \<Rightarrow> int \<Rightarrow> nat \<Rightarrow> byte list" where
  "read_at m i n = map (\<lambda>k. m (i + int k)) [0..<n]"

definition char_value :: "byte \<Rightarrow> u32" where
  "char_value c = scast c"

definition hash_step :: "u32 \<Rightarrow> byte \<Rightarrow> u32" where
  "hash_step h c = push_bit 1 h + char_value c"

definition rehash :: "nat \<Rightarrow> u32 \<Rightarrow> byte \<Rightarrow> u32" where
  "rehash sl_minus_1 h a = push_bit 1 (if sl_minus_1 < 32 then h - push_bit sl_minus_1 (char_value a) else h)"

definition find_char :: "byte list \<Rightarrow> byte \<Rightarrow> int \<Rightarrow> int" where
  "find_char str ch from =
     (let len = int (length str); from = (if from < 0 then max (from + len) 0 else from)
      in if from < len then scan_char ch (drop (nat from) str) from else - 1)"

function hash_find_loop :: "(int \<Rightarrow> byte) \<Rightarrow> byte list \<Rightarrow> u32 \<Rightarrow> int \<Rightarrow> int \<Rightarrow> u32 \<Rightarrow> int" where
  "hash_find_loop m needle hashNeedle end haystack hash =
     (if haystack \<le> end
      then let hash = hash + char_value (m (haystack + (int (length needle) - 1)))
           in if hash = hashNeedle \<and> hd needle = m haystack \<and> read_at m haystack (length needle) = needle then haystack
              else hash_find_loop m needle hashNeedle end (haystack + 1) (rehash (length needle - 1) hash (m haystack))
      else - 1)"
  by auto
termination
  by (relation "measure (\<lambda>(m, needle, hashNeedle, end, haystack, hash). nat (end + 1 - haystack))") auto

declare hash_find_loop.simps [simp del]

definition find_byte_array :: "(int \<Rightarrow> byte) \<Rightarrow> byte list \<Rightarrow> int \<Rightarrow> byte list \<Rightarrow> int" where
  "find_byte_array junk hay from needle =
     (let l = int (length hay); sl = int (length needle); from = (if from < 0 then from + l else from)
      in if (of_int (sl + from) :: u32) > of_int l then - 1
         else if sl = 0 then from
         else if l = 0 then - 1
         else if sl = 1 then find_char hay (hd needle) from
         else if l > 500 \<and> sl > 5 then find_boyer_moore hay from needle
         else let m = around junk hay;
                  hashNeedle = foldl hash_step 0 needle;
                  hash = foldl hash_step 0 (read_at m from (length needle)) - char_value (m (from + (sl - 1)))
              in hash_find_loop m needle hashNeedle (l - sl) from hash)"

text \<open>\<open>last_indexof_helper\<close>, which walks down with the hash of the reversed bytes.\<close>

function hash_find_back :: "(int \<Rightarrow> byte) \<Rightarrow> byte list \<Rightarrow> u32 \<Rightarrow> int \<Rightarrow> u32 \<Rightarrow> int" where
  "hash_find_back m needle hashNeedle haystack hash =
     (if haystack \<ge> 0
      then let hash = hash + char_value (m haystack)
           in if hash = hashNeedle \<and> read_at m haystack (length needle) = needle then haystack
              else hash_find_back m needle hashNeedle (haystack - 1)
                     (rehash (length needle - 1) hash (m (haystack - 1 + int (length needle))))
      else - 1)"
  by auto
termination by (relation "measure (\<lambda>(m, needle, hashNeedle, haystack, hash). nat (haystack + 1))") auto

declare hash_find_back.simps [simp del]

definition last_indexof_helper :: "(int \<Rightarrow> byte) \<Rightarrow> byte list \<Rightarrow> byte list \<Rightarrow> int \<Rightarrow> int" where
  "last_indexof_helper junk hay needle from =
     (let l = int (length hay); delta = l - int (length needle); from = (if from < 0 then delta else from)
      in if from < 0 \<or> from > l then - 1
         else let from = (if from > delta then delta else from);
                  m = around junk hay;
                  hashNeedle = foldl hash_step 0 (rev needle);
                  hash = foldl hash_step 0 (rev (read_at m from (length needle))) - char_value (m from)
              in hash_find_back m needle hashNeedle from hash)"

section \<open>The searches of a byte array\<close>

definition ba_index_of :: "(int \<Rightarrow> byte) \<Rightarrow> byte_array \<Rightarrow> byte list \<Rightarrow> int \<Rightarrow> int" where
  "ba_index_of junk a needle from =
     (let searchedLength = int (length needle); selfLength = int (ba_size a)
      in if searchedLength = 0 then from
         else if searchedLength = 1 then ba_index_of_char a (hd needle) from
         else if from > selfLength \<or> searchedLength + from > selfLength then - 1
         else find_byte_array junk (ba_bytes a) from needle)"

definition ba_index_of_chars :: "(int \<Rightarrow> byte) \<Rightarrow> byte_array \<Rightarrow> byte list \<Rightarrow> int \<Rightarrow> int" where
  "ba_index_of_chars junk a needle from =
     (let searchedLength = int (length needle); selfLength = int (ba_size a)
      in if searchedLength = 1 then ba_index_of_char a (hd needle) from
         else if from > selfLength \<or> searchedLength + from > selfLength then - 1
         else if searchedLength = 0 then from
         else find_byte_array junk (ba_bytes a) from needle)"

definition ba_last_index_of :: "(int \<Rightarrow> byte) \<Rightarrow> byte_array \<Rightarrow> byte list \<Rightarrow> int \<Rightarrow> int" where
  "ba_last_index_of junk a needle from =
     (if length needle = 1 then ba_last_index_of_char a (hd needle) from
      else last_indexof_helper junk (ba_bytes a) needle from)"

text \<open>
  The loop of \<open>count\<close> with either search; \<open>pos\<close> and \<open>num\<close> are of type \<open>int\<close>, and \<open>None\<close> says that one of them
  overflows, which the language leaves undefined.
\<close>

function count_loop :: "(int \<Rightarrow> int) \<Rightarrow> int \<Rightarrow> int \<Rightarrow> int option" where
  "count_loop search pos num =
     (if pos = 2147483647 then None
      else let pos = search (pos + 1)
           in if pos = - 1 then Some num else if num \<ge> 2147483647 then None else count_loop search pos (num + 1))"
  by auto
termination by (relation "measure (\<lambda>(search, pos, num). nat (2147483647 - num))") auto

declare count_loop.simps [simp del]

definition ba_count :: "(int \<Rightarrow> byte) \<Rightarrow> byte_array \<Rightarrow> byte list \<Rightarrow> int option" where
  "ba_count junk a needle =
     (if ba_size a > 500 \<and> length needle > 5 then count_loop (index_in (byte_matcher_new needle) (ba_bytes a)) (- 1) 0
      else count_loop (ba_index_of junk a needle) (- 1) 0)"

end
