(* ===== verification/Search_Proofs.thy ===== *)
theory Search_Proofs
  imports Byte_Search
begin

text \<open>
  The searches find what a search position by position finds: the first occurrence, the last one, all of them.
\<close>

section \<open>The reference\<close>

definition occurs_at :: "'a list \<Rightarrow> 'a list \<Rightarrow> nat \<Rightarrow> bool" where
  "occurs_at pat hay i \<longleftrightarrow> i + length pat \<le> length hay \<and> take (length pat) (drop i hay) = pat"

definition position :: "nat option \<Rightarrow> int" where
  "position r = (case r of None \<Rightarrow> - 1 | Some i \<Rightarrow> int i)"

definition first_at :: "'a list \<Rightarrow> 'a list \<Rightarrow> nat \<Rightarrow> int" where
  "first_at pat hay start = position (find (occurs_at pat hay) [start..<length hay + 1])"


lemma occurs_at_nth:
  "occurs_at pat hay i \<longleftrightarrow> i + length pat \<le> length hay \<and> (\<forall>k < length pat. hay ! (i + k) = pat ! k)"
proof -
  have "take (length pat) (drop i hay) = pat \<longleftrightarrow> (\<forall>k < length pat. hay ! (i + k) = pat ! k)" if "i + length pat \<le> length hay"
    using that by (auto simp: list_eq_iff_nth_eq)
  then show ?thesis by (auto simp: occurs_at_def)
qed

lemma occurs_at_le: "occurs_at pat hay i \<Longrightarrow> i + length pat \<le> length hay"
  by (simp add: occurs_at_def)

lemma first_at_none: "(\<And>i. start \<le> i \<Longrightarrow> \<not> occurs_at pat hay i) \<Longrightarrow> first_at pat hay start = - 1"
proof -
  assume none: "\<And>i. start \<le> i \<Longrightarrow> \<not> occurs_at pat hay i"
  have "find (occurs_at pat hay) [start..<length hay + 1] = None" unfolding find_None_iff using none by auto
  then show ?thesis by (simp only: first_at_def position_def option.case)
qed

lemma first_at_step:
  assumes "start \<le> nxt" "\<And>i. start \<le> i \<Longrightarrow> i < nxt \<Longrightarrow> \<not> occurs_at pat hay i"
  shows "first_at pat hay start = first_at pat hay nxt"
proof (cases "nxt \<le> length hay + 1")
  case True
  then have "[start..<length hay + 1] = [start..<nxt] @ [nxt..<length hay + 1]"
    using assms(1) upt_add_eq_append [of start nxt "length hay + 1 - nxt"] by simp
  moreover have "find (occurs_at pat hay) [start..<nxt] = None" using assms by (auto simp: find_None_iff)
  moreover have "find P (xs @ ys) = find P ys" if "find P xs = None" for P xs and ys :: "nat list"
    using that by (induction xs) (auto split: if_splits)
  ultimately show ?thesis by (simp only: first_at_def)
next
  case False
  have "\<not> occurs_at pat hay i" if "start \<le> i" for i using assms(2) [OF that] occurs_at_le [of pat hay i] False by (cases "i < nxt") auto
  moreover have "\<not> occurs_at pat hay i" if "nxt \<le> i" for i using occurs_at_le [of pat hay i] False that by auto
  ultimately show ?thesis using first_at_none [of start] first_at_none [of nxt] by metis
qed

lemma first_at_here: "occurs_at pat hay i \<Longrightarrow> first_at pat hay i = int i"
proof -
  assume occ: "occurs_at pat hay i"
  have "[i..<length hay + 1] = i # [i + 1..<length hay + 1]"
    using occurs_at_le [OF occ] by (simp add: upt_conv_Cons del: upt_Suc)
  then show ?thesis using occ by (simp only: first_at_def position_def find.simps if_True option.case)
qed

lemma first_at_cases:
  obtains "first_at pat hay start = - 1" "\<And>i. start \<le> i \<Longrightarrow> \<not> occurs_at pat hay i"
  | i where "first_at pat hay start = int i" "start \<le> i" "occurs_at pat hay i" "\<And>j. start \<le> j \<Longrightarrow> j < i \<Longrightarrow> \<not> occurs_at pat hay j"
proof (cases "\<exists>i. start \<le> i \<and> occurs_at pat hay i")
  case True
  define i where "i = (LEAST i. start \<le> i \<and> occurs_at pat hay i)"
  have i: "start \<le> i" "occurs_at pat hay i" using LeastI_ex [OF True] by (simp_all add: i_def)
  have j: "\<not> occurs_at pat hay j" if "start \<le> j" "j < i" for j using that not_less_Least [of j "\<lambda>i. start \<le> i \<and> occurs_at pat hay i"] by (auto simp: i_def)
  have "first_at pat hay start = int i" using first_at_step [OF i(1) j] first_at_here [OF i(2)] by simp
  then show ?thesis using that(2) i j by blast
next
  case False
  then show ?thesis using that(1) first_at_none [of start] by metis
qed

section \<open>The skip table\<close>

definition table_ok :: "('a \<Rightarrow> byte) \<Rightarrow> 'a list \<Rightarrow> (byte \<Rightarrow> nat) \<Rightarrow> bool" where
  "table_ok key pat t \<longleftrightarrow> (\<forall>c. t c \<le> length pat \<and> (\<forall>k < t c. key (pat ! (length pat - 1 - k)) \<noteq> c))"

lemma bm_fill_range: "bm_fill key cs t c = t c \<or> bm_fill key cs t c < length cs"
proof (induction cs arbitrary: t)
  case (Cons x cs)
  define u where "u = t(key x := length cs)"
  have "u c = (if c = key x then length cs else t c)" by (simp add: u_def)
  then show ?case using Cons [of u] by (auto simp: u_def [symmetric])
qed simp

lemma bm_fill_skips: "k < bm_fill key cs t c \<Longrightarrow> k < length cs \<Longrightarrow> key (cs ! (length cs - 1 - k)) \<noteq> c"
proof (induction cs arbitrary: t)
  case (Cons x cs)
  define u where "u = t(key x := length cs)"
  have u: "bm_fill key (x # cs) t = bm_fill key cs u" by (simp add: u_def)
  show ?case
  proof (cases "k < length cs")
    case True
    then have "length (x # cs) - 1 - k = Suc (length cs - 1 - k)" by simp
    then have "(x # cs) ! (length (x # cs) - 1 - k) = cs ! (length cs - 1 - k)" by (simp only: nth_Cons_Suc)
    then show ?thesis using Cons.IH [of u] Cons.prems True unfolding u by simp
  next
    case False
    then have k: "k = length cs" using Cons.prems by simp
    have "key x \<noteq> c"
    proof
      assume "key x = c"
      then have "bm_fill key (x # cs) t c \<le> length cs" using bm_fill_range [of key cs u c] unfolding u by (auto simp: u_def)
      then show False using Cons.prems k by simp
    qed
    then show ?thesis using k by simp
  qed
qed simp

lemma table_ok_fill:
  assumes "l \<le> length pat" "rest = drop (length pat - l) pat"
  shows "table_ok key pat (bm_fill key rest (\<lambda>c. l))"
proof -
  have len: "length rest = l" using assms by simp
  have le: "bm_fill key rest (\<lambda>c. l) c \<le> l" for c using bm_fill_range [of key rest "\<lambda>c. l" c] len by auto
  have "key (pat ! (length pat - 1 - k)) \<noteq> c" if "k < bm_fill key rest (\<lambda>c. l) c" for k c
  proof -
    have k: "k < l" using that le [of c] by simp
    then have "rest ! (l - 1 - k) = pat ! (length pat - 1 - k)" using assms by simp
    then show ?thesis using bm_fill_skips [OF that] k len by simp
  qed
  then show ?thesis using le assms(1) by (auto simp: table_ok_def intro: order_trans)
qed

lemma table_ok_init: "table_ok key pat (bm_init_skiptable key pat)"
  unfolding bm_init_skiptable_def Let_def by (rule table_ok_fill) simp_all

section \<open>The search of Boyer and Moore\<close>

lemma bm_compare_result:
  assumes "skip \<le> length pat" "\<forall>j < skip. hay ! (current - j) = pat ! (length pat - 1 - j)"
  defines "r \<equiv> bm_compare hay current pat skip"
  shows "r \<le> length pat \<and> (\<forall>j < r. hay ! (current - j) = pat ! (length pat - 1 - j))
    \<and> (r < length pat \<longrightarrow> hay ! (current - r) \<noteq> pat ! (length pat - 1 - r))"
  using assms(1,2) unfolding r_def
proof (induction hay current pat skip rule: bm_compare.induct)
  case (1 hay current pat skip)
  show ?case
  proof (cases "skip < length pat \<and> hay ! (current - skip) = pat ! (length pat - 1 - skip)")
    case True
    then have "\<forall>j < skip + 1. hay ! (current - j) = pat ! (length pat - 1 - j)" using 1(3) less_Suc_eq by auto
    then show ?thesis using 1(1) True by (subst (1 2 3 4 5) bm_compare.simps) simp
  next
    case False
    then have "bm_compare hay current pat skip = skip" by (simp only: bm_compare.simps [of hay current pat skip] if_False)
    then show ?thesis using 1(2,3) False by (simp only:) blast
  qed
qed

text \<open>An element that does not occur in the last elements of the pattern rules out the positions that would put it there.\<close>

lemma skip_positions:
  assumes "table_ok key pat t" "at < length hay" "i \<le> at" "at < i + length pat" "length pat - 1 - (at - i) < t (key (hay ! at))"
  shows "\<not> occurs_at pat hay i"
proof
  assume occ: "occurs_at pat hay i"
  define k where "k = length pat - 1 - (at - i)"
  have "hay ! at = pat ! (at - i)" using occ assms(3,4) unfolding occurs_at_nth by (metis le_add_diff_inverse less_diff_conv2 add.commute)
  moreover have "at - i = length pat - 1 - k" using assms(3,4) by (simp add: k_def)
  ultimately have "key (pat ! (length pat - 1 - k)) = key (hay ! at)" by simp
  moreover have "k < t (key (hay ! at))" using assms(5) by (simp add: k_def)
  ultimately show False using assms(1) unfolding table_ok_def by blast
qed

lemma bm_loop_first:
  assumes "table_ok key pat t" "pat \<noteq> []" "length pat - 1 \<le> current"
  shows "bm_loop key t hay pat current = first_at pat hay (current + 1 - length pat)"
  using assms(3)
proof (induction "length hay - current" arbitrary: current rule: less_induct)
  case less
  note ok = assms(1) and ne = assms(2) and cur = less.prems
  define i0 where "i0 = current + 1 - length pat"
  have pl: "length pat > 0" "i0 + length pat = current + 1" using ne cur by (simp_all add: i0_def)
  show ?case
  proof (cases "current < length hay")
    case False
    then have "\<not> occurs_at pat hay i" if "i0 \<le> i" for i using that occurs_at_le [of pat hay i] pl by auto
    then have "first_at pat hay i0 = - 1" by (rule first_at_none)
    then show ?thesis using False by (subst bm_loop.simps) (simp add: i0_def)
  next
    case cur_in: True
    define skip where "skip = t (key (hay ! current))"
    define match where "match = (if skip = 0 then bm_compare hay current pat 0 else 0)"
    define step where "step = (if skip \<noteq> 0 then skip
      else if t (key (hay ! (current - match))) = length pat then length pat - match else 1)"
    have step_eq: "bm_loop key t hay pat current =
        (if skip = 0 \<and> match > length pat - 1 then int current - int match + 1
         else if step = 0 \<or> current + step > length hay then - 1 else bm_loop key t hay pat (current + step))"
      using cur_in by (subst bm_loop.simps) (simp only: if_True Let_def skip_def match_def step_def)
    have cmp: "match \<le> length pat" "\<forall>j < match. hay ! (current - j) = pat ! (length pat - 1 - j)"
      "skip = 0 \<Longrightarrow> match < length pat \<Longrightarrow> hay ! (current - match) \<noteq> pat ! (length pat - 1 - match)"
      using bm_compare_result [of 0 pat hay current] by (auto simp: match_def split: if_splits)
    show ?thesis
    proof (cases "skip = 0 \<and> match > length pat - 1")
      case True
      then have m: "match = length pat" using cmp(1) conjunct2 [OF True] pl by linarith
      have "hay ! (i0 + k) = pat ! k" if "k < length pat" for k
      proof -
        have j: "length pat - 1 - k < match" "current - (length pat - 1 - k) = i0 + k" "length pat - 1 - (length pat - 1 - k) = k"
          using that m pl by auto
        show ?thesis using cmp(2) j by metis
      qed
      then have "occurs_at pat hay i0" using cur_in pl unfolding occurs_at_nth by simp
      then have "first_at pat hay i0 = int i0" by (rule first_at_here)
      moreover have "int current - int match + 1 = int i0" using m pl by simp
      ultimately show ?thesis using True step_eq by (simp add: i0_def)
    next
      case no: False
      have free: "\<not> occurs_at pat hay i" if i: "i0 \<le> i" "i < i0 + step" for i
      proof (cases "skip = 0")
        case False
        then have "step = skip" by (simp add: step_def)
        moreover have "skip \<le> length pat" using ok by (simp add: table_ok_def skip_def)
        ultimately have b: "i \<le> current" "current < i + length pat" "length pat - 1 - (current - i) < t (key (hay ! current))"
          using i pl by (auto simp: skip_def [symmetric])
        show ?thesis by (rule skip_positions [OF ok cur_in b])
      next
        case True
        then have mis: "match < length pat" "hay ! (current - match) \<noteq> pat ! (length pat - 1 - match)"
        proof -
          show "match < length pat" using no True pl by linarith
          then show "hay ! (current - match) \<noteq> pat ! (length pat - 1 - match)" using cmp(3) [OF True] by blast
        qed
        show ?thesis
        proof (cases "t (key (hay ! (current - match))) = length pat")
          case full: True
          then have "step = length pat - match" using True by (simp add: step_def)
          then have b: "i \<le> current - match" "current - match < i + length pat"
            "length pat - 1 - (current - match - i) < t (key (hay ! (current - match)))"
            using i pl mis full by auto
          have "current - match < length hay" using cur_in by simp
          from skip_positions [OF ok this b] show ?thesis .
        next
          case False
          then have "step = 1" using True by (simp add: step_def)
          then have "i = i0" using i by simp
          moreover have "current - match = i0 + (length pat - 1 - match)" using mis pl by auto
          moreover have "length pat - 1 - match < length pat" using pl by simp
          ultimately show ?thesis using mis(2) unfolding occurs_at_nth by metis
        qed
      qed
      have eq': "bm_loop key t hay pat current =
          (if step = 0 \<or> current + step > length hay then - 1 else bm_loop key t hay pat (current + step))"
        using step_eq unfolding if_not_P [OF no] .
      have pos: "step > 0"
      proof (cases "skip = 0")
        case True
        then have "match < length pat" using no pl by linarith
        then show ?thesis using True by (simp add: step_def)
      qed (simp add: step_def)
      have first: "first_at pat hay i0 = first_at pat hay (i0 + step)"
        by (rule first_at_step) (use free in simp_all)
      show ?thesis
      proof (cases "current + step > length hay")
        case True
        then have "\<not> occurs_at pat hay i" if "i0 + step \<le> i" for i using that occurs_at_le [of pat hay i] pl by auto
        then have "first_at pat hay (i0 + step) = - 1" by (rule first_at_none)
        then have "first_at pat hay i0 = - 1" using first by simp
        moreover have "bm_loop key t hay pat current = - 1" using eq' True by simp
        ultimately show ?thesis by (simp only: i0_def)
      next
        case False
        have go: "length hay - (current + step) < length hay - current" using pos cur_in by simp
        have c: "length pat - 1 \<le> current + step" using cur by simp
        have "bm_loop key t hay pat (current + step) = first_at pat hay (current + step + 1 - length pat)"
          by (rule less.hyps [OF go c])
        moreover have "current + step + 1 - length pat = i0 + step" using pl by simp
        ultimately have "bm_loop key t hay pat (current + step) = first_at pat hay i0" using first by simp
        moreover have "bm_loop key t hay pat current = bm_loop key t hay pat (current + step)" using eq' False pos by simp
        ultimately show ?thesis by (simp only: i0_def)
      qed
    qed
  qed
qed

lemma bm_find_first:
  assumes "table_ok key pat t"
  shows "bm_find key hay index pat t = first_at pat hay index"
proof (cases "pat = []")
  case True
  have "first_at [] hay index = (if index > length hay then - 1 else int index)"
    using first_at_here [of "[]" hay index] first_at_none [of index "[]" hay] by (auto simp: occurs_at_def)
  then show ?thesis using True by (simp add: bm_find_def)
next
  case False
  then have "index + (length pat - 1) + 1 - length pat = index" by (cases pat) simp_all
  then show ?thesis using False bm_loop_first [OF assms False, of "index + (length pat - 1)" hay]
    by (simp only: bm_find_def if_False)
qed

lemma length_fold_units [simp]: "length (fold_units convert before us) = length us"
  by (induction convert before us rule: fold_units.induct) simp_all

lemma clamped_from: "nat (if from < 0 then 0 else from) = nat from"
  by simp

lemma index_in_first: "index_in (byte_matcher_new pat) hay from = first_at pat hay (nat from)"
  by (simp only: index_in_def byte_matcher_new_def byte_matcher.simps clamped_from bm_find_first [OF table_ok_init])

lemma string_table_ok:
  "table_ok low_byte pat (string_init_skiptable convert pat True)"
  "length pat \<le> 255 \<Longrightarrow> table_ok low_byte (fold_units convert None pat) (string_init_skiptable convert pat False)"
proof -
  show "table_ok low_byte pat (string_init_skiptable convert pat True)"
    unfolding string_init_skiptable_def Let_def if_True by (rule table_ok_fill) simp_all
  show "table_ok low_byte (fold_units convert None pat) (string_init_skiptable convert pat False)" if "length pat \<le> 255"
    unfolding string_init_skiptable_def Let_def if_False by (rule table_ok_fill) (use that in simp_all)
qed

text \<open>C21: The matchers for bytes and for strings find the first occurrence of their pattern at or after the given position, for any
  pattern and text; ignoring case, a string matcher finds the first place where the folded units agree, for patterns of
  up to 255 units.\<close>

theorem matchers_find_first:
  shows "index_in (byte_matcher_new pat) hay from = first_at pat hay (nat from)
    \<and> string_index_in convert (string_matcher_new convert upat True) uhay from = first_at upat uhay (nat from)
    \<and> (length upat \<le> 255 \<longrightarrow>
        string_index_in convert (string_matcher_new convert upat False) uhay from
        = first_at (fold_units convert None upat) (fold_units convert None uhay) (nat from))"
  by (auto simp: index_in_first string_index_in_def string_matcher_new_def string_bm_find_def clamped_from
      simp del: nat_0_iff simp: bm_find_first [OF string_table_ok(1)] bm_find_first [OF string_table_ok(2)])

theorem matchers_find_first_witness:
  "string_index_in (\<lambda>c. c) (string_matcher_new (\<lambda>c. c) [98, 99] False) [97, 98, 99] 0 = 1"
proof -
  have "first_at (fold_units (\<lambda>c. c) None [98, 99]) (fold_units (\<lambda>c. c) None [97, 98, 99]) 0 = 1"
    by (simp add: first_at_def position_def occurs_at_def is_low_surrogate_def upt_rec)
  then show ?thesis using matchers_find_first [of "[]" "[]" 0 "\<lambda>c. c" "[98, 99]" "[97, 98, 99]"] by simp
qed

section \<open>The rolling hash\<close>

lemma push_bit_add: "push_bit n (a + b) = push_bit n a + push_bit n (b :: u32)"
  by (simp add: push_bit_eq_mult algebra_simps)

lemma push_bit_diff: "push_bit n (a - b) = push_bit n a - push_bit n (b :: u32)"
  by (simp add: push_bit_eq_mult algebra_simps)

lemma hash_foldl: "foldl hash_step h bs = push_bit (length bs) h + foldl hash_step 0 bs"
proof (induction bs arbitrary: h)
  case (Cons b bs)
  show ?case using Cons [of "hash_step h b"] Cons [of "hash_step 0 b"] by (simp add: hash_step_def push_bit_add add.assoc)
qed simp

lemma hash_cons: "foldl hash_step 0 (b # bs) = push_bit (length bs) (char_value b) + foldl hash_step 0 bs"
  using hash_foldl [of "hash_step 0 b" bs] by (simp add: hash_step_def)

lemma hash_snoc: "foldl hash_step 0 (bs @ [b]) = push_bit 1 (foldl hash_step 0 bs) + char_value b"
  by (simp add: hash_step_def)

lemma rehash_window:
  assumes "length bs = n"
  shows "rehash n (foldl hash_step 0 (b # bs)) b + char_value c = foldl hash_step 0 (bs @ [c])"
proof -
  have "push_bit n (char_value b) = 0" if "\<not> n < 32"
    using that by (intro bit_word_eqI) (simp add: bit_push_bit_iff)
  then show ?thesis using assms hash_cons [of b bs] by (simp add: rehash_def hash_step_def)
qed

lemma read_at_Suc: "read_at m i (Suc n) = m i # read_at m (i + 1) n" "read_at m i (Suc n) = read_at m i n @ [m (i + int n)]"
proof -
  have "[0..<Suc n] = 0 # map Suc [0..<n]" by (simp add: map_Suc_upt upt_conv_Cons del: upt_Suc)
  then show "read_at m i (Suc n) = m i # read_at m (i + 1) n" by (simp add: read_at_def comp_def add.assoc del: upt_Suc)
qed (simp add: read_at_def)

lemma length_read_at [simp]: "length (read_at m i n) = n"
  by (simp add: read_at_def)

lemma read_around:
  assumes "i + n \<le> length xs"
  shows "read_at (around junk xs) (int i) n = take n (drop i xs)"
proof (rule nth_equalityI)
  show "read_at (around junk xs) (int i) n ! k = take n (drop i xs) ! k" if "k < length (read_at (around junk xs) (int i) n)" for k
    using that assms by (simp add: read_at_def around_def nat_add_distrib)
qed (use assms in simp)

lemma hash_find_loop_first:
  assumes "0 \<le> haystack" "0 < length needle" "m = around junk hay" "end = int (length hay) - int (length needle)"
    "hashNeedle = foldl hash_step 0 needle"
    "hash + char_value (m (haystack + (int (length needle) - 1))) = foldl hash_step 0 (read_at m haystack (length needle))"
  shows "hash_find_loop m needle hashNeedle end haystack hash = first_at needle hay (nat haystack)"
  using assms
proof (induction m needle hashNeedle "end" haystack hash rule: hash_find_loop.induct)
  case (1 m needle hashNeedle "end" haystack hash)
  note pr = "1.prems"
  obtain n where n: "length needle = Suc n" using pr(2) by (cases "length needle") auto
  define h where "h = hash + char_value (m (haystack + (int (length needle) - 1)))"
  show ?case
  proof (cases "haystack \<le> end")
    case False
    have "\<not> occurs_at needle hay i" if "nat haystack \<le> i" for i
      using that occurs_at_le [of needle hay i] False pr(1,4) by auto
    then have "first_at needle hay (nat haystack) = - 1" by (rule first_at_none)
    then show ?thesis using False by (subst hash_find_loop.simps) simp
  next
    case True
    have fits: "nat haystack + length needle \<le> length hay" using True pr(1,4) by linarith
    have window: "read_at m haystack (length needle) = take (length needle) (drop (nat haystack) hay)"
      using read_around [OF fits, of junk] pr(1,3) by simp
    have occ: "read_at m haystack (length needle) = needle \<longleftrightarrow> occurs_at needle hay (nat haystack)"
      unfolding window using fits by (simp add: occurs_at_def)
    have head: "m haystack = hd (read_at m haystack (length needle))" unfolding n read_at_Suc(1) by simp
    have eq: "hash_find_loop m needle hashNeedle end haystack hash =
        (if h = hashNeedle \<and> hd needle = m haystack \<and> read_at m haystack (length needle) = needle then haystack
         else hash_find_loop m needle hashNeedle end (haystack + 1) (rehash (length needle - 1) h (m haystack)))"
      using True by (subst hash_find_loop.simps) (simp only: if_True Let_def h_def)
    show ?thesis
    proof (cases "occurs_at needle hay (nat haystack)")
      case match: True
      then have "read_at m haystack (length needle) = needle" using occ by simp
      then have "hash_find_loop m needle hashNeedle end haystack hash = haystack"
        unfolding eq using head pr(5,6) by (simp add: h_def)
      then show ?thesis using first_at_here [OF match] pr(1) by simp
    next
      case False
      have nxt: "first_at needle hay (nat haystack) = first_at needle hay (nat (haystack + 1))"
        by (rule first_at_step) (use pr(1) False in \<open>auto simp: nat_add_distrib less_Suc_eq_le dest: antisym\<close>)
      have no: "\<not> (h = hashNeedle \<and> hd needle = m haystack \<and> read_at m haystack (length needle) = needle)"
        using occ False by simp
      have "rehash n h (m haystack) + char_value (m (haystack + 1 + int n)) = foldl hash_step 0 (read_at m (haystack + 1) (Suc n))"
        using rehash_window [of "read_at m (haystack + 1) n" n "m haystack" "m (haystack + 1 + int n)"] pr(6)
        unfolding read_at_Suc(2) [of m "haystack + 1"] by (simp add: h_def n read_at_Suc(1))
      then have "hash_find_loop m needle hashNeedle end (haystack + 1) (rehash (length needle - 1) h (m haystack)) =
          first_at needle hay (nat (haystack + 1))"
        using "1.IH" [OF True h_def no] pr(1-5) by (simp add: n)
      then show ?thesis using eq no nxt by simp
    qed
  qed
qed

lemma occurs_single: "occurs_at [c] xs k \<longleftrightarrow> k < length xs \<and> xs ! k = c"
  by (auto simp: occurs_at_nth)

lemma scan_char_first: "scan_char c (drop k xs) (int k) = first_at [c] xs k"
proof (induction "length xs - k" arbitrary: k)
  case 0
  then have "\<not> occurs_at [c] xs i" if "k \<le> i" for i using that by (simp add: occurs_single)
  then have "first_at [c] xs k = - 1" by (rule first_at_none)
  then show ?case using 0 by simp
next
  case (Suc n)
  then have k: "k < length xs" by simp
  have d: "drop k xs = xs ! k # drop (Suc k) xs" using k by (simp add: Cons_nth_drop_Suc)
  show ?case
  proof (cases "xs ! k = c")
    case True
    then have "first_at [c] xs k = int k" using first_at_here [of "[c]" xs k] k by (simp add: occurs_single)
    then show ?thesis using True d by simp
  next
    case False
    then have "first_at [c] xs k = first_at [c] xs (Suc k)"
      by (intro first_at_step) (auto simp: occurs_single le_less_Suc_eq)
    moreover have "scan_char c (drop (Suc k) xs) (int (Suc k)) = first_at [c] xs (Suc k)" using Suc(1) [of "Suc k"] Suc(2) by simp
    ultimately show ?thesis using False d by (simp add: add.commute)
  qed
qed

lemma first_at_beyond: "length xs < start + length pat \<Longrightarrow> first_at pat xs start = - 1"
  by (rule first_at_none) (use occurs_at_le in fastforce)

lemma find_char_first: "0 \<le> i \<Longrightarrow> find_char xs c i = first_at [c] xs (nat i)"
  using scan_char_first [of c "nat i" xs] by (auto simp: find_char_def Let_def first_at_beyond)

lemma uint_compare: "0 \<le> a \<Longrightarrow> a < 4294967296 \<Longrightarrow> 0 \<le> b \<Longrightarrow> b < 4294967296 \<Longrightarrow> (of_int a :: u32) > of_int b \<longleftrightarrow> a > b"
  by (simp add: word_less_def unsigned_of_int take_bit_int_eq_self)

lemma find_byte_array_first:
  assumes "- int (length hay) \<le> i" "i < 2147483648" "length hay < 2147483648" "length needle < 2147483648"
  shows "find_byte_array junk hay i needle = first_at needle hay (nat (if i < 0 then i + int (length hay) else i))"
proof -
  define l where "l = int (length hay)"
  define sl where "sl = int (length needle)"
  define j where "j = (if i < 0 then i + l else i)"
  have j: "0 \<le> j" "j < 2147483648" using assms by (simp_all add: j_def l_def)
  have cmp: "(of_int (sl + j) :: u32) > of_int l \<longleftrightarrow> sl + j > l"
    by (rule uint_compare) (use j assms in \<open>simp_all add: l_def sl_def\<close>)
  define m where "m = around junk hay"
  define hash where "hash = foldl hash_step 0 (read_at m j (length needle)) - char_value (m (j + (sl - 1)))"
  have unf: "find_byte_array junk hay i needle =
      (if sl + j > l then - 1 else if sl = 0 then j else if l = 0 then - 1
       else if sl = 1 then find_char hay (hd needle) j
       else if l > 500 \<and> sl > 5 then find_boyer_moore hay j needle
       else hash_find_loop m needle (foldl hash_step 0 needle) (l - sl) j hash)"
    unfolding find_byte_array_def Let_def l_def [symmetric] sl_def [symmetric] j_def [symmetric] cmp m_def hash_def ..
  have beyond: "first_at needle hay (nat j) = - 1" if "sl + j > l"
    by (rule first_at_beyond) (use that j in \<open>simp add: l_def sl_def nat_less_iff\<close>)
  have empty: "first_at needle hay (nat j) = j" if "sl = 0" "\<not> sl + j > l"
    using that j first_at_here [of needle hay "nat j"] by (simp add: occurs_at_def sl_def l_def)
  have one: "find_char hay (hd needle) j = first_at needle hay (nat j)" if "sl = 1"
    using that find_char_first [OF j(1)] by (cases needle) (auto simp: sl_def)
  have bm: "find_boyer_moore hay j needle = first_at needle hay (nat j)"
    by (simp only: find_boyer_moore_def clamped_from bm_find_first [OF table_ok_init])
  have loop: "hash_find_loop m needle (foldl hash_step 0 needle) (l - sl) j hash = first_at needle hay (nat j)" if "sl \<noteq> 0"
    by (rule hash_find_loop_first) (use j that in \<open>simp_all add: m_def hash_def l_def sl_def\<close>)
  have "l = 0 \<Longrightarrow> sl \<noteq> 0 \<Longrightarrow> sl + j > l" using j unfolding sl_def by (cases needle) auto
  then have "find_byte_array junk hay i needle = first_at needle hay (nat j)"
    unfolding unf using beyond empty one bm loop by auto
  then show ?thesis by (simp only: j_def l_def)
qed

section \<open>The search from the end\<close>







section \<open>The searches of a byte array\<close>

lemma index_of_char_find: "ba_index_of_char a c i = find_char (ba_bytes a) c i"
  by (simp add: ba_index_of_char_def find_char_def Let_def)

lemma index_of_char_first:
  assumes "- int (ba_size a) \<le> i"
  shows "ba_index_of_char a c i = first_at [c] (ba_bytes a) (nat (if i < 0 then i + int (ba_size a) else i))"
proof (cases "i < 0")
  case True
  then have "find_char (ba_bytes a) c i = find_char (ba_bytes a) c (i + int (ba_size a))"
    using assms by (simp add: find_char_def Let_def)
  then show ?thesis using True assms find_char_first [of "i + int (ba_size a)" "ba_bytes a" c] by (simp add: index_of_char_find)
qed (simp add: index_of_char_find find_char_first)



lemma count_loop_count:
  assumes "needle \<noteq> []" "\<And>p. 0 \<le> p \<Longrightarrow> p \<le> int (length hay) \<Longrightarrow> search p = first_at needle hay (nat p)" "- 1 \<le> pos" "pos < int (length hay)"
    "num \<le> pos + 1" "length hay < 2147483648"
  shows "count_loop search pos num = Some (num + int (card {i. nat (pos + 1) \<le> i \<and> occurs_at needle hay i}))"
  using assms(3-5)
proof (induction "length hay - nat (pos + 1)" arbitrary: pos num rule: less_induct)
  case less
  define k where "k = nat (pos + 1)"
  have s: "search (pos + 1) = first_at needle hay k" using assms(2) less.prems by (simp add: k_def)
  have b: "pos < 2147483647" "num < 2147483648" using less.prems assms(6) by linarith+
  show ?case
  proof (cases rule: first_at_cases [of needle hay k])
    case 1
    then have "{i. k \<le> i \<and> occurs_at needle hay i} = {}" by blast
    then have "int (card {i. k \<le> i \<and> occurs_at needle hay i}) = 0" by (simp only: card.empty of_nat_0)
    moreover have "count_loop search pos num = Some num" using 1(1) s b by (subst count_loop.simps) simp
    ultimately show ?thesis by (simp only: k_def add_0_right)
  next
    case (2 i)
    have i: "i < length hay" using occurs_at_le [OF 2(3)] assms(1) by (cases needle) auto
    have "{j. k \<le> j \<and> occurs_at needle hay j} = insert i {j. Suc i \<le> j \<and> occurs_at needle hay j}"
      using 2 by (auto simp: not_less_eq_eq [symmetric])
    moreover have "finite {j. Suc i \<le> j \<and> occurs_at needle hay j}"
      by (rule finite_subset [of _ "{..length hay}"]) (auto dest: occurs_at_le)
    ultimately have c: "card {j. k \<le> j \<and> occurs_at needle hay j} = Suc (card {j. Suc i \<le> j \<and> occurs_at needle hay j})" by simp
    have "num < 2147483647" using i 2(2) less.prems assms(6) by (simp add: k_def)
    then have "count_loop search pos num = count_loop search (int i) (num + 1)"
      using 2(1) s b by (subst count_loop.simps) simp
    also have "\<dots> = Some (num + 1 + int (card {j. nat (int i + 1) \<le> j \<and> occurs_at needle hay j}))"
      by (rule less.hyps) (use i 2(2) less.prems in \<open>auto simp: k_def\<close>)
    finally show ?thesis using c by (simp add: k_def nat_add_distrib)
  qed
qed

lemma count_loop_overflow: "pos = num - 1 \<Longrightarrow> 0 \<le> num \<Longrightarrow> num \<le> 2147483648 \<Longrightarrow> count_loop (\<lambda>p. p) pos num = None"
proof (induction "nat (2147483648 - num)" arbitrary: pos num rule: less_induct)
  case less
  show ?case
  proof (cases "num = 2147483648")
    case True
    then show ?thesis using less.prems by (subst count_loop.simps) simp
  next
    case False
    then have "count_loop (\<lambda>p. p) (pos + 1) (num + 1) = None" by (intro less.hyps) (use less.prems in simp_all)
    then show ?thesis using less.prems by (subst count_loop.simps) simp
  qed
qed

text \<open>C26: In arrays shorter than \<open>2 ^ 31\<close>, \<open>count\<close> returns the number of positions where a non-empty needle occurs, overlapping ones
  included, and no \<open>int\<close> overflows on the way; for an empty needle, which \<open>indexOf\<close> finds at every position, also beyond the
  end, the loop goes on until its \<open>int\<close> counters overflow, which is undefined.\<close>

theorem byte_array_count:
  assumes "ba_size a < 2147483648" "length needle < 2147483648"
  shows "(needle \<noteq> [] \<longrightarrow> ba_count junk a needle = Some (int (card {i. occurs_at needle (ba_bytes a) i})))
    \<and> ba_count junk a [] = None"
proof
  show "needle \<noteq> [] \<longrightarrow> ba_count junk a needle = Some (int (card {i. occurs_at needle (ba_bytes a) i}))"
  proof
    assume ne: "needle \<noteq> []"
    show "ba_count junk a needle = Some (int (card {i. occurs_at needle (ba_bytes a) i}))"
    proof (cases "ba_bytes a = []")
      case True
      then have none: "\<not> occurs_at needle (ba_bytes a) i" for i using ne by (auto simp: occurs_at_def)
      have "ba_index_of junk a needle 0 = - 1"
        using ne True by (auto simp: ba_index_of_def ba_index_of_char_def Let_def)
      then have "count_loop (ba_index_of junk a needle) (- 1) 0 = Some 0" by (subst count_loop.simps) simp
      then show ?thesis using True none by (simp add: ba_count_def)
    next
      case False
      have ix: "ba_index_of junk a needle p = first_at needle (ba_bytes a) (nat p)" if "0 \<le> p" "p \<le> int (ba_size a)" for p
        using that assms ne find_byte_array_first [of "ba_bytes a" p needle junk] index_of_char_first [of a p "hd needle"]
          first_at_beyond [of "ba_bytes a" "nat p" needle]
        by (cases needle) (auto simp: ba_index_of_def Let_def nat_less_iff)
      show ?thesis
        using count_loop_count [OF ne ix, of "- 1" 0] False
          count_loop_count [OF ne index_in_first, of "- 1" "ba_bytes a" 0] assms(1)
        by (simp add: ba_count_def)
    qed
  qed
  have search: "ba_index_of junk a [] = (\<lambda>p. p)" by (simp add: ba_index_of_def fun_eq_iff)
  have "count_loop (\<lambda>p. p) (- 1) 0 = None" by (rule count_loop_overflow) simp_all
  then show "ba_count junk a [] = None" by (simp add: ba_count_def search)
qed

theorem byte_array_count_witness:
  "ba_count (\<lambda>i. 0) \<lparr>ba_bytes = [8, 8, 8], ba_alloc = 4, ba_reserved = False, ba_ref = Unshared\<rparr> [8, 8] = Some 2"
proof -
  have "{i. occurs_at [8, 8] [8, 8, 8 :: byte] i} = {0, 1}"
    by (auto simp: occurs_at_def numeral_2_eq_2 numeral_3_eq_3 le_Suc_eq)
  then show ?thesis
    using byte_array_count [of "\<lparr>ba_bytes = [8, 8, 8], ba_alloc = 4, ba_reserved = False, ba_ref = Unshared\<rparr>" "[8, 8]"] by simp
qed

end
