(* ===== verification/Byte_Replace.thy ===== *)
theory Byte_Replace
  imports Search_Proofs
begin

text \<open>
  \<open>ByteArray::replace\<close> of every occurrence of a byte string by another (\<open>ByteArray.cpp\<close>), for strings \<open>before\<close> and \<open>after\<close>
  in memory of their own.  The result is the array and what the owners that share its old block read afterwards;
  \<open>None\<close> is a replacement that is not defined (an overflow of type \<open>int\<close>, a move of a negative number of bytes or one
  that leaves the bytes of the array) or does not end.
\<close>

section \<open>The three cases\<close>

definition mem_put :: "byte list \<Rightarrow> nat \<Rightarrow> byte list \<Rightarrow> byte list" where
  "mem_put xs i ys = take (length xs) (mem_write xs i ys)"

lemma length_mem_put [simp]: "length (mem_put xs i ys) = length xs"
  by (simp add: mem_put_def mem_write_def)

abbreviation search :: "byte list \<Rightarrow> byte list \<Rightarrow> int \<Rightarrow> int" where
  "search before xs index \<equiv> index_in (byte_matcher_new before) xs index"

lemma search_range:
  assumes "search before xs index \<noteq> - 1"
  shows "index \<le> search before xs index" "0 \<le> search before xs index"
    "nat (search before xs index) + length before \<le> length xs" "occurs_at before xs (nat (search before xs index))"
proof -
  obtain i where i: "search before xs index = int i" "nat index \<le> i" "occurs_at before xs i"
    using assms unfolding index_in_first by (cases rule: first_at_cases [of before xs "nat index"]) auto
  then show "index \<le> search before xs index" "0 \<le> search before xs index"
    "nat (search before xs index) + length before \<le> length xs" "occurs_at before xs (nat (search before xs index))"
    using occurs_at_le [OF i(3)] by (simp_all add: nat_le_iff)
qed

text \<open>Strings of the same length are copied over the occurrences.\<close>

function replace_same :: "byte list \<Rightarrow> byte list \<Rightarrow> byte list \<Rightarrow> int \<Rightarrow> byte list" where
  "replace_same before after xs index =
     (let i = search before xs index
      in if before = [] \<or> i = - 1 then xs
         else replace_same before after (mem_put xs (nat i) after) (i + int (length before)))"
  by auto
termination
proof (relation "measure (\<lambda>(before, after, xs, index). nat (int (length xs) - index))")
  fix before after xs :: "byte list" and index i
  assume "i = search before xs index" "\<not> (before = [] \<or> i = - 1)"
  then show "((before, after, mem_put xs (nat i) after, i + int (length before)), before, after, xs, index)
      \<in> measure (\<lambda>(before, after, xs, index). nat (int (length xs) - index))"
    using search_range [of before xs index] by (cases before) auto
qed simp

declare replace_same.simps [simp del]

text \<open>A shorter string: the parts between the occurrences move to the front.\<close>

function shrink_loop ::
  "byte list \<Rightarrow> byte list \<Rightarrow> byte list \<Rightarrow> int \<Rightarrow> nat \<Rightarrow> nat \<Rightarrow> nat \<Rightarrow> byte list \<times> nat \<times> nat \<times> nat" where
  "shrink_loop before after xs index to movestart num =
     (let i = search before xs index
      in if before = [] \<or> i = - 1 then (xs, to, movestart, num)
         else let i = nat i;
                  (xs, to) = (if num = 0 then (xs, i)
                              else if movestart < i
                              then (mem_put xs to (mem_read xs movestart (i - movestart)), to + (i - movestart)) else (xs, to));
                  xs = (if after \<noteq> [] then mem_put xs to after else xs)
              in shrink_loop before after xs (int (i + length before)) to (i + length before) (num + 1))"
  by auto
termination
proof (relation "measure (\<lambda>(before, after, xs, index, to, movestart, num). nat (int (length xs) - index))")
  fix before after xs zs ws :: "byte list" and index i :: int and to movestart num j t :: nat and x
  assume i: "i = search before xs index" "\<not> (before = [] \<or> i = - 1)" and j: "j = nat i"
    and x: "x = (if num = 0 then (xs, j) else if movestart < j
      then (mem_put xs to (mem_read xs movestart (j - movestart)), to + (j - movestart)) else (xs, to))"
    and zs: "(zs, t) = x" and ws: "ws = (if after \<noteq> [] then mem_put zs t after else zs)"
  have "length ws = length xs" using x zs ws by (auto split: if_splits)
  then show "((before, after, ws, int (j + length before), t, j + length before, num + 1), before, after, xs, index, to, movestart, num)
      \<in> measure (\<lambda>(before, after, xs, index, to, movestart, num). nat (int (length xs) - index))"
    using search_range [of before xs index] i j by (cases before) auto
qed simp

declare shrink_loop.simps [simp del]

definition replace_shorter :: "byte list \<Rightarrow> byte list \<Rightarrow> byte list \<Rightarrow> byte list \<times> nat" where
  "replace_shorter before after xs =
     (let (ys, to, movestart, num) = shrink_loop before after xs 0 0 0 0;
          msize = length xs - movestart
      in (if num \<noteq> 0 \<and> msize > 0 then mem_put ys to (mem_read ys movestart msize) else ys, num))"

text \<open>A longer string: the positions of up to 4095 occurrences are collected, then the parts move to the back, the last one first.\<close>

fun collect_indices :: "byte list \<Rightarrow> byte list \<Rightarrow> int \<Rightarrow> nat \<Rightarrow> nat list \<times> int" where
  "collect_indices before xs index 0 = ([], index)"
| "collect_indices before xs index (Suc n) =
     (let i = search before xs index
      in if i = - 1 then ([], - 1)
         else let (indices, last) = collect_indices before xs (if before = [] then i + 1 else i + int (length before)) n
              in (nat i # indices, last))"

text \<open>
  A position is computed as \<open>uint\<close>, with wrap-around, and read as \<open>int\<close>; the end of the new string is an \<open>int\<close> sum.
\<close>

fun place :: "byte list \<Rightarrow> byte list \<Rightarrow> byte list \<Rightarrow> nat list \<Rightarrow> nat \<Rightarrow> byte list option" where
  "place before after xs [] moveend = Some xs"
| "place before after xs (i # rest) moveend =
     (let movestart = i + length before;
          insertstart = sint (of_nat i + of_nat (length rest) * of_int (int (length after) - int (length before)) :: u32);
          moveto = insertstart + int (length after)
      in if insertstart < 0 \<or> moveto \<ge> 2147483648 \<or> moveend < movestart
            \<or> nat moveto + (moveend - movestart) > length xs then None
         else let xs = mem_put xs (nat moveto) (mem_read xs movestart (moveend - movestart));
                  xs = (if after \<noteq> [] then mem_put xs (nat insertstart) after else xs)
              in place before after xs rest (movestart - length before))"

text \<open>
  The growth of the array is a \<open>uint\<close> product, read as \<open>int\<close>.  When it wraps to a number that is not positive, the array is not
  resized, and the parts are moved in the block that it has, which others may share.
\<close>

definition int_range :: "int \<Rightarrow> bool" where
  "int_range n = (- 2147483648 \<le> n \<and> n < 2147483648)"

partial_function (option) grow_loop ::
  "memory \<Rightarrow> byte list \<Rightarrow> byte list \<Rightarrow> byte_array \<Rightarrow> int \<Rightarrow> byte list \<Rightarrow> (byte_array \<times> byte list) option" where
  "grow_loop junk before after a index old =
     (let (indices, index) = collect_indices before (ba_bytes a) index 4095
      in if indices = [] then Some (a, old)
         else let adjust = sint (of_nat (length indices) * of_int (int (length after) - int (length before)) :: u32);
                  index' = (if index \<noteq> - 1 then index + adjust else index);
                  newlen = int (ba_size a) + adjust;
                  b = (if newlen > int (ba_size a) then ba_resize junk a newlen else a)
              in if \<not> int_range index' \<or> \<not> int_range newlen then None
                 else Option.bind (place before after (ba_bytes b) (rev indices) (ba_size a)) (\<lambda>xs.
                      let c = b\<lparr>ba_bytes := xs\<rparr>; old = (if is_shared (ba_ref b) then xs else old)
                      in if index' = - 1 then Some (c, old) else grow_loop junk before after c index' old))"

definition ba_replace :: "memory \<Rightarrow> byte_array \<Rightarrow> byte list \<Rightarrow> byte list \<Rightarrow> (byte_array \<times> byte list) option" where
  "ba_replace junk a before after =
     (if ba_ref a = SharedNull then Some (a, ba_bytes a)
      else if length before = length after
      then let xs = replace_same before after (ba_bytes a) 0 in Some (a\<lparr>ba_bytes := xs\<rparr>, xs)
      else if length after < length before
      then let (xs, num) = replace_shorter before after (ba_bytes a); b = a\<lparr>ba_bytes := xs\<rparr>
           in Some (if num \<noteq> 0
                    then ba_resize junk b (int (ba_size a) - int num * (int (length before) - int (length after))) else b, xs)
      else grow_loop junk before after a 0 (ba_bytes a))"

end
