(* ===== verification/Replace_Proofs.thy ===== *)
theory Replace_Proofs
  imports Byte_Replace
begin

text \<open>
  \<open>replace\<close> against the replacement of the occurrences from left to right: right for strings of the same length, for longer
  ones and for deletion, wrong for shorter ones and on shared arrays.
\<close>

section \<open>The reference\<close>

lemma occurs_at_drop: "k \<le> length xs \<Longrightarrow> occurs_at p (drop k xs) i \<longleftrightarrow> occurs_at p xs (k + i)"
  by (auto simp: occurs_at_def add.commute)

lemma first_at_drop:
  assumes "k \<le> length xs"
  shows "first_at p xs k = (if first_at p (drop k xs) 0 = - 1 then - 1 else first_at p (drop k xs) 0 + int k)"
proof (cases rule: first_at_cases [of p "drop k xs" 0])
  case 1
  have "\<not> occurs_at p xs i" if "k \<le> i" for i
    using 1(2) [of "i - k"] that occurs_at_drop [OF assms, of p "i - k"] by simp
  then have "first_at p xs k = - 1" by (rule first_at_none)
  then show ?thesis using 1(1) by simp
next
  case (2 i)
  have "first_at p xs k = first_at p xs (k + i)"
  proof (rule first_at_step)
    show "\<not> occurs_at p xs j" if "k \<le> j" "j < k + i" for j
      using 2(4) [of "j - k"] that occurs_at_drop [OF assms, of p "j - k"] by simp
  qed simp
  also have "\<dots> = int (k + i)" by (rule first_at_here) (use 2(3) occurs_at_drop [OF assms] in simp)
  finally show ?thesis using 2(1) by simp
qed

function replaced :: "byte list \<Rightarrow> byte list \<Rightarrow> byte list \<Rightarrow> byte list" where
  "replaced before after xs =
     (let i = first_at before xs 0
      in if i = - 1 then xs
         else take (nat i) xs @ after @
           (if before = [] then (case drop (nat i) xs of [] \<Rightarrow> [] | c # cs \<Rightarrow> c # replaced before after cs)
            else replaced before after (drop (nat i + length before) xs)))"
  by auto
termination
proof (relation "measure (\<lambda>(before, after, xs). length xs)")
  fix before after xs cs :: "byte list" and i c
  show "((before, after, cs), before, after, xs) \<in> measure (\<lambda>(before, after, xs). length xs)" if "drop (nat i) xs = c # cs"
    using arg_cong [OF that, of length] by simp
  show "((before, after, drop (nat i + length before) xs), before, after, xs) \<in> measure (\<lambda>(before, after, xs). length xs)"
    if "i = first_at before xs 0" "i \<noteq> - 1" "before \<noteq> []"
  proof (cases rule: first_at_cases [of before xs 0])
    case 1
    then show ?thesis using that by simp
  next
    case (2 j)
    have "length before > 0" using that(3) by simp
    then have "length xs - (j + length before) < length xs" using occurs_at_le [OF 2(3)] by linarith
    then show ?thesis using 2(1) that(1) by simp
  qed
qed simp

declare replaced.simps [simp del]

lemma replaced_none: "first_at before xs 0 = - 1 \<Longrightarrow> replaced before after xs = xs"
  by (subst replaced.simps) simp

lemma replaced_some:
  "first_at before xs 0 = int i \<Longrightarrow> before \<noteq> [] \<Longrightarrow>
   replaced before after xs = take i xs @ after @ replaced before after (drop (i + length before) xs)"
  by (subst replaced.simps) simp

lemma replaced_empty:
  "replaced [] after xs = after @ (case xs of [] \<Rightarrow> [] | c # cs \<Rightarrow> c # replaced [] after cs)"
  using first_at_here [of "[]" xs 0] by (subst replaced.simps) (simp add: occurs_at_def)

text \<open>What a search from a position says of the rest.\<close>

lemma search_rest:
  assumes "0 \<le> index" "index \<le> int (length xs)"
  shows "search before xs index = - 1 \<Longrightarrow> replaced before after (drop (nat index) xs) = drop (nat index) xs"
    "search before xs index \<noteq> - 1 \<Longrightarrow> before \<noteq> [] \<Longrightarrow>
       replaced before after (drop (nat index) xs) =
       drop (nat index) (take (nat (search before xs index)) xs) @ after
       @ replaced before after (drop (nat (search before xs index) + length before) xs)"
proof -
  define k where "k = nat index"
  have k: "k \<le> length xs" using assms by (simp add: k_def)
  have s: "search before xs index =
      (if first_at before (drop k xs) 0 = - 1 then - 1 else first_at before (drop k xs) 0 + int k)"
    using first_at_drop [OF k, of before] by (simp add: index_in_first k_def)
  show "replaced before after (drop (nat index) xs) = drop (nat index) xs" if "search before xs index = - 1"
  proof -
    have "first_at before (drop k xs) 0 = - 1"
      using that s by (cases rule: first_at_cases [of before "drop k xs" 0]) auto
    then show ?thesis by (simp add: replaced_none k_def)
  qed
  show "replaced before after (drop (nat index) xs) =
       drop (nat index) (take (nat (search before xs index)) xs) @ after
       @ replaced before after (drop (nat (search before xs index) + length before) xs)"
    if "search before xs index \<noteq> - 1" "before \<noteq> []"
  proof -
    have "\<exists>i. first_at before (drop k xs) 0 = int i"
    proof (cases rule: first_at_cases [of before "drop k xs" 0])
      case 1
      then show ?thesis using that(1) s by simp
    next
      case (2 i)
      then show ?thesis by blast
    qed
    then obtain i where i: "first_at before (drop k xs) 0 = int i" by blast
    then have "nat (search before xs index) = k + i" using s by (simp add: nat_add_distrib)
    then show ?thesis
      using replaced_some [OF i that(2), of after] by (simp add: k_def [symmetric] drop_take add.commute add.left_commute)
  qed
qed

lemma take_split: "a \<le> b \<Longrightarrow> take b xs = take a xs @ drop a (take b xs)"
  using append_take_drop_id [of a "take b xs"] by (simp add: min_absorb1)

section \<open>The same length\<close>

lemma mem_put_inside: "i + length ys \<le> length xs \<Longrightarrow> mem_put xs i ys = take i xs @ ys @ drop (i + length ys) xs"
  by (simp add: mem_put_def mem_write_def)

lemma replaced_nothing: "replaced [] [] xs = xs"
  by (induction xs) (simp_all add: replaced_empty)

lemma replace_same_replaced:
  assumes "length after = length before" "0 \<le> index" "index \<le> int (length xs)"
  shows "replace_same before after xs index = take (nat index) xs @ replaced before after (drop (nat index) xs)"
  using assms
proof (induction before after xs index rule: replace_same.induct)
  case (1 before after xs index)
  define i where "i = search before xs index"
  have eq: "replace_same before after xs index =
      (if before = [] \<or> i = - 1 then xs else replace_same before after (mem_put xs (nat i) after) (i + int (length before)))"
    by (subst replace_same.simps) (simp only: Let_def i_def)
  show ?case
  proof (cases "before = [] \<or> i = - 1")
    case True
    then have "replaced before after (drop (nat index) xs) = drop (nat index) xs"
      using search_rest(1) [OF 1(3,4)] 1(2) replaced_nothing by (auto simp: i_def)
    then show ?thesis using eq True by simp
  next
    case False
    have r: "index \<le> i" "0 \<le> i" "nat i + length before \<le> length xs"
      using search_range [of before xs index] False by (simp_all add: i_def)
    define ys where "ys = mem_put xs (nat i) after"
    have ys: "ys = take (nat i) xs @ after @ drop (nat i + length before) xs"
      using r 1(2) by (simp add: ys_def mem_put_inside)
    have l: "length ys = length xs" by (simp add: ys_def)
    have j: "nat (i + int (length before)) = nat i + length before" using r by (simp add: nat_add_distrib)
    have "replace_same before after ys (i + int (length before)) =
        take (nat i + length before) ys @ replaced before after (drop (nat i + length before) ys)"
      using "1.IH" [OF i_def False] 1(2) r l by (simp add: ys_def [symmetric] j)
    also have "take (nat i + length before) ys = take (nat i) xs @ after" using r 1(2) by (simp add: ys)
    also have "drop (nat i + length before) ys = drop (nat i + length before) xs" using r 1(2) by (simp add: ys)
    finally have "replace_same before after xs index =
        take (nat i) xs @ after @ replaced before after (drop (nat i + length before) xs)"
      using eq False by (simp add: ys_def)
    moreover have "take (nat i) xs = take (nat index) xs @ drop (nat index) (take (nat i) xs)"
      by (rule take_split) (use r(1) in \<open>simp add: nat_mono\<close>)
    ultimately show ?thesis
      using search_rest(2) [OF 1(3,4), of before after] False by (simp add: i_def)
  qed
qed

section \<open>Deletion\<close>

lemma take_put: "i + length ys \<le> length xs \<Longrightarrow> take (i + length ys) (mem_put xs i ys) = take i xs @ ys"
  by (simp add: mem_put_inside)

lemma drop_put: "i + length ys \<le> j \<Longrightarrow> j \<le> length xs \<Longrightarrow> drop j (mem_put xs i ys) = drop j xs"
  by (simp add: mem_put_inside)

lemma shrink_delete:
  assumes "shrink_loop before [] xs index to movestart num = (ys, to', ms, num')" "before \<noteq> []"
    "0 \<le> index" "index \<le> int (length xs)" "0 < num" "movestart = nat index" "to + num * length before = nat index"
  shows "0 < num' \<and> length ys = length xs \<and> ms \<le> length xs \<and> to' + num' * length before = ms
    \<and> take to' ys @ drop ms ys = take to xs @ replaced before [] (drop (nat index) xs)"
  using assms
proof (induction before "[] :: byte list" xs index to movestart num rule: shrink_loop.induct)
  case (1 before xs index to movestart num)
  note pr = "1.prems"
  define i where "i = search before xs index"
  show ?case
  proof (cases "i = - 1")
    case True
    then have "shrink_loop before [] xs index to movestart num = (xs, to, movestart, num)"
      by (subst shrink_loop.simps) (simp add: i_def)
    moreover have "replaced before [] (drop (nat index) xs) = drop (nat index) xs"
      using search_rest(1) [OF pr(3,4)] True by (simp add: i_def)
    ultimately show ?thesis using pr by (auto simp: nat_le_iff)
  next
    case False
    define j where "j = nat i"
    have r: "nat index \<le> j" "j + length before \<le> length xs" "i = int j"
      using search_range [of before xs index] False by (simp_all add: i_def j_def nat_mono)
    define part where "part = mem_read xs movestart (j - movestart)"
    have part: "part = drop (nat index) (take j xs)" "length part = j - movestart"
      using r pr(6) by (simp_all add: part_def mem_read_def drop_take)
    define p where "p = (if num = 0 then (xs, j)
      else if movestart < j then (mem_put xs to part, to + (j - movestart)) else (xs, to))"
    define zs where "zs = (if movestart < j then mem_put xs to part else xs)"
    define t where "t = to + (j - movestart)"
    have p: "p = (zs, t)" using pr(5) by (auto simp: p_def zs_def t_def)
    have cond: "\<not> (before = [] \<or> i = - 1)" using pr(2) False by simp
    have run: "shrink_loop before [] zs (int (j + length before)) t (j + length before) (num + 1) = (ys, to', ms, num')"
    proof -
      have "shrink_loop before [] xs index to movestart num =
          (case p of (zs, t) \<Rightarrow> shrink_loop before [] zs (int (j + length before)) t (j + length before) (num + 1))"
        using cond by (subst shrink_loop.simps) (simp only: Let_def i_def j_def p_def part_def if_False not_True_eq_False simp_thms)
      then show ?thesis using pr(1) p by simp
    qed
    have same: "zs = (if [] \<noteq> ([] :: byte list) then mem_put zs t [] else zs)" by simp
    have fits: "to + length part \<le> j" using pr(6,7) r part(2) by linarith
    have zs: "length zs = length xs" "take t zs = take to xs @ part" "drop (j + length before) zs = drop (j + length before) xs"
    proof -
      have inside: "to + length part \<le> length xs" using fits r by linarith
      show "length zs = length xs" by (simp add: zs_def)
      have t: "t = to + length part" by (simp only: t_def part(2))
      show "take t zs = take to xs @ part"
      proof (cases "movestart < j")
        case True
        show ?thesis unfolding t zs_def if_P [OF True] by (rule take_put [OF inside])
      next
        case False
        then have "part = []" using part(2) by simp
        then show ?thesis using False t by (simp add: zs_def)
      qed
      have "to + length part \<le> j + length before" using fits by linarith
      then show "drop (j + length before) zs = drop (j + length before) xs" using drop_put r(2) by (simp add: zs_def)
    qed
    have "0 < num' \<and> length ys = length zs \<and> ms \<le> length zs \<and> to' + num' * length before = ms
        \<and> take to' ys @ drop ms ys = take t zs @ replaced before [] (drop (nat (int (j + length before))) zs)"
    proof (rule "1.hyps" [OF i_def cond j_def p_def [unfolded part_def] p [symmetric] same run pr(2)])
      show "t + (num + 1) * length before = nat (int (j + length before))"
        using pr(6,7) r by (simp add: t_def)
    qed (use r zs(1) in simp_all)
    moreover have "replaced before [] (drop (nat index) xs) =
        drop (nat index) (take j xs) @ replaced before [] (drop (j + length before) xs)"
      using search_rest(2) [OF pr(3,4), of before "[]"] False pr(2) by (simp add: i_def j_def)
    moreover have "nat (int (j + length before)) = j + length before" by (rule nat_int)
    ultimately show ?thesis unfolding zs part(1) by (simp add: zs(3))
  qed
qed

section \<open>Longer strings\<close>

text \<open>The parts between given positions, with \<open>after\<close> at the positions.\<close>

fun splice :: "nat \<Rightarrow> byte list \<Rightarrow> byte list \<Rightarrow> nat \<Rightarrow> nat list \<Rightarrow> byte list" where
  "splice bl after xs start [] = drop start xs"
| "splice bl after xs start (i # is) = drop start (take i xs) @ after @ splice bl after xs (i + bl) is"

fun ascending :: "nat \<Rightarrow> nat \<Rightarrow> nat \<Rightarrow> nat list \<Rightarrow> bool" where
  "ascending bl n start [] = True"
| "ascending bl n start (i # is) = (start \<le> i \<and> i + bl \<le> n \<and> ascending bl n (i + bl) is)"

lemma ascending_snoc:
  "ascending bl n start (is @ [i]) \<Longrightarrow> ascending bl i start is \<and> start \<le> i \<and> i + bl \<le> n"
proof (induction "is" arbitrary: start)
  case (Cons j js)
  have "start \<le> j \<and> j + bl \<le> n \<and> ascending bl n (j + bl) (js @ [i])" using Cons.prems by simp
  moreover have "ascending bl i (j + bl) js \<and> j + bl \<le> i \<and> i + bl \<le> n" by (rule Cons.IH) (use Cons.prems in simp)
  ultimately show ?case by simp
qed simp

lemma drop_take_split:
  assumes "a \<le> b" "b \<le> i"
  shows "drop a (take i xs) = drop a (take b xs) @ drop b (take i xs)"
proof -
  have "take i xs = take b xs @ drop b (take i xs)" by (rule take_split [OF assms(2)])
  then have "drop a (take i xs) = drop a (take b xs @ drop b (take i xs))" by simp
  also have "\<dots> = drop a (take b xs) @ drop b (take i xs)"
    using assms(1) by (cases "b \<le> length xs") simp_all
  finally show ?thesis .
qed

lemma drop_split: "a \<le> b \<Longrightarrow> drop a xs = drop a (take b xs) @ drop b xs"
  using drop_take_split [of a b "max b (length xs)" xs] by simp

lemma splice_snoc:
  "ascending bl (length xs) start (is @ [i]) \<Longrightarrow>
   splice bl after xs start (is @ [i]) = splice bl after (take i xs) start is @ after @ drop (i + bl) xs"
proof (induction "is" arbitrary: start)
  case (Cons j js)
  then have "j \<le> i" using ascending_snoc [of bl "length xs" "j + bl" js i] by simp
  then show ?case using Cons by (simp add: min_absorb1)
qed simp

lemma splice_from:
  assumes "ascending bl n start' is" "start \<le> start'"
  shows "splice bl after xs start is = drop start (take start' xs) @ splice bl after xs start' is"
proof (cases "is")
  case Nil
  then show ?thesis using drop_split [OF assms(2)] by simp
next
  case (Cons i js)
  then have "start' \<le> i" using assms(1) by simp
  then show ?thesis using Cons drop_take_split [OF assms(2)] by simp
qed

lemma sint_of_nat_small: "n < 2147483648 \<Longrightarrow> sint (of_nat n :: u32) = int n"
  by (simp add: signed_of_nat signed_take_bit_int_eq_self)

lemma sint_uint_product:
  assumes "i + k * d < 2147483648"
  shows "sint (of_nat i + of_nat k * of_nat d :: u32) = int (i + k * d)"
proof -
  have "(of_nat i + of_nat k * of_nat d :: u32) = of_nat (i + k * d)" by simp
  moreover have "sint (of_nat (i + k * d) :: u32) = int (i + k * d)"
    using assms unfolding of_nat_add [symmetric] by (simp only: sint_of_nat_small)
  ultimately show ?thesis by metis
qed

lemma length_splice:
  "ascending bl (length xs) start is \<Longrightarrow> start \<le> length xs \<Longrightarrow> bl \<le> length after \<Longrightarrow>
   length (splice bl after xs start is) + start = length xs + length is * (length after - bl)"
proof (induction "is" arbitrary: start)
  case (Cons i js)
  then have "length (splice bl after xs (i + bl) js) + (i + bl) = length xs + length js * (length after - bl)" by simp
  then show ?case using Cons.prems by simp
qed simp

lemma place_splice:
  assumes "length before < length after" "D = length after - length before" "length ys = n + cnt * D" "length rs \<le> cnt" "length ys < 2147483648"
    "moveend \<le> n" "moveend \<le> length xs" "take moveend ys = take moveend xs" "ascending (length before) moveend 0 (rev rs)"
  shows "place before after ys rs moveend =
    Some (splice (length before) after (take moveend xs) 0 (rev rs) @ drop (moveend + length rs * D) ys)"
  using assms(3-9)
proof (induction rs arbitrary: ys moveend)
  case Nil
  then show ?case using append_take_drop_id [of moveend ys] by simp
next
  case (Cons i rest)
  define k where "k = length rest"
  define movestart where "movestart = i + length before"
  define insertstart where "insertstart = i + k * D"
  define moveto where "moveto = insertstart + length after"
  define ys1 where "ys1 = mem_put ys moveto (mem_read ys movestart (moveend - movestart))"
  define ys2 where "ys2 = mem_put ys1 insertstart after"
  have asc: "ascending (length before) i 0 (rev rest)" "movestart \<le> moveend"
    using ascending_snoc [of "length before" moveend 0 "rev rest" i] Cons.prems(7) by (simp_all add: movestart_def)
  have al: "length after = length before + D" using assms(1,2) by simp
  have kD: "k * D + D \<le> cnt * D" using Cons.prems(2) mult_le_mono1 [of "Suc k" cnt D] by (simp add: k_def)
  have moveto: "moveto = movestart + (k * D + D)" by (simp add: moveto_def insertstart_def movestart_def al)
  have block: "length (mem_read ys movestart (moveend - movestart)) = moveend - movestart"
    using Cons.prems(1,4) asc(2) by simp
  have in1: "moveto + (moveend - movestart) \<le> length ys"
    using Cons.prems(1,4) asc(2) kD unfolding moveto by linarith
  have ys1: "ys1 = take moveto ys @ mem_read ys movestart (moveend - movestart) @ drop (moveend + (k * D + D)) ys"
    unfolding ys1_def using in1 block asc(2) mem_put_inside [of moveto "mem_read ys movestart (moveend - movestart)" ys]
    by (simp add: moveto ac_simps)
  have in2: "insertstart + length after \<le> length ys1" using in1 by (simp add: moveto_def [symmetric] ys1_def)
  have ys2: "ys2 = take insertstart ys1 @ after @ drop moveto ys1"
    unfolding ys2_def using mem_put_inside [OF in2] by (simp add: moveto_def)
  have ine: "i \<le> moveend" "i \<le> insertstart" "insertstart \<le> moveto" "i \<le> moveto" using asc(2)
    by (simp_all add: movestart_def insertstart_def moveto_def)
  have small: "take i ys2 = take i xs"
  proof -
    have "insertstart \<le> length ys1" using in2 by simp
    then have "take i ys2 = take i ys1" using ine by (simp add: ys2 min_absorb1)
    also have "\<dots> = take i ys" using ine in1 by (simp add: ys1 min_absorb1)
    also have "\<dots> = take i xs" using Cons.prems(6) ine(1) by (metis min.absorb1 take_take)
    finally show ?thesis .
  qed
  have moved: "mem_read ys movestart (moveend - movestart) = drop movestart (take moveend xs)"
    using Cons.prems(6) asc(2) by (simp add: mem_read_def flip: drop_take)
  have rear: "drop (i + k * D) ys2 = after @ drop movestart (take moveend xs) @ drop (moveend + (k * D + D)) ys"
  proof -
    have "drop (i + k * D) ys2 = after @ drop moveto ys1" using in2 by (simp add: ys2 insertstart_def)
    moreover have "drop moveto ys1 = mem_read ys movestart (moveend - movestart) @ drop (moveend + (k * D + D)) ys"
      using in1 by (simp add: ys1)
    ultimately show ?thesis by (simp add: moved)
  qed
  have "splice (length before) after (take moveend xs) 0 (rev rest @ [i]) =
      splice (length before) after (take i (take moveend xs)) 0 (rev rest) @ after @ drop (i + length before) (take moveend xs)"
    by (rule splice_snoc) (use Cons.prems(5,7) in \<open>simp add: min_absorb2\<close>)
  then have e: "splice (length before) after (take moveend xs) 0 (rev rest @ [i]) =
      splice (length before) after (take i xs) 0 (rev rest) @ after @ drop (i + length before) (take moveend xs)"
    using ine(1) by (simp add: min_absorb1)
  have bound: "moveto < 2147483648" using in1 Cons.prems(3) by simp
  have "sint (of_nat i + of_nat k * of_int (int (length after) - int (length before)) :: u32) = int insertstart"
    using sint_uint_product [of i k D] bound by (simp add: al insertstart_def moveto_def)
  then have at: "sint (of_nat i + of_nat (length rest) * (of_nat (length after) - of_nat (length before)) :: u32) = int insertstart"
    by (simp only: k_def of_int_diff of_int_of_nat_eq)
  have "after \<noteq> []" "movestart - length before = i" "int insertstart + int (length after) = int moveto"
    using assms(1) by (auto simp: movestart_def moveto_def)
  then have "place before after ys (i # rest) moveend = place before after ys2 rest i"
    using bound asc(2) in1
    by (simp add: Let_def at movestart_def [symmetric] nat_add_distrib ys2_def ys1_def moveto_def)
  also have "\<dots> = Some (splice (length before) after (take i xs) 0 (rev rest) @ drop (i + k * D) ys2)"
    unfolding k_def
    by (rule Cons.IH) (use Cons.prems ine small asc(1) in \<open>simp_all add: ys2_def ys1_def\<close>)
  also have "\<dots> = Some (splice (length before) after (take moveend xs) 0 (rev rest @ [i]) @ drop (moveend + (k * D + D)) ys)"
    unfolding e rear movestart_def by simp
  moreover have k: "length (i # rest) * D = k * D + D" by (simp add: k_def)
  ultimately show ?case by (simp only: k rev.simps)
qed

text \<open>What the search still has to replace from a position on; one position beyond the end there is nothing.\<close>

definition replaced_from :: "byte list \<Rightarrow> byte list \<Rightarrow> byte list \<Rightarrow> nat \<Rightarrow> byte list" where
  "replaced_from before after xs k = (if k \<le> length xs then replaced before after (drop k xs) else [])"

lemma search_beyond: "length xs < nat index \<Longrightarrow> search before xs index = - 1"
  by (simp add: index_in_first first_at_beyond)

lemma replaced_from_next:
  assumes "0 \<le> index" "search before xs index = int i"
  shows "replaced_from before after xs (nat index) = drop (nat index) (take i xs) @ after @
    (if before = [] then take 1 (drop i xs) @ replaced_from before after xs (i + 1)
     else replaced_from before after xs (i + length before))"
proof -
  have s: "search before xs index \<noteq> - 1" using assms(2) by simp
  note r = search_range [OF s]
  have i: "nat index \<le> i" "i + length before \<le> length xs" using r(1,3) assms by (simp_all add: nat_le_iff)
  have k: "nat index \<le> length xs" using i by simp
  show ?thesis
  proof (cases "before = []")
    case False
    have "index \<le> int (length xs)" using k assms(1) by (simp add: nat_le_iff)
    from search_rest(2) [OF assms(1) this s False, of after] show ?thesis
      using False i k by (simp add: replaced_from_def assms(2))
  next
    case True
    have "first_at [] xs (nat index) = int (nat index)"
      by (rule first_at_here) (use k in \<open>simp add: occurs_at_def\<close>)
    then have e: "i = nat index" using assms True by (simp add: index_in_first)
    have "replaced [] after (drop i xs) = after @ take 1 (drop i xs) @ replaced_from [] after xs (i + 1)"
    proof (cases "i < length xs")
      case True
      then have "drop i xs = xs ! i # drop (Suc i) xs" by (simp add: Cons_nth_drop_Suc)
      then show ?thesis using True by (subst replaced_empty) (simp add: replaced_from_def)
    next
      case False
      then show ?thesis using k e by (subst replaced_empty) (simp add: replaced_from_def)
    qed
    then show ?thesis using True e k by (simp add: replaced_from_def)
  qed
qed

lemma collect_splice:
  assumes "collect_indices before xs index n = (is, e)" "0 \<le> index" "nat index \<le> length xs + 1"
    "length before < length after" "D = length after - length before"
  shows "ascending (length before) (length xs) (nat index) is
    \<and> (e = - 1 \<longrightarrow> splice (length before) after xs (nat index) is = replaced_from before after xs (nat index))
    \<and> (e \<noteq> - 1 \<longrightarrow> 0 \<le> e \<and> nat e \<le> length xs + 1 \<and> nat index \<le> nat e
         \<and> (\<exists>pre. splice (length before) after xs (nat index) is = pre @ drop (nat e) xs
              \<and> replaced_from before after xs (nat index) = pre @ replaced_from before after xs (nat e)
              \<and> (nat e \<le> length xs \<longrightarrow> length pre = nat e - nat index + length is * D)))"
  using assms(1-3)
proof (induction n arbitrary: index "is")
  case 0
  then show ?case by auto
next
  case (Suc n)
  note pr = Suc.prems
  show ?case
  proof (cases "search before xs index = - 1")
    case True
    then have r: "is = []" "e = - 1" using pr(1) by simp_all
    show ?thesis
    proof (cases "nat index \<le> length xs")
      case True
      then have "index \<le> int (length xs)" using pr(2) by (simp add: nat_le_iff)
      then show ?thesis
        using r search_rest(1) [OF pr(2) _ \<open>search before xs index = - 1\<close>, of after] True by (simp add: replaced_from_def)
    next
      case False
      then show ?thesis using r by (simp add: replaced_from_def)
    qed
  next
    case False
    note r = search_range [OF False]
    define i where "i = nat (search before xs index)"
    have s: "search before xs index = int i" using r(2) by (simp add: i_def)
    have i: "nat index \<le> i" "i + length before \<le> length xs" using r(1,3) by (simp_all add: i_def nat_mono)
    define k where "k = (if before = [] then i + 1 else i + length before)"
    obtain js where js: "collect_indices before xs (int k) n = (js, e)" "is = i # js"
    proof -
      have "(if before = [] then int i + 1 else int i + int (length before)) = int k" by (simp add: k_def)
      then show ?thesis using that pr(1) False s by (auto simp: Let_def split: prod.splits)
    qed
    have k: "k \<le> length xs + 1" "i + length before \<le> k" using i by (auto simp: k_def)
    define bl where "bl = length before"
    have "0 \<le> int k" "nat (int k) \<le> length xs + 1" using k(1) by simp_all
    note ih = Suc.IH [OF js(1) this, unfolded nat_int, folded bl_def]
    have asc: "ascending bl (length xs) k js" using ih by simp
    have bl: "i + bl \<le> k" "i + bl \<le> length xs" using k(2) i(2) by (simp_all add: bl_def)
    have asc': "ascending bl (length xs) (i + bl) js" using asc bl by (cases js) auto
    define mid where "mid = drop (i + bl) (take k xs)"
    define pre0 where "pre0 = drop (nat index) (take i xs) @ after @ mid"
    have sp: "splice bl after xs (nat index) is = pre0 @ splice bl after xs k js"
      using splice_from [OF asc bl(1), of after] by (simp add: js(2) pre0_def mid_def)
    have mid: "mid = (if before = [] then take 1 (drop i xs) else [])"
      by (simp add: mid_def k_def bl_def drop_take)
    have rep: "replaced_from before after xs (nat index) = pre0 @ replaced_from before after xs k"
      using replaced_from_next [OF pr(2) s, of after] by (simp add: pre0_def mid k_def)
    have len: "length pre0 = i - nat index + length after + (k - (i + bl))" if "k \<le> length xs"
      using that i bl by (simp add: pre0_def mid_def)
    show ?thesis
    proof (cases "e = - 1")
      case True
      then show ?thesis using ih asc' i sp rep js(2) by (simp add: bl_def)
    next
      case e: False
      then obtain pre where pre: "splice bl after xs k js = pre @ drop (nat e) xs"
        "replaced_from before after xs k = pre @ replaced_from before after xs (nat e)"
        "nat e \<le> length xs \<Longrightarrow> length pre = nat e - k + length js * D" and ek: "0 \<le> e" "nat e \<le> length xs + 1" "k \<le> nat e"
        using ih by auto
      have "length (pre0 @ pre) = nat e - nat index + length is * D" if "nat e \<le> length xs"
      proof -
        have "length after = bl + D" using assms(4,5) by (simp add: bl_def)
        moreover have "k \<le> length xs" using ek(3) that by simp
        ultimately show ?thesis using len pre(3) [OF that] ek(3) bl(1) i(1) js(2) by (simp add: ac_simps)
      qed
      moreover have "splice bl after xs (nat index) is = (pre0 @ pre) @ drop (nat e) xs" using sp pre(1) by simp
      moreover have "replaced_from before after xs (nat index) = (pre0 @ pre) @ replaced_from before after xs (nat e)"
        using rep pre(2) by simp
      moreover have "nat index \<le> nat e" using i(1) bl(1) ek(3) by linarith
      ultimately show ?thesis using e ek asc' i(1) bl(2) js(2) unfolding bl_def [symmetric] by auto
    qed
  qed
qed

lemma collect_index:
  "collect_indices before xs index n = (indices, e) \<Longrightarrow> e \<noteq> - 1 \<Longrightarrow> index \<le> e \<and> (indices \<noteq> [] \<longrightarrow> index < e)"
proof (induction n arbitrary: index indices e)
  case (Suc n)
  define i where "i = search before xs index"
  have i: "i \<noteq> - 1" using Suc.prems by (auto simp: i_def [symmetric] Let_def)
  define next_index where "next_index = (if before = [] then i + 1 else i + int (length before))"
  obtain js where js: "collect_indices before xs next_index n = (js, e)" "indices = nat i # js"
    using Suc.prems(1) i by (auto simp: i_def [symmetric] Let_def next_index_def [symmetric] split: prod.splits)
  have "index < next_index" using search_range(1) [of before xs index] i by (cases before) (auto simp: i_def next_index_def)
  then show ?case using Suc.IH [OF js(1) Suc.prems(2)] by simp
qed simp

lemma collect_none: "collect_indices before xs index n = ([], e) \<Longrightarrow> 0 < n \<Longrightarrow> e = - 1"
  by (cases n) (auto simp: Let_def split: if_splits prod.splits)

lemma ba_ok_same_length: "ba_ok a \<Longrightarrow> length ys = ba_size a \<Longrightarrow> ba_ok (a\<lparr>ba_bytes := ys\<rparr>)"
  by (auto simp: ba_ok_def)

lemma length_replaced_ge: "length before \<le> length after \<Longrightarrow> length xs \<le> length (replaced before after xs)"
proof (induction "length xs" arbitrary: xs rule: less_induct)
  case less
  show ?case
  proof (cases "before = []")
    case True
    show ?thesis
    proof (cases xs)
      case (Cons x ys)
      then have "length ys \<le> length (replaced before after ys)" using less by simp
      then show ?thesis using True Cons replaced_empty [of after xs] by simp
    qed simp
  next
    case ne: False
    show ?thesis
    proof (cases rule: first_at_cases [of before xs 0])
      case 1
      then show ?thesis using replaced_none by simp
    next
      case (2 i)
      have i: "i + length before \<le> length xs" using occurs_at_le [OF 2(3)] .
      have "length (drop (i + length before) xs) \<le> length (replaced before after (drop (i + length before) xs))"
        by (rule less.hyps) (use i ne less.prems in \<open>cases before; simp\<close>)+
      then show ?thesis using replaced_some [OF 2(1) ne, of after] i less.prems by simp
    qed
  qed
qed

lemma length_replaced_from_ge:
  "length before \<le> length after \<Longrightarrow> length xs - k \<le> length (replaced_from before after xs k)"
  using length_replaced_ge [of before after "drop k xs"] by (simp add: replaced_from_def)

lemma grow_loop_step:
  assumes "collect_indices before (ba_bytes a) index 4095 = (is, e)" "is \<noteq> []"
    "sint (of_nat (length is) * of_int (int (length after) - int (length before)) :: u32) = adjust"
    "newlen = int (ba_size a) + adjust" "b = (if newlen > int (ba_size a) then ba_resize junk a newlen else a)"
    "place before after (ba_bytes b) (rev is) (ba_size a) = Some zs"
    "int_range newlen" "e \<noteq> - 1 \<Longrightarrow> int_range (e + adjust) \<and> e + adjust \<noteq> - 1"
  shows "grow_loop junk before after a index old =
    (if e = - 1 then Some (b\<lparr>ba_bytes := zs\<rparr>, if is_shared (ba_ref b) then zs else old)
     else grow_loop junk before after (b\<lparr>ba_bytes := zs\<rparr>) (e + adjust) (if is_shared (ba_ref b) then zs else old))"
proof -
  define index' where "index' = (if e \<noteq> - 1 then e + adjust else e)"
  have "int_range (- 1)" by (simp add: int_range_def)
  then have r: "int_range index'" "index' = - 1 \<longleftrightarrow> e = - 1" "e \<noteq> - 1 \<Longrightarrow> index' = e + adjust"
    using assms(8) by (auto simp: index'_def)
  define old2 where "old2 = (if is_shared (ba_ref b) then zs else old)"
  have "grow_loop junk before after a index old =
      (if e = - 1 then Some (b\<lparr>ba_bytes := zs\<rparr>, old2) else grow_loop junk before after (b\<lparr>ba_bytes := zs\<rparr>) index' old2)"
    by (subst grow_loop.simps)
       (simp only: assms(1,3,6,7) assms(4,5) [symmetric] index'_def [symmetric] r(1,2) old2_def [symmetric] Let_def prod.case
         assms(2) Option.bind.simps not_True_eq_False if_False simp_thms)
  then show ?thesis using r(3) by (simp add: old2_def)
qed

lemma grow_loop_replaced:
  assumes "ba_ok a" "0 \<le> index" "nat index \<le> ba_size a + 1" "length before < length after"
    "length (take (nat index) (ba_bytes a) @ replaced_from before after (ba_bytes a) (nat index)) < 2147483647"
  shows "\<exists>c old'. grow_loop junk before after a index old = Some (c, old') \<and> ba_bytes c =
    take (nat index) (ba_bytes a) @ replaced_from before after (ba_bytes a) (nat index)"
  using assms
proof (induction "ba_size a + 1 - nat index" arbitrary: a index old rule: less_induct)
  case less
  note pr = less.prems
  define xs where "xs = ba_bytes a"
  define D where "D = length after - length before"
  define bl where "bl = length before"
  obtain "is" e where col: "collect_indices before xs index 4095 = (is, e)" by (cases "collect_indices before xs index 4095")
  have le: "nat index \<le> length xs + 1" using pr(3) by (simp add: xs_def)
  note c = collect_splice [OF col pr(2) le pr(4) D_def, folded bl_def]
  define final where "final = take (nat index) xs @ replaced_from before after xs (nat index)"
  have fl: "length final < 2147483647" using pr(5) by (simp only: final_def xs_def)
  show ?case
  proof (cases "is = []")
    case True
    have e: "e = - 1" using collect_none [of before xs index 4095 e] col True by simp
    have "grow_loop junk before after a index old = Some (a, old)" using col True by (subst grow_loop.simps) (simp add: xs_def)
    moreover have "replaced_from before after xs (nat index) = drop (nat index) xs" using c e True by simp
    ultimately show ?thesis by (simp add: xs_def)
  next
    case ne: False
    define k where "k = length is"
    define newlen where "newlen = int (ba_size a) + int (k * D)"
    define b where "b = (if newlen > int (ba_size a) then ba_resize junk a newlen else a)"
    have D: "D > 0" "int (length after) - int (length before) = int D" using pr(4) by (simp_all add: D_def)
    have "k > 0" using ne by (simp add: k_def)
    then have kD: "0 < k * D" using D(1) by simp
    moreover have n: "newlen = int (length xs + k * D)" by (simp only: newlen_def xs_def of_nat_add)
    ultimately have nl: "newlen > int (ba_size a)" "nat newlen = length xs + k * D"
      by (simp_all only: n nat_int) (simp add: xs_def)
    have b: "ba_ok b" "ba_bytes b = set_length junk xs (length xs + k * D)"
      using pr(1) nl by (simp_all add: b_def xs_def)
    have asc: "ascending bl (length xs) (nat index) is" using c by simp
    then have asc0: "ascending bl (length xs) 0 is" by (cases "is") auto
    define zs where "zs = take (nat index) xs @ splice bl after xs (nat index) is"
    have ls: "length (splice bl after xs start is) + start = length xs + length is * D" if "ascending bl (length xs) start is" "start \<le> length xs" for start
      using that pr(4) by (simp add: length_splice bl_def D_def)
    have ile: "nat index \<le> length xs" using asc ne by (cases "is") auto
    have lz: "length zs = length xs + k * D" using ls [OF asc ile] ile by (simp add: zs_def k_def)
    have small: "length xs + k * D < 2147483647"
    proof (cases "e = - 1")
      case True
      then show ?thesis using fl lz c by (simp add: final_def zs_def)
    next
      case False
      then obtain pre where pre: "splice bl after xs (nat index) is = pre @ drop (nat e) xs"
        "replaced_from before after xs (nat index) = pre @ replaced_from before after xs (nat e)"
        using c by auto
      have "length zs \<le> length final" 
        using pre length_replaced_from_ge [of before after xs "nat e"] pr(4) by (simp add: zs_def final_def)
      then show ?thesis using fl lz by simp
    qed
    have adj: "sint (of_nat (length is) * of_int (int (length after) - int (length before)) :: u32) = int (k * D)"
      using sint_uint_product [of 0 k D] small unfolding D(2) by (simp add: k_def)
    have "place before after (ba_bytes b) (rev is) (length xs) =
        Some (splice bl after (take (length xs) xs) 0 (rev (rev is)) @ drop (length xs + length (rev is) * D) (ba_bytes b))"
      unfolding bl_def
      by (rule place_splice [OF pr(4) D_def, where n = "length xs" and cnt = k])
        (use b asc0 small in \<open>simp_all add: k_def bl_def\<close>)
    then have place: "place before after (ba_bytes b) (rev is) (length xs) = Some zs"
      using b splice_from [OF asc, of 0 after] by (simp add: k_def zs_def)
    define cc where "cc = b\<lparr>ba_bytes := zs\<rparr>"
    define old2 where "old2 = (if is_shared (ba_ref b) then zs else old)"
    have ok: "ba_ok cc" using b lz by (simp add: cc_def ba_ok_same_length)
    have e0: "e \<noteq> - 1 \<Longrightarrow> 0 \<le> e \<and> nat e \<le> length xs + 1" using c by auto
    define grow where "grow = k * D"
    have range: "int_range newlen" "e \<noteq> - 1 \<Longrightarrow> int_range (e + int (k * D)) \<and> e + int (k * D) \<noteq> - 1"
      using small e0 unfolding int_range_def n grow_def [symmetric] by (auto simp del: of_nat_mult)
    have step: "grow_loop junk before after a index old =
        (if e = - 1 then Some (cc, old2) else grow_loop junk before after cc (e + int (k * D)) old2)"
      unfolding cc_def old2_def
      by (rule grow_loop_step [OF col [unfolded xs_def] ne adj newlen_def b_def place [unfolded xs_def] range])
    show ?thesis
    proof (cases "e = - 1")
      case True
      then show ?thesis using step c by (simp add: cc_def zs_def xs_def [symmetric])
    next
      case e: False
      then obtain pre where pre: "splice bl after xs (nat index) is = pre @ drop (nat e) xs"
        "replaced_from before after xs (nat index) = pre @ replaced_from before after xs (nat e)"
        "nat e \<le> length xs \<Longrightarrow> length pre = nat e - nat index + length is * D"
        and ek: "0 \<le> e" "nat e \<le> length xs + 1" "nat index \<le> nat e"
        using c by auto
      have j: "nat (e + int (k * D)) = nat e + k * D" using ek(1) by (simp only: nat_add_distrib of_nat_0_le_iff nat_int)
      have whole: "take (nat e + k * D) zs @ replaced_from before after zs (nat e + k * D) = final"
      proof (cases "nat e \<le> length xs")
        case True
        have l: "length (take (nat index) xs @ pre) = nat e + k * D" using pre(3) [OF True] ek(3) True by (simp add: k_def)
        have z: "zs = (take (nat index) xs @ pre) @ drop (nat e) xs" using pre(1) by (simp add: zs_def)
        have cut: "take n (p @ q) = p \<and> drop n (p @ q) = q" if "length p = n" for n and p q :: "byte list" using that by auto
        have "take (nat e + k * D) zs = take (nat index) xs @ pre" using cut [OF l] unfolding z by blast
        moreover have "drop (nat e + k * D) zs = drop (nat e) xs" using cut [OF l] unfolding z by blast
        ultimately show ?thesis using True lz pre(2) by (simp add: replaced_from_def final_def)
      next
        case False
        then have "zs = take (nat index) xs @ pre" using pre(1) by (simp add: zs_def)
        moreover have "take (nat e + k * D) zs = zs" using lz False by simp
        ultimately show ?thesis using False lz pre(2) by (simp add: replaced_from_def final_def)
      qed
      have forward: "nat index < nat e" using collect_index [OF col e] ne pr(2) by simp
      have dec: "length xs + 1 - nat e < length xs + 1 - nat index" using forward ile by linarith
      have "\<exists>c old'. grow_loop junk before after cc (e + int (k * D)) old2 = Some (c, old') \<and> ba_bytes c =
          take (nat (e + int (k * D))) (ba_bytes cc) @ replaced_from before after (ba_bytes cc) (nat (e + int (k * D)))"
        by (rule less.hyps [OF _ ok])
          (use ek lz pr(4) whole fl dec in \<open>simp_all add: cc_def j xs_def del: of_nat_mult length_append\<close>)
      then show ?thesis using step e whole by (simp add: cc_def j final_def xs_def del: of_nat_mult)
    qed
  qed
qed

section \<open>The properties\<close>

lemma shrink_first:
  assumes "search before xs 0 = int j" "before \<noteq> []"
  shows "shrink_loop before [] xs 0 0 0 0 = shrink_loop before [] xs (int (j + length before)) j (j + length before) 1"
  using assms by (subst shrink_loop.simps) (simp add: Let_def)

lemma replace_shorter_delete:
  assumes "before \<noteq> []" "replace_shorter before [] xs = (ys, num)"
  shows "length ys = length xs \<and> num * length before \<le> length xs
    \<and> take (length xs - num * length before) ys = replaced before [] xs \<and> (num = 0 \<longrightarrow> ys = xs)"
proof (cases "search before xs 0 = - 1")
  case True
  then have "shrink_loop before [] xs 0 0 0 0 = (xs, 0, 0, 0)" by (subst shrink_loop.simps) simp
  moreover have "replaced before [] xs = xs" using search_rest(1) [of 0 xs before] True by simp
  ultimately show ?thesis using assms(2) by (auto simp: replace_shorter_def)
next
  case False
  note r = search_range [OF False]
  define j where "j = nat (search before xs 0)"
  have j: "search before xs 0 = int j" "j + length before \<le> length xs" using r by (simp_all add: j_def)
  obtain zs t ms n where run: "shrink_loop before [] xs (int (j + length before)) j (j + length before) 1 = (zs, t, ms, n)"
    by (metis prod_cases4)
  have "0 < n \<and> length zs = length xs \<and> ms \<le> length xs \<and> t + n * length before = ms
    \<and> take t zs @ drop ms zs = take j xs @ replaced before [] (drop (nat (int (j + length before))) xs)"
    by (rule shrink_delete [OF run assms(1)]) (use j in simp_all)
  then have s: "0 < n" "length zs = length xs" "ms \<le> length xs" "t + n * length before = ms"
    "take t zs @ drop ms zs = take j xs @ replaced before [] (drop (j + length before) xs)"
    by (simp_all only: nat_int)
  have rep: "replaced before [] xs = take j xs @ replaced before [] (drop (j + length before) xs)"
    using search_rest(2) [of 0 xs before "[]"] assms(1) j(1) by simp
  define msize where "msize = length xs - ms"
  have whole: "shrink_loop before [] xs 0 0 0 0 = (zs, t, ms, n)" using shrink_first [OF j(1) assms(1)] run by simp
  have tm: "length xs - n * length before = t + msize" "n * length before \<le> length xs" using s(3,4) by (simp_all add: msize_def)
  have read: "mem_read zs ms msize = drop ms zs" using s(2) by (simp add: mem_read_def msize_def)
  have fits: "t + length (drop ms zs) \<le> length zs" using s(2-4) by simp
  have ys: "ys = (if msize > 0 then mem_put zs t (drop ms zs) else zs)" "num = n"
    using assms(2) whole s(1) read by (auto simp: replace_shorter_def msize_def)
  have "take (t + msize) ys = take t zs @ drop ms zs"
  proof (cases "msize > 0")
    case True
    have "length (drop ms zs) = msize" using s(2) by (simp add: msize_def)
    then show ?thesis using take_put [OF fits] True ys by simp
  next
    case False
    then show ?thesis using ys s(2) by (simp add: msize_def)
  qed
  then show ?thesis using ys s(1,2,5) tm rep by (simp only: ys tm) auto
qed

text \<open>C23: On an array that is not the null array, \<open>replace\<close> gives the bytes with all occurrences of a string replaced from left to right,
  none of them overlapping, when the new string is empty, of the same length or longer; an empty string occurs between any
  two bytes and at both ends.  The result is shorter than \<open>2 ^ 31 - 1\<close>; then no \<open>int\<close> overflows, every move stays in the array
  and the loop of the growing replacement ends.\<close>

theorem byte_array_replace:
  assumes "ba_ok a" "ba_ref a \<noteq> SharedNull" "length before \<le> length after \<or> after = []"
    "length (replaced before after (ba_bytes a)) < 2147483647"
  shows "map_option (ba_bytes \<circ> fst) (ba_replace junk a before after) = Some (replaced before after (ba_bytes a))"
proof -
  consider (same) "length before = length after" | (shorter) "length after < length before" "after = []"
    | (longer) "length before < length after" using assms(3) by fastforce
  then show ?thesis
  proof cases
    case same
    then show ?thesis
      using assms(2) replace_same_replaced [of after before 0 "ba_bytes a"] by (simp add: ba_replace_def Let_def)
  next
    case longer
    then show ?thesis
      using assms(1,2,4) grow_loop_replaced [of a 0 before after junk "ba_bytes a"] by (auto simp: ba_replace_def replaced_from_def)
  next
    case shorter
    obtain ys num where r: "replace_shorter before [] (ba_bytes a) = (ys, num)" by (cases "replace_shorter before [] (ba_bytes a)")
    have ne: "before \<noteq> []" using shorter by auto
    note d = replace_shorter_delete [OF ne r]
    have size: "int (ba_size a) - int num * int (length before) = int (ba_size a - num * length before)"
      using d by (simp add: of_nat_diff)
    have ok: "ba_ok (a\<lparr>ba_bytes := ys\<rparr>)" using assms(1) d by (simp add: ba_ok_same_length)
    have "map_option (ba_bytes \<circ> fst) (ba_replace junk a before after) =
        Some (if num \<noteq> 0 then set_length junk ys (ba_size a - num * length before) else ys)"
      using assms(2) shorter r ok by (simp add: ba_replace_def Let_def size del: of_nat_diff)
    also have "\<dots> = Some (replaced before [] (ba_bytes a))"
      using d by (cases "num = 0") (auto simp: set_length_shrink)
    finally show ?thesis using shorter(2) by simp
  qed
qed

lemma first_at_two: "first_at [8, 9] [7, 8, 9, 6 :: byte] 0 = 1" "first_at [8, 9] [6 :: byte] 0 = - 1"
  by (simp_all add: first_at_def position_def occurs_at_def upt_rec)

theorem byte_array_replace_witness:
  "map_option (ba_bytes \<circ> fst)
     (ba_replace (\<lambda>i. 0) \<lparr>ba_bytes = [7, 8, 9, 6], ba_alloc = 5, ba_reserved = False, ba_ref = Unshared\<rparr> [8, 9] [1, 2, 3])
   = Some [7, 1, 2, 3, 6]"
proof -
  have "replaced [8, 9] [1, 2, 3] [7, 8, 9, 6] = [7, 1, 2, 3, 6]"
    using replaced_some [of "[8, 9]" "[7, 8, 9, 6]" 1] first_at_two replaced_none [of "[8, 9]" "[6]"] by simp
  then show ?thesis
    using byte_array_replace [of "\<lparr>ba_bytes = [7, 8, 9, 6], ba_alloc = 5, ba_reserved = False, ba_ref = Unshared\<rparr>" "[8, 9]" "[1, 2, 3]"]
    by (simp add: ba_ok_def)
qed

text \<open>C24: Replacing a string by a shorter, non-empty one loses the new string: when \<open>before\<close> occurs once, followed by at least as many
  bytes as \<open>after\<close> has, the result begins with the bytes before and behind the occurrence, \<open>after\<close> not between them.\<close>

theorem replace_shorter_loses:
  assumes "ba_ok a" "ba_ref a \<noteq> SharedNull" "ba_bytes a = p @ before @ r" "length after < length before" "after \<noteq> []"
    "length after \<le> length r" "first_at before (p @ before @ r) 0 = int (length p)" "first_at before r 0 = - 1"
  shows "map_option (take (length p + length r) \<circ> ba_bytes \<circ> fst) (ba_replace junk a before after) = Some (p @ r)
    \<and> replaced before after (ba_bytes a) = p @ after @ r"
proof -
  define xs where "xs = p @ before @ r"
  define ys where "ys = p @ after @ drop (length after) before @ r"
  have ne: "before \<noteq> []" using assms(4) by auto
  have s0: "search before xs 0 = int (length p)" using assms(7) by (simp add: index_in_first xs_def)
  have ys: "mem_put xs (length p) after = ys"
    using assms(4) mem_put_inside [of "length p" after xs] by (simp add: xs_def ys_def)
  have ly: "length ys = length xs" using assms(4) by (simp add: ys_def xs_def)
  define e where "e = length p + length before"
  have "drop e ys = r" using assms(4) by (simp add: ys_def e_def)
  then have "search before ys (int e) = - 1"
    using first_at_drop [of e ys before] assms(8) ly
    by (simp only: index_in_first nat_int) (simp add: e_def xs_def)
  then have run: "shrink_loop before after ys (int e) (length p) e (Suc 0) = (ys, length p, e, Suc 0)"
    by (subst shrink_loop.simps) simp
  have "shrink_loop before after xs 0 0 0 0 = (ys, length p, e, Suc 0)"
    using s0 ne assms(5) ys run by (subst shrink_loop.simps) (simp add: Let_def e_def)
  moreover have "mem_read ys e (length xs - e) = r" "length xs - e = length r" using assms(4)
    by (simp_all add: mem_read_def ys_def xs_def e_def)
  moreover have "r \<noteq> []" using assms(5,6) by auto
  moreover from this have "e < length xs" by (simp add: xs_def e_def)
  ultimately have rs: "replace_shorter before after xs = (mem_put ys (length p) r, 1)" by (simp add: replace_shorter_def)
  have fits: "length p + length r \<le> length ys" using ly by (simp add: xs_def)
  have head: "take (length p + length r) (mem_put ys (length p) r) = p @ r" using take_put [OF fits] by (simp add: ys_def)
  define n where "n = length p + length after + length r"
  have n: "int (ba_size a) - 1 * (int (length before) - int (length after)) = int n"
    using assms(3,4) by (simp add: n_def)
  have ok: "ba_ok (a\<lparr>ba_bytes := mem_put ys (length p) r\<rparr>)" using assms(1,3) ly by (simp add: ba_ok_same_length xs_def)
  have "map_option (ba_bytes \<circ> fst) (ba_replace junk a before after) = Some (set_length junk (mem_put ys (length p) r) n)"
    using assms(2-4) rs ok n by (simp add: ba_replace_def xs_def [symmetric] Let_def)
  then have "map_option (take (length p + length r) \<circ> ba_bytes \<circ> fst) (ba_replace junk a before after) = Some (p @ r)"
    using head ly assms(4) by (auto simp: n_def xs_def)
  moreover have "replaced before after (ba_bytes a) = p @ after @ r"
    using replaced_some [of before "p @ before @ r" "length p" after] assms(3,7,8) ne replaced_none [of before r after] by simp
  ultimately show ?thesis ..
qed

theorem replace_shorter_loses_witness:
  "map_option (take 2 \<circ> ba_bytes \<circ> fst)
     (ba_replace (\<lambda>i. 0) \<lparr>ba_bytes = [7, 8, 9, 6], ba_alloc = 5, ba_reserved = False, ba_ref = Unshared\<rparr> [8, 9] [1])
   = Some [7, 6]"
  using replace_shorter_loses [of "\<lparr>ba_bytes = [7, 8, 9, 6], ba_alloc = 5, ba_reserved = False, ba_ref = Unshared\<rparr>" "[7]" "[8, 9]" "[6]" "[1]"]
    first_at_two by (simp add: ba_ok_def numeral_2_eq_2)

text \<open>C25: Replacing a string by another of the same length does not detach: it writes into the block of the array, so that the owners
  that share it read the new bytes.\<close>

theorem replace_writes_shared:
  assumes "ba_ref a \<noteq> SharedNull" "length before = length after" "before \<noteq> after" "occurs_at before (ba_bytes a) i"
  shows "map_option snd (ba_replace junk a before after) = Some (replaced before after (ba_bytes a))
    \<and> replaced before after (ba_bytes a) \<noteq> ba_bytes a"
proof -
  define xs where "xs = ba_bytes a"
  have e: "map_option snd (ba_replace junk a before after) = Some (replaced before after xs)"
    using assms(1,2) replace_same_replaced [of after before 0 xs] by (simp add: ba_replace_def xs_def Let_def)
  have ne: "before \<noteq> []" using assms(2,3) by auto
  have "replaced before after xs \<noteq> xs"
  proof (cases rule: first_at_cases [of before xs 0])
    case 1
    then show ?thesis using assms(4) by (simp add: xs_def)
  next
    case (2 j)
    have b: "before = take (length before) (drop j xs)" "j + length before \<le> length xs" using 2(3) by (simp_all add: occurs_at_def)
    have "take (length before) (drop j (replaced before after xs)) = after"
      using replaced_some [OF 2(1) ne, of after] b(2) assms(2) by simp
    then show ?thesis using b(1) assms(3) by metis
  qed
  then show ?thesis using e by (simp add: xs_def)
qed

theorem replace_writes_shared_witness:
  "map_option snd (ba_replace (\<lambda>i. 0) \<lparr>ba_bytes = [7, 8], ba_alloc = 3, ba_reserved = False, ba_ref = Shared\<rparr> [8] [9])
   \<noteq> Some [7, 8]"
proof -
  let ?a = "\<lparr>ba_bytes = [7, 8], ba_alloc = 3, ba_reserved = False, ba_ref = Shared\<rparr>"
  have "ba_ref ?a \<noteq> SharedNull" "length [8 :: byte] = length [9 :: byte]" "[8] \<noteq> [9 :: byte]" "occurs_at [8] (ba_bytes ?a) 1"
    by (simp_all add: occurs_at_def)
  from replace_writes_shared [OF this, of "\<lambda>i. 0"] show ?thesis by auto
qed

end
