(* ===== verification/String_Compare.thy ===== *)
theory String_Compare
  imports Pdk_Prelude
begin

text \<open>
  The case-sensitive comparison of texts, \<open>modules/base/lang/String.cpp\<close>: the plain loops and the loops over
  blocks of 128 bits that a build with SSE2 but without AVX2 runs on x86-64.

  A vector comparison is the search for the first lane that differs, as \<open>count_trailing_zero_bits\<close> of the
  inverted mask finds it.  Both texts have been cut to the shorter length.
\<close>

section \<open>The order of texts\<close>

fun units_less :: "u16 list \<Rightarrow> u16 list \<Rightarrow> bool" where
  "units_less xs [] = False"
| "units_less [] (y # ys) = True"
| "units_less (x # xs) (y # ys) = (if x \<noteq> y then x < y else units_less xs ys)"

section \<open>The loops\<close>

definition unit_diff :: "u16 \<Rightarrow> u16 \<Rightarrow> int" where
  "unit_diff x y = uint x - uint y"

text \<open>The plain loop of \<open>unicode_strncmp\<close>; a Latin-1 text is given by its characters as units.\<close>

fun strncmp_loop :: "u16 list \<Rightarrow> u16 list \<Rightarrow> int" where
  "strncmp_loop (x # xs) (y # ys) = (let diff = unit_diff x y in if diff \<noteq> 0 then diff else strncmp_loop xs ys)"
| "strncmp_loop xs ys = 0"

text \<open>Two UTF-16 texts with SSE2: blocks of eight units, then the unrolled tail.\<close>

function unicode_strncmp :: "u16 list \<Rightarrow> u16 list \<Rightarrow> int" where
  "unicode_strncmp lhs rhs =
     (if length lhs \<ge> 8 then
        case find (\<lambda>i. lhs ! i \<noteq> rhs ! i) [0..<8] of
          Some idx \<Rightarrow> unit_diff (lhs ! idx) (rhs ! idx)
        | None \<Rightarrow> unicode_strncmp (drop 8 lhs) (drop 8 rhs)
      else strncmp_loop lhs rhs)"
  by pat_completeness auto
termination by (relation "measure (\<lambda>(lhs, rhs). length lhs)") auto

text \<open>
  A UTF-16 text and a Latin-1 text with SSE2: in a block of sixteen characters both halves of the vector that is
  compared hold the upper eight characters of the Latin-1 text.  A block of eight follows, then the tail.
\<close>

definition unpacked_lane :: "nat \<Rightarrow> nat" where
  "unpacked_lane i = (if i < 8 then i + 8 else i)"

definition strncmp_latin1_tail :: "u16 list \<Rightarrow> u16 list \<Rightarrow> int" where
  "strncmp_latin1_tail lhs rhs =
     (if length lhs \<ge> 8 then
        case find (\<lambda>i. lhs ! i \<noteq> rhs ! i) [0..<8] of
          Some idx \<Rightarrow> unit_diff (lhs ! idx) (rhs ! idx)
        | None \<Rightarrow> strncmp_loop (drop 8 lhs) (drop 8 rhs)
      else strncmp_loop lhs rhs)"

function unicode_strncmp_latin1 :: "u16 list \<Rightarrow> u16 list \<Rightarrow> int" where
  "unicode_strncmp_latin1 lhs rhs =
     (if length lhs \<ge> 16 then
        case find (\<lambda>i. lhs ! i \<noteq> rhs ! (unpacked_lane i)) [0..<16] of
          Some idx \<Rightarrow> unit_diff (lhs ! idx) (rhs ! idx)
        | None \<Rightarrow> unicode_strncmp_latin1 (drop 16 lhs) (drop 16 rhs)
      else strncmp_latin1_tail lhs rhs)"
  by pat_completeness auto
termination by (relation "measure (\<lambda>(lhs, rhs). length lhs)") auto

declare unicode_strncmp.simps [simp del] unicode_strncmp_latin1.simps [simp del]

section \<open>Comparison and the operators\<close>

definition lencmp :: "nat \<Rightarrow> nat \<Rightarrow> int" where
  "lencmp l r = (if l = r then 0 else if l > r then 1 else - 1)"

definition unicode_strcmp :: "(u16 list \<Rightarrow> u16 list \<Rightarrow> int) \<Rightarrow> u16 list \<Rightarrow> u16 list \<Rightarrow> int" where
  "unicode_strcmp strncmp lhs rhs =
     (let len = min (length lhs) (length rhs); result = strncmp (take len lhs) (take len rhs)
      in if result \<noteq> 0 then result else lencmp (length lhs) (length rhs))"

definition string_equal :: "(u16 list \<Rightarrow> u16 list \<Rightarrow> int) \<Rightarrow> u16 list \<Rightarrow> u16 list \<Rightarrow> bool" where
  "string_equal strncmp lhs rhs \<longleftrightarrow> length lhs = length rhs \<and> unicode_strcmp strncmp lhs rhs = 0"

definition string_less :: "(u16 list \<Rightarrow> u16 list \<Rightarrow> int) \<Rightarrow> u16 list \<Rightarrow> u16 list \<Rightarrow> bool" where
  "string_less strncmp lhs rhs \<longleftrightarrow> unicode_strcmp strncmp lhs rhs < 0"

text \<open>
  The operator \<open>>\<close> of a \<open>String\<close> and a \<open>Latin1String\<close>.  For two texts of the class \<open>String\<close> it is \<open>rhs < lhs\<close>, which is the same
  (\<open>string_operators\<close>).
\<close>

definition string_greater :: "(u16 list \<Rightarrow> u16 list \<Rightarrow> int) \<Rightarrow> u16 list \<Rightarrow> u16 list \<Rightarrow> bool" where
  "string_greater strncmp lhs rhs \<longleftrightarrow> unicode_strcmp strncmp lhs rhs > 0"

section \<open>Facts\<close>

lemma unit_diff_simps [simp]:
  "unit_diff x y = 0 \<longleftrightarrow> x = y" "unit_diff x y < 0 \<longleftrightarrow> x < y" "unit_diff x y > 0 \<longleftrightarrow> y < x"
  by (auto simp: unit_diff_def word_less_def word_uint_eq_iff)

lemma all_less_Suc_split: "(\<forall>k<Suc n. P k) \<longleftrightarrow> P 0 \<and> (\<forall>k<n. P (Suc k))"
  using less_Suc_eq_0_disj by auto

lemma find_Some_upt:
  "find P [0..<n] = Some i \<Longrightarrow> i < n \<and> P i \<and> (\<forall>j<i. \<not> P j)"
  by (auto simp: find_Some_iff)

lemma find_None_upt: "find P [0..<n] = None \<Longrightarrow> i < n \<Longrightarrow> \<not> P i"
  by (auto simp: find_None_iff)

lemma strncmp_loop_first:
  "i < length xs \<Longrightarrow> i < length ys \<Longrightarrow> \<forall>j<i. xs ! j = ys ! j \<Longrightarrow> xs ! i \<noteq> ys ! i \<Longrightarrow>
   strncmp_loop xs ys = unit_diff (xs ! i) (ys ! i)"
proof (induction xs ys arbitrary: i rule: strncmp_loop.induct)
  case (1 x xs y ys)
  show ?case
  proof (cases i)
    case (Suc k)
    then show ?thesis
      using 1 by (auto simp: Let_def all_less_Suc_split)
  qed (use 1 in \<open>simp add: Let_def\<close>)
qed auto

lemma strncmp_loop_drop:
  "n \<le> length xs \<Longrightarrow> n \<le> length ys \<Longrightarrow> \<forall>j<n. xs ! j = ys ! j \<Longrightarrow> strncmp_loop xs ys = strncmp_loop (drop n xs) (drop n ys)"
proof (induction n arbitrary: xs ys)
  case (Suc n)
  obtain x xs' y ys' where "xs = x # xs'" "ys = y # ys'"
    using Suc.prems by (metis Suc_le_length_iff)
  then show ?case
    using Suc by (auto simp: Let_def all_less_Suc_split)
qed simp

text \<open>A block that is compared lane by lane continues like the loop.\<close>

lemma strncmp_block:
  assumes "n \<le> length lhs" "length lhs = length rhs"
  shows "strncmp_loop lhs rhs =
     (case find (\<lambda>i. lhs ! i \<noteq> rhs ! i) [0..<n] of
        Some idx \<Rightarrow> unit_diff (lhs ! idx) (rhs ! idx)
      | None \<Rightarrow> strncmp_loop (drop n lhs) (drop n rhs))"
proof (cases "find (\<lambda>i. lhs ! i \<noteq> rhs ! i) [0..<n]")
  case None
  then show ?thesis
    using find_None_upt [OF None] assms strncmp_loop_drop [of n lhs rhs] by auto
next
  case (Some i)
  then show ?thesis
    using find_Some_upt [OF Some] assms strncmp_loop_first [of i lhs rhs] by auto
qed

lemma unicode_strncmp_loop: "length lhs = length rhs \<Longrightarrow> unicode_strncmp lhs rhs = strncmp_loop lhs rhs"
proof (induction lhs rhs rule: unicode_strncmp.induct)
  case (1 lhs rhs)
  then show ?case
    using strncmp_block [of 8 lhs rhs]
    by (subst unicode_strncmp.simps) (auto split: option.splits)
qed

lemma strncmp_latin1_tail_loop: "length lhs = length rhs \<Longrightarrow> strncmp_latin1_tail lhs rhs = strncmp_loop lhs rhs"
  using strncmp_block [of 8 lhs rhs] by (simp add: strncmp_latin1_tail_def)

lemma unicode_strncmp_latin1_short:
  "length lhs = length rhs \<Longrightarrow> length lhs < 16 \<Longrightarrow> unicode_strncmp_latin1 lhs rhs = strncmp_loop lhs rhs"
  by (subst unicode_strncmp_latin1.simps) (simp add: strncmp_latin1_tail_loop)

lemma strncmp_loop_order:
  "unicode_strcmp strncmp_loop lhs rhs < 0 \<longleftrightarrow> units_less lhs rhs"
  "unicode_strcmp strncmp_loop lhs rhs = 0 \<longleftrightarrow> lhs = rhs"
proof -
  have "(unicode_strcmp strncmp_loop lhs rhs < 0 \<longleftrightarrow> units_less lhs rhs) \<and>
      (unicode_strcmp strncmp_loop lhs rhs = 0 \<longleftrightarrow> lhs = rhs)"
  proof (induction lhs rhs rule: units_less.induct)
    case (1 xs)
    then show ?case
      by (cases xs) (auto simp: unicode_strcmp_def lencmp_def)
  next
    case (2 y ys)
    then show ?case
      by (simp add: unicode_strcmp_def lencmp_def)
  next
    case (3 x xs y ys)
    show ?case
    proof (cases "x = y")
      case True
      have "unicode_strcmp strncmp_loop (x # xs) (y # ys) = unicode_strcmp strncmp_loop xs ys"
        using True by (simp add: unicode_strcmp_def lencmp_def Let_def)
      then show ?thesis
        using 3 True by simp
    next
      case False
      then show ?thesis
        by (simp add: unicode_strcmp_def Let_def)
    qed
  qed
  then show "unicode_strcmp strncmp_loop lhs rhs < 0 \<longleftrightarrow> units_less lhs rhs"
    "unicode_strcmp strncmp_loop lhs rhs = 0 \<longleftrightarrow> lhs = rhs"
    by simp_all
qed

lemma units_less_linear: "units_less xs ys \<or> xs = ys \<or> units_less ys xs"
  by (induction xs ys rule: units_less.induct) (auto, (metis neq_Nil_conv units_less.simps(2))+)

lemma units_less_irrefl [simp]: "\<not> units_less xs xs"
  by (induction xs) auto

lemma units_less_asym: "units_less xs ys \<Longrightarrow> \<not> units_less ys xs"
  by (induction xs ys rule: units_less.induct) (auto split: if_splits)

lemma units_less_trans: "units_less xs ys \<Longrightarrow> units_less ys zs \<Longrightarrow> units_less xs zs"
proof (induction xs ys arbitrary: zs rule: units_less.induct)
  case (2 y ys)
  then show ?case
    by (cases zs) auto
next
  case (3 x xs y ys)
  then show ?case
    by (cases zs) (auto split: if_splits)
qed simp

text \<open>The operators of two UTF-16 texts.\<close>

lemma string_operators:
  "string_equal unicode_strncmp lhs rhs \<longleftrightarrow> lhs = rhs"
  "string_less unicode_strncmp lhs rhs \<longleftrightarrow> units_less lhs rhs"
  "string_greater unicode_strncmp lhs rhs \<longleftrightarrow> units_less rhs lhs"
proof -
  have eq: "unicode_strcmp unicode_strncmp lhs rhs = unicode_strcmp strncmp_loop lhs rhs"
    by (simp add: unicode_strcmp_def unicode_strncmp_loop Let_def)
  show "string_equal unicode_strncmp lhs rhs \<longleftrightarrow> lhs = rhs"
    using strncmp_loop_order(2) [of lhs rhs] by (auto simp: string_equal_def eq)
  show "string_less unicode_strncmp lhs rhs \<longleftrightarrow> units_less lhs rhs"
    by (simp add: string_less_def eq strncmp_loop_order)
  have "unicode_strcmp strncmp_loop lhs rhs > 0 \<longleftrightarrow> \<not> units_less lhs rhs \<and> lhs \<noteq> rhs"
    using strncmp_loop_order [of lhs rhs] by linarith
  then show "string_greater unicode_strncmp lhs rhs \<longleftrightarrow> units_less rhs lhs"
    using units_less_linear [of lhs rhs] units_less_asym by (auto simp: string_greater_def eq)
qed

end
