(* ===== verification/Json_Layout.thy ===== *)
theory Json_Layout
  imports Utf_Codecs String_Compare Byte_Arrays
begin

text \<open>
  The binary format of a JSON document: the little-endian integers and bit fields of
  \<open>global/Endian.h\<close> and \<open>EndianPrivate.h\<close>, and the structures of \<open>JsonPrivate.h\<close> that lie in one block of
  memory.

  The block is a list of bytes and a pointer into it a position.  A read past the end of the block, which the
  theorems exclude, yields null bytes.
\<close>

unbundle bit_operations_syntax

section \<open>Integers in memory\<close>

definition get8 :: "byte list \<Rightarrow> nat \<Rightarrow> byte" where
  "get8 m i = (if i < length m then m ! i else 0)"

definition get16 :: "byte list \<Rightarrow> nat \<Rightarrow> u16" where
  "get16 m i = unit_of (get8 m (i + 1)) (get8 m i)"

definition get32 :: "byte list \<Rightarrow> nat \<Rightarrow> u32" where
  "get32 m i = le_word [get8 m i, get8 m (i + 1), get8 m (i + 2), get8 m (i + 3)]"

definition get64 :: "byte list \<Rightarrow> nat \<Rightarrow> 64 word" where
  "get64 m i = ucast (get32 m i) OR push_bit 32 (ucast (get32 m (i + 4)))"

definition put16 :: "byte list \<Rightarrow> nat \<Rightarrow> u16 \<Rightarrow> byte list" where
  "put16 m i w = mem_write m i (unit_bytes Little_Endianness w)"

definition put32 :: "byte list \<Rightarrow> nat \<Rightarrow> u32 \<Rightarrow> byte list" where
  "put32 m i w = mem_write m i (le_bytes w)"

definition put64 :: "byte list \<Rightarrow> nat \<Rightarrow> 64 word \<Rightarrow> byte list" where
  "put64 m i w = mem_write m i (le_bytes (ucast w) @ le_bytes (ucast (drop_bit 32 w)))"

text \<open>\<open>SpecialIntegerBitfield\<close>: the field of \<open>width\<close> bits from bit \<open>pos\<close> on.\<close>

definition bitfield_mask :: "nat \<Rightarrow> nat \<Rightarrow> u32" where
  "bitfield_mask pos width = push_bit pos (push_bit width 1 - 1)"

definition bitfield_set :: "nat \<Rightarrow> nat \<Rightarrow> u32 \<Rightarrow> u32 \<Rightarrow> u32" where
  "bitfield_set pos width t val =
     (val AND NOT (bitfield_mask pos width)) OR (push_bit pos t AND bitfield_mask pos width)"

definition bitfield_get :: "nat \<Rightarrow> nat \<Rightarrow> u32 \<Rightarrow> u32" where
  "bitfield_get pos width val = drop_bit pos (val AND bitfield_mask pos width)"

definition signed_bitfield_get :: "nat \<Rightarrow> nat \<Rightarrow> u32 \<Rightarrow> int" where
  "signed_bitfield_get pos width val = sint (signed_drop_bit (32 - width) (push_bit (32 - width - pos) val))"

section \<open>Values\<close>

text \<open>The types of a value, \<open>JsonValue::Type\<close>, as stored in three bits.\<close>

abbreviation (input) type_null :: u32 where "type_null \<equiv> 0"
abbreviation (input) type_bool :: u32 where "type_bool \<equiv> 1"
abbreviation (input) type_double :: u32 where "type_double \<equiv> 2"
abbreviation (input) type_string :: u32 where "type_string \<equiv> 3"
abbreviation (input) type_array :: u32 where "type_array \<equiv> 4"
abbreviation (input) type_object :: u32 where "type_object \<equiv> 5"

text \<open>The bit fields of \<open>LocalValue\<close>.\<close>

definition value_type :: "u32 \<Rightarrow> u32" where "value_type v = bitfield_get 0 3 v"
definition value_latin_or_int :: "u32 \<Rightarrow> bool" where "value_latin_or_int v \<longleftrightarrow> bitfield_get 3 1 v \<noteq> 0"
definition value_latin_key :: "u32 \<Rightarrow> bool" where "value_latin_key v \<longleftrightarrow> bitfield_get 4 1 v \<noteq> 0"
definition value_value :: "u32 \<Rightarrow> u32" where "value_value v = bitfield_get 5 27 v"
definition value_int :: "u32 \<Rightarrow> int" where "value_int v = signed_bitfield_get 5 27 v"

definition set_type :: "u32 \<Rightarrow> u32 \<Rightarrow> u32" where "set_type t v = bitfield_set 0 3 t v"
definition set_latin_or_int :: "bool \<Rightarrow> u32 \<Rightarrow> u32" where "set_latin_or_int b v = bitfield_set 3 1 (of_bool b) v"
definition set_latin_key :: "bool \<Rightarrow> u32 \<Rightarrow> u32" where "set_latin_key b v = bitfield_set 4 1 (of_bool b) v"
definition set_value :: "nat \<Rightarrow> u32 \<Rightarrow> u32" where "set_value n v = bitfield_set 5 27 (of_nat n) v"
definition set_int :: "int \<Rightarrow> u32 \<Rightarrow> u32" where "set_int n v = bitfield_set 5 27 (of_int n) v"

definition max_size :: int where "max_size = 2 ^ 27 - 1"

section \<open>Objects and arrays\<close>

text \<open>The members of \<open>Base\<close>; \<open>b\<close> is the position of the structure.\<close>

definition base_size :: "byte list \<Rightarrow> nat \<Rightarrow> nat" where
  "base_size m b = unat (get32 m b)"

definition base_is_object :: "byte list \<Rightarrow> nat \<Rightarrow> bool" where
  "base_is_object m b \<longleftrightarrow> bitfield_get 0 1 (get32 m (b + 4)) \<noteq> 0"

definition base_length :: "byte list \<Rightarrow> nat \<Rightarrow> nat" where
  "base_length m b = unat (bitfield_get 1 31 (get32 m (b + 4)))"

definition base_table_offset :: "byte list \<Rightarrow> nat \<Rightarrow> nat" where
  "base_table_offset m b = unat (get32 m (b + 8))"

definition put_base :: "byte list \<Rightarrow> nat \<Rightarrow> nat \<Rightarrow> nat \<Rightarrow> bool \<Rightarrow> nat \<Rightarrow> byte list" where
  "put_base m b table_offset byte_size is_object len =
     (let m = put32 m (b + 8) (of_nat table_offset);
          m = put32 m b (of_nat byte_size);
          m = put32 m (b + 4) (bitfield_set 0 1 (of_bool is_object) (get32 m (b + 4)))
      in put32 m (b + 4) (bitfield_set 1 31 (of_nat len) (get32 m (b + 4))))"

text \<open>\<open>LocalArray::at\<close> and the position of \<open>LocalObject::entryAt\<close>.\<close>

definition array_at :: "byte list \<Rightarrow> nat \<Rightarrow> nat \<Rightarrow> u32" where
  "array_at m b i = get32 m (b + base_table_offset m b + 4 * i)"

definition entry_at :: "byte list \<Rightarrow> nat \<Rightarrow> nat \<Rightarrow> nat" where
  "entry_at m b i = b + unat (get32 m (b + base_table_offset m b + 4 * i))"

section \<open>Strings\<close>

definition aligned_size :: "nat \<Rightarrow> nat" where
  "aligned_size n = (n + 3) div 4 * 4"

text \<open>
  The \<open>m_length\<close> characters of a \<open>LocalLatin1String\<close> and of a \<open>LocalString\<close> at a position, as the comparisons of these
  structures read them.  The comparisons take the length as an \<open>int\<close>, which is the same below \<open>2 ^ 31\<close>; the strings of every
  document that is shorter than \<open>2 ^ 31\<close> bytes are, and the validation tests the length of a key before the key is compared.
\<close>

definition latin1_at :: "byte list \<Rightarrow> nat \<Rightarrow> byte list" where
  "latin1_at m p = map (\<lambda>k. get8 m (p + 2 + k)) [0..<unat (get16 m p)]"

definition utf16_at :: "byte list \<Rightarrow> nat \<Rightarrow> u16 list" where
  "utf16_at m p = map (\<lambda>k. get16 m (p + 4 + 2 * k)) [0..<unat (get32 m p)]"

definition string_at :: "byte list \<Rightarrow> bool \<Rightarrow> nat \<Rightarrow> u16 list" where
  "string_at m latin1 p = (if latin1 then map ucast (latin1_at m p) else utf16_at m p)"

text \<open>
  The \<open>String\<close> that \<open>toString\<close> makes of them.  \<open>String(const Character *, int)\<close> gets the length as an \<open>int\<close>: for a negative one
  the units are counted up to the first null unit; the allocation for a size that does not fit in an \<open>int\<close> fails, which
  throws; for the largest \<open>int\<close> itself \<open>size + 1\<close> overflows.  A read that leaves the block is an error of the model.
\<close>

datatype string_error = Bad_Alloc | Int_Overflow | Out_Of_Block

fun units_before_null :: "u16 list \<Rightarrow> u16 list option" where
  "units_before_null [] = None"
| "units_before_null (u # us) = (if u = 0 then Some [] else map_option (Cons u) (units_before_null us))"

definition string_of_characters :: "byte list \<Rightarrow> nat \<Rightarrow> int \<Rightarrow> string_error + u16 list" where
  "string_of_characters m p sz =
     (let units = (\<lambda>n. map (\<lambda>k. get16 m (p + 2 * k)) [0..<n])
      in case (if sz < 0 then map_option length (units_before_null (units ((length m - p) div 2))) else Some (nat sz)) of
           None \<Rightarrow> Inl Out_Of_Block
         | Some n \<Rightarrow> if n = 0 then Inr []
                     else if n + 1 \<ge> 2 ^ 31 then Inl Int_Overflow
                     else if calculate_block_size (n + 1) 2 array_data_header = size_max then Inl Bad_Alloc
                     else if p + 2 * n > length m then Inl Out_Of_Block
                     else Inr (units n))"

definition local_to_string :: "byte list \<Rightarrow> bool \<Rightarrow> nat \<Rightarrow> string_error + u16 list" where
  "local_to_string m latin1 p =
     (if latin1 then Inr (map ucast (latin1_at m p)) else string_of_characters m (p + 4) (sint (get32 m p)))"

text \<open>
  \<open>operator<\<close> of the two kinds of keys, with the loops of \<open>units_less\<close>, at positions \<open>p\<close> and \<open>q\<close>: the mixed versions look at the first unit of
  the right hand side and return \<open>false\<close> when it is null.
\<close>

definition local_less :: "byte list \<Rightarrow> bool \<Rightarrow> nat \<Rightarrow> bool \<Rightarrow> nat \<Rightarrow> bool" where
  "local_less m latin_p p latin_q q =
     (if latin_p \<and> \<not> latin_q then
        if get16 m (q + 4) = 0 then False else units_less (string_at m latin_p p) (string_at m latin_q q)
      else if \<not> latin_p \<and> latin_q then
        if get8 m (q + 2) = 0 then False else units_less (string_at m latin_p p) (string_at m latin_q q)
      else units_less (string_at m latin_p p) (string_at m latin_q q))"

definition local_equal :: "byte list \<Rightarrow> bool \<Rightarrow> nat \<Rightarrow> bool \<Rightarrow> nat \<Rightarrow> bool" where
  "local_equal m latin_p p latin_q q \<longleftrightarrow> string_at m latin_p p = string_at m latin_q q"

text \<open>\<open>LocalEntry\<close>: the value, then the key.\<close>

definition entry_value :: "byte list \<Rightarrow> nat \<Rightarrow> u32" where "entry_value m e = get32 m e"
definition entry_latin :: "byte list \<Rightarrow> nat \<Rightarrow> bool" where "entry_latin m e = value_latin_key (entry_value m e)"
definition entry_key :: "byte list \<Rightarrow> nat \<Rightarrow> u16 list" where
  "entry_key m e = string_at m (entry_latin m e) (e + 4)"

definition entry_equal :: "byte list \<Rightarrow> nat \<Rightarrow> nat \<Rightarrow> bool" where
  "entry_equal m e f = local_equal m (entry_latin m e) (e + 4) (entry_latin m f) (f + 4)"

definition entry_ge :: "byte list \<Rightarrow> nat \<Rightarrow> nat \<Rightarrow> bool" where
  "entry_ge m e f \<longleftrightarrow> \<not> local_less m (entry_latin m e) (e + 4) (entry_latin m f) (f + 4)"

text \<open>The binary search of \<open>ParsedObject::insert\<close> and \<open>LocalObject::indexOf\<close>; \<open>ge\<close> compares an entry with the key.\<close>

function lower_bound :: "(nat \<Rightarrow> bool) \<Rightarrow> nat \<Rightarrow> nat \<Rightarrow> nat" where
  "lower_bound ge low n =
     (if n = 0 then low
      else let half = n div 2; middle = low + half
           in if ge middle then lower_bound ge low half else lower_bound ge (middle + 1) (n - (half + 1)))"
  by pat_completeness auto
termination by (relation "measure (\<lambda>(ge, low, n). n)") auto

declare lower_bound.simps [simp del]

end
