(* ===== verification/Json_Parser.thy ===== *)
theory Json_Parser
  imports Json_Layout Number_Text
begin

text \<open>
  The JSON parser, \<open>modules/base/utils/json/JsonParser.cpp\<close> and \<open>JsonParserPrivate.h\<close>: it reads UTF-8 text and
  writes the binary document of \<open>Json_Layout\<close>.

  \<open>p_json\<close> is the text from \<open>m_json\<close> to \<open>m_end\<close>, \<open>p_data\<close> the whole allocated block, so that \<open>m_dataLength\<close> is
  its length.  A parse error carries the distance from \<open>m_json\<close> to \<open>m_end\<close>, which is negative when \<open>m_json\<close>
  has passed the end.  \<open>env_realloc\<close> says which requests for memory (\<open>malloc\<close>, \<open>realloc\<close>) succeed, by their size;
  \<open>env_junk\<close> is the content of new memory and \<open>env_to_double\<close> is \<open>ByteArray::toDouble\<close>, whose conversion is third-party
  code.  Allocations whose failure throws an exception (\<open>std::vector\<close>, \<open>new\<close>, the bytes of a number) succeed.
\<close>

unbundle bit_operations_syntax

datatype parse_error =
    Unterminated_Object | Missing_Name_Separator | Unterminated_Array | Missing_Value_Separator | Illegal_Value
  | Termination_By_Number | Illegal_Number | Illegal_Escape_Sequence | Illegal_UTF8_String
  | Unterminated_String | Missing_Object | Deep_Nesting | Document_Too_Large | Garbage_At_End

record parser_env =
  env_junk :: memory
  env_realloc :: "nat \<Rightarrow> bool"
  env_to_double :: "byte list \<Rightarrow> 64 word option"

record parser =
  p_json :: "byte list"
  p_data :: "byte list"
  p_current :: nat
  p_nesting :: nat

text \<open>
  The outcome of a function of the parser: \<open>Undefined\<close> when the computation of a size overflows the type \<open>int\<close>, and
  \<open>Out_Of_Fuel\<close> when the recursion was cut off.
\<close>

datatype ('a, 's) outcome = Done 'a 's | Failed parse_error int | Undefined | Out_Of_Fuel

definition and_then :: "('a, 's) outcome \<Rightarrow> ('a \<Rightarrow> 's \<Rightarrow> ('b, 's) outcome) \<Rightarrow> ('b, 's) outcome" where
  "and_then r f = (case r of Done a s \<Rightarrow> f a s | Failed e n \<Rightarrow> Failed e n
     | Undefined \<Rightarrow> Undefined | Out_Of_Fuel \<Rightarrow> Out_Of_Fuel)"

definition nesting_limit :: nat where "nesting_limit = 1024"

section \<open>Tokens\<close>

definition json_space :: "byte \<Rightarrow> bool" where
  "json_space c \<longleftrightarrow> c = 0x20 \<or> c = 0x09 \<or> c = 0x0a \<or> c = 0x0d"

definition eat_bom :: "byte list \<Rightarrow> byte list" where
  "eat_bom json = (if length json > 3 \<and> take 3 json = utf8_bom then drop 3 json else json)"

definition eat_space :: "byte list \<Rightarrow> byte list" where
  "eat_space json = dropWhile json_space json"

definition token_byte :: "byte \<Rightarrow> bool" where
  "token_byte c \<longleftrightarrow> c = 0x5b \<or> c = 0x7b \<or> c = 0x3a \<or> c = 0x2c \<or> c = 0x5d \<or> c = 0x7d \<or> c = 0x22"

definition next_token :: "byte list \<Rightarrow> byte \<times> byte list" where
  "next_token json =
     (case eat_space json of
        [] \<Rightarrow> (0, [])
      | token # json \<Rightarrow> (if token_byte token then token else 0, json))"

section \<open>The output\<close>

definition fail :: "parse_error \<Rightarrow> parser \<Rightarrow> ('a, parser) outcome" where
  "fail e st = Failed e (int (length (p_json st)))"

text \<open>\<open>m_current + space\<close> and \<open>2 * m_dataLength + space\<close> are sums of type \<open>int\<close>.\<close>

definition int_max :: nat where "int_max = 2147483647"

definition reserve_space :: "parser_env \<Rightarrow> nat \<Rightarrow> parser \<Rightarrow> (nat, parser) outcome" where
  "reserve_space env space st =
     (if p_current st + space > int_max then Undefined
      else if p_current st + space \<ge> length (p_data st)
      then let data_length = 2 * length (p_data st) + space
           in if data_length > int_max then Undefined
              else if env_realloc env data_length
              then Done (p_current st) (st\<lparr>p_data := set_length (env_junk env) (p_data st) data_length,
                                           p_current := p_current st + space\<rparr>)
              else fail Document_Too_Large st
      else Done (p_current st) (st\<lparr>p_current := p_current st + space\<rparr>))"

section \<open>Strings\<close>

definition add_hex_digit :: "byte \<Rightarrow> u32 \<Rightarrow> u32 option" where
  "add_hex_digit digit result =
     (let result = push_bit 4 result
      in if 48 \<le> digit \<and> digit \<le> 57 then Some (result OR (ucast digit - 48))
         else if 97 \<le> digit \<and> digit \<le> 102 then Some (result OR (ucast digit - 97 + 10))
         else if 65 \<le> digit \<and> digit \<le> 70 then Some (result OR (ucast digit - 65 + 10))
         else None)"

fun hex_digits :: "nat \<Rightarrow> byte list \<Rightarrow> u32 \<Rightarrow> byte list + u32 \<times> byte list" where
  "hex_digits 0 json ch = Inr (ch, json)"
| "hex_digits (Suc n) [] ch = Inl []"
| "hex_digits (Suc n) (digit # json) ch =
     (case add_hex_digit digit ch of None \<Rightarrow> Inl (digit # json) | Some ch \<Rightarrow> hex_digits n json ch)"

text \<open>
  \<open>scan_escape_sequence\<close> from the backslash on: the character and the rest, or the rest at the error.  The
  escaped byte is a signed \<open>char\<close> that becomes an unsigned integer.
\<close>

definition scan_escape_sequence :: "byte list \<Rightarrow> byte list + u32 \<times> byte list" where
  "scan_escape_sequence json =
     (case tl json of
        [] \<Rightarrow> Inl []
      | c # json \<Rightarrow>
          let escaped = (signed_take_bit 7 (ucast c) :: u32)
          in if escaped = 0x22 then Inr (0x22, json)
             else if escaped = 0x5c then Inr (0x5c, json)
             else if escaped = 0x2f then Inr (0x2f, json)
             else if escaped = 0x62 then Inr (0x8, json)
             else if escaped = 0x66 then Inr (0xc, json)
             else if escaped = 0x6e then Inr (0xa, json)
             else if escaped = 0x72 then Inr (0xd, json)
             else if escaped = 0x74 then Inr (0x9, json)
             else if escaped = 0x75 then if length json < 4 then Inl json else hex_digits 4 json 0
             else Inr (escaped, json))"

text \<open>\<open>fromUtf8\<close> with an output of code points: the code point and the number of bytes consumed with the first one.\<close>

definition from_utf8_code_point :: "byte \<Rightarrow> byte list \<Rightarrow> utf_error + u32 \<times> nat" where
  "from_utf8_code_point b src =
     (if b < 0x80 then Inr (ucast b, 1)
      else case utf8_lead b of
             None \<Rightarrow> Inl Utf_Error
           | Some (charsNeeded, min_uc, uc) \<Rightarrow>
               if length src < charsNeeded - 1
               then if length src > 0 \<and> \<not> is_continuation_byte (src ! 0) then Inl Utf_Error
                    else if length src > 1 \<and> \<not> is_continuation_byte (src ! 1) then Inl Utf_Error
                    else Inl End_Of_String
               else case utf8_continue (charsNeeded - 1) uc src of
                      None \<Rightarrow> Inl Utf_Error
                    | Some uc \<Rightarrow>
                        if uc < min_uc then Inl Utf_Error
                        else if is_surrogate uc \<or> uc > 0x10ffff then Inl Utf_Error
                        else Inr (uc, charsNeeded))"

text \<open>\<open>scan_utf8_char\<close>; after an error \<open>m_json\<close> is back at the character.\<close>

definition scan_utf8_char :: "byte list \<Rightarrow> byte list + u32 \<times> byte list" where
  "scan_utf8_char json =
     (case from_utf8_code_point (hd json) (tl json) of
        Inl e \<Rightarrow> Inl json
      | Inr (ch, n) \<Rightarrow> Inr (ch, drop n json))"

text \<open>One character of a string, the branches that both loops of \<open>parseString\<close> share.\<close>

definition scan_char :: "byte list \<Rightarrow> parse_error \<times> byte list + u32 \<times> byte list" where
  "scan_char json =
     (if hd json = 0x5c
      then case scan_escape_sequence json of
             Inl json \<Rightarrow> Inl (Illegal_Escape_Sequence, json)
           | Inr r \<Rightarrow> Inr r
      else case scan_utf8_char json of
             Inl json \<Rightarrow> Inl (Illegal_UTF8_String, json)
           | Inr r \<Rightarrow> Inr r)"

lemma hex_digits_shorter: "hex_digits n json ch = Inr (c, rest) \<Longrightarrow> length json = length rest + n"
  by (induction n json ch rule: hex_digits.induct) (auto split: option.splits)

lemma from_utf8_code_point_pos: "from_utf8_code_point b src = Inr (ch, n) \<Longrightarrow> 0 < n"
  by (auto simp: from_utf8_code_point_def utf8_lead_def split: if_splits option.splits)

lemma scan_char_shorter:
  assumes "scan_char json = Inr (ch, rest)" "json \<noteq> []"
  shows "length rest < length json"
proof -
  obtain c cs where "json = c # cs"
    using assms(2) by (cases json) auto
  then show ?thesis
    using assms(1) from_utf8_code_point_pos [of c cs]
    by (auto simp: scan_char_def scan_escape_sequence_def scan_utf8_char_def Let_def dest!: hex_digits_shorter
        split: if_splits sum.splits list.splits prod.splits)
qed

lemma reserve_json: "reserve_space env space st = Done pos st' \<Longrightarrow> p_json st' = p_json st"
  by (auto simp: reserve_space_def fail_def Let_def split: if_splits)

text \<open>The first loop writes Latin-1; \<open>False\<close> when it bails out.  \<open>start\<close> is the length of the text at the start.\<close>

function latin1_loop :: "parser_env \<Rightarrow> nat \<Rightarrow> parser \<Rightarrow> (bool, parser) outcome" where
  "latin1_loop env start st =
     (if p_json st = [] \<or> hd (p_json st) = 0x22 then Done True st
      else case scan_char (p_json st) of
             Inl (e, json) \<Rightarrow> fail e (st\<lparr>p_json := json\<rparr>)
           | Inr (ch, json) \<Rightarrow>
               if ch > 0xff \<or> int start - int (length json) \<ge> 0x8000 then Done False (st\<lparr>p_json := json\<rparr>)
               else case reserve_space env 1 (st\<lparr>p_json := json\<rparr>) of
                      Failed e n \<Rightarrow> Failed e n
                    | Undefined \<Rightarrow> Undefined
                    | Out_Of_Fuel \<Rightarrow> Out_Of_Fuel
                    | Done pos st \<Rightarrow> latin1_loop env start (st\<lparr>p_data := (p_data st)[pos := ucast ch]\<rparr>))"
  by pat_completeness auto
termination
  by (relation "measure (\<lambda>(env, start, st). length (p_json st))")
    (auto dest!: reserve_json scan_char_shorter)

definition put_char :: "parser_env \<Rightarrow> u32 \<Rightarrow> parser \<Rightarrow> (unit, parser) outcome" where
  "put_char env ch st =
     (if requires_surrogates ch
      then and_then (reserve_space env 4 st) (\<lambda>pos st.
             Done () (st\<lparr>p_data := put16 (put16 (p_data st) pos (get_high_surrogate ch)) (pos + 2) (get_low_surrogate ch)\<rparr>))
      else and_then (reserve_space env 2 st) (\<lambda>pos st. Done () (st\<lparr>p_data := put16 (p_data st) pos (ucast ch)\<rparr>)))"

lemma put_char_json: "put_char env ch st = Done u st' \<Longrightarrow> p_json st' = p_json st"
  by (auto simp: put_char_def and_then_def dest!: reserve_json split: if_splits outcome.splits)

function utf16_loop :: "parser_env \<Rightarrow> parser \<Rightarrow> (unit, parser) outcome" where
  "utf16_loop env st =
     (if p_json st = [] \<or> hd (p_json st) = 0x22 then Done () st
      else case scan_char (p_json st) of
             Inl (e, json) \<Rightarrow> fail e (st\<lparr>p_json := json\<rparr>)
           | Inr (ch, json) \<Rightarrow>
               (case put_char env ch (st\<lparr>p_json := json\<rparr>) of
                  Failed e n \<Rightarrow> Failed e n
                | Undefined \<Rightarrow> Undefined
                | Out_Of_Fuel \<Rightarrow> Out_Of_Fuel
                | Done _ st \<Rightarrow> utf16_loop env st))"
  by pat_completeness auto
termination
  by (relation "measure (\<lambda>(env, st). length (p_json st))")
    (auto dest!: put_char_json scan_char_shorter)

declare latin1_loop.simps [simp del] utf16_loop.simps [simp del]

text \<open>The step over the closing quote, and the padding to a multiple of four bytes.\<close>

definition end_of_string :: "parser \<Rightarrow> (unit, parser) outcome" where
  "end_of_string st =
     (case p_json st of
        [] \<Rightarrow> Failed Unterminated_String (- 1)
      | c # json \<Rightarrow> if json = [] then Failed Unterminated_String 0 else Done () (st\<lparr>p_json := json\<rparr>))"

definition pad_string :: "parser_env \<Rightarrow> parser \<Rightarrow> (unit, parser) outcome" where
  "pad_string env st =
     and_then (reserve_space env (nat ((4 - int (p_current st)) mod 4)) st) (\<lambda>pos st.
       Done () (st\<lparr>p_data := mem_write (p_data st) pos (replicate (nat ((4 - int pos) mod 4)) 0)\<rparr>))"

definition parse_string :: "parser_env \<Rightarrow> parser \<Rightarrow> (bool, parser) outcome" where
  "parse_string env st =
     (let start = p_json st; out_start = p_current st
      in and_then (reserve_space env 2 st) (\<lambda>string_pos st.
         and_then (latin1_loop env (length start) st) (\<lambda>latin1 st.
         and_then (end_of_string st) (\<lambda>_ st.
         if latin1
         then let st = st\<lparr>p_data := put16 (p_data st) string_pos (of_nat (p_current st - out_start - 2))\<rparr>
              in and_then (pad_string env st) (\<lambda>_ st. Done True st)
         else and_then (utf16_loop env (st\<lparr>p_json := start, p_current := out_start + 4\<rparr>)) (\<lambda>_ st.
              and_then (end_of_string st) (\<lambda>_ st.
              let st = st\<lparr>p_data := put32 (p_data st) string_pos (of_nat ((p_current st - out_start - 4) div 2))\<rparr>
              in and_then (pad_string env st) (\<lambda>_ st. Done False st)))))))"

section \<open>Numbers\<close>

definition json_digit :: "byte \<Rightarrow> bool" where
  "json_digit c \<longleftrightarrow> 48 \<le> c \<and> c \<le> 57"

definition skip_byte :: "(byte \<Rightarrow> bool) \<Rightarrow> byte list \<Rightarrow> byte list" where
  "skip_byte p json = (if json \<noteq> [] \<and> p (hd json) then tl json else json)"

text \<open>The lexeme of a number: whether it is an integer, and the text after it.\<close>

definition skip_number :: "byte list \<Rightarrow> bool \<times> byte list" where
  "skip_number json =
     (let json = skip_byte (\<lambda>c. c = 45) json;
          json = (if json \<noteq> [] \<and> hd json = 48 then tl json else dropWhile json_digit json);
          (is_int, json) =
            (if json \<noteq> [] \<and> hd json = 46 then (False, dropWhile json_digit (tl json)) else (True, json))
      in if json \<noteq> [] \<and> (hd json = 101 \<or> hd json = 69)
         then (False, dropWhile json_digit (skip_byte (\<lambda>c. c = 45 \<or> c = 43) (tl json)))
         else (is_int, json))"

definition parse_double :: "parser_env \<Rightarrow> nat \<Rightarrow> u32 \<Rightarrow> byte list \<Rightarrow> parser \<Rightarrow> (u32, parser) outcome" where
  "parse_double env base_offset val number st =
     (case env_to_double env number of
        None \<Rightarrow> fail Illegal_Number st
      | Some d \<Rightarrow>
          and_then (reserve_space env 8 st) (\<lambda>pos st.
          let st = st\<lparr>p_data := put64 (p_data st) pos d\<rparr>
          in if int (p_current st) - int base_offset \<ge> max_size then fail Document_Too_Large st
             else Done (set_latin_or_int False (set_value (pos - base_offset) val)) st))"

definition parse_number :: "parser_env \<Rightarrow> nat \<Rightarrow> u32 \<Rightarrow> parser \<Rightarrow> (u32, parser) outcome" where
  "parse_number env base_offset val st =
     (let val = set_type type_double val;
          start = p_json st;
          (is_int, json) = skip_number start;
          st = st\<lparr>p_json := json\<rparr>
      in if json = [] then fail Termination_By_Number st
         else
           let number = take (length start - length json) start
           in case (if is_int then to_integral True 32 number 10 else None) of
                Some n \<Rightarrow>
                  if n < 2 ^ 25 \<and> n > - (2 ^ 25) then Done (set_latin_or_int True (set_int n val)) st
                  else parse_double env base_offset val number st
              | None \<Rightarrow> parse_double env base_offset val number st)"

section \<open>Values\<close>

text \<open>\<open>ParsedObject::insert\<close> on the offsets of the entries, relative to the object.\<close>

definition object_insert :: "byte list \<Rightarrow> nat \<Rightarrow> nat \<Rightarrow> nat list \<Rightarrow> nat list" where
  "object_insert m object_position offset offsets =
     (let entry = (\<lambda>i. object_position + offsets ! i);
          new_entry = object_position + offset;
          low = lower_bound (\<lambda>middle. entry_ge m (entry middle) new_entry) 0 (length offsets)
      in if low < length offsets \<and> entry_equal m (entry low) new_entry then offsets[low := offset]
         else offsets @ [offset])"

text \<open>The comparison of \<open>m_json\<close> with the rest of a literal, byte by byte.\<close>

fun literal :: "byte list \<Rightarrow> byte list \<Rightarrow> bool \<times> byte list" where
  "literal [] json = (True, json)"
| "literal (c # cs) [] = (False, [])"
| "literal (c # cs) (x # json) = (if x = c then literal cs json else (False, json))"

definition parse_literal :: "byte list \<Rightarrow> u32 \<Rightarrow> parser \<Rightarrow> (u32, parser) outcome" where
  "parse_literal cs val st =
     (if length (p_json st) < length cs + 1 then fail Illegal_Value st
      else let (ok, json) = literal cs (p_json st); st = st\<lparr>p_json := json\<rparr>
           in if ok then Done val st else fail Illegal_Value st)"

text \<open>The test of the offset of a string, an array or an object, before its data are written.\<close>

definition value_offset :: "nat \<Rightarrow> parser \<Rightarrow> (nat, parser) outcome" where
  "value_offset base_offset st =
     (if int (p_current st) - int base_offset \<ge> max_size then fail Document_Too_Large st
      else Done (p_current st - base_offset) st)"

definition enter :: "parser \<Rightarrow> (unit, parser) outcome" where
  "enter st =
     (let st = st\<lparr>p_nesting := p_nesting st + 1\<rparr>
      in if p_nesting st > nesting_limit then fail Deep_Nesting st else Done () st)"

text \<open>
  The table at the end of an array or an object, of the given words, and the header.  \<open>tableSize\<close> is an \<open>int\<close>: from \<open>2 ^ 29\<close>
  words on it becomes negative, and \<open>memcpy\<close> of so many bytes is undefined.
\<close>

definition write_table :: "parser_env \<Rightarrow> nat \<Rightarrow> bool \<Rightarrow> u32 list \<Rightarrow> parser \<Rightarrow> (unit, parser) outcome" where
  "write_table env offset is_object ws st =
     and_then (if ws \<noteq> []
               then if 4 * length ws > int_max then Undefined else and_then (reserve_space env (4 * length ws) st) (\<lambda>table st.
                      Done table (st\<lparr>p_data := mem_write (p_data st) table (concat (map le_bytes ws))\<rparr>))
               else Done offset st) (\<lambda>table st.
     Done () (st\<lparr>p_data := put_base (p_data st) offset (table - offset) (p_current st - offset) is_object (length ws),
                 p_nesting := p_nesting st - 1\<rparr>))"

text \<open>The key of a member and the separator after it; the entry is reserved first.\<close>

definition parse_key :: "parser_env \<Rightarrow> parser \<Rightarrow> (nat \<times> bool, parser) outcome" where
  "parse_key env st =
     and_then (reserve_space env 4 st) (\<lambda>entry_offset st.
     and_then (parse_string env st) (\<lambda>latin1 st.
     let (token, json) = next_token (p_json st); st = st\<lparr>p_json := json\<rparr>
     in if token \<noteq> 0x3a then fail Missing_Name_Separator st
        else let st = st\<lparr>p_json := eat_space json\<rparr>
             in if p_json st = [] then fail Unterminated_Object st else Done (entry_offset, latin1) st))"

text \<open>The separator after a value of an array: whether another value follows.\<close>

definition array_separator :: "parser \<Rightarrow> (bool, parser) outcome" where
  "array_separator st =
     (let (token, json) = next_token (p_json st); st = st\<lparr>p_json := json\<rparr>
      in if token = 0x5d then Done False st
         else if token \<noteq> 0x2c
         then let st = st\<lparr>p_json := eat_space json\<rparr>
              in if p_json st = [] then fail Unterminated_Array st else fail Missing_Value_Separator st
         else Done True st)"

text \<open>\<open>ValueArray\<close>: the values and \<open>m_alloc\<close>; a value has four bytes.\<close>

record value_array =
  va_values :: "u32 list"
  va_alloc :: nat

definition new_values :: value_array where
  "new_values = \<lparr>va_values = [], va_alloc = 128\<rparr>"

definition append_value :: "parser_env \<Rightarrow> u32 \<Rightarrow> value_array \<Rightarrow> parser \<Rightarrow> (value_array, parser) outcome" where
  "append_value env v values st =
     (let values' = values\<lparr>va_values := va_values values @ [v]\<rparr>; alloc = 2 * va_alloc values
      in if va_alloc values = length (va_values values)
         then if alloc > int_max then Undefined
              else if env_realloc env (4 * alloc) then Done (values'\<lparr>va_alloc := alloc\<rparr>) st
              else fail Document_Too_Large st
         else Done values' st)"

text \<open>
  The loops of \<open>parseArray\<close> and \<open>parseObject\<close> and these functions themselves have the parser of a value as the
  parameter \<open>pv\<close>, with the base offset.  An iteration consumes a byte, so one more than the length of the text is enough
  fuel for a loop.
\<close>

type_synonym value_parser = "nat \<Rightarrow> parser \<Rightarrow> (u32, parser) outcome"

fun parse_elements ::
  "parser_env \<Rightarrow> value_parser \<Rightarrow> nat \<Rightarrow> nat \<Rightarrow> value_array \<Rightarrow> parser \<Rightarrow> (u32 list, parser) outcome" where
  "parse_elements env pv 0 array_offset values st = Out_Of_Fuel"
| "parse_elements env pv (Suc fuel) array_offset values st =
     (let st = st\<lparr>p_json := eat_space (p_json st)\<rparr>
      in if p_json st = [] then fail Unterminated_Array st
         else and_then (pv array_offset st) (\<lambda>val st.
              and_then (append_value env val values st) (\<lambda>values st.
              and_then (array_separator st) (\<lambda>more st.
              if more then parse_elements env pv fuel array_offset values st
              else Done (va_values values) st))))"

definition parse_array :: "parser_env \<Rightarrow> value_parser \<Rightarrow> parser \<Rightarrow> (unit, parser) outcome" where
  "parse_array env pv st =
     and_then (enter st) (\<lambda>_ st.
     and_then (reserve_space env 12 st) (\<lambda>array_offset st.
     let st = st\<lparr>p_json := eat_space (p_json st)\<rparr>
     in if p_json st = [] then fail Unterminated_Array st
        else and_then (if hd (p_json st) = 0x5d then Done [] (st\<lparr>p_json := snd (next_token (p_json st))\<rparr>)
                       else parse_elements env pv (Suc (length (p_json st))) array_offset new_values st) (\<lambda>values st.
             write_table env array_offset False values st)))"

definition parse_member :: "parser_env \<Rightarrow> value_parser \<Rightarrow> nat \<Rightarrow> parser \<Rightarrow> (unit, parser) outcome" where
  "parse_member env pv base_offset st =
     and_then (parse_key env st) (\<lambda>(entry_offset, latin1) st.
     and_then (pv base_offset st) (\<lambda>val st.
     Done () (st\<lparr>p_data := put32 (p_data st) entry_offset (set_latin_key latin1 val)\<rparr>)))"

text \<open>The loop of \<open>parseObject\<close>, with the token it has read.\<close>

fun parse_members ::
  "parser_env \<Rightarrow> value_parser \<Rightarrow> nat \<Rightarrow> nat \<Rightarrow> nat list \<Rightarrow> byte \<Rightarrow> parser \<Rightarrow> (nat list, parser) outcome" where
  "parse_members env pv 0 object_offset offsets token st = Out_Of_Fuel"
| "parse_members env pv (Suc fuel) object_offset offsets token st =
     (if token \<noteq> 0x22
      then if token \<noteq> 0x7d then fail Unterminated_Object st else Done offsets st
      else
        let off = p_current st - object_offset
        in and_then (parse_member env pv object_offset st) (\<lambda>_ st.
           let offsets = object_insert (p_data st) object_offset off offsets;
               (token, json) = next_token (p_json st); st = st\<lparr>p_json := json\<rparr>
           in if token \<noteq> 0x2c
              then if token \<noteq> 0x7d then fail Unterminated_Object st else Done offsets st
              else let (token, json) = next_token json; st = st\<lparr>p_json := json\<rparr>
                   in if token = 0x7d then fail Missing_Object st
                      else parse_members env pv fuel object_offset offsets token st))"

definition parse_object :: "parser_env \<Rightarrow> value_parser \<Rightarrow> parser \<Rightarrow> (unit, parser) outcome" where
  "parse_object env pv st =
     and_then (enter st) (\<lambda>_ st.
     and_then (reserve_space env 12 st) (\<lambda>object_offset st.
     let (token, json) = next_token (p_json st)
     in and_then (parse_members env pv (Suc (length json)) object_offset [] token (st\<lparr>p_json := json\<rparr>)) (\<lambda>offsets st.
        write_table env object_offset True (map of_nat offsets) st)))"

text \<open>
  \<open>parseValue\<close>; its fuel bounds the depth of the recursion.  \<open>parse_container\<close> is a value that is an array or an object.
\<close>

definition parse_container ::
  "(parser \<Rightarrow> (unit, parser) outcome) \<Rightarrow> u32 \<Rightarrow> nat \<Rightarrow> parser \<Rightarrow> (u32, parser) outcome" where
  "parse_container p val base_offset st =
     and_then (value_offset base_offset st) (\<lambda>off st. and_then (p st) (\<lambda>_ st. Done (set_value off val) st))"

fun parse_value :: "parser_env \<Rightarrow> nat \<Rightarrow> nat \<Rightarrow> parser \<Rightarrow> (u32, parser) outcome" where
  "parse_value env 0 base_offset st = Out_Of_Fuel"
| "parse_value env (Suc fuel) base_offset st =
     (let val = 0; c = hd (p_json st); st' = st\<lparr>p_json := tl (p_json st)\<rparr>
      in if c = 0x6e then parse_literal [0x75, 0x6c, 0x6c] (set_type type_null val) st'
         else if c = 0x74 then parse_literal [0x72, 0x75, 0x65] (set_value 1 (set_type type_bool val)) st'
         else if c = 0x66 then parse_literal [0x61, 0x6c, 0x73, 0x65] (set_value 0 (set_type type_bool val)) st'
         else if c = 0x22
         then and_then (value_offset base_offset st') (\<lambda>off st.
              and_then (parse_string env st) (\<lambda>latin1 st.
              Done (set_latin_or_int latin1 (set_value off (set_type type_string val))) st))
         else if c = 0x5b
         then parse_container (parse_array env (parse_value env fuel)) (set_type type_array val) base_offset st'
         else if c = 0x7b
         then parse_container (parse_object env (parse_value env fuel)) (set_type type_object val) base_offset st'
         else if c = 0x2c then fail Illegal_Value st'
         else if c = 0x7d \<or> c = 0x5d then fail Missing_Object st'
         else parse_number env base_offset val st)"

section \<open>Documents\<close>

definition binary_format_tag :: u32 where
  "binary_format_tag = 0x70 OR push_bit 8 0x62 OR push_bit 16 0x6a OR push_bit 24 0x73"

text \<open>\<open>Parser::parse\<close> from the first \<open>malloc\<close> on.\<close>

definition json_run :: "parser_env \<Rightarrow> nat \<Rightarrow> nat \<Rightarrow> byte list \<Rightarrow> (unit, parser) outcome" where
  "json_run env fuel data_length text =
     (let data = map (env_junk env) [0..<data_length];
          data = put32 (put32 data 0 binary_format_tag) 4 1;
          (token, json) = next_token (eat_bom text);
          st = \<lparr>p_json = json, p_data = data, p_current = 8, p_nesting = 0\<rparr>
      in and_then (if token = 0x5b then parse_array env (parse_value env fuel) st
                   else if token = 0x7b then parse_object env (parse_value env fuel) st
                   else fail Illegal_Value st) (\<lambda>_ st.
         let st = st\<lparr>p_json := eat_space (p_json st)\<rparr>
         in if p_json st \<noteq> [] then fail Garbage_At_End st else Done () st))"

text \<open>
  \<open>Parser::parse\<close>: the block and the size of the document, or the error and its offset; \<open>None\<close> is a run that is undefined or
  was cut off.  The result of the first \<open>malloc\<close> is not checked.
\<close>

definition json_parse ::
  "parser_env \<Rightarrow> nat \<Rightarrow> byte list \<Rightarrow> ((parse_error \<times> int) + byte list \<times> nat) option" where
  "json_parse env fuel text =
     (let data_length = max (length text) 256
      in if data_length > int_max \<or> \<not> env_realloc env data_length then None
         else case json_run env fuel data_length text of
                Done _ st \<Rightarrow> Some (Inr (p_data st, p_current st))
              | Failed e remaining \<Rightarrow> Some (Inl (e, int (length text) - remaining))
              | Undefined \<Rightarrow> None
              | Out_Of_Fuel \<Rightarrow> None)"

end
