(* ===== verification/Json_Reader.thy ===== *)
theory Json_Reader
  imports Json_Parser
begin

text \<open>
  The specification of the JSON parser: a reader that turns a text into a tree, without a block of memory.  A key
  keeps whether it is stored as Latin-1, because the comparison of keys looks at it.  The reader fails where
  the parser fails, with the same distance to the end of the text, except for the sizes of documents.
\<close>

type_synonym json_key = "bool \<times> u16 list"

datatype json =
    Json_Null | Json_Bool bool | Json_Int int | Json_Double "64 word" | Json_String "u16 list"
  | Json_Array "json list" | Json_Object "(json_key \<times> json) list"

type_synonym 'a reading = "('a, byte list) outcome"

definition read_fail :: "parse_error \<Rightarrow> byte list \<Rightarrow> 'a reading" where
  "read_fail e json = Failed e (int (length json))"

section \<open>Strings and numbers\<close>

function scan_latin1 :: "nat \<Rightarrow> byte list \<Rightarrow> (bool \<times> byte list) reading" where
  "scan_latin1 start json =
     (if json = [] \<or> hd json = 0x22 then Done (True, []) json
      else case scan_char json of
             Inl (e, json) \<Rightarrow> read_fail e json
           | Inr (ch, json) \<Rightarrow>
               if ch > 0xff \<or> int start - int (length json) \<ge> 0x8000 then Done (False, []) json
               else and_then (scan_latin1 start json) (\<lambda>(latin1, bs). Done (latin1, ucast ch # bs)))"
  by pat_completeness auto
termination by (relation "measure (\<lambda>(start, json). length json)") (auto dest: scan_char_shorter)

definition char_units :: "u32 \<Rightarrow> u16 list" where
  "char_units ch = (if requires_surrogates ch then [get_high_surrogate ch, get_low_surrogate ch] else [ucast ch])"

function scan_utf16 :: "byte list \<Rightarrow> u16 list reading" where
  "scan_utf16 json =
     (if json = [] \<or> hd json = 0x22 then Done [] json
      else case scan_char json of
             Inl (e, json) \<Rightarrow> read_fail e json
           | Inr (ch, json) \<Rightarrow> and_then (scan_utf16 json) (\<lambda>us. Done (char_units ch @ us)))"
  by pat_completeness auto
termination by (relation "measure length") (auto dest: scan_char_shorter)

declare scan_latin1.simps [simp del] scan_utf16.simps [simp del]

definition read_quote :: "byte list \<Rightarrow> unit reading" where
  "read_quote json =
     (case json of
        [] \<Rightarrow> Failed Unterminated_String (- 1)
      | c # json \<Rightarrow> if json = [] then Failed Unterminated_String 0 else Done () json)"

definition read_string :: "byte list \<Rightarrow> json_key reading" where
  "read_string json =
     and_then (scan_latin1 (length json) json) (\<lambda>(latin1, bs) rest.
     and_then (read_quote rest) (\<lambda>_ rest.
     if latin1 then Done (True, map ucast bs) rest
     else and_then (scan_utf16 json) (\<lambda>us rest.
          and_then (read_quote rest) (\<lambda>_ rest. Done (False, us) rest))))"

definition read_number :: "(byte list \<Rightarrow> 64 word option) \<Rightarrow> byte list \<Rightarrow> json reading" where
  "read_number to_double json =
     (let (is_int, rest) = skip_number json
      in if rest = [] then read_fail Termination_By_Number rest
         else
           let number = take (length json - length rest) json;
               double = (case to_double number of
                           None \<Rightarrow> read_fail Illegal_Number rest
                         | Some d \<Rightarrow> Done (Json_Double d) rest)
           in case (if is_int then to_integral True 32 number 10 else None) of
                Some n \<Rightarrow> if n < 2 ^ 25 \<and> n > - (2 ^ 25) then Done (Json_Int n) rest else double
              | None \<Rightarrow> double)"

definition read_literal :: "byte list \<Rightarrow> json \<Rightarrow> byte list \<Rightarrow> json reading" where
  "read_literal cs t json =
     (if length json < length cs + 1 then read_fail Illegal_Value json
      else let (ok, json) = literal cs json in if ok then Done t json else read_fail Illegal_Value json)"

section \<open>Objects\<close>

text \<open>The comparison of the keys of the entries.\<close>

definition key_less :: "json_key \<Rightarrow> json_key \<Rightarrow> bool" where
  "key_less k l =
     (if fst k \<noteq> fst l \<and> (snd l = [] \<or> hd (snd l) = 0) then False else units_less (snd k) (snd l))"

definition insert_member :: "json_key \<times> json \<Rightarrow> (json_key \<times> json) list \<Rightarrow> (json_key \<times> json) list" where
  "insert_member kt ms =
     (let low = lower_bound (\<lambda>middle. \<not> key_less (fst (ms ! middle)) (fst kt)) 0 (length ms)
      in if low < length ms \<and> snd (fst (ms ! low)) = snd (fst kt) then ms[low := kt] else ms @ [kt])"

definition read_key :: "byte list \<Rightarrow> json_key reading" where
  "read_key json =
     and_then (read_string json) (\<lambda>key json.
     let (token, json) = next_token json
     in if token \<noteq> 0x3a then read_fail Missing_Name_Separator json
        else let json = eat_space json
             in if json = [] then read_fail Unterminated_Object json else Done key json)"

definition read_separator :: "byte list \<Rightarrow> bool reading" where
  "read_separator json =
     (let (token, json) = next_token json
      in if token = 0x5d then Done False json
         else if token \<noteq> 0x2c
         then let json = eat_space json
              in if json = [] then read_fail Unterminated_Array json else read_fail Missing_Value_Separator json
         else Done True json)"

section \<open>Values\<close>

type_synonym value_reader = "byte list \<Rightarrow> json reading"

fun read_elements :: "value_reader \<Rightarrow> nat \<Rightarrow> json list \<Rightarrow> byte list \<Rightarrow> json list reading" where
  "read_elements rv 0 ts json = Out_Of_Fuel"
| "read_elements rv (Suc fuel) ts json =
     (let json = eat_space json
      in if json = [] then read_fail Unterminated_Array json
         else and_then (rv json) (\<lambda>t json.
              and_then (read_separator json) (\<lambda>more json.
              if more then read_elements rv fuel (ts @ [t]) json else Done (ts @ [t]) json)))"

definition read_enter :: "nat \<Rightarrow> byte list \<Rightarrow> unit reading" where
  "read_enter nesting json = (if nesting + 1 > nesting_limit then read_fail Deep_Nesting json else Done () json)"

definition read_array :: "value_reader \<Rightarrow> nat \<Rightarrow> byte list \<Rightarrow> json list reading" where
  "read_array rv nesting json =
     and_then (read_enter nesting json) (\<lambda>_ json.
     let json = eat_space json
     in if json = [] then read_fail Unterminated_Array json
        else if hd json = 0x5d then Done [] (snd (next_token json))
        else read_elements rv (Suc (length json)) [] json)"

definition read_member :: "value_reader \<Rightarrow> byte list \<Rightarrow> (json_key \<times> json) reading" where
  "read_member rv json =
     and_then (read_key json) (\<lambda>key json. and_then (rv json) (\<lambda>t json. Done (key, t) json))"

fun read_members ::
  "value_reader \<Rightarrow> nat \<Rightarrow> (json_key \<times> json) list \<Rightarrow> byte \<Rightarrow> byte list \<Rightarrow> (json_key \<times> json) list reading" where
  "read_members rv 0 ms token json = Out_Of_Fuel"
| "read_members rv (Suc fuel) ms token json =
     (if token \<noteq> 0x22
      then if token \<noteq> 0x7d then read_fail Unterminated_Object json else Done ms json
      else and_then (read_member rv json) (\<lambda>kt json.
           let ms = insert_member kt ms; (token, json) = next_token json
           in if token \<noteq> 0x2c
              then if token \<noteq> 0x7d then read_fail Unterminated_Object json else Done ms json
              else let (token, json) = next_token json
                   in if token = 0x7d then read_fail Missing_Object json else read_members rv fuel ms token json))"

definition read_object :: "value_reader \<Rightarrow> nat \<Rightarrow> byte list \<Rightarrow> (json_key \<times> json) list reading" where
  "read_object rv nesting json =
     and_then (read_enter nesting json) (\<lambda>_ json.
     let (token, json) = next_token json in read_members rv (Suc (length json)) [] token json)"

fun read_value :: "(byte list \<Rightarrow> 64 word option) \<Rightarrow> nat \<Rightarrow> nat \<Rightarrow> byte list \<Rightarrow> json reading" where
  "read_value to_double 0 nesting json = Out_Of_Fuel"
| "read_value to_double (Suc fuel) nesting json =
     (let c = hd json; rest = tl json; rv = read_value to_double fuel (nesting + 1)
      in if c = 0x6e then read_literal [0x75, 0x6c, 0x6c] Json_Null rest
         else if c = 0x74 then read_literal [0x72, 0x75, 0x65] (Json_Bool True) rest
         else if c = 0x66 then read_literal [0x61, 0x6c, 0x73, 0x65] (Json_Bool False) rest
         else if c = 0x22 then and_then (read_string rest) (\<lambda>key json. Done (Json_String (snd key)) json)
         else if c = 0x5b then and_then (read_array rv nesting rest) (\<lambda>ts json. Done (Json_Array ts) json)
         else if c = 0x7b then and_then (read_object rv nesting rest) (\<lambda>ms json. Done (Json_Object ms) json)
         else if c = 0x2c then read_fail Illegal_Value rest
         else if c = 0x7d \<or> c = 0x5d then read_fail Missing_Object rest
         else read_number to_double json)"

definition json_read :: "(byte list \<Rightarrow> 64 word option) \<Rightarrow> nat \<Rightarrow> byte list \<Rightarrow> json reading" where
  "json_read to_double fuel text =
     (let (token, json) = next_token (eat_bom text); rv = read_value to_double fuel 1
      in and_then (if token = 0x5b then and_then (read_array rv 0 json) (\<lambda>ts. Done (Json_Array ts))
                   else if token = 0x7b then and_then (read_object rv 0 json) (\<lambda>ms. Done (Json_Object ms))
                   else read_fail Illegal_Value json) (\<lambda>t json.
         let json = eat_space json in if json \<noteq> [] then read_fail Garbage_At_End json else Done t json))"

section \<open>How a tree lies in memory\<close>

text \<open>
  A structure lies between the positions \<open>lo\<close> and \<open>hi\<close>.  The offset of a value is relative to the array or
  object \<open>base\<close> that contains it; what an array or an object contains lies between
  its header and its table.
\<close>

definition key_in :: "byte list \<Rightarrow> nat \<Rightarrow> nat \<Rightarrow> nat \<Rightarrow> json_key \<Rightarrow> bool" where
  "key_in m lo hi p key \<longleftrightarrow>
     lo \<le> p \<and> 4 dvd p \<and> string_at m (fst key) p = snd key \<and>
     (if fst key then p + 2 + length (snd key) \<le> hi \<and> p + 4 \<le> hi \<and> (snd key = [] \<longrightarrow> get8 m (p + 2) = 0)
      else p + 4 + 2 * length (snd key) \<le> hi \<and> snd key \<noteq> [])"

definition base_in :: "byte list \<Rightarrow> nat \<Rightarrow> nat \<Rightarrow> nat \<Rightarrow> bool \<Rightarrow> nat \<Rightarrow> bool" where
  "base_in m lo hi b is_object n \<longleftrightarrow>
     lo \<le> b \<and> b + base_size m b \<le> hi \<and> 12 \<le> base_size m b \<and> base_is_object m b = is_object \<and>
     base_length m b = n \<and> base_table_offset m b + 4 * n \<le> base_size m b \<and> (n > 0 \<longrightarrow> 12 \<le> base_table_offset m b) \<and>
     4 dvd b \<and> 4 dvd base_size m b \<and> 4 dvd base_table_offset m b"

text \<open>The value \<open>v\<close> is the tree; the values of an array from the index \<open>i\<close> on; the entries of an object.\<close>

fun value_in :: "byte list \<Rightarrow> nat \<Rightarrow> nat \<Rightarrow> nat \<Rightarrow> u32 \<Rightarrow> json \<Rightarrow> bool"
  and values_in :: "byte list \<Rightarrow> nat \<Rightarrow> nat \<Rightarrow> nat \<Rightarrow> json list \<Rightarrow> bool"
  and entries_in :: "byte list \<Rightarrow> nat \<Rightarrow> nat \<Rightarrow> nat \<Rightarrow> (json_key \<times> json) list \<Rightarrow> bool" where
  "value_in m lo hi base v Json_Null \<longleftrightarrow> value_type v = type_null"
| "value_in m lo hi base v (Json_Bool b) \<longleftrightarrow> value_type v = type_bool \<and> (value_value v \<noteq> 0) = b"
| "value_in m lo hi base v (Json_Int n) \<longleftrightarrow> value_type v = type_double \<and> value_latin_or_int v \<and> value_int v = n"
| "value_in m lo hi base v (Json_Double d) \<longleftrightarrow>
     value_type v = type_double \<and> \<not> value_latin_or_int v \<and>
     (let p = base + unat (value_value v) in lo \<le> p \<and> p + 8 \<le> hi \<and> get64 m p = d)"
| "value_in m lo hi base v (Json_String us) \<longleftrightarrow>
     value_type v = type_string \<and> key_in m lo hi (base + unat (value_value v)) (value_latin_or_int v, us)"
| "value_in m lo hi base v (Json_Array ts) \<longleftrightarrow>
     value_type v = type_array \<and>
     (let b = base + unat (value_value v) in base_in m lo hi b False (length ts) \<and> values_in m (b + base_table_offset m b) b 0 ts)"
| "value_in m lo hi base v (Json_Object ms) \<longleftrightarrow>
     value_type v = type_object \<and>
     (let b = base + unat (value_value v) in base_in m lo hi b True (length ms) \<and> entries_in m (b + base_table_offset m b) b 0 ms)"
| "values_in m hi b i [] \<longleftrightarrow> True"
| "values_in m hi b i (t # ts) \<longleftrightarrow> value_in m (b + 12) hi b (array_at m b i) t \<and> values_in m hi b (Suc i) ts"
| "entries_in m hi b i [] \<longleftrightarrow> True"
| "entries_in m hi b i ((key, t) # ms) \<longleftrightarrow>
     (let e = entry_at m b i
      in b + 12 \<le> e \<and> entry_latin m e = fst key \<and> key_in m (b + 12) hi (e + 4) key \<and>
         value_in m (b + 12) hi b (entry_value m e) t) \<and>
     entries_in m hi b (Suc i) ms"

text \<open>A document of \<open>n\<close> bytes: the header, and the root that is an array or an object.\<close>

definition document_in :: "byte list \<Rightarrow> nat \<Rightarrow> json \<Rightarrow> bool" where
  "document_in m n t \<longleftrightarrow>
     n \<le> length m \<and> get32 m 0 = binary_format_tag \<and> get32 m 4 = 1 \<and>
     (case t of
        Json_Array ts \<Rightarrow> base_in m 8 n 8 False (length ts) \<and> values_in m (8 + base_table_offset m 8) 8 0 ts
      | Json_Object ms \<Rightarrow> base_in m 8 n 8 True (length ms) \<and> entries_in m (8 + base_table_offset m 8) 8 0 ms
      | _ \<Rightarrow> False)"

end
