(* ===== verification/Json_Writer.thy ===== *)
theory Json_Writer
  imports Json_Reader
begin

text \<open>
  The output of JSON text, \<open>utils/json/JsonWriter.cpp\<close>: it walks through the binary document and writes UTF-8, compact or
  with line breaks and indentation.

  \<open>we_number\<close> is \<open>ByteArray::number\<close> of a double with the shortest precision, which is third-party code, and \<open>we_finite\<close> is
  \<open>std::isfinite\<close>.  The recursion has the depth of nested values as fuel; \<open>None\<close> when it is used up or a string cannot be
  made.  The text grows in memory without a bound; the theorems on it bound its length.
\<close>

unbundle bit_operations_syntax

record writer_env =
  we_number :: "int + 64 word \<Rightarrow> byte list"
  we_finite :: "64 word \<Rightarrow> bool"

section \<open>Strings\<close>

definition hexdig :: "byte \<Rightarrow> byte" where
  "hexdig u = (if u < 0xa then 48 + u else 97 + u - 0xa)"

text \<open>One character: its bytes and the text after it.\<close>

definition escape_char :: "u16 \<Rightarrow> u16 list \<Rightarrow> byte list \<times> u16 list" where
  "escape_char u src =
     (if u < 0x80
      then if u < 0x20 \<or> u = 0x22 \<or> u = 0x5c
           then (0x5c # (if u = 0x22 then [0x22]
                         else if u = 0x5c then [0x5c]
                         else if u = 0x8 then [98]
                         else if u = 0xc then [102]
                         else if u = 0xa then [110]
                         else if u = 0xd then [114]
                         else if u = 0x9 then [116]
                         else [117, 48, 48, hexdig (ucast (drop_bit 4 u)), hexdig (ucast (u AND 0xf))]), src)
           else ([ucast u], src)
      else case to_utf8 u src of
             Inr r \<Rightarrow> r
           | Inl e \<Rightarrow> ([63], src))"

lemma escape_char_shorter: "escape_char u src = (bs, rest) \<Longrightarrow> length rest \<le> length src"
  by (auto simp: escape_char_def dest: to_utf8_shorter split: if_splits sum.splits)

text \<open>
  The loop of \<open>escaped_string\<close>: \<open>sz\<close> is the size of the array, \<open>alloc\<close> the number of bytes of its block, which \<open>resize\<close> lets
  grow, and \<open>out\<close> what has been written.  First, whether every block could be asked for and every write has stayed in it.
\<close>

definition resize_twice :: "nat \<Rightarrow> nat \<Rightarrow> nat \<times> nat" where
  "resize_twice sz alloc = (sz * 2, if sz * 2 + 1 > alloc then block_capacity (sz * 2 + 1) True else alloc)"

function escape_loop :: "nat \<Rightarrow> nat \<Rightarrow> byte list \<Rightarrow> u16 list \<Rightarrow> bool \<times> byte list" where
  "escape_loop sz alloc out [] = (True, out)"
| "escape_loop sz alloc out (u # src) =
     (let (sz, alloc) = (if int (length out) \<ge> int sz - 6 then resize_twice sz alloc else (sz, alloc));
          (bs, src) = escape_char u src;
          (fits, result) = escape_loop sz alloc (out @ bs) src
      in (alloc < 2 ^ 31 \<and> length (out @ bs) \<le> alloc \<and> fits, result))"
  by pat_completeness auto
termination
  by (relation "measure (\<lambda>(sz, alloc, out, src). length src)") (auto dest!: escape_char_shorter [OF sym])

definition escaped_string :: "u16 list \<Rightarrow> bool \<times> byte list" where
  "escaped_string s = escape_loop (length s) (length s + 1) [] s"

definition escaped :: "u16 list \<Rightarrow> byte list" where
  "escaped s = snd (escaped_string s)"

section \<open>Values\<close>

abbreviation (input) spaces :: "nat \<Rightarrow> byte list" where
  "spaces indent \<equiv> replicate (4 * indent) 32"

text \<open>
  The loop of \<open>array_content_to_json\<close> and of \<open>object_content_to_json\<close> over the positions of the table; \<open>item\<close> writes an
  element or a member.
\<close>

fun content_loop :: "(nat \<Rightarrow> byte list option) \<Rightarrow> nat \<Rightarrow> bool \<Rightarrow> nat list \<Rightarrow> byte list option" where
  "content_loop item indent compact [] = Some []"
| "content_loop item indent compact (i # js) =
     (case item i of
        None \<Rightarrow> None
      | Some s \<Rightarrow>
          if js = [] then Some (spaces indent @ s @ (if compact then [] else [10]))
          else map_option (\<lambda>r. spaces indent @ s @ (if compact then [44] else [44, 10]) @ r)
                 (content_loop item indent compact js))"

type_synonym value_writer = "nat \<Rightarrow> u32 \<Rightarrow> nat \<Rightarrow> byte list option"

definition array_content_to_json :: "byte list \<Rightarrow> value_writer \<Rightarrow> nat \<Rightarrow> nat \<Rightarrow> bool \<Rightarrow> byte list option" where
  "array_content_to_json m wv b indent compact =
     content_loop (\<lambda>i. wv b (array_at m b i) indent) indent compact [0..<base_length m b]"

definition object_content_to_json :: "byte list \<Rightarrow> value_writer \<Rightarrow> nat \<Rightarrow> nat \<Rightarrow> bool \<Rightarrow> byte list option" where
  "object_content_to_json m wv b indent compact =
     content_loop (\<lambda>i.
       let e = entry_at m b i
       in case local_to_string m (entry_latin m e) (e + 4) of
            Inl _ \<Rightarrow> None
          | Inr key \<Rightarrow> map_option (\<lambda>s. [34] @ escaped key @ (if compact then [34, 58] else [34, 58, 32]) @ s)
              (wv b (entry_value m e) indent)) indent compact [0..<base_length m b]"

definition deeper :: "bool \<Rightarrow> nat \<Rightarrow> nat" where
  "deeper compact indent = indent + (if compact then 0 else 1)"

fun value_to_json :: "writer_env \<Rightarrow> byte list \<Rightarrow> bool \<Rightarrow> nat \<Rightarrow> nat \<Rightarrow> u32 \<Rightarrow> nat \<Rightarrow> byte list option" where
  "value_to_json env m compact 0 base v indent = None"
| "value_to_json env m compact (Suc fuel) base v indent =
     (let b = base + unat (value_value v); wv = value_to_json env m compact fuel
      in if value_type v = type_bool
         then Some (if value_value v \<noteq> 0 then [116, 114, 117, 101] else [102, 97, 108, 115, 101])
         else if value_type v = type_double
         then Some (if value_latin_or_int v then we_number env (Inl (value_int v))
                    else if we_finite env (get64 m b) then we_number env (Inr (get64 m b)) else [110, 117, 108, 108])
         else if value_type v = type_string
         then (case local_to_string m (value_latin_or_int v) b of
                 Inl _ \<Rightarrow> None | Inr us \<Rightarrow> Some ([34] @ escaped us @ [34]))
         else if value_type v = type_array
         then map_option (\<lambda>c. (if compact then [91] else [91, 10]) @ c @ spaces indent @ [93])
                (array_content_to_json m wv b (deeper compact indent) compact)
         else if value_type v = type_object
         then map_option (\<lambda>c. (if compact then [123] else [123, 10]) @ c @ spaces indent @ [125])
                (object_content_to_json m wv b (deeper compact indent) compact)
         else Some [110, 117, 108, 108])"

text \<open>\<open>Writer::arrayToJson\<close> and \<open>Writer::objectToJson\<close>, which append to \<open>json\<close>.\<close>

definition array_to_json :: "writer_env \<Rightarrow> byte list \<Rightarrow> nat \<Rightarrow> nat \<Rightarrow> byte list \<Rightarrow> nat \<Rightarrow> bool \<Rightarrow> byte list option" where
  "array_to_json env m fuel b json indent compact =
     map_option (\<lambda>c. json @ (if compact then [91] else [91, 10]) @ c @ spaces indent @ (if compact then [93] else [93, 10]))
       (array_content_to_json m (value_to_json env m compact fuel) b (deeper compact indent) compact)"

definition object_to_json :: "writer_env \<Rightarrow> byte list \<Rightarrow> nat \<Rightarrow> nat \<Rightarrow> byte list \<Rightarrow> nat \<Rightarrow> bool \<Rightarrow> byte list option" where
  "object_to_json env m fuel b json indent compact =
     map_option (\<lambda>c. json @ (if compact then [123] else [123, 10]) @ c @ spaces indent @ (if compact then [125] else [125, 10]))
       (object_content_to_json m (value_to_json env m compact fuel) b (deeper compact indent) compact)"

text \<open>\<open>JsonDocument::toJson\<close> of a document whose data are not null.\<close>

definition document_to_json :: "writer_env \<Rightarrow> byte list \<Rightarrow> nat \<Rightarrow> bool \<Rightarrow> byte list option" where
  "document_to_json env m fuel compact =
     (if base_is_object m 8 then object_to_json env m fuel 8 [] 0 compact else array_to_json env m fuel 8 [] 0 compact)"

section \<open>The text of a tree\<close>

fun content_text :: "nat \<Rightarrow> bool \<Rightarrow> byte list list \<Rightarrow> byte list" where
  "content_text indent compact [] = []"
| "content_text indent compact (s # ss) =
     (if ss = [] then spaces indent @ s @ (if compact then [] else [10])
      else spaces indent @ s @ (if compact then [44] else [44, 10]) @ content_text indent compact ss)"

fun json_text :: "writer_env \<Rightarrow> bool \<Rightarrow> nat \<Rightarrow> json \<Rightarrow> byte list" where
  "json_text env compact indent Json_Null = [110, 117, 108, 108]"
| "json_text env compact indent (Json_Bool b) = (if b then [116, 114, 117, 101] else [102, 97, 108, 115, 101])"
| "json_text env compact indent (Json_Int n) = we_number env (Inl n)"
| "json_text env compact indent (Json_Double d) =
     (if we_finite env d then we_number env (Inr d) else [110, 117, 108, 108])"
| "json_text env compact indent (Json_String us) = [34] @ escaped us @ [34]"
| "json_text env compact indent (Json_Array ts) =
     (if compact then [91] else [91, 10]) @
     content_text (deeper compact indent) compact (map (json_text env compact (deeper compact indent)) ts) @ spaces indent @ [93]"
| "json_text env compact indent (Json_Object ms) =
     (if compact then [123] else [123, 10]) @
     content_text (deeper compact indent) compact
       (map (\<lambda>(key, t). [34] @ escaped (snd key) @ (if compact then [34, 58] else [34, 58, 32]) @
                        json_text env compact (deeper compact indent) t) ms) @ spaces indent @ [125]"

fun json_depth :: "json \<Rightarrow> nat" where
  "json_depth (Json_Array ts) = Suc (Max (insert 0 (json_depth ` set ts)))"
| "json_depth (Json_Object ms) = Suc (Max (insert 0 ((\<lambda>kt. json_depth (snd kt)) ` set ms)))"
| "json_depth t = 0"

lemma content_loop_text:
  "(\<And>i. i < length ss \<Longrightarrow> item (k + i) = Some (ss ! i)) \<Longrightarrow>
   content_loop item indent compact [k..<k + length ss] = Some (content_text indent compact ss)"
proof (induction ss arbitrary: k)
  case (Cons s ss)
  have "item (Suc k + i) = Some (ss ! i)" if "i < length ss" for i
    using Cons.prems [of "Suc i"] that by simp
  then have "content_loop item indent compact [Suc k..<Suc k + length ss] = Some (content_text indent compact ss)"
    by (rule Cons.IH)
  moreover have "[k..<k + length (s # ss)] = k # [Suc k..<Suc k + length ss]"
    by (subst upt_conv_Cons) simp_all
  ultimately show ?case
    using Cons.prems [of 0] by (cases ss) auto
qed simp

end
