(* ===== verification/Json_Memory.thy ===== *)
theory Json_Memory
  imports Json_Reader Utf_Streams
begin

text \<open>
  Facts on the binary format: reading what was written, what a write leaves alone, the bit fields of a value,
  and that a structure in memory depends on its region only.
\<close>

unbundle bit_operations_syntax

named_theorems json_mem \<open>reading the block after a write\<close>

section \<open>Reads after writes\<close>

lemma get8_mem_write [json_mem]:
  "i + length ys \<le> length m \<Longrightarrow>
   get8 (mem_write m i ys) k = (if i \<le> k \<and> k < i + length ys then ys ! (k - i) else get8 m k)"
  by (auto simp: get8_def mem_write_def nth_append)

lemma get8_set_length [simp]: "i < length m \<Longrightarrow> length m \<le> n \<Longrightarrow> get8 (set_length junk m n) i = get8 m i"
  by (simp add: get8_def set_length_def nth_append)

lemma get8_update [json_mem]: "p < length m \<Longrightarrow> get8 (m[p := x]) k = (if k = p then x else get8 m k)"
  by (auto simp: get8_def nth_list_update)

lemma length_unit_bytes [simp]: "length (unit_bytes e w) = 2"
  by (simp add: unit_bytes_def)

lemma length_put [simp]:
  "p + 2 \<le> length m \<Longrightarrow> length (put16 m p h) = length m"
  "p + 4 \<le> length m \<Longrightarrow> length (put32 m p w) = length m"
  "p + 8 \<le> length m \<Longrightarrow> length (put64 m p d) = length m"
  by (simp_all add: put16_def put32_def put64_def)

lemma get8_put16: "p + 2 \<le> length m \<Longrightarrow>
   get8 (put16 m p w) k = (if p \<le> k \<and> k < p + 2 then unit_bytes Little_Endianness w ! (k - p) else get8 m k)"
  by (simp add: put16_def json_mem)

lemma get8_put32: "p + 4 \<le> length m \<Longrightarrow>
   get8 (put32 m p w) k = (if p \<le> k \<and> k < p + 4 then le_bytes w ! (k - p) else get8 m k)"
  by (simp add: put32_def json_mem)

lemma get8_put64: "p + 8 \<le> length m \<Longrightarrow>
   get8 (put64 m p w) k =
     (if p \<le> k \<and> k < p + 8 then (le_bytes (ucast w) @ le_bytes (ucast (drop_bit 32 w))) ! (k - p) else get8 m k)"
  by (simp add: put64_def json_mem)

lemma le_word_nth [simp]: "le_word [le_bytes w ! 0, le_bytes w ! Suc 0, le_bytes w ! 2, le_bytes w ! 3] = w"
  using le_word_bytes [of w] by (simp add: le_bytes_def)

lemma get16_put16 [simp]: "p + 2 \<le> length m \<Longrightarrow> get16 (put16 m p w) p = w"
  using unit_of_bytes [of w] by (simp add: get16_def get8_put16 unit_bytes_def)

lemma get32_put32 [simp]: "p + 4 \<le> length m \<Longrightarrow> get32 (put32 m p w) p = w"
  by (simp add: get32_def get8_put32)

lemma get32_put64_low: "p + 8 \<le> length m \<Longrightarrow> get32 (put64 m p d) p = ucast d"
  by (simp add: get32_def get8_put64 nth_append)

lemma get32_put64_high: "p + 8 \<le> length m \<Longrightarrow> get32 (put64 m p d) (p + 4) = ucast (drop_bit 32 d)"
  by (simp add: get32_def get8_put64 nth_append)

lemma join_words: "ucast (ucast d :: u32) OR push_bit 32 (ucast (ucast (drop_bit 32 d) :: u32)) = (d :: 64 word)"
  by (rule bit_word_eqI) (auto simp: bit_or_iff bit_push_bit_iff bit_ucast_iff bit_drop_bit_eq)

lemma get64_put64 [simp]: "p + 8 \<le> length m \<Longrightarrow> get64 (put64 m p d) p = d"
  by (simp add: get64_def get32_put64_low get32_put64_high join_words)

text \<open>Two blocks that agree on a region.\<close>

definition same_on :: "byte list \<Rightarrow> byte list \<Rightarrow> nat \<Rightarrow> nat \<Rightarrow> bool" where
  "same_on m m' lo hi \<longleftrightarrow> (\<forall>i. lo \<le> i \<and> i < hi \<longrightarrow> get8 m' i = get8 m i)"

lemma same_on_refl [simp]: "same_on m m lo hi"
  by (simp add: same_on_def)

lemma same_on_trans: "same_on m m' lo hi \<Longrightarrow> same_on m' m'' lo hi \<Longrightarrow> same_on m m'' lo hi"
  by (simp add: same_on_def)

lemma same_on_mono: "same_on m m' lo hi \<Longrightarrow> lo \<le> lo' \<Longrightarrow> hi' \<le> hi \<Longrightarrow> same_on m m' lo' hi'"
  by (simp add: same_on_def)

lemma same_on_write: "i + length ys \<le> length m \<Longrightarrow> i + length ys \<le> lo \<or> hi \<le> i \<Longrightarrow> same_on m (mem_write m i ys) lo hi"
  by (auto simp: same_on_def json_mem)

lemma same_on_put:
  "p + 2 \<le> length m \<Longrightarrow> p + 2 \<le> lo \<or> hi \<le> p \<Longrightarrow> same_on m (put16 m p h) lo hi"
  "p + 4 \<le> length m \<Longrightarrow> p + 4 \<le> lo \<or> hi \<le> p \<Longrightarrow> same_on m (put32 m p w) lo hi"
  "p + 8 \<le> length m \<Longrightarrow> p + 8 \<le> lo \<or> hi \<le> p \<Longrightarrow> same_on m (put64 m p d) lo hi"
  by (auto simp: same_on_def get8_put16 get8_put32 get8_put64)

lemma same_on_update: "p < length m \<Longrightarrow> p < lo \<or> hi \<le> p \<Longrightarrow> same_on m (m[p := x]) lo hi"
  by (auto simp: same_on_def json_mem)

lemma same_on_set_length: "hi \<le> length m \<Longrightarrow> length m \<le> n \<Longrightarrow> same_on m (set_length junk m n) lo hi"
  by (simp add: same_on_def)

lemma same_on_get:
  "same_on m m' lo hi \<Longrightarrow> lo \<le> p \<Longrightarrow> p < hi \<Longrightarrow> get8 m' p = get8 m p"
  "same_on m m' lo hi \<Longrightarrow> lo \<le> p \<Longrightarrow> p + 2 \<le> hi \<Longrightarrow> get16 m' p = get16 m p"
  "same_on m m' lo hi \<Longrightarrow> lo \<le> p \<Longrightarrow> p + 4 \<le> hi \<Longrightarrow> get32 m' p = get32 m p"
  "same_on m m' lo hi \<Longrightarrow> lo \<le> p \<Longrightarrow> p + 8 \<le> hi \<Longrightarrow> get64 m' p = get64 m p"
  by (simp_all add: same_on_def get16_def get32_def get64_def)

section \<open>Bit fields\<close>

lemma bit_bitfield_mask: "bit (bitfield_mask pos width) n \<longleftrightarrow> pos \<le> n \<and> n < pos + width \<and> n < 32"
proof -
  have "bitfield_mask pos width = push_bit pos (mask width)"
    by (simp add: bitfield_mask_def mask_eq_exp_minus_1)
  then show ?thesis
    by (auto simp: bit_push_bit_iff bit_mask_iff)
qed

lemma bitfield_get_set: "pos + width \<le> 32 \<Longrightarrow> bitfield_get pos width (bitfield_set pos width t v) = take_bit width t"
  by (rule bit_word_eqI)
    (auto simp: bitfield_get_def bitfield_set_def bit_drop_bit_eq bit_and_iff bit_or_iff bit_not_iff
      bit_push_bit_iff bit_bitfield_mask bit_take_bit_iff)

lemma bitfield_get_other:
  "pos + width \<le> pos' \<or> pos' + width' \<le> pos \<Longrightarrow>
   bitfield_get pos width (bitfield_set pos' width' t v) = bitfield_get pos width v"
  by (rule bit_word_eqI)
    (auto simp: bitfield_get_def bitfield_set_def bit_drop_bit_eq bit_and_iff bit_or_iff bit_not_iff
      bit_push_bit_iff bit_bitfield_mask)

lemma signed_bitfield_get_set:
  assumes "- (2 ^ 25) < n" "n < 2 ^ 25"
  shows "signed_bitfield_get 5 27 (bitfield_set 5 27 (of_int n) v) = n"
proof -
  have "push_bit 0 (bitfield_set 5 27 (of_int n) v) = bitfield_set 5 27 (of_int n) v" by simp
  have "signed_drop_bit 5 (bitfield_set 5 27 (word_of_int n) v) = (word_of_int n :: u32)"
  proof (rule bit_word_eqI)
    fix k assume k: "k < LENGTH(32)"
    have "signed_take_bit 26 n = n"
      using assms by (simp add: signed_take_bit_int_eq_self)
    then have n: "bit n k = bit n 26" if "k \<ge> 26"
      using that bit_signed_take_bit_iff [of 26 n k] by (simp add: min_def split: if_splits)
    show "bit (signed_drop_bit 5 (bitfield_set 5 27 (word_of_int n) v)) k = bit (word_of_int n :: u32) k"
      using k n
      by (auto simp: bit_signed_drop_bit_iff bitfield_set_def bit_and_iff bit_or_iff bit_not_iff bit_push_bit_iff
          bit_bitfield_mask bit_word_of_int_iff)
  qed
  moreover have "sint (word_of_int n :: u32) = n"
    using assms by (simp add: sint_sbintrunc' signed_take_bit_int_eq_self)
  ultimately show ?thesis
    by (simp add: signed_bitfield_get_def)
qed


lemma value_fields [simp]:
  "value_type (set_type t v) = take_bit 3 t"
  "value_type (set_latin_or_int b v) = value_type v"
  "value_type (set_latin_key b v) = value_type v"
  "value_type (set_value k v) = value_type v"
  "value_type (set_int n v) = value_type v"
  "value_latin_or_int (set_type t v) = value_latin_or_int v"
  "value_latin_or_int (set_latin_or_int b v) = b"
  "value_latin_or_int (set_latin_key b v) = value_latin_or_int v"
  "value_latin_or_int (set_value k v) = value_latin_or_int v"
  "value_latin_or_int (set_int n v) = value_latin_or_int v"
  "value_latin_key (set_type t v) = value_latin_key v"
  "value_latin_key (set_latin_or_int b v) = value_latin_key v"
  "value_latin_key (set_latin_key b v) = b"
  "value_latin_key (set_value k v) = value_latin_key v"
  "value_latin_key (set_int n v) = value_latin_key v"
  "value_value (set_type t v) = value_value v"
  "value_value (set_latin_or_int b v) = value_value v"
  "value_value (set_latin_key b v) = value_value v"
  "value_value (set_value k v) = take_bit 27 (of_nat k)"
  by (simp_all add: value_type_def value_latin_or_int_def value_latin_key_def value_value_def set_type_def
      set_latin_or_int_def set_latin_key_def set_value_def set_int_def bitfield_get_set bitfield_get_other)

lemma value_value_set_value: "int k < max_size \<Longrightarrow> unat (value_value (set_value k v)) = k"
  by (simp add: max_size_def unsigned_take_bit_eq unat_of_nat take_bit_nat_eq_self)

lemma value_int_set_int: "- (2 ^ 25) < n \<Longrightarrow> n < 2 ^ 25 \<Longrightarrow> value_int (set_int n v) = n"
  by (simp add: value_int_def set_int_def signed_bitfield_get_set)

lemma value_int_other [simp]:
  "value_int (set_latin_or_int b v) = value_int v"
  "value_int (set_latin_key b v) = value_int v"
proof -
  have "signed_drop_bit 5 (bitfield_set p 1 t v) = signed_drop_bit 5 v" if "p < 5" for p t
    using that by (intro bit_word_eqI)
      (auto simp: bit_signed_drop_bit_iff bitfield_set_def bit_and_iff bit_or_iff bit_not_iff bit_push_bit_iff
        bit_bitfield_mask)
  then show "value_int (set_latin_or_int b v) = value_int v" "value_int (set_latin_key b v) = value_int v"
    by (simp_all add: value_int_def set_latin_or_int_def set_latin_key_def signed_bitfield_get_def)
qed

text \<open>The bit fields that a value consists of, apart from the flag of the key.\<close>

lemma value_in_set_latin_key [simp]: "value_in m lo hi base (set_latin_key b v) t = value_in m lo hi base v t"
  by (cases t) simp_all


section \<open>Structures depend on their region\<close>

lemma length_string_at: "length (string_at m latin1 p) = (if latin1 then unat (get16 m p) else unat (get32 m p))"
  by (simp add: string_at_def latin1_at_def utf16_at_def)

lemma string_at_same:
  assumes "same_on m m' lo hi" "lo \<le> p"
    "if latin1 then p + 2 + length (string_at m latin1 p) \<le> hi else p + 4 + 2 * length (string_at m latin1 p) \<le> hi"
  shows "string_at m' latin1 p = string_at m latin1 p"
proof (cases latin1)
  case True
  with assms show ?thesis
    by (auto simp: length_string_at string_at_def latin1_at_def same_on_get(2) same_on_get(1) [of m m' lo hi])
next
  case False
  with assms show ?thesis
    by (auto simp: length_string_at string_at_def utf16_at_def same_on_get(3) intro!: same_on_get(2))
qed

lemma key_in_same: "key_in m lo hi p key \<Longrightarrow> same_on m m' lo hi \<Longrightarrow> key_in m' lo hi p key"
  using string_at_same [of m m' lo hi p "fst key"]
  by (cases "fst key") (auto simp: key_in_def same_on_get(1))

lemma key_in_mono: "key_in m lo hi p key \<Longrightarrow> lo' \<le> lo \<Longrightarrow> hi \<le> hi' \<Longrightarrow> key_in m lo' hi' p key"
  by (auto simp: key_in_def split: if_splits)

lemma base_same:
  assumes "same_on m m' lo hi" "lo \<le> b" "b + 12 \<le> hi"
  shows "base_size m' b = base_size m b" "base_is_object m' b = base_is_object m b"
    "base_length m' b = base_length m b" "base_table_offset m' b = base_table_offset m b"
  using assms by (simp_all add: base_size_def base_is_object_def base_length_def base_table_offset_def same_on_get)

lemma base_in_same: "base_in m lo hi b is_object n \<Longrightarrow> same_on m m' lo hi \<Longrightarrow> base_in m' lo hi b is_object n"
  by (simp add: base_in_def base_same [of m m' lo hi b])

lemma base_in_mono: "base_in m lo hi b is_object n \<Longrightarrow> lo' \<le> lo \<Longrightarrow> hi \<le> hi' \<Longrightarrow> base_in m lo' hi' b is_object n"
  by (simp add: base_in_def)

lemma table_same:
  assumes "same_on m m' lo hi" "base_in m lo hi b is_object n" "i < n"
  shows "array_at m' b i = array_at m b i" "entry_at m' b i = entry_at m b i"
proof -
  have "b + base_table_offset m b + 4 * i + 4 \<le> hi" "12 \<le> base_table_offset m b" "lo \<le> b" "b + 12 \<le> hi"
    using assms(2,3) by (auto simp: base_in_def)
  then show "array_at m' b i = array_at m b i" "entry_at m' b i = entry_at m b i"
    using assms(1) by (simp_all add: array_at_def entry_at_def base_same [of m m' lo hi b] same_on_get(3))
qed

lemma in_same:
  "value_in m lo hi base v t \<Longrightarrow> same_on m m' lo hi \<Longrightarrow> value_in m' lo hi base v t"
  "values_in m hi b i ts \<Longrightarrow> same_on m m' (b + 12) hi \<Longrightarrow>
   \<forall>k. i \<le> k \<and> k < i + length ts \<longrightarrow> array_at m' b k = array_at m b k \<Longrightarrow> values_in m' hi b i ts"
  "entries_in m hi b i ms \<Longrightarrow> same_on m m' (b + 12) hi \<Longrightarrow>
   \<forall>k. i \<le> k \<and> k < i + length ms \<longrightarrow> entry_at m' b k = entry_at m b k \<Longrightarrow> entries_in m' hi b i ms"
proof (induction m lo hi base v t and m hi b i ts and m hi b i ms
    rule: value_in_values_in_entries_in.induct)
  case (4 m lo hi base v d)
  then show ?case
    by (auto simp: Let_def same_on_get(4))
next
  case (5 m lo hi base v us)
  then show ?case
    by (auto intro: key_in_same)
next
  case (6 m lo hi base v ts)
  define b where "b = base + unat (value_value v)"
  have b: "base_in m lo hi b False (length ts)" "values_in m (b + base_table_offset m b) b 0 ts"
    using "6.prems"(1) by (simp_all add: b_def Let_def)
  have "same_on m m' (b + 12) (b + base_table_offset m b)"
    using b(1) "6.prems"(2) by (auto simp: base_in_def intro: same_on_mono)
  moreover have "base_table_offset m' b = base_table_offset m b"
    using b(1) "6.prems"(2) by (auto simp: base_in_def intro!: base_same)
  ultimately show ?case
    using "6.IH" [OF b_def b(2)] base_in_same [OF b(1) "6.prems"(2)] table_same [OF "6.prems"(2) b(1)] "6.prems"(1)
    by (simp add: b_def [symmetric] Let_def)
next
  case (7 m lo hi base v ms)
  define b where "b = base + unat (value_value v)"
  have b: "base_in m lo hi b True (length ms)" "entries_in m (b + base_table_offset m b) b 0 ms"
    using "7.prems"(1) by (simp_all add: b_def Let_def)
  have "same_on m m' (b + 12) (b + base_table_offset m b)"
    using b(1) "7.prems"(2) by (auto simp: base_in_def intro: same_on_mono)
  moreover have "base_table_offset m' b = base_table_offset m b"
    using b(1) "7.prems"(2) by (auto simp: base_in_def intro!: base_same)
  ultimately show ?case
    using "7.IH" [OF b_def b(2)] base_in_same [OF b(1) "7.prems"(2)] table_same [OF "7.prems"(2) b(1)] "7.prems"(1)
    by (simp add: b_def [symmetric] Let_def)
next
  case (9 m hi b i t ts)
  then show ?case
    by auto
next
  case (11 m hi b i key t ms)
  define e where "e = entry_at m b i"
  have e: "b + 12 \<le> e" "entry_latin m e = fst key" "key_in m (b + 12) hi (e + 4) key"
    "value_in m (b + 12) hi b (entry_value m e) t" "entries_in m hi b (Suc i) ms"
    using "11.prems"(1) by (simp_all add: e_def Let_def)
  have "e + 4 \<le> hi"
    using e(3) by (auto simp: key_in_def split: if_splits)
  then have v: "entry_value m' e = entry_value m e"
    using e(1) "11.prems"(2) by (simp add: entry_value_def same_on_get(3))
  have "entry_at m' b i = e"
    using "11.prems"(3) by (simp add: e_def)
  moreover have "value_in m' (b + 12) hi b (entry_value m e) t"
    using "11.IH"(1) [OF e_def e(4) "11.prems"(2)] .
  moreover have "entries_in m' hi b (Suc i) ms"
    using "11.IH"(2) [OF e(5) "11.prems"(2)] "11.prems"(3) by simp
  moreover have "entry_latin m' e = fst key"
    using e(2) v by (simp add: entry_latin_def)
  ultimately show ?case
    using e(1) v key_in_same [OF e(3) "11.prems"(2)] by (simp add: Let_def)
qed simp_all

lemma value_in_mono: "value_in m lo hi base v t \<Longrightarrow> lo' \<le> lo \<Longrightarrow> hi \<le> hi' \<Longrightarrow> value_in m lo' hi' base v t"
  by (cases t) (auto simp: Let_def intro: key_in_mono base_in_mono)

end
