(* ===== verification/Json_Simulation.thy ===== *)
theory Json_Simulation
  imports Json_Memory
begin

text \<open>
  The parser implements the reader: it returns what the reader returns, laid out in the block, or gives up because
  the document is too large, or is undefined.  \<open>refines\<close> relates an outcome of the parser to the one of the reader and composes
  along \<open>and_then\<close>.
\<close>

unbundle bit_operations_syntax

named_theorems sim \<open>parts of the parser that refine parts of the reader\<close>

section \<open>Refinement of outcomes\<close>

definition refines :: "('a, parser) outcome \<Rightarrow> 'b reading \<Rightarrow> ('a \<Rightarrow> 'b \<Rightarrow> parser \<Rightarrow> bool) \<Rightarrow> bool" where
  "refines r r' Q \<longleftrightarrow>
     (case r of
        Undefined \<Rightarrow> True
      | Out_Of_Fuel \<Rightarrow> r' = Out_Of_Fuel
      | Failed e n \<Rightarrow> e = Document_Too_Large \<or> r' = Failed e n
      | Done a st \<Rightarrow> \<exists>b. r' = Done b (p_json st) \<and> Q a b st)"

lemma and_then_simps [simp]:
  "and_then (Done a st) f = f a st" "and_then (Failed e n) f = Failed e n" "and_then Out_Of_Fuel f = Out_Of_Fuel"
  "and_then Undefined f = Undefined"
  by (simp_all add: and_then_def)

lemma refines_iff:
  "refines (Done a st) r' Q \<longleftrightarrow> (\<exists>b. r' = Done b (p_json st) \<and> Q a b st)"
  "refines (Failed e n) r' Q \<longleftrightarrow> e = Document_Too_Large \<or> r' = Failed e n"
  "refines Out_Of_Fuel r' Q \<longleftrightarrow> r' = Out_Of_Fuel" "refines Undefined r' Q"
  by (simp_all add: refines_def)

lemma refines_bind:
  assumes "refines r r' P" "\<And>a b st. P a b st \<Longrightarrow> refines (f a st) (f' b (p_json st)) Q"
  shows "refines (and_then r f) (and_then r' f') Q"
  using assms by (cases r) (auto simp: refines_iff)

lemma refines_info: "refines r r' Q \<Longrightarrow> refines r r' (\<lambda>a b st. Q a b st \<and> r' = Done b (p_json st))"
  by (cases r) (auto simp: refines_iff)

text \<open>Steps that only one side takes.\<close>

lemma refines_map: "refines r r' (\<lambda>a b. Q a (g b)) \<Longrightarrow> refines r (and_then r' (\<lambda>b. Done (g b))) Q"
  by (cases r) (auto simp: refines_iff)

lemma refines_Done [simp]: "refines (Done a st) (Done b json) Q \<longleftrightarrow> json = p_json st \<and> Q a b st"
  by (auto simp: refines_def)

lemma refines_fail: "p_json st = json \<Longrightarrow> refines (fail e st) (read_fail e json) Q"
  by (simp add: refines_def fail_def read_fail_def)

lemma refines_Failed [simp]: "refines (Failed e n) (Failed e n) Q"
  by (simp add: refines_def)

lemma refines_too_large [simp]: "refines (fail Document_Too_Large st) r Q"
  by (simp add: refines_def fail_def)

lemma refines_Out_Of_Fuel [simp]: "refines Out_Of_Fuel Out_Of_Fuel Q"
  by (simp add: refines_def)

lemma refines_mono: "refines r r' P \<Longrightarrow> (\<And>a b st. P a b st \<Longrightarrow> Q a b st) \<Longrightarrow> refines r r' Q"
  by (cases r) (auto simp: refines_def)

section \<open>The block\<close>

text \<open>The size of a block is an \<open>int\<close>.\<close>

definition room :: "parser \<Rightarrow> bool" where
  "room st \<longleftrightarrow> p_current st < length (p_data st) \<and> length (p_data st) < 2 ^ 31"

definition extends :: "parser \<Rightarrow> parser \<Rightarrow> bool" where
  "extends st st' \<longleftrightarrow>
     p_current st \<le> p_current st' \<and> length (p_data st) \<le> length (p_data st') \<and>
     same_on (p_data st) (p_data st') 0 (p_current st) \<and> p_nesting st' = p_nesting st"

lemma extends_refl [simp]: "extends st st"
  by (simp add: extends_def)

lemma extends_trans: "extends st st' \<Longrightarrow> extends st' st'' \<Longrightarrow> extends st st''"
  by (auto simp: extends_def intro: same_on_trans same_on_mono)

lemma extends_json [simp]: "extends st (st'\<lparr>p_json := json\<rparr>) = extends st st'"
  "extends (st\<lparr>p_json := json\<rparr>) st' = extends st st'"
  by (simp_all add: extends_def)

lemma extends_get8: "extends st st' \<Longrightarrow> p < p_current st \<Longrightarrow> get8 (p_data st') p = get8 (p_data st) p"
  by (auto simp: extends_def same_on_def)

lemma room_json [simp]: "room (st\<lparr>p_json := json\<rparr>) = room st"
  by (simp add: room_def)

lemma reserve_Done:
  assumes "reserve_space env n st = Done pos st'" "p_current st < 2 * length (p_data st)" "length (p_data st) < 2 ^ 31"
  shows "pos = p_current st" "p_json st' = p_json st" "p_nesting st' = p_nesting st"
    "p_current st' = p_current st + n" "room st'" "length (p_data st) \<le> length (p_data st')"
    "same_on (p_data st) (p_data st') 0 (length (p_data st))"
  using assms
  by (auto simp: reserve_space_def fail_def room_def int_max_def Let_def same_on_set_length split: if_splits)

lemma reserve_fails: "reserve_space env n st = Failed e k \<Longrightarrow> e = Document_Too_Large"
  "reserve_space env n st \<noteq> Out_Of_Fuel"
  by (auto simp: reserve_space_def fail_def Let_def split: if_splits)

lemma refines_reserve:
  assumes "p_current st < 2 * length (p_data st)" "length (p_data st) < 2 ^ 31"
    and "\<And>st'. reserve_space env n st = Done (p_current st) st' \<Longrightarrow> p_json st' = p_json st \<Longrightarrow> p_nesting st' = p_nesting st \<Longrightarrow>
      p_current st' = p_current st + n \<Longrightarrow> room st' \<Longrightarrow> length (p_data st) \<le> length (p_data st') \<Longrightarrow>
      same_on (p_data st) (p_data st') 0 (length (p_data st)) \<Longrightarrow> refines (f (p_current st) st') r' Q"
  shows "refines (and_then (reserve_space env n st) f) r' Q"
proof (cases "reserve_space env n st")
  case (Done pos st')
  with assms reserve_Done [OF Done] show ?thesis
    by (simp add: and_then_def)
next
  case (Failed e k)
  then show ?thesis
    using reserve_fails(1) [OF Failed] by (simp add: and_then_def refines_def)
next
  case Out_Of_Fuel
  then show ?thesis
    using reserve_fails(2) [of env n st] by simp
qed (simp add: refines_iff)

lemma refines_reserve_room:
  assumes "room st"
    and "\<And>st'. p_json st' = p_json st \<Longrightarrow> p_current st' = p_current st + n \<Longrightarrow> room st' \<Longrightarrow> extends st st' \<Longrightarrow>
      refines (f (p_current st) st') r' Q"
  shows "refines (and_then (reserve_space env n st) f) r' Q"
proof (rule refines_reserve)
  fix st'
  assume r: "p_json st' = p_json st" "p_nesting st' = p_nesting st" "p_current st' = p_current st + n"
    "room st'" "length (p_data st) \<le> length (p_data st')" "same_on (p_data st) (p_data st') 0 (length (p_data st))"
  then show "refines (f (p_current st) st') r' Q"
    using assms(1) same_on_mono [OF r(6), of 0 "p_current st"] by (intro assms(2)) (simp_all add: extends_def room_def)
qed (use assms(1) in \<open>simp_all add: room_def\<close>)

section \<open>Strings\<close>

lemma scan_latin1_stop: "json = [] \<or> hd json = 0x22 \<Longrightarrow> scan_latin1 start json = Done (True, []) json"
  by (subst scan_latin1.simps) simp

lemma scan_latin1_step:
  "\<not> (json = [] \<or> hd json = 0x22) \<Longrightarrow>
   scan_latin1 start json =
     (case scan_char json of
        Inl (e, json) \<Rightarrow> read_fail e json
      | Inr (ch, json) \<Rightarrow>
          if ch > 0xff \<or> int start - int (length json) \<ge> 0x8000 then Done (False, []) json
          else and_then (scan_latin1 start json) (\<lambda>(latin1, bs). Done (latin1, ucast ch # bs)))"
  by (subst scan_latin1.simps) simp

lemma scan_latin1_True:
  "scan_latin1 start json = Done (True, bs) rest \<Longrightarrow>
   length bs + length rest \<le> length json \<and> (if bs = [] then rest = json else int start - int (length rest) < 0x8000)"
proof (induction start json arbitrary: bs rule: scan_latin1.induct)
  case (1 start json)
  show ?case
  proof (cases "json = [] \<or> hd json = 0x22")
    case True
    with "1.prems" show ?thesis
      by (simp add: scan_latin1_stop)
  next
    case False
    with "1.prems" obtain ch json' where *: "scan_char json = Inr (ch, json')"
        "\<not> (ch > 0xff \<or> int start - int (length json') \<ge> 0x8000)"
      by (auto simp: scan_latin1_step read_fail_def split: sum.splits prod.splits if_splits)
    with False "1.prems" obtain bs' where bs: "scan_latin1 start json' = Done (True, bs') rest" "bs = ucast ch # bs'"
      by (auto simp: scan_latin1_step and_then_def split: outcome.splits)
    have "length bs' + length rest \<le> length json' \<and>
        (if bs' = [] then rest = json' else int start - int (length rest) < 0x8000)"
      using "1.IH" [OF False *(1) _ *(2) bs(1)] by simp
    then show ?thesis
      using bs(2) * scan_char_shorter [OF *(1)] False by (auto split: if_splits)
  qed
qed

lemma scan_utf16_nonempty: "scan_utf16 json = Done us rest \<Longrightarrow> \<not> (json = [] \<or> hd json = 0x22) \<Longrightarrow> us \<noteq> []"
  by (subst (asm) scan_utf16.simps)
    (auto simp: and_then_def read_fail_def char_units_def split: sum.splits prod.splits outcome.splits if_splits)

text \<open>The bytes that the first loop writes, and the units that the second loop writes.\<close>

definition bytes_at :: "byte list \<Rightarrow> nat \<Rightarrow> byte list \<Rightarrow> bool" where
  "bytes_at m p bs \<longleftrightarrow> (\<forall>k<length bs. get8 m (p + k) = bs ! k)"

definition units_at :: "byte list \<Rightarrow> nat \<Rightarrow> u16 list \<Rightarrow> bool" where
  "units_at m p us \<longleftrightarrow> (\<forall>k<length us. get16 m (p + 2 * k) = us ! k)"

lemma bytes_at_Cons: "bytes_at m p (b # bs) \<longleftrightarrow> get8 m p = b \<and> bytes_at m (p + 1) bs"
  unfolding bytes_at_def by (auto simp: all_less_Suc_split)

lemma units_at_Cons: "units_at m p (u # us) \<longleftrightarrow> get16 m p = u \<and> units_at m (p + 2) us"
  unfolding units_at_def by (auto simp: all_less_Suc_split)

lemma refines_latin1_loop:
  "room st \<Longrightarrow>
    refines (latin1_loop env start st) (scan_latin1 start (p_json st))
      (\<lambda>latin1 r st'. latin1 = fst r \<and> extends st st' \<and> room st' \<and> (latin1 \<longrightarrow>
         p_current st' = p_current st + length (snd r) \<and> bytes_at (p_data st') (p_current st) (snd r)))"
proof (induction env start st rule: latin1_loop.induct)
  case (1 env start st)
  show ?case
  proof (cases "p_json st = [] \<or> hd (p_json st) = 0x22")
    case True
    then show ?thesis
      using "1.prems" by (subst latin1_loop.simps) (simp add: scan_latin1_stop bytes_at_def)
  next
    case False
    show ?thesis
    proof (cases "scan_char (p_json st)")
      case (Inl a)
      then show ?thesis
        using False by (subst latin1_loop.simps) (cases a, simp add: scan_latin1_step refines_fail)
    next
      case (Inr a)
      obtain ch json where a: "scan_char (p_json st) = Inr (ch, json)"
        using Inr by (cases a) simp
      show ?thesis
      proof (cases "ch > 0xff \<or> int start - int (length json) \<ge> 0x8000")
        case True
        then show ?thesis
          using False "1.prems" a by (subst latin1_loop.simps) (simp add: scan_latin1_step)
      next
        case wide: False
        show ?thesis
        proof (cases "reserve_space env 1 (st\<lparr>p_json := json\<rparr>)")
          case (Failed e k)
          then show ?thesis
            using False wide a reserve_fails(1) [OF Failed]
            by (subst latin1_loop.simps) (simp add: refines_iff)
        next
          case Out_Of_Fuel
          then show ?thesis
            using reserve_fails(2) by blast
        next
          case Undefined
          then show ?thesis
            using False wide a by (subst latin1_loop.simps) (simp add: refines_iff)
        next
          case (Done pos st')
          have r: "pos = p_current st" "p_json st' = json" "p_nesting st' = p_nesting st"
              "p_current st' = p_current st + 1" "room st'" "length (p_data st) \<le> length (p_data st')"
              "same_on (p_data st) (p_data st') 0 (length (p_data st))"
            using reserve_Done [OF Done] "1.prems" by (simp_all add: room_def)
          define st2 where "st2 = st'\<lparr>p_data := (p_data st')[pos := ucast ch]\<rparr>"
          have st2: "p_json st2 = json" "p_current st2 = p_current st + 1" "room st2" "extends st st2"
              "get8 (p_data st2) (p_current st) = ucast ch"
            using r "1.prems"
            by (auto simp: st2_def room_def extends_def json_mem
                intro: same_on_trans [OF same_on_mono [OF r(7)] same_on_update])
          have "refines (latin1_loop env start st2) (scan_latin1 start (p_json st2))
              (\<lambda>latin1 r st'. latin1 = fst r \<and> extends st2 st' \<and> room st' \<and> (latin1 \<longrightarrow>
                 p_current st' = p_current st2 + length (snd r) \<and> bytes_at (p_data st') (p_current st2) (snd r)))"
            unfolding st2_def
            by (rule "1.IH" [OF False a refl wide Done]) (use st2 in \<open>simp_all add: st2_def\<close>)
          moreover have "latin1_loop env start st = latin1_loop env start st2"
            using False wide a Done by (subst latin1_loop.simps) (simp add: st2_def)
          ultimately show ?thesis
            using False wide a st2
            apply (simp add: scan_latin1_step case_prod_beta')
            apply (rule refines_map)
            apply (erule refines_mono)
            apply (auto simp: bytes_at_Cons extends_get8 intro: extends_trans)
            done
        qed
      qed
    qed
  qed
qed


text \<open>
  The second loop.  \<open>m_current\<close> may lie one byte past the block when it starts: its first step then reserves
  more.  \<open>base\<close> is a position below which nothing changes.
\<close>

definition wide_room :: "nat \<Rightarrow> parser \<Rightarrow> bool" where
  "wide_room base st \<longleftrightarrow>
     p_current st < 2 * length (p_data st) \<and> length (p_data st) < 2 ^ 31 \<and> base \<le> length (p_data st) \<and> base \<le> p_current st"

definition extends_from :: "nat \<Rightarrow> parser \<Rightarrow> parser \<Rightarrow> bool" where
  "extends_from base st st' \<longleftrightarrow>
     p_current st \<le> p_current st' \<and> length (p_data st) \<le> length (p_data st') \<and>
     same_on (p_data st) (p_data st') 0 base \<and> p_nesting st' = p_nesting st"

lemma refines_put_char:
  assumes "wide_room base st"
  shows "refines (put_char env ch st) (Done (char_units ch) (p_json st))
    (\<lambda>_ us st'. extends_from (if p_current st < length (p_data st) then p_current st else base) st st' \<and> room st' \<and>
       p_current st' = p_current st + 2 * length us \<and> units_at (p_data st') (p_current st) us)"
proof (cases "requires_surrogates ch")
  case True
  show ?thesis
    unfolding put_char_def if_P [OF True]
  proof (rule refines_reserve)
    fix st'
    assume r: "p_json st' = p_json st" "p_nesting st' = p_nesting st" "p_current st' = p_current st + 4"
      "room st'" "length (p_data st) \<le> length (p_data st')" "same_on (p_data st) (p_data st') 0 (length (p_data st))"
    define m1 where "m1 = put16 (p_data st') (p_current st) (get_high_surrogate ch)"
    define m2 where "m2 = put16 m1 (p_current st + 2) (get_low_surrogate ch)"
    have len: "length m1 = length (p_data st')" "length m2 = length (p_data st')"
      using r(3,4) by (simp_all add: m1_def m2_def room_def)
    have "get16 m2 (p_current st) = get_high_surrogate ch" "get16 m2 (p_current st + 2) = get_low_surrogate ch"
      using r(3,4) len same_on_get(2) [OF same_on_put(1), of "p_current st + 2" m1 "p_current st" "p_current st + 2"]
      by (simp_all add: m1_def m2_def room_def)
    moreover have "same_on (p_data st') m2 0 (p_current st)"
      unfolding m2_def m1_def using r(3,4) len
      by (intro same_on_trans [OF same_on_put(1) same_on_put(1)]) (auto simp: m1_def room_def)
    moreover have "same_on (p_data st) m2 0 (if p_current st < length (p_data st) then p_current st else base)"
      using assms by (intro same_on_trans [OF same_on_mono [OF r(6)] same_on_mono [OF calculation(3)]]) (simp_all add: wide_room_def)
    ultimately show "refines (Done () (st'\<lparr>p_data := put16 (put16 (p_data st') (p_current st) (get_high_surrogate ch))
          (p_current st + 2) (get_low_surrogate ch)\<rparr>)) (Done (char_units ch) (p_json st))
        (\<lambda>_ us st'. extends_from (if p_current st < length (p_data st) then p_current st else base) st st' \<and> room st' \<and>
           p_current st' = p_current st + 2 * length us \<and> units_at (p_data st') (p_current st) us)"
      using r len assms True unfolding m1_def [symmetric] m2_def [symmetric]
      by (simp add: extends_from_def room_def char_units_def units_at_Cons units_at_def [of _ _ "[]"])
  qed (use assms in \<open>simp_all add: wide_room_def\<close>)
next
  case False
  show ?thesis
    unfolding put_char_def if_not_P [OF False]
  proof (rule refines_reserve)
    fix st'
    assume r: "p_json st' = p_json st" "p_nesting st' = p_nesting st" "p_current st' = p_current st + 2"
      "room st'" "length (p_data st) \<le> length (p_data st')" "same_on (p_data st) (p_data st') 0 (length (p_data st))"
    define m2 where "m2 = put16 (p_data st') (p_current st) (ucast ch)"
    have len: "length m2 = length (p_data st')"
      using r(3,4) by (simp add: m2_def room_def)
    have "get16 m2 (p_current st) = ucast ch"
      using r(3,4) by (simp add: m2_def room_def)
    moreover have "same_on (p_data st') m2 0 (p_current st)"
      unfolding m2_def using r(3,4) by (intro same_on_put(1)) (auto simp: room_def)
    moreover have "same_on (p_data st) m2 0 (if p_current st < length (p_data st) then p_current st else base)"
      using assms by (intro same_on_trans [OF same_on_mono [OF r(6)] same_on_mono [OF calculation(2)]]) (simp_all add: wide_room_def)
    ultimately show "refines (Done () (st'\<lparr>p_data := put16 (p_data st') (p_current st) (ucast ch)\<rparr>))
        (Done (char_units ch) (p_json st))
        (\<lambda>_ us st'. extends_from (if p_current st < length (p_data st) then p_current st else base) st st' \<and> room st' \<and>
           p_current st' = p_current st + 2 * length us \<and> units_at (p_data st') (p_current st) us)"
      using r len assms False unfolding m2_def [symmetric]
      by (simp add: extends_from_def room_def char_units_def units_at_Cons units_at_def [of _ _ "[]"])
  qed (use assms in \<open>simp_all add: wide_room_def\<close>)
qed

lemma scan_utf16_stop: "json = [] \<or> hd json = 0x22 \<Longrightarrow> scan_utf16 json = Done [] json"
  by (subst scan_utf16.simps) simp

lemma scan_utf16_step:
  "\<not> (json = [] \<or> hd json = 0x22) \<Longrightarrow>
   scan_utf16 json =
     (case scan_char json of
        Inl (e, json) \<Rightarrow> read_fail e json
      | Inr (ch, json) \<Rightarrow> and_then (scan_utf16 json) (\<lambda>us. Done (char_units ch @ us)))"
  by (subst scan_utf16.simps) simp

lemma utf16_loop_step:
  "\<not> (p_json st = [] \<or> hd (p_json st) = 0x22) \<Longrightarrow>
   utf16_loop env st =
     (case scan_char (p_json st) of
        Inl (e, json) \<Rightarrow> fail e (st\<lparr>p_json := json\<rparr>)
      | Inr (ch, json) \<Rightarrow> and_then (put_char env ch (st\<lparr>p_json := json\<rparr>)) (\<lambda>_ st. utf16_loop env st))"
  by (subst utf16_loop.simps) (auto simp: and_then_def split: sum.splits prod.splits outcome.splits)

lemma units_at_append: "units_at m p (us @ vs) \<longleftrightarrow> units_at m p us \<and> units_at m (p + 2 * length us) vs"
  by (induction us arbitrary: p) (auto simp: units_at_Cons units_at_def [of _ _ "[]"])

lemma units_at_same:
  assumes "units_at m p us" "same_on m m' lo hi" "lo \<le> p" "p + 2 * length us \<le> hi"
  shows "units_at m' p us"
  using assms by (auto simp: units_at_def same_on_get(2))

lemma extends_from_refl [simp]: "extends_from base st st"
  by (simp add: extends_from_def)

lemma extends_from_trans:
  "extends_from base st st' \<Longrightarrow> extends_from base' st' st'' \<Longrightarrow> base \<le> base' \<Longrightarrow> extends_from base st st''"
  by (auto simp: extends_from_def intro: same_on_trans same_on_mono [of _ _ 0 base' 0 base])

lemma extends_from_json [simp]:
  "extends_from base (st\<lparr>p_json := json\<rparr>) st' = extends_from base st st'"
  "wide_room base (st\<lparr>p_json := json\<rparr>) = wide_room base st"
  by (simp_all add: extends_from_def wide_room_def)

lemma extends_from_mono:
  "extends_from (if c < n then c else base) st st' \<Longrightarrow> base \<le> c \<Longrightarrow> same_on (p_data st) (p_data st') 0 base"
  by (auto simp: extends_from_def same_on_def split: if_splits)

lemma refines_utf16_loop:
  "wide_room base st \<Longrightarrow>
    refines (utf16_loop env st) (scan_utf16 (p_json st))
      (\<lambda>_ us st'. extends_from (if p_current st < length (p_data st) then p_current st else base) st st' \<and>
         (us \<noteq> [] \<or> room st \<longrightarrow> room st') \<and>
         p_current st' = p_current st + 2 * length us \<and> units_at (p_data st') (p_current st) us)"
proof (induction env st arbitrary: base rule: utf16_loop.induct)
  case (1 env st)
  show ?case
  proof (cases "p_json st = [] \<or> hd (p_json st) = 0x22")
    case True
    then show ?thesis
      by (subst utf16_loop.simps) (simp add: scan_utf16_stop units_at_def)
  next
    case False
    show ?thesis
    proof (cases "scan_char (p_json st)")
      case (Inl a)
      then show ?thesis
        using False by (cases a) (simp add: utf16_loop_step scan_utf16_step refines_fail)
    next
      case (Inr a)
      obtain ch json where a: "scan_char (p_json st) = Inr (ch, json)"
        using Inr by (cases a) simp
      define st1 where "st1 = st\<lparr>p_json := json\<rparr>"
      define Q where "Q = (\<lambda>us st'. extends_from (if p_current st < length (p_data st) then p_current st else base) st st' \<and>
         (us \<noteq> [] \<or> room st \<longrightarrow> room st') \<and>
         p_current st' = p_current st + 2 * length us \<and> units_at (p_data st') (p_current st) us)"
      have "refines (and_then (put_char env ch st1) (\<lambda>_ st. utf16_loop env st))
          (and_then (Done (char_units ch) json) (\<lambda>us json. and_then (scan_utf16 json) (\<lambda>vs. Done (us @ vs)))) (\<lambda>_. Q)"
      proof (rule refines_bind)
        show "refines (put_char env ch st1) (Done (char_units ch) json)
          (\<lambda>_ us st'. put_char env ch st1 = Done () st' \<and> us = char_units ch \<and>
             extends_from (if p_current st < length (p_data st) then p_current st else base) st st' \<and> room st' \<and>
             p_current st' = p_current st + 2 * length us \<and> units_at (p_data st') (p_current st) us)"
          using refines_put_char [of base st1 env ch] "1.prems"
          by (cases "put_char env ch st1") (simp_all add: refines_iff st1_def split: if_splits)
      next
        fix u us st2
        assume st2: "put_char env ch st1 = Done () st2 \<and> us = char_units ch \<and>
             extends_from (if p_current st < length (p_data st) then p_current st else base) st st2 \<and> room st2 \<and>
             p_current st2 = p_current st + 2 * length us \<and> units_at (p_data st2) (p_current st) us"
        have w: "wide_room (p_current st2) st2"
          using st2 unfolding wide_room_def room_def by linarith
        have put: "put_char env ch (st\<lparr>p_json := json\<rparr>) = Done u st2" and c: "room st2" "p_current st2 < length (p_data st2)"
          using st2 unfolding st1_def room_def by (auto simp del: length_0_conv)
        have "refines (utf16_loop env st2) (scan_utf16 (p_json st2))
          (\<lambda>_ us st'. extends_from (p_current st2) st2 st' \<and> room st' \<and>
             p_current st' = p_current st2 + 2 * length us \<and> units_at (p_data st') (p_current st2) us)"
          using "1.IH" [OF False a refl put w] c by simp
        then show "refines (utf16_loop env st2) (and_then (scan_utf16 (p_json st2)) (\<lambda>vs. Done (us @ vs))) (\<lambda>_. Q)"
        proof (intro refines_map, elim refines_mono)
          fix u :: unit and vs st3
          assume st3: "extends_from (p_current st2) st2 st3 \<and> room st3 \<and>
             p_current st3 = p_current st2 + 2 * length vs \<and> units_at (p_data st3) (p_current st2) vs"
          have "units_at (p_data st3) (p_current st) us"
            by (rule units_at_same [of "p_data st2" _ _ _ 0 "p_current st2"]) (use st2 st3 in \<open>auto simp: extends_from_def\<close>)
          moreover have "extends_from (if p_current st < length (p_data st) then p_current st else base) st st3"
          proof (rule extends_from_trans)
            show "extends_from (if p_current st < length (p_data st) then p_current st else base) st st2"
              using st2 by blast
            show "extends_from (p_current st2) st2 st3"
              using st3 by blast
            show "(if p_current st < length (p_data st) then p_current st else base) \<le> p_current st2"
              using st2 "1.prems" by (simp add: wide_room_def)
          qed
          ultimately show "Q (us @ vs) st3"
            using st2 st3 by (simp add: Q_def units_at_append)
        qed
      qed
      then show ?thesis
        using False a by (simp add: utf16_loop_step scan_utf16_step st1_def Q_def)
    qed
  qed
qed

lemma key_in_latin1:
  assumes "get16 m p = of_nat (length bs)" "length bs < 0x8000" "bytes_at m (p + 2) bs" "lo \<le> p" "4 dvd p"
    "p + 2 + length bs \<le> hi" "p + 4 \<le> hi" "bs = [] \<Longrightarrow> get8 m (p + 2) = 0"
  shows "key_in m lo hi p (True, map ucast bs)"
proof -
  have "unat (get16 m p) = length bs"
    using assms(1,2) by (simp add: unat_of_nat take_bit_nat_eq_self)
  moreover have "map (\<lambda>k. get8 m (p + 2 + k)) [0..<length bs] = bs"
    using assms(3) by (intro nth_equalityI) (auto simp: bytes_at_def)
  ultimately have "latin1_at m p = bs"
    by (simp add: latin1_at_def)
  then show ?thesis
    using assms by (simp add: key_in_def string_at_def)
qed

lemma key_in_utf16:
  assumes "get32 m p = of_nat (length us)" "length us < 2 ^ 31" "units_at m (p + 4) us" "lo \<le> p" "4 dvd p"
    "p + 4 + 2 * length us \<le> hi" "us \<noteq> []"
  shows "key_in m lo hi p (False, us)"
proof -
  have "unat (get32 m p) = length us"
    using assms(1,2) by (simp add: unat_of_nat take_bit_nat_eq_self)
  moreover have "map (\<lambda>k. get16 m (p + 4 + 2 * k)) [0..<length us] = us"
    using assms(3) by (intro nth_equalityI) (auto simp: units_at_def)
  ultimately have "utf16_at m p = us"
    by (simp add: utf16_at_def)
  then show ?thesis
    using assms by (simp add: key_in_def string_at_def)
qed

text \<open>Everything that is laid out starts at a multiple of four.\<close>

definition ready :: "parser \<Rightarrow> bool" where
  "ready st \<longleftrightarrow> room st \<and> 4 dvd p_current st"

lemma ready_json [simp]: "ready (st\<lparr>p_json := json\<rparr>) = ready st"
  by (simp add: ready_def)

lemma pad_aligned: "4 dvd n + nat ((4 - int n) mod 4)"
proof -
  have "(int n + (4 - int n) mod 4) mod 4 = 0"
    by (simp add: mod_add_right_eq)
  then have "int (n + nat ((4 - int n) mod 4)) mod int 4 = 0"
    by simp
  then show ?thesis
    by (metis mod_0_imp_dvd of_nat_dvd_iff)
qed

lemma refines_pad_string:
  assumes "room st"
  shows "refines (pad_string env st) (Done () (p_json st))
    (\<lambda>_ _ st'. ready st' \<and> extends st st' \<and> p_current st' = p_current st + nat ((4 - int (p_current st)) mod 4) \<and>
       (\<forall>i. p_current st \<le> i \<and> i < p_current st' \<longrightarrow> get8 (p_data st') i = 0))"
  unfolding pad_string_def
proof (rule refines_reserve)
  fix st'
  assume r: "p_json st' = p_json st" "p_nesting st' = p_nesting st"
    "p_current st' = p_current st + nat ((4 - int (p_current st)) mod 4)"
    "room st'" "length (p_data st) \<le> length (p_data st')" "same_on (p_data st) (p_data st') 0 (length (p_data st))"
  define k where "k = nat ((4 - int (p_current st)) mod 4)"
  define m where "m = mem_write (p_data st') (p_current st) (replicate k 0)"
  have k: "p_current st + k \<le> length (p_data st')"
    using r(3,4) by (simp add: room_def k_def)
  have "same_on (p_data st) m 0 (p_current st)"
    unfolding m_def using k assms
    by (intro same_on_trans [OF same_on_mono [OF r(6)] same_on_write]) (simp_all add: room_def)
  moreover have "\<forall>i. p_current st \<le> i \<and> i < p_current st + k \<longrightarrow> get8 m i = 0"
    unfolding m_def using k by (auto simp: json_mem)
  moreover have "length m = length (p_data st')"
    unfolding m_def using k by simp
  ultimately show "refines (Done () (st'\<lparr>p_data := mem_write (p_data st') (p_current st)
        (replicate (nat ((4 - int (p_current st)) mod 4)) 0)\<rparr>)) (Done () (p_json st))
      (\<lambda>_ _ st'. ready st' \<and> extends st st' \<and> p_current st' = p_current st + nat ((4 - int (p_current st)) mod 4) \<and>
        (\<forall>i. p_current st \<le> i \<and> i < p_current st' \<longrightarrow> get8 (p_data st') i = 0))"
    using r pad_aligned [of "p_current st"] unfolding m_def [symmetric] k_def [symmetric]
    by (simp add: ready_def room_def extends_def)
qed (use assms in \<open>simp_all add: room_def\<close>)

lemma refines_end_of_string:
  "refines (end_of_string st) (read_quote (p_json st)) (\<lambda>_ _ st'. \<exists>json. st' = st\<lparr>p_json := json\<rparr>)"
  by (auto simp: end_of_string_def read_quote_def split: list.splits)

text \<open>A string is done: its text lies between the old and the new end of the output.\<close>

definition string_done :: "parser \<Rightarrow> bool \<Rightarrow> json_key \<Rightarrow> parser \<Rightarrow> bool" where
  "string_done st latin1 key st' \<longleftrightarrow>
     fst key = latin1 \<and> ready st' \<and> extends st st' \<and> key_in (p_data st') (p_current st) (p_current st') (p_current st) key"

lemma refines_padded:
  assumes "room st" "\<And>st'. ready st' \<Longrightarrow> extends st st' \<Longrightarrow>
      p_current st' = p_current st + nat ((4 - int (p_current st)) mod 4) \<Longrightarrow>
      (\<forall>i. p_current st \<le> i \<and> i < p_current st' \<longrightarrow> get8 (p_data st') i = 0) \<Longrightarrow> Q a b st'"
  shows "refines (and_then (pad_string env st) (\<lambda>_. Done a)) (Done b (p_json st)) Q"
proof -
  have "refines (and_then (pad_string env st) (\<lambda>_. Done a)) (and_then (Done () (p_json st)) (\<lambda>_. Done b)) Q"
    by (rule refines_bind [OF refines_pad_string [OF assms(1)]]) (simp add: assms(2))
  then show ?thesis
    by simp
qed

lemma refines_latin1_end:
  assumes "4 dvd p" "extends_from p st0 st" "room st" "p = p_current st0" "p_current st = p + 2 + length bs"
    "bytes_at (p_data st) (p + 2) bs" "length bs < 0x8000"
  shows "refines (and_then (pad_string env (st\<lparr>p_data := put16 (p_data st) p (of_nat (p_current st - p - 2))\<rparr>)) (\<lambda>_. Done True))
    (Done (True, map ucast bs) (p_json st)) (string_done st0)"
proof -
  define st1 where "st1 = st\<lparr>p_data := put16 (p_data st) p (of_nat (length bs))\<rparr>"
  have len: "length (p_data st1) = length (p_data st)"
    using assms(3,5) by (simp add: st1_def room_def)
  have st1: "room st1" "extends st0 st1" "p_current st1 = p + 2 + length bs" "get16 (p_data st1) p = of_nat (length bs)"
    "bytes_at (p_data st1) (p + 2) bs"
    using assms(2-6) len same_on_trans [OF _ same_on_put(1), of "p_data st0" "p_data st" 0 p p]
    by (auto simp: st1_def room_def extends_def extends_from_def bytes_at_def get8_put16)
  have "refines (and_then (pad_string env st1) (\<lambda>_. Done True)) (Done (True, map ucast bs) (p_json st1)) (string_done st0)"
  proof (rule refines_padded [OF st1(1)])
    fix st'
    assume st': "ready st'" "extends st1 st'"
      "p_current st' = p_current st1 + nat ((4 - int (p_current st1)) mod 4)"
      "\<forall>i. p_current st1 \<le> i \<and> i < p_current st' \<longrightarrow> get8 (p_data st') i = 0"
    have hi: "p + 4 \<le> p_current st'"
    proof -
      have "p + 2 \<le> p_current st'" "4 dvd p_current st'"
        using st'(1,2) st1(3) by (simp_all add: ready_def extends_def)
      then show ?thesis
        using assms(1) by presburger
    qed
    have "get16 (p_data st') p = get16 (p_data st1) p"
      using st'(2) st1(3) same_on_get(2) [of "p_data st1" "p_data st'" 0 "p_current st1" p] by (simp add: extends_def)
    moreover have "bytes_at (p_data st') (p + 2) bs"
      using st1(3,5) by (simp add: bytes_at_def extends_get8 [OF st'(2)])
    ultimately have "key_in (p_data st') p (p_current st') p (True, map ucast bs)"
      using hi st1(3,4) assms(1,7) st'(2,4) by (intro key_in_latin1) (auto simp: extends_def)
    then show "string_done st0 True (True, map ucast bs) st'"
      using st'(1) extends_trans [OF st1(2) st'(2)] assms(4) by (simp add: string_done_def)
  qed
  then show ?thesis
    using assms(5) by (simp add: st1_def)
qed

lemma refines_utf16_end:
  assumes "4 dvd p" "extends_from p st0 st" "room st" "p = p_current st0" "p_current st = p + 4 + 2 * length us"
    "units_at (p_data st) (p + 4) us" "us \<noteq> []"
  shows "refines (and_then (pad_string env (st\<lparr>p_data := put32 (p_data st) p (of_nat ((p_current st - p - 4) div 2))\<rparr>)) (\<lambda>_. Done False))
    (Done (False, us) (p_json st)) (string_done st0)"
proof -
  define st1 where "st1 = st\<lparr>p_data := put32 (p_data st) p (of_nat (length us))\<rparr>"
  have len: "length (p_data st1) = length (p_data st)"
    using assms(3,5) by (simp add: st1_def room_def)
  have st1: "room st1" "extends st0 st1" "p_current st1 = p + 4 + 2 * length us" "get32 (p_data st1) p = of_nat (length us)"
    using assms(2-6) len same_on_trans [OF _ same_on_put(2), of "p_data st0" "p_data st" 0 p p]
    by (auto simp: st1_def room_def extends_def extends_from_def)
  have units: "units_at (p_data st1) (p + 4) us"
    using units_at_same [OF assms(6) same_on_put(2), of p "p + 4" "p + 4 + 2 * length us"] assms(3,5)
    by (simp add: st1_def room_def)
  have "refines (and_then (pad_string env st1) (\<lambda>_. Done False)) (Done (False, us) (p_json st1)) (string_done st0)"
  proof (rule refines_padded [OF st1(1)])
    fix st'
    assume st': "ready st'" "extends st1 st'"
    have s: "same_on (p_data st1) (p_data st') 0 (p_current st1)" and hi: "p_current st1 \<le> p_current st'"
      using st'(2) by (simp_all add: extends_def)
    have "get32 (p_data st') p = of_nat (length us)"
      using same_on_get(3) [OF s] st1(3,4) by simp
    moreover have "units_at (p_data st') (p + 4) us"
      by (rule units_at_same [OF units s]) (simp_all add: st1(3))
    moreover have "length us < 2 ^ 31"
      using st1(1,3) by (simp add: room_def)
    ultimately have "key_in (p_data st') p (p_current st') p (False, us)"
      using hi st1(3) assms(1,7) by (intro key_in_utf16) auto
    then show "string_done st0 False (False, us) st'"
      using st'(1) extends_trans [OF st1(2) st'(2)] assms(4) by (simp add: string_done_def)
  qed
  then show ?thesis
    using assms(5) by (simp add: st1_def)
qed

lemma scan_latin1_False: "scan_latin1 start json = Done (False, bs) rest \<Longrightarrow> \<not> (json = [] \<or> hd json = 0x22)"
  by (auto simp: scan_latin1_stop)

lemma refines_parse_string [sim]:
  assumes st: "ready st"
  shows "refines (parse_string env st) (read_string (p_json st)) (string_done st)"
  unfolding parse_string_def read_string_def Let_def
proof (rule refines_reserve_room)
  fix st1
  assume r: "p_json st1 = p_json st" "p_current st1 = p_current st + 2" "room st1" and st1: "extends st st1"
  let ?json = "p_json st" and ?p = "p_current st"
  define utf16 where "utf16 = (\<lambda>st'. and_then (utf16_loop env (st'\<lparr>p_json := ?json, p_current := ?p + 4\<rparr>)) (\<lambda>_ st'.
      and_then (end_of_string st') (\<lambda>_ st'.
      and_then (pad_string env (st'\<lparr>p_data := put32 (p_data st') ?p (of_nat ((p_current st' - ?p - 4) div 2))\<rparr>)) (\<lambda>_ st. Done False st))))"
  have wide: "refines (utf16 st2)
      (and_then (scan_utf16 ?json) (\<lambda>us rest. and_then (read_quote rest) (\<lambda>_ rest. Done (False, us) rest))) (string_done st)"
    if st2: "room st2" "extends st1 st2" "\<not> (?json = [] \<or> hd ?json = 0x22)" for st2
    unfolding utf16_def
  proof (rule refines_bind)
    define st3 where "st3 = st2\<lparr>p_json := ?json, p_current := ?p + 4\<rparr>"
    have "wide_room ?p st3"
      using r(2,3) st2(1,2) by (auto simp: wide_room_def st3_def room_def extends_def)
    then have "refines (utf16_loop env st3) (scan_utf16 (p_json st3))
      (\<lambda>_ us st'. extends_from (if p_current st3 < length (p_data st3) then p_current st3 else ?p) st3 st' \<and>
         (us \<noteq> [] \<or> room st3 \<longrightarrow> room st') \<and> p_current st' = p_current st3 + 2 * length us \<and>
         units_at (p_data st') (p_current st3) us)"
      by (rule refines_utf16_loop)
    then have "refines (utf16_loop env st3) (scan_utf16 (p_json st3))
      (\<lambda>_ us st'. extends_from ?p st st' \<and> room st' \<and> us \<noteq> [] \<and>
         p_current st' = ?p + 4 + 2 * length us \<and> units_at (p_data st') (?p + 4) us)"
    proof (elim refines_info [THEN refines_mono] conjE)
      fix u :: unit and us st4
      assume a: "extends_from (if p_current st3 < length (p_data st3) then p_current st3 else ?p) st3 st4"
        "us \<noteq> [] \<or> room st3 \<longrightarrow> room st4" "p_current st4 = p_current st3 + 2 * length us"
        "units_at (p_data st4) (p_current st3) us" "scan_utf16 (p_json st3) = Done us (p_json st4)"
      have us: "us \<noteq> []"
        using scan_utf16_nonempty [OF a(5)] st2(3) by (simp add: st3_def)
      have "same_on (p_data st3) (p_data st4) 0 ?p"
        using a(1) by (rule extends_from_mono) (simp add: st3_def)
      moreover have "same_on (p_data st) (p_data st3) 0 ?p"
        using extends_trans [OF st1 st2(2)] by (simp add: st3_def extends_def)
      ultimately have "extends_from ?p st st4"
        using a(1,3) extends_trans [OF st1 st2(2)] same_on_trans by (auto simp: extends_from_def extends_def st3_def)
      then show "extends_from ?p st st4 \<and> room st4 \<and> us \<noteq> [] \<and>
         p_current st4 = ?p + 4 + 2 * length us \<and> units_at (p_data st4) (?p + 4) us"
        using a us by (simp add: st3_def)
    qed
    then show "refines (utf16_loop env (st2\<lparr>p_json := ?json, p_current := ?p + 4\<rparr>)) (scan_utf16 ?json)
      (\<lambda>_ us st'. extends_from ?p st st' \<and> room st' \<and> us \<noteq> [] \<and>
         p_current st' = ?p + 4 + 2 * length us \<and> units_at (p_data st') (?p + 4) us)"
      by (simp add: st3_def)
  next
    fix u :: unit and us st4
    assume st4: "extends_from ?p st st4 \<and> room st4 \<and> us \<noteq> [] \<and>
         p_current st4 = ?p + 4 + 2 * length us \<and> units_at (p_data st4) (?p + 4) us"
    show "refines (and_then (end_of_string st4) (\<lambda>_ st'.
        and_then (pad_string env (st'\<lparr>p_data := put32 (p_data st') ?p (of_nat ((p_current st' - ?p - 4) div 2))\<rparr>)) (\<lambda>_ st. Done False st)))
       (and_then (read_quote (p_json st4)) (\<lambda>_ rest. Done (False, us) rest)) (string_done st)"
    proof (rule refines_bind [OF refines_end_of_string])
      fix v w :: unit and st5
      assume "\<exists>json. st5 = st4\<lparr>p_json := json\<rparr>"
      then obtain json where st5: "st5 = st4\<lparr>p_json := json\<rparr>" ..
      show "refines (and_then (pad_string env (st5\<lparr>p_data := put32 (p_data st5) ?p (of_nat ((p_current st5 - ?p - 4) div 2))\<rparr>)) (\<lambda>_ st. Done False st))
        (Done (False, us) (p_json st5)) (string_done st)"
        by (rule refines_utf16_end) (use st st4 in \<open>simp_all add: st5 ready_def extends_from_def\<close>)
    qed
  qed
  have "refines (and_then (latin1_loop env (length ?json) st1) (\<lambda>latin1 st'.
       and_then (end_of_string st') (\<lambda>_ st'.
       if latin1
       then and_then (pad_string env (st'\<lparr>p_data := put16 (p_data st') ?p (of_nat (p_current st' - ?p - 2))\<rparr>)) (\<lambda>_ st. Done True st)
       else utf16 st')))
      (and_then (scan_latin1 (length ?json) ?json) (\<lambda>(latin1, bs) rest.
       and_then (read_quote rest) (\<lambda>_ rest.
       if latin1 then Done (True, map ucast bs) rest
       else and_then (scan_utf16 ?json) (\<lambda>us rest. and_then (read_quote rest) (\<lambda>_ rest. Done (False, us) rest))))) (string_done st)"
  proof (rule refines_bind [OF refines_info [OF refines_latin1_loop [OF r(3), of env "length ?json", unfolded r(1)]]], clarify)
    fix latin1 bs st2
    assume st2: "extends st1 st2" "room st2" "fst (latin1, bs) \<longrightarrow>
         p_current st2 = p_current st1 + length (snd (latin1, bs)) \<and> bytes_at (p_data st2) (p_current st1) (snd (latin1, bs))"
      and scan: "scan_latin1 (length ?json) ?json = Done (latin1, bs) (p_json st2)"
    show "refines (and_then (end_of_string st2) (\<lambda>_ st'.
       if fst (latin1, bs)
       then and_then (pad_string env (st'\<lparr>p_data := put16 (p_data st') ?p (of_nat (p_current st' - ?p - 2))\<rparr>)) (\<lambda>_ st. Done True st)
       else utf16 st'))
      (and_then (read_quote (p_json st2)) (\<lambda>_ rest.
       if latin1 then Done (True, map ucast bs) rest
       else and_then (scan_utf16 ?json) (\<lambda>us rest. and_then (read_quote rest) (\<lambda>_ rest. Done (False, us) rest)))) (string_done st)"
    proof (rule refines_bind [OF refines_end_of_string])
      fix v w :: unit and st3
      assume "\<exists>json. st3 = st2\<lparr>p_json := json\<rparr>"
      then obtain json where st3: "st3 = st2\<lparr>p_json := json\<rparr>" ..
      show "refines (if fst (latin1, bs)
          then and_then (pad_string env (st3\<lparr>p_data := put16 (p_data st3) ?p (of_nat (p_current st3 - ?p - 2))\<rparr>)) (\<lambda>_ st. Done True st)
          else utf16 st3)
        (if latin1 then Done (True, map ucast bs) (p_json st3)
         else and_then (scan_utf16 ?json) (\<lambda>us rest. and_then (read_quote rest) (\<lambda>_ rest. Done (False, us) rest))) (string_done st)"
      proof (cases latin1)
        case True
        have "length bs < 0x8000"
          using scan_latin1_True [of "length ?json" ?json bs "p_json st2"] scan True by (cases bs) auto
        then have "refines (and_then (pad_string env (st3\<lparr>p_data := put16 (p_data st3) ?p (of_nat (p_current st3 - ?p - 2))\<rparr>)) (\<lambda>_ st. Done True st))
          (Done (True, map ucast bs) (p_json st3)) (string_done st)"
          using st r st1 st2 True extends_trans [OF st1 st2(1)]
          by (intro refines_latin1_end) (simp_all add: st3 ready_def extends_from_def extends_def)
        then show ?thesis
          using True by simp
      next
        case False
        then show ?thesis
          using wide [of st3] scan_latin1_False [of "length ?json" ?json bs "p_json st2"] scan st2
          by (simp add: st3)
      qed
    qed
  qed
  then show "refines (and_then (latin1_loop env (length ?json) st1) (\<lambda>latin1 st'.
       and_then (end_of_string st') (\<lambda>_ st'.
       if latin1
       then and_then (pad_string env (st'\<lparr>p_data := put16 (p_data st') ?p (of_nat (p_current st' - ?p - 2))\<rparr>)) (\<lambda>_ st. Done True st)
       else and_then (utf16_loop env (st'\<lparr>p_json := ?json, p_current := ?p + 4\<rparr>)) (\<lambda>_ st'.
            and_then (end_of_string st') (\<lambda>_ st'.
            and_then (pad_string env (st'\<lparr>p_data := put32 (p_data st') ?p (of_nat ((p_current st' - ?p - 4) div 2))\<rparr>)) (\<lambda>_ st. Done False st))))))
      (and_then (scan_latin1 (length ?json) ?json) (\<lambda>(latin1, bs) rest.
       and_then (read_quote rest) (\<lambda>_ rest.
       if latin1 then Done (True, map ucast bs) rest
       else and_then (scan_utf16 ?json) (\<lambda>us rest. and_then (read_quote rest) (\<lambda>_ rest. Done (False, us) rest))))) (string_done st)"
    by (simp only: utf16_def)
qed (use st in \<open>simp_all add: ready_def\<close>)

end
