(* ===== verification/Json_Refinement.thy ===== *)
theory Json_Refinement
  imports Json_Simulation
begin

text \<open>
  The parser of values, arrays, objects and documents implements the reader, on top of the strings of
  \<open>Json_Simulation\<close>.
\<close>

section \<open>Scalars\<close>

text \<open>A value is parsed: what it refers to lies between the old and the new end of the output.\<close>

definition value_done :: "parser \<Rightarrow> nat \<Rightarrow> u32 \<Rightarrow> json \<Rightarrow> parser \<Rightarrow> bool" where
  "value_done st base v t st' \<longleftrightarrow>
     ready st' \<and> extends st st' \<and> value_in (p_data st') (p_current st) (p_current st') base v t"

lemma value_done_json [simp]: "value_done (st\<lparr>p_json := json\<rparr>) = value_done st"
  by (simp add: value_done_def fun_eq_iff)

lemma refines_parse_double:
  assumes st: "ready st" "base \<le> p_current st" and v: "v = set_type type_double 0"
  shows "refines (parse_double env base v number st)
    (case env_to_double env number of
       None \<Rightarrow> read_fail Illegal_Number (p_json st)
     | Some d \<Rightarrow> Done (Json_Double d) (p_json st)) (value_done st base)"
proof (cases "env_to_double env number")
  case None
  then show ?thesis
    by (simp add: parse_double_def refines_fail)
next
  case (Some d)
  have "refines (parse_double env base v number st) (Done (Json_Double d) (p_json st)) (value_done st base)"
    unfolding parse_double_def Some option.case
  proof (rule refines_reserve_room)
    fix st1
    assume r: "p_json st1 = p_json st" "p_current st1 = p_current st + 8" "room st1" "extends st st1"
    let ?p = "p_current st"
    define st2 where "st2 = st1\<lparr>p_data := put64 (p_data st1) ?p d\<rparr>"
    have len: "length (p_data st2) = length (p_data st1)"
      using r by (simp add: st2_def room_def)
    have "same_on (p_data st1) (p_data st2) 0 ?p"
      using r(2,3) by (auto simp: st2_def room_def intro!: same_on_put(3))
    then have e: "extends st st2"
      using r(4) len by (auto simp: extends_def st2_def intro: same_on_trans)
    have g: "get64 (p_data st2) ?p = d"
      using r(2,3) by (simp add: st2_def room_def)
    have "refines (if int (p_current st2) - int base \<ge> max_size then fail Document_Too_Large st2
        else Done (set_latin_or_int False (set_value (?p - base) v)) st2)
        (Done (Json_Double d) (p_json st)) (value_done st base)"
    proof (cases "int (p_current st2) - int base \<ge> max_size")
      case False
      then have "unat (value_value (set_value (?p - base) v)) = ?p - base"
        using st(2) r(2) by (intro value_value_set_value) (simp add: st2_def)
      then have "value_in (p_data st2) ?p (p_current st2) base (set_latin_or_int False (set_value (?p - base) v)) (Json_Double d)"
        using st(2) r(2) g by (simp add: v st2_def)
      then show ?thesis
        using False e len r st(1) by (simp add: value_done_def st2_def ready_def room_def)
    qed simp
    then show "refines (let st = st1\<lparr>p_data := put64 (p_data st1) ?p d\<rparr>
        in if int (p_current st) - int base \<ge> max_size then fail Document_Too_Large st
           else Done (set_latin_or_int False (set_value (?p - base) v)) st)
        (Done (Json_Double d) (p_json st)) (value_done st base)"
      by (simp only: st2_def Let_def)
  qed (use st(1) in \<open>simp_all add: ready_def\<close>)
  then show ?thesis
    by (simp add: Some)
qed

lemma refines_parse_number [sim]:
  assumes "ready st" "base \<le> p_current st"
  shows "refines (parse_number env base 0 st) (read_number (env_to_double env) (p_json st)) (value_done st base)"
proof -
  obtain is_int json where n: "skip_number (p_json st) = (is_int, json)"
    by fastforce
  define st1 where "st1 = st\<lparr>p_json := json\<rparr>"
  define number where "number = take (length (p_json st) - length json) (p_json st)"
  define v where "v = set_type type_double (0 :: u32)"
  define n' where "n' = (if is_int then to_integral True 32 number 10 else None)"
  have d: "refines (parse_double env base v number st1)
      (case env_to_double env number of
         None \<Rightarrow> read_fail Illegal_Number json | Some d \<Rightarrow> Done (Json_Double d) json) (value_done st base)"
    using refines_parse_double [of "st\<lparr>p_json := json\<rparr>" base v env number] assms
    by (simp add: st1_def v_def cong: option.case_cong)
  have i: "refines (Done (set_latin_or_int True (set_int n v)) st1) (Done (Json_Int n) json) (value_done st base)"
    if "n < 2 ^ 25 \<and> n > - (2 ^ 25)" for n
    using that assms by (simp add: st1_def value_done_def v_def value_int_set_int)
  have "refines
      (case n' of
         Some n \<Rightarrow> if n < 2 ^ 25 \<and> n > - (2 ^ 25) then Done (set_latin_or_int True (set_int n v)) st1
                   else parse_double env base v number st1
       | None \<Rightarrow> parse_double env base v number st1)
      (case n' of
         Some n \<Rightarrow> if n < 2 ^ 25 \<and> n > - (2 ^ 25) then Done (Json_Int n) json
                   else (case env_to_double env number of
                           None \<Rightarrow> read_fail Illegal_Number json | Some d \<Rightarrow> Done (Json_Double d) json)
       | None \<Rightarrow> (case env_to_double env number of
                     None \<Rightarrow> read_fail Illegal_Number json | Some d \<Rightarrow> Done (Json_Double d) json)) (value_done st base)"
    using d i by (simp split: option.split)
  moreover have "refines (fail Termination_By_Number st1) (read_fail Termination_By_Number json) (value_done st base)"
    by (simp add: refines_fail st1_def)
  ultimately show ?thesis
    unfolding parse_number_def read_number_def n Let_def prod.case st1_def number_def v_def n'_def by (simp only: split: if_split) simp
qed

lemma refines_parse_literal [sim]:
  assumes "ready st" "value_in (p_data st) (p_current st) (p_current st) base v t"
  shows "refines (parse_literal cs v st) (read_literal cs t (p_json st)) (value_done st base)"
  using assms
  by (auto simp: parse_literal_def read_literal_def refines_fail value_done_def split: prod.splits)

lemma refines_value_offset:
  assumes "\<And>off. off = p_current st - base \<Longrightarrow> int (p_current st) - int base < max_size \<Longrightarrow> refines (f off st) r' Q"
  shows "refines (and_then (value_offset base st) f) r' Q"
  using assms by (simp add: value_offset_def fail_def refines_iff)

lemma refines_string_value:
  assumes "ready st" "base \<le> p_current st"
  shows "refines (and_then (value_offset base st) (\<lambda>off st. and_then (parse_string env st) (\<lambda>latin1 st.
        Done (set_latin_or_int latin1 (set_value off (set_type type_string 0))) st)))
      (and_then (read_string (p_json st)) (\<lambda>key. Done (Json_String (snd key)))) (value_done st base)"
proof (rule refines_value_offset)
  fix off assume off: "off = p_current st - base" "int (p_current st) - int base < max_size"
  show "refines (and_then (parse_string env st) (\<lambda>latin1 st.
        Done (set_latin_or_int latin1 (set_value off (set_type type_string 0))) st))
      (and_then (read_string (p_json st)) (\<lambda>key. Done (Json_String (snd key)))) (value_done st base)"
  proof (rule refines_bind [OF refines_parse_string [OF assms(1)]])
    fix latin1 key st'
    assume k: "string_done st latin1 key st'"
    have "unat (value_value (set_value off (set_type type_string 0))) = p_current st - base"
      using off assms(2) by (subst value_value_set_value) auto
    then have "value_in (p_data st') (p_current st) (p_current st') base
        (set_latin_or_int latin1 (set_value off (set_type type_string 0))) (Json_String (snd key))"
      using k assms(2) by (cases key) (auto simp: string_done_def)
    then show "refines (Done (set_latin_or_int latin1 (set_value off (set_type type_string 0))) st')
        (Done (Json_String (snd key)) (p_json st')) (value_done st base)"
      using k by (simp add: value_done_def string_done_def)
  qed
qed

section \<open>Arrays and objects\<close>

lemma put_base:
  assumes "b + 12 \<le> length m" "table_offset < 2 ^ 32" "byte_size < 2 ^ 32" "n < 2 ^ 31"
  shows "length (put_base m b table_offset byte_size is_object n) = length m"
    "base_size (put_base m b table_offset byte_size is_object n) b = byte_size"
    "base_is_object (put_base m b table_offset byte_size is_object n) b = is_object"
    "base_length (put_base m b table_offset byte_size is_object n) b = n"
    "base_table_offset (put_base m b table_offset byte_size is_object n) b = table_offset"
    "hi \<le> b \<or> b + 12 \<le> lo \<Longrightarrow> same_on m (put_base m b table_offset byte_size is_object n) lo hi"
proof -
  define m1 where "m1 = put32 m (b + 8) (of_nat table_offset)"
  define m2 where "m2 = put32 m1 b (of_nat byte_size)"
  define m3 where "m3 = put32 m2 (b + 4) (bitfield_set 0 1 (of_bool is_object) (get32 m2 (b + 4)))"
  define m4 where "m4 = put32 m3 (b + 4) (bitfield_set 1 31 (of_nat n) (get32 m3 (b + 4)))"
  have eq: "put_base m b table_offset byte_size is_object n = m4"
    by (simp add: put_base_def m1_def m2_def m3_def m4_def Let_def)
  have len: "length m1 = length m" "length m2 = length m" "length m3 = length m" "length m4 = length m"
    using assms(1) by (simp_all add: m1_def m2_def m3_def m4_def)
  have s: "same_on m1 m2 (b + 4) (b + 12)" "same_on m2 m3 b (b + 4)" "same_on m2 m3 (b + 8) (b + 12)"
    "same_on m3 m4 b (b + 4)" "same_on m3 m4 (b + 8) (b + 12)"
    using assms(1) len by (auto simp: m2_def m3_def m4_def intro!: same_on_put(2))
  have "get32 m4 b = of_nat byte_size"
    using assms(1) len same_on_get(3) [OF same_on_trans [OF s(2,4)], of b] by (simp add: m2_def)
  then show "base_size (put_base m b table_offset byte_size is_object n) b = byte_size"
    using assms(3) by (simp add: eq base_size_def unat_of_nat take_bit_nat_eq_self)
  have "get32 m4 (b + 8) = get32 m2 (b + 8)"
    using same_on_get(3) [OF same_on_trans [OF s(3,5)], of "b + 8"] by simp
  also have "\<dots> = of_nat table_offset"
    using assms(1) same_on_get(3) [OF s(1), of "b + 8"] by (simp add: m1_def)
  finally show "base_table_offset (put_base m b table_offset byte_size is_object n) b = table_offset"
    using assms(2) by (simp add: eq base_table_offset_def unat_of_nat take_bit_nat_eq_self)
  have w: "get32 m4 (b + 4) = bitfield_set 1 31 (of_nat n) (bitfield_set 0 1 (of_bool is_object) (get32 m2 (b + 4)))"
    using assms(1) len by (simp add: m4_def m3_def)
  show "base_is_object (put_base m b table_offset byte_size is_object n) b = is_object"
    by (simp add: eq base_is_object_def w bitfield_get_other bitfield_get_set)
  show "base_length (put_base m b table_offset byte_size is_object n) b = n"
    using assms(4)
    by (simp add: eq base_length_def w bitfield_get_set unsigned_take_bit_eq unat_of_nat take_bit_nat_eq_self)
  show "length (put_base m b table_offset byte_size is_object n) = length m"
    by (simp add: eq len)
  show "same_on m (put_base m b table_offset byte_size is_object n) lo hi" if "hi \<le> b \<or> b + 12 \<le> lo"
    unfolding eq
    by (rule same_on_trans [of _ m1], use that assms(1) in \<open>force simp: m1_def intro!: same_on_put(2)\<close>)
      (rule same_on_trans [of _ m2], use that assms(1) len in \<open>force simp: m2_def intro!: same_on_put(2)\<close>,
       rule same_on_trans [of _ m3], use that assms(1) len in \<open>force simp: m3_def intro!: same_on_put(2)\<close>,
       use that assms(1) len in \<open>force simp: m4_def intro!: same_on_put(2)\<close>)
qed

lemma length_concat_le_bytes [simp]: "length (concat (map le_bytes ws)) = 4 * length ws"
  by (induction ws) auto

lemma nth_concat_le_bytes: "i < 4 * length ws \<Longrightarrow> concat (map le_bytes ws) ! i = le_bytes (ws ! (i div 4)) ! (i mod 4)"
proof (induction ws arbitrary: i)
  case (Cons w ws)
  show ?case
  proof (cases "i < 4")
    case False
    then obtain k where "i = k + 4"
      by (metis add.commute le_Suc_ex not_less)
    moreover have "(k + 4) div 4 = Suc (k div 4)"
      by simp
    ultimately show ?thesis
      using Cons by (simp add: nth_append del: add_2_eq_Suc')
  qed (simp add: nth_append)
qed simp

lemma get32_table:
  assumes "p + 4 * length ws \<le> length m" "i < length ws"
  shows "get32 (mem_write m p (concat (map le_bytes ws))) (p + 4 * i) = ws ! i"
proof -
  have "get8 (mem_write m p (concat (map le_bytes ws))) (p + 4 * i + k) = le_bytes (ws ! i) ! k" if "k < 4" for k
  proof -
    have "4 * i + k < 4 * length ws" "(4 * i + k) div 4 = i" "(4 * i + k) mod 4 = k"
      using that assms(2) by (simp_all add: algebra_simps)
    then show ?thesis
      using assms that by (simp add: get8_mem_write nth_concat_le_bytes)
  qed
  from this [of 0] this [of 1] this [of 2] this [of 3] show ?thesis
    by (simp add: get32_def)
qed

text \<open>An entry of an object; the entries and values that a table lists.\<close>

definition entry_in :: "byte list \<Rightarrow> nat \<Rightarrow> nat \<Rightarrow> nat \<Rightarrow> nat \<Rightarrow> json_key \<Rightarrow> json \<Rightarrow> bool" where
  "entry_in m lo hi b e key t \<longleftrightarrow>
     lo \<le> e \<and> entry_latin m e = fst key \<and> key_in m lo hi (e + 4) key \<and> value_in m lo hi b (entry_value m e) t"

lemma entry_in_same: "entry_in m lo hi b e key t \<Longrightarrow> same_on m m' lo hi \<Longrightarrow> entry_in m' lo hi b e key t"
proof -
  assume a: "entry_in m lo hi b e key t" and s: "same_on m m' lo hi"
  have "e + 4 \<le> hi"
    using a by (auto simp: entry_in_def key_in_def split: if_splits)
  then have "entry_value m' e = entry_value m e"
    using a same_on_get(3) [OF s] by (simp add: entry_in_def entry_value_def)
  then show ?thesis
    using a key_in_same [OF _ s] in_same(1) [OF _ s] by (simp add: entry_in_def entry_latin_def)
qed

lemma entry_in_mono: "entry_in m lo hi b e key t \<Longrightarrow> lo' \<le> lo \<Longrightarrow> hi \<le> hi' \<Longrightarrow> entry_in m lo' hi' b e key t"
  by (auto simp: entry_in_def intro: key_in_mono value_in_mono)

lemma values_in_nth: "values_in m hi b i ts \<longleftrightarrow> (\<forall>k<length ts. value_in m (b + 12) hi b (array_at m b (i + k)) (ts ! k))"
  by (induction ts arbitrary: i) (auto simp: all_less_Suc_split)

lemma entries_in_nth:
  "entries_in m hi b i ms \<longleftrightarrow>
     (\<forall>k<length ms. entry_in m (b + 12) hi b (entry_at m b (i + k)) (fst (ms ! k)) (snd (ms ! k)))"
  by (induction ms arbitrary: i) (auto simp: all_less_Suc_split entry_in_def Let_def)

definition values_ok :: "byte list \<Rightarrow> nat \<Rightarrow> nat \<Rightarrow> u32 list \<Rightarrow> json list \<Rightarrow> bool" where
  "values_ok m hi b vs ts \<longleftrightarrow> list_all2 (value_in m (b + 12) hi b) vs ts"

definition entries_ok :: "byte list \<Rightarrow> nat \<Rightarrow> nat \<Rightarrow> nat list \<Rightarrow> (json_key \<times> json) list \<Rightarrow> bool" where
  "entries_ok m hi b offsets ms \<longleftrightarrow>
     list_all2 (\<lambda>off kt. entry_in m (b + 12) hi b (b + off) (fst kt) (snd kt)) offsets ms"

lemma values_ok_extend: "values_ok m hi b vs ts \<Longrightarrow> same_on m m' 0 hi \<Longrightarrow> hi \<le> hi' \<Longrightarrow> values_ok m' hi' b vs ts"
  unfolding values_ok_def
  by (erule list_all2_mono) (meson in_same(1) value_in_mono same_on_mono le0 order_refl)

lemma entries_ok_extend: "entries_ok m hi b offsets ms \<Longrightarrow> same_on m m' 0 hi \<Longrightarrow> hi \<le> hi' \<Longrightarrow> entries_ok m' hi' b offsets ms"
  unfolding entries_ok_def
  by (erule list_all2_mono) (meson entry_in_same entry_in_mono same_on_mono le0 order_refl)

text \<open>What is known of a state inside an array or object at \<open>b\<close>, whose header is not yet written.\<close>

definition opened :: "parser \<Rightarrow> parser \<Rightarrow> bool" where
  "opened st st' \<longleftrightarrow>
     ready st' \<and> 4 dvd p_current st \<and> p_current st + 12 \<le> p_current st' \<and> length (p_data st) \<le> length (p_data st') \<and>
     same_on (p_data st) (p_data st') 0 (p_current st) \<and> p_nesting st' = p_nesting st + 1"

lemma opened_extends: "opened st st' \<Longrightarrow> extends st' st'' \<Longrightarrow> ready st'' \<Longrightarrow> opened st st''"
  using same_on_trans [of "p_data st" "p_data st'" 0 "p_current st" "p_data st''"]
    same_on_mono [of "p_data st'" "p_data st''" 0 "p_current st'" 0 "p_current st"]
  by (simp add: opened_def extends_def)

lemma opened_json [simp]: "opened st (st'\<lparr>p_json := json\<rparr>) = opened st st'" "opened (st\<lparr>p_json := json\<rparr>) st' = opened st st'"
  by (simp_all add: opened_def)

lemma refines_write_table:
  assumes o: "opened st0 st" and b: "b = p_current st0"
    and Q: "\<And>st'. ready st' \<Longrightarrow> extends st0 st' \<Longrightarrow> p_json st' = p_json st \<Longrightarrow>
      base_in (p_data st') b (p_current st') b is_object (length ws) \<Longrightarrow> b + base_size (p_data st') b = p_current st' \<Longrightarrow>
      same_on (p_data st) (p_data st') (b + 12) (p_current st) \<Longrightarrow>
      (ws \<noteq> [] \<Longrightarrow> b + base_table_offset (p_data st') b = p_current st) \<Longrightarrow>
      (\<forall>i<length ws. get32 (p_data st') (b + base_table_offset (p_data st') b + 4 * i) = ws ! i) \<Longrightarrow> Q () r st'"
  shows "refines (write_table env b is_object ws st) (Done r (p_json st)) Q"
proof -
  have rd: "room st" "ready st" "b + 12 \<le> p_current st"
    using o b by (simp_all add: opened_def ready_def)
  define P where "P = (\<lambda>table (u :: unit) st'. ready st' \<and> extends st st' \<and> p_json st' = p_json st \<and> b \<le> table \<and>
    p_current st' = p_current st + 4 * length ws \<and> (ws \<noteq> [] \<longrightarrow> table = p_current st) \<and> (ws = [] \<longrightarrow> table = b) \<and>
    (\<forall>i<length ws. get32 (p_data st') (table + 4 * i) = ws ! i))"
  have table: "refines (if ws \<noteq> []
      then if 4 * length ws > int_max then Undefined else and_then (reserve_space env (4 * length ws) st) (\<lambda>table st.
             Done table (st\<lparr>p_data := mem_write (p_data st) table (concat (map le_bytes ws))\<rparr>))
      else Done b st) (Done () (p_json st)) P"
  proof (cases "ws = []")
    case True
    then show ?thesis
      using rd by (simp add: P_def)
  next
    case False
    have "refines (and_then (reserve_space env (4 * length ws) st) (\<lambda>table st.
             Done table (st\<lparr>p_data := mem_write (p_data st) table (concat (map le_bytes ws))\<rparr>))) (Done () (p_json st)) P"
    proof (rule refines_reserve_room [OF rd(1)])
      fix st'
      assume r: "p_json st' = p_json st" "p_current st' = p_current st + 4 * length ws" "room st'" "extends st st'"
      define st2 where "st2 = st'\<lparr>p_data := mem_write (p_data st') (p_current st) (concat (map le_bytes ws))\<rparr>"
      have len: "length (p_data st2) = length (p_data st')"
        using r(2,3) by (simp add: st2_def room_def)
      have "same_on (p_data st') (p_data st2) 0 (p_current st)"
        unfolding st2_def using r(2,3) by (simp add: same_on_write room_def)
      then have e: "extends st st2"
        using r(2,4) len by (auto simp: extends_def st2_def intro: same_on_trans)
      have "\<forall>i<length ws. get32 (p_data st2) (p_current st + 4 * i) = ws ! i"
        unfolding st2_def using r(2,3) by (auto simp: room_def intro!: get32_table)
      then show "refines (Done (p_current st) (st'\<lparr>p_data := mem_write (p_data st') (p_current st) (concat (map le_bytes ws))\<rparr>))
          (Done () (p_json st)) P"
        using r e len False rd by (simp add: st2_def [symmetric] P_def ready_def room_def) (simp add: st2_def)
    qed
    then show ?thesis
      using False by (simp add: refines_iff)
  qed
  have "refines (write_table env b is_object ws st) (and_then (Done () (p_json st)) (\<lambda>_ json. Done r json)) Q"
    unfolding write_table_def
  proof (rule refines_bind [OF table])
    fix table and u :: unit and st1
    assume "P table u st1"
    then have st1: "ready st1" "extends st st1" "p_json st1 = p_json st" "b \<le> table"
      "p_current st1 = p_current st + 4 * length ws" "ws \<noteq> [] \<Longrightarrow> table = p_current st" "ws = [] \<Longrightarrow> table = b"
      "\<And>i. i < length ws \<Longrightarrow> get32 (p_data st1) (table + 4 * i) = ws ! i"
      by (simp_all add: P_def)
    define m where "m = put_base (p_data st1) b (table - b) (p_current st1 - b) is_object (length ws)"
    define st2 where "st2 = st1\<lparr>p_data := m, p_nesting := p_nesting st1 - 1\<rparr>"
    have small: "p_current st1 < length (p_data st1)" "length (p_data st1) < 2 ^ 31" "b + 12 \<le> length (p_data st1)"
      using st1(1,5) rd(3) by (simp_all add: ready_def room_def)
    have bounds: "table \<le> p_current st1" "p_current st1 - b < 2 ^ 32" "table - b < 2 ^ 32" "length ws < 2 ^ 31"
      using st1(5-7) small rd(3) by (cases "ws = []"; simp)+
    note pb = put_base [where is_object = is_object, OF small(3) bounds(3,2,4), folded m_def]
    have al: "4 dvd b" "4 dvd p_current st1 - b" "4 dvd table - b"
      using o st1(5-7) by (cases "ws = []"; simp add: opened_def ready_def b dvd_diff_nat)+
    have in_b: "base_in m b (p_current st1) b is_object (length ws)"
      using pb st1(5-7) rd(3) small al by (cases "ws = []") (auto simp: base_in_def)
    have s: "same_on (p_data st1) m 0 b" "same_on (p_data st1) m (b + 12) (p_current st1)"
      by (rule pb(6), simp)+
    have e: "extends st0 st2"
    proof -
      have "same_on (p_data st0) (p_data st1) 0 b"
        using o st1(2) rd(3) same_on_trans same_on_mono [of "p_data st" "p_data st1" 0 "p_current st" 0 b]
        by (auto simp: opened_def extends_def b)
      then show ?thesis
        using o st1(2) s(1) pb(1) same_on_trans by (auto simp: extends_def opened_def st2_def b)
    qed
    have "\<forall>i<length ws. get32 m (table + 4 * i) = ws ! i"
      using st1(5,6,8) rd(3) same_on_get(3) [OF s(2)] by (cases "ws = []") auto
    moreover have "same_on (p_data st) m (b + 12) (p_current st)"
      using same_on_trans [OF same_on_mono [of "p_data st" "p_data st1" 0 "p_current st" "b + 12" "p_current st"]
        same_on_mono [OF s(2), of "b + 12" "p_current st"]] st1(2,5) by (simp add: extends_def)
    ultimately have "Q () r st2"
      using Q [of st2] e in_b pb st1 rd(3) small by (simp add: st2_def ready_def room_def)
    then show "refines (Done () (st1\<lparr>p_data := put_base (p_data st1) b (table - b) (p_current st1 - b) is_object (length ws),
        p_nesting := p_nesting st1 - 1\<rparr>)) (Done r (p_json st1)) Q"
      by (simp add: st2_def m_def)
  qed
  then show ?thesis
    by simp
qed

section \<open>The keys of an object\<close>

lemma local_less_key:
  assumes "key_in m lo hi p k" "key_in m lo' hi' q l"
  shows "local_less m (fst k) p (fst l) q = key_less k l"
proof -
  have "get16 m (q + 4) = 0 \<longleftrightarrow> snd l = [] \<or> hd (snd l) = 0" if "\<not> fst l"
  proof -
    have "snd l = utf16_at m q" "snd l \<noteq> []"
      using that assms(2) by (simp_all add: key_in_def string_at_def)
    moreover from this have "hd (utf16_at m q) = get16 m (q + 4)"
      by (cases "unat (get32 m q)") (simp_all add: utf16_at_def upt_conv_Cons del: upt_Suc)
    ultimately show ?thesis
      by simp
  qed
  moreover have "get8 m (q + 2) = 0 \<longleftrightarrow> snd l = [] \<or> hd (snd l) = 0" if "fst l"
  proof (cases "snd l = []")
    case False
    have l: "snd l = map ucast (latin1_at m q)"
      using that assms(2) by (simp add: key_in_def string_at_def)
    with False have "hd (snd l) = ucast (get8 m (q + 2))"
      by (cases "unat (get16 m q)") (simp_all add: latin1_at_def upt_conv_Cons del: upt_Suc)
    moreover have "ucast w = (0 :: u16) \<longleftrightarrow> w = 0" for w :: byte
      by transfer (simp add: take_bit_take_bit)
    ultimately show ?thesis
      using False by simp
  qed (use that assms(2) in \<open>simp add: key_in_def\<close>)
  ultimately show ?thesis
    using assms by (auto simp: local_less_def key_less_def key_in_def)
qed

lemma entry_compare:
  assumes "entry_in m lo hi b e k t" "entry_in m lo' hi' b' f l u"
  shows "entry_ge m e f = (\<not> key_less k l)" "entry_equal m e f = (snd k = snd l)"
proof -
  have k: "key_in m lo hi (e + 4) k" "key_in m lo' hi' (f + 4) l" "entry_latin m e = fst k" "entry_latin m f = fst l"
    using assms by (simp_all add: entry_in_def)
  show "entry_ge m e f = (\<not> key_less k l)"
    using local_less_key [OF k(1,2)] k(3,4) by (simp add: entry_ge_def)
  show "entry_equal m e f = (snd k = snd l)"
    using k by (simp add: entry_equal_def local_equal_def key_in_def)
qed

lemma lower_bound_cong:
  "(\<And>i. low \<le> i \<Longrightarrow> i < low + n \<Longrightarrow> ge i = ge' i) \<Longrightarrow> lower_bound ge low n = lower_bound ge' low n"
proof (induction ge low n rule: lower_bound.induct)
  case (1 ge low n)
  show ?case
  proof (cases "n = 0")
    case False
    have "ge (low + n div 2) = ge' (low + n div 2)"
      using False by (intro "1.prems") simp_all
    then show ?thesis
      using False "1.IH" [OF False refl refl] "1.prems"
      by (subst (1 2) lower_bound.simps) (auto simp: Let_def)
  qed (simp add: lower_bound.simps)
qed

lemma object_insert_entries:
  assumes "entries_ok m hi b offsets ms" "entry_in m (b + 12) hi b (b + off) (fst kt) (snd kt)"
  shows "entries_ok m hi b (object_insert m b off offsets) (insert_member kt ms)"
proof -
  have len: "length offsets = length ms"
    using assms(1) by (simp add: entries_ok_def list_all2_lengthD)
  have entry: "entry_in m (b + 12) hi b (b + offsets ! i) (fst (ms ! i)) (snd (ms ! i))" if "i < length ms" for i
    using assms(1) that len by (simp add: entries_ok_def list_all2_conv_all_nth)
  define low where "low = lower_bound (\<lambda>middle. \<not> key_less (fst (ms ! middle)) (fst kt)) 0 (length ms)"
  have "lower_bound (\<lambda>middle. entry_ge m (b + offsets ! middle) (b + off)) 0 (length offsets) = low"
    unfolding low_def len by (rule lower_bound_cong) (use entry_compare(1) [OF entry assms(2)] in simp)
  moreover have "entry_equal m (b + offsets ! low) (b + off) = (snd (fst (ms ! low)) = snd (fst kt))" if "low < length ms"
    using entry [OF that] entry_compare(2) [OF _ assms(2)] by blast
  ultimately have i: "object_insert m b off offsets =
      (if low < length ms \<and> snd (fst (ms ! low)) = snd (fst kt) then offsets[low := off] else offsets @ [off])"
    by (auto simp: object_insert_def Let_def len)
  have r: "insert_member kt ms =
      (if low < length ms \<and> snd (fst (ms ! low)) = snd (fst kt) then ms[low := kt] else ms @ [kt])"
    by (simp add: insert_member_def Let_def low_def)
  show ?thesis
    unfolding i r using assms
    by (auto simp: entries_ok_def intro!: list_all2_update_cong list_all2_appendI)
qed

section \<open>Members\<close>

definition value_refines :: "value_parser \<Rightarrow> value_reader \<Rightarrow> nat \<Rightarrow> bool" where
  "value_refines pv rv nesting \<longleftrightarrow>
     (\<forall>st base. ready st \<longrightarrow> base \<le> p_current st \<longrightarrow> p_nesting st = nesting \<longrightarrow>
        refines (pv base st) (rv (p_json st)) (value_done st base))"

definition key_done :: "parser \<Rightarrow> nat \<times> bool \<Rightarrow> json_key \<Rightarrow> parser \<Rightarrow> bool" where
  "key_done st el key st' \<longleftrightarrow>
     fst el = p_current st \<and> snd el = fst key \<and> ready st' \<and> extends st st' \<and> p_current st + 4 \<le> p_current st' \<and>
     key_in (p_data st') (p_current st + 4) (p_current st') (p_current st + 4) key"

lemma refines_parse_key:
  assumes st: "ready st"
  shows "refines (parse_key env st) (read_key (p_json st)) (key_done st)"
  unfolding parse_key_def read_key_def
proof (rule refines_reserve_room)
  fix st1
  assume r: "p_json st1 = p_json st" "p_current st1 = p_current st + 4" "room st1" "extends st st1"
  have "ready st1"
    using st r by (simp add: ready_def)
  from refines_parse_string [OF this]
  show "refines (and_then (parse_string env st1) (\<lambda>latin1 st'.
      let (token, json) = next_token (p_json st'); st' = st'\<lparr>p_json := json\<rparr>
      in if token \<noteq> 0x3a then fail Missing_Name_Separator st'
         else let st' = st'\<lparr>p_json := eat_space json\<rparr>
              in if p_json st' = [] then fail Unterminated_Object st' else Done (p_current st, latin1) st'))
     (and_then (read_string (p_json st)) (\<lambda>key json.
      let (token, json) = next_token json
      in if token \<noteq> 0x3a then read_fail Missing_Name_Separator json
         else let json = eat_space json
              in if json = [] then read_fail Unterminated_Object json else Done key json)) (key_done st)"
    unfolding r(1)
  proof (rule refines_bind)
    fix latin1 key st2
    assume d: "string_done st1 latin1 key st2"
    obtain token json where tj: "next_token (p_json st2) = (token, json)"
      by fastforce
    have "key_done st (p_current st, latin1) key st2"
      using d r extends_trans [OF r(4)] by (auto simp: key_done_def string_done_def extends_def)
    then show "refines
        (let (token, json) = next_token (p_json st2); st' = st2\<lparr>p_json := json\<rparr>
         in if token \<noteq> 0x3a then fail Missing_Name_Separator st'
            else let st' = st'\<lparr>p_json := eat_space json\<rparr>
                 in if p_json st' = [] then fail Unterminated_Object st' else Done (p_current st, latin1) st')
        (let (token, json) = next_token (p_json st2)
         in if token \<noteq> 0x3a then read_fail Missing_Name_Separator json
            else let json = eat_space json
                 in if json = [] then read_fail Unterminated_Object json else Done key json) (key_done st)"
      by (auto simp: tj Let_def key_done_def intro: refines_fail)
  qed
qed (use st in \<open>simp_all add: ready_def\<close>)

definition member_done :: "parser \<Rightarrow> nat \<Rightarrow> json_key \<times> json \<Rightarrow> parser \<Rightarrow> bool" where
  "member_done st b kt st' \<longleftrightarrow>
     ready st' \<and> extends st st' \<and> entry_in (p_data st') (p_current st) (p_current st') b (p_current st) (fst kt) (snd kt)"

lemma refines_parse_member:
  assumes st: "ready st" "b \<le> p_current st" and pv: "value_refines pv rv (p_nesting st)"
  shows "refines (parse_member env pv b st) (read_member rv (p_json st)) (\<lambda>_. member_done st b)"
  unfolding parse_member_def read_member_def
proof (rule refines_bind [OF refines_parse_key [OF st(1)]], clarify)
  fix e latin1 and key :: json_key and st1
  assume k: "key_done st (e, latin1) key st1"
  let ?p = "p_current st"
  have k': "e = ?p" "latin1 = fst key" "ready st1" "extends st st1" "?p + 4 \<le> p_current st1"
    "key_in (p_data st1) (?p + 4) (p_current st1) (?p + 4) key"
    using k by (simp_all add: key_done_def)
  have v: "refines (pv b st1) (rv (p_json st1)) (value_done st1 b)"
    using pv st(2) k'(3,4) by (simp add: value_refines_def extends_def)
  show "refines (and_then (pv b st1) (\<lambda>val st. Done () (st\<lparr>p_data := put32 (p_data st) e (set_latin_key latin1 val)\<rparr>)))
      (and_then (rv (p_json st1)) (\<lambda>t json. Done (key, t) json)) (\<lambda>_. member_done st b)"
  proof (rule refines_bind [OF v])
    fix val t st2
    assume d: "value_done st1 b val t st2"
    define m where "m = put32 (p_data st2) ?p (set_latin_key latin1 val)"
    have len: "?p + 4 \<le> length (p_data st2)" "?p + 4 \<le> p_current st2" "ready st2" "extends st1 st2"
      "value_in (p_data st2) (p_current st1) (p_current st2) b val t"
      using d k'(5) by (auto simp: value_done_def extends_def ready_def room_def)
    have s: "same_on (p_data st2) m 0 ?p" "same_on (p_data st2) m (?p + 4) (p_current st2)"
      unfolding m_def using len(1) by (auto intro!: same_on_put(2))
    have "entry_value m ?p = set_latin_key latin1 val"
      using len(1) by (simp add: m_def entry_value_def)
    moreover have "key_in m (?p + 4) (p_current st2) (?p + 4) key"
      using key_in_same [OF key_in_mono [OF key_in_same [OF k'(6)]] s(2)] len(4)
      by (auto simp: extends_def intro: same_on_mono [of _ _ 0 "p_current st1"])
    moreover have "value_in m ?p (p_current st2) b val t"
      using value_in_mono [OF in_same(1) [OF value_in_mono [OF len(5)] s(2)]] k'(5) by simp
    ultimately have "entry_in m ?p (p_current st2) b ?p key t"
      using k'(2) key_in_mono [of m "?p + 4" "p_current st2" "?p + 4" key ?p "p_current st2"]
      by (simp add: entry_in_def entry_latin_def)
    moreover have "extends st (st2\<lparr>p_data := m\<rparr>)"
      using extends_trans [OF k'(4) len(4)] s(1) len(1) same_on_trans by (auto simp: extends_def m_def)
    ultimately have "member_done st b (key, t) (st2\<lparr>p_data := m\<rparr>)"
      using len(1,3) by (simp add: member_done_def ready_def room_def m_def)
    then show "refines (Done () (st2\<lparr>p_data := put32 (p_data st2) e (set_latin_key latin1 val)\<rparr>))
        (Done (key, t) (p_json st2)) (\<lambda>_. member_done st b)"
      by (simp add: m_def k'(1))
  qed
qed

section \<open>The loops\<close>

lemma refines_array_separator: "refines (array_separator st) (read_separator (p_json st))
    (\<lambda>more more' st'. more = more' \<and> (\<exists>json. st' = st\<lparr>p_json := json\<rparr>))"
  by (cases "next_token (p_json st)") (auto simp: array_separator_def read_separator_def Let_def intro!: refines_fail)

lemma refines_append_value:
  "va_values values = vs \<Longrightarrow>
   refines (append_value env v values st) (Done ts (p_json st)) (\<lambda>values' ts' st'. va_values values' = vs @ [v] \<and> ts' = ts \<and> st' = st)"
  by (simp add: append_value_def Let_def refines_iff)

lemma refines_parse_elements:
  assumes b: "b = p_current st0" and pv: "value_refines pv rv (p_nesting st0 + 1)"
  shows "opened st0 st \<Longrightarrow> values_ok (p_data st) (p_current st) b (va_values va) ts \<Longrightarrow>
    refines (parse_elements env pv fuel b va st) (read_elements rv fuel ts (p_json st))
      (\<lambda>vs ts st'. opened st0 st' \<and> values_ok (p_data st') (p_current st') b vs ts)"
proof (induction fuel arbitrary: st va ts)
  case (Suc fuel)
  let ?json = "eat_space (p_json st)" and ?st = "st\<lparr>p_json := eat_space (p_json st)\<rparr>"
  define vs where "vs = va_values va"
  show ?case
  proof (cases "?json = []")
    case False
    have st: "ready st" "b \<le> p_current st" "p_nesting st = p_nesting st0 + 1" "b + 12 \<le> p_current st"
      using Suc.prems(1) b by (simp_all add: opened_def)
    have v: "refines (pv b ?st) (rv ?json) (value_done st b)"
      using pv [unfolded value_refines_def, rule_format, of ?st b] st by simp
    have "refines (and_then (pv b ?st) (\<lambda>val st. and_then (append_value env val va st) (\<lambda>va st.
          and_then (array_separator st) (\<lambda>more st.
          if more then parse_elements env pv fuel b va st else Done (va_values va) st))))
        (and_then (rv ?json) (\<lambda>t json. and_then (Done t json) (\<lambda>t json. and_then (read_separator json) (\<lambda>more json.
          if more then read_elements rv fuel (ts @ [t]) json else Done (ts @ [t]) json))))
        (\<lambda>vs ts st'. opened st0 st' \<and> values_ok (p_data st') (p_current st') b vs ts)"
    proof (rule refines_bind [OF v], rule refines_bind [OF refines_append_value [OF vs_def [symmetric]]], elim conjE,
        rule refines_bind [OF refines_array_separator], elim conjE exE)
      fix val t st1 and more more' :: bool and st2 json and va' :: value_array and t' st1'
      assume d: "value_done st b val t st1" and m: "more = more'" and st2: "st2 = st1'\<lparr>p_json := json\<rparr>"
        and a: "va_values va' = vs @ [val]" "t' = t" "st1' = st1"
      have d': "ready st1" "extends st st1" "value_in (p_data st1) (p_current st) (p_current st1) b val t"
        using d by (simp_all add: value_done_def)
      have "values_ok (p_data st1) (p_current st1) b vs ts"
        using values_ok_extend [OF Suc.prems(2)] d'(2) by (simp add: extends_def vs_def)
      moreover have "value_in (p_data st1) (b + 12) (p_current st1) b val t"
        using value_in_mono [OF d'(3)] st(4) by simp
      ultimately have "values_ok (p_data st2) (p_current st2) b (va_values va') (ts @ [t'])"
        by (auto simp: values_ok_def st2 a intro: list_all2_appendI)
      moreover have "opened st0 st2"
        using opened_extends [OF Suc.prems(1) d'(2,1)] by (simp add: st2 a)
      ultimately show "refines (if more then parse_elements env pv fuel b va' st2 else Done (va_values va') st2)
          (if more' then read_elements rv fuel (ts @ [t']) (p_json st2) else Done (ts @ [t']) (p_json st2))
          (\<lambda>vs ts st'. opened st0 st' \<and> values_ok (p_data st') (p_current st') b vs ts)"
        using Suc.IH m by simp
    qed
    then show ?thesis
      using False by (simp add: Let_def)
  qed (simp add: Let_def refines_fail)
qed simp

lemma refines_parse_members:
  assumes b: "b = p_current st0" and pv: "value_refines pv rv (p_nesting st0 + 1)"
  shows "opened st0 st \<Longrightarrow> entries_ok (p_data st) (p_current st) b offsets ms \<Longrightarrow>
    refines (parse_members env pv fuel b offsets token st) (read_members rv fuel ms token (p_json st))
      (\<lambda>offsets ms st'. opened st0 st' \<and> entries_ok (p_data st') (p_current st') b offsets ms)"
proof (induction fuel arbitrary: st offsets ms token)
  case (Suc fuel)
  show ?case
  proof (cases "token = 0x22")
    case False
    then show ?thesis
      using Suc.prems by (simp add: refines_fail)
  next
    case True
    have st: "ready st" "b \<le> p_current st" "p_nesting st = p_nesting st0 + 1" "b + 12 \<le> p_current st"
      using Suc.prems(1) b by (simp_all add: opened_def)
    let ?off = "p_current st - b"
    have "refines (and_then (parse_member env pv b st) (\<lambda>_ st.
           let offsets = object_insert (p_data st) b ?off offsets;
               (token, json) = next_token (p_json st); st = st\<lparr>p_json := json\<rparr>
           in if token \<noteq> 0x2c
              then if token \<noteq> 0x7d then fail Unterminated_Object st else Done offsets st
              else let (token, json) = next_token json; st = st\<lparr>p_json := json\<rparr>
                   in if token = 0x7d then fail Missing_Object st
                      else parse_members env pv fuel b offsets token st))
       (and_then (read_member rv (p_json st)) (\<lambda>kt json.
           let ms = insert_member kt ms; (token, json) = next_token json
           in if token \<noteq> 0x2c
              then if token \<noteq> 0x7d then read_fail Unterminated_Object json else Done ms json
              else let (token, json) = next_token json
                   in if token = 0x7d then read_fail Missing_Object json else read_members rv fuel ms token json))
       (\<lambda>offsets ms st'. opened st0 st' \<and> entries_ok (p_data st') (p_current st') b offsets ms)"
    proof (rule refines_bind [OF refines_parse_member [OF st(1,2)]])
      show "value_refines pv rv (p_nesting st)"
        using pv st(3) by simp
    next
      fix u :: unit and kt st1
      assume d: "member_done st b kt st1"
      define offsets' where "offsets' = object_insert (p_data st1) b ?off offsets"
      define ms' where "ms' = insert_member kt ms"
      have d': "ready st1" "extends st st1"
          "entry_in (p_data st1) (p_current st) (p_current st1) b (b + ?off) (fst kt) (snd kt)"
        using d st(2) by (simp_all add: member_done_def)
      have "entries_ok (p_data st1) (p_current st1) b offsets ms"
        using entries_ok_extend [OF Suc.prems(2)] d'(2) by (simp add: extends_def)
      then have ok: "entries_ok (p_data st1) (p_current st1) b offsets' ms'"
        unfolding offsets'_def ms'_def
        by (rule object_insert_entries) (use entry_in_mono [OF d'(3)] st(4) in simp)
      have o: "opened st0 st1"
        using opened_extends [OF Suc.prems(1) d'(2,1)] .
      obtain token1 json1 where t1: "next_token (p_json st1) = (token1, json1)"
        by fastforce
      obtain token2 json2 where t2: "next_token json1 = (token2, json2)"
        by fastforce
      have "refines (parse_members env pv fuel b offsets' token2 (st1\<lparr>p_json := json2\<rparr>))
          (read_members rv fuel ms' token2 json2)
          (\<lambda>offsets ms st'. opened st0 st' \<and> entries_ok (p_data st') (p_current st') b offsets ms)"
        using Suc.IH [of "st1\<lparr>p_json := json2\<rparr>" offsets' ms' token2] o ok by simp
      then show "refines
          (let offsets = object_insert (p_data st1) b ?off offsets;
               (token, json) = next_token (p_json st1); st = st1\<lparr>p_json := json\<rparr>
           in if token \<noteq> 0x2c
              then if token \<noteq> 0x7d then fail Unterminated_Object st else Done offsets st
              else let (token, json) = next_token json; st = st\<lparr>p_json := json\<rparr>
                   in if token = 0x7d then fail Missing_Object st
                      else parse_members env pv fuel b offsets token st)
          (let ms = insert_member kt ms; (token, json) = next_token (p_json st1)
           in if token \<noteq> 0x2c
              then if token \<noteq> 0x7d then read_fail Unterminated_Object json else Done ms json
              else let (token, json) = next_token json
                   in if token = 0x7d then read_fail Missing_Object json else read_members rv fuel ms token json)
          (\<lambda>offsets ms st'. opened st0 st' \<and> entries_ok (p_data st') (p_current st') b offsets ms)"
        using o ok by (simp add: Let_def t1 t2 offsets'_def ms'_def refines_fail)
    qed
    then show ?thesis
      using True by simp
  qed
qed simp

section \<open>Arrays, objects and values\<close>

text \<open>An array or an object is done: it starts at the old end of the output and ends at the new one.\<close>

definition base_done :: "parser \<Rightarrow> bool \<Rightarrow> nat \<Rightarrow> parser \<Rightarrow> bool" where
  "base_done st is_object n st' \<longleftrightarrow>
     ready st' \<and> extends st st' \<and> base_in (p_data st') (p_current st) (p_current st') (p_current st) is_object n \<and>
     p_current st + base_size (p_data st') (p_current st) = p_current st'"

definition array_done :: "parser \<Rightarrow> json list \<Rightarrow> parser \<Rightarrow> bool" where
  "array_done st ts st' \<longleftrightarrow>
     base_done st False (length ts) st' \<and>
     values_in (p_data st') (p_current st + base_table_offset (p_data st') (p_current st)) (p_current st) 0 ts"

definition object_done :: "parser \<Rightarrow> (json_key \<times> json) list \<Rightarrow> parser \<Rightarrow> bool" where
  "object_done st ms st' \<longleftrightarrow>
     base_done st True (length ms) st' \<and>
     entries_in (p_data st') (p_current st + base_table_offset (p_data st') (p_current st)) (p_current st) 0 ms"

lemma refines_array_table:
  assumes "opened st0 st" "values_ok (p_data st) (p_current st) (p_current st0) vs ts"
  shows "refines (write_table env (p_current st0) False vs st) (Done ts (p_json st)) (\<lambda>_. array_done st0)"
proof (rule refines_write_table [OF assms(1) refl])
  fix st'
  let ?b = "p_current st0"
  assume r: "ready st'" "extends st0 st'" "base_in (p_data st') ?b (p_current st') ?b False (length vs)"
    "?b + base_size (p_data st') ?b = p_current st'" "same_on (p_data st) (p_data st') (?b + 12) (p_current st)"
    "vs \<noteq> [] \<Longrightarrow> ?b + base_table_offset (p_data st') ?b = p_current st"
    "\<forall>i<length vs. get32 (p_data st') (?b + base_table_offset (p_data st') ?b + 4 * i) = vs ! i"
  have len: "length vs = length ts"
    using assms(2) by (simp add: values_ok_def list_all2_lengthD)
  have "value_in (p_data st') (?b + 12) (?b + base_table_offset (p_data st') ?b) ?b (vs ! k) (ts ! k)" if "k < length ts" for k
    using in_same(1) [OF _ r(5)] r(6) assms(2) that len
    by (cases vs) (simp_all add: values_ok_def list_all2_conv_all_nth)
  then have "values_in (p_data st') (?b + base_table_offset (p_data st') ?b) ?b 0 ts"
    using r(7) len by (simp add: values_in_nth array_at_def)
  then show "array_done st0 ts st'"
    using r(1-4) len by (simp add: array_done_def base_done_def)
qed

lemma refines_object_table:
  assumes "opened st0 st" "entries_ok (p_data st) (p_current st) (p_current st0) offsets ms"
  shows "refines (write_table env (p_current st0) True (map of_nat offsets) st) (Done ms (p_json st)) (\<lambda>_. object_done st0)"
proof (rule refines_write_table [OF assms(1) refl])
  fix st'
  let ?b = "p_current st0"
  assume r: "ready st'" "extends st0 st'"
    "base_in (p_data st') ?b (p_current st') ?b True (length (map of_nat offsets :: u32 list))"
    "?b + base_size (p_data st') ?b = p_current st'" "same_on (p_data st) (p_data st') (?b + 12) (p_current st)"
    "(map of_nat offsets :: u32 list) \<noteq> [] \<Longrightarrow> ?b + base_table_offset (p_data st') ?b = p_current st"
    "\<forall>i<length (map of_nat offsets :: u32 list).
       get32 (p_data st') (?b + base_table_offset (p_data st') ?b + 4 * i) = map of_nat offsets ! i"
  have len: "length offsets = length ms"
    using assms(2) by (simp add: entries_ok_def list_all2_lengthD)
  have "entry_in (p_data st') (?b + 12) (?b + base_table_offset (p_data st') ?b) ?b (entry_at (p_data st') ?b k)
      (fst (ms ! k)) (snd (ms ! k))"
    if k: "k < length ms" for k
  proof -
    have e: "entry_in (p_data st) (?b + 12) (p_current st) ?b (?b + offsets ! k) (fst (ms ! k)) (snd (ms ! k))"
      using assms(2) k len by (simp add: entries_ok_def list_all2_conv_all_nth)
    then have "?b + offsets ! k \<le> p_current st"
      by (auto simp: entry_in_def key_in_def split: if_splits)
    moreover have "p_current st < 2 ^ 31"
      using assms(1) by (simp add: opened_def ready_def room_def)
    ultimately have "unat (of_nat (offsets ! k) :: u32) = offsets ! k"
      by (simp add: unat_of_nat take_bit_nat_eq_self)
    then have "entry_at (p_data st') ?b k = ?b + offsets ! k"
      using r(7) k len by (simp add: entry_at_def)
    then show ?thesis
      using entry_in_same [OF e r(5)] r(6) k len by (cases offsets) simp_all
  qed
  then have "entries_in (p_data st') (?b + base_table_offset (p_data st') ?b) ?b 0 ms"
    by (simp add: entries_in_nth)
  then show "object_done st0 ms st'"
    using r(1-4) len by (simp add: object_done_def base_done_def)
qed

lemma refines_enter:
  "refines (enter st) (read_enter (p_nesting st) (p_json st)) (\<lambda>_ _ st'. st' = st\<lparr>p_nesting := p_nesting st + 1\<rparr>)"
  by (auto simp: enter_def read_enter_def Let_def intro!: refines_fail)

text \<open>The first step of an array or an object: the nesting is counted and the header is reserved.\<close>

lemma refines_open:
  assumes st: "ready st"
    and f: "\<And>st1. opened st st1 \<Longrightarrow> p_json st1 = p_json st \<Longrightarrow> refines (f (p_current st) st1) (g (p_json st)) Q"
  shows "refines (and_then (enter st) (\<lambda>_ st. and_then (reserve_space env 12 st) f))
    (and_then (read_enter (p_nesting st) (p_json st)) (\<lambda>_. g)) Q"
proof (rule refines_bind [OF refines_enter])
  fix u v :: unit and st0
  assume st0: "st0 = st\<lparr>p_nesting := p_nesting st + 1\<rparr>"
  show "refines (and_then (reserve_space env 12 st0) f) (g (p_json st0)) Q"
  proof (rule refines_reserve )
    fix st'
    assume r: "p_json st' = p_json st0" "p_nesting st' = p_nesting st0" "p_current st' = p_current st0 + 12"
      "room st'" "length (p_data st0) \<le> length (p_data st')" "same_on (p_data st0) (p_data st') 0 (length (p_data st0))"
    have "same_on (p_data st) (p_data st') 0 (p_current st)"
      using same_on_mono [OF r(6), of 0 "p_current st"] st by (simp add: st0 ready_def room_def)
    then have "opened st st'"
      using r st by (simp add: opened_def ready_def st0)
    then show "refines (f (p_current st0) st') (g (p_json st0)) Q"
      using f [of st'] r(1) by (simp add: st0)
  qed (use st in \<open>simp_all add: st0 ready_def room_def\<close>)
qed

lemma refines_parse_array:
  assumes st: "ready st" and pv: "value_refines pv rv (p_nesting st + 1)"
  shows "refines (parse_array env pv st) (read_array rv (p_nesting st) (p_json st)) (\<lambda>_. array_done st)"
  unfolding parse_array_def read_array_def
proof (rule refines_open [OF st])
  fix st1
  assume o: "opened st st1" and j: "p_json st1 = p_json st"
  let ?json = "eat_space (p_json st)" and ?st = "st1\<lparr>p_json := eat_space (p_json st)\<rparr>"
  define elements where "elements = (if hd ?json = 0x5d then Done [] (?st\<lparr>p_json := snd (next_token ?json)\<rparr>)
      else parse_elements env pv (Suc (length ?json)) (p_current st) new_values ?st)"
  have e: "refines elements
      (if hd ?json = 0x5d then Done [] (snd (next_token ?json)) else read_elements rv (Suc (length ?json)) [] ?json)
      (\<lambda>vs ts st'. opened st st' \<and> values_ok (p_data st') (p_current st') (p_current st) vs ts)"
    using refines_parse_elements [OF refl pv, of ?st new_values "[]" env "Suc (length ?json)"] o
    by (simp add: elements_def values_ok_def new_values_def del: parse_elements.simps read_elements.simps)
  have "refines (and_then elements (\<lambda>vs st2. write_table env (p_current st) False vs st2))
      (and_then (if hd ?json = 0x5d then Done [] (snd (next_token ?json)) else read_elements rv (Suc (length ?json)) [] ?json)
        (\<lambda>ts json. Done ts json)) (\<lambda>_. array_done st)"
    by (rule refines_bind [OF e]) (simp add: refines_array_table )
  moreover have "and_then r (\<lambda>ts json. Done ts json) = r" for r :: "json list reading"
    by (cases r) simp_all
  ultimately have "refines (and_then elements (\<lambda>vs st2. write_table env (p_current st) False vs st2))
      (if hd ?json = 0x5d then Done [] (snd (next_token ?json)) else read_elements rv (Suc (length ?json)) [] ?json)
      (\<lambda>_. array_done st)"
    by simp
  then show "refines
      (let st' = st1\<lparr>p_json := eat_space (p_json st1)\<rparr>
       in if p_json st' = [] then fail Unterminated_Array st'
          else and_then (if hd (p_json st') = 0x5d then Done [] (st'\<lparr>p_json := snd (next_token (p_json st'))\<rparr>)
                         else parse_elements env pv (Suc (length (p_json st'))) (p_current st) new_values st')
                (\<lambda>values st'. write_table env (p_current st) False values st'))
      (let json = ?json
       in if json = [] then read_fail Unterminated_Array json
          else if hd json = 0x5d then Done [] (snd (next_token json)) else read_elements rv (Suc (length json)) [] json)
      (\<lambda>_. array_done st)"
    by (cases "?json = []") (simp_all add: Let_def j refines_fail elements_def cong: if_cong)
qed

lemma refines_parse_object:
  assumes st: "ready st" and pv: "value_refines pv rv (p_nesting st + 1)"
  shows "refines (parse_object env pv st) (read_object rv (p_nesting st) (p_json st)) (\<lambda>_. object_done st)"
  unfolding parse_object_def read_object_def
proof (rule refines_open [OF st])
  fix st1
  assume o: "opened st st1" and j: "p_json st1 = p_json st"
  obtain token json where t: "next_token (p_json st) = (token, json)"
    by fastforce
  have e: "refines (parse_members env pv (Suc (length json)) (p_current st) [] token (st1\<lparr>p_json := json\<rparr>))
      (read_members rv (Suc (length json)) [] token json)
      (\<lambda>offsets ms st'. opened st st' \<and> entries_ok (p_data st') (p_current st') (p_current st) offsets ms)"
    using refines_parse_members [OF refl pv, of "st1\<lparr>p_json := json\<rparr>" "[]" "[]" env "Suc (length json)" token] o
    by (simp only: entries_ok_def opened_json parser.simps) (simp add: entries_ok_def del: parse_members.simps read_members.simps)
  have "refines (and_then (parse_members env pv (Suc (length json)) (p_current st) [] token (st1\<lparr>p_json := json\<rparr>))
        (\<lambda>offsets st2. write_table env (p_current st) True (map of_nat offsets) st2))
      (and_then (read_members rv (Suc (length json)) [] token json) (\<lambda>ms json. Done ms json)) (\<lambda>_. object_done st)"
    by (rule refines_bind [OF e]) (simp add: refines_object_table )
  moreover have "and_then r (\<lambda>ts json. Done ts json) = r" for r :: "(json_key \<times> json) list reading"
    by (cases r) simp_all
  ultimately show "refines
      (let (token, json) = next_token (p_json st1)
       in and_then (parse_members env pv (Suc (length json)) (p_current st) [] token (st1\<lparr>p_json := json\<rparr>)) (\<lambda>offsets st'.
          write_table env (p_current st) True (map of_nat offsets) st'))
      (let (token, json) = next_token (p_json st) in read_members rv (Suc (length json)) [] token json)
      (\<lambda>_. object_done st)"
    by (simp only: j t Let_def prod.case)
qed

end
