(* ===== verification/Json_Documents.thy ===== *)
theory Json_Documents
  imports Json_Refinement
begin

text \<open>The parser of values and of documents implements the reader.\<close>

lemma refines_if:
  "(c \<Longrightarrow> refines a a' Q) \<Longrightarrow> (\<not> c \<Longrightarrow> refines b b' Q) \<Longrightarrow> refines (if c then a else b) (if c then a' else b') Q"
  by simp

lemma refines_container:
  assumes st: "ready st" "base \<le> p_current st" and r: "refines (p st) r (\<lambda>_. P)"
    and P: "\<And>b st'. P b st' \<Longrightarrow> ready st' \<and> extends st st' \<and>
      (\<forall>v. value_type v = take_bit 3 ty \<longrightarrow> base + unat (value_value v) = p_current st \<longrightarrow>
        value_in (p_data st') (p_current st) (p_current st') base v (g b))"
  shows "refines (parse_container p (set_type ty 0) base st) (and_then r (\<lambda>b. Done (g b))) (value_done st base)"
  unfolding parse_container_def
proof (rule refines_value_offset)
  fix off
  assume off: "off = p_current st - base" "int (p_current st) - int base < max_size"
  have v: "value_type (set_value off (set_type ty 0)) = take_bit 3 ty"
    "base + unat (value_value (set_value off (set_type ty 0))) = p_current st"
    using off st(2) by (simp, subst value_value_set_value) auto
  show "refines (and_then (p st) (\<lambda>_ st. Done (set_value off (set_type ty 0)) st)) (and_then r (\<lambda>b. Done (g b)))
      (value_done st base)"
  proof (rule refines_bind [OF r])
    fix u :: unit and b st'
    assume "P b st'"
    then have "value_done st base (set_value off (set_type ty 0)) (g b) st'"
      using P [of b st'] v by (simp add: value_done_def)
    then show "refines (Done (set_value off (set_type ty 0)) st') (Done (g b) (p_json st')) (value_done st base)"
      by simp
  qed
qed

lemma array_done_value:
  assumes "array_done st ts st'"
  shows "ready st' \<and> extends st st' \<and>
      (\<forall>v. value_type v = take_bit 3 type_array \<longrightarrow> base + unat (value_value v) = p_current st \<longrightarrow>
        value_in (p_data st') (p_current st) (p_current st') base v (Json_Array ts))"
  using assms by (auto simp: array_done_def base_done_def Let_def)

lemma object_done_value:
  assumes "object_done st ms st'"
  shows "ready st' \<and> extends st st' \<and>
      (\<forall>v. value_type v = take_bit 3 type_object \<longrightarrow> base + unat (value_value v) = p_current st \<longrightarrow>
        value_in (p_data st') (p_current st) (p_current st') base v (Json_Object ms))"
  using assms by (auto simp: object_done_def base_done_def Let_def)

lemma refines_parse_value:
  "ready st \<Longrightarrow> base \<le> p_current st \<Longrightarrow>
    refines (parse_value env fuel base st) (read_value (env_to_double env) fuel (p_nesting st) (p_json st)) (value_done st base)"
proof (induction fuel arbitrary: st base)
  case (Suc fuel)
  let ?rest = "tl (p_json st)" and ?st = "st\<lparr>p_json := tl (p_json st)\<rparr>"
  let ?rv = "read_value (env_to_double env) fuel (p_nesting st + 1)"
  have pv: "value_refines (parse_value env fuel) ?rv (p_nesting ?st + 1)"
    unfolding value_refines_def
  proof (intro allI impI)
    fix st' base'
    assume a: "ready st'" "base' \<le> p_current st'" and n: "p_nesting st' = p_nesting ?st + 1"
    show "refines (parse_value env fuel base' st') (?rv (p_json st')) (value_done st' base')"
      using Suc.IH [OF a] n by simp
  qed
  have st: "ready ?st" "base \<le> p_current ?st"
    using Suc.prems by simp_all
  have array: "refines (parse_container (parse_array env (parse_value env fuel)) (set_type type_array 0) base ?st)
      (and_then (read_array ?rv (p_nesting st) ?rest) (\<lambda>ts. Done (Json_Array ts))) (value_done ?st base)"
    using refines_parse_array [OF st(1) pv] by (intro refines_container [OF st _ array_done_value]) simp_all
  have obj: "refines (parse_container (parse_object env (parse_value env fuel)) (set_type type_object 0) base ?st)
      (and_then (read_object ?rv (p_nesting st) ?rest) (\<lambda>ts. Done (Json_Object ts))) (value_done ?st base)"
    using refines_parse_object [OF st(1) pv] by (intro refines_container [OF st _ object_done_value]) simp_all
  have string: "refines (and_then (value_offset base ?st) (\<lambda>off st. and_then (parse_string env st) (\<lambda>latin1 st.
        Done (set_latin_or_int latin1 (set_value off (set_type type_string 0))) st)))
      (and_then (read_string ?rest) (\<lambda>key. Done (Json_String (snd key)))) (value_done ?st base)"
    using refines_string_value [OF st] by simp
  have lit: "refines (parse_literal cs v ?st) (read_literal cs t ?rest) (value_done ?st base)"
    if "value_in (p_data ?st) (p_current ?st) (p_current ?st) base v t" for cs v t
    using refines_parse_literal [OF st(1) that, of cs] by simp
  have number: "refines (parse_number env base 0 st) (read_number (env_to_double env) (p_json st)) (value_done st base)"
    using refines_parse_number [OF Suc.prems] .
  show ?case
    unfolding parse_value.simps read_value.simps Let_def
    by (intro refines_if array [unfolded value_done_json] obj [unfolded value_done_json] string [unfolded value_done_json]
        number lit [unfolded value_done_json] refines_fail) simp_all
qed simp

text \<open>The whole text: a document that is complete, or the error of the reader.\<close>

definition document_done :: "json \<Rightarrow> parser \<Rightarrow> bool" where
  "document_done t st \<longleftrightarrow>
     p_current st < length (p_data st) \<and> length (p_data st) < 2 ^ 31 \<and> 4 dvd p_current st \<and>
     document_in (p_data st) (p_current st) t"

lemma document_doneI:
  assumes "get32 (p_data st) 0 = binary_format_tag" "get32 (p_data st) 4 = 1" "p_current st = 8"
  shows "array_done st ts st' \<Longrightarrow> document_done (Json_Array ts) st'"
    "object_done st ms st' \<Longrightarrow> document_done (Json_Object ms) st'"
proof -
  have tag: "get32 (p_data st') 0 = binary_format_tag \<and> get32 (p_data st') 4 = 1" if "extends st st'"
    using that assms same_on_get(3) [of "p_data st" "p_data st'" 0 8] by (simp add: extends_def)
  show "document_done (Json_Array ts) st'" if "array_done st ts st'"
    using that tag assms(3)
    by (auto simp: array_done_def base_done_def document_done_def document_in_def ready_def room_def)
  show "document_done (Json_Object ms) st'" if "object_done st ms st'"
    using that tag assms(3)
    by (auto simp: object_done_def base_done_def document_done_def document_in_def ready_def room_def)
qed

lemma json_parse_refines:
  assumes len: "length text < 2 ^ 31"
  shows "case json_parse env fuel text of
      None \<Rightarrow> json_read (env_to_double env) fuel text = Out_Of_Fuel \<or>
        json_run env fuel (max (length text) 256) text = Undefined \<or> \<not> env_realloc env (max (length text) 256)
    | Some (Inl (e, offset)) \<Rightarrow>
        e = Document_Too_Large \<or>
        json_read (env_to_double env) fuel text = Failed e (int (length text) - offset)
    | Some (Inr (m, n)) \<Rightarrow>
        \<exists>t. json_read (env_to_double env) fuel text = Done t [] \<and> document_in m n t \<and> n < length m \<and> length m < 2 ^ 31 \<and> 4 dvd n"
proof -
  obtain token json where tj: "next_token (eat_bom text) = (token, json)"
    by fastforce
  define data where "data = map (env_junk env) [0..<max (length text) 256]"
  define st where "st = \<lparr>p_json = json, p_data = put32 (put32 data 0 binary_format_tag) 4 1, p_current = 8, p_nesting = 0\<rparr>"
  define end' where "end' = (\<lambda>st. let st = st\<lparr>p_json := eat_space (p_json st)\<rparr>
      in if p_json st \<noteq> [] then fail Garbage_At_End st else Done () st)"
  define rend where "rend = (\<lambda>t :: json. \<lambda>json. let json = eat_space json
      in if json \<noteq> [] then read_fail Garbage_At_End json else Done t json)"
  define r where "r = and_then (if token = 0x5b then parse_array env (parse_value env fuel) st
      else if token = 0x7b then parse_object env (parse_value env fuel) st else fail Illegal_Value st) (\<lambda>_. end')"
  have dlen: "length data = max (length text) 256"
    by (simp add: data_def)
  have st: "ready st" "p_nesting st = 0" "p_json st = json" "p_current st = 8"
    using dlen len by (simp_all add: st_def ready_def room_def)
  have tag: "get32 (p_data st) 0 = binary_format_tag" "get32 (p_data st) 4 = 1"
    using dlen same_on_get(3) [OF same_on_put(2) [of 4 "put32 data 0 binary_format_tag" 0 4 1], of 0]
    by (simp_all add: st_def)
  have pv: "value_refines (parse_value env fuel) (read_value (env_to_double env) fuel 1) (p_nesting st + 1)"
    unfolding value_refines_def
  proof (intro allI impI)
    fix st' base'
    assume a: "ready st'" "base' \<le> p_current st'" and n: "p_nesting st' = p_nesting st + 1"
    show "refines (parse_value env fuel base' st') (read_value (env_to_double env) fuel 1 (p_json st')) (value_done st' base')"
      using refines_parse_value [OF a] n st(2) by simp
  qed
  have e: "refines (end' st') (rend t (p_json st')) (\<lambda>_ t' st'. t' = t \<and> p_json st' = [] \<and> document_done t st')"
    if "document_done t st'" for t st'
    using that by (auto simp: end'_def rend_def Let_def document_done_def intro: refines_fail)
  have R: "refines (and_then r' (\<lambda>_. end')) (and_then (and_then q (\<lambda>b. Done (g b))) rend)
      (\<lambda>_ t st'. p_json st' = [] \<and> document_done t st')"
    if "refines r' q (\<lambda>_ b st'. document_done (g b) st')" for r' :: "(unit, parser) outcome" and q and g :: "'b \<Rightarrow> json"
  proof (rule refines_bind [OF refines_map])
    show "refines r' q (\<lambda>_ b. document_done (g b))"
      using that .
    show "refines (end' st') (rend t (p_json st')) (\<lambda>_ t st'. p_json st' = [] \<and> document_done t st')"
      if "document_done t st'" for t st'
      using e [OF that] by (rule refines_mono) simp
  qed
  have "refines r (json_read (env_to_double env) fuel text) (\<lambda>_ t st'. p_json st' = [] \<and> document_done t st')"
  proof -
    have a: "refines (parse_array env (parse_value env fuel) st)
        (read_array (read_value (env_to_double env) fuel 1) 0 json) (\<lambda>_ ts. document_done (Json_Array ts))"
      using refines_mono [OF refines_parse_array [OF st(1) pv] document_doneI(1) [OF tag st(4)]] st(2,3) by simp
    have o: "refines (parse_object env (parse_value env fuel) st)
        (read_object (read_value (env_to_double env) fuel 1) 0 json) (\<lambda>_ ms. document_done (Json_Object ms))"
      using refines_mono [OF refines_parse_object [OF st(1) pv] document_doneI(2) [OF tag st(4)]] st(2,3) by simp
    have f: "refines (fail Illegal_Value st) (read_fail Illegal_Value json) Q" for Q :: "unit \<Rightarrow> json \<Rightarrow> parser \<Rightarrow> bool"
      using st(3) by (rule refines_fail)
    have "refines r (and_then (if token = 0x5b then and_then (read_array (read_value (env_to_double env) fuel 1) 0 json) (\<lambda>ts. Done (Json_Array ts))
        else if token = 0x7b then and_then (read_object (read_value (env_to_double env) fuel 1) 0 json) (\<lambda>ms. Done (Json_Object ms))
        else read_fail Illegal_Value json) rend) (\<lambda>_ t st'. p_json st' = [] \<and> document_done t st')"
      using R [OF a] R [OF o] f by (simp add: r_def fail_def read_fail_def refines_iff st(3))
    then show ?thesis
      by (simp only: json_read_def tj rend_def Let_def prod.case)
  qed
  moreover have "json_run env fuel (max (length text) 256) text = r"
    by (simp add: json_run_def tj r_def st_def data_def end'_def)
  moreover have "max (length text) 256 \<le> int_max"
    using len by (simp add: int_max_def)
  ultimately show ?thesis
    by (cases r) (auto simp: json_parse_def Let_def refines_iff document_done_def)
qed

end
