(* ===== verification/Json_Reading.thy ===== *)
theory Json_Reading
  imports Json_Documents
begin

text \<open>
  The reader ends: what is left of the text never grows, every iteration of a loop consumes a token, and the depth
  of the recursion is bounded by the nesting limit.
\<close>

text \<open>A reader that returns leaves a rest that is not longer, and does not run out of fuel.\<close>

definition shrinks :: "'a reading \<Rightarrow> nat \<Rightarrow> bool" where
  "shrinks r n \<longleftrightarrow> (case r of Done a rest \<Rightarrow> length rest \<le> n | Failed e k \<Rightarrow> True | Undefined \<Rightarrow> False
     | Out_Of_Fuel \<Rightarrow> False)"

lemma shrinks_simps [simp]:
  "shrinks (Done a rest) n \<longleftrightarrow> length rest \<le> n" "shrinks (Failed e k) n" "\<not> shrinks Out_Of_Fuel n"
  "\<not> shrinks Undefined n"
  "shrinks (read_fail e json) n"
  by (simp_all add: shrinks_def read_fail_def)

lemma shrinks_bind: "shrinks r n \<Longrightarrow> (\<And>a rest. r = Done a rest \<Longrightarrow> length rest \<le> n \<Longrightarrow> shrinks (f a rest) k) \<Longrightarrow> shrinks (and_then r f) k"
  by (cases r) auto

lemma shrinks_if: "(c \<Longrightarrow> shrinks r n) \<Longrightarrow> (\<not> c \<Longrightarrow> shrinks r' n) \<Longrightarrow> shrinks (if c then r else r') n"
  by simp

lemma length_eat_space [simp]: "length (eat_space json) \<le> length json"
  by (simp add: eat_space_def length_dropWhile_le)

lemma next_token_length: "next_token json = (token, rest) \<Longrightarrow> length rest \<le> length json - 1 \<and> (rest = json \<longrightarrow> json = [])"
  using length_eat_space [of json]
  by (auto simp: next_token_def simp del: length_eat_space split: list.splits)

lemma next_token_shorter: "next_token json = (token, rest) \<Longrightarrow> token \<noteq> 0 \<Longrightarrow> length rest < length json"
  using length_eat_space [of json]
  by (auto simp: next_token_def simp del: length_eat_space split: list.splits)

lemma shrinks_scan_latin1: "shrinks (scan_latin1 start json) (length json)"
proof (induction start json rule: scan_latin1.induct)
  case (1 start json)
  show ?case
  proof (cases "json = [] \<or> hd json = 0x22")
    case False
    show ?thesis
    proof (cases "scan_char json")
      case (Inr a)
      obtain ch rest where a: "scan_char json = Inr (ch, rest)"
        using Inr by (cases a) simp
      have l: "length rest < length json"
        using scan_char_shorter [OF a] False by simp
      show ?thesis
      proof (cases "ch > 0xff \<or> int start - int (length rest) \<ge> 0x8000")
        case True
        then show ?thesis
          using False a l by (simp add: scan_latin1_step)
      next
        case wide: False
        have "shrinks (scan_latin1 start rest) (length rest)"
          using "1.IH" [OF False a refl wide] .
        then show ?thesis
          using False wide a l by (cases "scan_latin1 start rest") (auto simp: scan_latin1_step split: prod.splits)
      qed
    qed (use False in \<open>auto simp: scan_latin1_step\<close>)
  qed (simp add: scan_latin1_stop)
qed

lemma shrinks_scan_utf16: "shrinks (scan_utf16 json) (length json)"
proof (induction json rule: scan_utf16.induct)
  case (1 json)
  show ?case
  proof (cases "json = [] \<or> hd json = 0x22")
    case False
    show ?thesis
    proof (cases "scan_char json")
      case (Inr a)
      obtain ch rest where a: "scan_char json = Inr (ch, rest)"
        using Inr by (cases a) simp
      have "length rest < length json"
        using scan_char_shorter [OF a] False by simp
      moreover have "shrinks (scan_utf16 rest) (length rest)"
        using "1.IH" [OF False a refl] .
      ultimately show ?thesis
        using False a by (cases "scan_utf16 rest") (auto simp: scan_utf16_step)
    qed (use False in \<open>auto simp: scan_utf16_step\<close>)
  qed (simp add: scan_utf16_stop)
qed

lemma shrinks_read_quote: "shrinks (read_quote json) (length json)"
  by (simp add: read_quote_def split: list.splits)

lemma shrinks_mono: "shrinks r n \<Longrightarrow> n \<le> k \<Longrightarrow> shrinks r k"
  by (cases r) auto

lemma shrinks_read_string: "shrinks (read_string json) (length json)"
  unfolding read_string_def
  by (rule shrinks_bind [OF shrinks_scan_latin1], clarify, rule shrinks_bind [OF shrinks_read_quote])
    (auto intro!: shrinks_bind [OF shrinks_scan_utf16] shrinks_bind [OF shrinks_read_quote])

lemma length_skip_number: "skip_number json = (is_int, rest) \<Longrightarrow> length rest \<le> length json"
proof -
  have d: "length (dropWhile json_digit xs) \<le> length xs" for xs
    by (rule length_dropWhile_le)
  have s: "length (skip_byte p xs) \<le> length xs" for p xs
    by (simp add: skip_byte_def)
  define j1 where "j1 = skip_byte (\<lambda>c. c = 45) json"
  define j2 where "j2 = (if j1 \<noteq> [] \<and> hd j1 = 48 then tl j1 else dropWhile json_digit j1)"
  define j3 where "j3 = (if j2 \<noteq> [] \<and> hd j2 = 46 then dropWhile json_digit (tl j2) else j2)"
  have l: "length j1 \<le> length json" "length j2 \<le> length j1" "length j3 \<le> length j2"
    using s [of _ json] d [of j1] d [of "tl j2"] by (auto simp: j1_def j2_def j3_def)
  assume "skip_number json = (is_int, rest)"
  then have "rest = j3 \<or> rest = dropWhile json_digit (skip_byte (\<lambda>c. c = 45 \<or> c = 43) (tl j3))"
    by (auto simp: skip_number_def Let_def j1_def [symmetric] j2_def [symmetric] j3_def split: if_splits prod.splits)
  then show ?thesis
    using l d [of "skip_byte (\<lambda>c. c = 45 \<or> c = 43) (tl j3)"] s [of "\<lambda>c. c = 45 \<or> c = 43" "tl j3"] by auto
qed

lemma shrinks_read_number: "shrinks (read_number to_double json) (length json)"
  using length_skip_number [of json]
  by (auto simp: read_number_def Let_def split: prod.splits option.splits)

lemma literal_length: "literal cs json = (ok, rest) \<Longrightarrow> length rest \<le> length json"
  by (induction cs json rule: literal.induct) (auto split: if_splits)

lemma shrinks_read_literal: "shrinks (read_literal cs t json) (length json)"
  using literal_length [of cs json] by (auto simp: read_literal_def split: prod.splits)

lemma shrinks_read_key: "shrinks (read_key json) (length json)"
  unfolding read_key_def
proof (rule shrinks_bind [OF shrinks_read_string])
  fix key and rest :: "byte list"
  assume l: "length rest \<le> length json"
  obtain token rest' where t: "next_token rest = (token, rest')"
    by fastforce
  then show "shrinks (let (token, json) = next_token rest
      in if token \<noteq> 0x3a then read_fail Missing_Name_Separator json
         else let json = eat_space json in if json = [] then read_fail Unterminated_Object json else Done key json) (length json)"
    using l next_token_length [OF t] length_eat_space [of rest']
    by (auto simp: Let_def simp del: length_eat_space)
qed

lemma read_separator_shorter:
  assumes "read_separator json = Done again rest" shows "length rest < length json"
proof -
  obtain token rest' where t: "next_token json = (token, rest')"
    by fastforce
  then show ?thesis
    using assms next_token_shorter [OF t]
    by (auto simp: read_separator_def Let_def read_fail_def split: if_splits)
qed

lemma shrinks_read_separator: "shrinks (read_separator json) (length json)"
proof (cases "read_separator json")
  case Out_Of_Fuel
  then show ?thesis
    by (auto simp: read_separator_def Let_def read_fail_def split: if_splits prod.splits)
next
  case Undefined
  then show ?thesis
    by (auto simp: read_separator_def Let_def read_fail_def split: if_splits prod.splits)
qed (auto dest: read_separator_shorter)

text \<open>The loops, for a reader of values that shrinks.\<close>

lemma shrinks_read_elements:
  assumes rv: "\<And>json. json \<noteq> [] \<Longrightarrow> shrinks (rv json) (length json)"
  shows "length json < fuel \<Longrightarrow> shrinks (read_elements rv fuel ts json) (length json)"
proof (induction fuel arbitrary: ts json)
  case (Suc fuel)
  let ?json = "eat_space json"
  show ?case
  proof (cases "?json = []")
    case False
    have "shrinks (and_then (rv ?json) (\<lambda>t json. and_then (read_separator json) (\<lambda>more json.
        if more then read_elements rv fuel (ts @ [t]) json else Done (ts @ [t]) json))) (length json)"
    proof (rule shrinks_bind [OF rv [OF False]], rule shrinks_bind [OF shrinks_read_separator])
      fix t rest again rest'
      assume l: "length rest \<le> length ?json" and r: "read_separator rest = Done again rest'"
      have "length rest' < length json"
        using read_separator_shorter [OF r] l length_eat_space [of json] by linarith
      then show "shrinks (if again then read_elements rv fuel (ts @ [t]) rest' else Done (ts @ [t]) rest') (length json)"
        using Suc.IH [of rest' "ts @ [t]"] Suc.prems by (auto intro: shrinks_mono)
    qed
    then show ?thesis
      using False by (simp add: Let_def)
  qed (simp add: Let_def)
qed simp

lemma shrinks_read_members:
  assumes rv: "\<And>json. json \<noteq> [] \<Longrightarrow> shrinks (rv json) (length json)"
  shows "length json < fuel \<Longrightarrow> shrinks (read_members rv fuel ms token json) (length json)"
proof (induction fuel arbitrary: ms token json)
  case (Suc fuel)
  show ?case
  proof (cases "token = 0x22")
    case True
    have key: "rest \<noteq> []" if "read_key json = Done key rest" for key rest
      using that by (auto simp: read_key_def read_fail_def Let_def and_then_def split: outcome.splits prod.splits if_splits)
    have member: "shrinks (read_member rv json) (length json)"
      unfolding read_member_def
      by (rule shrinks_bind [OF shrinks_read_key]) (auto intro!: shrinks_bind [OF rv] dest: key)
    have "shrinks (and_then (read_member rv json) (\<lambda>kt json.
           let ms = insert_member kt ms; (token, json) = next_token json
           in if token \<noteq> 0x2c
              then if token \<noteq> 0x7d then read_fail Unterminated_Object json else Done ms json
              else let (token, json) = next_token json
                   in if token = 0x7d then read_fail Missing_Object json else read_members rv fuel ms token json)) (length json)"
    proof (rule shrinks_bind [OF member])
      fix kt and rest :: "byte list"
      assume l: "length rest \<le> length json"
      obtain token1 rest1 where t1: "next_token rest = (token1, rest1)"
        by fastforce
      obtain token2 rest2 where t2: "next_token rest1 = (token2, rest2)"
        by fastforce
      have "length rest1 \<le> length json" "token1 \<noteq> 0 \<Longrightarrow> length rest2 < length json" "length rest2 \<le> length json"
        using l next_token_length [OF t1] next_token_length [OF t2] next_token_shorter [OF t1] by auto
      then show "shrinks (let ms = insert_member kt ms; (token, json) = next_token rest
           in if token \<noteq> 0x2c
              then if token \<noteq> 0x7d then read_fail Unterminated_Object json else Done ms json
              else let (token, json) = next_token json
                   in if token = 0x7d then read_fail Missing_Object json else read_members rv fuel ms token json) (length json)"
        using Suc.IH [of rest2 "insert_member kt ms" token2] Suc.prems
        by (auto simp: Let_def t1 t2 intro: shrinks_mono)
    qed
    then show ?thesis
      using True by simp
  qed simp
qed simp

text \<open>The recursion ends at the nesting limit.\<close>

lemma read_enter_cases:
  assumes "nesting + 1 \<le> nesting_limit \<Longrightarrow> shrinks (f json) n"
  shows "shrinks (and_then (read_enter nesting json) (\<lambda>_. f)) n"
  using assms by (cases "nesting + 1 \<le> nesting_limit") (auto simp: read_enter_def read_fail_def)

lemma shrinks_read_array:
  assumes "nesting + 1 \<le> nesting_limit \<Longrightarrow> (\<And>json. json \<noteq> [] \<Longrightarrow> shrinks (rv json) (length json))"
  shows "shrinks (read_array rv nesting json) (length json)"
  unfolding read_array_def
proof (rule read_enter_cases)
  assume n: "nesting + 1 \<le> nesting_limit"
  obtain token rest where t: "next_token (eat_space json) = (token, rest)"
    by fastforce
  have "shrinks (read_elements rv (Suc (length (eat_space json))) [] (eat_space json)) (length json)"
    by (rule shrinks_mono [OF shrinks_read_elements [OF assms [OF n]]]) auto
  then show "shrinks (let json = eat_space json
      in if json = [] then read_fail Unterminated_Array json
         else if hd json = 0x5d then Done [] (snd (next_token json)) else read_elements rv (Suc (length json)) [] json) (length json)"
    using next_token_length [OF t] length_eat_space [of json]
    by (auto simp: Let_def t simp del: read_elements.simps length_eat_space)
qed

lemma shrinks_read_object:
  assumes "nesting + 1 \<le> nesting_limit \<Longrightarrow> (\<And>json. json \<noteq> [] \<Longrightarrow> shrinks (rv json) (length json))"
  shows "shrinks (read_object rv nesting json) (length json)"
  unfolding read_object_def
proof (rule read_enter_cases)
  assume n: "nesting + 1 \<le> nesting_limit"
  obtain token rest where t: "next_token json = (token, rest)"
    by fastforce
  have "shrinks (read_members rv (Suc (length rest)) [] token rest) (length json)"
    by (rule shrinks_mono [OF shrinks_read_members [OF assms [OF n]]]) (use next_token_length [OF t] in auto)
  then show "shrinks (let (token, json) = next_token json in read_members rv (Suc (length json)) [] token json) (length json)"
    by (simp add: t del: read_members.simps)
qed

lemma shrinks_read_value:
  "nesting_limit < fuel + nesting \<Longrightarrow> json \<noteq> [] \<Longrightarrow> 0 < fuel \<Longrightarrow> shrinks (read_value to_double fuel nesting json) (length json)"
proof (induction fuel arbitrary: nesting json)
  case (Suc fuel)
  let ?rest = "tl json" and ?rv = "read_value to_double fuel (nesting + 1)"
  have rv: "shrinks (?rv json') (length json')" if "nesting + 1 \<le> nesting_limit" "json' \<noteq> []" for json'
    using Suc.IH [of "nesting + 1" json'] Suc.prems that by simp
  have l: "length ?rest \<le> length json"
    by simp
  have m: "shrinks (and_then r (\<lambda>b. Done (g b))) (length json)"
    if "shrinks r (length ?rest)" for r :: "'b reading" and g :: "'b \<Rightarrow> json"
    using that by (cases r) auto
  have lit: "shrinks (read_literal cs t ?rest) (length json)" for cs t
    by (rule shrinks_mono [OF shrinks_read_literal l])
  show ?case
    unfolding read_value.simps Let_def
    by (intro shrinks_if lit m [OF shrinks_read_string] m [OF shrinks_read_array [OF rv]] m [OF shrinks_read_object [OF rv]]
        shrinks_read_number) simp_all
qed simp

lemma shrinks_json_read:
  assumes "nesting_limit \<le> fuel"
  shows "shrinks (json_read to_double fuel text) (length text)"
proof -
  obtain token json where t: "next_token (eat_bom text) = (token, json)"
    by fastforce
  have l: "length json \<le> length text"
    using next_token_length [OF t] by (auto simp: eat_bom_def split: if_splits)
  have "shrinks (read_value to_double fuel 1 json') (length json')" if "json' \<noteq> []" for json'
    using shrinks_read_value [of fuel 1 json' to_double] that assms by (simp add: nesting_limit_def)
  note a = shrinks_mono [OF shrinks_read_array [OF this] l]
    and o' = shrinks_mono [OF shrinks_read_object [OF this] l]
  have e: "shrinks (and_then r (\<lambda>t json. let json = eat_space json in if json \<noteq> [] then read_fail Garbage_At_End json else Done t json)) (length text)"
    if "shrinks r (length text)" for r :: "json reading"
    using that by (cases r) (auto simp: Let_def)
  have m: "shrinks (and_then r (\<lambda>b. Done (g b))) (length text)" if "shrinks r (length text)" for r :: "'b reading" and g :: "'b \<Rightarrow> json"
    using that by (cases r) auto
  show ?thesis
    unfolding json_read_def t prod.case Let_def
    by (intro e [unfolded Let_def] shrinks_if m [OF a] m [OF o']) simp_all
qed

end
