(* ===== verification/Json_Strings.thy ===== *)
theory Json_Strings
  imports Json_Writer Json_Reading Utf_Forms
begin

text \<open>
  Strings that the writer escapes are read back by the parser's scanning, and the array that the writer escapes into is large
  enough from three characters on.
\<close>

section \<open>One character\<close>

text \<open>The texts that survive: a sequence of code points that the codecs let through.\<close>

definition units_of :: "nat list \<Rightarrow> u16 list" where
  "units_of cs = concat (map utf16_of cs)"

definition escape_of :: "nat \<Rightarrow> byte list" where
  "escape_of c = fst (escape_char (hd (utf16_of c)) (tl (utf16_of c)))"

lemma escape_small:
  assumes "c < 0x80"
  shows "utf16_of c = [of_nat c]"
    "escape_char (of_nat c) src =
       (if c < 0x20 \<or> c = 0x22 \<or> c = 0x5c then (escape_of c, src) else (utf8_of c, src))"
proof -
  show u: "utf16_of c = [of_nat c]"
    using assms by (simp add: utf16_of_cases)
  have "unat (of_nat c :: u16) = c"
    using assms by (simp add: unat_small)
  then have "(of_nat c :: u16) < 0x80" "(of_nat c :: u16) < 0x20 \<longleftrightarrow> c < 0x20" "(of_nat c :: u16) = 0x22 \<longleftrightarrow> c = 0x22"
    "(of_nat c :: u16) = 0x5c \<longleftrightarrow> c = 0x5c"
    using assms by (auto simp: word_less_nat_alt word_unat_eq_iff)
  moreover have "ucast (of_nat c :: u16) = (of_nat c :: byte)"
    using assms by (intro utf8_byte_eqI) (simp add: unat_ucast unat_small)
  ultimately show "escape_char (of_nat c) src =
       (if c < 0x20 \<or> c = 0x22 \<or> c = 0x5c then (escape_of c, src) else (utf8_of c, src))"
    using assms by (simp add: escape_char_def escape_of_def u utf8_of_cases)
qed

lemma escape_char_of:
  assumes "scalar c"
  shows "escape_char (hd (utf16_of c)) (tl (utf16_of c) @ src) = (escape_of c, src)"
    "c \<ge> 0x80 \<Longrightarrow> escape_of c = utf8_of c"
proof -
  have large: "escape_char (hd (utf16_of c)) (tl (utf16_of c) @ src) = (utf8_of c, src)" if "c \<ge> 0x80" for src
  proof (cases "c < 0x10000")
    case True
    have "\<not> (of_nat c :: u16) < 0x80"
      using that True by (simp add: word_less_nat_alt unat_small)
    then show ?thesis
      using to_utf8_unit [OF assms True, of src] True by (simp add: utf16_of_cases escape_char_def)
  next
    case False
    then obtain h l where hl: "utf16_of c = [h, l]" "h = of_nat (0xd800 + (c - 0x10000) div 1024)"
      by (simp add: utf16_of_cases)
    have "(c - 0x10000) div 1024 < 1024"
      using assms by (auto simp: scalar_def)
    then have "unat h = 0xd800 + (c - 0x10000) div 1024"
      by (simp add: hl(2) unat_small del: of_nat_add)
    then have "\<not> h < 0x80"
      by (simp add: word_less_nat_alt)
    then show ?thesis
      using to_utf8_pair [OF assms _ hl(1), of src] False by (simp add: hl(1) escape_char_def)
  qed
  show *: "c \<ge> 0x80 \<Longrightarrow> escape_of c = utf8_of c"
    using large [of "[]"] by (simp add: escape_of_def)
  show "escape_char (hd (utf16_of c)) (tl (utf16_of c) @ src) = (escape_of c, src)"
  proof (cases "c < 0x80")
    case True
    have "fst (escape_char (of_nat c) []) = escape_of c"
      by (simp add: escape_of_def escape_small(1) [OF True])
    then have "\<not> (c < 0x20 \<or> c = 0x22 \<or> c = 0x5c) \<Longrightarrow> utf8_of c = escape_of c"
      by (simp add: escape_small(2) [OF True])
    then show ?thesis
      by (cases "c < 0x20 \<or> c = 0x22 \<or> c = 0x5c") (simp_all add: escape_small(1) [OF True] escape_small(2) [OF True, of src])
  next
    case False
    then show ?thesis
      using large [of src] * by simp
  qed
qed

lemma utf16_of_split: "utf16_of c = hd (utf16_of c) # tl (utf16_of c)"
  by (simp add: utf16_of_def)

text \<open>The code point that is decoded.\<close>

lemma from_utf8_units:
  "from_utf8 b src =
     (case from_utf8_code_point b src of Inl e \<Rightarrow> Inl e | Inr (ch, n) \<Rightarrow> Inr (char_units ch, n))"
proof -
  have "b < 0x80 \<Longrightarrow> char_units (ucast b) = [ucast b]"
    by (auto simp: char_units_def requires_surrogates_def word_le_nat_alt word_less_nat_alt word_unat_eq_iff unat_ucast)
  then show ?thesis
    by (auto simp: from_utf8_def from_utf8_code_point_def char_units_def Let_def split: option.splits)
qed

lemma code_point_range: "from_utf8_code_point b src = Inr (ch, n) \<Longrightarrow> unat ch < 0x110000"
  using unsigned_less [of b]
  by (auto simp: from_utf8_code_point_def word_less_nat_alt word_le_nat_alt unat_ucast
      split: if_splits option.splits)

lemma char_units_of: "unat ch < 0x110000 \<Longrightarrow> char_units ch = utf16_of (unat ch)"
  using get_surrogates_eq [of "unat ch"]
  by (auto simp: char_units_def requires_surrogates_def word_le_nat_alt utf16_of_cases word_unat_eq_iff unat_ucast unat_small)

lemma utf16_of_inject: "c < 0x110000 \<Longrightarrow> d < 0x110000 \<Longrightarrow> utf16_of c = utf16_of d \<Longrightarrow> c = d"
proof -
  assume a: "c < 0x110000" "d < 0x110000" "utf16_of c = utf16_of d"
  have pair: "(c - 0x10000) div 1024 = (d - 0x10000) div 1024 \<and> (c - 0x10000) mod 1024 = (d - 0x10000) mod 1024"
    if "c \<ge> 0x10000" "d \<ge> 0x10000"
  proof -
    have r: "(c - 0x10000) div 1024 < 1024" "(d - 0x10000) div 1024 < 1024"
      using a(1,2) by auto
    have "unat (of_nat (0xd800 + (c - 0x10000) div 1024) :: u16) = unat (of_nat (0xd800 + (d - 0x10000) div 1024) :: u16)"
      "unat (of_nat (0xdc00 + (c - 0x10000) mod 1024) :: u16) = unat (of_nat (0xdc00 + (d - 0x10000) mod 1024) :: u16)"
      using a(3) that by (simp_all only: utf16_of_cases list.inject)
    then show ?thesis
      using r by (simp add: unat_small del: of_nat_add)
  qed
  consider "c < 0x10000" "d < 0x10000" | "c \<ge> 0x10000" "d \<ge> 0x10000" | "c < 0x10000 \<longleftrightarrow> d \<ge> 0x10000"
    by linarith
  then show "c = d"
  proof cases
    case 1
    then have "unat (of_nat c :: u16) = unat (of_nat d :: u16)"
      using a(3) by (simp add: utf16_of_cases)
    then show ?thesis
      using 1 by (simp add: unat_small)
  next
    case 2
    have "c - 0x10000 = d - 0x10000"
      using pair [OF 2] by (metis div_mult_mod_eq)
    then show ?thesis
      using 2 by linarith
  next
    case 3
    then have "length (utf16_of c) \<noteq> length (utf16_of d)"
      by (auto simp: utf16_of_def)
    then show ?thesis
      using a(3) by simp
  qed
qed

lemma scan_utf8_of:
  assumes "scalar c"
  shows "scan_utf8_char (utf8_of c @ rest) = Inr (of_nat c, rest)"
proof -
  have c: "c < 0x110000"
    using assms by (simp add: scalar_def)
  obtain b bs where b: "utf8_of c = b # bs"
    using utf8_of_not_Nil [of c] by (cases "utf8_of c") auto
  obtain ch where ch: "from_utf8_code_point b (bs @ rest) = Inr (ch, length (utf8_of c))" "char_units ch = utf16_of c"
    using from_utf8_of [OF assms, of rest] by (auto simp: b from_utf8_units split: sum.splits)
  have "unat ch = c"
    using utf16_of_inject [of "unat ch" c] char_units_of [of ch] code_point_range [OF ch(1)] ch(2) c by simp
  then have "ch = of_nat c"
    by auto
  then show ?thesis
    using ch(1) by (simp add: scan_utf8_char_def b)
qed

lemma escape_cases: "c < 0x20 \<or> c = 0x22 \<or> c = 0x5c \<Longrightarrow> c \<in> set ([0..<32] @ [34, 92])"
  by auto

lemma hex_digits_append: "hex_digits n json ch = Inr (v, r) \<Longrightarrow> hex_digits n (json @ rest) ch = Inr (v, r @ rest)"
  by (induction n json ch rule: hex_digits.induct) (auto split: option.splits)

lemma scan_escape_append:
  assumes "scan_char (0x5c # json) = Inr (v, r)"
  shows "scan_char (0x5c # json @ rest) = Inr (v, r @ rest)"
proof (cases json)
  case Nil
  then show ?thesis
    using assms by (simp add: scan_char_def scan_escape_sequence_def)
next
  case (Cons c cs)
  then show ?thesis
    using assms
    by (auto simp: scan_char_def scan_escape_sequence_def Let_def hex_digits_append split: if_splits sum.splits)
qed


lemma hex_digits_numeral:
  "hex_digits (numeral k) (digit # json) ch =
     (case add_hex_digit digit ch of None \<Rightarrow> Inl (digit # json) | Some ch \<Rightarrow> hex_digits (pred_numeral k) json ch)"
  by (simp add: numeral_eq_Suc)

lemma scan_escapes:
  "\<forall>c \<in> set ([0..<32] @ [34, 92]).
     (let e = fst (escape_char (of_nat c) []) in hd e = 0x5c \<and> length e \<le> 6 \<and> scan_char e = Inr (of_nat c, []))"
  by (simp add: upt_conv_Cons escape_char_def hexdig_def scan_char_def scan_escape_sequence_def
      add_hex_digit_def hex_digits_numeral)

lemma utf8_of_hd: "0x80 \<le> c \<Longrightarrow> scalar c \<Longrightarrow> 0x80 \<le> unat (hd (utf8_of c))"
proof -
  assume c: "0x80 \<le> c" "scalar c"
  then have r: "c < 0x800 \<Longrightarrow> c div 64 < 32" "c < 0x10000 \<Longrightarrow> c div 4096 < 16" "c div 262144 < 5"
    by (auto simp: scalar_def)
  consider "c < 0x800" | "0x800 \<le> c" "c < 0x10000" | "0x10000 \<le> c"
    by linarith
  then show ?thesis
    by cases (use c r in \<open>simp_all add: utf8_of_cases unat_small del: of_nat_add\<close>)
qed

lemma escape_of_scan:
  assumes "scalar c"
  shows "scan_char (escape_of c @ rest) = Inr (of_nat c, rest)" "escape_of c \<noteq> []" "hd (escape_of c) \<noteq> 0x22"
    "length (escape_of c) \<le> 6"
proof -
  have "scan_char (escape_of c @ rest) = Inr (of_nat c, rest) \<and> escape_of c \<noteq> [] \<and> hd (escape_of c) \<noteq> 0x22 \<and>
      length (escape_of c) \<le> 6"
  proof (cases "c < 0x20 \<or> c = 0x22 \<or> c = 0x5c")
    case True
    then have c: "c \<in> set ([0..<32] @ [34, 92])" "c < 0x80"
      by auto
    have "fst (escape_char (of_nat c) []) = escape_of c"
      by (simp add: escape_of_def escape_small(1) [OF c(2)])
    then have e: "hd (escape_of c) = 0x5c \<and> length (escape_of c) \<le> 6 \<and> scan_char (escape_of c) = Inr (of_nat c, [])"
      using bspec [OF scan_escapes c(1)] by (simp only: Let_def)
    moreover have "escape_of c \<noteq> []"
      by (auto simp: escape_of_def escape_char_def to_utf8_def Let_def split: sum.splits list.splits)
    ultimately obtain json where "escape_of c = 0x5c # json"
      by (cases "escape_of c") auto
    then show ?thesis
      using e scan_escape_append [of json "of_nat c" "[]" rest] by simp
  next
    case False
    have u: "escape_of c = utf8_of c"
    proof (cases "c < 0x80")
      case True
      then show ?thesis
        using False escape_small [OF True] by (simp add: escape_of_def)
    qed (use escape_char_of(2) [OF assms] in simp)
    have "unat (hd (utf8_of c)) = c \<or> 0x80 \<le> unat (hd (utf8_of c))"
      using utf8_of_hd [OF _ assms] by (cases "c < 0x80") (simp_all add: utf8_of_cases unat_small)
    then have "unat (hd (utf8_of c)) \<noteq> 0x5c" "unat (hd (utf8_of c)) \<noteq> 0x22"
      using False by auto
    then have "hd (utf8_of c) \<noteq> 0x5c" "hd (utf8_of c) \<noteq> 0x22"
      by (auto simp: word_unat_eq_iff)
    moreover have "length (utf8_of c) \<le> 6"
      by (simp add: utf8_of_def)
    ultimately show ?thesis
      using scan_utf8_of [OF assms] by (simp add: u scan_char_def)
  qed
  then show "scan_char (escape_of c @ rest) = Inr (of_nat c, rest)" "escape_of c \<noteq> []" "hd (escape_of c) \<noteq> 0x22"
    "length (escape_of c) \<le> 6"
    by simp_all
qed

section \<open>A string\<close>

abbreviation (input) escape_all :: "nat list \<Rightarrow> byte list" where
  "escape_all cs \<equiv> concat (map escape_of cs)"

lemma escape_loop_units: "\<forall>c\<in>set cs. scalar c \<Longrightarrow> snd (escape_loop sz alloc out (units_of cs)) = out @ escape_all cs"
proof (induction cs arbitrary: sz alloc out)
  case (Cons c cs)
  have "units_of (c # cs) = hd (utf16_of c) # tl (utf16_of c) @ units_of cs"
    using utf16_of_split [of c] by (metis append_Cons concat.simps(2) list.map(2) units_of_def)
  moreover have "escape_char (hd (utf16_of c)) (tl (utf16_of c) @ units_of cs) = (escape_of c, units_of cs)"
    using Cons.prems by (simp add: escape_char_of)
  ultimately show ?case
    using Cons by (simp add: Let_def case_prod_beta)
qed (simp add: units_of_def)

lemma escaped_units: "\<forall>c\<in>set cs. scalar c \<Longrightarrow> escaped (units_of cs) = escape_all cs"
  by (simp add: escaped_def escaped_string_def escape_loop_units)

lemma scan_latin1_escape:
  assumes "scalar c"
  shows "scan_latin1 start (escape_of c @ json) =
      (if c > 0xff \<or> int start - int (length json) \<ge> 0x8000 then Done (False, []) json
       else and_then (scan_latin1 start json) (\<lambda>(latin1, bs). Done (latin1, of_nat c # bs)))"
proof -
  have c: "c < 0x110000"
    using assms by (simp add: scalar_def)
  then have big: "(of_nat c :: u32) > 0xff \<longleftrightarrow> c > 0xff"
    by (simp add: word_less_nat_alt unat_small)
  have u: "c \<le> 0xff \<Longrightarrow> ucast (of_nat c :: u32) = (of_nat c :: byte)"
    by (intro utf8_byte_eqI) (simp add: unat_ucast unat_small)
  show ?thesis
    using escape_of_scan(1) [OF assms, of json] escape_of_scan(2,3) [OF assms] big u
    by (subst scan_latin1.simps) auto
qed

lemma scan_latin1_escaped:
  assumes "\<forall>c\<in>set cs. scalar c \<and> c \<le> 0xff" "int start - int (length rest) < 0x8001"
  shows "scan_latin1 start (escape_all cs @ 0x22 # rest) = Done (True, map of_nat cs) (0x22 # rest)"
  using assms(1)
proof (induction cs)
  case Nil
  show ?case
    by (subst scan_latin1.simps) simp
next
  case (Cons c cs)
  then show ?case
    using assms(2) by (simp add: scan_latin1_escape)
qed

lemma scan_latin1_bails_out:
  assumes "\<forall>c\<in>set cs. scalar c" "(\<exists>c\<in>set cs. c > 0xff) \<or> cs \<noteq> [] \<and> int start - int (length rest) \<ge> 0x8001"
  shows "\<exists>bs k. scan_latin1 start (escape_all cs @ 0x22 # rest) = Done (False, bs) (drop k (escape_all cs) @ 0x22 # rest)"
  using assms
proof (induction cs)
  case (Cons c cs)
  have c: "scalar c" "\<forall>c\<in>set cs. scalar c"
    using Cons.prems(1) by simp_all
  note step = scan_latin1_escape [OF c(1), of start "escape_all cs @ 0x22 # rest"]
  show ?case
  proof (cases "c > 0xff \<or> int start - int (length (escape_all cs @ 0x22 # rest)) \<ge> 0x8000")
    case True
    then have "scan_latin1 start (escape_all (c # cs) @ 0x22 # rest) =
        Done (False, []) (drop (length (escape_of c)) (escape_all (c # cs)) @ 0x22 # rest)"
      using step by auto
    then show ?thesis
      by blast
  next
    case False
    then have "(\<exists>c\<in>set cs. c > 0xff) \<or> cs \<noteq> [] \<and> int start - int (length rest) \<ge> 0x8001"
      using Cons.prems(2) by auto
    then obtain bs k where "scan_latin1 start (escape_all cs @ 0x22 # rest) = Done (False, bs) (drop k (escape_all cs) @ 0x22 # rest)"
      using Cons.IH c(2) by blast
    then have "scan_latin1 start (escape_all (c # cs) @ 0x22 # rest) =
        Done (False, of_nat c # bs) (drop (length (escape_of c) + k) (escape_all (c # cs)) @ 0x22 # rest)"
      using step False by simp
    then show ?thesis
      by blast
  qed
qed simp

lemma scan_utf16_escaped:
  "\<forall>c\<in>set cs. scalar c \<Longrightarrow> scan_utf16 (escape_all cs @ 0x22 # rest) = Done (units_of cs) (0x22 # rest)"
proof (induction cs)
  case Nil
  then show ?case
    by (subst scan_utf16.simps) (simp add: units_of_def)
next
  case (Cons c cs)
  have c: "scalar c" "c < 0x110000"
    using Cons.prems by (simp_all add: scalar_def)
  have "char_units (of_nat c) = utf16_of c"
    using char_units_of [of "of_nat c"] c(2) by (simp add: unat_small)
  then show ?case
    using escape_of_scan(1) [OF c(1), of "escape_all cs @ 0x22 # rest"] escape_of_scan(2,3) [OF c(1)] Cons
    by (subst scan_utf16.simps) (simp add: units_of_def)
qed

text \<open>The flag that the parser gives to a text: every character is Latin-1, and the escaped text is not too long.\<close>

definition latin1_text :: "u16 list \<Rightarrow> bool" where
  "latin1_text us \<longleftrightarrow> (\<forall>u\<in>set us. u \<le> 0xff) \<and> length (escaped us) < 0x8000"

lemma units_of_latin1: "\<forall>c\<in>set cs. scalar c \<Longrightarrow> (\<forall>u\<in>set (units_of cs). u \<le> 0xff) \<longleftrightarrow> (\<forall>c\<in>set cs. c \<le> 0xff)"
proof (induction cs)
  case (Cons c cs)
  have c: "c < 0x110000"
    using Cons.prems by (simp add: scalar_def)
  have "(\<forall>u\<in>set (utf16_of c). u \<le> 0xff) \<longleftrightarrow> c \<le> 0xff"
  proof (cases "c < 0x10000")
    case False
    have "(c - 0x10000) div 1024 < 1024"
      using c by auto
    then show ?thesis
      using False by (simp add: utf16_of_cases word_le_nat_alt unat_small del: of_nat_add)
  qed (simp add: utf16_of_cases word_le_nat_alt unat_small)
  then show ?case
    using Cons by (auto simp: units_of_def)
qed (simp add: units_of_def)

lemma units_of_small: "\<forall>c\<in>set cs. c \<le> 0xff \<Longrightarrow> map ucast (map of_nat cs :: byte list) = units_of cs"
proof (induction cs)
  case (Cons c cs)
  have "ucast (of_nat c :: byte) = (of_nat c :: u16)"
    using Cons.prems by (intro utf8_byte_eqI) (simp add: unat_ucast unat_small)
  then show ?case
    using Cons by (simp add: units_of_def utf16_of_cases)
qed (simp add: units_of_def)

lemma read_string_escaped:
  assumes "\<forall>c\<in>set cs. scalar c" "rest \<noteq> []"
  shows "read_string (escaped (units_of cs) @ 0x22 # rest) = Done (latin1_text (units_of cs), units_of cs) rest"
proof -
  let ?json = "escape_all cs @ 0x22 # rest"
  have e: "escaped (units_of cs) = escape_all cs"
    using assms(1) by (rule escaped_units)
  have latin1: "latin1_text (units_of cs) \<longleftrightarrow> (\<forall>c\<in>set cs. c \<le> 0xff) \<and> length (escape_all cs) < 0x8000"
    using units_of_latin1 [OF assms(1)] by (simp add: latin1_text_def e)
  have quote: "read_quote (0x22 # rest) = Done () rest" "\<exists>r. read_quote (drop k (escape_all cs) @ 0x22 # rest) = Done () r" for k
    using assms(2) by (cases "drop k (escape_all cs)"; simp add: read_quote_def)+
  show ?thesis
  proof (cases "latin1_text (units_of cs)")
    case True
    then show ?thesis
      using scan_latin1_escaped [of cs "length ?json" rest] assms(1) quote(1) units_of_small [of cs] latin1
      by (simp add: read_string_def e)
  next
    case False
    then have "(\<exists>c\<in>set cs. c > 0xff) \<or> cs \<noteq> [] \<and> int (length ?json) - int (length rest) \<ge> 0x8001"
      using latin1 by (cases cs) (auto simp: not_le)
    then obtain bs k where "scan_latin1 (length ?json) ?json = Done (False, bs) (drop k (escape_all cs) @ 0x22 # rest)"
      using scan_latin1_bails_out [OF assms(1)] by blast
    moreover obtain r where "read_quote (drop k (escape_all cs) @ 0x22 # rest) = Done () r"
      using quote(2) by blast
    ultimately show ?thesis
      using scan_utf16_escaped [OF assms(1), of rest] quote(1) False by (simp add: read_string_def e)
  qed
qed

section \<open>The array that the writer escapes into\<close>

lemma length_escape_char: "length (fst (escape_char u src)) \<le> 6"
  by (auto simp: escape_char_def to_utf8_def Let_def split: sum.splits list.splits)

lemma resize_twice_room:
  assumes "0 < sz" "sz < 2 ^ 30 - 12" "alloc < 2 ^ 31"
  shows "sz * 2 < snd (resize_twice sz alloc)" "snd (resize_twice sz alloc) < 2 ^ 31"
    "alloc \<le> sz * 2 \<Longrightarrow> 8 \<le> snd (resize_twice sz alloc)"
proof -
  define b where "b = sz * 2 + 1 + 24"
  have b: "b < 2 ^ 31" "25 \<le> b"
    using assms(1,2) by (simp_all add: b_def)
  have c: "block_capacity (sz * 2 + 1) True = grown b - 24"
    using b calculate_growing_block_size_eq [of 1 24 "sz * 2 + 1"]
    by (simp add: block_capacity_def array_data_header_def b_def)
  have g: "b \<le> grown b" "grown b < 2 ^ 31"
    using grown_bounds [OF b(1)] by simp_all
  have "32 \<le> grown b"
  proof (cases "b < 32")
    case True
    have "5 \<le> bitlen b"
      using b(2) less_bitlen_iff [of 4 b] by simp
    then have "(2 :: nat) ^ 5 \<le> 2 ^ bitlen b"
      by (rule power_increasing) simp
    then show ?thesis
      using True by (simp add: grown_def)
  qed (use g in simp)
  then show "sz * 2 < snd (resize_twice sz alloc)" "snd (resize_twice sz alloc) < 2 ^ 31"
    "alloc \<le> sz * 2 \<Longrightarrow> 8 \<le> snd (resize_twice sz alloc)"
    using g c assms(3) by (auto simp: resize_twice_def b_def)
qed

text \<open>From six bytes on, the size of the array is enough.\<close>

lemma escape_loop_fits:
  "6 \<le> sz \<Longrightarrow> sz < alloc \<Longrightarrow> alloc < 2 ^ 31 \<Longrightarrow> length out \<le> sz \<Longrightarrow> length out + 6 * length src < 2 ^ 29 \<Longrightarrow>
   fst (escape_loop sz alloc out src)"
proof (induction sz alloc out src rule: escape_loop.induct)
  case (2 sz alloc out u src)
  define r where "r = (if int (length out) \<ge> int sz - 6 then resize_twice sz alloc else (sz, alloc))"
  obtain sz' alloc' where r': "r = (sz', alloc')"
    by fastforce
  obtain bs rest where e: "escape_char u src = (bs, rest)"
    by fastforce
  have bs: "length bs \<le> 6" "length rest \<le> length src"
    using length_escape_char [of u src] escape_char_shorter [OF e] by (simp_all add: e)
  have s: "6 \<le> sz'" "sz' < alloc'" "alloc' < 2 ^ 31" "length (out @ bs) \<le> sz'"
  proof -
    have "sz < 2 ^ 30 - 12" if "int (length out) \<ge> int sz - 6"
      using that "2.prems"(5) by simp
    then show "6 \<le> sz'" "sz' < alloc'" "alloc' < 2 ^ 31" "length (out @ bs) \<le> sz'"
      using resize_twice_room [of sz alloc] "2.prems" bs r' by (auto simp: r_def resize_twice_def split: if_splits)
  qed
  have "fst (escape_loop sz' alloc' (out @ bs) rest)"
    by (rule "2.IH" [OF r_def r' [symmetric] e [symmetric] refl s]) (use bs "2.prems" in simp)
  then show ?case
    using s by (simp add: e r' r_def [symmetric] case_prod_beta)
qed simp

lemma escape_loop_resized:
  assumes "int (length out) \<ge> int sz - 6" "0 < sz" "sz < 2 ^ 30 - 12" "alloc < 2 ^ 31"
    and "length out + 6 \<le> snd (resize_twice sz alloc)"
    and "\<And>bs rest. length bs \<le> 6 \<Longrightarrow> length rest \<le> length src \<Longrightarrow>
      fst (escape_loop (sz * 2) (snd (resize_twice sz alloc)) (out @ bs) rest)"
  shows "fst (escape_loop sz alloc out (u # src))"
proof -
  obtain bs rest where e: "escape_char u src = (bs, rest)"
    by fastforce
  have "length bs \<le> 6" "length rest \<le> length src"
    using length_escape_char [of u src] escape_char_shorter [OF e] by (simp_all add: e)
  then show ?thesis
    using assms(1,5) assms(6) [of bs rest] resize_twice_room(2) [OF assms(2-4)]
    by (simp add: e resize_twice_def case_prod_beta split del: if_split)
qed

text \<open>
  A shorter text writes its first characters behind the size of the array, but in the block: \<open>resize\<close> has made it eight
  bytes at least.
\<close>

lemma resize_twice_small:
  "snd (resize_twice 1 2) = 8" "snd (resize_twice 2 3) = 8" "snd (resize_twice 4 8) = 40"
  by code_simp+

lemma escaped_string_fits:
  assumes "length s < 2 ^ 26"
  shows "fst (escaped_string s)"
proof (cases "length s < 6")
  case False
  then show ?thesis
    using assms by (simp add: escaped_string_def escape_loop_fits)
next
  case True
  show ?thesis
  proof (cases s)
    case (Cons u src)
    define n where "n = length s"
    have n: "0 < n" "n < 6" "n = Suc (length src)"
      using True Cons by (simp_all add: n_def)
    have alloc: "n + 1 < 2 ^ 31"
      using n(2) by simp
    have block: "6 \<le> snd (resize_twice n (n + 1))" "n * 2 < snd (resize_twice n (n + 1))" "snd (resize_twice n (n + 1)) < 2 ^ 31"
      using resize_twice_room [of n "n + 1"] n(1,2) by simp_all
    have "fst (escape_loop (n * 2) (snd (resize_twice n (n + 1))) bs rest)"
      if "length bs \<le> 6" "length rest \<le> length src" for bs rest
    proof (cases rest)
      case (Cons v rest')
      have "n = 2 \<or> 3 \<le> n"
        using n(3) that(2) Cons by simp linarith
      then show ?thesis
      proof
        assume "3 \<le> n"
        then show ?thesis
          using n(2,3) that block by (intro escape_loop_fits) simp_all
      next
        assume two: "n = 2"
        then have "rest' = []"
          using n(3) that(2) Cons by simp
        then have "fst (escape_loop 4 8 bs rest)"
          unfolding Cons by (intro escape_loop_resized) (use that(1) in \<open>simp_all add: resize_twice_small\<close>)
        then show ?thesis
          by (simp add: two resize_twice_small)
      qed
    qed simp
    then have "fst (escape_loop n (n + 1) [] (u # src))"
      by (intro escape_loop_resized) (use n block in simp_all)
    then show ?thesis
      by (simp add: escaped_string_def Cons n(3))
  qed (simp add: escaped_string_def)
qed

lemma length_escape_loop: "length (snd (escape_loop sz alloc out src)) \<le> length out + 6 * length src"
proof (induction sz alloc out src rule: escape_loop.induct)
  case (2 sz alloc out u src)
  define r where "r = (if int (length out) \<ge> int sz - 6 then resize_twice sz alloc else (sz, alloc))"
  obtain sz' alloc' where r': "r = (sz', alloc')"
    by fastforce
  obtain bs rest where e: "escape_char u src = (bs, rest)"
    by fastforce
  have "length bs \<le> 6" "length rest \<le> length src"
    using length_escape_char [of u src] escape_char_shorter [OF e] by (simp_all add: e)
  then show ?case
    using "2.IH" [OF r_def r' [symmetric] e [symmetric] refl] by (simp add: e r' r_def [symmetric] case_prod_beta)
qed simp

lemma length_escaped: "length (escaped s) \<le> 6 * length s"
  using length_escape_loop [of "length s" "length s + 1" "[]" s] by (simp add: escaped_def escaped_string_def)

end
