(* ===== verification/Json_Lookup.thy ===== *)
theory Json_Lookup
  imports Json_Reading
begin

text \<open>
  Access to a document: the search for a key (\<open>Json.cpp\<close>), \<open>JsonObject::getValue\<close>,
  \<open>JsonArray::at\<close> and the \<open>JsonValue\<close> that is made of a value in memory.

  A key is found when the table of the object is sorted.  The parser stores the entries in the order of the text.
\<close>

section \<open>Comparison of an entry with a key\<close>

text \<open>
  The key of an entry: \<open>entry_key\<close> is what \<open>toString\<close> makes of it in the documents of the theorems (\<open>local_to_string_key\<close>).
\<close>

definition entry_ge_string :: "byte list \<Rightarrow> nat \<Rightarrow> u16 list \<Rightarrow> bool" where
  "entry_ge_string m e key =
     (if entry_latin m e then \<not> string_greater unicode_strncmp_latin1 key (entry_key m e)
      else \<not> string_less unicode_strncmp (entry_key m e) key)"

definition entry_equals_string :: "byte list \<Rightarrow> nat \<Rightarrow> u16 list \<Rightarrow> bool" where
  "entry_equals_string m e key =
     (if entry_latin m e then string_equal unicode_strncmp_latin1 key (entry_key m e) else entry_key m e = key)"

text \<open>The key is a \<open>Latin1String\<close>, given by its characters as units; \<open>memcmp\<close> compares two Latin-1 texts.\<close>

definition entry_ge_latin1 :: "byte list \<Rightarrow> nat \<Rightarrow> u16 list \<Rightarrow> bool" where
  "entry_ge_latin1 m e key =
     (if entry_latin m e then \<not> units_less (entry_key m e) key
      else \<not> string_less unicode_strncmp (entry_key m e) key)"

definition entry_equals_latin1 :: "byte list \<Rightarrow> nat \<Rightarrow> u16 list \<Rightarrow> bool" where
  "entry_equals_latin1 m e key \<longleftrightarrow> entry_key m e = key"

section \<open>The search\<close>

text \<open>\<open>LocalObject::indexOf\<close>: whether the key exists, and its position.\<close>

definition index_of :: "(nat \<Rightarrow> bool) \<Rightarrow> (nat \<Rightarrow> bool) \<Rightarrow> byte list \<Rightarrow> nat \<Rightarrow> bool \<times> nat" where
  "index_of ge eq m b =
     (let low = lower_bound (\<lambda>middle. ge (entry_at m b middle)) 0 (base_length m b)
      in (low < base_length m b \<and> eq (entry_at m b low), low))"

definition index_of_string :: "byte list \<Rightarrow> nat \<Rightarrow> u16 list \<Rightarrow> bool \<times> nat" where
  "index_of_string m b key = index_of (\<lambda>e. entry_ge_string m e key) (\<lambda>e. entry_equals_string m e key) m b"

definition index_of_latin1 :: "byte list \<Rightarrow> nat \<Rightarrow> u16 list \<Rightarrow> bool \<times> nat" where
  "index_of_latin1 m b key = index_of (\<lambda>e. entry_ge_latin1 m e key) (\<lambda>e. entry_equals_latin1 m e key) m b"

section \<open>Values\<close>

text \<open>
  The contents of a \<open>JsonValue\<close>.  A double comes from the 27 bits of an integer or from eight bytes; an array or an
  object is its position.  \<open>Raised\<close> is a text that could not be made.
\<close>

datatype json_value =
    Undefined_Value | Null_Value | Bool_Value bool | Double_Value "int + 64 word" | String_Value "u16 list"
  | Array_Value nat | Object_Value nat | Raised string_error

definition value_to_double :: "byte list \<Rightarrow> nat \<Rightarrow> u32 \<Rightarrow> int + 64 word" where
  "value_to_double m base v =
     (if value_latin_or_int v then Inl (value_int v) else Inr (get64 m (base + unat (value_value v))))"

definition value_to_string :: "byte list \<Rightarrow> nat \<Rightarrow> u32 \<Rightarrow> string_error + u16 list" where
  "value_to_string m base v = local_to_string m (value_latin_or_int v) (base + unat (value_value v))"

definition json_value_of :: "byte list \<Rightarrow> nat \<Rightarrow> u32 \<Rightarrow> json_value" where
  "json_value_of m base v =
     (if value_type v = type_null then Null_Value
      else if value_type v = type_bool then Bool_Value (value_value v \<noteq> 0)
      else if value_type v = type_double then Double_Value (value_to_double m base v)
      else if value_type v = type_string then (case value_to_string m base v of Inl e \<Rightarrow> Raised e | Inr us \<Rightarrow> String_Value us)
      else if value_type v = type_array then Array_Value (base + unat (value_value v))
      else if value_type v = type_object then Object_Value (base + unat (value_value v))
      else Undefined_Value)"

definition object_get_string :: "byte list \<Rightarrow> nat \<Rightarrow> u16 list \<Rightarrow> json_value" where
  "object_get_string m b key =
     (case index_of_string m b key of
        (exists, i) \<Rightarrow> if exists then json_value_of m b (entry_value m (entry_at m b i)) else Undefined_Value)"

definition object_get_latin1 :: "byte list \<Rightarrow> nat \<Rightarrow> u16 list \<Rightarrow> json_value" where
  "object_get_latin1 m b key =
     (case index_of_latin1 m b key of
        (exists, i) \<Rightarrow> if exists then json_value_of m b (entry_value m (entry_at m b i)) else Undefined_Value)"

definition array_get :: "byte list \<Rightarrow> nat \<Rightarrow> int \<Rightarrow> json_value" where
  "array_get m b i =
     (if i < 0 \<or> i \<ge> int (base_length m b) then Undefined_Value else json_value_of m b (array_at m b (nat i)))"

text \<open>
  \<open>toBool\<close>, \<open>toDouble\<close> and \<open>toString\<close> with their default values; \<open>toInt\<close> needs the arithmetic of doubles only for a
  value that is not an integer, which is the parameter \<open>to_int\<close>.
\<close>

definition json_to_bool :: "json_value \<Rightarrow> bool \<Rightarrow> bool" where
  "json_to_bool v d = (case v of Bool_Value b \<Rightarrow> b | _ \<Rightarrow> d)"

definition json_to_double :: "json_value \<Rightarrow> int + 64 word \<Rightarrow> int + 64 word" where
  "json_to_double v d = (case v of Double_Value x \<Rightarrow> x | _ \<Rightarrow> d)"

definition json_to_string :: "json_value \<Rightarrow> u16 list \<Rightarrow> u16 list" where
  "json_to_string v d = (case v of String_Value us \<Rightarrow> us | _ \<Rightarrow> d)"

definition json_to_int :: "(64 word \<Rightarrow> int option) \<Rightarrow> json_value \<Rightarrow> int \<Rightarrow> int" where
  "json_to_int to_int v d =
     (case v of
        Double_Value (Inl n) \<Rightarrow> n
      | Double_Value (Inr x) \<Rightarrow> (case to_int x of Some n \<Rightarrow> n | None \<Rightarrow> d)
      | _ \<Rightarrow> d)"

section \<open>Binary search in a sorted table\<close>

text \<open>The keys of a table and a total order of them: the contract that \<open>indexOf\<close> and \<open>insert\<close> rely on.\<close>

locale key_order =
  fixes less :: "'k \<Rightarrow> 'k \<Rightarrow> bool"
  assumes irrefl: "\<not> less k k"
    and trans: "less k l \<Longrightarrow> less l n \<Longrightarrow> less k n"
    and linear: "less k l \<or> k = l \<or> less l k"
begin

lemma asym: "less k l \<Longrightarrow> \<not> less l k"
  using trans irrefl by blast

lemma sorted_nth:
  "sorted_wrt less keys \<Longrightarrow> i < length keys \<Longrightarrow> j < length keys \<Longrightarrow> less (keys ! i) (keys ! j) \<longleftrightarrow> i < j"
  using sorted_wrt_nth_less [of less keys] irrefl asym by (metis linorder_neqE_nat)

lemma lower_bound_split:
  assumes sorted: "sorted_wrt less keys"
    and ge: "\<And>i. i < length keys \<Longrightarrow> ge i \<longleftrightarrow> \<not> less (keys ! i) key"
  shows "low + n \<le> length keys \<Longrightarrow> \<forall>i<low. less (keys ! i) key \<Longrightarrow> \<forall>i<length keys. low + n \<le> i \<longrightarrow> \<not> less (keys ! i) key \<Longrightarrow>
     (let r = lower_bound ge low n
      in r \<le> length keys \<and> (\<forall>i<r. less (keys ! i) key) \<and> (\<forall>i<length keys. r \<le> i \<longrightarrow> \<not> less (keys ! i) key))"
proof (induction n arbitrary: low rule: less_induct)
  case (less n)
  define middle where "middle = low + n div 2"
  have up: "\<not> less (keys ! i) key" if "\<not> less (keys ! middle) key" "middle \<le> i" "i < length keys" for i
    using that sorted_nth [OF sorted, of middle i] trans [of "keys ! middle" "keys ! i" key]
    by (cases "middle = i") auto
  have down: "less (keys ! i) key" if "less (keys ! middle) key" "i \<le> middle" "middle < length keys" for i
    using that sorted_nth [OF sorted, of i middle] trans [of "keys ! i" "keys ! middle" key]
    by (cases "middle = i") auto
  consider "n = 0" | "n \<noteq> 0" "ge middle" | "n \<noteq> 0" "\<not> ge middle"
    by blast
  then show ?case
  proof cases
    case 1
    then show ?thesis
      using less.prems by (subst lower_bound.simps) simp
  next
    case 2
    then have len: "middle < length keys" "n div 2 < n"
      using less.prems(1) unfolding middle_def by linarith+
    have "lower_bound ge low n = lower_bound ge low (n div 2)"
      using 2 by (subst lower_bound.simps) (simp add: middle_def Let_def)
    moreover have "\<not> less (keys ! middle) key"
      using 2 ge len by simp
    ultimately show ?thesis
      using less.IH [OF len(2), of low] less.prems len up by (simp add: middle_def)
  next
    case 3
    then have len: "middle < length keys" "n - (n div 2 + 1) < n"
      using less.prems(1) unfolding middle_def by linarith+
    have "lower_bound ge low n = lower_bound ge (middle + 1) (n - (n div 2 + 1))"
      using 3 by (subst lower_bound.simps) (simp add: middle_def Let_def)
    moreover have "less (keys ! middle) key"
      using 3 ge len by simp
    moreover have "middle + 1 + (n - (n div 2 + 1)) = low + n"
      using 3(1) unfolding middle_def by linarith
    ultimately show ?thesis
      using less.IH [OF len(2), of "middle + 1"] less.prems len down by (simp add: less_Suc_eq_le)
  qed
qed

lemma lower_bound_sorted:
  assumes "sorted_wrt less keys" "\<And>i. i < length keys \<Longrightarrow> ge i \<longleftrightarrow> \<not> less (keys ! i) key"
  shows "lower_bound ge 0 (length keys) \<le> length keys"
    "i < lower_bound ge 0 (length keys) \<Longrightarrow> less (keys ! i) key"
    "lower_bound ge 0 (length keys) \<le> i \<Longrightarrow> i < length keys \<Longrightarrow> \<not> less (keys ! i) key"
  using lower_bound_split [OF assms, of 0 "length keys"] by (auto simp: Let_def)

lemma lower_bound_found:
  assumes sorted: "sorted_wrt less keys" and ge: "\<And>i. i < length keys \<Longrightarrow> ge i \<longleftrightarrow> \<not> less (keys ! i) key"
    and i: "i < length keys" "keys ! i = key"
  shows "lower_bound ge 0 (length keys) = i"
proof (rule linorder_cases)
  assume a: "lower_bound ge 0 (length keys) < i"
  then have "less (keys ! lower_bound ge 0 (length keys)) (keys ! i)"
    using sorted_nth [OF sorted, of "lower_bound ge 0 (length keys)" i] i(1) by simp
  then show ?thesis
    using lower_bound_sorted(3) [OF sorted ge, of "lower_bound ge 0 (length keys)"] a i by simp
next
  assume "i < lower_bound ge 0 (length keys)"
  then show ?thesis
    using lower_bound_sorted(2) [OF sorted ge, of i] i irrefl by simp
qed

end

interpretation units: key_order units_less
  by unfold_locales (use units_less_trans units_less_linear in auto)

section \<open>The keys of an object in memory\<close>

abbreviation (input) member_keys :: "(json_key \<times> json) list \<Rightarrow> u16 list list" where
  "member_keys ms \<equiv> map (\<lambda>kt. snd (fst kt)) ms"

definition member_of :: "(json_key \<times> json) list \<Rightarrow> u16 list \<Rightarrow> json option" where
  "member_of ms key = map_of (map (\<lambda>kt. (snd (fst kt), snd kt)) ms) key"

text \<open>What a \<open>JsonValue\<close> tells about the tree it was made of.\<close>

definition value_shows :: "byte list \<Rightarrow> nat \<Rightarrow> nat \<Rightarrow> json_value \<Rightarrow> json \<Rightarrow> bool" where
  "value_shows m lo hi v t =
     (case t of
        Json_Null \<Rightarrow> v = Null_Value
      | Json_Bool b \<Rightarrow> v = Bool_Value b
      | Json_Int n \<Rightarrow> v = Double_Value (Inl n)
      | Json_Double d \<Rightarrow> v = Double_Value (Inr d)
      | Json_String us \<Rightarrow> v = String_Value us
      | Json_Array ts \<Rightarrow>
          (\<exists>p. v = Array_Value p \<and> base_in m lo hi p False (length ts) \<and> values_in m (p + base_table_offset m p) p 0 ts)
      | Json_Object ms \<Rightarrow>
          (\<exists>p. v = Object_Value p \<and> base_in m lo hi p True (length ms) \<and> entries_in m (p + base_table_offset m p) p 0 ms))"

text \<open>A text that lies in a document of less than \<open>2 ^ 31\<close> bytes can be made a \<open>String\<close>.\<close>

lemma local_to_string_key:
  assumes "key_in m lo hi p key" "20 \<le> lo" "hi \<le> length m" "hi + 2 < 2 ^ 31"
  shows "local_to_string m (fst key) p = Inr (snd key)"
proof (cases "fst key")
  case True
  then show ?thesis
    using assms(1) by (simp add: key_in_def local_to_string_def string_at_def)
next
  case False
  define n where "n = length (snd key)"
  have k: "utf16_at m p = snd key" "20 \<le> p" "p + 4 + 2 * n \<le> hi"
    using assms(1,2) False by (auto simp: key_in_def string_at_def n_def)
  have u: "unat (get32 m p) = n"
    unfolding n_def k(1) [symmetric] by (simp add: utf16_at_def)
  have n: "n + 1 < 2 ^ 31"
    using k(3) assms(4) by simp
  have "get32 m p = of_nat n"
    unfolding u [symmetric] by simp
  then have "sint (get32 m p) = int n"
    using n by (simp add: signed_of_nat signed_take_bit_int_eq_self)
  moreover have "calculate_block_size (n + 1) 2 24 = (n + 1) * 2 + 24"
    using k(2,3) assms(4) by (subst calculate_block_size_eq) auto
  moreover have "(n + 1) * 2 + 24 \<noteq> size_max"
    using k(3) assms(4) by (simp add: size_max_def)
  moreover have "map (\<lambda>i. get16 m (p + 4 + 2 * i)) [0..<n] = snd key"
    using k(1) u by (simp add: utf16_at_def)
  ultimately show ?thesis
    using False k(3) assms(3) n by (auto simp: local_to_string_def string_of_characters_def array_data_header_def)
qed

lemma value_in_shows:
  assumes "value_in m lo hi b v t" "20 \<le> lo" "hi \<le> length m" "hi + 2 < 2 ^ 31"
  shows "value_shows m lo hi (json_value_of m b v) t"
proof (cases t)
  case (Json_String us)
  then show ?thesis
    using assms(1) local_to_string_key [OF _ assms(2-4), of "b + unat (value_value v)" "(value_latin_or_int v, us)"]
    by (simp add: value_shows_def json_value_of_def value_to_string_def)
qed (use assms(1) in \<open>auto simp: value_shows_def json_value_of_def value_to_double_def Let_def\<close>)

lemma latin1_operators_short:
  assumes "min (length l) (length r) < 16"
  shows "string_equal unicode_strncmp_latin1 l r \<longleftrightarrow> l = r"
    "string_less unicode_strncmp_latin1 l r \<longleftrightarrow> units_less l r"
    "string_greater unicode_strncmp_latin1 l r \<longleftrightarrow> units_less r l"
proof -
  have eq: "unicode_strcmp unicode_strncmp_latin1 l r = unicode_strcmp unicode_strncmp l r"
    using assms by (simp add: unicode_strcmp_def unicode_strncmp_latin1_short unicode_strncmp_loop Let_def)
  show "string_equal unicode_strncmp_latin1 l r \<longleftrightarrow> l = r"
    "string_less unicode_strncmp_latin1 l r \<longleftrightarrow> units_less l r"
    "string_greater unicode_strncmp_latin1 l r \<longleftrightarrow> units_less r l"
    using string_operators [of l r] by (simp_all add: string_equal_def string_less_def string_greater_def eq)
qed

lemma stored_entry:
  "entries_in m hi b i ms \<Longrightarrow> k < length ms \<Longrightarrow>
   entry_latin m (entry_at m b (i + k)) = fst (fst (ms ! k)) \<and>
   entry_key m (entry_at m b (i + k)) = snd (fst (ms ! k)) \<and>
   value_in m (b + 12) hi b (entry_value m (entry_at m b (i + k))) (snd (ms ! k))"
proof (induction ms arbitrary: i k)
  case (Cons kt ms)
  obtain key t where kt: "kt = (key, t)"
    by fastforce
  show ?case
  proof (cases k)
    case 0
    then show ?thesis
      using Cons.prems by (auto simp: kt Let_def key_in_def entry_key_def)
  next
    case (Suc j)
    then show ?thesis
      using Cons.IH [of "Suc i" j] Cons.prems by (simp add: kt Let_def)
  qed
qed simp

lemma stored_key:
  "entries_in m hi b i ms \<Longrightarrow> k < length ms \<Longrightarrow>
   key_in m (b + 12) hi (entry_at m b (i + k) + 4) (entry_latin m (entry_at m b (i + k)), snd (fst (ms ! k)))"
proof (induction ms arbitrary: i k)
  case (Cons kt ms)
  then show ?case
    using Cons.IH [of "Suc i" "k - 1"] by (cases kt; cases k) (simp_all add: Let_def)
qed simp

lemma stored_value:
  "values_in m hi b i ts \<Longrightarrow> k < length ts \<Longrightarrow> value_in m (b + 12) hi b (array_at m b (i + k)) (ts ! k)"
proof (induction ts arbitrary: i k)
  case (Cons t ts)
  then show ?case
    using Cons.IH [of "Suc i" "k - 1"] by (cases k) auto
qed simp

text \<open>Both versions of the search, for comparisons that are right on the entries of the object.\<close>

lemma index_of_sorted:
  assumes len: "base_length m b = length ms" and sorted: "sorted_wrt units_less (member_keys ms)"
    and ge: "\<And>i. i < length ms \<Longrightarrow> ge (entry_at m b i) \<longleftrightarrow> \<not> units_less (snd (fst (ms ! i))) key"
    and eq: "\<And>i. i < length ms \<Longrightarrow> eq (entry_at m b i) \<longleftrightarrow> snd (fst (ms ! i)) = key"
  shows "i < length ms \<Longrightarrow> snd (fst (ms ! i)) = key \<Longrightarrow> index_of ge eq m b = (True, i)"
    "key \<notin> set (member_keys ms) \<Longrightarrow> \<not> fst (index_of ge eq m b)"
proof -
  have low: "lower_bound (\<lambda>i. ge (entry_at m b i)) 0 (length ms) = i" if "i < length ms" "snd (fst (ms ! i)) = key" for i
    using units.lower_bound_found [OF sorted, of "\<lambda>i. ge (entry_at m b i)" key i] ge that by simp
  show "index_of ge eq m b = (True, i)" if "i < length ms" "snd (fst (ms ! i)) = key"
    using low [OF that] eq that by (simp add: index_of_def len)
  show "\<not> fst (index_of ge eq m b)" if "key \<notin> set (member_keys ms)"
    using that eq by (auto simp: index_of_def len Let_def)
qed

lemma member_of_cases:
  assumes "sorted_wrt units_less (member_keys ms)"
  shows "(member_of ms key = None \<and> key \<notin> set (member_keys ms)) \<or>
     (\<exists>i<length ms. snd (fst (ms ! i)) = key \<and> member_of ms key = Some (snd (ms ! i)))"
  using assms
proof (induction ms)
  case (Cons kt ms)
  then show ?case
    by (auto simp: member_of_def Ex_less_Suc2 split: if_splits)
qed (simp add: member_of_def)

lemma object_get_sorted:
  assumes len: "base_length m b = length ms" and ms: "entries_in m hi b 0 ms"
    and hi: "8 \<le> b" "ms \<noteq> [] \<Longrightarrow> hi \<le> length m \<and> hi + 2 < 2 ^ 31"
    and sorted: "sorted_wrt units_less (member_keys ms)"
    and ge: "\<And>i. i < length ms \<Longrightarrow> ge (entry_at m b i) \<longleftrightarrow> \<not> units_less (snd (fst (ms ! i))) key"
    and eq: "\<And>i. i < length ms \<Longrightarrow> eq (entry_at m b i) \<longleftrightarrow> snd (fst (ms ! i)) = key"
    and get: "v = (case index_of ge eq m b of
        (exists, i) \<Rightarrow> if exists then json_value_of m b (entry_value m (entry_at m b i)) else Undefined_Value)"
  shows "case member_of ms key of None \<Rightarrow> v = Undefined_Value | Some t \<Rightarrow> value_shows m (b + 12) hi v t"
proof -
  have found: "index_of ge eq m b = (True, i)" if "i < length ms" "snd (fst (ms ! i)) = key" for i
    by (rule index_of_sorted(1) [OF len sorted ge eq that])
  have missing: "\<not> fst (index_of ge eq m b)" if "key \<notin> set (member_keys ms)"
    by (rule index_of_sorted(2) [OF len sorted ge eq that])
  show ?thesis
    using member_of_cases [OF sorted, of key]
  proof (elim disjE exE conjE)
    assume "member_of ms key = None" "key \<notin> set (member_keys ms)"
    then show ?thesis
      using missing by (auto simp: get split: prod.splits)
  next
    fix i
    assume i: "i < length ms" "snd (fst (ms ! i)) = key" "member_of ms key = Some (snd (ms ! i))"
    then show ?thesis
      using found [OF i(1,2)] stored_entry [OF ms i(1)] value_in_shows hi by (cases ms) (simp_all add: get)
  qed
qed

lemma string_comparisons:
  assumes ms: "entries_in m hi b 0 ms" and i: "i < length ms"
    and short: "length key < 16 \<or> (\<forall>kt\<in>set ms. fst (fst kt) \<longrightarrow> length (snd (fst kt)) < 16)"
  shows "entry_ge_string m (entry_at m b i) key \<longleftrightarrow> \<not> units_less (snd (fst (ms ! i))) key"
    "entry_equals_string m (entry_at m b i) key \<longleftrightarrow> snd (fst (ms ! i)) = key"
  using stored_entry [OF ms i] latin1_operators_short [of key "snd (fst (ms ! i))"] short nth_mem [OF i]
  by (auto simp: entry_ge_string_def entry_equals_string_def string_operators min_less_iff_disj)

lemma latin1_comparisons:
  assumes ms: "entries_in m hi b 0 ms" and i: "i < length ms"
  shows "entry_ge_latin1 m (entry_at m b i) key \<longleftrightarrow> \<not> units_less (snd (fst (ms ! i))) key"
    "entry_equals_latin1 m (entry_at m b i) key \<longleftrightarrow> snd (fst (ms ! i)) = key"
  using stored_entry [OF ms i]
  by (auto simp: entry_ge_latin1_def entry_equals_latin1_def string_operators)

lemma object_get_shows:
  assumes "base_length m b = length ms" "entries_in m hi b 0 ms" "8 \<le> b" "ms \<noteq> [] \<Longrightarrow> hi \<le> length m \<and> hi + 2 < 2 ^ 31"
    "sorted_wrt units_less (member_keys ms)"
  shows "case member_of ms key of
      None \<Rightarrow> object_get_latin1 m b key = Undefined_Value
    | Some t \<Rightarrow> value_shows m (b + 12) hi (object_get_latin1 m b key) t"
    "length key < 16 \<or> (\<forall>kt\<in>set ms. fst (fst kt) \<longrightarrow> length (snd (fst kt)) < 16) \<Longrightarrow>
     (case member_of ms key of
        None \<Rightarrow> object_get_string m b key = Undefined_Value
      | Some t \<Rightarrow> value_shows m (b + 12) hi (object_get_string m b key) t)"
  by (rule object_get_sorted [OF assms latin1_comparisons [OF assms(2)]];
      simp add: object_get_latin1_def index_of_latin1_def)
    (rule object_get_sorted [OF assms string_comparisons [OF assms(2)]];
      simp add: object_get_string_def index_of_string_def)

lemma array_get_shows:
  assumes "base_length m b = length ts" "values_in m hi b 0 ts" "8 \<le> b" "ts \<noteq> [] \<Longrightarrow> hi \<le> length m \<and> hi + 2 < 2 ^ 31"
  shows "0 \<le> i \<Longrightarrow> i < int (length ts) \<Longrightarrow> value_shows m (b + 12) hi (array_get m b i) (ts ! nat i)"
    "i < 0 \<or> i \<ge> int (length ts) \<Longrightarrow> array_get m b i = Undefined_Value"
proof -
  show "value_shows m (b + 12) hi (array_get m b i) (ts ! nat i)" if "0 \<le> i" "i < int (length ts)"
    using that stored_value [OF assms(2), of "nat i"] value_in_shows assms(3,4)
    by (cases ts) (simp_all add: array_get_def assms(1) nat_less_iff)
  show "array_get m b i = Undefined_Value" if "i < 0 \<or> i \<ge> int (length ts)"
    using that by (auto simp: array_get_def assms(1))
qed

section \<open>Objects that are not sorted\<close>

lemma insert_member_last:
  assumes "\<And>kt. kt \<in> set ms \<Longrightarrow> key_less (fst kt) key"
  shows "insert_member (key, t) ms = ms @ [(key, t)]"
proof -
  have up: "lower_bound ge low n = low + n" if "\<forall>i. low \<le> i \<and> i < low + n \<longrightarrow> \<not> ge i" for ge low n
    using that
  proof (induction n arbitrary: low rule: less_induct)
    case (less n)
    have n: "low + n div 2 < low + n" if "n \<noteq> 0"
      using that by simp
    have "lower_bound ge low n = lower_bound ge (low + n div 2 + 1) (n - (n div 2 + 1))" if "n \<noteq> 0"
      using less.prems n that by (subst lower_bound.simps) (simp add: Let_def)
    moreover have "lower_bound ge (low + n div 2 + 1) (n - (n div 2 + 1)) = low + n" if "n \<noteq> 0"
      using less.IH [of "n - (n div 2 + 1)" "low + n div 2 + 1"] less.prems n that by auto
    moreover have "lower_bound ge low 0 = low"
      by (subst lower_bound.simps) simp
    ultimately show ?case
      by (cases "n = 0") auto
  qed
  have "lower_bound (\<lambda>middle. \<not> key_less (fst (ms ! middle)) key) 0 (length ms) = length ms"
    using up [of 0 "length ms" "\<lambda>middle. \<not> key_less (fst (ms ! middle)) key"] assms nth_mem by auto
  then show ?thesis
    by (simp add: insert_member_def)
qed

text \<open>Two members in descending order: the search finds neither.\<close>

lemma lower_bound_two: "lower_bound ge 0 2 = (if ge 1 then if ge 0 then 0 else 1 else 2)"
proof -
  have "lower_bound ge k 0 = k" "lower_bound ge k 1 = (if ge k then k else Suc k)" for k
    by (subst lower_bound.simps; simp add: lower_bound.simps [of _ _ 0])+
  then show ?thesis
    by (subst lower_bound.simps) (simp add: numeral_2_eq_2)
qed

lemma index_of_descending:
  assumes "base_length m b = 2" "ge (entry_at m b 1) \<Longrightarrow> \<not> eq (entry_at m b 0) \<and> ge (entry_at m b 0)"
  shows "\<not> fst (index_of ge eq m b)"
  using assms by (auto simp: index_of_def lower_bound_two)

end
