(* ===== verification/Json_Writing.thy ===== *)
theory Json_Writing
  imports Json_Strings Json_Lookup
begin

text \<open>
  What the writer writes, the reader reads: numbers, white space, arrays and objects; and the writer on a block of memory writes
  the text of the tree that lies there.
\<close>

section \<open>Trees that can be written\<close>

definition valid_text :: "u16 list \<Rightarrow> bool" where
  "valid_text us \<longleftrightarrow> (\<exists>cs. us = units_of cs \<and> (\<forall>c\<in>set cs. scalar c))"

definition decimal_text :: "int \<Rightarrow> byte list" where
  "decimal_text n =
     (if n < 0 then [45] else []) @ map ulltoa2_digit (if n = 0 then [0] else digits_of 10 (nat \<bar>n\<bar>))"

text \<open>
  What is asked of the conversions of numbers: a small integer is written in decimal; a double is written as one number of
  the grammar, which is read as the same double.
\<close>

definition double_readable :: "writer_env \<Rightarrow> (byte list \<Rightarrow> 64 word option) \<Rightarrow> 64 word \<Rightarrow> bool" where
  "double_readable env to_double d \<longleftrightarrow>
     we_finite env d \<and>
     (let s = we_number env (Inr d); (is_int, rest) = skip_number s
      in s \<noteq> [] \<and> (hd s = 45 \<or> json_digit (hd s)) \<and> rest = [] \<and> to_double s = Some d \<and>
         (is_int \<longrightarrow> (case to_integral True 32 s 10 of None \<Rightarrow> True | Some n \<Rightarrow> n \<ge> 2 ^ 25 \<or> n \<le> - (2 ^ 25))))"

fun json_writable :: "writer_env \<Rightarrow> (byte list \<Rightarrow> 64 word option) \<Rightarrow> json \<Rightarrow> bool" where
  "json_writable env td (Json_Int n) \<longleftrightarrow> - (2 ^ 25) < n \<and> n < 2 ^ 25 \<and> we_number env (Inl n) = decimal_text n"
| "json_writable env td (Json_Double d) \<longleftrightarrow> double_readable env td d"
| "json_writable env td (Json_String us) \<longleftrightarrow> valid_text us"
| "json_writable env td (Json_Array ts) \<longleftrightarrow> (\<forall>t\<in>set ts. json_writable env td t)"
| "json_writable env td (Json_Object ms) \<longleftrightarrow>
     (\<forall>kt\<in>set ms. valid_text (snd (fst kt)) \<and> fst (fst kt) = latin1_text (snd (fst kt)) \<and> json_writable env td (snd kt)) \<and>
     sorted_wrt key_less (map fst ms)"
| "json_writable env td t \<longleftrightarrow> True"

section \<open>Numbers\<close>

definition ends_number :: "byte list \<Rightarrow> bool" where
  "ends_number rest \<longleftrightarrow> rest \<noteq> [] \<and> \<not> json_digit (hd rest) \<and> hd rest \<notin> {43, 45, 46, 69, 101}"

lemma drop_digits_append: "ends_number rest \<Longrightarrow> dropWhile json_digit (s @ rest) = dropWhile json_digit s @ rest"
  by (induction s) (auto simp: ends_number_def dropWhile_eq_self_iff)

lemma skip_byte_append: "\<not> p (hd rest) \<Longrightarrow> skip_byte p (s @ rest) = skip_byte p s @ rest"
  by (cases s) (auto simp: skip_byte_def)

lemma skip_number_append:
  assumes "ends_number rest" "skip_number s = (is_int, r)"
  shows "skip_number (s @ rest) = (is_int, r @ rest)"
proof -
  have e: "rest \<noteq> []" "hd rest \<noteq> 48" "hd rest \<noteq> 46" "hd rest \<noteq> 101" "hd rest \<noteq> 69" "hd rest \<noteq> 45" "hd rest \<noteq> 43"
    using assms(1) by (auto simp: ends_number_def json_digit_def)
  note drop = drop_digits_append [OF assms(1)] drop_digits_append [OF assms(1), of "[]", simplified]
  define s1 where "s1 = skip_byte (\<lambda>c. c = 45) s"
  define s2 where "s2 = (if s1 \<noteq> [] \<and> hd s1 = 48 then tl s1 else dropWhile json_digit s1)"
  define i where "i \<longleftrightarrow> \<not> (s2 \<noteq> [] \<and> hd s2 = 46)"
  define s3 where "s3 = (if i then s2 else dropWhile json_digit (tl s2))"
  have f1: "skip_byte (\<lambda>c. c = 45) (s @ rest) = s1 @ rest"
    using e by (simp add: s1_def skip_byte_append)
  have f2: "(if s1 @ rest \<noteq> [] \<and> hd (s1 @ rest) = 48 then tl (s1 @ rest) else dropWhile json_digit (s1 @ rest)) = s2 @ rest"
    using e by (cases s1) (auto simp: s2_def drop)
  have f3: "(if s2 @ rest \<noteq> [] \<and> hd (s2 @ rest) = 46 then (False, dropWhile json_digit (tl (s2 @ rest))) else (True, s2 @ rest)) = (i, s3 @ rest)"
    using e by (cases s2) (auto simp: s3_def i_def drop)
  have g3: "(if s2 \<noteq> [] \<and> hd s2 = 46 then (False, dropWhile json_digit (tl s2)) else (True, s2)) = (i, s3)"
    by (auto simp: s3_def i_def)
  have f4: "skip_byte (\<lambda>c. c = 45 \<or> c = 43) (t @ rest) = skip_byte (\<lambda>c. c = 45 \<or> c = 43) t @ rest" for t
    using e by (simp add: skip_byte_append)
  have f5: "(if s3 @ rest \<noteq> [] \<and> (hd (s3 @ rest) = 101 \<or> hd (s3 @ rest) = 69)
      then (False, dropWhile json_digit (skip_byte (\<lambda>c. c = 45 \<or> c = 43) (tl (s3 @ rest)))) else (i, s3 @ rest)) =
      (if s3 \<noteq> [] \<and> (hd s3 = 101 \<or> hd s3 = 69)
       then (False, dropWhile json_digit (skip_byte (\<lambda>c. c = 45 \<or> c = 43) (tl s3)) @ rest) else (i, s3 @ rest))"
    using e by (cases s3) (simp_all add: f4 drop(1))
  have "skip_number (s @ rest) = (if s3 \<noteq> [] \<and> (hd s3 = 101 \<or> hd s3 = 69)
      then (False, dropWhile json_digit (skip_byte (\<lambda>c. c = 45 \<or> c = 43) (tl s3)) @ rest) else (i, s3 @ rest))"
    by (simp only: skip_number_def Let_def f1 f2 f3 f5 prod.case)
  moreover have "skip_number s = (if s3 \<noteq> [] \<and> (hd s3 = 101 \<or> hd s3 = 69)
      then (False, dropWhile json_digit (skip_byte (\<lambda>c. c = 45 \<or> c = 43) (tl s3))) else (i, s3))"
    by (simp only: skip_number_def Let_def s1_def [symmetric] s2_def [symmetric] g3 prod.case)
  ultimately show ?thesis
    using assms(2) by (auto split: if_splits)
qed

lemma read_number_text:
  assumes "ends_number rest" "skip_number s = (is_int, [])" "s \<noteq> []"
  shows "read_number td (s @ rest) =
     (let double = (case td s of None \<Rightarrow> read_fail Illegal_Number rest | Some d \<Rightarrow> Done (Json_Double d) rest)
      in case (if is_int then to_integral True 32 s 10 else None) of
           Some n \<Rightarrow> if n < 2 ^ 25 \<and> n > - (2 ^ 25) then Done (Json_Int n) rest else double
         | None \<Rightarrow> double)"
  using skip_number_append [OF assms(1,2)] assms(1) by (simp add: read_number_def ends_number_def Let_def)

text \<open>The decimal digits of an integer.\<close>

lemma hd_digits_of: "0 < n \<Longrightarrow> hd (digits_of 10 n) \<noteq> 0"
proof (induction n rule: less_induct)
  case (less n)
  show ?case
  proof (cases "n < 10")
    case True
    then show ?thesis
      using less.prems by (simp add: digits_of_step [of n])
  next
    case False
    then have "0 < n div 10" "n div 10 < n" "digits_of 10 (n div 10) \<noteq> []"
      by (simp_all add: digits_of_nonempty)
    then show ?thesis
      using less by (simp add: digits_of_step [of n])
  qed
qed

lemma unat_decimal_digit: "c < 10 \<Longrightarrow> unat (ulltoa2_digit c) = 48 + c"
  using unat_digit [of c] by simp

lemma json_digit_decimal: "c < 10 \<Longrightarrow> json_digit (ulltoa2_digit c)" "c < 10 \<Longrightarrow> ulltoa2_digit c = 48 \<longleftrightarrow> c = 0"
  using unat_decimal_digit [of c] by (auto simp: json_digit_def word_le_nat_alt word_unat_eq_iff)

lemma skip_decimal:
  assumes "cs \<noteq> []" "\<forall>c\<in>set cs. c < 10" "hd cs = 0 \<longrightarrow> cs = [0]" "sign = [] \<or> sign = [45]"
  shows "skip_number (sign @ map ulltoa2_digit cs) = (True, [])"
proof -
  let ?ds = "map ulltoa2_digit cs"
  have d: "hd cs < 10" "?ds \<noteq> []" "hd ?ds = ulltoa2_digit (hd cs)"
    using assms(1,2) by (simp_all add: hd_map)
  have "hd ?ds \<noteq> 45"
    using d unat_decimal_digit [of "hd cs"] by (auto simp: word_unat_eq_iff)
  then have "skip_byte (\<lambda>c. c = 45) (sign @ ?ds) = ?ds"
    using assms(4) d by (auto simp: skip_byte_def)
  moreover have "(if ?ds \<noteq> [] \<and> hd ?ds = 48 then tl ?ds else dropWhile json_digit ?ds) = []"
  proof (cases "hd cs = 0")
    case True
    then have "cs = [0]"
      using assms(3) by simp
    then show ?thesis
      by (simp add: json_digit_decimal)
  next
    case False
    then show ?thesis
      using d assms(2) json_digit_decimal by (auto simp: dropWhile_eq_Nil_conv)
  qed
  ultimately show ?thesis
    by (simp add: skip_number_def Let_def)
qed

lemma decimal_text_read:
  assumes "- (2 ^ 25) < n" "n < 2 ^ 25"
  shows "skip_number (decimal_text n) = (True, [])" "to_integral True 32 (decimal_text n) 10 = Some n"
    "decimal_text n \<noteq> []" "hd (decimal_text n) = 45 \<or> json_digit (hd (decimal_text n))"
proof -
  define m where "m = nat \<bar>n\<bar>"
  define cs where "cs = (if m = 0 then [0] else digits_of 10 m)"
  have dt: "decimal_text n = (if n < 0 then [45] else []) @ map ulltoa2_digit cs"
    by (simp add: decimal_text_def cs_def m_def)
  have cs: "cs \<noteq> []" "\<And>c. c \<in> set cs \<Longrightarrow> c < 10" "digits_value 10 (map ulltoa2_digit cs) = m"
    unfolding cs_def using printed_digits [where base = 10 and n = m] by simp_all
  have "hd cs = 0 \<longrightarrow> cs = [0]"
    using hd_digits_of [of m] by (cases "m = 0") (simp_all add: cs_def)
  then show "skip_number (decimal_text n) = (True, [])"
    using skip_decimal [OF cs(1), of "if n < 0 then [45] else []"] cs(2) by (simp add: dt)
  show "decimal_text n \<noteq> []" "hd (decimal_text n) = 45 \<or> json_digit (hd (decimal_text n))"
    using cs(1,2) json_digit_decimal(1) [of "hd cs"] by (auto simp: dt hd_map)
  have m: "m < 2 ^ 25" "n < 0 \<Longrightarrow> n = - int m" "\<not> n < 0 \<Longrightarrow> n = int m"
    using assms by (auto simp: m_def)
  have "pdk_strtoll (decimal_text n) 10 = Some (n, [])"
    using pdk_strtoll_digits [of 10 cs] pdk_strtoll_neg_digits [of 10 cs] cs m by (simp add: dt)
  moreover have tw: "takeWhile (\<lambda>c. c \<noteq> 0) (decimal_text n) = decimal_text n"
    using takeWhile_printed [of cs] cs(2) by (force simp: dt)
  moreover have "signed_take_bit 31 n = n"
    using assms by (intro signed_take_bit_int_eq_self) auto
  ultimately show "to_integral True 32 (decimal_text n) 10 = Some n"
    using \<open>decimal_text n \<noteq> []\<close> by (simp add: tw to_integral_def bytearray_to_long_long_def Let_def)
qed

section \<open>White space\<close>

definition blank :: "byte list \<Rightarrow> bool" where
  "blank ws \<longleftrightarrow> (\<forall>c\<in>set ws. json_space c)"

lemma blank_simps [simp]: "blank []" "blank (32 # ws) \<longleftrightarrow> blank ws" "blank (10 # ws) \<longleftrightarrow> blank ws" "blank (spaces n)"
  "blank (vs @ ws) \<longleftrightarrow> blank vs \<and> blank ws"
  by (auto simp: blank_def json_space_def)

lemma eat_space_blank: "blank ws \<Longrightarrow> eat_space (ws @ json) = eat_space json"
  by (induction ws) (auto simp: blank_def eat_space_def)

lemma eat_space_token [simp]: "\<not> json_space c \<Longrightarrow> eat_space (c # json) = c # json"
  by (simp add: eat_space_def)

lemma not_space [simp]: "\<not> json_space 34" "\<not> json_space 44" "\<not> json_space 58" "\<not> json_space 91" "\<not> json_space 93"
  "\<not> json_space 123" "\<not> json_space 125"
  by (simp_all add: json_space_def)

lemma next_token_blank:
  "blank ws \<Longrightarrow> c \<in> {34, 44, 58, 91, 93, 123, 125} \<Longrightarrow> next_token (ws @ c # json) = (c, json)"
  by (auto simp: next_token_def eat_space_blank token_byte_def)

lemma next_token_token [simp]: "c \<in> {34, 44, 58, 91, 93, 123, 125} \<Longrightarrow> next_token (c # json) = (c, json)"
  using next_token_blank [of "[]"] by simp

lemma ends_number_blank: "blank ws \<Longrightarrow> c \<in> {44, 93, 125} \<Longrightarrow> ends_number (ws @ c # rest)"
  by (cases ws) (auto simp: ends_number_def blank_def json_space_def json_digit_def)

text \<open>A value starts with a byte that is neither white space nor the end of an array.\<close>

definition starts_value :: "byte list \<Rightarrow> bool" where
  "starts_value s \<longleftrightarrow> s \<noteq> [] \<and> \<not> json_space (hd s) \<and> hd s \<noteq> 93"

lemma starts_valueD: "starts_value s \<Longrightarrow> eat_space (s @ rest) = s @ rest" "starts_value s \<Longrightarrow> s \<noteq> []"
  "starts_value s \<Longrightarrow> hd (s @ rest) \<noteq> 93"
  by (cases s; simp add: starts_value_def)+

lemma json_text_starts: "json_writable env td t \<Longrightarrow> starts_value (json_text env compact indent t)"
proof -
  have digit: "starts_value s" if "s \<noteq> []" "hd s = 45 \<or> json_digit (hd s)" for s
    using that by (auto simp: starts_value_def json_space_def json_digit_def)
  assume "json_writable env td t"
  then show ?thesis
    by (cases t)
      (use digit decimal_text_read(3,4) in
        \<open>auto simp: double_readable_def Let_def, (auto simp: starts_value_def json_space_def)\<close>)
qed

section \<open>Arrays and objects\<close>

declare content_text.simps(2) [simp del]

text \<open>\<open>rv\<close> reads back the texts \<open>T\<close> of the trees.\<close>

definition reads_back :: "value_reader \<Rightarrow> (json \<Rightarrow> byte list) \<Rightarrow> json \<Rightarrow> bool" where
  "reads_back rv T t \<longleftrightarrow> starts_value (T t) \<and> (\<forall>rest. ends_number rest \<longrightarrow> rv (T t @ rest) = Done t rest)"

lemma reads_backD: "reads_back rv T t \<Longrightarrow> ends_number rest \<Longrightarrow> rv (T t @ rest) = Done t rest"
  by (simp add: reads_back_def)

lemma read_separator_text:
  "blank ws \<Longrightarrow> read_separator (ws @ 93 # rest) = Done False rest"
  "blank ws \<Longrightarrow> read_separator (ws @ 44 # rest) = Done True rest"
  by (simp_all add: read_separator_def next_token_blank)

text \<open>What follows the first element of a list.\<close>

definition content_rest :: "nat \<Rightarrow> bool \<Rightarrow> byte list list \<Rightarrow> byte list \<Rightarrow> byte list" where
  "content_rest indent compact ss tail =
     (if ss = [] then (if compact then [] else [10]) @ tail
      else 44 # (if compact then [] else [10]) @ content_text indent compact ss @ tail)"

lemma content_text_Cons:
  "content_text indent compact (s # ss) @ tail = spaces indent @ s @ content_rest indent compact ss tail"
  by (simp add: content_rest_def content_text.simps)

lemma length_content_text: "length ss \<le> Suc (length (content_text indent compact ss))"
  by (induction ss) (auto simp: content_text.simps)

lemma length_content_rest: "length ss \<le> length (content_rest indent compact ss tail)"
  using length_content_text [of ss indent compact] by (auto simp: content_rest_def)

lemma ends_number_content_rest:
  "c \<in> {44, 93, 125} \<Longrightarrow> ends_number (content_rest indent compact ss (spaces n @ c # rest))"
  using ends_number_blank [of "(if compact then [] else [10]) @ spaces n" c rest] ends_number_blank [of "[]" 44]
  by (auto simp: content_rest_def)

lemma eat_space_content:
  "blank ws \<Longrightarrow> starts_value s \<Longrightarrow>
   eat_space (ws @ content_text indent compact (s # ss) @ tail) = s @ content_rest indent compact ss tail"
  using eat_space_blank [of "ws @ spaces indent" "s @ content_rest indent compact ss tail"]
  by (simp only: content_text_Cons blank_simps append_assoc starts_valueD)

lemma read_elements_text:
  "ts \<noteq> [] \<Longrightarrow> \<forall>t\<in>set ts. reads_back rv T t \<Longrightarrow> length ts \<le> fuel \<Longrightarrow> blank ws \<Longrightarrow>
   read_elements rv fuel acc (ws @ content_text indent compact (map T ts) @ spaces n @ 93 # rest) = Done (acc @ ts) rest"
proof (induction ts arbitrary: fuel acc ws)
  case (Cons t ts)
  obtain k where k: "fuel = Suc k" "length ts \<le> k"
    using Cons.prems(3) by (cases fuel) auto
  have t: "reads_back rv T t" and start: "starts_value (T t)"
    using Cons.prems(2) by (simp_all add: reads_back_def)
  define more where "more = content_rest indent compact (map T ts) (spaces n @ 93 # rest)"
  have "eat_space (ws @ content_text indent compact (map T (t # ts)) @ spaces n @ 93 # rest) = T t @ more"
    using eat_space_content [OF Cons.prems(4) start] by (simp add: more_def)
  moreover have "rv (T t @ more) = Done t more"
    by (rule reads_backD [OF t]) (simp add: more_def ends_number_content_rest)
  moreover have "and_then (read_separator more) (\<lambda>b json. if b then read_elements rv k (acc @ [t]) json else Done (acc @ [t]) json) =
      Done (acc @ t # ts) rest"
  proof (cases "ts = []")
    case True
    then show ?thesis
      using read_separator_text(1) [of "(if compact then [] else [10]) @ spaces n" rest] by (simp add: more_def content_rest_def)
  next
    case False
    then show ?thesis
      using read_separator_text(2) [of "[]"] Cons.IH [of k "if compact then [] else [10]" "acc @ [t]"] Cons.prems(2) k(2)
      by (simp add: more_def content_rest_def)
  qed
  ultimately show ?case
    using starts_valueD(2) [OF start] by (simp add: k(1) Let_def)
qed simp

lemma eat_space_twice [simp]: "eat_space (eat_space json) = eat_space json"
  by (simp add: eat_space_def)

lemma read_array_text:
  assumes "\<forall>t\<in>set ts. reads_back rv T t" "nesting < nesting_limit" "blank ws"
  shows "read_array rv nesting (ws @ content_text indent compact (map T ts) @ spaces n @ 93 # rest) = Done ts rest"
proof (cases ts)
  case Nil
  then show ?thesis
    using assms(2,3) eat_space_blank [of "ws @ spaces n" "93 # rest"] by (simp add: read_array_def read_enter_def)
next
  case (Cons t ts')
  define tail where "tail = spaces n @ 93 # rest"
  define json where "json = ws @ content_text indent compact (map T ts) @ tail"
  define more where "more = T t @ content_rest indent compact (map T ts') tail"
  have start: "starts_value (T t)"
    using assms(1) Cons by (simp add: reads_back_def)
  have e: "eat_space json = more"
    using eat_space_content [OF assms(3) start] Cons by (simp add: json_def more_def)
  have "length ts \<le> Suc (length more)"
    using length_content_rest [of "map T ts'" indent compact tail] Cons by (simp add: more_def)
  then have "read_elements rv (Suc (length more)) [] json = Done ts rest"
    using read_elements_text [OF _ assms(1) _ assms(3), of "Suc (length more)" "[]"] Cons by (simp add: json_def tail_def)
  moreover have "read_elements rv (Suc (length more)) [] more = read_elements rv (Suc (length more)) [] json"
    using e eat_space_twice [of json] by (simp add: Let_def)
  moreover have "more \<noteq> []" "hd more \<noteq> 93"
    using starts_valueD(2,3) [OF start] by (simp_all add: more_def)
  ultimately have "read_array rv nesting json = Done ts rest"
    using assms(2) by (simp add: read_array_def read_enter_def Let_def e)
  then show ?thesis
    by (simp add: json_def tail_def)
qed

text \<open>A member, from behind the quote of its key on.\<close>

definition member_text :: "bool \<Rightarrow> (json \<Rightarrow> byte list) \<Rightarrow> json_key \<times> json \<Rightarrow> byte list" where
  "member_text compact T kt = escaped (snd (fst kt)) @ [34] @ (if compact then [58] else [58, 32]) @ T (snd kt)"

definition member_reads_back :: "value_reader \<Rightarrow> (json \<Rightarrow> byte list) \<Rightarrow> json_key \<times> json \<Rightarrow> bool" where
  "member_reads_back rv T kt \<longleftrightarrow>
     valid_text (snd (fst kt)) \<and> fst (fst kt) = latin1_text (snd (fst kt)) \<and> reads_back rv T (snd kt)"

lemma read_member_text:
  assumes "member_reads_back rv T kt" "ends_number rest"
  shows "read_member rv (member_text compact T kt @ rest) = Done kt rest"
proof -
  define json where "json = (if compact then [] else [32]) @ T (snd kt) @ rest"
  obtain cs where cs: "snd (fst kt) = units_of cs" "\<forall>c\<in>set cs. scalar c"
    using assms(1) by (auto simp: member_reads_back_def valid_text_def)
  have t: "reads_back rv T (snd kt)" "starts_value (T (snd kt))"
    using assms(1) by (simp_all add: member_reads_back_def reads_back_def)
  have "member_text compact T kt @ rest = escaped (units_of cs) @ 34 # 58 # json"
    by (simp add: member_text_def json_def cs(1))
  moreover have "read_string (escaped (units_of cs) @ 34 # 58 # json) = Done (fst kt) (58 # json)"
    using read_string_escaped [OF cs(2), of "58 # json"] assms(1) cs(1) by (simp add: member_reads_back_def prod_eq_iff)
  moreover have "eat_space json = T (snd kt) @ rest"
    using eat_space_blank [of "if compact then [] else [32]" "T (snd kt) @ rest"] starts_valueD(1) [OF t(2)] by (simp add: json_def)
  ultimately have "read_key (member_text compact T kt @ rest) = Done (fst kt) (T (snd kt) @ rest)"
    using starts_valueD(2) [OF t(2)] by (simp add: read_key_def)
  then show ?thesis
    using reads_backD [OF t(1) assms(2)] by (simp add: read_member_def)
qed

lemma read_members_text:
  "\<forall>kt\<in>set (kt # ms). member_reads_back rv T kt \<Longrightarrow> sorted_wrt key_less (map fst (acc @ kt # ms)) \<Longrightarrow> length ms < fuel \<Longrightarrow>
   read_members rv fuel acc 34
     (member_text compact T kt @
      content_rest indent compact (map (\<lambda>kt. 34 # member_text compact T kt) ms) (spaces n @ 125 # rest)) =
   Done (acc @ kt # ms) rest"
proof (induction ms arbitrary: fuel acc kt)
  case Nil
  have "insert_member kt acc = acc @ [kt]"
    using insert_member_last [of acc "fst kt" "snd kt"] Nil.prems(2) by (force simp: sorted_wrt_append)
  moreover have "read_member rv (member_text compact T kt @ content_rest indent compact [] (spaces n @ 125 # rest)) =
      Done kt (content_rest indent compact [] (spaces n @ 125 # rest))"
    using Nil.prems(1) by (intro read_member_text) (simp_all add: ends_number_content_rest)
  moreover obtain k where "fuel = Suc k"
    using Nil.prems(3) by (cases fuel) auto
  ultimately show ?case
    using next_token_blank [of "(if compact then [] else [10]) @ spaces n" 125 rest]
    by (simp add: content_rest_def Let_def)
next
  case (Cons kt' ms)
  define more where "more = member_text compact T kt' @
      content_rest indent compact (map (\<lambda>kt. 34 # member_text compact T kt) ms) (spaces n @ 125 # rest)"
  define sep where "sep = (if compact then [] else [10]) @ spaces indent @ 34 # more"
  have sep: "content_rest indent compact (map (\<lambda>kt. 34 # member_text compact T kt) (kt' # ms)) (spaces n @ 125 # rest) = 44 # sep"
    by (simp add: content_text_Cons content_rest_def [of _ _ "_ # _"] more_def sep_def)
  have "insert_member kt acc = acc @ [kt]"
    using insert_member_last [of acc "fst kt" "snd kt"] Cons.prems(2) by (force simp: sorted_wrt_append)
  moreover have "read_member rv (member_text compact T kt @ 44 # sep) = Done kt (44 # sep)"
    using Cons.prems(1) ends_number_blank [of "[]" 44] by (intro read_member_text) simp_all
  moreover have "next_token sep = (34, more)"
    using next_token_blank [of "(if compact then [] else [10]) @ spaces indent" 34 more] by (simp add: sep_def)
  moreover obtain k where k: "fuel = Suc k" "length ms < k"
    using Cons.prems(3) by (cases fuel) auto
  moreover have "read_members rv k (acc @ [kt]) 34 more = Done (acc @ kt # kt' # ms) rest"
    using Cons.IH [of kt' "acc @ [kt]" k] Cons.prems k(2) by (simp add: more_def)
  ultimately show ?case
    by (simp add: sep [simplified] Let_def)
qed

lemma read_object_text:
  assumes "\<forall>kt\<in>set ms. member_reads_back rv T kt" "sorted_wrt key_less (map fst ms)" "nesting < nesting_limit" "blank ws"
  shows "read_object rv nesting
     (ws @ content_text indent compact (map (\<lambda>kt. 34 # member_text compact T kt) ms) @ spaces n @ 125 # rest) = Done ms rest"
proof (cases ms)
  case Nil
  then show ?thesis
    using assms(3,4) next_token_blank [of "ws @ spaces n" 125 rest] by (simp add: read_object_def read_enter_def)
next
  case (Cons kt ms')
  define more where "more = content_rest indent compact (map (\<lambda>kt. 34 # member_text compact T kt) ms') (spaces n @ 125 # rest)"
  have "ws @ content_text indent compact (map (\<lambda>kt. 34 # member_text compact T kt) ms) @ spaces n @ 125 # rest =
      (ws @ spaces indent) @ 34 # member_text compact T kt @ more"
    by (simp add: Cons content_text_Cons more_def)
  then have "next_token (ws @ content_text indent compact (map (\<lambda>kt. 34 # member_text compact T kt) ms) @ spaces n @ 125 # rest) =
      (34, member_text compact T kt @ more)"
    using next_token_blank [of "ws @ spaces indent" 34] assms(4) by simp
  moreover have "length ms' < Suc (length (member_text compact T kt @ more))"
    using length_content_rest [of "map (\<lambda>kt. 34 # member_text compact T kt) ms'" indent compact "spaces n @ 125 # rest"]
    by (simp add: more_def less_Suc_eq_le)
  then have "read_members rv (Suc (length (member_text compact T kt @ more))) [] 34 (member_text compact T kt @ more) = Done ms rest"
    using read_members_text [of kt ms' rv T "[]"] assms(1,2) Cons by (simp add: more_def del: read_members.simps)
  ultimately show ?thesis
    using assms(3) by (simp add: read_object_def read_enter_def del: read_members.simps)
qed

end
