(* ===== verification/Json_Round_Trip.thy ===== *)
theory Json_Round_Trip
  imports Json_Writing
begin

text \<open>
  The round trips: the text of a tree is read as the tree, and the writer on a document in memory writes the text of its tree.
\<close>

section \<open>Values\<close>

lemma json_depth_less:
  "t \<in> set ts \<Longrightarrow> json_depth t < json_depth (Json_Array ts)"
  "kt \<in> set ms \<Longrightarrow> json_depth (snd kt) < json_depth (Json_Object ms)"
  by (auto simp: less_Suc_eq_le intro!: Max_ge)

lemma number_head:
  assumes "s \<noteq> []" "hd s = 45 \<or> json_digit (hd s)"
  shows "read_value td (Suc fuel) nesting (s @ rest) = read_number td (s @ rest)"
proof -
  obtain c cs where s: "s = c # cs"
    using assms(1) by (cases s) auto
  have "c \<notin> {0x6e, 0x74, 0x66, 0x22, 0x5b, 0x7b, 0x2c, 0x7d, 0x5d}"
    using assms(2) by (auto simp: s json_digit_def)
  then show ?thesis
    by (simp add: s)
qed

lemma json_text_array:
  "json_text env compact indent (Json_Array ts) @ rest =
     91 # (if compact then [] else [10]) @
     content_text (deeper compact indent) compact (map (json_text env compact (deeper compact indent)) ts) @
     spaces indent @ 93 # rest"
  by simp

lemma json_text_object:
  "json_text env compact indent (Json_Object ms) @ rest =
     123 # (if compact then [] else [10]) @
     content_text (deeper compact indent) compact
       (map (\<lambda>kt. 34 # member_text compact (json_text env compact (deeper compact indent)) kt) ms) @
     spaces indent @ 125 # rest"
  by (simp add: member_text_def case_prod_unfold)

lemma read_value_text:
  "json_writable env td t \<Longrightarrow> json_depth t < fuel \<Longrightarrow> nesting + json_depth t \<le> nesting_limit \<Longrightarrow>
   reads_back (read_value td fuel nesting) (json_text env compact indent) t"
proof (induction fuel arbitrary: t nesting indent)
  case (Suc fuel)
  have start: "starts_value (json_text env compact indent t)"
    using Suc.prems(1) by (rule json_text_starts)
  let ?T = "json_text env compact (deeper compact indent)"
  have "read_value td (Suc fuel) nesting (json_text env compact indent t @ rest) = Done t rest" if rest: "ends_number rest" for rest
  proof (cases t)
    case Json_Null
    then show ?thesis
      using rest by (cases rest) (simp_all add: ends_number_def read_literal_def)
  next
    case (Json_Bool b)
    then show ?thesis
      using rest by (cases rest; cases b) (simp_all add: ends_number_def read_literal_def)
  next
    case (Json_Int n)
    then have n: "- (2 ^ 25) < n" "n < 2 ^ 25" "json_text env compact indent t = decimal_text n"
      using Suc.prems(1) by simp_all
    note d = decimal_text_read [OF n(1,2)]
    show ?thesis
      using number_head [OF d(3,4)] read_number_text [OF rest d(1,3), of td] d(2) n by (simp add: Json_Int)
  next
    case (Json_Double d)
    define s where "s = we_number env (Inr d)"
    obtain is_int where s: "skip_number s = (is_int, [])" "s \<noteq> []" "hd s = 45 \<or> json_digit (hd s)" "td s = Some d"
      "is_int \<longrightarrow> (case to_integral True 32 s 10 of None \<Rightarrow> True | Some n \<Rightarrow> n \<ge> 2 ^ 25 \<or> n \<le> - (2 ^ 25))"
      using Suc.prems(1) by (auto simp: Json_Double double_readable_def s_def Let_def split: prod.splits)
    have "json_text env compact indent t = s"
      using Suc.prems(1) by (simp add: Json_Double double_readable_def s_def)
    then show ?thesis
      using number_head [OF s(2,3)] read_number_text [OF rest s(1,2), of td] s(4,5)
      by (auto simp: Json_Double Let_def split: option.splits)
  next
    case (Json_String us)
    then obtain cs where cs: "us = units_of cs" "\<forall>c\<in>set cs. scalar c"
      using Suc.prems(1) by (auto simp: valid_text_def)
    show ?thesis
      using read_string_escaped [OF cs(2), of rest] rest by (simp add: Json_String cs(1) ends_number_def)
  next
    case (Json_Array ts)
    have "\<forall>t\<in>set ts. reads_back (read_value td fuel (nesting + 1)) ?T t"
      using Suc.prems json_depth_less(1) [of _ ts] by (intro ballI Suc.IH) (fastforce simp: Json_Array)+
    then have "read_array (read_value td fuel (nesting + 1)) nesting ((if compact then [] else [10]) @
        content_text (deeper compact indent) compact (map ?T ts) @ spaces indent @ 93 # rest) = Done ts rest"
      using Suc.prems(3) by (intro read_array_text) (simp_all add: Json_Array)
    then show ?thesis
      by (simp add: Json_Array json_text_array del: json_text.simps)
  next
    case (Json_Object ms)
    have "\<forall>kt\<in>set ms. member_reads_back (read_value td fuel (nesting + 1)) ?T kt"
      using Suc.prems json_depth_less(2) [of _ ms] Suc.IH [of "snd _" "nesting + 1"]
      by (fastforce simp: Json_Object member_reads_back_def)
    then have "read_object (read_value td fuel (nesting + 1)) nesting ((if compact then [] else [10]) @
        content_text (deeper compact indent) compact (map (\<lambda>kt. 34 # member_text compact ?T kt) ms) @ spaces indent @ 125 # rest) =
        Done ms rest"
      using Suc.prems by (intro read_object_text) (simp_all add: Json_Object)
    then show ?thesis
      by (simp add: Json_Object json_text_object del: json_text.simps)
  qed
  then show ?case
    using start by (simp add: reads_back_def)
qed simp

section \<open>Documents\<close>

definition document_text :: "writer_env \<Rightarrow> bool \<Rightarrow> json \<Rightarrow> byte list" where
  "document_text env compact t = json_text env compact 0 t @ (if compact then [] else [10])"

lemma eat_bom_bracket: "c = 91 \<or> c = 123 \<Longrightarrow> eat_bom (c # json) = c # json"
  by (auto simp: eat_bom_def utf8_bom_def)

lemma json_read_text:
  assumes "json_writable env td t" "json_depth t \<le> fuel" "json_depth t \<le> nesting_limit"
    "t = Json_Array ts \<or> t = Json_Object ms"
  shows "json_read td fuel (document_text env compact t) = Done t []"
proof -
  let ?nl = "if compact then [] else [10]" and ?T = "json_text env compact (deeper compact 0)"
  have nl: "eat_space ?nl = []"
    using eat_space_blank [of ?nl "[]"] by (simp add: eat_space_def)
  have child: "reads_back (read_value td fuel 1) ?T t'" if "json_writable env td t'" "json_depth t' < json_depth t" for t'
    using that assms(2,3) by (intro read_value_text) auto
  from assms(4) show ?thesis
  proof
    assume t: "t = Json_Array ts"
    have "\<forall>t\<in>set ts. reads_back (read_value td fuel 1) ?T t"
      using assms(1) json_depth_less(1) [of _ ts] child by (simp add: t)
    then have "read_array (read_value td fuel 1) 0 (?nl @ content_text (deeper compact 0) compact (map ?T ts) @ spaces 0 @ 93 # ?nl) =
        Done ts ?nl"
      by (intro read_array_text) (simp_all add: nesting_limit_def)
    then show ?thesis
      using nl by (simp add: document_text_def t json_text_array json_read_def eat_bom_bracket del: json_text.simps)
  next
    assume t: "t = Json_Object ms"
    have "\<forall>kt\<in>set ms. member_reads_back (read_value td fuel 1) ?T kt"
      using assms(1) json_depth_less(2) [of _ ms] child by (simp add: t member_reads_back_def)
    then have "read_object (read_value td fuel 1) 0 (?nl @
        content_text (deeper compact 0) compact (map (\<lambda>kt. 34 # member_text compact ?T kt) ms) @ spaces 0 @ 125 # ?nl) = Done ms ?nl"
      using assms(1) by (intro read_object_text) (simp_all add: nesting_limit_def t)
    then show ?thesis
      using nl by (simp add: document_text_def t json_text_object json_read_def eat_bom_bracket del: json_text.simps)
  qed
qed

section \<open>The writer on memory\<close>

lemma array_content_text:
  assumes "base_length m b = length ts" "values_in m hi b 0 ts"
    and "\<And>v t. t \<in> set ts \<Longrightarrow> value_in m (b + 12) hi b v t \<Longrightarrow> wv b v indent = Some (T t)"
  shows "array_content_to_json m wv b indent compact = Some (content_text indent compact (map T ts))"
  using content_loop_text [of "map T ts" "\<lambda>i. wv b (array_at m b i) indent" 0] stored_value [OF assms(2)] assms(1,3)
  by (simp add: array_content_to_json_def)

lemma object_content_text:
  assumes "base_length m b = length ms" "entries_in m hi b 0 ms" "8 \<le> b" "ms \<noteq> [] \<Longrightarrow> hi \<le> length m \<and> hi + 2 < 2 ^ 31"
    and "\<And>v kt. kt \<in> set ms \<Longrightarrow> value_in m (b + 12) hi b v (snd kt) \<Longrightarrow> wv b v indent = Some (T (snd kt))"
  shows "object_content_to_json m wv b indent compact =
     Some (content_text indent compact (map (\<lambda>kt. 34 # member_text compact T kt) ms))"
proof -
  define item where "item = (\<lambda>i. let e = entry_at m b i
      in case local_to_string m (entry_latin m e) (e + 4) of
           Inl _ \<Rightarrow> None
         | Inr key \<Rightarrow> map_option (\<lambda>s. [34] @ escaped key @ (if compact then [34, 58] else [34, 58, 32]) @ s)
             (wv b (entry_value m e) indent))"
  have "item (0 + i) = Some (34 # member_text compact T (ms ! i))" if i: "i < length ms" for i
  proof -
    have "hi \<le> length m" "hi + 2 < 2 ^ 31" "20 \<le> b + 12"
      using assms(3,4) i by (cases ms; simp)+
    then show ?thesis
      using stored_entry [OF assms(2) i] local_to_string_key [OF stored_key [OF assms(2) i]] assms(5) [of "ms ! i"] nth_mem [OF i]
      by (simp add: item_def member_text_def Let_def)
  qed
  then show ?thesis
    using content_loop_text [of "map (\<lambda>kt. 34 # member_text compact T kt) ms" item 0] assms(1)
    unfolding object_content_to_json_def item_def by simp
qed

lemma value_to_json_text:
  "value_in m lo hi base v t \<Longrightarrow> 20 \<le> lo \<Longrightarrow> hi \<le> length m \<Longrightarrow> hi + 2 < 2 ^ 31 \<Longrightarrow> json_depth t < fuel \<Longrightarrow>
   value_to_json env m compact fuel base v indent = Some (json_text env compact indent t)"
proof (induction fuel arbitrary: lo hi base v t indent)
  case (Suc fuel)
  let ?b = "base + unat (value_value v)"
  let ?T = "json_text env compact (deeper compact indent)"
  show ?case
  proof (cases t)
    case (Json_Array ts)
    have v: "value_type v = type_array" "base_length m ?b = length ts"
      "values_in m (?b + base_table_offset m ?b) ?b 0 ts" "20 \<le> ?b + 12" "?b + base_table_offset m ?b \<le> length m"
      "?b + base_table_offset m ?b + 2 < 2 ^ 31"
      using Suc.prems(1-4) by (simp_all add: Json_Array Let_def base_in_def)
    have "array_content_to_json m (value_to_json env m compact fuel) ?b (deeper compact indent) compact =
        Some (content_text (deeper compact indent) compact (map ?T ts))"
      using Suc.prems(5) json_depth_less(1) [of _ ts] Json_Array
      by (intro array_content_text [OF v(2,3)] Suc.IH [OF _ v(4-6)]) fastforce+
    then show ?thesis
      using v(1) json_text_array [of env compact indent ts "[]"] by (simp add: Json_Array del: json_text.simps)
  next
    case (Json_Object ms)
    have v: "value_type v = type_object" "base_length m ?b = length ms"
      "entries_in m (?b + base_table_offset m ?b) ?b 0 ms" "20 \<le> ?b + 12" "?b + base_table_offset m ?b \<le> length m"
      "?b + base_table_offset m ?b + 2 < 2 ^ 31" "8 \<le> ?b"
      using Suc.prems(1-4) by (simp_all add: Json_Object Let_def base_in_def)
    have "object_content_to_json m (value_to_json env m compact fuel) ?b (deeper compact indent) compact =
        Some (content_text (deeper compact indent) compact (map (\<lambda>kt. 34 # member_text compact ?T kt) ms))"
      using Suc.prems(5) json_depth_less(2) [of _ ms] Json_Object v(5,6)
      by (intro object_content_text [OF v(2,3,7)] Suc.IH [OF _ v(4-6)]) fastforce+
    then show ?thesis
      using v(1) json_text_object [of env compact indent ms "[]"] by (simp add: Json_Object del: json_text.simps)
  next
    case (Json_String us)
    then show ?thesis
      using Suc.prems(1) local_to_string_key [OF _ Suc.prems(2-4), of ?b "(value_latin_or_int v, us)"] by simp
  qed (use Suc.prems in \<open>auto simp: Let_def\<close>)
qed simp

lemma document_to_json_text:
  assumes "document_in m n t" "json_depth t \<le> fuel" "length m < 2 ^ 31"
  shows "document_to_json env m fuel compact = Some (document_text env compact t)"
    "\<exists>ts ms. t = Json_Array ts \<or> t = Json_Object ms"
proof -
  show "\<exists>ts ms. t = Json_Array ts \<or> t = Json_Object ms"
    using assms(1) by (cases t) (auto simp: document_in_def)
  then consider ts where "t = Json_Array ts" | ms where "t = Json_Object ms"
    by blast
  then show "document_to_json env m fuel compact = Some (document_text env compact t)"
  proof cases
    case 1
    have m: "base_length m 8 = length ts" "values_in m (8 + base_table_offset m 8) 8 0 ts" "\<not> base_is_object m 8"
      using assms(1) by (simp_all add: 1 document_in_def base_in_def)
    have hi: "8 + base_table_offset m 8 \<le> length m" "8 + base_table_offset m 8 + 2 < 2 ^ 31" if "t' \<in> set ts" for t'
      using assms(1,3) that by (cases ts; simp add: 1 document_in_def base_in_def)+
    have "array_content_to_json m (value_to_json env m compact fuel) 8 (deeper compact 0) compact =
        Some (content_text (deeper compact 0) compact (map (json_text env compact (deeper compact 0)) ts))"
      using assms(2) json_depth_less(1) [of _ ts] 1 hi by (intro array_content_text [OF m(1,2)] value_to_json_text) fastforce+
    then show ?thesis
      using m(3) by (simp add: document_to_json_def array_to_json_def document_text_def 1 json_text_array del: json_text.simps)
  next
    case 2
    have m: "base_length m 8 = length ms" "entries_in m (8 + base_table_offset m 8) 8 0 ms" "base_is_object m 8"
      using assms(1) by (simp_all add: 2 document_in_def base_in_def)
    have hi: "8 + base_table_offset m 8 \<le> length m" "8 + base_table_offset m 8 + 2 < 2 ^ 31" if "ms \<noteq> []"
      using assms(1,3) that by (cases ms; simp add: 2 document_in_def base_in_def)+
    have "object_content_to_json m (value_to_json env m compact fuel) 8 (deeper compact 0) compact =
        Some (content_text (deeper compact 0) compact
          (map (\<lambda>kt. 34 # member_text compact (json_text env compact (deeper compact 0)) kt) ms))"
      using assms(2) json_depth_less(2) [of _ ms] 2 hi by (intro object_content_text [OF m(1,2)] value_to_json_text) fastforce+
    then show ?thesis
      using m(3) by (simp add: document_to_json_def object_to_json_def document_text_def 2 json_text_object del: json_text.simps)
  qed
qed

end
