(* ===== verification/Json_Nesting.thy ===== *)
theory Json_Nesting
  imports Json_Round_Trip
begin

text \<open>
  The limit of nested arrays and objects: what the reader accepts is not nested deeper, and a text that opens more of them is an
  error.
\<close>

section \<open>What is accepted\<close>

definition gives :: "'a reading \<Rightarrow> ('a \<Rightarrow> bool) \<Rightarrow> bool" where
  "gives r P \<longleftrightarrow> (\<forall>a rest. r = Done a rest \<longrightarrow> P a)"

lemma gives_simps [simp]: "gives (Done a rest) P \<longleftrightarrow> P a" "gives (Failed e n) P" "gives Out_Of_Fuel P" "gives Undefined P" "gives (read_fail e json) P"
  "gives (and_then (read_fail e json) f) Q"
  by (simp_all add: gives_def read_fail_def)

lemma gives_bind: "gives r P \<Longrightarrow> (\<And>a rest. P a \<Longrightarrow> gives (f a rest) Q) \<Longrightarrow> gives (and_then r f) Q"
  by (cases r) auto

lemma gives_if: "(c \<Longrightarrow> gives r P) \<Longrightarrow> (\<not> c \<Longrightarrow> gives r' P) \<Longrightarrow> gives (if c then r else r') P"
  by simp

lemma gives_any: "gives r (\<lambda>a. True)"
  by (simp add: gives_def)

lemma gives_elements:
  "(\<And>json. gives (rv json) P) \<Longrightarrow> \<forall>t\<in>set ts. P t \<Longrightarrow> gives (read_elements rv fuel ts json) (\<lambda>ts. \<forall>t\<in>set ts. P t)"
proof (induction fuel arbitrary: ts json)
  case (Suc fuel)
  have "gives (and_then (rv json') (\<lambda>t json. and_then (read_separator json) (\<lambda>more json.
      if more then read_elements rv fuel (ts @ [t]) json else Done (ts @ [t]) json))) (\<lambda>ts. \<forall>t\<in>set ts. P t)" for json'
  proof (rule gives_bind [OF Suc.prems(1)])
    show "gives (and_then (read_separator rest) (\<lambda>more json. if more then read_elements rv fuel (ts @ [t]) json
        else Done (ts @ [t]) json)) (\<lambda>ts. \<forall>t\<in>set ts. P t)" if "P t" for t rest
      using Suc.IH [OF Suc.prems(1), of "ts @ [t]"] Suc.prems(2) that
      by (intro gives_bind [OF gives_any]) auto
  qed
  then show ?case
    by (simp add: Let_def)
qed simp

lemma set_insert_member: "set (insert_member kt ms) \<subseteq> insert kt (set ms)"
  by (auto simp: insert_member_def Let_def dest!: set_update_subset_insert [THEN subsetD])

lemma gives_members:
  "(\<And>json. gives (rv json) P) \<Longrightarrow> \<forall>kt\<in>set ms. P (snd kt) \<Longrightarrow>
   gives (read_members rv fuel ms token json) (\<lambda>ms. \<forall>kt\<in>set ms. P (snd kt))"
proof (induction fuel arbitrary: ms token json)
  case (Suc fuel)
  have member: "gives (read_member rv json) (\<lambda>kt. P (snd kt))" for json
    unfolding read_member_def by (intro gives_bind [OF gives_any] gives_bind [OF Suc.prems(1)]) simp
  have new: "\<forall>kt\<in>set (insert_member kt ms). P (snd kt)" if "P (snd kt)" for kt
    using set_insert_member [of kt ms] that Suc.prems(2) by auto
  show ?case
    using Suc.IH [OF Suc.prems(1)] Suc.prems(2) new
    by (auto simp: Let_def case_prod_beta intro!: gives_bind [OF member])
qed simp

lemma read_value_depth:
  "nesting \<le> nesting_limit \<Longrightarrow> gives (read_value td fuel nesting json) (\<lambda>t. nesting + json_depth t \<le> nesting_limit)"
proof (induction fuel arbitrary: nesting json)
  case (Suc fuel)
  let ?rv = "read_value td fuel (nesting + 1)" and ?P = "\<lambda>t. nesting + 1 + json_depth t \<le> nesting_limit"
  have child: "gives (?rv json) ?P" if "nesting + 1 \<le> nesting_limit" for json
    using Suc.IH [OF that] .
  have array: "gives (read_array ?rv nesting json) (\<lambda>ts. nesting + json_depth (Json_Array ts) \<le> nesting_limit)" for json
  proof (cases "nesting + 1 \<le> nesting_limit")
    case True
    have *: "nesting + json_depth (Json_Array ts) \<le> nesting_limit" if "\<forall>t\<in>set ts. ?P t" for ts
    proof -
      have "Max (insert 0 (json_depth ` set ts)) \<le> nesting_limit - Suc nesting"
        by (rule Max.boundedI) (use that in auto)
      then show ?thesis
        using True unfolding json_depth.simps by linarith
    qed
    have "gives (read_elements ?rv k [] json) (\<lambda>ts. nesting + json_depth (Json_Array ts) \<le> nesting_limit)" for k json
      using gives_elements [of ?rv ?P "[]" k json] child [OF True] * by (auto simp: gives_def)
    then show ?thesis
      using True by (simp add: read_array_def read_enter_def Let_def del: read_elements.simps)
  qed (simp add: read_array_def read_enter_def)
  have object: "gives (read_object ?rv nesting json) (\<lambda>ms. nesting + json_depth (Json_Object ms) \<le> nesting_limit)" for json
  proof (cases "nesting + 1 \<le> nesting_limit")
    case True
    have *: "nesting + json_depth (Json_Object ms) \<le> nesting_limit" if "\<forall>kt\<in>set ms. ?P (snd kt)" for ms
    proof -
      have "Max (insert 0 ((\<lambda>kt. json_depth (snd kt)) ` set ms)) \<le> nesting_limit - Suc nesting"
        by (rule Max.boundedI) (use that in auto)
      then show ?thesis
        using True unfolding json_depth.simps by linarith
    qed
    have "gives (read_members ?rv k [] token json) (\<lambda>ms. nesting + json_depth (Json_Object ms) \<le> nesting_limit)" for k token json
      using gives_members [of ?rv ?P "[]" k token json] child [OF True] * by (auto simp: gives_def)
    then show ?thesis
      using True by (simp add: read_object_def read_enter_def Let_def case_prod_beta del: read_members.simps)
  qed (simp add: read_object_def read_enter_def)
  have literal: "gives (read_literal cs t json) (\<lambda>t. nesting + json_depth t \<le> nesting_limit)" if "json_depth t = 0" for cs t json
    using Suc.prems that by (simp add: read_literal_def Let_def case_prod_beta)
  have number: "gives (read_number td json) (\<lambda>t. nesting + json_depth t \<le> nesting_limit)" for json
    using Suc.prems by (auto simp: read_number_def Let_def case_prod_beta split: option.splits)
  have str: "gives (and_then (read_string json) (\<lambda>key json. Done (Json_String (snd key)) json)) (\<lambda>t. nesting + json_depth t \<le> nesting_limit)" for json
    using Suc.prems by (intro gives_bind [OF gives_any]) simp
  show ?case
    unfolding read_value.simps Let_def
    by (intro gives_if literal number str gives_bind [OF array] gives_bind [OF object]) simp_all
qed simp

lemma json_read_depth: "gives (json_read td fuel json) (\<lambda>t. json_depth t \<le> nesting_limit)"
proof -
  let ?rv = "read_value td fuel 1"
  have child: "gives (?rv json) (\<lambda>t. Suc (json_depth t) \<le> nesting_limit)" for json
    using read_value_depth [of 1 td fuel json] by (simp add: nesting_limit_def)
  have bound: "Suc (Max (insert 0 ds)) \<le> nesting_limit" if "finite ds" "\<forall>d\<in>ds. Suc d \<le> nesting_limit" for ds
    using that Max_in [of "insert 0 ds"] by (auto simp: nesting_limit_def)
  have "gives (read_elements ?rv k [] json) (\<lambda>ts. json_depth (Json_Array ts) \<le> nesting_limit)" for k json
    using gives_elements [of ?rv "\<lambda>t. Suc (json_depth t) \<le> nesting_limit" "[]" k json] child
    by (auto simp: gives_def intro!: bound)
  then have array: "gives (read_array ?rv 0 json) (\<lambda>ts. json_depth (Json_Array ts) \<le> nesting_limit)" for json
    by (simp add: read_array_def read_enter_def nesting_limit_def Let_def del: read_elements.simps)
  have "gives (read_members ?rv k [] token json) (\<lambda>ms. json_depth (Json_Object ms) \<le> nesting_limit)" for k token json
    using gives_members [of ?rv "\<lambda>t. Suc (json_depth t) \<le> nesting_limit" "[]" k token json] child
    by (auto simp: gives_def intro!: bound)
  then have object: "gives (read_object ?rv 0 json) (\<lambda>ms. json_depth (Json_Object ms) \<le> nesting_limit)" for json
    by (simp add: read_object_def read_enter_def nesting_limit_def Let_def case_prod_beta del: read_members.simps)
  have e: "gives (let json = eat_space json in if json \<noteq> [] then read_fail Garbage_At_End json else Done t json)
      (\<lambda>t. json_depth t \<le> nesting_limit)" if "json_depth t \<le> nesting_limit" for t json
    using that by (simp add: Let_def)
  show ?thesis
    unfolding json_read_def Let_def case_prod_beta
    by (rule gives_bind [OF _ e [unfolded Let_def]])
      (intro gives_if gives_bind [OF array] gives_bind [OF object], simp_all del: json_depth.simps)
qed

section \<open>What is refused\<close>

lemma eat_space_opened [simp]: "eat_space (replicate (Suc k) 0x5b @ rest) = replicate (Suc k) 0x5b @ rest"
  by simp

lemma read_value_too_deep:
  "nesting_limit < nesting + k \<Longrightarrow> nesting \<le> nesting_limit \<Longrightarrow> nesting_limit - nesting < fuel \<Longrightarrow>
   \<exists>n. read_value td fuel nesting (replicate k 0x5b @ rest) = Failed Deep_Nesting n"
proof (induction fuel arbitrary: nesting k)
  case (Suc fuel)
  obtain j where k: "k = Suc j"
    using Suc.prems(1,2) by (cases k) auto
  show ?case
  proof (cases "nesting = nesting_limit")
    case True
    then show ?thesis
      by (simp add: k read_array_def read_enter_def read_fail_def)
  next
    case False
    then obtain i where j: "j = Suc i"
      using Suc.prems(1,2) k by (cases j) auto
    have "nesting_limit < nesting + 1 + j" "nesting + 1 \<le> nesting_limit" "nesting_limit - (nesting + 1) < fuel"
      using Suc.prems False k by linarith+
    then obtain n where "read_value td fuel (nesting + 1) (replicate j 0x5b @ rest) = Failed Deep_Nesting n"
      using Suc.IH by blast
    then show ?thesis
      using False Suc.prems(2) by (simp add: k j read_array_def read_enter_def Let_def)
  qed
qed simp

lemma json_read_too_deep:
  assumes "nesting_limit < k" "nesting_limit \<le> fuel"
  shows "\<exists>n. json_read td fuel (replicate k 0x5b @ rest) = Failed Deep_Nesting n"
proof -
  obtain j where k: "k = Suc (Suc j)"
    using assms(1) by (cases k; cases "k - 1") (auto simp: nesting_limit_def)
  obtain n where "read_value td fuel 1 (replicate (Suc j) 0x5b @ rest) = Failed Deep_Nesting n"
    using read_value_too_deep [of 1 "Suc j" fuel td rest] assms k by (auto simp: nesting_limit_def)
  then show ?thesis
    by (simp add: k json_read_def eat_bom_bracket read_array_def read_enter_def nesting_limit_def Let_def)
qed

end
