(* ===== verification/Json_Growth.thy ===== *)
theory Json_Growth
  imports Json_Reading
begin

text \<open>
  How much the parser writes: the bytes written so far and twelve for every byte of text left never grow by more than
  a number does.  So the block of a text shorter than \<open>2 ^ 25\<close> bytes stays below \<open>2 ^ 31\<close>, no size overflows, and the
  parser is defined.
\<close>

named_theorems safe \<open>parts of the parser that stay defined below a bound\<close>

section \<open>Outcomes below a bound\<close>

definition pot :: "parser \<Rightarrow> nat" where
  "pot st = p_current st + 12 * length (p_json st)"

definition fits :: "nat \<Rightarrow> parser \<Rightarrow> bool" where
  "fits B st \<longleftrightarrow> 3 * B \<le> int_max \<and> length (p_data st) \<le> 3 * B"

definition ample :: "parser_env \<Rightarrow> nat \<Rightarrow> bool" where
  "ample env B \<longleftrightarrow> int B < max_size \<and> (\<forall>n\<le>int_max. env_realloc env n)"

definition safe :: "parser_env \<Rightarrow> nat \<Rightarrow> ('a, parser) outcome \<Rightarrow> ('a \<Rightarrow> parser \<Rightarrow> bool) \<Rightarrow> bool" where
  "safe env B r Q \<longleftrightarrow> (case r of Done a st \<Rightarrow> fits B st \<and> Q a st | Failed e n \<Rightarrow> ample env B \<longrightarrow> e \<noteq> Document_Too_Large | Undefined \<Rightarrow> False | Out_Of_Fuel \<Rightarrow> True)"

lemma safe_simps [simp]:
  "safe env B (Done a st) Q \<longleftrightarrow> fits B st \<and> Q a st" "safe env B (Failed e n) Q \<longleftrightarrow> (ample env B \<longrightarrow> e \<noteq> Document_Too_Large)" "safe env B Out_Of_Fuel Q" "\<not> safe env B Undefined Q"
  "safe env B (fail e st) Q \<longleftrightarrow> (ample env B \<longrightarrow> e \<noteq> Document_Too_Large)"
  by (simp_all add: safe_def fail_def)

lemma safe_bind:
  assumes "safe env B r P" "\<And>a st. fits B st \<Longrightarrow> P a st \<Longrightarrow> safe env B (f a st) Q"
  shows "safe env B (and_then r f) Q"
  using assms by (cases r) auto

lemma safe_mono: "safe env B r P \<Longrightarrow> (\<And>a st. fits B st \<Longrightarrow> P a st \<Longrightarrow> Q a st) \<Longrightarrow> safe env B r Q"
  by (cases r) auto

lemma safe_if: "(c \<Longrightarrow> safe env B r Q) \<Longrightarrow> (\<not> c \<Longrightarrow> safe env B r' Q) \<Longrightarrow> safe env B (if c then r else r') Q"
  by simp

lemma fits_json [simp]: "fits B (st\<lparr>p_json := json\<rparr>) = fits B st" "fits B (st\<lparr>p_current := n\<rparr>) = fits B st"
  "fits B (st\<lparr>p_nesting := n\<rparr>) = fits B st"
  by (simp_all add: fits_def)

lemma pot_update [simp]: "pot (st\<lparr>p_data := m\<rparr>) = pot st" "pot (st\<lparr>p_nesting := n\<rparr>) = pot st"
  "pot (st\<lparr>p_json := json\<rparr>) = p_current st + 12 * length json"
  by (simp_all add: pot_def)

lemma length_mem_write_le: "length (mem_write xs i ys) \<le> max (length xs) (i + length ys)"
  by (simp add: mem_write_def)

lemma fits_write:
  assumes "fits B st" "i + length ys \<le> B"
  shows "fits B (st\<lparr>p_data := mem_write (p_data st) i ys\<rparr>)"
  using assms order.trans [OF length_mem_write_le [of "p_data st" i ys], of "3 * B"] by (auto simp: fits_def)

lemma fits_put:
  assumes "fits B st"
  shows "i + 2 \<le> B \<Longrightarrow> fits B (st\<lparr>p_data := put16 (p_data st) i h\<rparr>)"
    "i + 4 \<le> B \<Longrightarrow> fits B (st\<lparr>p_data := put32 (p_data st) i w\<rparr>)"
    "i + 8 \<le> B \<Longrightarrow> fits B (st\<lparr>p_data := put64 (p_data st) i d\<rparr>)"
  using fits_write [OF assms] by (simp_all add: put16_def put32_def put64_def)

lemma fits_base:
  assumes "fits B st" "b + 12 \<le> B"
  shows "fits B (st\<lparr>p_data := put_base (p_data st) b table bytes is_object n\<rparr>)"
proof -
  have "length (put32 m i w) \<le> 3 * B" if "length m \<le> 3 * B" "i + 4 \<le> b + 12" for m i w
    using order.trans [OF length_mem_write_le [of m i "le_bytes w"], of "3 * B"] that assms(2) by (simp add: put32_def)
  then show ?thesis using assms(1) by (simp add: fits_def put_base_def Let_def)
qed

lemma safe_reserve [safe]:
  assumes "fits B st" "p_current st + n \<le> B"
  shows "safe env B (reserve_space env n st)
    (\<lambda>pos st'. pos = p_current st \<and> p_current st' = p_current st + n \<and> p_json st' = p_json st)"
proof -
  have "2 * length (p_data st) + n \<le> 3 * B" if "p_current st + n \<ge> length (p_data st)" using that assms(2) by linarith
  moreover have "env_realloc env k" if "ample env B" "k \<le> 3 * B" for k
    using that assms(1) by (simp add: ample_def fits_def)
  ultimately show ?thesis using assms by (auto simp: reserve_space_def Let_def fits_def)
qed

section \<open>Strings\<close>

lemma scan_char_error: "scan_char json = Inl (e, rest) \<Longrightarrow> e \<noteq> Document_Too_Large"
  by (auto simp: scan_char_def split: if_splits sum.splits)

lemma safe_latin1_loop:
  "fits B st \<Longrightarrow> pot st \<le> B \<Longrightarrow> safe env B (latin1_loop env start st) (\<lambda>_ st'. pot st' \<le> pot st)"
proof (induction env start st rule: latin1_loop.induct)
  case (1 env start st)
  show ?case
  proof (cases "p_json st = [] \<or> hd (p_json st) = 0x22")
    case True
    then show ?thesis using "1.prems" by (subst latin1_loop.simps) simp
  next
    case False
    show ?thesis
    proof (cases "scan_char (p_json st)")
      case (Inl a)
      then show ?thesis using False scan_char_error by (subst latin1_loop.simps) (cases a, auto)
    next
      case (Inr a)
      obtain ch json where a: "scan_char (p_json st) = Inr (ch, json)" using Inr by (cases a) simp
      have l: "length json < length (p_json st)" using scan_char_shorter [OF a] False by simp
      show ?thesis
      proof (cases "ch > 0xff \<or> int start - int (length json) \<ge> 0x8000")
        case True
        then show ?thesis using False "1.prems" a l by (subst latin1_loop.simps) (simp add: pot_def)
      next
        case wide: False
        define st1 where "st1 = st\<lparr>p_json := json\<rparr>"
        have r: "safe env B (reserve_space env 1 st1)
            (\<lambda>pos st'. pos = p_current st1 \<and> p_current st' = p_current st1 + 1 \<and> p_json st' = p_json st1)"
          by (rule safe_reserve) (use "1.prems" l in \<open>simp_all add: st1_def pot_def\<close>)
        have step: "latin1_loop env start st = and_then (reserve_space env 1 st1) (\<lambda>pos st.
            latin1_loop env start (st\<lparr>p_data := (p_data st)[pos := ucast ch]\<rparr>))"
          using False wide a by (subst latin1_loop.simps) (simp add: st1_def and_then_def)
        show ?thesis
        proof (cases "reserve_space env 1 st1")
          case (Done pos st2)
          let ?st = "st2\<lparr>p_data := (p_data st2)[pos := ucast ch]\<rparr>"
          have s: "fits B ?st" "pot ?st \<le> pot st" using r Done l by (simp_all add: fits_def pot_def st1_def)
          have "safe env B (latin1_loop env start ?st) (\<lambda>_ st'. pot st' \<le> pot ?st)"
            by (rule "1.IH" [OF False a refl wide Done [unfolded st1_def] s(1)]) (use s "1.prems" in simp)
          then show ?thesis using Done s(2) by (auto simp: step elim!: safe_mono)
        qed (use r step in simp_all)
      qed
    qed
  qed
qed

lemma safe_put_char:
  assumes "fits B st" "p_current st + 4 \<le> B"
  shows "safe env B (put_char env ch st) (\<lambda>_ st'. p_current st' \<le> p_current st + 4 \<and> p_json st' = p_json st)"
proof (cases "requires_surrogates ch")
  case True
  have "fits B (st1\<lparr>p_data := put16 (put16 (p_data st1) (p_current st) h) (Suc (Suc (p_current st))) l\<rparr>)" if "fits B st1" for st1 h l
    using fits_put(1) [OF fits_put(1) [OF that, of "p_current st" h], of "p_current st + 2" l] assms(2) by simp
  then show ?thesis
    unfolding put_char_def if_P [OF True]
    by (intro safe_bind [OF safe_reserve [OF assms]]) auto
next
  case False
  show ?thesis
    unfolding put_char_def if_not_P [OF False]
    by (intro safe_bind [OF safe_reserve [OF assms(1)]]) (use assms(2) in \<open>auto intro!: fits_put\<close>)
qed

lemma safe_utf16_loop:
  "fits B st \<Longrightarrow> pot st \<le> B \<Longrightarrow> safe env B (utf16_loop env st) (\<lambda>_ st'. pot st' \<le> pot st)"
proof (induction env st rule: utf16_loop.induct)
  case (1 env st)
  show ?case
  proof (cases "p_json st = [] \<or> hd (p_json st) = 0x22")
    case True
    then show ?thesis using "1.prems" by (subst utf16_loop.simps) simp
  next
    case False
    show ?thesis
    proof (cases "scan_char (p_json st)")
      case (Inl a)
      then show ?thesis using False scan_char_error by (cases a) (auto simp: utf16_loop_step)
    next
      case (Inr a)
      obtain ch json where a: "scan_char (p_json st) = Inr (ch, json)" using Inr by (cases a) simp
      have l: "length json < length (p_json st)" using scan_char_shorter [OF a] False by simp
      have p: "safe env B (put_char env ch (st\<lparr>p_json := json\<rparr>))
          (\<lambda>_ st'. p_current st' \<le> p_current st + 4 \<and> p_json st' = json)"
        using safe_put_char [of B "st\<lparr>p_json := json\<rparr>" env ch] "1.prems" l by (simp add: pot_def)
      show ?thesis
      proof (cases "put_char env ch (st\<lparr>p_json := json\<rparr>)")
        case (Done u st2)
        have s: "fits B st2" "pot st2 \<le> pot st" using p Done l by (simp_all add: pot_def)
        have "safe env B (utf16_loop env st2) (\<lambda>_ st'. pot st' \<le> pot st2)"
          by (rule "1.IH" [OF False a refl Done s(1)]) (use s "1.prems" in simp)
        then show ?thesis using Done s(2) False a by (auto simp: utf16_loop_step elim!: safe_mono)
      qed (use p False a in \<open>simp_all add: utf16_loop_step\<close>)
    qed
  qed
qed

lemma safe_end_of_string: "fits B st \<Longrightarrow> safe env B (end_of_string st) (\<lambda>_ st'. p_current st' = p_current st \<and> pot st' + 12 \<le> pot st)"
  by (auto simp: end_of_string_def pot_def split: list.splits)

lemma safe_pad_string:
  assumes "fits B st" "p_current st + 3 \<le> B"
  shows "safe env B (pad_string env st) (\<lambda>_ st'. pot st' \<le> pot st + 3)"
proof -
  have n: "nat ((4 - int (p_current st)) mod 4) \<le> 3" by linarith
  show ?thesis
    unfolding pad_string_def
  proof (rule safe_bind [OF safe_reserve [OF assms(1)]])
    show "p_current st + nat ((4 - int (p_current st)) mod 4) \<le> B" using n assms(2) by linarith
  next
    fix pos st1
    assume st1: "fits B st1"
      "pos = p_current st \<and> p_current st1 = p_current st + nat ((4 - int (p_current st)) mod 4) \<and> p_json st1 = p_json st"
    then have "fits B (st1\<lparr>p_data := mem_write (p_data st1) pos (replicate (nat ((4 - int pos) mod 4)) 0)\<rparr>)"
      using n assms(2) by (intro fits_write) auto
    then show "safe env B (Done () (st1\<lparr>p_data := mem_write (p_data st1) pos (replicate (nat ((4 - int pos) mod 4)) 0)\<rparr>))
        (\<lambda>_ st'. pot st' \<le> pot st + 3)"
      using st1(2) n by (simp add: pot_def)
  qed
qed

lemma safe_parse_string [safe]:
  assumes "fits B st" "pot st + 8 \<le> B"
  shows "safe env B (parse_string env st) (\<lambda>_ st'. pot st' \<le> pot st)"
  unfolding parse_string_def Let_def
proof (rule safe_bind [OF safe_reserve [OF assms(1)]])
  show "p_current st + 2 \<le> B" using assms(2) by (simp add: pot_def)
next
  fix pos st1
  assume f1: "fits B st1" and st1: "pos = p_current st \<and> p_current st1 = p_current st + 2 \<and> p_json st1 = p_json st"
  have p1: "pot st1 = pot st + 2" using st1 by (simp add: pot_def)
  have pos: "pos + 4 \<le> B" using st1 assms(2) by (simp add: pot_def)
  define utf16 where "utf16 = (\<lambda>st'. and_then (utf16_loop env (st'\<lparr>p_json := p_json st, p_current := p_current st + 4\<rparr>)) (\<lambda>_ st.
      and_then (end_of_string st) (\<lambda>_ st'.
      and_then (pad_string env (st'\<lparr>p_data := put32 (p_data st') pos (of_nat ((p_current st' - p_current st - 4) div 2))\<rparr>)) (\<lambda>_. Done False))))"
  have pad: "safe env B (and_then (pad_string env st') (\<lambda>_. Done b)) (\<lambda>_ st''. pot st'' \<le> pot st)"
    if "fits B st'" "pot st' + 3 \<le> pot st" for st' and b :: bool
  proof (rule safe_bind [OF safe_pad_string [OF that(1)]])
    show "p_current st' + 3 \<le> B" using that(2) assms(2) by (simp add: pot_def)
  qed (use that(2) in simp)
  show "safe env B (and_then (latin1_loop env (length (p_json st)) st1) (\<lambda>latin1 st'.
      and_then (end_of_string st') (\<lambda>_ st'.
      if latin1
      then and_then (pad_string env (st'\<lparr>p_data := put16 (p_data st') pos (of_nat (p_current st' - p_current st - 2))\<rparr>)) (\<lambda>_. Done True)
      else and_then (utf16_loop env (st'\<lparr>p_json := p_json st, p_current := p_current st + 4\<rparr>)) (\<lambda>_ st'.
           and_then (end_of_string st') (\<lambda>_ st'.
           and_then (pad_string env (st'\<lparr>p_data := put32 (p_data st') pos (of_nat ((p_current st' - p_current st - 4) div 2))\<rparr>)) (\<lambda>_. Done False))))))
    (\<lambda>_ st'. pot st' \<le> pot st)"
  proof (rule safe_bind [OF safe_latin1_loop [OF f1]], use p1 assms(2) in simp, rule safe_bind [OF safe_end_of_string], assumption,
      rule safe_if)
    fix latin1 st2 u st3
    assume st3: "fits B st3" "p_current st3 = p_current st2 \<and> pot st3 + 12 \<le> pot st2" and st2: "fits B st2" "pot st2 \<le> pot st1"
    show "safe env B (and_then (pad_string env (st3\<lparr>p_data := put16 (p_data st3) pos (of_nat (p_current st3 - p_current st - 2))\<rparr>)) (\<lambda>_. Done True))
        (\<lambda>_ st'. pot st' \<le> pot st)"
      by (rule pad) (use st3 st2 p1 pos in \<open>auto intro!: fits_put\<close>)
    show "safe env B (and_then (utf16_loop env (st3\<lparr>p_json := p_json st, p_current := p_current st + 4\<rparr>)) (\<lambda>_ st'.
           and_then (end_of_string st') (\<lambda>_ st'.
           and_then (pad_string env (st'\<lparr>p_data := put32 (p_data st') pos (of_nat ((p_current st' - p_current st - 4) div 2))\<rparr>)) (\<lambda>_. Done False))))
        (\<lambda>_ st'. pot st' \<le> pot st)"
    proof (rule safe_bind [OF safe_utf16_loop], use st3 in simp, use assms(2) in \<open>simp add: pot_def\<close>,
        rule safe_bind [OF safe_end_of_string], assumption)
      fix v w :: unit and st4 st5
      assume st5: "fits B st5" "p_current st5 = p_current st4 \<and> pot st5 + 12 \<le> pot st4"
        and st4: "fits B st4" "pot st4 \<le> pot (st3\<lparr>p_json := p_json st, p_current := p_current st + 4\<rparr>)"
      show "safe env B (and_then (pad_string env (st5\<lparr>p_data := put32 (p_data st5) pos (of_nat ((p_current st5 - p_current st - 4) div 2))\<rparr>)) (\<lambda>_. Done False))
          (\<lambda>_ st'. pot st' \<le> pot st)"
        by (rule pad) (use st5 st4 pos in \<open>auto simp: pot_def intro!: fits_put\<close>)
    qed
  qed
qed

section \<open>Scalars\<close>

lemma safe_parse_double:
  assumes "fits B st" "p_current st + 8 \<le> B"
  shows "safe env B (parse_double env base v number st) (\<lambda>_ st'. pot st' \<le> pot st + 8)"
proof (cases "env_to_double env number")
  case (Some d)
  have f: "fits B (st'\<lparr>p_data := put64 (p_data st') (p_current st) d\<rparr>)" if "fits B st'" for st'
    using fits_put(3) [OF that] assms(2) by simp
  show ?thesis
    unfolding parse_double_def Some option.case Let_def
    by (rule safe_bind [OF safe_reserve [OF assms]]) (use assms(2) in \<open>auto simp: f pot_def ample_def\<close>)
qed (simp add: parse_double_def)

lemma safe_parse_number:
  assumes "fits B st" "pot st + 8 \<le> B"
  shows "safe env B (parse_number env base v st) (\<lambda>_ st'. pot st' \<le> pot st + 8)"
proof -
  obtain is_int json where n: "skip_number (p_json st) = (is_int, json)" by fastforce
  have l: "length json \<le> length (p_json st)" by (rule length_skip_number [OF n])
  have d: "safe env B (parse_double env base w number (st\<lparr>p_json := json\<rparr>)) (\<lambda>_ st'. pot st' \<le> pot st + 8)" for w number
    by (rule safe_mono [OF safe_parse_double]) (use assms l in \<open>auto simp: pot_def\<close>)
  show ?thesis
    using d l assms(1) by (auto simp: parse_number_def n Let_def pot_def split: option.split)
qed

lemma safe_parse_literal: "fits B st \<Longrightarrow> safe env B (parse_literal cs v st) (\<lambda>_ st'. pot st' \<le> pot st)"
  using literal_length [of cs "p_json st"] by (auto simp: parse_literal_def Let_def pot_def split: prod.split)

section \<open>Tables and loops\<close>

lemma safe_value_offset: "fits B st \<Longrightarrow> p_current st \<le> B \<Longrightarrow> safe env B (value_offset base st) (\<lambda>_ st'. st' = st)"
  by (simp add: value_offset_def ample_def)

lemma safe_enter: "fits B st \<Longrightarrow> safe env B (enter st) (\<lambda>_ st'. st' = st\<lparr>p_nesting := p_nesting st + 1\<rparr>)"
  by (simp add: enter_def Let_def)

lemma safe_write_table:
  assumes "fits B st" "p_current st + 4 * length ws \<le> B" "offset + 12 \<le> B"
  shows "safe env B (write_table env offset is_object ws st) (\<lambda>_ st'. pot st' = pot st + 4 * length ws)"
proof -
  have t: "safe env B (if ws \<noteq> []
      then if 4 * length ws > int_max then Undefined else and_then (reserve_space env (4 * length ws) st) (\<lambda>table st.
             Done table (st\<lparr>p_data := mem_write (p_data st) table (concat (map le_bytes ws))\<rparr>))
      else Done offset st) (\<lambda>_ st'. pot st' = pot st + 4 * length ws)"
  proof (intro safe_if)
    assume "4 * length ws > int_max"
    then have False using assms(1,2) by (simp add: fits_def)
    then show "safe env B Undefined (\<lambda>_ st'. pot st' = pot st + 4 * length ws)" ..
  next
    show "safe env B (and_then (reserve_space env (4 * length ws) st) (\<lambda>table st.
             Done table (st\<lparr>p_data := mem_write (p_data st) table (concat (map le_bytes ws))\<rparr>))) (\<lambda>_ st'. pot st' = pot st + 4 * length ws)"
      by (rule safe_bind [OF safe_reserve [OF assms(1,2)]]) (use assms(2) in \<open>auto simp: pot_def intro!: fits_write\<close>)
  qed (use assms(1) in simp)
  have b: "fits B (st'\<lparr>p_data := put_base (p_data st') offset x y is_object n, p_nesting := k\<rparr>)" if "fits B st'" for st' x y n k
    using fits_base [OF that assms(3)] by (simp add: fits_def)
  show ?thesis
    unfolding write_table_def
    by (rule safe_bind [OF t]) (use b in \<open>simp add: pot_def\<close>)
qed

text \<open>A parser of values that stays below the bound.\<close>

definition value_safe :: "parser_env \<Rightarrow> nat \<Rightarrow> value_parser \<Rightarrow> bool" where
  "value_safe env B pv \<longleftrightarrow> (\<forall>base st. fits B st \<longrightarrow> p_json st \<noteq> [] \<longrightarrow> pot st + 8 \<le> B \<longrightarrow>
     safe env B (pv base st) (\<lambda>_ st'. pot st' \<le> pot st + 8))"

lemma safe_array_separator: "fits B st \<Longrightarrow> safe env B (array_separator st) (\<lambda>_ st'. pot st' + 12 \<le> pot st)"
  using next_token_shorter [of "p_json st"] by (fastforce simp: array_separator_def Let_def pot_def split: prod.split)

lemma safe_append_value:
  assumes "fits B st" "4 * length (va_values va) \<le> B"
  shows "safe env B (append_value env v va st) (\<lambda>va' st'. va_values va' = va_values va @ [v] \<and> st' = st)"
proof -
  have "env_realloc env k" if "ample env B" "k \<le> 3 * B" for k
    using that assms(1) by (simp add: ample_def fits_def)
  then show ?thesis
    using assms by (auto simp: append_value_def Let_def fits_def)
qed

lemma pot_eat_space: "pot (st\<lparr>p_json := eat_space (p_json st)\<rparr>) \<le> pot st"
  by (simp add: pot_def)

lemma safe_parse_elements:
  assumes "value_safe env B pv" "P + 8 \<le> B"
  shows "fits B st \<Longrightarrow> pot st + 4 * length (va_values va) \<le> P \<Longrightarrow>
    safe env B (parse_elements env pv fuel b va st) (\<lambda>vs st'. pot st' + 4 * length vs \<le> P)"
proof (induction fuel arbitrary: st va)
  case (Suc fuel)
  let ?st = "st\<lparr>p_json := eat_space (p_json st)\<rparr>"
  show ?case
  proof (cases "eat_space (p_json st) = []")
    case False
    have v: "safe env B (pv b ?st) (\<lambda>_ st'. pot st' \<le> pot ?st + 8)"
      by (rule assms(1) [unfolded value_safe_def, rule_format])
        (use assms(2) Suc.prems False pot_eat_space [of st] in simp_all)
    have "safe env B (and_then (pv b ?st) (\<lambda>val st. and_then (append_value env val va st) (\<lambda>va st.
          and_then (array_separator st) (\<lambda>more st.
          if more then parse_elements env pv fuel b va st else Done (va_values va) st))))
        (\<lambda>vs st'. pot st' + 4 * length vs \<le> P)"
    proof (rule safe_bind [OF v], rule safe_bind [OF safe_append_value], assumption)
      show "4 * length (va_values va) \<le> B" using Suc.prems(2) assms(2) by simp
    next
      fix val st1 and va' :: value_array and st1'
      assume s1: "pot st1 \<le> pot ?st + 8" and va': "va_values va' = va_values va @ [val] \<and> st1' = st1" and f: "fits B st1'"
      show "safe env B (and_then (array_separator st1') (\<lambda>more st.
          if more then parse_elements env pv fuel b va' st else Done (va_values va') st))
        (\<lambda>vs st'. pot st' + 4 * length vs \<le> P)"
      proof (rule safe_bind [OF safe_array_separator [OF f]])
        fix again st2
        assume s2: "fits B st2" "pot st2 + 12 \<le> pot st1'"
        then have "pot st2 + 4 * length (va_values va') \<le> P"
          using s1 va' Suc.prems(2) pot_eat_space [of st] by simp
        then show "safe env B (if again then parse_elements env pv fuel b va' st2 else Done (va_values va') st2)
            (\<lambda>vs st'. pot st' + 4 * length vs \<le> P)"
          using Suc.IH s2(1) by simp
      qed
    qed
    then show ?thesis using False by (simp add: Let_def)
  qed (simp add: Let_def)
qed simp

text \<open>The header of an array or an object, then the rest of it.\<close>

lemma safe_open:
  assumes "fits B st" "pot st + 20 \<le> B"
    and f: "\<And>st1. fits B st1 \<Longrightarrow> p_json st1 = p_json st \<Longrightarrow> pot st1 = pot st + 12 \<Longrightarrow> safe env B (f (p_current st) st1) Q"
  shows "safe env B (and_then (enter st) (\<lambda>_ st. and_then (reserve_space env 12 st) f)) Q"
proof (rule safe_bind [OF safe_enter [OF assms(1)]], rule safe_bind [OF safe_reserve], assumption)
  fix u :: unit and st0 assume "st0 = st\<lparr>p_nesting := p_nesting st + 1\<rparr>"
  then show "p_current st0 + 12 \<le> B" using assms(2) by (simp add: pot_def)
next
  fix u :: unit and st0 pos st1
  assume "st0 = st\<lparr>p_nesting := p_nesting st + 1\<rparr>" "fits B st1"
    "pos = p_current st0 \<and> p_current st1 = p_current st0 + 12 \<and> p_json st1 = p_json st0"
  then show "safe env B (f pos st1) Q" using f [of st1] by (simp add: pot_def)
qed

lemma safe_parse_array:
  assumes pv: "value_safe env B pv" and st: "fits B st" "pot st + 20 \<le> B"
  shows "safe env B (parse_array env pv st) (\<lambda>_ st'. pot st' \<le> pot st + 12)"
  unfolding parse_array_def
proof (rule safe_open [OF st])
  fix st1
  assume st1: "fits B st1" "p_json st1 = p_json st" "pot st1 = pot st + 12"
  let ?st = "st1\<lparr>p_json := eat_space (p_json st1)\<rparr>"
  have e: "safe env B (if hd (p_json ?st) = 0x5d then Done [] (?st\<lparr>p_json := snd (next_token (p_json ?st))\<rparr>)
      else parse_elements env pv (Suc (length (p_json ?st))) (p_current st) new_values ?st)
      (\<lambda>vs st'. pot st' + 4 * length vs \<le> pot st + 12)"
  proof (intro safe_if)
    have "length (snd (next_token (p_json ?st))) \<le> length (p_json ?st)"
      using next_token_length [of "p_json ?st"] by (cases "next_token (p_json ?st)") auto
    moreover have "length (p_json ?st) \<le> length (p_json st1)" by simp
    ultimately have "length (snd (next_token (p_json ?st))) \<le> length (p_json st1)" by (rule order.trans)
    then show "safe env B (Done [] (?st\<lparr>p_json := snd (next_token (p_json ?st))\<rparr>)) (\<lambda>vs st'. pot st' + 4 * length vs \<le> pot st + 12)"
      using st1 by (simp add: pot_def)
    show "safe env B (parse_elements env pv (Suc (length (p_json ?st))) (p_current st) new_values ?st)
        (\<lambda>vs st'. pot st' + 4 * length vs \<le> pot st + 12)"
      by (rule safe_parse_elements [OF pv]) (use st st1 pot_eat_space [of st1] in \<open>simp_all add: new_values_def\<close>)
  qed
  have w: "safe env B (write_table env (p_current st) False vs st') (\<lambda>_ st''. pot st'' \<le> pot st + 12)"
    if "fits B st'" "pot st' + 4 * length vs \<le> pot st + 12" for vs st'
    by (rule safe_mono [OF safe_write_table]) (use that st in \<open>auto simp: pot_def\<close>)
  show "safe env B (let st' = st1\<lparr>p_json := eat_space (p_json st1)\<rparr>
       in if p_json st' = [] then fail Unterminated_Array st'
          else and_then (if hd (p_json st') = 0x5d then Done [] (st'\<lparr>p_json := snd (next_token (p_json st'))\<rparr>)
                         else parse_elements env pv (Suc (length (p_json st'))) (p_current st) new_values st') (\<lambda>vs st'.
               write_table env (p_current st) False vs st')) (\<lambda>_ st'. pot st' \<le> pot st + 12)"
    unfolding Let_def by (rule safe_if, simp, rule safe_bind [OF e w])
qed

lemma safe_parse_key:
  assumes "fits B st" "pot st + 12 \<le> B"
  shows "safe env B (parse_key env st) (\<lambda>el st'. fst el = p_current st \<and> p_json st' \<noteq> [] \<and> pot st' + 8 \<le> pot st)"
  unfolding parse_key_def
proof (rule safe_bind [OF safe_reserve [OF assms(1)]])
  show "p_current st + 4 \<le> B" using assms(2) by (simp add: pot_def)
next
  fix pos st1
  assume st1: "fits B st1" "pos = p_current st \<and> p_current st1 = p_current st + 4 \<and> p_json st1 = p_json st"
  then have p1: "pot st1 = pot st + 4" by (simp add: pot_def)
  show "safe env B (and_then (parse_string env st1) (\<lambda>latin1 st.
     let (token, json) = next_token (p_json st); st = st\<lparr>p_json := json\<rparr>
     in if token \<noteq> 0x3a then fail Missing_Name_Separator st
        else let st = st\<lparr>p_json := eat_space json\<rparr>
             in if p_json st = [] then fail Unterminated_Object st else Done (pos, latin1) st))
     (\<lambda>el st'. fst el = p_current st \<and> p_json st' \<noteq> [] \<and> pot st' + 8 \<le> pot st)"
  proof (rule safe_bind [OF safe_parse_string [OF st1(1)]])
    show "pot st1 + 8 \<le> B" using p1 assms(2) by simp
  next
    fix latin1 st2
    assume st2: "fits B st2" "pot st2 \<le> pot st1"
    obtain token json where t: "next_token (p_json st2) = (token, json)" by fastforce
    have "length (eat_space json) < length (p_json st2)" if "token = 0x3a"
      using order.strict_trans1 [OF length_eat_space next_token_shorter [OF t]] that by simp
    then show "safe env B (let (token, json) = next_token (p_json st2); st = st2\<lparr>p_json := json\<rparr>
       in if token \<noteq> 0x3a then fail Missing_Name_Separator st
          else let st = st\<lparr>p_json := eat_space json\<rparr>
               in if p_json st = [] then fail Unterminated_Object st else Done (pos, latin1) st)
       (\<lambda>el st'. fst el = p_current st \<and> p_json st' \<noteq> [] \<and> pot st' + 8 \<le> pot st)"
      using st2 p1 st1(2) by (cases "token = 0x3a") (simp_all add: t Let_def pot_def)
  qed
qed

lemma safe_parse_member:
  assumes pv: "value_safe env B pv" and st: "fits B st" "pot st + 12 \<le> B"
  shows "safe env B (parse_member env pv b st) (\<lambda>_ st'. pot st' \<le> pot st)"
  unfolding parse_member_def
proof (rule safe_bind [OF safe_parse_key [OF st]], clarify)
  fix e and latin1 :: bool and st1
  assume s1: "fits B st1" "fst (e, latin1) = p_current st" "p_json st1 \<noteq> []" "pot st1 + 8 \<le> pot st"
  have v: "safe env B (pv b st1) (\<lambda>_ st'. pot st' \<le> pot st1 + 8)"
    using pv s1 st(2) by (simp add: value_safe_def)
  show "safe env B (and_then (pv b st1) (\<lambda>val st. Done () (st\<lparr>p_data := put32 (p_data st) e (set_latin_key latin1 val)\<rparr>)))
      (\<lambda>_ st'. pot st' \<le> pot st)"
    by (rule safe_bind [OF v]) (use s1 st(2) in \<open>auto simp: pot_def intro!: fits_put\<close>)
qed

lemma length_object_insert: "length (object_insert m b off offsets) \<le> Suc (length offsets)"
  by (simp add: object_insert_def Let_def)

lemma safe_parse_members:
  assumes pv: "value_safe env B pv" and P: "P + 8 \<le> B"
  shows "fits B st \<Longrightarrow> pot st + 4 * length offsets + (if token = 0x22 then 12 else 0) \<le> P \<Longrightarrow>
    safe env B (parse_members env pv fuel b offsets token st) (\<lambda>offsets st'. pot st' + 4 * length offsets \<le> P)"
proof (induction fuel arbitrary: st offsets token)
  case (Suc fuel)
  show ?case
  proof (cases "token = 0x22")
    case True
    have room: "pot st + 12 \<le> B" using Suc.prems(2) True P by simp
    have "safe env B (and_then (parse_member env pv b st) (\<lambda>_ st'.
           let offsets = object_insert (p_data st') b (p_current st - b) offsets;
               (token, json) = next_token (p_json st'); st = st'\<lparr>p_json := json\<rparr>
           in if token \<noteq> 0x2c
              then if token \<noteq> 0x7d then fail Unterminated_Object st else Done offsets st
              else let (token, json) = next_token json; st = st\<lparr>p_json := json\<rparr>
                   in if token = 0x7d then fail Missing_Object st
                      else parse_members env pv fuel b offsets token st))
        (\<lambda>offsets st'. pot st' + 4 * length offsets \<le> P)"
    proof (rule safe_bind [OF safe_parse_member [OF pv Suc.prems(1) room]])
      fix u :: unit and st1
      assume s1: "fits B st1" "pot st1 \<le> pot st"
      obtain token1 json1 where t1: "next_token (p_json st1) = (token1, json1)" by fastforce
      obtain token2 json2 where t2: "next_token json1 = (token2, json2)" by fastforce
      define offsets' where "offsets' = object_insert (p_data st1) b (p_current st - b) offsets"
      have o: "length offsets' \<le> Suc (length offsets)" by (simp add: offsets'_def length_object_insert)
      have l1: "length json1 < length (p_json st1)" if "token1 \<noteq> 0" using next_token_shorter [OF t1 that] .
      have l2: "length json2 + (if token2 = 0x22 then 1 else 0) \<le> length json1"
        using next_token_shorter [OF t2] next_token_length [OF t2] by auto
      have "safe env B (parse_members env pv fuel b offsets' token2 (st1\<lparr>p_json := json2\<rparr>))
          (\<lambda>offsets st'. pot st' + 4 * length offsets \<le> P)" if "token1 = 0x2c"
        by (rule Suc.IH) (use s1 o l1 l2 that Suc.prems(2) True in \<open>auto simp: pot_def split: if_splits\<close>)
      moreover have "p_current st1 + 12 * length json1 + 4 * length offsets' \<le> P" if "token1 = 0x7d"
        using s1 o l1 that Suc.prems(2) True by (simp add: pot_def)
      ultimately show "safe env B
          (let offsets = object_insert (p_data st1) b (p_current st - b) offsets;
               (token, json) = next_token (p_json st1); st = st1\<lparr>p_json := json\<rparr>
           in if token \<noteq> 0x2c
              then if token \<noteq> 0x7d then fail Unterminated_Object st else Done offsets st
              else let (token, json) = next_token json; st = st\<lparr>p_json := json\<rparr>
                   in if token = 0x7d then fail Missing_Object st
                      else parse_members env pv fuel b offsets token st)
          (\<lambda>offsets st'. pot st' + 4 * length offsets \<le> P)"
        using s1(1) by (simp add: Let_def t1 t2 offsets'_def)
    qed
    then show ?thesis using True by simp
  qed (use Suc.prems in simp)
qed simp

lemma safe_parse_object:
  assumes pv: "value_safe env B pv" and st: "fits B st" "pot st + 20 \<le> B"
  shows "safe env B (parse_object env pv st) (\<lambda>_ st'. pot st' \<le> pot st + 12)"
  unfolding parse_object_def
proof (rule safe_open [OF st])
  fix st1
  assume st1: "fits B st1" "p_json st1 = p_json st" "pot st1 = pot st + 12"
  obtain token json where t: "next_token (p_json st1) = (token, json)" by fastforce
  have l: "length json + (if token = 0x22 then 1 else 0) \<le> length (p_json st1)"
    using next_token_shorter [OF t] next_token_length [OF t] by auto
  have m: "safe env B (parse_members env pv (Suc (length json)) (p_current st) [] token (st1\<lparr>p_json := json\<rparr>))
      (\<lambda>offsets st'. pot st' + 4 * length offsets \<le> pot st + 12)"
    by (rule safe_parse_members [OF pv]) (use st st1 l in \<open>auto simp: pot_def split: if_splits\<close>)
  have w: "safe env B (write_table env (p_current st) True (map of_nat offsets) st') (\<lambda>_ st''. pot st'' \<le> pot st + 12)"
    if "fits B st'" "pot st' + 4 * length offsets \<le> pot st + 12" for offsets st'
    by (rule safe_mono [OF safe_write_table]) (use that st in \<open>auto simp: pot_def\<close>)
  show "safe env B (let (token, json) = next_token (p_json st1)
     in and_then (parse_members env pv (Suc (length json)) (p_current st) [] token (st1\<lparr>p_json := json\<rparr>)) (\<lambda>offsets st'.
        write_table env (p_current st) True (map of_nat offsets) st')) (\<lambda>_ st'. pot st' \<le> pot st + 12)"
    unfolding t Let_def prod.case by (rule safe_bind [OF m w])
qed

lemma safe_container:
  assumes "fits B st" "pot st \<le> B" "\<And>st'. st' = st \<Longrightarrow> safe env B (p st') (\<lambda>_ st''. pot st'' \<le> pot st + 12)"
  shows "safe env B (parse_container p v base st) (\<lambda>_ st'. pot st' \<le> pot st + 12)"
  unfolding parse_container_def
  by (rule safe_bind [OF safe_value_offset [OF assms(1)]], use assms(2) in \<open>simp add: pot_def\<close>, rule safe_bind [OF assms(3)]) simp_all

lemma safe_parse_value: "value_safe env B (parse_value env fuel)"
proof (induction fuel)
  case (Suc fuel)
  show ?case
    unfolding value_safe_def
  proof (intro allI impI)
    fix base st
    assume st: "fits B st" "p_json st \<noteq> []" "pot st + 8 \<le> B"
    let ?st = "st\<lparr>p_json := tl (p_json st)\<rparr>"
    have p: "pot ?st + 12 = pot st" using st(2) by (cases "p_json st") (auto simp: pot_def)
    have f: "fits B ?st" using st(1) by simp
    have c: "safe env B (parse_container (parse_array env (parse_value env fuel)) v base ?st) (\<lambda>_ st'. pot st' \<le> pot st + 8)"
      "safe env B (parse_container (parse_object env (parse_value env fuel)) v base ?st) (\<lambda>_ st'. pot st' \<le> pot st + 8)" for v
      by (rule safe_mono [OF safe_container [OF f]];
          (use st(3) p in simp)?; use safe_parse_array [OF Suc f] safe_parse_object [OF Suc f] p st(3) in simp)+
    have s: "safe env B (and_then (value_offset base ?st) (\<lambda>off st. and_then (parse_string env st) (\<lambda>latin1 st. Done (g off latin1) st)))
        (\<lambda>_ st'. pot st' \<le> pot st + 8)" for g :: "nat \<Rightarrow> bool \<Rightarrow> u32"
      by (rule safe_bind [OF safe_value_offset [OF f]], use p st(3) in \<open>simp add: pot_def\<close>, rule safe_bind [OF safe_parse_string])
        (use p st(3) in auto)
    have l: "safe env B (parse_literal cs v ?st) (\<lambda>_ st'. pot st' \<le> pot st + 8)" for cs v
      by (rule safe_mono [OF safe_parse_literal [OF f]]) (use p in simp)
    show "safe env B (parse_value env (Suc fuel) base st) (\<lambda>_ st'. pot st' \<le> pot st + 8)"
      unfolding parse_value.simps Let_def
      by (intro safe_if c s l safe_parse_number st) simp_all
  qed
qed (simp add: value_safe_def)

section \<open>Documents\<close>

text \<open>No size overflows in a text shorter than \<open>2 ^ 25\<close> bytes.\<close>

lemma safe_json_run:
  assumes "length text < 2 ^ 25"
  shows "safe env (12 * length text + 100) (json_run env fuel (max (length text) 256) text) (\<lambda>_ _. True)"
proof -
  define B where "B = 12 * length text + 100"
  define data where "data = put32 (put32 (map (env_junk env) [0..<max (length text) 256]) 0 binary_format_tag) 4 1"
  obtain token json where t: "next_token (eat_bom text) = (token, json)" by fastforce
  define st where "st = \<lparr>p_json = json, p_data = data, p_current = 8, p_nesting = 0\<rparr>"
  have "length (eat_bom text) \<le> length text" by (simp add: eat_bom_def)
  then have l: "length json \<le> length text" using next_token_length [OF t] by linarith
  have d: "length data = max (length text) 256" by (simp add: data_def)
  have "fits B st" using assms d by (simp add: fits_def st_def B_def int_max_def)
  moreover have "pot st + 20 \<le> B" using l by (simp add: pot_def st_def B_def)
  ultimately have "safe env B (if token = 0x5b then parse_array env (parse_value env fuel) st
      else if token = 0x7b then parse_object env (parse_value env fuel) st
      else fail Illegal_Value st) (\<lambda>_ _. True)"
    by (intro safe_if safe_mono [OF safe_parse_array [OF safe_parse_value]]
        safe_mono [OF safe_parse_object [OF safe_parse_value]]) simp_all
  then show ?thesis
    unfolding json_run_def Let_def t prod.case data_def [symmetric] st_def [symmetric] B_def [symmetric]
    by (rule safe_bind) simp
qed

lemma json_run_defined:
  assumes "length text < 2 ^ 25"
  shows "json_run env fuel (max (length text) 256) text \<noteq> Undefined"
  using safe_json_run [OF assms, of env fuel] by auto

text \<open>When every request for memory is served, a text shorter than \<open>2 ^ 23\<close> bytes is not too large.\<close>

lemma json_parse_not_too_large:
  assumes "length text < 2 ^ 23" "\<forall>n\<le>int_max. env_realloc env n"
  shows "json_parse env fuel text \<noteq> Some (Inl (Document_Too_Large, offset))"
proof -
  have "ample env (12 * length text + 100)"
    using assms by (simp add: ample_def max_size_def)
  moreover have "length text < 2 ^ 25"
    using assms(1) by simp
  ultimately show ?thesis
    using safe_json_run [of "text" env fuel]
    by (cases "json_run env fuel (max (length text) 256) text") (auto simp: json_parse_def Let_def)
qed

text \<open>
  With that, the parser returns, given enough fuel and the first block: it reads what the reader reads, or gives up
  because the document is too large.
\<close>

lemma json_parse_total:
  assumes "nesting_limit \<le> fuel" "length text < 2 ^ 25" "env_realloc env (max (length text) 256)"
  shows "json_parse env fuel text \<noteq> None"
proof -
  have "length text < 2 ^ 31" using assms(2) by simp
  from json_parse_refines [OF this, of env fuel] show ?thesis
    using shrinks_json_read [OF assms(1), of "env_to_double env" "text"] json_run_defined [OF assms(2), of env fuel] assms(3)
    by (cases "json_parse env fuel text") auto
qed

end
