(* ===== verification/Json_Properties.thy ===== *)
theory Json_Properties
  imports Json_Lookup Json_Growth
begin

text \<open>
  The properties of the comparison of texts and of JSON documents: what the parser accepts, that it returns, and what is
  found in the document it has made.
\<close>

section \<open>An example\<close>

text \<open>The block is filled with null bytes, memory is available, no text is a double.\<close>

definition plain_env :: parser_env where
  "plain_env = \<lparr>env_junk = (\<lambda>_. 0), env_realloc = (\<lambda>n. n < 2 ^ 31), env_to_double = (\<lambda>_. None)\<rparr>"

text \<open>The objects \<open>{"a":true,"b":false}\<close> and \<open>{"b":true,"a":false}\<close>, and the array \<open>[true,"a"]\<close>.\<close>

definition ascending_text :: "byte list" where
  "ascending_text = [123, 34, 97, 34, 58, 116, 114, 117, 101, 44, 34, 98, 34, 58, 102, 97, 108, 115, 101, 125]"

definition descending_text :: "byte list" where
  "descending_text = [123, 34, 98, 34, 58, 116, 114, 117, 101, 44, 34, 97, 34, 58, 102, 97, 108, 115, 101, 125]"

definition array_text :: "byte list" where
  "array_text = [91, 116, 114, 117, 101, 44, 34, 97, 34, 93]"

text \<open>Only the first outcome of a sequence and the condition of a case distinction are evaluated.\<close>

lemma and_then_cong: "r = r' \<Longrightarrow> and_then r f = and_then r' f"
  by simp

lemma let_weak: "x = y \<Longrightarrow> Let x f = Let y f"
  by simp

lemma loop_fuel:
  "parse_members env pv (numeral k) = parse_members env pv (Suc (pred_numeral k))"
  "parse_elements env pv (numeral k) = parse_elements env pv (Suc (pred_numeral k))"
  "read_members rv (numeral k) = read_members rv (Suc (pred_numeral k))"
  "read_elements rv (numeral k) = read_elements rv (Suc (pred_numeral k))"
  by (simp_all only: numeral_eq_Suc)

lemmas read_evaluation =
  json_read_def next_token_def eat_bom_def eat_space_def json_space_def token_byte_def utf8_bom_def read_array_def
  read_enter_def nesting_limit_def read_object_def read_member_def read_key_def read_string_def scan_latin1.simps
  scan_char_def scan_utf8_char_def from_utf8_code_point_def read_quote_def read_separator_def read_literal_def
  insert_member_def loop_fuel lower_bound.simps key_less_def

lemma read_examples:
  "json_read to_double (Suc (Suc n)) ascending_text =
     Done (Json_Object [((True, [97]), Json_Bool True), ((True, [98]), Json_Bool False)]) []"
  "json_read to_double (Suc (Suc n)) descending_text =
     Done (Json_Object [((True, [98]), Json_Bool True), ((True, [97]), Json_Bool False)]) []"
  "json_read to_double (Suc (Suc n)) array_text = Done (Json_Array [Json_Bool True, Json_String [97]]) []"
  by (simp_all add: ascending_text_def descending_text_def array_text_def read_evaluation
      cong: and_then_cong let_weak del: and_then_def)

lemmas parse_evaluation =
  json_parse_def json_run_def int_max_def plain_env_def parse_array_def enter_def reserve_space_def new_values_def append_value_def write_table_def fail_def
  parse_object_def parse_member_def parse_key_def parse_string_def latin1_loop.simps end_of_string_def pad_string_def
  value_offset_def max_size_def array_separator_def parse_literal_def

lemma lower_bound_one: "lower_bound ge k 0 = k" "lower_bound ge 0 (Suc 0) = (if ge 0 then 0 else 1)"
  by (subst lower_bound.simps; simp add: lower_bound.simps [of _ _ 0])+

lemma object_insert_short:
  "object_insert m p off [] = [off]"
  "object_insert m p off [a] = (if entry_ge m (p + a) (p + off) \<and> entry_equal m (p + a) (p + off) then [off] else [a, off])"
  by (simp_all add: object_insert_def lower_bound_one Let_def)

lemma parse_examples:
  "\<exists>m n. json_parse plain_env (Suc (Suc fuel)) ascending_text = Some (Inr (m, n))"
  "\<exists>m n. json_parse plain_env (Suc (Suc fuel)) descending_text = Some (Inr (m, n))"
  "\<exists>m n. json_parse plain_env (Suc (Suc fuel)) array_text = Some (Inr (m, n))"
  by (simp_all add: ascending_text_def descending_text_def array_text_def parse_evaluation read_evaluation object_insert_short
      cong: and_then_cong let_weak del: and_then_def upt.simps upt_rec_numeral)

lemma env_realloc_plain [simp]: "env_realloc plain_env n \<longleftrightarrow> n < 2 ^ 31"
  by (simp add: plain_env_def)

lemma env_to_double_plain [simp]: "env_to_double plain_env = (\<lambda>_. None)"
  by (simp add: plain_env_def)

lemma nesting_limit_Suc: "nesting_limit = Suc (Suc 1022)"
  by (simp add: nesting_limit_def)

lemmas example_trees = read_examples [of _ 1022, folded nesting_limit_Suc]
lemmas example_blocks = parse_examples [of 1022, folded nesting_limit_Suc]

lemma length_examples [simp]:
  "length ascending_text = 20" "length descending_text = 20" "length array_text = 10"
  by (simp_all add: ascending_text_def descending_text_def array_text_def)

section \<open>The parser\<close>

text \<open>The document that a successful parse leaves in memory is the one the reader reads.\<close>

lemma parsed_document:
  assumes "length text < 2 ^ 31" "json_parse env fuel text = Some (Inr (m, n))"
    "json_read (env_to_double env) fuel text = Done t rest"
  shows "document_in m n t" "n < length m" "length m < 2 ^ 31"
  using json_parse_refines [OF assms(1), of env fuel] assms(2,3) by auto

lemma parsed_object:
  assumes "length text < 2 ^ 31" "json_parse env fuel text = Some (Inr (m, n))"
    "json_read (env_to_double env) fuel text = Done (Json_Object ms) rest"
  shows "base_length m 8 = length ms" "entries_in m (8 + base_table_offset m 8) 8 0 ms" "8 \<le> (8 :: nat)"
    "ms \<noteq> [] \<Longrightarrow> 8 + base_table_offset m 8 \<le> length m \<and> 8 + base_table_offset m 8 + 2 < 2 ^ 31"
  using parsed_document [OF assms] by (cases ms; simp add: document_in_def base_in_def)+

lemma parsed_array:
  assumes "length text < 2 ^ 31" "json_parse env fuel text = Some (Inr (m, n))"
    "json_read (env_to_double env) fuel text = Done (Json_Array ts) rest"
  shows "base_length m 8 = length ts" "values_in m (8 + base_table_offset m 8) 8 0 ts" "8 \<le> (8 :: nat)"
    "ts \<noteq> [] \<Longrightarrow> 8 + base_table_offset m 8 \<le> length m \<and> 8 + base_table_offset m 8 + 2 < 2 ^ 31"
  using parsed_document [OF assms] by (cases ts; simp add: document_in_def base_in_def)+

text \<open>C1: The parser of \<open>JsonParser.cpp\<close> and the reader of trees agree on every text shorter than two gigabytes, whatever the
  uninitialised memory holds and whichever requests for memory fail.  When the parser succeeds, the block holds, in the
  binary format and inside its bounds, exactly the tree that the reader reads, and the whole text has been read.  When it
  fails for another reason than the size of the document, the reader fails with the same error at the same offset.  It
  reports a document that is too large only for a text of eight megabytes (\<open>2 ^ 23\<close> bytes) or more, or when a request for
  memory fails.  A run without a result, which is undefined behaviour (a size that leaves the range of \<open>int\<close>, or a first
  \<open>malloc\<close> that fails, whose result is not checked) or a recursion cut off for lack of fuel, is possible only for a text of
  \<open>2 ^ 25\<close> bytes or more, when the first request fails, or when the reader, too, runs out of fuel.\<close>

theorem json_parser_refines:
  assumes "length text < 2 ^ 31"
  shows "case json_parse env fuel text of
      None \<Rightarrow> json_read (env_to_double env) fuel text = Out_Of_Fuel \<or> 2 ^ 25 \<le> length text \<or> \<not> env_realloc env (max (length text) 256)
    | Some (Inl (e, offset)) \<Rightarrow>
        if e = Document_Too_Large then 2 ^ 23 \<le> length text \<or> (\<exists>n\<le>int_max. \<not> env_realloc env n)
        else json_read (env_to_double env) fuel text = Failed e (int (length text) - offset)
    | Some (Inr (m, n)) \<Rightarrow>
        \<exists>t. json_read (env_to_double env) fuel text = Done t [] \<and> document_in m n t \<and> n < length m \<and> length m < 2 ^ 31 \<and> 4 dvd n"
  using json_parse_refines [OF assms, of env fuel] json_run_defined [of "text" env fuel]
    json_parse_not_too_large [of "text" env fuel] linorder_not_less
  by (auto split: option.split sum.split)

theorem json_parser_refines_witness:
  "\<exists>m n. json_parse plain_env nesting_limit ascending_text = Some (Inr (m, n)) \<and>
     document_in m n (Json_Object [((True, [97]), Json_Bool True), ((True, [98]), Json_Bool False)])"
proof -
  obtain m n where "json_parse plain_env nesting_limit ascending_text = Some (Inr (m, n))"
    using example_blocks(1) by blast
  then show ?thesis
    using json_parser_refines [of ascending_text plain_env nesting_limit] by (simp add: example_trees)
qed

text \<open>C6: The parser returns, with a document or an error, on every text shorter than \<open>2 ^ 25\<close> bytes for which the first
  request for memory is served, whichever of the later requests fail: no size leaves the range of \<open>int\<close>, a recursion as deep as the
  limit of nested arrays and objects is enough for every text, and no loop runs longer than the text.\<close>

theorem json_parser_returns:
  assumes "nesting_limit \<le> fuel" and "length text < 2 ^ 25" and "env_realloc env (max (length text) 256)"
  shows "json_parse env fuel text \<noteq> None"
  by (rule json_parse_total [OF assms])

theorem json_parser_returns_witness: "json_parse plain_env nesting_limit descending_text \<noteq> None"
  using json_parser_returns [of nesting_limit descending_text plain_env] by simp

section \<open>Access to the document\<close>

text \<open>C5: In an object whose members have been written in strictly ascending order of their keys, both versions of
  \<open>JsonObject::getValue\<close> find what the text says: the value of the member with the key, of the same type and contents, and
  an undefined value when there is none; for the version that takes a UTF-16 key, as long as the key or the
  Latin-1 keys of the object have fewer than sixteen characters.\<close>

theorem json_object_lookup:
  assumes "length text < 2 ^ 31" and "json_parse env fuel text = Some (Inr (m, n))"
    and "json_read (env_to_double env) fuel text = Done (Json_Object ms) []"
    and "sorted_wrt units_less (map (\<lambda>kt. snd (fst kt)) ms)"
  shows "(case member_of ms key of
        None \<Rightarrow> object_get_latin1 m 8 key = Undefined_Value
      | Some t \<Rightarrow> value_shows m 20 (8 + base_table_offset m 8) (object_get_latin1 m 8 key) t) \<and>
     (length key < 16 \<or> (\<forall>kt\<in>set ms. fst (fst kt) \<longrightarrow> length (snd (fst kt)) < 16) \<longrightarrow>
      (case member_of ms key of
         None \<Rightarrow> object_get_string m 8 key = Undefined_Value
       | Some t \<Rightarrow> value_shows m 20 (8 + base_table_offset m 8) (object_get_string m 8 key) t))"
  using object_get_shows [OF parsed_object [OF assms(1-3)] assms(4), of key] by (auto split: option.splits)

theorem json_object_lookup_witness:
  "\<exists>m n. json_parse plain_env nesting_limit ascending_text = Some (Inr (m, n)) \<and>
     object_get_string m 8 [98] = Bool_Value False \<and> object_get_latin1 m 8 [97] = Bool_Value True \<and>
     object_get_string m 8 [99] = Undefined_Value"
proof -
  let ?ms = "[((True, [97]), Json_Bool True), ((True, [98]), Json_Bool False)]"
  obtain m n where parsed: "json_parse plain_env nesting_limit ascending_text = Some (Inr (m, n))"
    using example_blocks(1) by blast
  have "json_read (env_to_double plain_env) nesting_limit ascending_text = Done (Json_Object ?ms) []"
    by (simp add: example_trees)
  from json_object_lookup [OF _ parsed this, of "[98]"] json_object_lookup [OF _ parsed this, of "[97]"]
    json_object_lookup [OF _ parsed this, of "[99]"]
  show ?thesis
    using parsed by (simp add: member_of_def value_shows_def)
qed

text \<open>C3: The parser does not sort the members: \<open>ParsedObject::insert\<close> appends a new entry to the table instead of inserting it
  where the binary search has found its place.  An object of two members that the text has in descending order of
  their keys, both shorter than sixteen characters, loses both: looked up by a UTF-16 or a Latin-1 key, neither is found.\<close>

theorem json_descending_members_lost:
  assumes "length text < 2 ^ 31" and "json_parse env fuel text = Some (Inr (m, n))"
    and "json_read (env_to_double env) fuel text = Done (Json_Object [((latin1, key1), t1), ((latin2, key2), t2)]) []"
    and "units_less key2 key1" and "length key1 < 16" and "length key2 < 16" and "key \<in> {key1, key2}"
  shows "object_get_string m 8 key = Undefined_Value \<and> object_get_latin1 m 8 key = Undefined_Value"
proof -
  let ?ms = "[((latin1, key1), t1), ((latin2, key2), t2)]"
  note len = parsed_object(1) [OF assms(1-3)] and ms = parsed_object(2) [OF assms(1-3)]
  have different: "key1 \<noteq> key2" "\<not> units_less key1 key2"
    using assms(4) units_less_irrefl units_less_asym by blast+
  have string: "entry_ge_string m (entry_at m 8 1) key \<Longrightarrow>
      \<not> entry_equals_string m (entry_at m 8 0) key \<and> entry_ge_string m (entry_at m 8 0) key"
    using string_comparisons [OF ms, of 0 key] string_comparisons [OF ms, of 1 key] assms(4-7) different by auto
  have latin1: "entry_ge_latin1 m (entry_at m 8 1) key \<Longrightarrow>
      \<not> entry_equals_latin1 m (entry_at m 8 0) key \<and> entry_ge_latin1 m (entry_at m 8 0) key"
    using latin1_comparisons [OF ms, of 0 key] latin1_comparisons [OF ms, of 1 key] assms(4-7) different by auto
  show ?thesis
    using index_of_descending [where ge = "\<lambda>e. entry_ge_string m e key" and eq = "\<lambda>e. entry_equals_string m e key" and m = m and b = 8]
      index_of_descending [where ge = "\<lambda>e. entry_ge_latin1 m e key" and eq = "\<lambda>e. entry_equals_latin1 m e key" and m = m and b = 8]
      string latin1 len
    by (auto simp: object_get_string_def object_get_latin1_def index_of_string_def index_of_latin1_def split: prod.splits)
qed

theorem json_descending_members_lost_witness:
  "\<exists>m n. json_parse plain_env nesting_limit descending_text = Some (Inr (m, n)) \<and>
     object_get_string m 8 [97] = Undefined_Value \<and> object_get_latin1 m 8 [98] = Undefined_Value"
proof -
  obtain m n where parsed: "json_parse plain_env nesting_limit descending_text = Some (Inr (m, n))"
    using example_blocks(2) by blast
  have "json_read (env_to_double plain_env) nesting_limit descending_text =
      Done (Json_Object [((True, [98]), Json_Bool True), ((True, [97]), Json_Bool False)]) []"
    by (simp add: example_trees)
  from json_descending_members_lost [OF _ parsed this, of "[97]"]
    json_descending_members_lost [OF _ parsed this, of "[98]"]
  show ?thesis
    using parsed by simp
qed

text \<open>C9: The elements of a parsed array: \<open>JsonArray::at\<close> gives a value of the type and the contents that the text has at this
  index, and an undefined value for an index out of range, a negative one included.\<close>

theorem json_array_access:
  assumes "length text < 2 ^ 31" and "json_parse env fuel text = Some (Inr (m, n))"
    and "json_read (env_to_double env) fuel text = Done (Json_Array ts) []"
  shows "if 0 \<le> i \<and> i < int (length ts)
     then value_shows m 20 (8 + base_table_offset m 8) (array_get m 8 i) (ts ! nat i)
     else array_get m 8 i = Undefined_Value"
  using array_get_shows [OF parsed_array [OF assms], of i] by auto

theorem json_array_access_witness:
  "\<exists>m n. json_parse plain_env nesting_limit array_text = Some (Inr (m, n)) \<and>
     array_get m 8 0 = Bool_Value True \<and> array_get m 8 1 = String_Value [97] \<and> array_get m 8 2 = Undefined_Value"
proof -
  obtain m n where parsed: "json_parse plain_env nesting_limit array_text = Some (Inr (m, n))"
    using example_blocks(3) by blast
  have "json_read (env_to_double plain_env) nesting_limit array_text = Done (Json_Array [Json_Bool True, Json_String [97]]) []"
    by (simp add: example_trees)
  from json_array_access [OF _ parsed this, of 0] json_array_access [OF _ parsed this, of 1]
    json_array_access [OF _ parsed this, of 2]
  show ?thesis
    using parsed by (simp add: value_shows_def)
qed

section \<open>The comparison of texts\<close>

text \<open>C11: The comparison of two UTF-16 texts in blocks of eight code units, with its unrolled tail, is the lexicographic order of the
  code units: the operators \<open>==\<close>, \<open><\<close> and \<open>>\<close> of \<open>String\<close> agree with it on every pair of texts.\<close>

theorem string_compare_lexicographic:
  "(string_equal unicode_strncmp lhs rhs \<longleftrightarrow> lhs = rhs) \<and> (string_less unicode_strncmp lhs rhs \<longleftrightarrow> units_less lhs rhs) \<and>
   (string_greater unicode_strncmp lhs rhs \<longleftrightarrow> units_less rhs lhs)"
  by (simp add: string_operators)

text \<open>C12: The comparison of a UTF-16 text with a Latin-1 text is wrong from sixteen characters on: both halves of the vector
  are unpacked from the upper eight characters of the Latin-1 text.  Two different texts whose first characters agree compare as
  equal as soon as the ninth character of the Latin-1 text is another one.\<close>

theorem string_compare_latin1_wrong:
  assumes "length lhs = length rhs" and "16 \<le> length lhs" and "lhs ! 0 = rhs ! 0" and "rhs ! 8 \<noteq> lhs ! 0"
  shows "string_equal unicode_strncmp_latin1 lhs rhs \<and> \<not> string_less unicode_strncmp_latin1 lhs rhs"
proof -
  have "find (\<lambda>i. lhs ! i \<noteq> rhs ! unpacked_lane i) [0..<16] = Some 0"
    using assms(4) by (auto simp: upt_conv_Cons unpacked_lane_def)
  then have "unicode_strncmp_latin1 lhs rhs = 0"
    using assms by (subst unicode_strncmp_latin1.simps) simp
  then show ?thesis
    using assms(1) by (simp add: string_equal_def string_less_def unicode_strcmp_def lencmp_def)
qed

theorem string_compare_latin1_wrong_witness:
  "string_equal unicode_strncmp_latin1 (replicate 8 97 @ replicate 8 98) (97 # replicate 15 99)"
  using string_compare_latin1_wrong [of "replicate 8 97 @ replicate 8 98" "97 # replicate 15 99"]
  by (simp add: nth_append)

end
