(* ===== verification/Json_Text_Properties.thy ===== *)
theory Json_Text_Properties
  imports Json_Nesting Json_Properties
begin

text \<open>
  The properties of JSON text: writing a document and parsing the text gives the document again, the limit of nesting is exact, and
  the writes of the escaping of a string stay in the block.
\<close>

section \<open>An example\<close>

definition plain_writer :: writer_env where
  "plain_writer = \<lparr>we_number = case_sum decimal_text (\<lambda>d. []), we_finite = (\<lambda>d. False)\<rparr>"




text \<open>Arrays of one array, nested.\<close>

primrec nested_arrays :: "nat \<Rightarrow> json" where
  "nested_arrays 0 = Json_Array []"
| "nested_arrays (Suc n) = Json_Array [nested_arrays n]"

lemma nested_arrays:
  "json_depth (nested_arrays n) = Suc n" "json_writable writer td (nested_arrays n)"
  "document_text writer True (nested_arrays n) = replicate (Suc n) 91 @ replicate (Suc n) 93"
proof -
  show "json_depth (nested_arrays n) = Suc n" "json_writable writer td (nested_arrays n)"
    by (induction n) simp_all
  have "json_text writer True 0 (nested_arrays n) = replicate (Suc n) 91 @ replicate (Suc n) 93"
    by (induction n) (simp_all add: deeper_def content_text.simps replicate_append_same [symmetric])
  then show "document_text writer True (nested_arrays n) = replicate (Suc n) 91 @ replicate (Suc n) 93"
    by (simp add: document_text_def)
qed

lemma nested_arrays_array: "(\<exists>ts. nested_arrays n = Json_Array ts) \<or> (\<exists>ms. nested_arrays n = Json_Object ms)"
  by (cases n) simp_all

lemma Suc_1023: "Suc 1023 = 1024"
  by simp

section \<open>Round trip\<close>

lemma document_text_parsed:
  assumes "nesting_limit \<le> fuel" "\<forall>k\<le>int_max. env_realloc env k" "length (document_text writer compact t) < 2 ^ 23"
    and "json_writable writer (env_to_double env) t" "json_depth t \<le> nesting_limit" "t = Json_Array ts \<or> t = Json_Object ms"
  shows "\<exists>m n. json_parse env fuel (document_text writer compact t) = Some (Inr (m, n)) \<and> document_in m n t"
    and "json_read (env_to_double env) fuel (document_text writer compact t) = Done t []"
proof -
  let ?s = "document_text writer compact t"
  show r: "json_read (env_to_double env) fuel ?s = Done t []"
    using json_read_text [OF assms(4) _ assms(5,6)] assms(1,5) by simp
  have "json_parse env fuel ?s \<noteq> None"
    using json_parse_total [OF assms(1), of ?s env] assms(2,3) by (simp add: int_max_def)
  moreover have "json_parse env fuel ?s \<noteq> Some (Inl (Document_Too_Large, offset))" for offset
    by (rule json_parse_not_too_large [OF assms(3,2)])
  ultimately show "\<exists>m n. json_parse env fuel ?s = Some (Inr (m, n)) \<and> document_in m n t"
    using json_parse_refines [of ?s env fuel] assms(3) r by (auto split: option.splits sum.splits)
qed



section \<open>Bounds\<close>

text \<open>C7: The limit of nesting is exactly 1024.  An accepted document is nested at most 1024 deep.  A text that opens more
  arrays than that, whatever follows, is refused with the error \<open>DeepNesting\<close>.  The text, compact or indented, of every array or
  object that is nested at most 1024 deep is accepted, however many arrays and objects stand side by side in it.  The last two
  are for texts shorter than eight megabytes, when every request for memory is served; the trees of the last one are those the
  round trip is stated for.\<close>

theorem json_nesting_limited:
  assumes "1024 \<le> fuel" and "\<forall>k\<le>int_max. env_realloc env k"
  shows "(\<forall>m n. length text < 2 ^ 31 \<and> json_parse env fuel text = Some (Inr (m, n)) \<longrightarrow>
        (\<exists>t. document_in m n t \<and> json_depth t \<le> 1024)) \<and>
     (\<forall>k rest. 1024 < k \<and> k + length rest < 2 ^ 23 \<longrightarrow>
        (\<exists>offset. json_parse env fuel (replicate k 0x5b @ rest) = Some (Inl (Deep_Nesting, offset)))) \<and>
     (\<forall>t writer compact. (\<exists>ts ms. t = Json_Array ts \<or> t = Json_Object ms) \<and> json_depth t \<le> 1024 \<and>
          json_writable writer (env_to_double env) t \<and> length (document_text writer compact t) < 2 ^ 23 \<longrightarrow>
        (\<exists>m n. json_parse env fuel (document_text writer compact t) = Some (Inr (m, n)) \<and> document_in m n t))"
proof (intro conjI allI impI)
  have fuel: "nesting_limit \<le> fuel"
    using assms(1) by (simp add: nesting_limit_def)
  show "\<exists>t. document_in m n t \<and> json_depth t \<le> 1024" if "length text < 2 ^ 31 \<and> json_parse env fuel text = Some (Inr (m, n))" for m n
    using json_parse_refines [of "text" env fuel] that json_read_depth [of "env_to_double env" fuel "text"]
    by (auto simp: gives_def nesting_limit_def)
  show "\<exists>offset. json_parse env fuel (replicate k 0x5b @ rest) = Some (Inl (Deep_Nesting, offset))"
    if k: "1024 < k \<and> k + length rest < 2 ^ 23" for k rest
  proof -
    let ?s = "replicate k 0x5b @ rest"
    obtain offset where "json_read (env_to_double env) fuel ?s = Failed Deep_Nesting offset"
      using json_read_too_deep [OF _ fuel, of k "env_to_double env" rest] k by (auto simp: nesting_limit_def)
    moreover have "json_parse env fuel ?s \<noteq> None"
      using json_parse_total [OF fuel, of ?s env] assms(2) k by (simp add: int_max_def)
    moreover have "json_parse env fuel ?s \<noteq> Some (Inl (Document_Too_Large, offset))" for offset
      using k by (intro json_parse_not_too_large assms(2)) simp
    ultimately show ?thesis
      using json_parse_refines [of ?s env fuel] k by (auto split: option.splits sum.splits)
  qed
  show "\<exists>m n. json_parse env fuel (document_text writer compact t) = Some (Inr (m, n)) \<and> document_in m n t"
    if "(\<exists>ts ms. t = Json_Array ts \<or> t = Json_Object ms) \<and> json_depth t \<le> 1024 \<and>
      json_writable writer (env_to_double env) t \<and> length (document_text writer compact t) < 2 ^ 23" for t writer compact
    using that document_text_parsed(1) [OF fuel assms(2), of writer compact t] by (auto simp: nesting_limit_def)
qed

theorem json_nesting_limited_witness:
  "(\<exists>m n. json_parse plain_env 1024 (replicate 1024 0x5b @ replicate 1024 0x5d) = Some (Inr (m, n))) \<and>
   (\<exists>offset. json_parse plain_env 1024 (replicate 1025 0x5b) = Some (Inl (Deep_Nesting, offset)))"
proof -
  note limit = json_nesting_limited [of 1024 plain_env "[]", THEN conjunct2, simplified int_max_def, simplified]
  have brackets: "document_text plain_writer True (nested_arrays 1023) = replicate 1024 0x5b @ replicate 1024 0x5d"
    unfolding nested_arrays(3) by (simp only: Suc_1023)
  have "\<exists>m n. json_parse plain_env 1024 (document_text plain_writer True (nested_arrays 1023)) = Some (Inr (m, n)) \<and>
      document_in m n (nested_arrays 1023)"
  proof (intro limit [THEN conjunct2, rule_format] conjI)
    show "length (document_text plain_writer True (nested_arrays 1023)) < 8388608"
      by (simp add: brackets)
  qed (simp_all only: nested_arrays nested_arrays_array Suc_1023 order_refl)
  then have "\<exists>m n. json_parse plain_env 1024 (replicate 1024 0x5b @ replicate 1024 0x5d) = Some (Inr (m, n))"
    unfolding brackets by blast
  moreover have "\<exists>offset. json_parse plain_env 1024 (replicate 1025 0x5b @ []) = Some (Inl (Deep_Nesting, offset))"
    by (rule limit [THEN conjunct1, rule_format]) simp
  ultimately show ?thesis
    by simp
qed

text \<open>C8: \<open>escaped_string\<close> writes only in the block it has allocated, for every text shorter than \<open>2 ^ 26\<close> units: an
  escaped character, of up to six bytes, is written after the array has been made twice as large when fewer than six bytes were
  left, and although twice the size is still too small for the first characters of a text of one or two, the block that \<open>resize\<close>
  allocates is not.  The escaped text is at most six times as long.\<close>

theorem escaped_string_room:
  assumes "length s < 2 ^ 26"
  shows "fst (escaped_string s) \<and> length (snd (escaped_string s)) \<le> 6 * length s"
  using escaped_string_fits [OF assms] length_escaped [of s] by (simp add: escaped_def)

theorem escaped_string_room_witness:
  "fst (escaped_string [1, 2]) \<and> length (snd (escaped_string [1, 2])) \<le> 12"
  using escaped_string_room [of "[1, 2]"] by simp

end
