(* ===== verification/Json_Validity.thy ===== *)
theory Json_Validity
  imports Json_Properties
begin

text \<open>
  The validation of a binary document that comes from outside, \<open>Data::valid\<close> and the functions \<open>isValid\<close> of
  \<open>utils/json/Json.cpp\<close> and \<open>JsonPrivate.h\<close>, and \<open>JsonDocument::fromRawData\<close> and \<open>fromBinaryData\<close>.

  Sizes are of the type \<open>int\<close> in the code.  The size of a UTF-16 string is computed in 64 bits and stored in an \<open>int\<close>.
\<close>

unbundle bit_operations_syntax

section \<open>The storage of a value\<close>

text \<open>\<open>LocalValue::getUsedStorage\<close>, as a word of 32 bits.\<close>

definition used_storage :: "byte list \<Rightarrow> nat \<Rightarrow> u32 \<Rightarrow> u32" where
  "used_storage m base v =
     (let d = base + unat (value_value v);
          s = (if value_type v = type_double then if value_latin_or_int v then 0 else 8
               else if value_type v = type_string
               then if value_latin_or_int v then 2 + ucast (get16 m d) else 4 + 2 * get32 m d
               else if value_type v = type_array \<or> value_type v = type_object then get32 m d
               else 0)
      in (s + 3) AND NOT 3)"

section \<open>Validation\<close>

text \<open>\<open>LocalEntry::isValid\<close> with that of its key.\<close>

definition entry_valid :: "byte list \<Rightarrow> nat \<Rightarrow> int \<Rightarrow> bool" where
  "entry_valid m e max_bytes =
     (if max_bytes < 4 then False
      else let max_bytes = max_bytes - 4
           in if entry_latin m e then 2 + uint (get16 m (e + 4)) \<le> max_bytes
              else max_bytes - 4 \<ge> 0 \<and> uint (get32 m (e + 4)) \<le> (max_bytes - 4) div 2)"

text \<open>\<open>LocalValue::isValid\<close>; \<open>rec\<close> is the validation of an array or an object.\<close>

definition value_valid :: "(bool \<Rightarrow> nat \<Rightarrow> int \<Rightarrow> bool) \<Rightarrow> byte list \<Rightarrow> nat \<Rightarrow> u32 \<Rightarrow> bool" where
  "value_valid rec m b v =
     (let t = value_type v;
          off = (if t = type_double \<and> \<not> value_latin_or_int v \<or> t = type_string \<or> t = type_array \<or> t = type_object
                 then unat (value_value v) else 0)
      in if off = 0 then True
         else if off + 4 > base_table_offset m b then False
         else let s = sint (used_storage m b v)
              in if s = 0 then True
                 else if s < 0 \<or> s > sint (get32 m (b + 8)) - int off then False
                 else if t = type_array then rec False (b + off) s
                 else if t = type_object then rec True (b + off) s
                 else True)"

lemma sint_le_uint: "sint (w :: u32) \<le> uint w"
  by (simp add: sint_uint signed_take_bit_int_less_eq_self_iff) (meson order_trans uint_ge_0 neg_le_0_iff_le zero_le_numeral)

lemma sint_small: "unat (w :: u32) < 2 ^ 31 \<Longrightarrow> sint w = int (unat w)"
  unfolding sint_uint by (subst signed_take_bit_int_eq_self) (auto simp: uint_nat simp del: of_nat_unat)

lemma value_valid_cong [fundef_cong]:
  "m = m' \<Longrightarrow> b = b' \<Longrightarrow> v = v' \<Longrightarrow>
   (\<And>o' p s. 0 < s \<Longrightarrow> s < int (base_table_offset m' b') \<Longrightarrow> rec o' p s = rec' o' p s) \<Longrightarrow>
   value_valid rec m b v = value_valid rec' m' b' v'"
proof -
  assume "m = m'" "b = b'" "v = v'" and
    same: "\<And>o' p s. 0 < s \<Longrightarrow> s < int (base_table_offset m' b') \<Longrightarrow> rec o' p s = rec' o' p s"
  have "rec o' (b' + off) s = rec' o' (b' + off) s"
    if "\<not> off = 0" "\<not> s = 0" "\<not> (s < 0 \<or> sint (get32 m' (b' + 8)) - int off < s)" for o' off s
    using that sint_le_uint [of "get32 m' (b' + 8)"]
    by (intro same) (simp_all add: base_table_offset_def)
  then show ?thesis
    unfolding value_valid_def Let_def \<open>m = m'\<close> \<open>b = b'\<close> \<open>v = v'\<close> by (intro if_cong refl; assumption?)
qed

text \<open>\<open>LocalObject::isValid\<close> and \<open>LocalArray::isValid\<close>.  The size is compared with the limit as an unsigned number.\<close>

function base_valid :: "byte list \<Rightarrow> bool \<Rightarrow> nat \<Rightarrow> int \<Rightarrow> bool" where
  "base_valid m is_object b max_bytes =
     (if int (base_size m b) > max_bytes mod 2 ^ 32 \<or> base_table_offset m b + 4 * base_length m b > base_size m b then False
      else list_all (\<lambda>i.
        if is_object
        then let entry_offset = get32 m (b + base_table_offset m b + 4 * i); e = entry_at m b i;
                 last_key = (if i = 0 then [] else entry_key m (entry_at m b (i - 1)))
             in \<not> unat entry_offset + 4 \<ge> base_table_offset m b \<and>
                entry_valid m e (sint (get32 m (b + 8) - entry_offset)) \<and>
                \<not> string_less unicode_strncmp (entry_key m e) last_key \<and>
                value_valid (base_valid m) m b (entry_value m e)
        else value_valid (base_valid m) m b (array_at m b i)) [0..<base_length m b])"
  by pat_completeness auto
termination
proof (relation "measure (\<lambda>(m, is_object, b, max_bytes). nat (max_bytes mod 2 ^ 32))")
  have *: "s mod 2 ^ 32 < max_bytes mod 2 ^ 32"
    if "0 < s" "s < int t" "int n \<le> max_bytes mod 2 ^ 32" "t \<le> n" for s t n max_bytes
  proof -
    have "s < max_bytes mod 2 ^ 32" "max_bytes mod 2 ^ 32 < 2 ^ 32"
      using that by simp_all
    then show ?thesis
      using that(1) by (simp only: mod_pos_pos_trivial [of s "2 ^ 32"])
  qed
  show "((m, o', p, s), m, is_object, b, max_bytes) \<in> measure (\<lambda>(m, is_object, b, max_bytes). nat (max_bytes mod 2 ^ 32))"
    if "\<not> (int (base_size m b) > max_bytes mod 2 ^ 32 \<or> base_table_offset m b + 4 * base_length m b > base_size m b)"
      "0 < s" "s < int (base_table_offset m b)" for m o' p s is_object b max_bytes
    using that * [of s "base_table_offset m b" "base_size m b" max_bytes] by simp
  then show "((m, o', p, s), m, is_object, b, max_bytes) \<in> measure (\<lambda>(m, is_object, b, max_bytes). nat (max_bytes mod 2 ^ 32))"
    if "\<not> (int (base_size m b) > max_bytes mod 2 ^ 32 \<or> base_table_offset m b + 4 * base_length m b > base_size m b)"
      "0 < s" "s < int (base_table_offset m b)" for m o' p s is_object b max_bytes
    using that .
qed simp

declare base_valid.simps [simp del]

text \<open>\<open>Data::valid\<close> of a block of \<open>alloc\<close> bytes.\<close>

definition data_valid :: "byte list \<Rightarrow> nat \<Rightarrow> bool" where
  "data_valid m alloc \<longleftrightarrow>
     get32 m 0 = binary_format_tag \<and> get32 m 4 = 1 \<and> base_valid m (base_is_object m 8) 8 (int alloc - 8)"

text \<open>
  \<open>JsonDocument::fromRawData\<close> of data at an address, and \<open>fromBinaryData\<close> of a byte array, with the result of \<open>malloc\<close>:
  \<open>None\<close> is a document without data.
\<close>

definition from_raw_data :: "nat \<Rightarrow> byte list \<Rightarrow> bool \<Rightarrow> byte list option" where
  "from_raw_data address data bypass =
     (if address mod 4 \<noteq> 0 then None
      else if \<not> bypass \<and> \<not> data_valid data (length data) then None else Some data)"

definition from_binary_data :: "bool \<Rightarrow> byte list \<Rightarrow> bool \<Rightarrow> byte list option" where
  "from_binary_data malloc_ok data bypass =
     (if length data < 20 then None
      else if get32 data 0 \<noteq> binary_format_tag \<or> get32 data 4 \<noteq> 1 \<or> 8 + base_size data 8 > length data then None
      else let size = 8 + base_size data 8
           in if \<not> malloc_ok then None
              else let raw = take size data
                   in if \<not> bypass \<and> \<not> data_valid raw size then None else Some raw)"

text \<open>\<open>JsonDocument::toBinaryData\<close> of a document with data.\<close>

definition to_binary_data :: "byte list \<Rightarrow> byte list" where
  "to_binary_data m = take (8 + base_size m 8) m"

section \<open>Documents of trees\<close>

text \<open>The keys of every object ascend, as the search needs it, though two may be equal.\<close>

fun keys_ascend :: "json \<Rightarrow> bool" where
  "keys_ascend (Json_Array ts) \<longleftrightarrow> (\<forall>t\<in>set ts. keys_ascend t)"
| "keys_ascend (Json_Object ms) \<longleftrightarrow>
     (\<forall>i. Suc i < length ms \<longrightarrow> \<not> units_less (snd (fst (ms ! Suc i))) (snd (fst (ms ! i)))) \<and>
     (\<forall>kt\<in>set ms. keys_ascend (snd kt))"
| "keys_ascend t \<longleftrightarrow> True"

lemma and_not_3: "unat (s AND NOT 3 :: u32) = unat s div 4 * 4"
proof -
  have "(3 :: u32) = mask 2"
    by (simp add: mask_eq_exp_minus_1)
  then have low: "bit (3 :: u32) n \<longleftrightarrow> n < 2" for n
    by (simp only: bit_mask_iff) auto
  have "s AND NOT 3 = push_bit 2 (drop_bit 2 s)"
  proof (rule bit_word_eqI)
    fix n assume n: "n < LENGTH(32)"
    show "bit (s AND NOT 3) n \<longleftrightarrow> bit (push_bit 2 (drop_bit 2 s)) n"
    proof (cases "n < 2")
      case False
      then have "2 + (n - 2) = n"
        by simp
      then show ?thesis
        using False n by (simp only: bit_and_iff bit_not_iff low bit_push_bit_iff bit_drop_bit_eq comp_apply) simp
    next
      case True
      then show ?thesis
        using n by (simp only: bit_and_iff bit_not_iff low bit_push_bit_iff) simp
    qed
  qed
  moreover have "unat s div 4 * 4 < 2 ^ 32"
    using unsigned_less [of s, where ?'a = nat] by (simp add: div_times_less_eq_dividend order.strict_trans1)
  ultimately show ?thesis
    by (simp add: unat_push unat_drop)
qed

lemma align_down: "unat s < 2 ^ 31 \<Longrightarrow> unat ((s + 3) AND NOT 3 :: u32) = (unat s + 3) div 4 * 4"
  using and_not_3 [of "s + 3"] by (simp add: unat_word_ariths)

section \<open>The validation of a tree\<close>

lemma values_in_iff:
  "values_in m hi b 0 ts \<longleftrightarrow> (\<forall>k<length ts. value_in m (b + 12) hi b (array_at m b k) (ts ! k))"
  by (simp add: values_in_nth)

lemma list_all_upt: "list_all P [0..<n] \<longleftrightarrow> (\<forall>i<n. P i)"
  by (auto simp: list_all_iff)

lemma used_storage_bound:
  assumes "used_storage m b v = (w + 3) AND NOT 3" "unat w \<le> n" "4 dvd n" "n < 2 ^ 31"
  shows "unat (used_storage m b v) \<le> n" "0 \<le> sint (used_storage m b v)" "sint (used_storage m b v) \<le> int n"
proof -
  have "unat (used_storage m b v) = (unat w + 3) div 4 * 4"
    using assms(1,2,4) align_down [of w] by simp
  also have "(unat w + 3) div 4 * 4 \<le> n"
    using assms(2,3) by presburger
  finally show le: "unat (used_storage m b v) \<le> n" .
  then have "sint (used_storage m b v) = int (unat (used_storage m b v))"
    using assms(4) by (intro sint_small) simp
  then show "0 \<le> sint (used_storage m b v)" "sint (used_storage m b v) \<le> int n"
    using le by (simp_all del: of_nat_unat)
qed

lemma string_valid:
  assumes key: "key_in m (b + 12) (b + base_table_offset m b) (b + unat (value_value v)) (value_latin_or_int v, us)"
    and v: "value_type v = type_string" and b: "4 dvd b" "4 dvd base_table_offset m b" "base_table_offset m b < 2 ^ 31"
  shows "value_valid rec m b v"
proof -
  define p where "p = unat (value_value v)"
  define n where "n = base_table_offset m b - p"
  define w where "w = (if value_latin_or_int v then 2 + ucast (get16 m (b + p)) else 4 + 2 * get32 m (b + p))"
  have len: "length us = (if value_latin_or_int v then unat (get16 m (b + p)) else unat (get32 m (b + p)))"
    using key length_string_at [of m "value_latin_or_int v" "b + p"] by (simp add: key_in_def p_def)
  have room: "12 \<le> p" "p + 4 \<le> base_table_offset m b" "4 dvd p"
    "if value_latin_or_int v then 2 + length us \<le> n else 4 + 2 * length us \<le> n"
    using key b(1) dvd_diff_nat [of 4 "b + p" b] by (auto simp: key_in_def p_def n_def split: if_splits)
  have "unat w \<le> n"
  proof (cases "value_latin_or_int v")
    case True
    have "unat (get16 m (b + p)) < 2 ^ 16"
      using unsigned_less [of "get16 m (b + p)", where ?'a = nat] by simp
    then show ?thesis
      using True room(4) len by (simp add: w_def unat_word_ariths unat_ucast)
  next
    case False
    then show ?thesis
      using room(4) len b(3) by (simp add: w_def unat_word_ariths n_def)
  qed
  moreover have "used_storage m b v = (w + 3) AND NOT 3"
    using v by (simp add: used_storage_def w_def p_def Let_def)
  moreover have "4 dvd n" "n < 2 ^ 31"
    using b(2,3) room(3) by (simp_all add: n_def)
  ultimately have s: "0 \<le> sint (used_storage m b v)" "sint (used_storage m b v) \<le> int n"
    using used_storage_bound by blast+
  have "sint (get32 m (b + 8)) = int (base_table_offset m b)"
    using b(3) by (simp only: base_table_offset_def sint_small)
  then show ?thesis
    using v room(1,2) s by (simp add: value_valid_def Let_def p_def n_def uint_nat of_nat_diff del: of_nat_unat)
qed

lemma double_valid:
  assumes "value_type v = type_double" "\<not> value_latin_or_int v" "unat (value_value v) + 8 \<le> base_table_offset m b"
    "base_table_offset m b < 2 ^ 31"
  shows "value_valid rec m b v"
proof -
  have "(8 + 3) AND NOT 3 = (8 :: u32)"
    by simp
  then have "used_storage m b v = 8"
    using assms(1,2) by (simp add: used_storage_def Let_def)
  moreover have "sint (get32 m (b + 8)) = int (base_table_offset m b)"
    using assms(4) by (simp only: base_table_offset_def sint_small)
  ultimately show ?thesis
    using assms by (simp add: value_valid_def Let_def uint_nat del: of_nat_unat)
qed

lemma structure_valid:
  assumes b': "base_in m (b + 12) (b + base_table_offset m b) (b + unat (value_value v)) is_object n"
    and v: "value_type v = (if is_object then type_object else type_array)"
    and b: "base_table_offset m b < 2 ^ 31"
  shows "value_valid rec m b v \<longleftrightarrow> rec is_object (b + unat (value_value v)) (int (base_size m (b + unat (value_value v))))"
proof -
  define p where "p = unat (value_value v)"
  have r: "12 \<le> p" "p + base_size m (b + p) \<le> base_table_offset m b" "12 \<le> base_size m (b + p)" "4 dvd base_size m (b + p)"
    using b' by (auto simp: base_in_def p_def)
  have size: "unat (get32 m (b + p)) < 2 ^ 31"
    using r(2) b by (simp add: base_size_def)
  have "used_storage m b v = (get32 m (b + p) + 3) AND NOT 3"
    using v by (simp add: used_storage_def Let_def p_def split: if_splits)
  then have used: "unat (used_storage m b v) = base_size m (b + p)"
    using align_down [OF size] r(4) by (simp add: base_size_def) presburger
  then have "sint (used_storage m b v) = int (base_size m (b + p))"
    using size by (simp add: sint_small base_size_def)
  moreover have "sint (get32 m (b + 8)) = int (base_table_offset m b)"
    using b by (simp only: base_table_offset_def sint_small)
  ultimately show ?thesis
    using v r by (simp add: value_valid_def Let_def p_def uint_nat del: of_nat_unat)
qed

lemma base_valid_base_in:
  assumes b: "base_in m lo hi b is_object n" and s: "int (base_size m b) \<le> s" "s < 2 ^ 31"
  shows "base_valid m is_object b s \<longleftrightarrow>
     (\<forall>i<n. if is_object
        then let entry_offset = get32 m (b + base_table_offset m b + 4 * i); e = entry_at m b i;
                 last_key = (if i = 0 then [] else entry_key m (entry_at m b (i - 1)))
             in \<not> unat entry_offset + 4 \<ge> base_table_offset m b \<and>
                entry_valid m e (sint (get32 m (b + 8) - entry_offset)) \<and>
                \<not> units_less (entry_key m e) last_key \<and>
                value_valid (base_valid m) m b (entry_value m e)
        else value_valid (base_valid m) m b (array_at m b i))"
proof -
  have "s mod 2 ^ 32 = s"
    using s by simp
  then show ?thesis
    using b s by (subst base_valid.simps) (simp add: base_in_def list_all_upt string_operators)
qed

lemma entry_in_valid:
  assumes e: "entry_in m (b + 12) (b + base_table_offset m b) b (b + unat k) key t"
    and b: "base_table_offset m b < 2 ^ 31"
  shows "\<not> unat k + 4 \<ge> base_table_offset m b" "entry_valid m (b + unat k) (sint (get32 m (b + 8) - k))"
    "entry_key m (b + unat k) = snd key"
proof -
  have key: "key_in m (b + 12) (b + base_table_offset m b) (b + unat k + 4) key" "entry_latin m (b + unat k) = fst key"
    using e by (simp_all add: entry_in_def)
  have len: "length (snd key) =
      (if fst key then unat (get16 m (b + unat k + 4)) else unat (get32 m (b + unat k + 4)))"
    using key(1) length_string_at [of m "fst key" "b + unat k + 4"] by (simp add: key_in_def)
  show low: "\<not> unat k + 4 \<ge> base_table_offset m b"
    using key(1) by (auto simp: key_in_def split: if_splits)
  then have "unat (get32 m (b + 8) - k) = base_table_offset m b - unat k"
    by (simp add: base_table_offset_def unat_sub_if_size)
  then have "sint (get32 m (b + 8) - k) = int (base_table_offset m b) - int (unat k)"
    using b low by (simp add: sint_small of_nat_diff del: of_nat_unat)
  then show "entry_valid m (b + unat k) (sint (get32 m (b + 8) - k))"
    using key len by (auto simp: entry_valid_def Let_def key_in_def uint_nat simp del: of_nat_unat split: if_splits)
  show "entry_key m (b + unat k) = snd key"
    using key by (simp add: key_in_def entry_key_def)
qed

lemma ascending_keys:
  "(\<forall>i<length ks. \<not> units_less (ks ! i) (if i = 0 then [] else ks ! (i - 1))) \<longleftrightarrow>
   (\<forall>i. Suc i < length ks \<longrightarrow> \<not> units_less (ks ! Suc i) (ks ! i))"
proof -
  have "\<not> units_less k []" for k
    by (cases k) simp_all
  then show ?thesis
    by (auto split: if_splits) (metis Suc_pred less_not_refl not_gr_zero)
qed

lemma object_valid:
  assumes b: "base_in m lo hi b True (length ms)" "base_table_offset m b < 2 ^ 31"
    and s: "int (base_size m b) \<le> s" "s < 2 ^ 31"
    and ms: "entries_in m (b + base_table_offset m b) b 0 ms"
    and valid: "\<And>i. i < length ms \<Longrightarrow>
      value_valid (base_valid m) m b (entry_value m (entry_at m b i)) \<longleftrightarrow> keys_ascend (snd (ms ! i))"
  shows "base_valid m True b s \<longleftrightarrow> keys_ascend (Json_Object ms)"
proof -
  define ks where "ks = map (snd \<circ> fst) ms"
  have e: "entry_in m (b + 12) (b + base_table_offset m b) b (entry_at m b i) (fst (ms ! i)) (snd (ms ! i))"
    if "i < length ms" for i
    using ms that by (simp add: entries_in_nth)
  have key: "entry_key m (entry_at m b i) = ks ! i" if "i < length ms" for i
    using entry_in_valid(3) [OF e [OF that, unfolded entry_at_def] b(2)] that by (simp add: entry_at_def ks_def)
  have "base_valid m True b s \<longleftrightarrow>
      (\<forall>i<length ms. \<not> units_less (ks ! i) (if i = 0 then [] else ks ! (i - 1)) \<and> keys_ascend (snd (ms ! i)))"
    unfolding base_valid_base_in [OF b(1) s] Let_def if_True
    using entry_in_valid(1,2) [OF e [unfolded entry_at_def] b(2)] key valid
    by (intro all_cong1 imp_cong refl) (simp add: entry_at_def)
  also have "\<dots> \<longleftrightarrow> keys_ascend (Json_Object ms)"
    using ascending_keys [of ks] by (auto simp: ks_def all_set_conv_all_nth)
  finally show ?thesis .
qed

lemma array_valid:
  assumes b: "base_in m lo hi b False (length ts)" and s: "int (base_size m b) \<le> s" "s < 2 ^ 31"
    and valid: "\<And>i. i < length ts \<Longrightarrow> value_valid (base_valid m) m b (array_at m b i) \<longleftrightarrow> keys_ascend (ts ! i)"
  shows "base_valid m False b s \<longleftrightarrow> keys_ascend (Json_Array ts)"
  unfolding base_valid_base_in [OF b s] using valid by (simp add: all_set_conv_all_nth)

lemma value_in_valid:
  "value_in m (b + 12) (b + base_table_offset m b) b v t \<Longrightarrow> 4 dvd b \<Longrightarrow> 4 dvd base_table_offset m b \<Longrightarrow>
   base_table_offset m b < 2 ^ 31 \<Longrightarrow> value_valid (base_valid m) m b v \<longleftrightarrow> keys_ascend t"
proof (induction t arbitrary: b v)
  case (Json_Array ts)
  define c where "c = b + unat (value_value v)"
  have c: "base_in m (b + 12) (b + base_table_offset m b) c False (length ts)" "value_type v = type_array"
    "values_in m (c + base_table_offset m c) c 0 ts"
    using Json_Array.prems(1) by (simp_all add: c_def Let_def)
  have small: "base_size m c < 2 ^ 31"
    using c(1) Json_Array.prems(4) by (auto simp: base_in_def)
  have "base_valid m False c (int (base_size m c)) \<longleftrightarrow> keys_ascend (Json_Array ts)"
  proof (rule array_valid [OF c(1)])
    fix i assume i: "i < length ts"
    show "value_valid (base_valid m) m c (array_at m c i) \<longleftrightarrow> keys_ascend (ts ! i)"
      using c small i by (intro Json_Array.IH) (auto simp: values_in_nth base_in_def)
  qed (use small in simp_all)
  then show ?case
    using structure_valid [OF c(1) [unfolded c_def]] c(2) Json_Array.prems(4) by (simp add: c_def)
next
  case (Json_Object ms)
  define c where "c = b + unat (value_value v)"
  have c: "base_in m (b + 12) (b + base_table_offset m b) c True (length ms)" "value_type v = type_object"
    "entries_in m (c + base_table_offset m c) c 0 ms"
    using Json_Object.prems(1) by (simp_all add: c_def Let_def)
  have small: "base_size m c < 2 ^ 31" "base_table_offset m c < 2 ^ 31"
    using c(1) Json_Object.prems(4) by (auto simp: base_in_def)
  have "base_valid m True c (int (base_size m c)) \<longleftrightarrow> keys_ascend (Json_Object ms)"
  proof (rule object_valid [OF c(1) small(2) _ _ c(3)])
    fix i assume i: "i < length ms"
    show "value_valid (base_valid m) m c (entry_value m (entry_at m c i)) \<longleftrightarrow> keys_ascend (snd (ms ! i))"
      using c small i
      by (intro Json_Object.IH [of "ms ! i"]) (auto simp: entries_in_nth entry_in_def base_in_def snds.simps)
  qed (use small in simp_all)
  then show ?case
    using structure_valid [OF c(1) [unfolded c_def]] c(2) Json_Object.prems(4) by (simp add: c_def)
next
  case (Json_String us)
  then show ?case
    using string_valid [of m b v us] by simp
next
  case (Json_Double d)
  then show ?case
    by (intro iffI; simp add: double_valid Let_def)
qed (simp_all add: value_valid_def)

lemma document_valid:
  assumes t: "document_in m n t" and n: "n < 2 ^ 31"
  shows "data_valid m n \<longleftrightarrow> keys_ascend t"
proof -
  have small: "base_size m 8 < 2 ^ 31" "base_table_offset m 8 < 2 ^ 31" "int (base_size m 8) \<le> int n - 8" "4 dvd base_table_offset m 8"
    if "base_in m 8 n 8 is_object k" for is_object k
    using that n by (auto simp: base_in_def)
  show ?thesis
  proof (cases t)
    case (Json_Array ts)
    then have b: "base_in m 8 n 8 False (length ts)" "values_in m (8 + base_table_offset m 8) 8 0 ts"
      using t by (simp_all add: document_in_def)
    have "value_valid (base_valid m) m 8 (array_at m 8 i) \<longleftrightarrow> keys_ascend (ts ! i)" if "i < length ts" for i
      using b small [OF b(1)] that by (intro value_in_valid) (auto simp: values_in_nth)
    then have "base_valid m False 8 (int n - 8) \<longleftrightarrow> keys_ascend t"
      using small [OF b(1)] n Json_Array by (simp only:, intro array_valid [OF b(1)]) simp_all
    then show ?thesis
      using t b(1) Json_Array by (simp add: data_valid_def document_in_def base_in_def)
  next
    case (Json_Object ms)
    then have b: "base_in m 8 n 8 True (length ms)" "entries_in m (8 + base_table_offset m 8) 8 0 ms"
      using t by (simp_all add: document_in_def)
    have "value_valid (base_valid m) m 8 (entry_value m (entry_at m 8 i)) \<longleftrightarrow> keys_ascend (snd (ms ! i))"
      if "i < length ms" for i
      using b small [OF b(1)] that by (intro value_in_valid) (auto simp: entries_in_nth entry_in_def)
    then have "base_valid m True 8 (int n - 8) \<longleftrightarrow> keys_ascend t"
      using small [OF b(1)] n Json_Object by (simp only:, intro object_valid [OF b(1) _ _ _ b(2)]) simp_all
    then show ?thesis
      using t b(1) Json_Object by (simp add: data_valid_def document_in_def base_in_def)
  qed (use t in \<open>simp_all add: document_in_def\<close>)
qed

section \<open>The bytes of a document\<close>

lemma same_on_take: "k \<le> n \<Longrightarrow> same_on m (take n m) lo k"
  by (simp add: same_on_def get8_def)

lemma document_bytes:
  assumes t: "document_in m n t"
  defines "k \<equiv> 8 + base_size m 8"
  shows "document_in (take k m) k t" "20 \<le> k" "k \<le> n" "base_size (take k m) 8 = base_size m 8"
proof -
  have b: "12 \<le> base_size m 8 \<and> k \<le> n \<and> n \<le> length m \<and> base_table_offset m 8 \<le> base_size m 8"
    using t by (auto simp: document_in_def base_in_def k_def split: json.splits)
  then show k: "20 \<le> k" "k \<le> n"
    by (simp_all add: k_def)
  have same: "same_on m (take k m) 0 k"
    by (simp add: same_on_take)
  then have header: "get32 (take k m) 0 = get32 m 0" "get32 (take k m) 4 = get32 m 4"
    using k(1) by (simp_all add: same_on_get(3) [OF same])
  show size: "base_size (take k m) 8 = base_size m 8"
    using k(1) by (simp add: base_same(1) [OF same])
  have inside: "base_in (take k m) 8 k 8 is_object len" if "base_in m 8 n 8 is_object len" for is_object len
  proof (rule base_in_same)
    show "base_in m 8 k 8 is_object len"
      using that by (simp add: base_in_def k_def)
  qed (rule same_on_take, simp)
  have "same_on m (take k m) (8 + 12) (8 + base_table_offset m 8)"
    using b same by (auto simp: k_def intro: same_on_mono)
  moreover have "base_table_offset (take k m) 8 = base_table_offset m 8"
    using k(1) by (simp add: base_same(4) [OF same])
  moreover have "array_at (take k m) 8 i = array_at m 8 i" "entry_at (take k m) 8 i = entry_at m 8 i"
    if "base_in m 8 n 8 is_object len" "i < len" for is_object len i
  proof -
    have "base_in m 0 k 8 is_object len"
      using that(1) by (simp add: base_in_def k_def)
    then show "array_at (take k m) 8 i = array_at m 8 i" "entry_at (take k m) 8 i = entry_at m 8 i"
      using table_same [OF same _ that(2)] by blast+
  qed
  ultimately have content:
    "base_in m 8 n 8 False (length ts) \<Longrightarrow> values_in m (8 + base_table_offset m 8) 8 0 ts \<Longrightarrow>
     values_in (take k m) (8 + base_table_offset (take k m) 8) 8 0 ts"
    "base_in m 8 n 8 True (length ms) \<Longrightarrow> entries_in m (8 + base_table_offset m 8) 8 0 ms \<Longrightarrow>
     entries_in (take k m) (8 + base_table_offset (take k m) 8) 8 0 ms" for ts ms
    using in_same(2) [of m "8 + base_table_offset m 8" 8 0 ts "take k m"]
      in_same(3) [of m "8 + base_table_offset m 8" 8 0 ms "take k m"] by simp_all
  show "document_in (take k m) k t"
    using t content inside header b by (cases t) (simp_all add: document_in_def)
qed

lemma from_binary_document:
  assumes t: "document_in m (length m) t" and m: "length m = 8 + base_size m 8" "20 \<le> length m" "length m < 2 ^ 31"
  shows "from_binary_data malloc_ok m bypass = (if malloc_ok \<and> (bypass \<or> keys_ascend t) then Some m else None)"
  using document_valid [OF t m(3)] t m(1,2) by (auto simp: from_binary_data_def document_in_def Let_def)

section \<open>Properties\<close>

text \<open>C4: \<open>toBinaryData\<close> of a parsed document keeps the document, and \<open>fromBinaryData\<close> gives these bytes back, when memory is available
  and either the validation is bypassed or in every object no key comes before the one written ahead of it: the
  validation accepts exactly these documents, as the parser leaves the members in the order of the text.\<close>

theorem json_binary_round_trip:
  assumes "length text < 2 ^ 31" and "json_parse env fuel text = Some (Inr (m, n))"
    and "json_read (env_to_double env) fuel text = Done t []"
  shows "document_in (to_binary_data m) (length (to_binary_data m)) t \<and>
     from_binary_data malloc_ok (to_binary_data m) bypass =
       (if malloc_ok \<and> (bypass \<or> keys_ascend t) then Some (to_binary_data m) else None)"
proof -
  have t: "document_in m n t" "n < length m" "length m < 2 ^ 31"
    using parsed_document [OF assms] by simp_all
  have k: "length (to_binary_data m) = 8 + base_size m 8"
    using document_bytes(3) [OF t(1)] t(2) by (simp add: to_binary_data_def)
  have "document_in (to_binary_data m) (length (to_binary_data m)) t"
    using document_bytes(1) [OF t(1)] unfolding k by (simp add: to_binary_data_def)
  then show ?thesis
    using document_bytes(2-4) [OF t(1)] k t(2,3) by (simp add: from_binary_document to_binary_data_def)
qed

theorem json_binary_round_trip_witness:
  "(\<exists>m n. json_parse plain_env nesting_limit ascending_text = Some (Inr (m, n)) \<and>
      from_binary_data True (to_binary_data m) False = Some (to_binary_data m)) \<and>
   (\<exists>m n. json_parse plain_env nesting_limit descending_text = Some (Inr (m, n)) \<and>
      from_binary_data True (to_binary_data m) False = None)"
proof -
  obtain m n m' n' where parsed: "json_parse plain_env nesting_limit ascending_text = Some (Inr (m, n))"
    "json_parse plain_env nesting_limit descending_text = Some (Inr (m', n'))"
    using example_blocks(1,2) by blast
  have "keys_ascend (Json_Object [((True, [97]), Json_Bool True), ((True, [98]), Json_Bool False)])"
    "\<not> keys_ascend (Json_Object [((True, [98]), Json_Bool True), ((True, [97]), Json_Bool False)])"
    by (auto simp: less_Suc_eq)
  then show ?thesis
    using json_binary_round_trip [OF _ parsed(1), of _ True False]
      json_binary_round_trip [OF _ parsed(2), of _ True False] parsed
    by (simp add: example_trees)
qed













end
