(* ===== verification/Spec2Isabelle.thy ===== *)
theory Spec2Isabelle
  imports Ring_Queue Byte_Codec Bit_Arrays Date_Time_Proofs Version_Proofs Utf_Streams Lock_Steps Recursive_Locks Timer_Proofs Replace_Proofs Json_Text_Properties Json_Validity
begin

text \<open>
  A verification development for libpdk, a C++ library of containers, text codecs, calendar, threads and an event loop in
  the style of QtCore.  File names are relative to \<open>src/\<close> of the repository; \<open>ds/\<close>, \<open>lang/\<close>, \<open>text/\<close>, \<open>time/\<close> and
  \<open>os/\<close> are directories of \<open>src/modules/base/\<close>.

  \<^bold>\<open>The parts and how they interact.\<close>  The containers (\<open>ByteArray\<close>, \<open>String\<close>, \<open>BitArray\<close>, \<open>RingBuffer\<close>) keep their
  bytes in blocks whose sizes come from the allocation helpers, and are shared until one of their owners writes.  \<open>BitArray\<close>
  is a layer over the bytes of a \<open>ByteArray\<close> and counts with the bit algorithms; \<open>RingBuffer\<close> is a queue of byte arrays.
  Numbers and versions are read from and written to these strings, and the codecs translate between the units of a
  \<open>String\<close> and external bytes, one call after another with a state in between.  The calendar classes build on each other:
  a \<open>DateTime\<close> is made of a \<open>Date\<close>, a \<open>Time\<close> and a time specification and asks the C library or a time zone backend for
  local time.  Threads synchronise with the read-write lock.  A JSON document is parsed from UTF-8 text into one block of bytes, in
  which objects and arrays are then read in place.

  \<^bold>\<open>Theories.\<close>  Each theory that models code names its definitions after the functions and fields it translates.

  \<^item> \<open>Pdk_Prelude\<close>: the types of machine words, lemmas on lists, words and division that the others share.
  \<^item> \<open>Alloc_Growth\<close>: \<open>src/utils/MemoryHelper.cpp\<close>, the overflow tests of \<open>include/pdk/global/Numeric.h\<close>, the powers of
    two of \<open>include/pdk/kernel/Math.h\<close>.  A growing block is bounded, and \<open>None\<close> is where the code gives up.
  \<^item> \<open>Byte_Arrays\<close>, \<open>Byte_Edit\<close>, \<open>Byte_Codec\<close>: \<open>ds/ByteArray.cpp\<close>; storage and sharing, edits and searches, Base64,
    hexadecimal, percent encoding.  The locale \<open>round_trip\<close> states the contract of an encoding and is interpreted on
    Base64 and hexadecimal.
  \<^item> \<open>Ring_Buffers\<close>, \<open>Ring_Queue\<close>: \<open>ds/RingBuffer.cpp\<close>.  The locale \<open>byte_queue\<close> is the contract of a first-in
    first-out queue; its client lemma about any sequence of operations is used on the model.
  \<^item> \<open>Bit_Algorithms\<close>, \<open>Bit_Arrays\<close>: \<open>include/pdk/kernel/Algorithms.h\<close>, \<open>ds/BitArray.cpp\<close>.  The abstraction is the list of
    bits; every operation is related to a list operation.
  \<^item> \<open>Dates\<close>, \<open>Gregorian\<close>: the class \<open>Date\<close> of \<open>time/DateTime.cpp\<close> and the Gregorian calendar by counting days.  The locale
    \<open>day_numbering\<close> makes a day count an isomorphism between consecutive days and integers.
  \<^item> \<open>Clock_Times\<close>, \<open>Date_Times\<close>, \<open>Date_Time_Proofs\<close>: the classes \<open>Time\<close> and \<open>DateTime\<close> of \<open>time/DateTime.cpp\<close>, with
    both representations of the data and the invariant that ties them.
  \<^item> \<open>Number_Text\<close>: the integers of \<open>src/utils/LocaleTools.cpp\<close>, \<open>src/utils/Locale.cpp\<close>, \<open>ByteArray::setNum\<close> and
    \<open>String::number\<close>.
  \<^item> \<open>Version_Numbers\<close>, \<open>Version_Proofs\<close>: \<open>src/utils/VersionNumber.cpp\<close>, refined to lists of segments; versions are made
    an instance of the class of linear orders.
  \<^item> \<open>Utf_Codecs\<close>, \<open>Utf_Forms\<close>, \<open>Utf_Streams\<close>: \<open>text/codecs/UtfCodec.cpp\<close>.  The encoding forms of Unicode are the
    reference.  The locales \<open>stream_conversion\<close> and \<open>stream_converter\<close> say what a converter with a state owes to its
    caller: conversion in pieces equals conversion at once.
  \<^item> \<open>Read_Write_Lock\<close>, \<open>Lock_Proofs\<close>, \<open>Lock_Steps\<close>, \<open>Recursive_Locks\<close>: \<open>os/thread/ReadWriteLock.cpp\<close> as a step relation
    on the lock and the multiset of the places of its threads, with its invariant; the recursive operations as functions.
  \<^item> \<open>Timer_Lists\<close>, \<open>Timer_Proofs\<close>: \<open>src/kernel/_platform/TimerInfoUnix.cpp\<close>, the list of timers of an event loop.  The
    clock and the receivers of timer events are parameters.
  \<^item> \<open>Byte_Search\<close>, \<open>Search_Proofs\<close>: \<open>ds/ByteArrayMatcher.cpp\<close>, \<open>lang/StringMatcher.cpp\<close> and the searches of
    \<open>ds/ByteArray.cpp\<close>, against a search position by position.  \<open>Byte_Replace\<close>, \<open>Replace_Proofs\<close>: \<open>ByteArray::replace\<close>.
  \<^item> \<open>String_Compare\<close>: the case-sensitive comparison of \<open>lang/String.cpp\<close> with its vectorised loops.  \<open>Json_Layout\<close>,
    \<open>Json_Parser\<close>, \<open>Json_Lookup\<close>: \<open>utils/json/\<close>; the binary format in a block of bytes, the parser that writes it,
    and the access to values.  \<open>Json_Reader\<close> is the specification: a reader of trees from text, and what it means that a
    tree lies in a block.  \<open>Json_Memory\<close>, \<open>Json_Simulation\<close>, \<open>Json_Refinement\<close> and \<open>Json_Documents\<close> show that the parser refines
    the reader, \<open>Json_Reading\<close> that the reader consumes its text,
    and \<open>Json_Growth\<close> that no size overflows in a text shorter than \<open>2 ^ 25\<close> bytes and that one shorter than \<open>2 ^ 23\<close>
    bytes is never too large, as at most twelve bytes are written for a byte of text.  The locale \<open>key_order\<close> is the contract of the
    binary search.  \<open>Json_Properties\<close> has the properties.
    \<open>Json_Writer\<close> is the output of text and \<open>Json_Strings\<close>, \<open>Json_Writing\<close>, \<open>Json_Round_Trip\<close>, \<open>Json_Nesting\<close> show that
    what is written is read again, that the escaping of strings stays in its block, and how deep documents can be; \<open>Json_Text_Properties\<close> has the properties of this.
    \<open>Json_Validity\<close> is the check of binary documents that come from outside, which accepts what the parser makes when
    the keys ascend.

  \<^bold>\<open>Conventions.\<close>  Words of 8, 16, 32 and 64 bits are used where the code computes with wrap-around or bits; other lengths
  and indices are natural numbers or integers.  \<open>None\<close>, or the outcome \<open>Undefined\<close> of the JSON parser, is where the code
  asserts, throws, or overflows a signed type: in the calendar, the version numbers, \<open>ByteArray::replace\<close> and \<open>count\<close>,
  the sizes of the JSON parser and the texts made from a JSON document.  Elsewhere a length stays a number without a bound, and
  the code agrees as long as no length leaves the range of \<open>int\<close>: the other operations of \<open>ByteArray\<close>, \<open>BitArray\<close> and
  \<open>RingBuffer\<close>, the size \<open>(size * 3) / 4\<close> that \<open>fromBase64\<close> allocates (up to 715827882 characters), the
  intervals of timers, the output of JSON text.
  Loops are structural recursion or recursion with a proved measure, except the loop of \<open>ByteArray::replace\<close> for a longer
  string, a partial function that is proved to return, and the JSON parser: its fuel is the depth of its recursion
  (the nesting limit is enough, \<open>json_parse_total\<close>) and, for its loops, the length of the text.  The bytes a fresh
  allocation contains are the parameter \<open>junk\<close>; they are never assumed to be zero.  An allocation of a container that
  throws \<open>bad_alloc\<close> is not modelled, except for the texts of a JSON document.

  \<^bold>\<open>Parameters.\<close>  What is not in the repository is an argument: \<open>mktime\<close>, \<open>localtime\<close> and the time zone backends
  (\<open>platform\<close> in \<open>Date_Times\<close>), the byte order of the host in the codecs, the choices of the scheduler and of the free
  list in the lock (\<open>choice\<close>), the conversion of text to a floating point number and the success of \<open>malloc\<close> and \<open>realloc\<close> in the JSON parser.
  So is what the language leaves undefined but the code relies on: the position of an iterator of \<open>std::list\<close> that has been
  advanced past the end (\<open>past\<close> in \<open>Timer_Lists\<close>).  The theorem on local time assumes of \<open>localtime\<close> and \<open>mktime\<close> what the C standard says of
  them, and its witness gives functions that satisfy it.

  \<^bold>\<open>What the lemmas show.\<close>  Representation invariants kept by every operation (byte arrays, ring buffer, bit array,
  date and time, version, lock); equality of the optimised routines with their specification (counting bits, comparing,
  searching, decoding); round trips of every pair of encoder and decoder; bounds of sizes and the places where a word
  overflows; liveness of the lock; and, as theorems too, the places where the code does not do what it means to do.

  \<^bold>\<open>Not modelled.\<close>  The tables of \<open>UnicodeTables.cpp\<close>, of the Asian and single byte codecs and of \<open>LocaleDataPrivate.h\<close>,
  which are data generated from elsewhere, and with them case folding, normalisation and names of months; floating point
  numbers as text, which a vendored library converts; files, processes, sockets, shared libraries and settings, which are
  system calls; the editing of JSON documents; strings beyond their comparison; the signal and slot templates, the metaprogramming of \<open>stdext\<close>, and the tests.
\<close>

end
